(* ===== verification/Prelude.thy ===== *)
theory Prelude
  imports Main "HOL-Library.Word"
begin

text \<open>
  Shared vocabulary of the development.

  A C string is modelled by its contents up to the terminating zero, a value of type
  \<^typ>\<open>string\<close>; a character array (a buffer that holds a C string) by the list of
  all its bytes, from which \<open>cstr\<close> reads the C string.  Every store through an index
  goes through \<open>poke\<close>, which is \<open>None\<close> when the index is outside the array, so that a
  theorem saying that an operation returns \<open>Some\<close> also says that it stays inside its
  buffers.  The character macros are those of include/macros.h; \<open>tolower\<close> is the one of
  the C locale.
\<close>

named_theorems cstr_simps \<open>reading C strings out of buffers\<close>
named_theorems step_defs \<open>one-step operations, unfolded together\<close>
named_theorems inv_intros \<open>invariant preservation\<close>

section \<open>Characters\<close>

abbreviation NUL :: char where "NUL \<equiv> CHR 0x00"
abbreviation KEY_ESC :: char where "KEY_ESC \<equiv> CHR 0x1B"

definition cval :: "char \<Rightarrow> nat" where
  "cval c = of_char c"

text \<open>The value of a plain \<open>char\<close>, which is signed on the platforms the program is built for.\<close>

definition csval :: "char \<Rightarrow> int" where
  "csval c = (if cval c < 128 then int (cval c) else int (cval c) - 256)"

text \<open>The test \<open>c & 0x80\<close>.\<close>

definition high_bit :: "char \<Rightarrow> bool" where
  "high_bit c \<longleftrightarrow> 128 \<le> cval c"

definition chartoupper :: "char \<Rightarrow> char" where
  "chartoupper c = (if 97 \<le> cval c \<and> cval c \<le> 122 then char_of (cval c - 32) else c)"

definition chartolower :: "char \<Rightarrow> char" where
  "chartolower c = (if 65 \<le> cval c \<and> cval c \<le> 90 then char_of (cval c + 32) else c)"

definition is_alpha :: "char \<Rightarrow> bool" where
  "is_alpha c \<longleftrightarrow> 65 \<le> cval c \<and> cval c \<le> 90 \<or> 97 \<le> cval c \<and> cval c \<le> 122"

definition is_digit :: "char \<Rightarrow> bool" where
  "is_digit c \<longleftrightarrow> 48 \<le> cval c \<and> cval c \<le> 57"

text \<open>\<open>isprint2(c)\<close>: some bit of \<open>0xe0\<close> is set and the character is not DEL.\<close>

definition isprint2 :: "char \<Rightarrow> bool" where
  "isprint2 c \<longleftrightarrow> 32 \<le> cval c \<and> cval c \<noteq> 127"

lemma cval_less [simp]: "cval c < 256"
  by (simp add: cval_def)

lemma cval_char_of [simp]: "n < 256 \<Longrightarrow> cval (char_of n) = n"
  by (simp add: cval_def)

lemma cval_inject [simp]: "cval a = cval b \<longleftrightarrow> a = b"
  by (simp add: cval_def)

lemma cval_chartolower:
  "cval (chartolower c) = (if 65 \<le> cval c \<and> cval c \<le> 90 then cval c + 32 else cval c)"
  by (simp add: chartolower_def)

lemma cval_NUL [simp]: "cval NUL = 0"
  by (simp add: cval_def)

lemma cval_eq_0 [simp]: "cval c = 0 \<longleftrightarrow> c = NUL"
  using cval_inject [of c NUL] by simp

lemma chartolower_idem [simp]: "chartolower (chartolower c) = chartolower c"
  by (rule cval_inject [THEN iffD1]) (simp add: cval_chartolower)

lemma chartolower_NUL [simp]: "chartolower NUL = NUL"
  by (simp add: chartolower_def)

lemma chartolower_eq_NUL [simp]: "chartolower c = NUL \<longleftrightarrow> c = NUL"
proof -
  have "cval (chartolower c) = 0 \<longleftrightarrow> cval c = 0"
    by (simp add: cval_chartolower del: cval_eq_0)
  then show ?thesis by simp
qed

section \<open>Keys\<close>

text \<open>The codes of the keys (include/consts.h, \<open>Ctrl\<close> of include/macros.h), as \<open>igetkey\<close> returns them.\<close>

definition Ctrl :: "char \<Rightarrow> nat" where
  "Ctrl c = cval c mod 32"

abbreviation (input) KEY_UP :: nat where "KEY_UP \<equiv> 0x0101"
abbreviation (input) KEY_DOWN :: nat where "KEY_DOWN \<equiv> 0x0102"
abbreviation (input) KEY_RIGHT :: nat where "KEY_RIGHT \<equiv> 0x0103"
abbreviation (input) KEY_LEFT :: nat where "KEY_LEFT \<equiv> 0x0104"
abbreviation (input) KEY_HOME :: nat where "KEY_HOME \<equiv> 0x0201"
abbreviation (input) KEY_INS :: nat where "KEY_INS \<equiv> 0x0202"
abbreviation (input) KEY_DEL :: nat where "KEY_DEL \<equiv> 0x0203"
abbreviation (input) KEY_END :: nat where "KEY_END \<equiv> 0x0204"
abbreviation (input) KEY_PGUP :: nat where "KEY_PGUP \<equiv> 0x0205"
abbreviation (input) KEY_PGDN :: nat where "KEY_PGDN \<equiv> 0x0206"

lemma Ctrl_codes [simp]:
  "Ctrl (CHR ''A'') = 1" "Ctrl (CHR ''B'') = 2" "Ctrl (CHR ''C'') = 3" "Ctrl (CHR ''D'') = 4" "Ctrl (CHR ''E'') = 5"
  "Ctrl (CHR ''F'') = 6" "Ctrl (CHR ''G'') = 7" "Ctrl (CHR ''H'') = 8" "Ctrl (CHR ''I'') = 9" "Ctrl (CHR ''K'') = 11"
  "Ctrl (CHR ''N'') = 14" "Ctrl (CHR ''O'') = 15" "Ctrl (CHR ''P'') = 16" "Ctrl (CHR ''Q'') = 17" "Ctrl (CHR ''R'') = 18"
  "Ctrl (CHR ''S'') = 19" "Ctrl (CHR ''T'') = 20" "Ctrl (CHR ''U'') = 21" "Ctrl (CHR ''V'') = 22" "Ctrl (CHR ''Y'') = 25"
  by (simp_all add: Ctrl_def cval_def)

section \<open>Strings and buffers\<close>

text \<open>\<open>s[i]\<close> for a string given by its contents: the terminating zero at its end.\<close>

definition cget :: "string \<Rightarrow> nat \<Rightarrow> char" where
  "cget s i = (if i < length s then s ! i else NUL)"

definition cstr :: "char list \<Rightarrow> string" where
  "cstr buf = takeWhile (\<lambda>c. c \<noteq> NUL) buf"

definition is_cstr :: "string \<Rightarrow> bool" where
  "is_cstr s \<longleftrightarrow> NUL \<notin> set s"

definition poke :: "'a list \<Rightarrow> nat \<Rightarrow> 'a \<Rightarrow> 'a list option" where
  "poke xs i x = (if i < length xs then Some (xs[i := x]) else None)"

lemma is_cstr_simps [cstr_simps, simp]:
  "is_cstr []"
  "is_cstr (c # s) \<longleftrightarrow> c \<noteq> NUL \<and> is_cstr s"
  "is_cstr (s @ t) \<longleftrightarrow> is_cstr s \<and> is_cstr t"
  by (auto simp: is_cstr_def)

lemma is_cstr_take [simp]: "is_cstr s \<Longrightarrow> is_cstr (take n s)"
  by (auto simp: is_cstr_def dest: in_set_takeD)

lemma is_cstr_drop [simp]: "is_cstr s \<Longrightarrow> is_cstr (drop n s)"
  by (auto simp: is_cstr_def dest: in_set_dropD)

lemma is_cstr_cstr [simp]: "is_cstr (cstr buf)"
  by (auto simp: is_cstr_def cstr_def dest: set_takeWhileD)

lemma cget_NUL: "is_cstr s \<Longrightarrow> cget s i = NUL \<longleftrightarrow> length s \<le> i"
  by (auto simp: cget_def is_cstr_def in_set_conv_nth)

lemma cget_nth [simp]: "i < length s \<Longrightarrow> cget s i = s ! i"
  by (simp add: cget_def)

lemma cget_end [simp]: "length s \<le> i \<Longrightarrow> cget s i = NUL"
  by (simp add: cget_def)

lemma cstr_append_NUL [cstr_simps, simp]: "is_cstr s \<Longrightarrow> cstr (s @ NUL # t) = s"
  by (auto simp: cstr_def is_cstr_def takeWhile_append)

lemma cstr_is_cstr [cstr_simps]: "is_cstr s \<Longrightarrow> cstr s = s"
  by (auto simp: cstr_def is_cstr_def)

lemma cstr_split: "NUL \<in> set buf \<Longrightarrow> \<exists>rest. buf = cstr buf @ NUL # rest"
proof -
  assume "NUL \<in> set buf"
  then have ne: "dropWhile (\<lambda>c. c \<noteq> NUL) buf \<noteq> []"
    by auto
  then have "hd (dropWhile (\<lambda>c. c \<noteq> NUL) buf) = NUL"
    using hd_dropWhile by blast
  with ne obtain rest where "dropWhile (\<lambda>c. c \<noteq> NUL) buf = NUL # rest"
    by (cases "dropWhile (\<lambda>c. c \<noteq> NUL) buf") auto
  then show ?thesis
    unfolding cstr_def by (metis takeWhile_dropWhile_id)
qed

section \<open>Lists\<close>

text \<open>\<open>memmove(&xs[dst], &xs[src], n)\<close> inside one array.\<close>

definition memmove :: "'a list \<Rightarrow> nat \<Rightarrow> nat \<Rightarrow> nat \<Rightarrow> 'a list" where
  "memmove xs dst src n = take dst xs @ take n (drop src xs) @ drop (dst + n) xs"

lemma length_memmove [simp]:
  "dst + n \<le> length xs \<Longrightarrow> src + n \<le> length xs \<Longrightarrow> length (memmove xs dst src n) = length xs"
  by (simp add: memmove_def)

text \<open>Removing and inserting one element of a list by position.\<close>

definition remove_nth :: "nat \<Rightarrow> 'a list \<Rightarrow> 'a list" where
  "remove_nth i xs = take i xs @ drop (Suc i) xs"

definition insert_nth :: "nat \<Rightarrow> 'a \<Rightarrow> 'a list \<Rightarrow> 'a list" where
  "insert_nth i x xs = take i xs @ x # drop i xs"

lemma length_remove_nth [simp]: "i < length xs \<Longrightarrow> length (remove_nth i xs) = length xs - 1"
  by (simp add: remove_nth_def)

lemma length_insert_nth [simp]: "i \<le> length xs \<Longrightarrow> length (insert_nth i x xs) = Suc (length xs)"
  by (simp add: insert_nth_def)

lemma remove_insert_nth [simp]: "i \<le> length xs \<Longrightarrow> remove_nth i (insert_nth i x xs) = xs"
  by (simp add: remove_nth_def insert_nth_def)

lemma insert_remove_nth: "i < length xs \<Longrightarrow> insert_nth i (xs ! i) (remove_nth i xs) = xs"
  by (simp add: remove_nth_def insert_nth_def id_take_nth_drop [symmetric])

lemma remove_nth_distinct:
  "distinct (map k xs) \<Longrightarrow> i < length xs \<Longrightarrow> remove_nth i xs = filter (\<lambda>x. k x \<noteq> k (xs ! i)) xs"
proof (induction xs arbitrary: i)
  case (Cons x xs)
  show ?case
  proof (cases i)
    case 0
    with Cons.prems have "filter (\<lambda>y. k y \<noteq> k x) xs = xs" by (intro filter_True) (auto simp: image_iff)
    with 0 show ?thesis by (simp add: remove_nth_def)
  next
    case (Suc j)
    with Cons.prems have "k x \<noteq> k (xs ! j)" by (auto simp: image_iff)
    with Cons Suc show ?thesis by (simp add: remove_nth_def)
  qed
qed simp

lemma remove_nth_map: "map f (remove_nth i xs) = remove_nth i (map f xs)"
  by (simp add: remove_nth_def take_map drop_map)

lemma distinct_remove_nth: "distinct ys \<Longrightarrow> distinct (remove_nth i ys)"
  by (simp add: remove_nth_def distinct_take distinct_drop set_take_disj_set_drop_if_distinct)

lemma set_remove_nth: "x \<in> set (remove_nth i xs) \<Longrightarrow> x \<in> set xs"
  by (auto simp: remove_nth_def dest: in_set_takeD in_set_dropD)

lemma remove_nth_update [simp]: "remove_nth i (xs[i := x]) = remove_nth i xs"
  by (simp add: remove_nth_def)

lemma take_Suc_update: "n < length xs \<Longrightarrow> take (Suc n) (xs[n := x]) = take n xs @ [x]"
  by (simp add: take_Suc_conv_app_nth)

section \<open>Comparing strings\<close>

text \<open>The C library's \<open>strcmp\<close> (bytes as unsigned characters) and \<open>strcasecmp(s, t) = 0\<close>.\<close>

fun strcmp :: "string \<Rightarrow> string \<Rightarrow> int" where
  "strcmp [] [] = 0"
| "strcmp [] (d # t) = - int (cval d)"
| "strcmp (c # s) [] = int (cval c)"
| "strcmp (c # s) (d # t) = (if c = d then strcmp s t else int (cval c) - int (cval d))"

definition strcaseeq :: "string \<Rightarrow> string \<Rightarrow> bool" where
  "strcaseeq s t \<longleftrightarrow> map chartolower s = map chartolower t"

lemma strcmp_eq_0: "is_cstr s \<Longrightarrow> is_cstr t \<Longrightarrow> strcmp s t = 0 \<longleftrightarrow> s = t"
  by (induction s t rule: strcmp.induct) auto

lemma strcmp_refl [simp]: "strcmp s s = 0"
  by (induction s) auto

lemma strcmp_sym: "strcmp t s = - strcmp s t"
  by (induction s t rule: strcmp.induct) auto

lemma strcmp_less_cases:
  "strcmp (c # s) (d # t) \<le> 0 \<longleftrightarrow> cval c < cval d \<or> c = d \<and> strcmp s t \<le> 0"
proof (cases "c = d")
  case False
  then have "cval c \<noteq> cval d" by simp
  with False show ?thesis by (auto simp del: cval_inject)
qed simp

lemma strcmp_trans: "is_cstr s \<Longrightarrow> is_cstr t \<Longrightarrow> is_cstr u \<Longrightarrow>
  strcmp s t \<le> 0 \<Longrightarrow> strcmp t u \<le> 0 \<Longrightarrow> strcmp s u \<le> 0"
proof (induction s arbitrary: t u)
  case Nil
  then show ?case by (cases u) auto
next
  case (Cons c s)
  from Cons.prems obtain d t' where t: "t = d # t'" by (cases t) auto
  with Cons.prems obtain e u' where u: "u = e # u'" by (cases u) auto
  from Cons.prems(4,5) show ?case
    using Cons.IH [of t' u'] Cons.prems(1-3) unfolding t u strcmp_less_cases by auto
qed

text \<open>Storing a C string in a buffer.\<close>

definition strcpy :: "char list \<Rightarrow> string \<Rightarrow> char list option" where
  "strcpy buf s = (if length s < length buf then Some (s @ NUL # drop (length s + 1) buf) else None)"

text \<open>\<open>strstr(s, t) != NULL\<close>.\<close>

definition strstr :: "string \<Rightarrow> string \<Rightarrow> bool" where
  "strstr s t \<longleftrightarrow> (\<exists>i \<le> length s. take (length t) (drop i s) = t)"

section \<open>Numbers in strings\<close>

text \<open>The C library's \<open>atoi\<close>.\<close>

definition is_space :: "char \<Rightarrow> bool" where
  "is_space c \<longleftrightarrow> cval c = 32 \<or> 9 \<le> cval c \<and> cval c \<le> 13"

definition decimal :: "string \<Rightarrow> int" where
  "decimal s = foldl (\<lambda>n c. 10 * n + (int (cval c) - 48)) 0 (takeWhile is_digit s)"

definition atoi :: "char list \<Rightarrow> int" where
  "atoi s =
     (let s1 = dropWhile is_space s in
      if s1 \<noteq> [] \<and> hd s1 = CHR 0x2D then - decimal (tl s1)
      else if s1 \<noteq> [] \<and> hd s1 = CHR 0x2B then decimal (tl s1)
      else decimal s1)"

text \<open>\<open>%d\<close>, \<open>%-ns\<close> and \<open>%ns\<close> of \<open>printf\<close>.\<close>

fun dec_nat :: "nat \<Rightarrow> string" where
  "dec_nat n = (if n < 10 then [char_of (n + 48)] else dec_nat (n div 10) @ [char_of (n mod 10 + 48)])"

declare dec_nat.simps [simp del]

definition dec :: "int \<Rightarrow> string" where
  "dec i = (if i < 0 then CHR 0x2D # dec_nat (nat (- i)) else dec_nat (nat i))"

definition pad_right :: "nat \<Rightarrow> string \<Rightarrow> string" where
  "pad_right n s = s @ replicate (n - length s) (CHR '' '')"

definition pad_left :: "nat \<Rightarrow> string \<Rightarrow> string" where
  "pad_left n s = replicate (n - length s) (CHR '' '') @ s"

text \<open>\<open>strncasecmp(s, t, n) == 0\<close>, and \<open>snprintf(buf, size, ...)\<close> of a formatted text.\<close>

definition strncaseeq :: "string \<Rightarrow> string \<Rightarrow> nat \<Rightarrow> bool" where
  "strncaseeq s t n \<longleftrightarrow> map chartolower (take n s) = map chartolower (take n t)"

definition snprintf :: "char list \<Rightarrow> string \<Rightarrow> char list" where
  "snprintf buf s = (let t = take (length buf - 1) s in t @ NUL # drop (length t + 1) buf)"

section \<open>Calls that may fail or not return\<close>

lemma case_option_Some [simp]: "(case x of None \<Rightarrow> None | Some y \<Rightarrow> Some y) = x"
  by (cases x) auto

end
