(* ===== verification/CString.thy ===== *)
theory CString
  imports Prelude
begin

text \<open>
  The string routines of lib/libSystem/string.c.  Routines that rewrite a string in place
  return its new contents; \<open>strlcpy\<close> and \<open>strlcat\<close>, whose point is the size of the
  destination, work on the destination array byte by byte.  A pointer into a string is its
  index, the null pointer \<open>None\<close>.
\<close>

section \<open>Definitions\<close>

subsection \<open>Case, blanks and escape sequences\<close>

fun strtolower :: "string \<Rightarrow> string" where
  "strtolower [] = []"
| "strtolower (c # src) = chartolower c # strtolower src"

fun strtoupper :: "string \<Rightarrow> string" where
  "strtoupper [] = []"
| "strtoupper (c # src) = chartoupper c # strtoupper src"

text \<open>The two pointer loops of \<open>killwordsp\<close>; the second is \<open>None\<close> if it leaves the string.\<close>

fun skip_spaces :: "string \<Rightarrow> string" where
  "skip_spaces [] = []"
| "skip_spaces (c # s) = (if c = CHR '' '' then skip_spaces s else c # s)"

fun back_spaces :: "string \<Rightarrow> nat \<Rightarrow> nat option" where
  "back_spaces s 0 = (if cget s 0 = CHR '' '' then None else Some 0)"
| "back_spaces s (Suc p) = (if cget s (Suc p) = CHR '' '' then back_spaces s p else Some (Suc p))"

definition killwordsp :: "string \<Rightarrow> (string \<times> int) option" where
  "killwordsp str =
     (let ptr = skip_spaces str in
      if ptr \<noteq> [] then
        (case back_spaces ptr (length ptr - 1) of
           None \<Rightarrow> None
         | Some p \<Rightarrow> Some (take (p + 1) ptr, 1))
      else Some ([], 0))"

text \<open>The scan of \<open>my_ansi_filter\<close> and \<open>ansi_filter\<close>: \<open>flag\<close> is set inside an escape sequence.\<close>

fun ansi_scan :: "bool \<Rightarrow> string \<Rightarrow> string" where
  "ansi_scan flag [] = []"
| "ansi_scan flag (c # s) =
     (if c = KEY_ESC then ansi_scan True s
      else if flag \<and> is_alpha c then ansi_scan False s
      else if flag then ansi_scan flag s
      else c # ansi_scan flag s)"

fun fixstr :: "string \<Rightarrow> string \<Rightarrow> char \<Rightarrow> string" where
  "fixstr [] fixlist ch = []"
| "fixstr (p # s) fixlist ch = (if p \<in> set fixlist then ch else p) # fixstr s fixlist ch"

text \<open>\<open>trim\<close>: the loop from the end (with the number of characters still to look at), then the loop from the front.\<close>

definition is_blank :: "char \<Rightarrow> bool" where
  "is_blank c \<longleftrightarrow> c = CHR '' '' \<or> c = CHR 0x09"

fun trim_back :: "string \<Rightarrow> nat \<Rightarrow> string" where
  "trim_back str 0 = str"
| "trim_back str (Suc n) = (if \<not> is_blank (cget str n) then take (n + 1) str else trim_back str n)"

fun trim_front :: "string \<Rightarrow> string \<Rightarrow> string" where
  "trim_front str [] = str"
| "trim_front str (c # ptr) = (if \<not> is_blank c then c # ptr else trim_front str ptr)"

definition trim :: "string \<Rightarrow> string" where
  "trim str = (let str' = trim_back str (length str) in trim_front str' str')"

subsection \<open>Bounded copies\<close>

text \<open>
  The copying loop of \<open>strlcpy\<close>, entered with \<open>n > 0\<close>: destination, \<open>d\<close>, \<open>s\<close> and \<open>n\<close>
  when the loop is left.
\<close>

fun strlcpy_copy ::
  "char list \<Rightarrow> nat \<Rightarrow> string \<Rightarrow> nat \<Rightarrow> nat \<Rightarrow> (char list \<times> nat \<times> nat \<times> nat) option" where
  "strlcpy_copy dst d src s 0 = Some (dst, d, s, 0)"
| "strlcpy_copy dst d src s (Suc n) =
     (case poke dst d (cget src s) of
        None \<Rightarrow> None
      | Some dst' \<Rightarrow>
          if cget src s = NUL then Some (dst', d + 1, s + 1, Suc n)
          else strlcpy_copy dst' (d + 1) src (s + 1) n)"

text \<open>The traversal \<open>while (*s++)\<close>: the index behind the terminating zero.\<close>

definition strlcpy_rest :: "string \<Rightarrow> nat \<Rightarrow> nat" where
  "strlcpy_rest src s = (if s \<le> length src then length src + 1 else s + 1)"

definition strlcpy :: "char list \<Rightarrow> string \<Rightarrow> nat \<Rightarrow> (char list \<times> nat) option" where
  "strlcpy dst src siz =
     (case (if siz \<noteq> 0 \<and> siz - 1 \<noteq> 0 then strlcpy_copy dst 0 src 0 (siz - 1)
            else Some (dst, 0, 0, 0)) of
        None \<Rightarrow> None
      | Some (dst1, d, s, n) \<Rightarrow>
          if n = 0 then
            (case (if siz \<noteq> 0 then poke dst1 d NUL else Some dst1) of
               None \<Rightarrow> None
             | Some dst2 \<Rightarrow> Some (dst2, strlcpy_rest src s - 1))
          else Some (dst1, s - 1))"

text \<open>The first loop of \<open>strlcat\<close>: the end of \<open>dst\<close>, but not past \<open>siz\<close> bytes.\<close>

fun strlcat_end :: "char list \<Rightarrow> nat \<Rightarrow> nat \<Rightarrow> nat option" where
  "strlcat_end dst d 0 = Some d"
| "strlcat_end dst d (Suc n) =
     (if d < length dst then (if dst ! d \<noteq> NUL then strlcat_end dst (d + 1) n else Some d)
      else None)"

fun strlcat_copy :: "char list \<Rightarrow> nat \<Rightarrow> string \<Rightarrow> nat \<Rightarrow> (char list \<times> nat) option" where
  "strlcat_copy dst d [] n = Some (dst, d)"
| "strlcat_copy dst d (c # s) n =
     (if n \<noteq> 1 then
        (case poke dst d c of
           None \<Rightarrow> None
         | Some dst' \<Rightarrow> strlcat_copy dst' (d + 1) s (n - 1))
      else strlcat_copy dst d s n)"

definition strlcat :: "char list \<Rightarrow> string \<Rightarrow> nat \<Rightarrow> (char list \<times> nat) option" where
  "strlcat dst src siz =
     (case strlcat_end dst 0 siz of
        None \<Rightarrow> None
      | Some dlen \<Rightarrow>
          (let n = siz - dlen in
           if n = 0 then Some (dst, dlen + length src)
           else
             (case strlcat_copy dst dlen src n of
                None \<Rightarrow> None
              | Some (dst1, d) \<Rightarrow>
                  (case poke dst1 d NUL of
                     None \<Rightarrow> None
                   | Some dst2 \<Rightarrow> Some (dst2, dlen + length src)))))"

text \<open>
  \<open>my_ansi_filter\<close> copies the filtered text back with \<open>strlcpy(source, result, loc + 1)\<close>.
  \<open>ansi_filter\<close> appends each kept character with \<open>strcat\<close> to a block fresh from
  \<open>malloc\<close>, whose bytes \<open>mem\<close> are whatever the allocator left there.
\<close>

definition my_ansi_filter :: "char list \<Rightarrow> char list option" where
  "my_ansi_filter source =
     (let result = ansi_scan False (cstr source) in
      map_option fst (strlcpy source result (length result + 1)))"

definition strcat_char :: "char list \<Rightarrow> char \<Rightarrow> char list option" where
  "strcat_char mem c =
     (let n = length (cstr mem) in
      if n + 1 < length mem then Some (mem[n := c, n + 1 := NUL]) else None)"

fun ansi_filter_loop :: "char list \<Rightarrow> bool \<Rightarrow> string \<Rightarrow> char list option" where
  "ansi_filter_loop mem flag [] = Some mem"
| "ansi_filter_loop mem flag (c # s) =
     (if c = KEY_ESC then ansi_filter_loop mem True s
      else if flag \<and> is_alpha c then ansi_filter_loop mem False s
      else if flag then ansi_filter_loop mem flag s
      else
        (case strcat_char mem c of
           None \<Rightarrow> None
         | Some mem' \<Rightarrow> ansi_filter_loop mem' flag s))"

definition ansi_filter :: "char list \<Rightarrow> string \<Rightarrow> char list option" where
  "ansi_filter mem source = ansi_filter_loop mem False source"

subsection \<open>Searching\<close>

text \<open>
  \<open>strcasestr\<close> as a machine over haystack positions.  The three functions are the three
  places the code jumps to: the head of the inner \<open>do\<close> loop, the label \<open>shloop\<close> (the test
  at the foot of that loop) and the label \<open>jin\<close>.  \<open>haystack\<close> is the position \<open>i\<close> the
  pointer has on entry; \<open>b\<close> and \<open>c\<close> are the first two characters of the needle in lower case.
\<close>

text \<open>The comparison of the tails: \<open>True\<close> when it leaves the loop with \<open>a = 0\<close>.\<close>

function tail_matches :: "string \<Rightarrow> nat \<Rightarrow> string \<Rightarrow> nat \<Rightarrow> bool" where
  "tail_matches haystack r needle k =
     (let a = chartolower (cget needle k) in
      if chartolower (cget haystack r) \<noteq> a then a = NUL
      else if a = NUL then True
      else tail_matches haystack (r + 1) needle (k + 1))"
  by pat_completeness auto
termination
  by (relation "measure (\<lambda>(h, r, n, k). length n - k)") (auto simp: Let_def cget_def split: if_splits)

function (sequential)
    scs_do :: "string \<Rightarrow> string \<Rightarrow> nat \<Rightarrow> nat option"
and scs_shloop :: "string \<Rightarrow> string \<Rightarrow> nat \<Rightarrow> nat option"
and scs_jin :: "string \<Rightarrow> string \<Rightarrow> nat \<Rightarrow> nat option" where
  "scs_do haystack needle i =
     (if length haystack \<le> i + 1 then None
      else if chartolower (cget haystack (i + 1)) = chartolower (cget needle 0)
      then scs_jin haystack needle (i + 1)
      else if length haystack \<le> i + 2 then None
      else scs_shloop haystack needle (i + 2))"
| "scs_shloop haystack needle i =
     (if chartolower (cget haystack i) \<noteq> chartolower (cget needle 0)
      then scs_do haystack needle i
      else scs_jin haystack needle i)"
| "scs_jin haystack needle i =
     (if length haystack \<le> i + 1 then None
      else if chartolower (cget haystack (i + 1)) \<noteq> chartolower (cget needle 1)
      then scs_shloop haystack needle (i + 1)
      else if tail_matches haystack (i + 2) needle 2 then Some i
      else scs_do haystack needle i)"
  by pat_completeness auto
termination
  by (relation "measure (\<lambda>x. case x of
        Inl (h, n, i) \<Rightarrow> 3 * (length h - i)
      | Inr (Inl (h, n, i)) \<Rightarrow> 3 * (length h - i) + 3
      | Inr (Inr (h, n, i)) \<Rightarrow> 3 * (length h - i) + 2)") auto

fun scs_first :: "string \<Rightarrow> char \<Rightarrow> nat \<Rightarrow> nat option" where
  "scs_first [] b i = None"
| "scs_first (c # h) b i = (if chartolower c \<noteq> b then scs_first h b (i + 1) else Some i)"

definition strcasestr :: "string \<Rightarrow> string \<Rightarrow> nat option" where
  "strcasestr haystack needle =
     (if chartolower (cget needle 0) \<noteq> NUL then
        (case scs_first haystack (chartolower (cget needle 0)) 0 of
           None \<Rightarrow> None
         | Some i \<Rightarrow>
             if chartolower (cget needle 1) = NUL then Some i
             else scs_jin haystack needle i)
      else Some 0)"

text \<open>\<open>strncasecmp(p, s, len) = 0\<close> of the C library.\<close>

definition strncaseeq :: "string \<Rightarrow> string \<Rightarrow> nat \<Rightarrow> bool" where
  "strncaseeq s t n \<longleftrightarrow> map chartolower (take n s) = map chartolower (take n t)"

text \<open>\<open>strstr2\<close>: the scan that steps over the second byte of a double-byte character.\<close>

function strstr2_scan :: "string \<Rightarrow> string \<Rightarrow> nat \<Rightarrow> nat option" where
  "strstr2_scan s s2 p =
     (if length s \<le> p then None
      else if strncaseeq (drop p s) s2 (length s2) then Some p
      else if high_bit (cget s p) \<and> 31 < csval (cget s (p + 1)) then strstr2_scan s s2 (p + 2)
      else strstr2_scan s s2 (p + 1))"
  by pat_completeness auto
termination by (relation "measure (\<lambda>(s, s2, p). length s - p)") auto

definition strstr2 :: "string \<Rightarrow> string \<Rightarrow> nat option" where
  "strstr2 s s2 =
     (case strcasestr s s2 of
        None \<Rightarrow> None
      | Some p \<Rightarrow> strstr2_scan s s2 p)"

fun inset :: "string \<Rightarrow> char \<Rightarrow> bool" where
  "inset [] c = False"
| "inset (x # delim) c = (if x \<noteq> c then inset delim c else True)"

text \<open>\<open>strsect\<close>: \<open>ptr\<close> is the rest of the string, \<open>pos\<close> its index.\<close>

function strsect_from :: "string \<Rightarrow> nat \<Rightarrow> string \<Rightarrow> string \<Rightarrow> nat option" where
  "strsect_from ptr pos sect delim =
     (if ptr \<noteq> [] then
        (let ptr1 = dropWhile (inset delim) ptr;
             pos1 = pos + (length ptr - length ptr1);
             word = takeWhile (\<lambda>c. \<not> inset delim c) ptr1
         in if length word = length sect \<and> word = sect then Some pos1
            else strsect_from (drop (length word) ptr1) (pos1 + length word) sect delim)
      else None)"
  by pat_completeness auto
termination
proof (relation "measure (\<lambda>(p, n, s, d). length p)", simp, clarsimp simp del: length_0_conv)
  fix ptr :: string and delim sect :: string
  assume "ptr \<noteq> []"
  show "length (dropWhile (inset delim) ptr)
      - length (takeWhile (\<lambda>c. \<not> inset delim c) (dropWhile (inset delim) ptr)) < length ptr"
  proof (cases "dropWhile (inset delim) ptr")
    case Nil
    show ?thesis unfolding Nil using \<open>ptr \<noteq> []\<close> by simp
  next
    case (Cons a list)
    moreover have "length (dropWhile (inset delim) ptr) \<le> length ptr"
      by (rule length_dropWhile_le)
    moreover have "\<not> inset delim a"
      using Cons hd_dropWhile [of "inset delim" ptr] by simp
    ultimately show ?thesis by simp
  qed
qed

definition strsect :: "string \<Rightarrow> string \<Rightarrow> string \<Rightarrow> nat option" where
  "strsect str sect delim = strsect_from str 0 sect delim"

section \<open>Case, blanks and escape sequences\<close>

declare scs_do.simps [simp del] scs_shloop.simps [simp del] scs_jin.simps [simp del]
declare tail_matches.simps [simp del] strstr2_scan.simps [simp del] strsect_from.simps [simp del]

lemma strtolower_map [simp]: "strtolower s = map chartolower s"
  by (induction s) auto

lemma strtoupper_map [simp]: "strtoupper s = map chartoupper s"
  by (induction s) auto

lemma inset_iff [simp]: "inset delim c \<longleftrightarrow> c \<in> set delim"
  by (induction delim) auto

lemma inset_fun [simp]: "inset delim = (\<lambda>c. c \<in> set delim)"
  by (rule ext) simp

lemma skip_spaces_dropWhile: "skip_spaces s = dropWhile (\<lambda>c. c = CHR '' '') s"
  by (induction s) auto

text \<open>The reference: both ends stripped of the characters that satisfy \<open>P\<close>.\<close>

definition strip_right :: "(char \<Rightarrow> bool) \<Rightarrow> string \<Rightarrow> string" where
  "strip_right P s = rev (dropWhile P (rev s))"

definition strip :: "(char \<Rightarrow> bool) \<Rightarrow> string \<Rightarrow> string" where
  "strip P s = strip_right P (dropWhile P s)"

lemma strip_right_snoc [simp]:
  "strip_right P (s @ [c]) = (if P c then strip_right P s else s @ [c])"
  by (simp add: strip_right_def)

lemma strip_right_Nil [simp]: "strip_right P [] = []"
  by (simp add: strip_right_def)

lemma strip_right_single [simp]: "strip_right P [c] = (if P c then [] else [c])"
  by (simp add: strip_right_def)

lemma strip_right_id: "s \<noteq> [] \<Longrightarrow> \<not> P (last s) \<Longrightarrow> strip_right P s = s"
  by (metis append_butlast_last_id strip_right_snoc)

lemma back_spaces_strip:
  assumes "p < length s" and "\<exists>c\<in>set (take (Suc p) s). c \<noteq> CHR '' ''"
  shows "\<exists>q. back_spaces s p = Some q \<and> take (Suc q) s = strip_right (\<lambda>c. c = CHR '' '') (take (Suc p) s)"
  using assms
proof (induction p)
  case 0
  then show ?case by (auto simp: take_Suc_conv_app_nth)
next
  case (Suc p)
  show ?case
  proof (cases "s ! Suc p = CHR '' ''")
    case True
    with Suc.prems have "\<exists>c\<in>set (take (Suc p) s). c \<noteq> CHR '' ''"
      by (auto simp: take_Suc_conv_app_nth [of "Suc p"])
    with Suc True show ?thesis
      by (simp add: take_Suc_conv_app_nth [of "Suc p"])
  next
    case False
    with Suc.prems show ?thesis
      by (simp add: take_Suc_conv_app_nth [of "Suc p"])
  qed
qed

lemma killwordsp_strip:
  "killwordsp s = Some (strip (\<lambda>c. c = CHR '' '') s, if \<forall>c\<in>set s. c = CHR '' '' then 0 else 1)"
proof (cases "skip_spaces s = []")
  case True
  then have all: "\<forall>c\<in>set s. c = CHR '' ''" by (simp add: skip_spaces_dropWhile)
  with True show ?thesis
    by (simp add: killwordsp_def strip_def flip: skip_spaces_dropWhile)
next
  case False
  let ?t = "skip_spaces s"
  have hd: "hd ?t \<noteq> CHR '' ''"
    using False hd_dropWhile unfolding skip_spaces_dropWhile by blast
  have ex: "\<exists>c\<in>set (take (Suc (length ?t - 1)) ?t). c \<noteq> CHR '' ''"
    using False hd by (cases ?t) auto
  have "length ?t - 1 < length ?t" using False by simp
  from back_spaces_strip [OF this ex] obtain q where
    "back_spaces ?t (length ?t - 1) = Some q"
    "take (Suc q) ?t = strip_right (\<lambda>c. c = CHR '' '') (take (Suc (length ?t - 1)) ?t)"
    by blast
  moreover have "\<not> (\<forall>c\<in>set s. c = CHR '' '')"
    using False by (simp add: skip_spaces_dropWhile)
  ultimately show ?thesis
    using False by (simp add: killwordsp_def Let_def strip_def skip_spaces_dropWhile)
qed

lemma ansi_scan_no_esc: "KEY_ESC \<notin> set (ansi_scan flag s)"
  by (induction flag s rule: ansi_scan.induct) auto

lemma ansi_scan_id: "KEY_ESC \<notin> set s \<Longrightarrow> ansi_scan False s = s"
  by (induction s) auto

lemma ansi_scan_idem: "ansi_scan False (ansi_scan flag s) = ansi_scan flag s"
  by (rule ansi_scan_id) (rule ansi_scan_no_esc)

lemma length_ansi_scan: "length (ansi_scan flag s) \<le> length s"
  by (induction flag s rule: ansi_scan.induct) (auto intro: le_SucI)

lemma is_cstr_ansi_scan [simp]: "is_cstr s \<Longrightarrow> is_cstr (ansi_scan flag s)"
  by (induction flag s rule: ansi_scan.induct) auto

text \<open>An escape sequence: ESC, then characters that are neither ESC nor a letter, then a letter.\<close>

lemma ansi_scan_sequence:
  assumes "\<forall>c\<in>set ps. c \<noteq> KEY_ESC \<and> \<not> is_alpha c" and "is_alpha a"
  shows "ansi_scan False (KEY_ESC # ps @ a # s) = ansi_scan False s"
proof -
  have "ansi_scan True (ps @ a # s) = ansi_scan True (a # s)"
    using assms(1) by (induction ps) auto
  moreover have "a \<noteq> KEY_ESC"
    using assms(2) by (auto simp: is_alpha_def cval_def)
  ultimately show ?thesis using assms(2) by simp
qed

lemma trim_back_strip: "n \<le> length s \<Longrightarrow>
  trim_back s n = (if \<exists>c\<in>set (take n s). \<not> is_blank c then strip_right is_blank (take n s) else s)"
  by (induction n) (auto simp: take_Suc_conv_app_nth)

lemma trim_front_drop:
  "trim_front s t = (if \<exists>c\<in>set t. \<not> is_blank c then dropWhile is_blank t else s)"
  by (induction t) auto

lemma set_strip_right: "set (strip_right P s) \<subseteq> set s"
  unfolding strip_right_def by (metis set_dropWhileD set_rev subsetI)

lemma strip_right_keeps: "(\<exists>c\<in>set (strip_right P s). \<not> P c) \<longleftrightarrow> (\<exists>c\<in>set s. \<not> P c)"
  by (induction s rule: rev_induct) auto

lemma dropWhile_strip_right:
  "\<exists>c\<in>set s. \<not> P c \<Longrightarrow> dropWhile P (strip_right P s) = strip_right P (dropWhile P s)"
proof (induction s rule: rev_induct)
  case (snoc x xs)
  show ?case
  proof (cases "\<exists>c\<in>set xs. \<not> P c")
    case True
    with snoc.IH show ?thesis by (auto simp: dropWhile_append)
  next
    case False
    with snoc.prems have "\<not> P x" by auto
    with False show ?thesis by (auto simp: dropWhile_append)
  qed
qed simp

lemma trim_strip: "trim s = (if \<exists>c\<in>set s. \<not> is_blank c then strip is_blank s else s)"
  by (auto simp: trim_def Let_def trim_back_strip trim_front_drop strip_right_keeps
      strip_def dropWhile_strip_right)

section \<open>Bounded copies\<close>

text \<open>\<open>c_bytes src n\<close>: the first \<open>n\<close> bytes stored for a C string, its zero included.\<close>

lemma poke_in [simp]: "i < length xs \<Longrightarrow> poke xs i x = Some (xs[i := x])"
  by (simp add: poke_def)

lemma take_update_snoc: "d < length xs \<Longrightarrow> take (Suc d) (xs[d := x]) = take d xs @ [x]"
  by (simp add: take_Suc_conv_app_nth)

lemma strlcpy_copy_ok:
  assumes "is_cstr src" and "d + n \<le> length dst" and "s \<le> length src"
  shows "\<exists>dst'. length dst' = length dst \<and> drop (d + n) dst' = drop (d + n) dst \<and>
    (if length src - s < n
     then strlcpy_copy dst d src s n = Some (dst', d + (length src - s) + 1, length src + 1, n - (length src - s))
       \<and> take (d + (length src - s) + 1) dst' = take d dst @ drop s src @ [NUL]
     else strlcpy_copy dst d src s n = Some (dst', d + n, s + n, 0)
       \<and> take (d + n) dst' = take d dst @ take n (drop s src))"
  using assms(2,3)
proof (induction n arbitrary: dst d s)
  case 0
  then show ?case by simp
next
  case (Suc n)
  let ?dst1 = "dst[d := cget src s]"
  from Suc.prems have d: "d < length dst" by simp
  show ?case
  proof (cases "s = length src")
    case True
    with d show ?thesis
      by (intro exI [of _ ?dst1]) (simp add: take_update_snoc)
  next
    case False
    with Suc.prems have s: "s < length src" by simp
    then have c: "cget src s \<noteq> NUL" using assms(1) by (simp add: cget_NUL del: cget_nth)
    from Suc.IH [of "d + 1" ?dst1 "s + 1"] Suc.prems s obtain dst' where ih:
      "length dst' = length ?dst1" "drop (d + 1 + n) dst' = drop (d + 1 + n) ?dst1"
      "if length src - (s + 1) < n
       then strlcpy_copy ?dst1 (d + 1) src (s + 1) n = Some (dst', d + 1 + (length src - (s + 1)) + 1, length src + 1, n - (length src - (s + 1)))
         \<and> take (d + 1 + (length src - (s + 1)) + 1) dst' = take (d + 1) ?dst1 @ drop (s + 1) src @ [NUL]
       else strlcpy_copy ?dst1 (d + 1) src (s + 1) n = Some (dst', d + 1 + n, s + 1 + n, 0)
         \<and> take (d + 1 + n) dst' = take (d + 1) ?dst1 @ take n (drop (s + 1) src)"
      by auto
    have ds: "drop s src = src ! s # drop (s + 1) src"
      using s by (simp add: Cons_nth_drop_Suc)
    have lt: "length src - s = Suc (length src - (s + 1))" using s by simp
    show ?thesis
      using ih d c s by (intro exI [of _ dst']) (simp add: ds lt take_update_snoc split: if_splits)
  qed
qed

text \<open>
  \<open>strlcpy\<close> never writes outside the first \<open>siz\<close> bytes, leaves a terminated prefix of the
  source there and returns the length of the source.
\<close>

lemma strlcpy_ok:
  assumes "is_cstr src" and "siz \<le> length dst"
  shows "\<exists>dst'. strlcpy dst src siz = Some (dst', length src) \<and> length dst' = length dst \<and>
    drop siz dst' = drop siz dst \<and>
    (0 < siz \<longrightarrow> take (Suc (length (take (siz - 1) src))) dst' = take (siz - 1) src @ [NUL])"
proof (cases "siz \<le> 1")
  case True
  show ?thesis
  proof (cases "siz = 0")
    case True
    then show ?thesis by (simp add: strlcpy_def strlcpy_rest_def)
  next
    case False
    with True have "siz = 1" by simp
    with assms(2) show ?thesis
      by (cases dst) (simp_all add: strlcpy_def strlcpy_rest_def)
  qed
next
  case False
  then obtain n where n: "siz = Suc n" "0 < n" by (cases siz) auto
  have "\<exists>dst'. length dst' = length dst \<and> drop n dst' = drop n dst \<and>
    (if length src < n
     then strlcpy_copy dst 0 src 0 n = Some (dst', length src + 1, length src + 1, n - length src)
       \<and> take (length src + 1) dst' = src @ [NUL]
     else strlcpy_copy dst 0 src 0 n = Some (dst', n, n, 0) \<and> take n dst' = take n src)"
    using strlcpy_copy_ok [OF assms(1), of 0 n dst 0] assms(2) n by (simp cong: if_cong)
  then obtain dst' where h:
    "length dst' = length dst" "drop n dst' = drop n dst"
    "if length src < n
     then strlcpy_copy dst 0 src 0 n = Some (dst', length src + 1, length src + 1, n - length src)
       \<and> take (length src + 1) dst' = src @ [NUL]
     else strlcpy_copy dst 0 src 0 n = Some (dst', n, n, 0) \<and> take n dst' = take n src"
    by blast
  show ?thesis
  proof (cases "length src < n")
    case True
    have "drop (Suc n) dst' = drop (Suc n) dst"
      using arg_cong [OF h(2), of "drop 1"] by simp
    with True h n show ?thesis
      by (intro exI [of _ dst']) (simp add: strlcpy_def)
  next
    case False
    from assms(2) n h(1) have "n < length dst'" by simp
    moreover have "drop (Suc n) dst' = drop (Suc n) dst"
      using arg_cong [OF h(2), of "drop 1"] by simp
    ultimately show ?thesis
      using False h n by (intro exI [of _ "dst'[n := NUL]"])
        (simp add: strlcpy_def strlcpy_rest_def take_update_snoc)
  qed
qed

lemma cstr_of_prefix: "is_cstr s \<Longrightarrow> take (Suc (length s)) buf = s @ [NUL] \<Longrightarrow> cstr buf = s"
  by (metis append.assoc append_Cons append_take_drop_id cstr_append_NUL)

lemma strlcpy_cstr:
  assumes "is_cstr src" and "0 < siz" and "siz \<le> length dst"
  shows "\<exists>dst'. strlcpy dst src siz = Some (dst', length src) \<and> cstr dst' = take (siz - 1) src
    \<and> length dst' = length dst \<and> drop siz dst' = drop siz dst"
proof -
  from strlcpy_ok [OF assms(1,3)] assms(2) obtain dst' where h:
    "strlcpy dst src siz = Some (dst', length src)" "length dst' = length dst" "drop siz dst' = drop siz dst"
    "take (Suc (length (take (siz - 1) src))) dst' = take (siz - 1) src @ [NUL]"
    by blast
  have "cstr dst' = take (siz - 1) src"
    by (rule cstr_of_prefix [OF _ h(4)]) (simp add: assms(1))
  with h show ?thesis by blast
qed

lemma length_cstr_le: "length (cstr buf) \<le> length buf"
  by (simp add: cstr_def length_takeWhile_le)

lemma length_cstr_less: "NUL \<in> set buf \<Longrightarrow> length (cstr buf) < length buf"
proof -
  assume "NUL \<in> set buf"
  then obtain rest where "buf = cstr buf @ NUL # rest" by (blast dest: cstr_split)
  then have "length buf = length (cstr buf @ NUL # rest)" by (rule arg_cong)
  then show ?thesis by simp
qed

lemma my_ansi_filter_ok:
  assumes "NUL \<in> set source"
  shows "\<exists>buf. my_ansi_filter source = Some buf \<and> cstr buf = ansi_scan False (cstr source)"
proof -
  let ?r = "ansi_scan False (cstr source)"
  have "length ?r + 1 \<le> length source"
    using length_ansi_scan [of False "cstr source"] length_cstr_less [OF assms] by simp
  then show ?thesis
    using strlcpy_cstr [of ?r "length ?r + 1" source] by (auto simp: my_ansi_filter_def)
qed

lemma strlcat_end_ok:
  "d \<le> k \<Longrightarrow> k < d + n \<Longrightarrow> d + n \<le> length dst \<Longrightarrow> (\<forall>i<k. dst ! i \<noteq> NUL) \<Longrightarrow> dst ! k = NUL \<Longrightarrow>
   strlcat_end dst d n = Some k"
proof (induction n arbitrary: d)
  case (Suc n)
  then show ?case by (cases "d = k") auto
qed simp

lemma strlcat_copy_ok:
  assumes "0 < n" and "d + n \<le> length dst"
  shows "\<exists>dst'. strlcat_copy dst d s n = Some (dst', d + min (length s) (n - 1)) \<and> length dst' = length dst \<and>
    take (d + min (length s) (n - 1)) dst' = take d dst @ take (n - 1) s \<and>
    drop (d + n) dst' = drop (d + n) dst"
  using assms
proof (induction s arbitrary: dst d n)
  case Nil
  then show ?case by simp
next
  case (Cons c s)
  show ?case
  proof (cases "n = 1")
    case True
    with Cons.IH [of 1 d dst] Cons.prems show ?thesis by simp
  next
    case False
    then obtain m where m: "n = Suc m" "0 < m" using Cons.prems by (cases n) auto
    let ?dst1 = "dst[d := c]"
    have "d < length dst" using Cons.prems by simp
    moreover from Cons.IH [of m "d + 1" ?dst1] m Cons.prems obtain dst' where
      "strlcat_copy ?dst1 (d + 1) s m = Some (dst', d + 1 + min (length s) (m - 1))"
      "length dst' = length dst"
      "take (d + 1 + min (length s) (m - 1)) dst' = take (d + 1) ?dst1 @ take (m - 1) s"
      "drop (d + 1 + m) dst' = drop (d + 1 + m) ?dst1"
      by auto
    moreover have "min (Suc (length s)) m = Suc (min (length s) (m - 1))" using m(2) by auto
    moreover have "take m (c # s) = c # take (m - 1) s" using m(2) by (cases m) auto
    ultimately show ?thesis using m
      by (intro exI [of _ dst']) (simp add: take_update_snoc)
  qed
qed

text \<open>
  On a destination that is terminated within \<open>siz\<close>, \<open>strlcat\<close> stays inside the first \<open>siz\<close>
  bytes, leaves the longest prefix of the concatenation that fits and returns the length the
  concatenation would have.
\<close>

lemma strlcat_cstr:
  assumes src: "is_cstr src" and siz: "siz \<le> length dst" and fits: "length (cstr dst) < siz"
  shows "\<exists>dst'. strlcat dst src siz = Some (dst', length (cstr dst) + length src) \<and>
    cstr dst' = take (siz - 1) (cstr dst @ src) \<and> length dst' = length dst \<and> drop siz dst' = drop siz dst"
proof -
  let ?k = "length (cstr dst)" and ?n = "siz - length (cstr dst)"
  have "NUL \<in> set dst"
    using siz fits cstr_is_cstr [of dst] by (fastforce simp: is_cstr_def)
  then obtain rest where rest: "dst = cstr dst @ NUL # rest" by (blast dest: cstr_split)
  have nth: "\<forall>i<?k. dst ! i \<noteq> NUL"
  proof (intro allI impI)
    fix i assume "i < ?k"
    then have "dst ! i = cstr dst ! i" by (subst rest) (simp add: nth_append)
    moreover have "cstr dst ! i \<in> set (cstr dst)" using \<open>i < ?k\<close> by simp
    ultimately show "dst ! i \<noteq> NUL" using is_cstr_cstr [of dst] by (auto simp: is_cstr_def)
  qed
  have "dst ! ?k = NUL" by (subst rest) simp
  from strlcat_end_ok [OF _ _ _ nth this, of 0 siz] siz fits
  have e: "strlcat_end dst 0 siz = Some ?k" by simp
  have n: "0 < ?n" "?k + ?n \<le> length dst" using siz fits by auto
  from strlcat_copy_ok [OF n] obtain dst' where c:
    "strlcat_copy dst ?k src ?n = Some (dst', ?k + min (length src) (?n - 1))" "length dst' = length dst"
    "take (?k + min (length src) (?n - 1)) dst' = take ?k dst @ take (?n - 1) src"
    "drop (?k + ?n) dst' = drop (?k + ?n) dst" by blast
  let ?m = "?k + min (length src) (?n - 1)"
  have m: "?m < siz" using fits by auto
  have tk: "take ?k dst = cstr dst" by (subst rest) simp
  have p: "take (Suc ?m) (dst'[?m := NUL]) = (cstr dst @ take (?n - 1) src) @ [NUL]"
    using m siz c by (simp add: take_update_snoc tk)
  have "cstr (dst'[?m := NUL]) = cstr dst @ take (?n - 1) src"
    by (rule cstr_of_prefix) (use src p in simp_all)
  then have "cstr (dst'[?m := NUL]) = take (siz - 1) (cstr dst @ src)"
    using fits by simp
  moreover have "?m < length dst'" using m siz c(2) by simp
  moreover have "drop siz (dst'[?m := NUL]) = drop siz dst"
    using c(4) fits m by simp
  ultimately show ?thesis using e n c(1,2) fits
    by (intro exI [of _ "dst'[?m := NUL]"]) (simp add: strlcat_def Let_def)
qed

section \<open>Searching\<close>

text \<open>The reference: the needle occurs at position \<open>i\<close>, up to case; the first such position.\<close>

definition occurs_at :: "string \<Rightarrow> string \<Rightarrow> nat \<Rightarrow> bool" where
  "occurs_at h n i \<longleftrightarrow> i + length n \<le> length h \<and> strncaseeq (drop i h) n (length n)"

definition is_first_occurrence :: "string \<Rightarrow> string \<Rightarrow> nat option \<Rightarrow> bool" where
  "is_first_occurrence h n r \<longleftrightarrow>
     (case r of
        None \<Rightarrow> \<forall>i. \<not> occurs_at h n i
      | Some i \<Rightarrow> occurs_at h n i \<and> (\<forall>j<i. \<not> occurs_at h n j))"

lemma occurs_at_cget:
  assumes "is_cstr h" and "is_cstr n" and "i \<le> length h"
  shows "occurs_at h n i \<longleftrightarrow> (\<forall>k<length n. chartolower (cget h (i + k)) = chartolower (cget n k))"
proof
  assume "occurs_at h n i"
  then have le: "i + length n \<le> length h"
    and eq: "map chartolower (take (length n) (drop i h)) = map chartolower n"
    by (auto simp: occurs_at_def strncaseeq_def)
  show "\<forall>k<length n. chartolower (cget h (i + k)) = chartolower (cget n k)"
  proof (intro allI impI)
    fix k assume k: "k < length n"
    with le arg_cong [OF eq, of "\<lambda>xs. xs ! k"]
    show "chartolower (cget h (i + k)) = chartolower (cget n k)" by simp
  qed
next
  assume all: "\<forall>k<length n. chartolower (cget h (i + k)) = chartolower (cget n k)"
  have le: "i + length n \<le> length h"
  proof (rule ccontr)
    assume "\<not> i + length n \<le> length h"
    then have k: "length h - i < length n" using assms(3) by simp
    with all assms(3) have "chartolower (cget n (length h - i)) = NUL" by fastforce
    then have "cget n (length h - i) = NUL" by simp
    with k assms(2) show False by (simp add: cget_NUL del: cget_nth)
  qed
  with all show "occurs_at h n i"
    by (auto simp: occurs_at_def strncaseeq_def intro!: nth_equalityI)
qed

lemma tail_matches_iff:
  "is_cstr needle \<Longrightarrow> k \<le> length needle \<Longrightarrow> tail_matches h r needle k \<longleftrightarrow>
    (\<forall>j. k \<le> j \<and> j < length needle \<longrightarrow> chartolower (cget h (r + (j - k))) = chartolower (cget needle j))"
proof (induction h r needle k rule: tail_matches.induct)
  case (1 h r n k)
  show ?case
  proof (cases "k = length n")
    case True
    then show ?thesis by (subst tail_matches.simps) (auto simp: Let_def)
  next
    case False
    with "1.prems" have k: "k < length n" by simp
    then have nz: "chartolower (cget n k) \<noteq> NUL"
      using "1.prems" by (simp add: cget_NUL del: cget_nth)
    show ?thesis
    proof (cases "chartolower (cget h r) = chartolower (cget n k)")
      case True
      with nz k have "tail_matches h r n k = tail_matches h (r + 1) n (k + 1)"
        by (subst tail_matches.simps) (simp add: Let_def del: cget_nth)
      also have "\<dots> = (\<forall>j. k + 1 \<le> j \<and> j < length n \<longrightarrow>
          chartolower (cget h (r + 1 + (j - (k + 1)))) = chartolower (cget n j))"
        using "1.IH" [OF refl] True nz k "1.prems" by simp
      also have "\<dots> = (\<forall>j. k \<le> j \<and> j < length n \<longrightarrow>
          chartolower (cget h (r + (j - k))) = chartolower (cget n j))"
      proof -
        have "k \<le> j \<longleftrightarrow> j = k \<or> k + 1 \<le> j" for j by auto
        moreover have "k + 1 \<le> j \<Longrightarrow> r + 1 + (j - (k + 1)) = r + (j - k)" for j by simp
        ultimately show ?thesis using True by (metis add.right_neutral diff_self_eq_0)
      qed
      finally show ?thesis .
    next
      case False
      with nz have "\<not> tail_matches h r n k"
        by (subst tail_matches.simps) (simp add: Let_def del: cget_nth)
      with False k show ?thesis by (auto intro!: exI [of _ k] simp del: cget_nth)
    qed
  qed
qed

text \<open>Needles of two and more characters are searched by the three-label loop.\<close>

lemma occurs_at_parts:
  assumes h: "is_cstr h" and n: "is_cstr n" and two: "2 \<le> length n" and i: "i < length h"
  shows "occurs_at h n i \<longleftrightarrow>
    chartolower (cget h i) = chartolower (cget n 0) \<and>
    chartolower (cget h (i + 1)) = chartolower (cget n 1) \<and>
    tail_matches h (i + 2) n 2"
proof -
  have "occurs_at h n i \<longleftrightarrow> (\<forall>k<length n. chartolower (cget h (i + k)) = chartolower (cget n k))"
    using i by (intro occurs_at_cget h n) simp
  also have "\<dots> \<longleftrightarrow> chartolower (cget h i) = chartolower (cget n 0) \<and>
    chartolower (cget h (i + 1)) = chartolower (cget n 1) \<and>
    (\<forall>j. 2 \<le> j \<and> j < length n \<longrightarrow> chartolower (cget h (i + 2 + (j - 2))) = chartolower (cget n j))"
    (is "?all \<longleftrightarrow> ?parts")
  proof
    assume all: ?all
    have "0 < length n" "1 < length n" using two by auto
    with all have c0: "chartolower (cget h (i + 0)) = chartolower (cget n 0)"
      and c1: "chartolower (cget h (i + 1)) = chartolower (cget n 1)" by blast+
    have c2: "chartolower (cget h (i + 2 + (j - 2))) = chartolower (cget n j)"
      if "2 \<le> j \<and> j < length n" for j
    proof -
      from that have "i + 2 + (j - 2) = i + j" by linarith
      then show ?thesis by (rule ssubst) (use all that in blast)
    qed
    show ?parts
      by (intro conjI allI impI) (rule c0 [unfolded add_0_right], rule c1, rule c2)
  next
    assume parts: ?parts
    show ?all
    proof (intro allI impI)
      fix k assume "k < length n"
      consider "k = 0" | "k = 1" | "2 \<le> k" by linarith
      then show "chartolower (cget h (i + k)) = chartolower (cget n k)"
      proof cases
        case 3
        then have "i + 2 + (k - 2) = i + k" by linarith
        then show ?thesis by (rule subst) (use parts \<open>k < length n\<close> 3 in blast)
      qed (use parts in \<open>simp_all del: cget_nth\<close>)
    qed
  qed
  also have "(\<forall>j. 2 \<le> j \<and> j < length n \<longrightarrow> chartolower (cget h (i + 2 + (j - 2))) = chartolower (cget n j)) \<longleftrightarrow>
    tail_matches h (i + 2) n 2"
    by (rule tail_matches_iff [OF n two, symmetric])
  finally show ?thesis .
qed

lemma no_occurrence_at_end: "2 \<le> length n \<Longrightarrow> length h \<le> i + 1 \<Longrightarrow> \<not> occurs_at h n i"
  by (simp add: occurs_at_def)

lemma is_first_none:
  "2 \<le> length n \<Longrightarrow> \<forall>j<k. \<not> occurs_at h n j \<Longrightarrow> length h \<le> k + 1 \<Longrightarrow> is_first_occurrence h n None"
proof -
  assume a: "2 \<le> length n" "\<forall>j<k. \<not> occurs_at h n j" "length h \<le> k + 1"
  have "\<not> occurs_at h n i" for i
    using a no_occurrence_at_end [of n h i] by (cases "i < k") auto
  then show ?thesis by (simp add: is_first_occurrence_def)
qed

lemma scs_first_occurrence:
  "is_cstr h \<Longrightarrow> is_cstr n \<Longrightarrow> 2 \<le> length n \<Longrightarrow> \<forall>j<i + 1. \<not> occurs_at h n j \<Longrightarrow>
     is_first_occurrence h n (scs_do h n i)"
  "is_cstr h' \<Longrightarrow> is_cstr n' \<Longrightarrow> 2 \<le> length n' \<Longrightarrow> \<forall>j<i'. \<not> occurs_at h' n' j \<Longrightarrow> i' < length h' \<Longrightarrow>
     is_first_occurrence h' n' (scs_shloop h' n' i')"
  "is_cstr h'' \<Longrightarrow> is_cstr n'' \<Longrightarrow> 2 \<le> length n'' \<Longrightarrow> \<forall>j<i''. \<not> occurs_at h'' n'' j \<Longrightarrow> i'' < length h'' \<Longrightarrow>
     chartolower (cget h'' i'') = chartolower (cget n'' 0) \<Longrightarrow>
     is_first_occurrence h'' n'' (scs_jin h'' n'' i'')"
proof (induction h n i and h' n' i' and h'' n'' i'' rule: scs_do_scs_shloop_scs_jin.induct)
  case (1 h n i)
  note parts = occurs_at_parts [OF "1.prems"(1-3)]
  show ?case
  proof (cases "length h \<le> i + 1")
    case True
    with "1.prems" have "is_first_occurrence h n None" by (intro is_first_none [where k = "i + 1"]) auto
    with True show ?thesis by (simp add: scs_do.simps)
  next
    case False
    note short = this
    show ?thesis
    proof (cases "chartolower (cget h (i + 1)) = chartolower (cget n 0)")
      case True
      with 1 False show ?thesis by (simp add: scs_do.simps del: cget_nth)
    next
      case False
      with parts [of "i + 1"] short have "\<not> occurs_at h n (i + 1)" by (simp del: cget_nth)
      with "1.prems" have no: "\<forall>j<i + 2. \<not> occurs_at h n j"
        by (metis Suc_1 add_Suc_right less_Suc_eq Suc_eq_plus1)
      show ?thesis
      proof (cases "length h \<le> i + 2")
        case True
        with "1.prems" no have "is_first_occurrence h n None" by (intro is_first_none [where k = "i + 2"]) auto
        with True False short show ?thesis by (simp add: scs_do.simps del: cget_nth)
      next
        case long: False
        with "1.IH"(2) [OF short False long "1.prems"(1-3) no] False short
        show ?thesis by (simp add: scs_do.simps del: cget_nth)
      qed
    qed
  qed
next
  case (2 h n i)
  show ?case
  proof (cases "chartolower (cget h i) = chartolower (cget n 0)")
    case True
    with 2 show ?thesis by (simp add: scs_shloop.simps del: cget_nth)
  next
    case False
    with occurs_at_parts [OF "2.prems"(1-3,5)] have "\<not> occurs_at h n i" by simp
    with "2.prems" have "\<forall>j<i + 1. \<not> occurs_at h n j" by (auto simp: less_Suc_eq)
    with 2 False show ?thesis by (simp add: scs_shloop.simps del: cget_nth)
  qed
next
  case (3 h n i)
  note parts = occurs_at_parts [OF "3.prems"(1-3,5)]
  show ?case
  proof (cases "length h \<le> i + 1")
    case True
    with "3.prems" have "is_first_occurrence h n None" by (intro is_first_none [where k = i]) auto
    with True show ?thesis by (simp add: scs_jin.simps)
  next
    case long: False
    show ?thesis
    proof (cases "occurs_at h n i")
      case True
      with parts long have "scs_jin h n i = Some i" by (simp add: scs_jin.simps del: cget_nth)
      with True "3.prems" show ?thesis by (simp add: is_first_occurrence_def)
    next
      case False
      with "3.prems" have no: "\<forall>j<i + 1. \<not> occurs_at h n j" by (auto simp: less_Suc_eq)
      show ?thesis
      proof (cases "chartolower (cget h (i + 1)) = chartolower (cget n 1)")
        case True
        with parts False "3.prems"(6) have "\<not> tail_matches h (i + 2) n 2" by (simp del: cget_nth)
        with "3.IH"(2) [OF long] True no "3.prems" long show ?thesis
          by (simp add: scs_jin.simps del: cget_nth)
      next
        case False
        with "3.IH"(1) [OF long False "3.prems"(1-3) no] long show ?thesis
          by (simp add: scs_jin.simps del: cget_nth)
      qed
    qed
  qed
qed

lemma scs_first_spec:
  "scs_first h b i = None \<longleftrightarrow> (\<forall>k<length h. chartolower (h ! k) \<noteq> b)"
  "scs_first h b i = Some j \<Longrightarrow>
     i \<le> j \<and> j - i < length h \<and> chartolower (h ! (j - i)) = b \<and> (\<forall>k<j - i. chartolower (h ! k) \<noteq> b)"
proof (induction h b i arbitrary: j rule: scs_first.induct)
  case (2 c h b i)
  {
    case 1
    show ?case using "2.IH"(1) by (auto simp: less_Suc_eq_0_disj)
  next
    case 2
    show ?case
    proof (cases "chartolower c = b")
      case True
      with 2 show ?thesis by simp
    next
      case False
      with 2 have r: "scs_first h b (i + 1) = Some j" by simp
      from "2.IH"(2) [OF False r] obtain d where "j = Suc i + d" by (auto simp: le_iff_add)
      with "2.IH"(2) [OF False r] False show ?thesis by (auto simp: less_Suc_eq_0_disj)
    qed
  }
qed auto

lemma strcasestr_first:
  assumes h: "is_cstr h" and n: "is_cstr n"
  shows "is_first_occurrence h n (strcasestr h n)"
proof (cases "n = []")
  case True
  then show ?thesis
    by (simp add: strcasestr_def is_first_occurrence_def occurs_at_def strncaseeq_def)
next
  case ne: False
  then have b: "chartolower (cget n 0) \<noteq> NUL"
    using n by (simp add: cget_NUL del: cget_nth)
  have head: "chartolower (h ! i) = chartolower (cget n 0)" if "occurs_at h n i" for i
  proof -
    from that ne length_greater_0_conv [of n] have "i < length h"
      by (simp add: occurs_at_def del: length_greater_0_conv)
    with that occurs_at_cget [OF h n, of i] ne show ?thesis by (auto dest: spec [of _ 0])
  qed
  have bound: "i < length h" if "occurs_at h n i" for i
    using that ne length_greater_0_conv [of n] by (simp add: occurs_at_def del: length_greater_0_conv)
  show ?thesis
  proof (cases "scs_first h (chartolower (cget n 0)) 0")
    case None
    with b have "strcasestr h n = None" by (simp add: strcasestr_def del: cget_nth)
    moreover have "\<not> occurs_at h n i" for i
      using None scs_first_spec(1) head bound by metis
    ultimately show ?thesis by (simp add: is_first_occurrence_def)
  next
    case (Some i)
    note first = scs_first_spec(2) [OF Some]
    have no: "\<forall>j<i. \<not> occurs_at h n j" using first head by auto
    show ?thesis
    proof (cases "length n = 1")
      case True
      then have "cget n 1 = NUL" by simp
      with b Some have "strcasestr h n = Some i" by (simp add: strcasestr_def del: cget_nth)
      moreover have "occurs_at h n i"
        using first True occurs_at_cget [OF h n, of i] by simp
      ultimately show ?thesis using no by (simp add: is_first_occurrence_def)
    next
      case False
      with ne have two: "2 \<le> length n" by (cases n) (auto simp: Suc_le_eq)
      then have "chartolower (cget n 1) \<noteq> NUL" using n by (simp add: cget_NUL del: cget_nth)
      with b Some have "strcasestr h n = scs_jin h n i" by (simp add: strcasestr_def del: cget_nth)
      with scs_first_occurrence(3) [OF h n two no] first show ?thesis by simp
    qed
  qed
qed

lemma strstr2_scan_sound:
  "strstr2_scan s t p = Some q \<Longrightarrow> p \<le> q \<and> q < length s \<and> strncaseeq (drop q s) t (length t)"
proof (induction s t p rule: strstr2_scan.induct)
  case (1 s t p)
  show ?case
  proof (cases "length s \<le> p")
    case True
    with "1.prems" show ?thesis by (simp add: strstr2_scan.simps [of s t p])
  next
    case long: False
    show ?thesis
    proof (cases "strncaseeq (drop p s) t (length t)")
      case True
      with "1.prems" long show ?thesis by (simp add: strstr2_scan.simps [of s t p])
    next
      case False
      with "1.prems" long have "strstr2_scan s t (p + 2) = Some q \<and> high_bit (cget s p) \<and> 31 < csval (cget s (p + 1))
        \<or> strstr2_scan s t (p + 1) = Some q \<and> \<not> (high_bit (cget s p) \<and> 31 < csval (cget s (p + 1)))"
        by (auto simp: strstr2_scan.simps [of s t p] split: if_splits)
      with "1.IH" [OF long False] show ?thesis by auto
    qed
  qed
qed

text \<open>The words of a string between the delimiters, and where \<open>strsect\<close> finds one of them.\<close>

function sections :: "string \<Rightarrow> string \<Rightarrow> string list" where
  "sections delim s =
     (let t = dropWhile (\<lambda>c. c \<in> set delim) s in
      if t = [] then []
      else takeWhile (\<lambda>c. c \<notin> set delim) t # sections delim (dropWhile (\<lambda>c. c \<notin> set delim) t))"
  by pat_completeness auto
termination
proof (relation "measure (\<lambda>(d, s). length s)", simp, clarsimp simp del: length_0_conv dropWhile_eq_Nil_conv)
  fix delim s :: string
  assume ne: "dropWhile (\<lambda>c. c \<in> set delim) s \<noteq> []"
  let ?t = "dropWhile (\<lambda>c. c \<in> set delim) s"
  obtain a u where t: "?t = a # u" using ne by (cases ?t) auto
  then have "a \<notin> set delim" using hd_dropWhile [OF ne] by simp
  then have "length (dropWhile (\<lambda>c. c \<notin> set delim) ?t) \<le> length u"
    using t by (simp add: length_dropWhile_le)
  also have "length u < length ?t" using t by simp
  also have "length ?t \<le> length s" by (rule length_dropWhile_le)
  finally show "length (dropWhile (\<lambda>c. c \<notin> set delim) ?t) < length s" .
qed

declare sections.simps [simp del]

lemma strsect_from_Nil [simp]: "strsect_from [] pos sect delim = None"
  by (subst strsect_from.simps) simp

lemma strsect_from_iff:
  "sect \<noteq> [] \<Longrightarrow> strsect_from ptr pos sect delim \<noteq> None \<longleftrightarrow> sect \<in> set (sections delim ptr)"
proof (induction ptr pos sect delim rule: strsect_from.induct)
  case (1 ptr pos sect delim)
  let ?t = "dropWhile (\<lambda>c. c \<in> set delim) ptr"
  let ?w = "takeWhile (\<lambda>c. c \<notin> set delim) ?t"
  have rest: "drop (length ?w) ?t = dropWhile (\<lambda>c. c \<notin> set delim) ?t"
    by (simp add: dropWhile_eq_drop)
  show ?case
  proof (cases "?t = []")
    case True
    then have "sections delim ptr = []" by (subst sections.simps) (simp add: Let_def)
    moreover have "dropWhile (inset delim) ptr = []" using True by simp
    then have "strsect_from ptr pos sect delim = None"
      using "1.prems" by (subst strsect_from.simps) (simp add: Let_def del: dropWhile_eq_Nil_conv inset_iff inset_fun)
    ultimately show ?thesis by simp
  next
    case False
    then have ne: "ptr \<noteq> []" by auto
    have sec: "sections delim ptr = ?w # sections delim (dropWhile (\<lambda>c. c \<notin> set delim) ?t)"
      using False by (subst sections.simps) (simp add: Let_def)
    show ?thesis
    proof (cases "?w = sect")
      case True
      with ne sec show ?thesis by (subst strsect_from.simps) (simp add: Let_def)
    next
      case neq: False
      then have "strsect_from ptr pos sect delim =
          strsect_from (drop (length ?w) ?t) (pos + (length ptr - length ?t) + length ?w) sect delim"
        using ne by (subst strsect_from.simps) (auto simp: Let_def)
      with "1.IH" [OF ne refl refl refl] neq "1.prems" sec rest show ?thesis by simp
    qed
  qed
qed

lemma strsect_iff: "sect \<noteq> [] \<Longrightarrow> strsect str sect delim \<noteq> None \<longleftrightarrow> sect \<in> set (sections delim str)"
  by (simp add: strsect_def strsect_from_iff del: not_None_eq)

lemma strstr2_strcasestr:
  assumes h: "is_cstr s" and n: "is_cstr t"
  shows "strstr2 s t = (if s = [] then None else strcasestr s t)"
proof (cases "strcasestr s t")
  case None
  then show ?thesis by (simp add: strstr2_def)
next
  case (Some p)
  with strcasestr_first [OF h n] have o: "occurs_at s t p" "\<forall>j<p. \<not> occurs_at s t j"
    by (simp_all add: is_first_occurrence_def)
  show ?thesis
  proof (cases "s = []")
    case True
    with Some show ?thesis by (simp add: strstr2_def strstr2_scan.simps)
  next
    case False
    have "p < length s"
    proof (cases "t = []")
      case True
      then have "occurs_at s t 0" by (simp add: occurs_at_def strncaseeq_def)
      with o(2) have "p = 0" by blast
      with False show ?thesis by simp
    next
      case False
      with o(1) show ?thesis by (cases t) (auto simp: occurs_at_def)
    qed
    with Some o(1) False show ?thesis
      by (simp add: strstr2_def strstr2_scan.simps [of s t p] occurs_at_def)
  qed
qed

section \<open>Appending to a block\<close>

lemma strcat_char_ok:
  assumes nul: "NUL \<in> set mem" and room: "length (cstr mem) + 1 < length mem" and c: "c \<noteq> NUL"
  shows "\<exists>mem'. strcat_char mem c = Some mem' \<and> cstr mem' = cstr mem @ [c] \<and> NUL \<in> set mem' \<and>
    length mem' = length mem"
proof -
  let ?n = "length (cstr mem)"
  let ?m = "mem[?n := c, ?n + 1 := NUL]"
  obtain rest where r: "mem = cstr mem @ NUL # rest" using cstr_split [OF nul] by blast
  then obtain x rest' where x: "rest = x # rest'" using room by (cases rest) (auto dest: arg_cong [of _ _ length])
  have "mem = cstr mem @ NUL # x # rest'" using r x by simp
  then have "?m = (cstr mem @ [c]) @ NUL # rest'"
    by (metis (no_types, lifting) append.assoc append_Cons append_Nil length_append_singleton list_update_length Suc_eq_plus1)
  moreover from this have "cstr ?m = cstr mem @ [c]"
    using c by (metis cstr_append_NUL is_cstr_cstr is_cstr_simps)
  moreover have "length ?m = length mem" by simp
  moreover have "strcat_char mem c = Some ?m" using room by (simp add: strcat_char_def Let_def)
  ultimately show ?thesis by (metis in_set_conv_decomp)
qed

lemma ansi_filter_loop_ok:
  "NUL \<in> set mem \<Longrightarrow> is_cstr s \<Longrightarrow> length (cstr mem) + length (ansi_scan flag s) < length mem \<Longrightarrow>
     \<exists>mem'. ansi_filter_loop mem flag s = Some mem' \<and> cstr mem' = cstr mem @ ansi_scan flag s"
proof (induction mem flag s rule: ansi_filter_loop.induct)
  case (2 mem flag c s)
  show ?case
  proof (cases "c = KEY_ESC \<or> flag")
    case True
    with 2 show ?thesis by (cases "c = KEY_ESC"; cases "is_alpha c") auto
  next
    case False
    with "2.prems" obtain mem' where m: "strcat_char mem c = Some mem'" "cstr mem' = cstr mem @ [c]"
      "NUL \<in> set mem'" "length mem' = length mem"
      using strcat_char_ok [of mem c] by auto
    with "2.IH"(4) [OF _ _ _ m(1)] "2.prems" False show ?thesis by auto
  qed
qed simp

section \<open>Properties\<close>

text \<open>C35. \<open>strcasestr\<close>, a word-by-word machine with three entry points, finds the first
  occurrence of the needle up to case, and misses none.\<close>

theorem strcasestr_first_occurrence:
  assumes "is_cstr h" "is_cstr n"
  shows "is_first_occurrence h n (strcasestr h n)"
  using assms by (rule strcasestr_first)

theorem strcasestr_first_occurrence_witness:
  "is_first_occurrence ''re: Re: RE:x'' ''re:x'' (strcasestr ''re: Re: RE:x'' ''re:x'')"
  by (rule strcasestr_first_occurrence) (simp_all add: is_cstr_def)

text \<open>\<open>strstr2\<close> is \<open>strcasestr\<close> on every string that is not empty: its scan starts at an
  occurrence, so the step over double-byte characters is never taken.\<close>

theorem strstr2_is_strcasestr:
  assumes "is_cstr s" "is_cstr t"
  shows "strstr2 s t = (if s = [] then None else strcasestr s t)"
  using assms by (rule strstr2_strcasestr)

theorem strstr2_is_strcasestr_witness:
  "strstr2 ''xAbc'' ''aB'' = (if ''xAbc'' = [] then None else strcasestr ''xAbc'' ''aB'')"
  by (rule strstr2_is_strcasestr) (simp_all add: is_cstr_def)

text \<open>C40. \<open>strlcpy\<close> with the size of its destination never stores outside it, leaves the
  bytes behind \<open>siz\<close> alone, always terminates the copy, and answers the length of the source.\<close>

theorem strlcpy_bounded:
  assumes "is_cstr src" "0 < siz" "siz \<le> length dst"
  shows "\<exists>dst'. strlcpy dst src siz = Some (dst', length src) \<and> cstr dst' = take (siz - 1) src
    \<and> length dst' = length dst \<and> drop siz dst' = drop siz dst"
  using assms by (rule strlcpy_cstr)

theorem strlcpy_bounded_witness:
  "\<exists>dst'. strlcpy ''........'' ''SYSOP'' 4 = Some (dst', length ''SYSOP'') \<and>
    cstr dst' = take (4 - 1) ''SYSOP'' \<and> length dst' = length ''........'' \<and> drop 4 dst' = drop 4 ''........''"
  by (rule strlcpy_bounded) (simp_all add: is_cstr_def)

text \<open>\<open>strlcat\<close> appends as much as fits, terminates, stays inside the destination and
  answers the length it tried to create.\<close>

theorem strlcat_bounded:
  assumes "is_cstr src" "siz \<le> length dst" "length (cstr dst) < siz"
  shows "\<exists>dst'. strlcat dst src siz = Some (dst', length (cstr dst) + length src) \<and>
    cstr dst' = take (siz - 1) (cstr dst @ src) \<and> length dst' = length dst \<and> drop siz dst' = drop siz dst"
  using assms by (rule strlcat_cstr)

theorem strlcat_bounded_witness:
  "\<exists>dst'. strlcat (''ab'' @ [NUL, NUL, NUL]) ''cdef'' 5 =
      Some (dst', length (cstr (''ab'' @ [NUL, NUL, NUL])) + length ''cdef'') \<and>
    cstr dst' = take (5 - 1) (cstr (''ab'' @ [NUL, NUL, NUL]) @ ''cdef'') \<and>
    length dst' = length (''ab'' @ [NUL, NUL, NUL]) \<and>
    drop 5 dst' = drop 5 (''ab'' @ [NUL, NUL, NUL])"
  by (rule strlcat_bounded) (simp_all add: is_cstr_def cstr_def)

text \<open>\<open>ansi_filter\<close> yields the text without escape sequences behind whatever C string the
  fresh block happens to hold: it is right exactly when the block starts with a zero.\<close>

theorem ansi_filter_appends:
  assumes "NUL \<in> set mem" "is_cstr s" "length (cstr mem) + length (ansi_scan False s) < length mem"
  shows "\<exists>mem'. ansi_filter mem s = Some mem' \<and> cstr mem' = cstr mem @ ansi_scan False s"
  using assms unfolding ansi_filter_def by (rule ansi_filter_loop_ok)

theorem ansi_filter_appends_witness:
  "\<exists>mem'. ansi_filter (''?'' @ [NUL, NUL, NUL, NUL]) (KEY_ESC # ''[mok'') = Some mem' \<and>
    cstr mem' = cstr (''?'' @ [NUL, NUL, NUL, NUL]) @ ansi_scan False (KEY_ESC # ''[mok'')"
  by (rule ansi_filter_appends) (simp_all add: is_cstr_def cstr_def is_alpha_def cval_def of_char_def)

end
