(* ===== verification/RecordFile.thy ===== *)
theory RecordFile
  imports CString
begin

text \<open>
  The record files of src/record.c: files that are arrays of fixed-size records (the user
  file, the board file, every mailbox and board index).  The operations read and write the
  bytes of the file, as the code does through \<open>mmap\<close>, \<open>read\<close> and \<open>write\<close>; the file
  system maps names to contents.  Calls of the kernel that may fail do so as the
  environment \<open>env\<close> says.  A record has at least one byte.  Record numbers are C integers
  and start at 1.  A record that reaches past the end of the file is read with the zero
  bytes that fill the last page of a mapping.
\<close>

section \<open>Definitions\<close>

type_synonym byte = "8 word"
type_synonym filesys = "string \<Rightarrow> byte list option"

record env =
  open_ok :: bool
  fstat_ok :: bool
  mmap_ok :: bool

definition env_fine :: env where
  "env_fine = \<lparr>open_ok = True, fstat_ok = True, mmap_ok = True\<rparr>"

definition open_file :: "env \<Rightarrow> filesys \<Rightarrow> string \<Rightarrow> byte list option" where
  "open_file env fs filename = (if open_ok env then fs filename else None)"

text \<open>Opening with \<open>O_CREAT\<close>: the contents of a file that is not there are empty.\<close>

definition open_creat :: "env \<Rightarrow> filesys \<Rightarrow> string \<Rightarrow> byte list option" where
  "open_creat env fs filename =
     (if open_ok env then Some (case fs filename of None \<Rightarrow> [] | Some f \<Rightarrow> f) else None)"

text \<open>The \<open>size\<close> bytes of memory at offset \<open>off\<close> of a mapping.\<close>

definition chunk :: "nat \<Rightarrow> byte list \<Rightarrow> nat \<Rightarrow> byte list" where
  "chunk rsize f off = (let c = take rsize (drop off f) in c @ replicate (rsize - length c) 0)"

text \<open>
  A mapping ends with the page its last byte is in; touching memory behind it is a fault,
  which the code's \<open>TRY\<close> turns into a jump.  A callback reads all of its record.
\<close>

definition PAGE :: nat where "PAGE = 4096"

definition readable :: "nat \<Rightarrow> byte list \<Rightarrow> nat \<Rightarrow> bool" where
  "readable rsize f off \<longleftrightarrow> off + rsize \<le> (length f + PAGE - 1) div PAGE * PAGE"

abbreviation (input) QUIT :: int where "QUIT \<equiv> 0x666"
abbreviation (input) KEEPRECORD :: int where "KEEPRECORD \<equiv> 0"

text \<open>One call of \<open>write\<close>: the bytes it took, an interruption, or another error.\<close>

datatype write_result = Wrote nat | Interrupted | WriteError

text \<open>
  \<open>safewrite\<close> over the results of its successive calls of \<open>write\<close>; the bytes written so
  far, and the returned value (\<open>None\<close> when the list of results is used up).  A call writes
  at most what it was given.
\<close>

fun safewrite_loop :: "write_result list \<Rightarrow> byte list \<Rightarrow> int \<Rightarrow> byte list \<times> int option" where
  "safewrite_loop [] buf origsz = ([], None)"
| "safewrite_loop (WriteError # rs) buf origsz = ([], Some (-1))"
| "safewrite_loop (Interrupted # rs) buf origsz =
     (if buf = [] then ([], Some origsz) else safewrite_loop rs buf origsz)"
| "safewrite_loop (Wrote cc # rs) buf origsz =
     (if drop cc buf = [] then (buf, Some origsz)
      else (case safewrite_loop rs (drop cc buf) origsz of (w, r) \<Rightarrow> (take cc buf @ w, r)))"

definition safewrite :: "write_result list \<Rightarrow> byte list \<Rightarrow> byte list \<times> int option" where
  "safewrite rs buf = safewrite_loop rs buf (int (length buf))"

definition get_num_records :: "filesys \<Rightarrow> string \<Rightarrow> nat \<Rightarrow> int" where
  "get_num_records fs filename rsize =
     (case fs filename of None \<Rightarrow> 0 | Some f \<Rightarrow> int (length f div rsize))"

text \<open>\<open>append_record\<close> with the results its writes get; the file keeps what was written.\<close>

definition append_record ::
  "env \<Rightarrow> write_result list \<Rightarrow> filesys \<Rightarrow> string \<Rightarrow> byte list \<Rightarrow> filesys \<times> int option" where
  "append_record env wrs fs filename record =
     (case open_creat env fs filename of
        None \<Rightarrow> (fs, Some (-1))
      | Some f \<Rightarrow>
          (case safewrite wrs record of
             (w, r) \<Rightarrow> (fs(filename \<mapsto> f @ w), map_option (\<lambda>v. if v = -1 then -1 else 0) r)))"

text \<open>\<open>apply_record\<close>: the callback \<open>fptr\<close> has a state of its own.\<close>

function apply_loop ::
  "('s \<Rightarrow> byte list \<Rightarrow> int \<Rightarrow> 's \<times> int) \<Rightarrow> nat \<Rightarrow> byte list \<Rightarrow> 's \<Rightarrow> nat \<Rightarrow> int \<Rightarrow> 's \<times> int" where
  "apply_loop fptr rsize f s i recno =
     (if i < length f \<and> 0 < rsize then
       (if \<not> readable rsize f i then (s, 0)
        else
          (case fptr s (chunk rsize f i) (recno + 1) of
           (s', r) \<Rightarrow> if r = QUIT then (s', QUIT) else apply_loop fptr rsize f s' (i + rsize) (recno + 1)))
      else (s, 0))"
  by pat_completeness auto
termination by (relation "measure (\<lambda>(p, rsize, f, s, i, recno). length f - i)") auto

definition apply_record ::
  "env \<Rightarrow> filesys \<Rightarrow> string \<Rightarrow> ('s \<Rightarrow> byte list \<Rightarrow> int \<Rightarrow> 's \<times> int) \<Rightarrow> nat \<Rightarrow> 's \<Rightarrow> 's \<times> int" where
  "apply_record env fs filename fptr rsize s =
     (case open_file env fs filename of
        None \<Rightarrow> (s, -1)
      | Some f \<Rightarrow>
          if \<not> fstat_ok env then (s, -1)
          else if length f = 0 then (s, 0)
          else if \<not> mmap_ok env then (s, -1)
          else apply_loop fptr rsize f s 0 0)"

text \<open>
  \<open>search_record_forward\<close> returns 0, or the number of the record found and its bytes.  The
  number is counted from \<open>start\<close>.
\<close>

function search_forward_loop ::
  "(byte list \<Rightarrow> bool) \<Rightarrow> nat \<Rightarrow> byte list \<Rightarrow> nat \<Rightarrow> int \<Rightarrow> int \<times> byte list option" where
  "search_forward_loop match rsize f off recno =
     (if off < length f \<and> 0 < rsize then
        (if \<not> readable rsize f off then (0, None)
         else if match (chunk rsize f off) then (recno, Some (chunk rsize f off))
         else search_forward_loop match rsize f (off + rsize) (recno + 1))
      else (0, None))"
  by pat_completeness auto
termination by (relation "measure (\<lambda>(p, rsize, f, off, recno). length f - off)") auto

definition search_record_forward ::
  "env \<Rightarrow> filesys \<Rightarrow> string \<Rightarrow> nat \<Rightarrow> int \<Rightarrow> (byte list \<Rightarrow> bool) \<Rightarrow> int \<times> byte list option" where
  "search_record_forward env fs filename rsize start match =
     (if start \<le> 0 then (0, None)
      else
        (case open_file env fs filename of
           None \<Rightarrow> (0, None)
         | Some f \<Rightarrow>
             if \<not> fstat_ok env then (0, None)
             else if \<not> mmap_ok env \<or> length f = 0 then (0, None)
             else search_forward_loop match rsize f (nat (start - 1) * rsize) 1))"

text \<open>
  \<open>search_record_bin\<close>.  Its right bound is the number of records, so the middle may be one
  past the last record; \<open>cmp\<close> is the callback's result at the record with a given index
  (counted from 0), \<open>None\<close> when reading it faults.
\<close>

function search_bin_loop :: "(int \<Rightarrow> int option) \<Rightarrow> int \<Rightarrow> int \<Rightarrow> int" where
  "search_bin_loop cmp left right =
     (if left \<le> right then
        (let middle = left + (right - left) div 2 in
         case cmp middle of
           None \<Rightarrow> 0
         | Some ret \<Rightarrow>
             if ret = 0 then middle + 1
             else if 0 < ret then search_bin_loop cmp (middle + 1) right
             else search_bin_loop cmp left (middle - 1))
      else 0)"
  by pat_completeness auto
termination
  by (relation "measure (\<lambda>(cmp, left, right). nat (right + 1 - left))") (auto simp: Let_def)

definition search_record_bin ::
  "env \<Rightarrow> filesys \<Rightarrow> string \<Rightarrow> nat \<Rightarrow> int \<Rightarrow> (byte list \<Rightarrow> int) \<Rightarrow> int \<times> byte list option" where
  "search_record_bin env fs filename rsize start fptr =
     (if start \<le> 0 then (0, None)
      else
        (case open_file env fs filename of
           None \<Rightarrow> (0, None)
         | Some f \<Rightarrow>
             if \<not> fstat_ok env then (0, None)
             else if \<not> mmap_ok env \<or> length f = 0 then (0, None)
             else
               (let cmp = (\<lambda>m. if readable rsize f (nat m * rsize)
                               then Some (fptr (chunk rsize f (nat m * rsize))) else None);
                    r = search_bin_loop cmp (start - 1) (int (length f div rsize)) in
                if r = 0 then (0, None) else (r, Some (chunk rsize f (nat (r - 1) * rsize))))))"

text \<open>\<open>move_record\<close>: the bytes, then the call.  The call returns 0 from every path behind the mapping.\<close>

definition move_bytes :: "nat \<Rightarrow> nat \<Rightarrow> nat \<Rightarrow> byte list \<Rightarrow> byte list" where
  "move_bytes rsize srcid dstid f =
     (let tmprec = take rsize (drop (rsize * (srcid - 1)) f);
          f1 = (if dstid < srcid
                then memmove f (rsize * dstid) (rsize * (dstid - 1)) ((srcid - dstid) * rsize)
                else memmove f (rsize * (srcid - 1)) (rsize * srcid) ((dstid - srcid) * rsize))
      in take (rsize * (dstid - 1)) f1 @ tmprec @ drop (rsize * (dstid - 1) + rsize) f1)"

definition move_record ::
  "env \<Rightarrow> filesys \<Rightarrow> string \<Rightarrow> nat \<Rightarrow> int \<Rightarrow> int \<Rightarrow> filesys \<times> int" where
  "move_record env fs filename rsize srcid dstid =
     (if srcid = dstid then (fs, 0)
      else if srcid \<le> 0 \<or> dstid \<le> 0 \<or> rsize = 0 then (fs, -1)
      else
        (case open_file env fs filename of
           None \<Rightarrow> (fs, -1)
         | Some f \<Rightarrow>
             if \<not> fstat_ok env \<or> int (length f) < srcid * int rsize \<or> int (length f) < dstid * int rsize
             then (fs, -1)
             else if \<not> mmap_ok env \<or> length f = 0 then (fs, -1)
             else (fs(filename \<mapsto> move_bytes rsize (nat srcid) (nat dstid) f), 0)))"

definition delete_record ::
  "env \<Rightarrow> filesys \<Rightarrow> string \<Rightarrow> nat \<Rightarrow> int \<Rightarrow> filesys \<times> int" where
  "delete_record env fs filename rsize recno =
     (if recno \<le> 0 \<or> rsize = 0 then (fs, -1)
      else
        (case open_file env fs filename of
           None \<Rightarrow> (fs, -1)
         | Some f \<Rightarrow>
             if \<not> fstat_ok env then (fs, -1)
             else if \<not> mmap_ok env \<or> length f = 0 \<or> int (length f) < recno * int rsize then (fs, -1)
             else
               (let n = nat recno;
                    f1 = (if n * rsize < length f
                          then memmove f (rsize * (n - 1)) (rsize * n) (length f - rsize * n)
                          else f)
                in (fs(filename \<mapsto> take (rsize * (length f div rsize - 1)) f1), 0))))"

text \<open>
  \<open>process_records\<close>: \<open>filecheck\<close> has a state of its own, may change the record it is given
  in place, and its result says whether the record is kept.  \<open>bmove\<close> is \<open>memmove\<close> on the
  mapping.  The loop returns the bytes, the callback's state, \<open>preservation\<close>, \<open>fhdr\<close> and
  \<open>rcount\<close> (offsets for pointers).
\<close>

definition bmove :: "byte list \<Rightarrow> nat \<Rightarrow> nat \<Rightarrow> nat \<Rightarrow> byte list" where
  "bmove f dst src n = take dst f @ chunk n f src @ drop (dst + n) f"

definition store_rec :: "byte list \<Rightarrow> nat \<Rightarrow> byte list \<Rightarrow> byte list" where
  "store_rec f off r = take off f @ take (length f - off) r @ drop (off + length r) f"

function process_loop ::
  "('s \<Rightarrow> byte list \<Rightarrow> 's \<times> byte list \<times> int) \<Rightarrow> nat \<Rightarrow> nat \<Rightarrow> byte list \<Rightarrow> 's \<Rightarrow> nat \<Rightarrow> nat \<Rightarrow> nat
    \<Rightarrow> byte list \<times> 's \<times> nat \<times> nat \<times> nat" where
  "process_loop filecheck rsize lasthdr f s fhdr preservation rcount =
     (if fhdr < lasthdr \<and> 0 < rsize then
        (case filecheck s (chunk rsize f fhdr) of
           (s', r, v) \<Rightarrow>
             (let f1 = store_rec f fhdr r in
              if v = KEEPRECORD then
                process_loop filecheck rsize lasthdr
                  (if fhdr \<noteq> preservation then bmove f1 preservation fhdr rsize else f1)
                  s' (fhdr + rsize) (preservation + rsize) rcount
              else
                process_loop filecheck rsize lasthdr f1 s' (fhdr + rsize) preservation (rcount + 1)))
      else (f, s, preservation, fhdr, rcount))"
  by pat_completeness auto
termination
  by (relation "measure (\<lambda>(p, rsize, l, f, s, h, q, c). l - h)") auto

definition process_records ::
  "env \<Rightarrow> filesys \<Rightarrow> string \<Rightarrow> nat \<Rightarrow> int \<Rightarrow> int \<Rightarrow> ('s \<Rightarrow> byte list \<Rightarrow> 's \<times> byte list \<times> int) \<Rightarrow> 's
    \<Rightarrow> filesys \<times> 's \<times> int" where
  "process_records env fs filename rsize id1 id2 filecheck s =
     (if id1 \<le> 0 \<or> id2 < id1 then (fs, s, -1)
      else
        (case open_file env fs filename of
           None \<Rightarrow> (fs, s, -1)
         | Some f \<Rightarrow>
             if \<not> fstat_ok env then (fs, s, -1)
             else if int (length f) < id1 * int rsize then (fs, s, -1)
             else
               (let endpoint = (if int (length f) < id2 * int rsize then length f
                                else rsize * nat id2) in
                if \<not> mmap_ok env \<or> length f = 0 then (fs, s, -1)
                else
                  (let start = (nat id1 - 1) * rsize in
                   case process_loop filecheck rsize endpoint f s start start 0 of
                     (f1, s1, preservation, fhdr, rcount) \<Rightarrow>
                       (let f2 = (if endpoint \<noteq> length f
                                  then bmove f1 preservation fhdr ((length f div rsize - nat id2) * rsize)
                                  else f1);
                            f3 = (if 0 < rcount then take (length f - rcount * rsize) f2 else f2)
                        in (fs(filename \<mapsto> f3), s1, 0))))))"

text \<open>
  \<open>sort_records\<close>.  The C library's \<open>qsort\<close> is taken to be stable (the merge sort of the GNU
  library), so its result is that of an insertion sort with the same comparison.
\<close>

fun split_records :: "nat \<Rightarrow> nat \<Rightarrow> byte list \<Rightarrow> byte list list" where
  "split_records rsize 0 f = []"
| "split_records rsize (Suc n) f = take rsize f # split_records rsize n (drop rsize f)"

fun insort_by :: "('a \<Rightarrow> 'a \<Rightarrow> int) \<Rightarrow> 'a \<Rightarrow> 'a list \<Rightarrow> 'a list" where
  "insort_by cmp x [] = [x]"
| "insort_by cmp x (y # ys) = (if cmp x y \<le> 0 then x # y # ys else y # insort_by cmp x ys)"

fun qsort :: "('a \<Rightarrow> 'a \<Rightarrow> int) \<Rightarrow> 'a list \<Rightarrow> 'a list" where
  "qsort cmp [] = []"
| "qsort cmp (x # xs) = insort_by cmp x (qsort cmp xs)"

definition sort_records ::
  "env \<Rightarrow> filesys \<Rightarrow> string \<Rightarrow> nat \<Rightarrow> (byte list \<Rightarrow> byte list \<Rightarrow> int) option \<Rightarrow> filesys \<times> int" where
  "sort_records env fs filename rsize compare =
     (case compare of
        None \<Rightarrow> (fs, -1)
      | Some cmp \<Rightarrow>
          if rsize = 0 then (fs, -1)
          else
            (case open_file env fs filename of
               None \<Rightarrow> (fs, -1)
             | Some f \<Rightarrow>
                 if \<not> fstat_ok env then (fs, -1)
                 else if \<not> mmap_ok env \<or> length f = 0 \<or> length f mod rsize \<noteq> 0 then (fs, -1)
                 else
                   (fs(filename \<mapsto> concat (qsort cmp (split_records rsize (length f div rsize) f))), 0)))"

text \<open>
  \<open>get_record\<close> and \<open>get_records\<close>: the returned value and the bytes stored at \<open>rptr\<close>.  A
  seek to a negative offset fails.
\<close>

definition get_record :: "env \<Rightarrow> filesys \<Rightarrow> string \<Rightarrow> nat \<Rightarrow> int \<Rightarrow> int \<times> byte list" where
  "get_record env fs filename rsize recno =
     (case open_file env fs filename of
        None \<Rightarrow> (-1, [])
      | Some f \<Rightarrow>
          if int rsize * (recno - 1) < 0 then (-1, [])
          else
            (let r = take rsize (drop (rsize * nat (recno - 1)) f) in
             if length r \<noteq> rsize then (-1, r) else (0, r)))"

definition get_records :: "env \<Rightarrow> filesys \<Rightarrow> string \<Rightarrow> nat \<Rightarrow> int \<Rightarrow> nat \<Rightarrow> int \<times> byte list" where
  "get_records env fs filename rsize recno number =
     (case open_file env fs filename of
        None \<Rightarrow> (-1, [])
      | Some f \<Rightarrow>
          if int rsize * (recno - 1) < 0 then (0, [])
          else
            (let r = take (rsize * number) (drop (rsize * nat (recno - 1)) f) in
             (int (length r div rsize), r)))"

text \<open>Writing at an offset: a hole between the end of the file and the offset reads as zeros.\<close>

definition file_write :: "byte list \<Rightarrow> nat \<Rightarrow> byte list \<Rightarrow> byte list" where
  "file_write f off w =
     (if w = [] then f
      else take off f @ replicate (off - length f) 0 @ w @ drop (off + length w) f)"

definition substitute_record ::
  "env \<Rightarrow> write_result list \<Rightarrow> filesys \<Rightarrow> string \<Rightarrow> byte list \<Rightarrow> int \<Rightarrow> filesys \<times> int option" where
  "substitute_record env wrs fs filename rptr recno =
     (if recno < 1 then (fs, Some (-1))
      else
        (case open_creat env fs filename of
           None \<Rightarrow> (fs, Some (-1))
         | Some f \<Rightarrow>
             (case safewrite wrs rptr of
                (w, r) \<Rightarrow>
                  (fs(filename \<mapsto> file_write f (length rptr * nat (recno - 1)) w),
                   map_option (\<lambda>v. if v \<noteq> int (length rptr) then -1 else 0) r))))"

section \<open>Files as lists of records\<close>

declare apply_loop.simps [simp del] search_forward_loop.simps [simp del]
declare search_bin_loop.simps [simp del] process_loop.simps [simp del]

text \<open>The file \<open>f\<close> is the array \<open>rs\<close> of records of \<open>rsize\<close> bytes each.\<close>

definition holds :: "nat \<Rightarrow> byte list list \<Rightarrow> byte list \<Rightarrow> bool" where
  "holds rsize rs f \<longleftrightarrow> 0 < rsize \<and> (\<forall>r \<in> set rs. length r = rsize) \<and> f = concat rs"

lemma concat_length_const:
  "\<forall>r \<in> set rs. length r = n \<Longrightarrow> length (concat rs) = length rs * n"
  by (induction rs) auto

lemma concat_take_const:
  "\<forall>r \<in> set rs. length r = n \<Longrightarrow> take (k * n) (concat rs) = concat (take k rs)"
proof (induction rs arbitrary: k)
  case (Cons r rs)
  then show ?case by (cases k) auto
qed simp

lemma concat_drop_const:
  "\<forall>r \<in> set rs. length r = n \<Longrightarrow> drop (k * n) (concat rs) = concat (drop k rs)"
proof (induction rs arbitrary: k)
  case (Cons r rs)
  then show ?case by (cases k) auto
qed simp

lemma holds_length: "holds rsize rs f \<Longrightarrow> length f = length rs * rsize"
  by (simp add: holds_def concat_length_const)

lemma holds_pos: "holds rsize rs f \<Longrightarrow> 0 < rsize"
  by (simp add: holds_def)

lemma holds_div: "holds rsize rs f \<Longrightarrow> length f div rsize = length rs"
  by (simp add: holds_length holds_pos)

lemma holds_take: "holds rsize rs f \<Longrightarrow> take (k * rsize) f = concat (take k rs)"
  by (simp add: holds_def concat_take_const)

lemma holds_drop: "holds rsize rs f \<Longrightarrow> drop (k * rsize) f = concat (drop k rs)"
  by (simp add: holds_def concat_drop_const)

lemma holds_empty: "holds rsize rs f \<Longrightarrow> f = [] \<longleftrightarrow> rs = []"
  using holds_length [of rsize rs f] holds_pos [of rsize rs f]
  by (metis length_0_conv mult_eq_0_iff not_less_zero)

lemma holds_record: "holds rsize rs f \<Longrightarrow> i < length rs \<Longrightarrow> length (rs ! i) = rsize"
  by (simp add: holds_def)

lemma holds_slice:
  assumes "holds rsize rs f" "i < length rs"
  shows "take rsize (drop (i * rsize) f) = rs ! i"
proof -
  have "drop (i * rsize) f = rs ! i @ concat (drop (Suc i) rs)"
    using holds_drop [OF assms(1)] assms(2) by (simp add: Cons_nth_drop_Suc [symmetric])
  then show ?thesis using holds_record [OF assms] by simp
qed

lemma holds_chunk: "holds rsize rs f \<Longrightarrow> i < length rs \<Longrightarrow> chunk rsize f (i * rsize) = rs ! i"
  by (simp add: chunk_def holds_slice holds_record Let_def)

lemma holds_before: "holds rsize rs f \<Longrightarrow> i * rsize < length f \<longleftrightarrow> i < length rs"
  by (simp add: holds_length holds_pos)

lemma page_up: "n \<le> (n + PAGE - 1) div PAGE * PAGE"
proof -
  have "n + PAGE - 1 = (n + PAGE - 1) div PAGE * PAGE + (n + PAGE - 1) mod PAGE"
    by simp
  moreover have "(n + PAGE - 1) mod PAGE \<le> PAGE - 1"
    using mod_less_divisor [of PAGE "n + PAGE - 1"] by (simp add: PAGE_def)
  ultimately show ?thesis by (simp add: PAGE_def)
qed

lemma readable_inside: "off + n \<le> length f \<Longrightarrow> readable n f off"
  unfolding readable_def using page_up [of "length f"] by simp

lemma holds_readable: "holds rsize rs f \<Longrightarrow> i < length rs \<Longrightarrow> readable rsize f (i * rsize)"
proof (rule readable_inside)
  assume "holds rsize rs f" "i < length rs"
  moreover from this have "Suc i * rsize \<le> length rs * rsize" by (intro mult_le_mono1) simp
  ultimately show "i * rsize + rsize \<le> length f" by (simp add: holds_length)
qed

lemma holds_intro:
  "0 < rsize \<Longrightarrow> \<forall>r \<in> set rs. length r = rsize \<Longrightarrow> f = concat rs \<Longrightarrow> holds rsize rs f"
  by (simp add: holds_def)

lemma safewrite_loop_full:
  "safewrite_loop wrs buf n = (w, Some n) \<Longrightarrow> n \<noteq> -1 \<Longrightarrow> w = buf"
proof (induction wrs buf n arbitrary: w rule: safewrite_loop.induct)
  case (4 cc rs buf origsz)
  then show ?case by (auto split: if_splits prod.splits)
qed (auto split: if_splits)

lemma safewrite_loop_prefix:
  "safewrite_loop wrs buf n = (w, r) \<Longrightarrow> \<exists>rest. buf = w @ rest"
proof (induction wrs buf n arbitrary: w r rule: safewrite_loop.induct)
  case (4 cc rs buf origsz)
  show ?case
  proof (cases "drop cc buf = []")
    case False
    obtain w' r' where l: "safewrite_loop rs (drop cc buf) origsz = (w', r')" by fastforce
    from "4.IH" [OF False l] obtain rest where "drop cc buf = w' @ rest" by blast
    with "4.prems" False l show ?thesis by (metis append.assoc append_take_drop_id fst_conv prod.simps(2) safewrite_loop.simps(4))
  qed (use "4.prems" in auto)
qed (auto split: if_splits)

lemma safewrite_results:
  "safewrite_loop wrs buf n = (w, Some r) \<Longrightarrow> r = n \<or> r = -1"
proof (induction wrs buf n arbitrary: w rule: safewrite_loop.induct)
  case (4 cc rs buf origsz)
  then show ?case by (auto split: if_splits prod.splits)
qed (auto split: if_splits)

section \<open>The operations on well-formed files\<close>

lemma holds_num: "holds rsize rs f \<Longrightarrow> fs n = Some f \<Longrightarrow> get_num_records fs n rsize = int (length rs)"
  by (simp add: get_num_records_def holds_div)

lemma holds_append:
  "holds rsize rs f \<Longrightarrow> length r = rsize \<Longrightarrow> holds rsize (rs @ [r]) (f @ r)"
  by (auto simp: holds_def)

lemma append_record_holds:
  assumes "holds rsize rs f" "fs n = Some f" "length r = rsize"
    and "snd (safewrite wrs r) = Some (int rsize)"
  shows "append_record env_fine wrs fs n r = (fs(n \<mapsto> f @ r), Some 0)" "holds rsize (rs @ [r]) (f @ r)"
proof -
  obtain w v where w: "safewrite wrs r = (w, v)" by fastforce
  with assms(3,4) have "w = r"
    by (auto simp: safewrite_def dest: safewrite_loop_full)
  with w assms show "append_record env_fine wrs fs n r = (fs(n \<mapsto> f @ r), Some 0)"
    by (simp add: append_record_def open_creat_def env_fine_def)
  show "holds rsize (rs @ [r]) (f @ r)"
    using assms by (auto intro: holds_append)
qed

lemma nat_pred: "nat (i - 1) = nat i - 1"
  by arith

lemma recno_in_file:
  assumes h: "holds rsize rs f" and i: "0 < i"
  shows "int (length f) < i * int rsize \<longleftrightarrow> int (length rs) < i"
proof -
  obtain k where k: "i = int k" using i by (metis zero_le_imp_eq_int less_imp_le)
  have "int (length f) < int k * int rsize \<longleftrightarrow> length f < k * rsize"
    by (simp only: of_nat_mult [symmetric] of_nat_less_iff)
  then show ?thesis using holds_length [OF h] holds_pos [OF h] k by simp
qed

lemma get_record_holds:
  assumes h: "holds rsize rs f" and fs: "fs n = Some f"
  shows "get_record env_fine fs n rsize i =
    (if 1 \<le> i \<and> i \<le> int (length rs) then (0, rs ! (nat i - 1))
     else (-1, []))"
proof (cases "1 \<le> i")
  case False
  then have "int rsize * (i - 1) < 0" using holds_pos [OF h] by (simp add: mult_pos_neg)
  with False fs show ?thesis by (simp add: get_record_def open_file_def env_fine_def)
next
  case True
  then have nn: "\<not> int rsize * (i - 1) < 0" by (simp add: not_less)
  have e: "rsize * nat (i - 1) = (nat i - 1) * rsize" by (simp add: nat_pred mult.commute)
  show ?thesis
  proof (cases "i \<le> int (length rs)")
    case le: True
    with True have "nat i - 1 < length rs" by linarith
    with holds_slice [OF h this] holds_record [OF h this] nn fs True le show ?thesis
      by (simp add: get_record_def open_file_def env_fine_def nat_pred mult.commute [of rsize] Let_def)
  next
    case gt: False
    then have "length rs \<le> nat i - 1" by linarith
    then have "drop ((nat i - 1) * rsize) f = []" using holds_drop [OF h] by simp
    with nn fs gt holds_pos [OF h] show ?thesis
      by (simp add: get_record_def open_file_def env_fine_def nat_pred mult.commute [of rsize] Let_def del: drop_eq_Nil)
  qed
qed

lemma delete_bytes:
  assumes h: "holds rsize rs f" and i: "i < length rs"
  shows "holds rsize (remove_nth i rs)
     (take (rsize * (length rs - 1))
       (if Suc i * rsize < length f
        then memmove f (rsize * i) (rsize * Suc i) (length f - rsize * Suc i) else f))"
proof (cases "Suc i < length rs")
  case False
  with i have "i = length rs - 1" by simp
  moreover from this i have "remove_nth i rs = take (length rs - 1) rs" by (simp add: remove_nth_def)
  moreover have "take (rsize * (length rs - 1)) f = concat (take (length rs - 1) rs)"
    using holds_take [OF h, of "length rs - 1"] by (simp add: mult.commute)
  ultimately show ?thesis
    using h i False holds_before [OF h, of "Suc i"] by (auto simp: holds_def dest: in_set_takeD)
next
  case True
  have r: "remove_nth i rs = take i rs @ drop (Suc i) rs" by (simp add: remove_nth_def)
  have l: "length (concat (drop (Suc i) rs)) = length f - rsize * Suc i"
    unfolding holds_drop [OF h, of "Suc i", symmetric] by (simp add: mult.commute)
  have "memmove f (rsize * i) (rsize * Suc i) (length f - rsize * Suc i) =
      concat (take i rs) @ concat (drop (Suc i) rs) @ drop (rsize * i + (length f - rsize * Suc i)) f"
    using holds_take [OF h, of i] holds_drop [OF h, of "Suc i"] l
    by (simp add: memmove_def mult.commute [of rsize])
  moreover have "length (concat (take i rs) @ concat (drop (Suc i) rs)) = rsize * (length rs - 1)"
  proof -
    have "\<forall>x \<in> set (remove_nth i rs). length x = rsize"
      using h by (auto simp: holds_def remove_nth_def dest: in_set_takeD in_set_dropD)
    from concat_length_const [OF this] i show ?thesis by (simp add: r)
  qed
  ultimately have "take (rsize * (length rs - 1))
      (memmove f (rsize * i) (rsize * Suc i) (length f - rsize * Suc i)) = concat (remove_nth i rs)"
    by (simp add: r)
  then show ?thesis
    using h True holds_before [OF h, of "Suc i"]
    by (auto simp: holds_def remove_nth_def dest: in_set_takeD in_set_dropD)
qed

lemma delete_record_holds:
  assumes h: "holds rsize rs f" and fs: "fs n = Some f"
  shows "1 \<le> i \<Longrightarrow> i \<le> int (length rs) \<Longrightarrow>
      \<exists>f'. delete_record env_fine fs n rsize i = (fs(n \<mapsto> f'), 0) \<and> holds rsize (remove_nth (nat i - 1) rs) f'"
    and "\<not> (1 \<le> i \<and> i \<le> int (length rs)) \<Longrightarrow> delete_record env_fine fs n rsize i = (fs, -1)"
proof -
  assume i: "1 \<le> i" "i \<le> int (length rs)"
  then obtain k where k: "nat i = Suc k" "k < length rs" by (cases "nat i") auto
  have "f \<noteq> []" using k holds_empty [OF h] by auto
  moreover have "\<not> int (length f) < i * int rsize" using recno_in_file [OF h, of i] i by simp
  ultimately have "delete_record env_fine fs n rsize i =
    (fs(n \<mapsto> take (rsize * (length rs - 1))
       (if Suc k * rsize < length f
        then memmove f (rsize * k) (rsize * Suc k) (length f - rsize * Suc k) else f)), 0)"
    using i k fs holds_pos [OF h] holds_div [OF h]
    by (simp add: delete_record_def open_file_def env_fine_def Let_def)
  with delete_bytes [OF h k(2)] k show "\<exists>f'. delete_record env_fine fs n rsize i = (fs(n \<mapsto> f'), 0)
      \<and> holds rsize (remove_nth (nat i - 1) rs) f'"
    by auto
next
  assume i: "\<not> (1 \<le> i \<and> i \<le> int (length rs))"
  show "delete_record env_fine fs n rsize i = (fs, -1)"
  proof (cases "1 \<le> i")
    case True
    with i have "int (length f) < i * int rsize" using recno_in_file [OF h, of i] by simp
    with fs show ?thesis by (simp add: delete_record_def open_file_def env_fine_def)
  qed (simp add: delete_record_def)
qed

lemma substitute_record_holds:
  assumes h: "holds rsize rs f" and fs: "fs n = Some f" and r: "length r = rsize"
    and w: "snd (safewrite wrs r) = Some (int rsize)" and i: "1 \<le> i" "i \<le> int (length rs) + 1"
  shows "\<exists>f'. substitute_record env_fine wrs fs n r i = (fs(n \<mapsto> f'), Some 0) \<and>
    holds rsize (if i \<le> int (length rs) then rs[nat i - 1 := r] else rs @ [r]) f'"
proof -
  obtain b v where b: "safewrite wrs r = (b, v)" by fastforce
  with w r have "b = r" by (auto simp: safewrite_def dest: safewrite_loop_full)
  let ?k = "nat i - 1"
  have e: "length r * nat (i - 1) = ?k * rsize" using r by (simp add: nat_pred mult.commute)
  have ne: "r \<noteq> []" using r holds_pos [OF h] by auto
  have k: "?k \<le> length rs" using i by linarith
  then have off: "?k * rsize \<le> length f" using holds_length [OF h] by simp
  have "file_write f (?k * rsize) r = concat (take ?k rs) @ r @ concat (drop (Suc ?k) rs)"
    using ne off holds_take [OF h, of ?k] holds_drop [OF h, of "Suc ?k"] r
    by (simp add: file_write_def add.commute [of rsize])
  moreover have "substitute_record env_fine wrs fs n r i = (fs(n \<mapsto> file_write f (?k * rsize) r), Some 0)"
    using b w \<open>b = r\<close> i fs r
    by (simp add: substitute_record_def open_creat_def env_fine_def nat_pred mult.commute [of rsize])
  moreover have "take ?k rs @ r # drop (Suc ?k) rs = (if i \<le> int (length rs) then rs[?k := r] else rs @ [r])"
  proof (cases "i \<le> int (length rs)")
    case True
    with i have "?k < length rs" by linarith
    with True show ?thesis by (simp add: upd_conv_take_nth_drop)
  next
    case False
    with k i have "?k = length rs" by linarith
    with False show ?thesis by simp
  qed
  moreover have "concat (take ?k rs) @ r @ concat (drop (Suc ?k) rs) = concat (take ?k rs @ r # drop (Suc ?k) rs)"
    by simp
  moreover have "\<forall>x \<in> set (take ?k rs @ r # drop (Suc ?k) rs). length x = rsize"
    using h r by (auto simp: holds_def dest: in_set_takeD in_set_dropD)
  ultimately show ?thesis using holds_pos [OF h] by (auto simp: holds_def)
qed

lemma holds_memmove:
  assumes h: "holds rsize rs f" and n: "0 < n" "d + n \<le> length rs" "s + n \<le> length rs"
  shows "memmove f (rsize * d) (rsize * s) (n * rsize) = concat (memmove rs d s n)"
proof -
  have "take (n * rsize) (concat (drop s rs)) = concat (take n (drop s rs))"
    using h by (intro concat_take_const) (auto simp: holds_def dest: in_set_dropD)
  moreover have "rsize * d + n * rsize = (d + n) * rsize" by (simp add: algebra_simps)
  ultimately show ?thesis
    using holds_take [OF h, of d] holds_drop [OF h, of s] holds_drop [OF h, of "d + n"]
    by (simp add: memmove_def mult.commute [of rsize])
qed

lemma memmove_elements: "r \<in> set (memmove xs d s n) \<Longrightarrow> r \<in> set xs"
  by (auto simp: memmove_def dest: in_set_takeD in_set_dropD)

definition move_list :: "nat \<Rightarrow> nat \<Rightarrow> 'a list \<Rightarrow> 'a list" where
  "move_list src dst xs = insert_nth dst (xs ! src) (remove_nth src xs)"

lemma move_list_memmove:
  assumes "s < length xs" "d < length xs" "s \<noteq> d"
  shows "(if d < s then memmove xs (Suc d) d (s - d) else memmove xs s (Suc s) (d - s)) [d := xs ! s]
    = move_list s d xs"
proof (rule nth_equalityI)
  show "length ((if d < s then memmove xs (Suc d) d (s - d) else memmove xs s (Suc s) (d - s)) [d := xs ! s])
      = length (move_list s d xs)"
    using assms by (auto simp: move_list_def)
next
  fix i
  assume "i < length ((if d < s then memmove xs (Suc d) d (s - d) else memmove xs s (Suc s) (d - s)) [d := xs ! s])"
  then have i: "i < length xs" using assms by (auto split: if_splits)
  show "((if d < s then memmove xs (Suc d) d (s - d) else memmove xs s (Suc s) (d - s)) [d := xs ! s]) ! i
      = move_list s d xs ! i"
  proof (cases "d < s")
    case True
    with assms i show ?thesis
      by (auto simp: move_list_def insert_nth_def remove_nth_def memmove_def nth_append nth_list_update nth_Cons' min_def)
  next
    case False
    with assms i show ?thesis
      by (auto simp: move_list_def insert_nth_def remove_nth_def memmove_def nth_append nth_list_update nth_Cons' min_def)
  qed
qed

lemma move_bytes_holds:
  assumes h: "holds rsize rs f" and i: "1 \<le> i" "i \<le> length rs" "1 \<le> j" "j \<le> length rs" "i \<noteq> j"
  shows "holds rsize (move_list (i - 1) (j - 1) rs) (move_bytes rsize i j f)"
proof -
  let ?m = "if j < i then memmove rs (Suc (j - 1)) (j - 1) (i - 1 - (j - 1))
    else memmove rs (i - 1) (Suc (i - 1)) (j - 1 - (i - 1))"
  have m: "(if j < i then memmove f (rsize * j) (rsize * (j - 1)) ((i - j) * rsize)
     else memmove f (rsize * (i - 1)) (rsize * i) ((j - i) * rsize)) = concat ?m"
    using holds_memmove [OF h, of "i - j" j "j - 1"] holds_memmove [OF h, of "j - i" "i - 1" i] i
    by auto
  have hm: "holds rsize ?m (concat ?m)"
    using h by (auto simp: holds_def dest: memmove_elements)
  have lm: "length ?m = length rs" using i by auto
  have tmp: "take rsize (drop (rsize * (i - 1)) f) = rs ! (i - 1)"
    using holds_slice [OF h, of "i - 1"] i by (simp add: mult.commute)
  have "move_bytes rsize i j f =
      take ((j - 1) * rsize) (concat ?m) @ rs ! (i - 1) @ drop (Suc (j - 1) * rsize) (concat ?m)"
    unfolding move_bytes_def m tmp Let_def by (simp add: mult.commute add.commute)
  also have "\<dots> = concat (take (j - 1) ?m @ rs ! (i - 1) # drop (Suc (j - 1)) ?m)"
    unfolding holds_take [OF hm] holds_drop [OF hm] by simp
  also have "take (j - 1) ?m @ rs ! (i - 1) # drop (Suc (j - 1)) ?m = ?m [j - 1 := rs ! (i - 1)]"
    using lm i by (subst upd_conv_take_nth_drop) (auto split: if_splits)
  also have "?m [j - 1 := rs ! (i - 1)] = move_list (i - 1) (j - 1) rs"
    using i by (subst move_list_memmove [symmetric]) auto
  finally have b: "move_bytes rsize i j f = concat (move_list (i - 1) (j - 1) rs)" .
  have "rs ! (i - 1) \<in> set rs" using i by (intro nth_mem) linarith
  then have "\<forall>r \<in> set (move_list (i - 1) (j - 1) rs). length r = rsize"
    using h by (auto simp: holds_def move_list_def insert_nth_def remove_nth_def dest!: in_set_takeD in_set_dropD)
  with b holds_pos [OF h] show ?thesis by (simp add: holds_def)
qed

lemma move_record_holds:
  assumes h: "holds rsize rs f" and fs: "fs n = Some f"
    and i: "1 \<le> i" "i \<le> int (length rs)" "1 \<le> j" "j \<le> int (length rs)" and ne: "i \<noteq> j"
  shows "move_record env_fine fs n rsize i j = (fs(n \<mapsto> move_bytes rsize (nat i) (nat j) f), 0)"
    "holds rsize (move_list (nat i - 1) (nat j - 1) rs) (move_bytes rsize (nat i) (nat j) f)"
proof -
  have "rs \<noteq> []" using i by auto
  then have "f \<noteq> []" using holds_empty [OF h] by simp
  with recno_in_file [OF h, of i] recno_in_file [OF h, of j] i ne fs holds_pos [OF h]
  show "move_record env_fine fs n rsize i j = (fs(n \<mapsto> move_bytes rsize (nat i) (nat j) f), 0)"
    by (simp add: move_record_def open_file_def env_fine_def)
  from i ne show "holds rsize (move_list (nat i - 1) (nat j - 1) rs) (move_bytes rsize (nat i) (nat j) f)"
    by (intro move_bytes_holds [OF h]) (auto simp: nat_le_iff)
qed

text \<open>What \<open>apply_record\<close> does to a list: the callback in order, until it answers \<open>QUIT\<close>.\<close>

fun apply_list :: "('s \<Rightarrow> 'r \<Rightarrow> int \<Rightarrow> 's \<times> int) \<Rightarrow> 's \<Rightarrow> int \<Rightarrow> 'r list \<Rightarrow> 's \<times> int" where
  "apply_list fptr s recno [] = (s, 0)"
| "apply_list fptr s recno (r # rs) =
     (case fptr s r (recno + 1) of
        (s', v) \<Rightarrow> if v = QUIT then (s', QUIT) else apply_list fptr s' (recno + 1) rs)"

lemma apply_loop_list:
  "holds rsize rs f \<Longrightarrow> i \<le> length rs \<Longrightarrow>
     apply_loop fptr rsize f s (i * rsize) recno = apply_list fptr s recno (drop i rs)"
proof (induction "length rs - i" arbitrary: i s recno)
  case 0
  then show ?case using holds_before [of rsize rs f i] by (simp add: apply_loop.simps)
next
  case (Suc k)
  then have i: "i < length rs" by simp
  have n: "i * rsize + rsize = Suc i * rsize" by simp
  have "apply_loop fptr rsize f s (i * rsize) recno =
    (case fptr s (rs ! i) (recno + 1) of
       (s', r) \<Rightarrow> if r = QUIT then (s', QUIT) else apply_loop fptr rsize f s' (Suc i * rsize) (recno + 1))"
    using Suc.prems i holds_before [of rsize rs f i] holds_chunk holds_readable holds_pos
    by (subst apply_loop.simps) (simp add: add.commute [of _ rsize] split: prod.split)
  also have "\<dots> = apply_list fptr s recno (rs ! i # drop (Suc i) rs)"
    using Suc.hyps(1) [of "Suc i"] Suc.hyps(2) Suc.prems i by (simp split: prod.splits)
  finally show ?case using i by (simp add: Cons_nth_drop_Suc)
qed

lemma apply_record_holds:
  assumes h: "holds rsize rs f" and fs: "fs n = Some f"
  shows "apply_record env_fine fs n fptr rsize s = apply_list fptr s 0 rs"
  using apply_loop_list [OF h, of 0 fptr s 0] fs holds_empty [OF h]
  by (auto simp: apply_record_def open_file_def env_fine_def)

text \<open>The first element that satisfies a test, counted from a given number.\<close>

fun first_match :: "('r \<Rightarrow> bool) \<Rightarrow> int \<Rightarrow> 'r list \<Rightarrow> int \<times> 'r option" where
  "first_match P k [] = (0, None)"
| "first_match P k (r # rs) = (if P r then (k, Some r) else first_match P (k + 1) rs)"

lemma search_forward_list:
  "holds rsize rs f \<Longrightarrow> search_forward_loop P rsize f (i * rsize) k = first_match P k (drop i rs)"
proof (induction "length rs - i" arbitrary: i k)
  case 0
  then show ?case using holds_before [of rsize rs f i] by (simp add: search_forward_loop.simps)
next
  case (Suc m)
  then have i: "i < length rs" by simp
  have "search_forward_loop P rsize f (i * rsize) k =
    (if P (rs ! i) then (k, Some (rs ! i)) else search_forward_loop P rsize f (Suc i * rsize) (k + 1))"
    using Suc.prems i holds_before [of rsize rs f i] holds_chunk holds_readable holds_pos
    by (subst search_forward_loop.simps) (simp add: add.commute [of _ rsize])
  also have "\<dots> = first_match P k (rs ! i # drop (Suc i) rs)"
    using Suc.hyps(1) [of "Suc i"] Suc.hyps(2) Suc.prems i by simp
  finally show ?case using i by (simp add: Cons_nth_drop_Suc)
qed

lemma search_record_forward_holds:
  assumes h: "holds rsize rs f" and fs: "fs n = Some f" and s: "1 \<le> start"
  shows "search_record_forward env_fine fs n rsize start P = first_match P 1 (drop (nat start - 1) rs)"
  using search_forward_list [OF h, of P "nat start - 1" 1] fs s holds_empty [OF h]
  by (auto simp: search_record_forward_def open_file_def env_fine_def nat_pred)

lemma first_match_found:
  "first_match P k rs = (m, Some r) \<longleftrightarrow>
     (\<exists>i < length rs. m = k + int i \<and> r = rs ! i \<and> P (rs ! i) \<and> (\<forall>j < i. \<not> P (rs ! j)))"
proof (induction rs arbitrary: k)
  case (Cons x rs)
  show ?case
  proof (cases "P x")
    case True
    then show ?thesis by (auto intro!: exI [of _ 0]) (metis neq0_conv nth_Cons_0)+
  next
    case False
    then have "first_match P k (x # rs) = (m, Some r) \<longleftrightarrow>
      (\<exists>i < length rs. m = k + 1 + int i \<and> r = rs ! i \<and> P (rs ! i) \<and> (\<forall>j < i. \<not> P (rs ! j)))"
      using Cons.IH by simp
    also have "\<dots> \<longleftrightarrow> (\<exists>i < length (x # rs). m = k + int i \<and> r = (x # rs) ! i \<and> P ((x # rs) ! i) \<and>
        (\<forall>j < i. \<not> P ((x # rs) ! j)))" (is "?a \<longleftrightarrow> ?b")
    proof
      assume ?a
      then obtain i where "i < length rs" "m = k + 1 + int i" "r = rs ! i" "P (rs ! i)" "\<forall>j < i. \<not> P (rs ! j)"
        by blast
      with False show ?b by (intro exI [of _ "Suc i"]) (auto simp: less_Suc_eq_0_disj)
    next
      assume ?b
      then obtain i where i: "i < length (x # rs)" "m = k + int i" "r = (x # rs) ! i" "P ((x # rs) ! i)"
        "\<forall>j < i. \<not> P ((x # rs) ! j)" by blast
      with False obtain i' where "i = Suc i'" by (cases i) auto
      with i show ?a by (intro exI [of _ i']) (auto simp: less_Suc_eq_0_disj)
    qed
    finally show ?thesis .
  qed
qed simp

lemma first_match_none: "0 < k \<Longrightarrow> fst (first_match P k rs) = 0 \<longleftrightarrow> (\<forall>r \<in> set rs. \<not> P r)"
  by (induction rs arbitrary: k) auto

text \<open>Binary search: \<open>c\<close> answers positive before the records sought and negative behind them.\<close>

definition ordered_answers :: "(nat \<Rightarrow> int) \<Rightarrow> nat \<Rightarrow> bool" where
  "ordered_answers c n \<longleftrightarrow>
     (\<forall>i j. i \<le> j \<and> j < n \<longrightarrow> (0 < c j \<longrightarrow> 0 < c i) \<and> (c i < 0 \<longrightarrow> c j < 0))"

lemma ordered_answers_sorted:
  fixes g :: "'r \<Rightarrow> int"
  assumes "sorted (map g rs)"
  shows "ordered_answers (\<lambda>i. k - g (rs ! i)) (length rs)"
  unfolding ordered_answers_def
proof (intro allI impI)
  fix i j assume "i \<le> j \<and> j < length rs"
  then have "g (rs ! i) \<le> g (rs ! j)" using sorted_nth_mono [OF assms, of i j] by simp
  then show "(0 < k - g (rs ! j) \<longrightarrow> 0 < k - g (rs ! i)) \<and> (k - g (rs ! i) < 0 \<longrightarrow> k - g (rs ! j) < 0)"
    by linarith
qed

lemma search_bin_sound:
  "search_bin_loop cmp left right = r \<Longrightarrow> r \<noteq> 0 \<Longrightarrow>
     left \<le> r - 1 \<and> r - 1 \<le> right \<and> cmp (r - 1) = Some 0"
proof (induction cmp left right arbitrary: r rule: search_bin_loop.induct)
  case (1 cmp left right)
  show ?case
  proof (cases "left \<le> right")
    case False
    with "1.prems" show ?thesis by (simp add: search_bin_loop.simps [of cmp left right])
  next
    case le: True
    let ?m = "left + (right - left) div 2"
    have m: "left \<le> ?m" "?m \<le> right" using le by auto
    show ?thesis
    proof (cases "cmp ?m")
      case None
      with le "1.prems" show ?thesis by (simp add: search_bin_loop.simps [of cmp left right] Let_def)
    next
      case (Some v)
      consider "v = 0" | "0 < v" | "v < 0" by linarith
      then show ?thesis
      proof cases
        case 1
        then have "r = ?m + 1" using le Some "1.prems"
          by (simp add: search_bin_loop.simps [of cmp left right] Let_def)
        with m Some \<open>v = 0\<close> show ?thesis by simp
      next
        case 2
        with le Some "1.prems" have "search_bin_loop cmp (?m + 1) right = r"
          by (simp add: search_bin_loop.simps [of cmp left right] Let_def)
        with "1.IH"(1) [OF le refl Some] 2 "1.prems"(2) m show ?thesis by force
      next
        case 3
        with le Some "1.prems" have "search_bin_loop cmp left (?m - 1) = r"
          by (simp add: search_bin_loop.simps [of cmp left right] Let_def)
        with "1.IH"(2) [OF le refl Some] 3 "1.prems"(2) m show ?thesis by force
      qed
    qed
  qed
qed

lemma search_bin_complete:
  assumes c: "ordered_answers c n" and cmp: "\<And>i. 0 \<le> i \<Longrightarrow> i < int n \<Longrightarrow> cmp i = Some (c (nat i))"
    and t: "t < n" "c t = 0"
  shows "0 \<le> left \<Longrightarrow> left \<le> int t \<Longrightarrow> int t \<le> right \<Longrightarrow> right \<le> int n \<Longrightarrow>
     \<exists>i < n. search_bin_loop cmp left right = int i + 1 \<and> c i = 0"
proof (induction "nat (right + 1 - left)" arbitrary: left right rule: less_induct)
  case less
  let ?m = "left + (right - left) div 2"
  have le: "left \<le> right" and m: "left \<le> ?m" "?m \<le> right" using less.prems by auto
  have mn: "?m < int n" using less.prems t by linarith
  then have v: "cmp ?m = Some (c (nat ?m))" using cmp less.prems m by simp
  have nm: "nat ?m < n" using mn less.prems m by linarith
  consider "c (nat ?m) = 0" | "0 < c (nat ?m)" | "c (nat ?m) < 0" by linarith
  then show ?case
  proof cases
    case 1
    then have "search_bin_loop cmp left right = ?m + 1"
      using le v by (simp add: search_bin_loop.simps [of cmp left right] Let_def)
    then show ?thesis using 1 nm less.prems m by (intro exI [of _ "nat ?m"]) auto
  next
    case 2
    have "\<not> t \<le> nat ?m" using c 2 t nm unfolding ordered_answers_def by force
    then have tm: "?m + 1 \<le> int t" using less.prems m by linarith
    have "search_bin_loop cmp left right = search_bin_loop cmp (?m + 1) right"
      using le v 2 by (simp add: search_bin_loop.simps [of cmp left right] Let_def)
    moreover have "\<exists>i < n. search_bin_loop cmp (?m + 1) right = int i + 1 \<and> c i = 0"
      by (rule less.hyps) (use less.prems m tm in linarith)+
    ultimately show ?thesis by simp
  next
    case 3
    have "\<not> nat ?m \<le> t" using c 3 t unfolding ordered_answers_def by force
    then have tm: "int t \<le> ?m - 1" using less.prems m by linarith
    have "search_bin_loop cmp left right = search_bin_loop cmp left (?m - 1)"
      using le v 3 by (simp add: search_bin_loop.simps [of cmp left right] Let_def)
    moreover have "\<exists>i < n. search_bin_loop cmp left (?m - 1) = int i + 1 \<and> c i = 0"
      by (rule less.hyps) (use less.prems m tm in linarith)+
    ultimately show ?thesis by simp
  qed
qed

lemma search_record_bin_unfold:
  assumes h: "holds rsize rs f" and fs: "fs n = Some f" and s: "1 \<le> start" and ne: "rs \<noteq> []"
  shows "search_record_bin env_fine fs n rsize start fptr =
    (let cmp = (\<lambda>m. if readable rsize f (nat m * rsize)
                    then Some (fptr (chunk rsize f (nat m * rsize))) else None);
         r = search_bin_loop cmp (start - 1) (int (length rs)) in
     if r = 0 then (0, None) else (r, Some (chunk rsize f (nat (r - 1) * rsize))))"
  using fs s ne holds_empty [OF h] holds_div [OF h]
  by (simp add: search_record_bin_def open_file_def env_fine_def)

lemma search_record_bin_finds:
  assumes h: "holds rsize rs f" and fs: "fs n = Some f" and s: "1 \<le> start" "start - 1 \<le> int t"
    and c: "ordered_answers (\<lambda>i. fptr (rs ! i)) (length rs)" and t: "t < length rs" "fptr (rs ! t) = 0"
  shows "\<exists>i < length rs. search_record_bin env_fine fs n rsize start fptr = (int i + 1, Some (rs ! i))
    \<and> fptr (rs ! i) = 0"
proof -
  let ?cmp = "\<lambda>m. if readable rsize f (nat m * rsize)
    then Some (fptr (chunk rsize f (nat m * rsize))) else None"
  have "rs \<noteq> []" using t by auto
  note u = search_record_bin_unfold [of rsize rs f fs n start fptr, OF h fs s(1) this, unfolded Let_def]
  have "?cmp i = Some (fptr (rs ! nat i))" if "0 \<le> i" "i < int (length rs)" for i
    using that holds_chunk [OF h, of "nat i"] holds_readable [OF h, of "nat i"] by (simp add: nat_less_iff)
  from search_bin_complete [OF c this t, of "start - 1" "int (length rs)"] s t
  obtain i where i: "i < length rs" "search_bin_loop ?cmp (start - 1) (int (length rs)) = int i + 1"
    "fptr (rs ! i) = 0" by auto
  have "search_record_bin env_fine fs n rsize start fptr = (int i + 1, Some (rs ! i))"
    unfolding u i(2) using holds_chunk [OF h i(1)] by simp
  with i show ?thesis by blast
qed

lemma search_record_bin_none:
  assumes h: "holds rsize rs f" and fs: "fs n = Some f" and s: "1 \<le> start" and ne: "rs \<noteq> []"
    and none: "\<forall>r \<in> set rs. fptr r \<noteq> 0"
  shows "search_record_bin env_fine fs n rsize start fptr = (0, None) \<or>
    search_record_bin env_fine fs n rsize start fptr =
      (int (length rs) + 1, Some (replicate rsize 0)) \<and> fptr (replicate rsize 0) = 0"
proof -
  let ?cmp = "\<lambda>m. if readable rsize f (nat m * rsize)
    then Some (fptr (chunk rsize f (nat m * rsize))) else None"
  note u = search_record_bin_unfold [of rsize rs f fs n start fptr, OF h fs s ne, unfolded Let_def]
  let ?r = "search_bin_loop ?cmp (start - 1) (int (length rs))"
  show ?thesis
  proof (cases "?r = 0")
    case True
    then show ?thesis unfolding u by simp
  next
    case False
    from search_bin_sound [OF refl False] have r: "start - 1 \<le> ?r - 1" "?r - 1 \<le> int (length rs)"
      "?cmp (?r - 1) = Some 0" by blast+
    have "\<not> ?r - 1 < int (length rs)"
    proof
      assume lt: "?r - 1 < int (length rs)"
      then have i: "nat (?r - 1) < length rs" using r s by linarith
      have "fptr (rs ! nat (?r - 1)) = 0"
        using r(3) holds_chunk [OF h i] by (simp split: if_splits)
      with none i show False by simp
    qed
    with r have rn: "?r = int (length rs) + 1" by linarith
    have z: "chunk rsize f (length rs * rsize) = replicate rsize 0"
      using holds_length [OF h] by (simp add: chunk_def)
    from r(3) have "fptr (chunk rsize f (length rs * rsize)) = 0"
      unfolding rn by (simp split: if_splits)
    then show ?thesis unfolding u rn z by (simp add: z)
  qed
qed

section \<open>Properties\<close>

text \<open>C21. \<open>search_record_bin\<close> on a file whose records the callback answers in order: when some
  record from \<open>start\<close> on is one sought, the number and the bytes of such a record are returned.\<close>

theorem search_record_bin_complete:
  assumes "holds rsize rs f" "fs n = Some f" "1 \<le> start" "start - 1 \<le> int t"
    "ordered_answers (\<lambda>i. fptr (rs ! i)) (length rs)" "t < length rs" "fptr (rs ! t) = 0"
  shows "\<exists>i < length rs. search_record_bin env_fine fs n rsize start fptr = (int i + 1, Some (rs ! i))
    \<and> fptr (rs ! i) = 0"
  using assms by (rule search_record_bin_finds)

theorem search_record_bin_complete_witness:
  "\<exists>i < length [[1], [4], [7 :: byte]].
     search_record_bin env_fine [''f'' \<mapsto> [1, 4, 7]] ''f'' 1 1 (\<lambda>r. 7 - uint (hd r)) =
       (int i + 1, Some ([[1], [4], [7]] ! i)) \<and> 7 - uint (hd ([[1], [4], [7 :: byte]] ! i)) = 0"
  by (rule search_record_bin_complete [where t = 2, OF _ _ _ _ ordered_answers_sorted])
    (simp_all add: holds_def)

text \<open>When no record is sought, \<open>search_record_bin\<close> either fails or invents one: its
  right bound is one too high, so it may find the zero bytes behind the last record.\<close>

theorem search_record_bin_phantom:
  assumes "holds rsize rs f" "fs n = Some f" "1 \<le> start" "rs \<noteq> []" "\<forall>r \<in> set rs. fptr r \<noteq> 0"
  shows "search_record_bin env_fine fs n rsize start fptr = (0, None) \<or>
    search_record_bin env_fine fs n rsize start fptr =
      (int (length rs) + 1, Some (replicate rsize 0)) \<and> fptr (replicate rsize 0) = 0"
  using assms by (rule search_record_bin_none)

theorem search_record_bin_phantom_witness:
  "search_record_bin env_fine [''f'' \<mapsto> [1, 4]] ''f'' 1 1 (\<lambda>r. uint (hd r)) = (0, None) \<or>
   search_record_bin env_fine [''f'' \<mapsto> [1, 4]] ''f'' 1 1 (\<lambda>r. uint (hd r)) =
     (int (length [[1], [4 :: byte]]) + 1, Some (replicate 1 0)) \<and> uint (hd (replicate 1 (0 :: byte))) = 0"
  by (rule search_record_bin_phantom) (auto simp: holds_def)

text \<open>A file of one record and a key that is not in it: \<open>search_record_bin\<close> reports record 2.\<close>

theorem search_record_bin_past_the_end:
  "search_record_bin env_fine [''f'' \<mapsto> [1 :: byte]] ''f'' 1 1 (\<lambda>r. uint (hd r)) = (2, Some [0])"
  by (simp add: search_record_bin_def open_file_def env_fine_def search_bin_loop.simps readable_def
      chunk_def PAGE_def Let_def)

text \<open>\<open>move_record\<close> takes one record out and puts it in at its new place; all others keep
  their order.\<close>

theorem move_record_moves:
  assumes "holds rsize rs f" "fs n = Some f" "1 \<le> i" "i \<le> int (length rs)" "1 \<le> j" "j \<le> int (length rs)"
    "i \<noteq> j"
  shows "\<exists>f'. move_record env_fine fs n rsize i j = (fs(n \<mapsto> f'), 0) \<and>
    holds rsize (insert_nth (nat j - 1) (rs ! (nat i - 1)) (remove_nth (nat i - 1) rs)) f'"
  using move_record_holds [of rsize rs f fs n i j, OF assms] unfolding move_list_def by blast

theorem move_record_moves_witness:
  "\<exists>f'. move_record env_fine [''f'' \<mapsto> [1, 2, 3 :: byte]] ''f'' 1 3 1 =
      ([''f'' \<mapsto> [1, 2, 3 :: byte], ''f'' \<mapsto> f'], 0) \<and>
    holds 1 (insert_nth (nat 1 - 1) ([[1], [2], [3 :: byte]] ! (nat 3 - 1)) (remove_nth (nat 3 - 1) [[1], [2], [3]])) f'"
  by (rule move_record_moves) (simp_all add: holds_def)

end
