(* ===== verification/RecordBatch.thy ===== *)
theory RecordBatch
  imports RecordFile "HOL-Library.Multiset"
begin

text \<open>
  The operations of src/record.c on many records at once, \<open>process_records\<close> and
  \<open>sort_records\<close>, on well-formed files; and the contract of a record file, as a locale over
  abstract files, with its interpretation on the operations of RecordFile.
\<close>

section \<open>Filtering a range of records\<close>

text \<open>What \<open>process_records\<close> does to a list of records.\<close>

fun process_list ::
  "('s \<Rightarrow> 'r \<Rightarrow> 's \<times> 'r \<times> int) \<Rightarrow> 's \<Rightarrow> 'r list \<Rightarrow> 's \<times> 'r list" where
  "process_list fc s [] = (s, [])"
| "process_list fc s (r # rs) =
     (case fc s r of
        (s1, r1, v) \<Rightarrow>
          (case process_list fc s1 rs of
             (s2, rs2) \<Rightarrow> (s2, if v = KEEPRECORD then r1 # rs2 else rs2)))"

definition keeps_length :: "nat \<Rightarrow> ('s \<Rightarrow> byte list \<Rightarrow> 's \<times> byte list \<times> int) \<Rightarrow> bool" where
  "keeps_length n fc \<longleftrightarrow> (\<forall>s r. length r = n \<longrightarrow> length (fst (snd (fc s r))) = n)"

lemma keeps_lengthD: "keeps_length n fc \<Longrightarrow> fc s r = (s1, r1, v) \<Longrightarrow> length r = n \<Longrightarrow> length r1 = n"
  by (simp add: keeps_length_def) (metis fst_conv snd_conv)

lemma process_list_length: "length (snd (process_list fc s rs)) \<le> length rs"
proof (induction rs arbitrary: s)
  case (Cons r rs)
  obtain s1 r1 v where fc: "fc s r = (s1, r1, v)" by (cases "fc s r") auto
  show ?case using Cons [of s1] fc by (auto split: prod.splits)
qed simp

lemma process_list_members:
  assumes k: "keeps_length n fc"
  shows "\<forall>r \<in> set rs. length r = n \<Longrightarrow> \<forall>r \<in> set (snd (process_list fc s rs)). length r = n"
proof (induction rs arbitrary: s)
  case (Cons r rs)
  obtain s1 r1 v where fc: "fc s r = (s1, r1, v)" by (cases "fc s r") auto
  obtain s2 rs2 where pl: "process_list fc s1 rs = (s2, rs2)" by fastforce
  have "length r1 = n" using keeps_lengthD [OF k fc] Cons.prems by simp
  with Cons.IH [of s1] Cons.prems fc pl show ?case by simp
qed simp

lemma chunk_mid: "length r = n \<Longrightarrow> chunk n (a @ r @ z) (length a) = r"
  by (simp add: chunk_def)

lemma store_mid: "length r = length q \<Longrightarrow> store_rec (a @ q @ z) (length a) r = a @ r @ z"
  by (simp add: store_rec_def)

lemma bmove_mid:
  assumes "length r = n" "length g = Suc k * n - n" "0 < n"
  shows "\<exists>g'. bmove (a @ g @ r @ z) (length a) (length a + length g) n = a @ r @ g' @ z \<and> length g' = length g"
proof -
  have "bmove (a @ g @ r @ z) (length a) (length a + length g) n = a @ r @ drop n (g @ r @ z)"
    using assms by (simp add: bmove_def chunk_def)
  also have "drop n (g @ r @ z) = drop n (g @ r) @ z" using assms by simp
  finally show ?thesis using assms(1) by (intro exI [of _ "drop n (g @ r)"]) simp
qed

text \<open>
  The loop on a mapping \<open>a @ g @ concat rs @ z\<close>, with \<open>preservation\<close> behind \<open>a\<close>, \<open>fhdr\<close> behind
  the gap \<open>g\<close> (as long as the records removed) and \<open>lasthdr\<close> before \<open>z\<close>.
\<close>

lemma process_loop_list:
  assumes k: "keeps_length n fc" and n: "0 < n"
  shows "\<forall>r \<in> set rs. length r = n \<Longrightarrow> length g = rc * n \<Longrightarrow>
    lasthdr = length a + length g + length (concat rs) \<Longrightarrow>
    \<exists>g'. process_loop fc n lasthdr (a @ g @ concat rs @ z) s (length a + length g) (length a) rc =
       (a @ concat (snd (process_list fc s rs)) @ g' @ z, fst (process_list fc s rs),
        length a + length (concat (snd (process_list fc s rs))), lasthdr,
        rc + (length rs - length (snd (process_list fc s rs)))) \<and>
      length g' = (rc + (length rs - length (snd (process_list fc s rs)))) * n"
proof (induction rs arbitrary: a g rc s)
  case Nil
  then show ?case by (intro exI [of _ g]) (simp add: process_loop.simps)
next
  case (Cons r rs)
  obtain s1 r1 v where fc: "fc s r = (s1, r1, v)" by (cases "fc s r") auto
  have lr: "length r = n" using Cons.prems by simp
  then have lr1: "length r1 = n" using keeps_lengthD [OF k fc] by simp
  obtain s2 rs2 where pl: "process_list fc s1 rs = (s2, rs2)" by fastforce
  have le: "length rs2 \<le> length rs" using process_list_length [of fc s1 rs] pl by simp
  let ?f = "a @ g @ concat (r # rs) @ z"
  let ?f1 = "a @ g @ r1 @ concat rs @ z"
  have lt: "length a + length g < lasthdr" using Cons.prems lr n by simp
  have ch: "chunk n ?f (length a + length g) = r"
    using chunk_mid [of r n "a @ g" "concat rs @ z"] lr by simp
  have st: "store_rec ?f (length a + length g) r1 = ?f1"
    using store_mid [of r1 r "a @ g" "concat rs @ z"] lr lr1 by simp
  note unfold1 = process_loop.simps [of fc n lasthdr ?f s "length a + length g" "length a" rc]
  show ?case
  proof (cases "v = KEEPRECORD")
    case False
    have step: "process_loop fc n lasthdr ?f s (length a + length g) (length a) rc =
      process_loop fc n lasthdr (a @ (g @ r1) @ concat rs @ z) s1 (length a + length (g @ r1)) (length a) (rc + 1)"
      unfolding unfold1 ch fc prod.case Let_def st using lt n False lr1 by (simp add: add.assoc)
    have "length (g @ r1) = (rc + 1) * n" "lasthdr = length a + length (g @ r1) + length (concat rs)"
      using Cons.prems lr lr1 by simp_all
    from Cons.IH [of "g @ r1" "rc + 1" a s1, OF _ this] Cons.prems pl
    obtain g' where g': "process_loop fc n lasthdr (a @ (g @ r1) @ concat rs @ z) s1
        (length a + length (g @ r1)) (length a) (rc + 1) =
        (a @ concat rs2 @ g' @ z, s2, length a + length (concat rs2), lasthdr, rc + 1 + (length rs - length rs2))"
      "length g' = (rc + 1 + (length rs - length rs2)) * n" by auto
    have count: "rc + (length (r # rs) - length rs2) = rc + 1 + (length rs - length rs2)" using le by simp
    have res: "process_list fc s (r # rs) = (s2, rs2)" using fc pl False by simp
    show ?thesis unfolding step res fst_conv snd_conv count using g' by blast
  next
    case True
    obtain g1 where g1: "(if length a + length g \<noteq> length a then bmove ?f1 (length a) (length a + length g) n
        else ?f1) = (a @ r1) @ g1 @ concat rs @ z" "length g1 = length g"
    proof (cases "g = []")
      case True
      then show ?thesis using that [of "[]"] by simp
    next
      case False
      obtain g' where "bmove ?f1 (length a) (length a + length g) n = a @ r1 @ g' @ concat rs @ z"
        "length g' = length g"
        using bmove_mid [OF lr1, of g rc a "concat rs @ z"] n Cons.prems(2) by auto
      then show ?thesis using that [of g'] False by simp
    qed
    have step: "process_loop fc n lasthdr ?f s (length a + length g) (length a) rc =
      process_loop fc n lasthdr ((a @ r1) @ g1 @ concat rs @ z) s1 (length (a @ r1) + length g1) (length (a @ r1)) rc"
      unfolding unfold1 ch fc prod.case Let_def st g1(1) using lt n True lr1 g1(2)
      by (simp add: add.commute add.left_commute)
    have "length g1 = rc * n" "lasthdr = length (a @ r1) + length g1 + length (concat rs)"
      using Cons.prems lr lr1 g1 by simp_all
    from Cons.IH [of g1 rc "a @ r1" s1, OF _ this] Cons.prems pl
    obtain g' where g': "process_loop fc n lasthdr ((a @ r1) @ g1 @ concat rs @ z) s1
        (length (a @ r1) + length g1) (length (a @ r1)) rc =
        ((a @ r1) @ concat rs2 @ g' @ z, s2, length (a @ r1) + length (concat rs2), lasthdr,
         rc + (length rs - length rs2))"
      "length g' = (rc + (length rs - length rs2)) * n" by auto
    have res: "process_list fc s (r # rs) = (s2, r1 # rs2)" using fc pl True by simp
    have l: "length (r # rs) - length (r1 # rs2) = length rs - length rs2" by simp
    have e: "(a @ r1) @ concat rs2 @ g' @ z = a @ concat (r1 # rs2) @ g' @ z"
      "length (a @ r1) + length (concat rs2) = length a + length (concat (r1 # rs2))" by simp_all
    show ?thesis unfolding step res fst_conv snd_conv l using g' unfolding e by blast
  qed
qed

text \<open>\<open>process_records\<close> on the records numbered \<open>id1\<close> to \<open>id2\<close>.\<close>

definition process_range ::
  "('s \<Rightarrow> 'r \<Rightarrow> 's \<times> 'r \<times> int) \<Rightarrow> 's \<Rightarrow> nat \<Rightarrow> nat \<Rightarrow> 'r list \<Rightarrow> 's \<times> 'r list" where
  "process_range fc s i j rs =
     (case process_list fc s (take (j - (i - 1)) (drop (i - 1) rs)) of
        (s', kept) \<Rightarrow> (s', take (i - 1) rs @ kept @ drop j rs))"

lemma bmove_close:
  "take (length a + length p) (bmove (a @ g @ p) (length a) (length a + length g) (length p)) = a @ p"
  by (simp add: bmove_def chunk_def)

lemma process_close:
  assumes lf: "lf = length a + length g + length z" and g: "length g = rc * n"
    and l: "l = length a + length g" and m: "l \<noteq> lf \<Longrightarrow> m = length z"
  shows "(let f2 = (if l \<noteq> lf then bmove (a @ g @ z) (length a) l m else a @ g @ z)
    in if 0 < rc then take (lf - rc * n) f2 else f2) = a @ z"
proof (cases "l = lf")
  case True
  with lf l have "z = []" by simp
  with True lf g l show ?thesis by (cases "rc = 0") (auto simp: Let_def)
next
  case False
  note mz = m [OF False]
  have tl: "lf - rc * n = length a + length z" using lf g by simp
  show ?thesis
  proof (cases "rc = 0")
    case True
    with g have "g = []" by simp
    with False True mz l show ?thesis by (simp add: bmove_def chunk_def)
  next
    case rc: False
    have "take (lf - rc * n) (bmove (a @ g @ z) (length a) l m) = a @ z"
      unfolding tl mz l by (rule bmove_close)
    with rc False show ?thesis by (simp add: Let_def)
  qed
qed

lemma process_records_unfold:
  assumes fs: "fs n = Some f" "f \<noteq> []" and i: "1 \<le> i" "i \<le> j" "\<not> length f < i * rsize"
    and l: "l = (if length f < j * rsize then length f else j * rsize)"
    and loop: "process_loop fc rsize l f s ((i - 1) * rsize) ((i - 1) * rsize) 0 = (f1, s1, p, q, rc)"
  shows "process_records env_fine fs n rsize (int i) (int j) fc s =
    (fs(n \<mapsto> let f2 = (if l \<noteq> length f then bmove f1 p q ((length f div rsize - j) * rsize) else f1)
              in if 0 < rc then take (length f - rc * rsize) f2 else f2), s1, 0)"
proof -
  have c: "int (length f) < int x * int rsize \<longleftrightarrow> length f < x * rsize" for x
    by (simp only: of_nat_mult [symmetric] of_nat_less_iff)
  have e: "(if int (length f) < int j * int rsize then length f else rsize * nat (int j)) = l"
    unfolding l c by (simp add: mult.commute)
  have op: "open_file env_fine fs n = Some f" using fs by (simp add: open_file_def env_fine_def)
  show ?thesis
    unfolding process_records_def op c Let_def option.case nat_int
    using i fs e [unfolded nat_int c] loop by (simp add: env_fine_def c)
qed

lemma process_records_holds:
  assumes h: "holds rsize rs f" and fs: "fs n = Some f" and k: "keeps_length rsize fc"
    and i: "1 \<le> i" "i \<le> length rs" "i \<le> j"
  shows "\<exists>f'. process_records env_fine fs n rsize (int i) (int j) fc s =
      (fs(n \<mapsto> f'), fst (process_range fc s i j rs), 0)
    \<and> holds rsize (snd (process_range fc s i j rs)) f'"
proof -
  let ?pre = "take (i - 1) rs" and ?mid = "take (j - (i - 1)) (drop (i - 1) rs)" and ?post = "drop j rs"
  let ?l = "if length f < j * rsize then length f else j * rsize"
  have n: "0 < rsize" using holds_pos [OF h] .
  have all: "\<forall>r \<in> set rs. length r = rsize" and f: "f = concat rs" using h by (auto simp: holds_def)
  have rs: "rs = ?pre @ ?mid @ ?post"
    using i by (metis append_take_drop_id drop_drop le_add_diff_inverse2 diff_le_self le_trans)
  obtain s' kept where pl: "process_list fc s ?mid = (s', kept)" by fastforce
  have mid: "\<forall>r \<in> set ?mid. length r = rsize" and post: "\<forall>r \<in> set ?post. length r = rsize"
    and pre: "\<forall>r \<in> set ?pre. length r = rsize"
    using all by (auto dest: in_set_takeD in_set_dropD)
  have kept: "\<forall>r \<in> set kept. length r = rsize"
    using process_list_members [OF k mid, of s] pl by simp
  have lf: "length f = length rs * rsize" using holds_length [OF h] .
  have lpre: "length (concat ?pre) = (i - 1) * rsize"
    using concat_length_const [OF pre] i by simp
  have lmid: "length (concat ?mid) = length ?mid * rsize" by (rule concat_length_const [OF mid])
  have lpost: "length (concat ?post) = (length rs - j) * rsize"
    using concat_length_const [OF post] by simp
  have lkept: "length (concat kept) = length kept * rsize" by (rule concat_length_const [OF kept])
  have le: "length kept \<le> length ?mid" using process_list_length [of fc s ?mid] pl by simp
  have f3: "f = concat ?pre @ [] @ concat ?mid @ concat ?post"
    unfolding f by (subst rs) simp
  have jl: "length f < j * rsize \<longleftrightarrow> length rs < j" using lf n by simp
  have lasthdr: "?l = length (concat ?pre) + length ([] :: byte list) + length (concat ?mid)"
  proof -
    have "(i - 1) + min (length rs - (i - 1)) (j - (i - 1)) = min (length rs) j"
      using i by linarith
    then have "(i - 1) * rsize + min (length rs - (i - 1)) (j - (i - 1)) * rsize = min (length rs) j * rsize"
      by (simp only: add_mult_distrib [symmetric])
    then show ?thesis unfolding lpre lmid using jl lf by (auto simp: min_def)
  qed
  let ?a = "concat ?pre @ concat kept" and ?rc = "length ?mid - length kept" and ?z = "concat ?post"
  from process_loop_list [OF k n mid, of "[]" 0 ?l "concat ?pre" ?z s] lasthdr pl
  obtain g where loop: "process_loop fc rsize ?l f s ((i - 1) * rsize) ((i - 1) * rsize) 0 =
      (?a @ g @ ?z, s', length ?a, ?l, ?rc)" and g: "length g = ?rc * rsize"
    unfolding lpre [symmetric] f3 [symmetric] by (auto simp: f3 [symmetric])
  have lend: "?l = length ?a + length g"
  proof -
    have "length kept * rsize + ?rc * rsize = length ?mid * rsize"
      using le by (metis add_mult_distrib le_add_diff_inverse)
    then show ?thesis unfolding lasthdr length_append lkept g lmid list.size(3)
      by (simp only: add.assoc add_0)
  qed
  have total: "length f = length ?a + length g + length ?z"
  proof -
    have "length f = length (concat ?pre @ [] @ concat ?mid @ ?z)" by (rule arg_cong [OF f3])
    also have "\<dots> = ?l + length ?z" unfolding lasthdr length_append by (simp only: add.assoc)
    also have "\<dots> = length ?a + length g + length ?z" unfolding lend by (rule refl)
    finally show ?thesis .
  qed
  have lz: "(length f div rsize - j) * rsize = length ?z" unfolding lpost holds_div [OF h] by (rule refl)
  note close = process_close [OF total g lend lz]
  have ne: "f \<noteq> []" using i holds_empty [OF h] by auto
  have ci: "\<not> length f < i * rsize" unfolding lf using i n by simp
  have "process_records env_fine fs n rsize (int i) (int j) fc s = (fs(n \<mapsto> ?a @ ?z), s', 0)"
    using process_records_unfold [of fs n, OF fs ne i(1) i(3) ci refl loop] unfolding close .
  moreover have "process_range fc s i j rs = (s', ?pre @ kept @ ?post)"
    using pl by (simp add: process_range_def)
  moreover have "holds rsize (?pre @ kept @ ?post) (?a @ ?z)"
    using n pre kept post by (auto simp: holds_def)
  ultimately show ?thesis by auto
qed

section \<open>Sorting\<close>

definition total_preorder :: "('a \<Rightarrow> 'a \<Rightarrow> int) \<Rightarrow> bool" where
  "total_preorder cmp \<longleftrightarrow>
     (\<forall>x y. cmp x y \<le> 0 \<or> cmp y x \<le> 0) \<and>
     (\<forall>x y z. cmp x y \<le> 0 \<longrightarrow> cmp y z \<le> 0 \<longrightarrow> cmp x z \<le> 0)"

lemma mset_insort_by [simp]: "mset (insort_by cmp x ys) = add_mset x (mset ys)"
  by (induction ys) auto

lemma mset_qsort [simp]: "mset (qsort cmp xs) = mset xs"
  by (induction xs) auto

lemma set_insort_by [simp]: "set (insort_by cmp x ys) = insert x (set ys)"
  by (induction ys) auto

lemma sorted_insort_by:
  "total_preorder cmp \<Longrightarrow> sorted_wrt (\<lambda>a b. cmp a b \<le> 0) ys \<Longrightarrow>
     sorted_wrt (\<lambda>a b. cmp a b \<le> 0) (insort_by cmp x ys)"
proof (induction ys)
  case (Cons y ys)
  have total: "cmp x y \<le> 0 \<or> cmp y x \<le> 0" and trans: "cmp a b \<le> 0 \<Longrightarrow> cmp b c \<le> 0 \<Longrightarrow> cmp a c \<le> 0" for a b c
    using Cons.prems(1) unfolding total_preorder_def by blast+
  show ?case
  proof (cases "cmp x y \<le> 0")
    case True
    with Cons.prems trans show ?thesis by auto
  next
    case False
    with total have "cmp y x \<le> 0" by simp
    with Cons False show ?thesis by simp
  qed
qed simp

lemma sorted_qsort: "total_preorder cmp \<Longrightarrow> sorted_wrt (\<lambda>a b. cmp a b \<le> 0) (qsort cmp xs)"
  by (induction xs) (auto intro: sorted_insort_by)

lemma split_records_concat:
  "\<forall>r \<in> set rs. length r = n \<Longrightarrow> split_records n (length rs) (concat rs) = rs"
  by (induction rs) auto

lemma sort_records_holds:
  assumes h: "holds rsize rs f" and fs: "fs n = Some f" and ne: "rs \<noteq> []"
  shows "sort_records env_fine fs n rsize (Some cmp) = (fs(n \<mapsto> concat (qsort cmp rs)), 0)"
    "holds rsize (qsort cmp rs) (concat (qsort cmp rs))"
proof -
  have "split_records rsize (length f div rsize) f = rs"
    unfolding holds_div [OF h] using h split_records_concat by (auto simp: holds_def)
  with h fs ne holds_empty [OF h] show "sort_records env_fine fs n rsize (Some cmp) =
      (fs(n \<mapsto> concat (qsort cmp rs)), 0)"
    by (simp add: sort_records_def open_file_def env_fine_def holds_pos holds_length)
  have "set (qsort cmp rs) = set rs" using mset_qsort by (rule mset_eq_setD)
  with h show "holds rsize (qsort cmp rs) (concat (qsort cmp rs))" by (simp add: holds_def)
qed

section \<open>The contract of a record file\<close>

text \<open>
  What the callers of src/record.c rely on: a file stands for a list of records, numbered
  from 1; \<open>fget\<close>, \<open>fput\<close>, \<open>fapp\<close> and \<open>fdel\<close> read, replace, append and delete one, and
  answer \<open>None\<close> exactly when the number is not one of the file's.
\<close>

locale record_store =
  fixes repr :: "'r list \<Rightarrow> 'f \<Rightarrow> bool"
    and fnum :: "'f \<Rightarrow> int"
    and fget :: "'f \<Rightarrow> int \<Rightarrow> 'r option"
    and fput :: "'f \<Rightarrow> int \<Rightarrow> 'r \<Rightarrow> 'f option"
    and fapp :: "'f \<Rightarrow> 'r \<Rightarrow> 'f option"
    and fdel :: "'f \<Rightarrow> int \<Rightarrow> 'f option"
    and okrec :: "'r \<Rightarrow> bool"
  assumes num: "repr rs f \<Longrightarrow> fnum f = int (length rs)"
    and get: "repr rs f \<Longrightarrow>
      fget f i = (if 1 \<le> i \<and> i \<le> int (length rs) then Some (rs ! (nat i - 1)) else None)"
    and put: "repr rs f \<Longrightarrow> okrec r \<Longrightarrow> 1 \<le> i \<Longrightarrow> i \<le> int (length rs) \<Longrightarrow>
      \<exists>f'. fput f i r = Some f' \<and> repr (rs[nat i - 1 := r]) f'"
    and app: "repr rs f \<Longrightarrow> okrec r \<Longrightarrow> \<exists>f'. fapp f r = Some f' \<and> repr (rs @ [r]) f'"
    and del: "repr rs f \<Longrightarrow> 1 \<le> i \<Longrightarrow> i \<le> int (length rs) \<Longrightarrow>
      \<exists>f'. fdel f i = Some f' \<and> repr (remove_nth (nat i - 1) rs) f'"
    and del_none: "repr rs f \<Longrightarrow> \<not> (1 \<le> i \<and> i \<le> int (length rs)) \<Longrightarrow> fdel f i = None"
begin

lemma get_put:
  assumes "repr rs f" "okrec r" "1 \<le> i" "i \<le> int (length rs)"
  shows "\<exists>f'. fput f i r = Some f' \<and> fnum f' = fnum f \<and> fget f' j = (if j = i then Some r else fget f j)"
proof -
  obtain f' where f': "fput f i r = Some f'" "repr (rs[nat i - 1 := r]) f'"
    using put [OF assms] by blast
  have "nat j - 1 = nat i - 1 \<longleftrightarrow> j = i" if "1 \<le> j" using that assms by linarith
  with f' get [OF f'(2), of j] get [OF assms(1), of j] num [OF f'(2)] num [OF assms(1)] assms
  show ?thesis by (auto simp: nth_list_update nat_less_iff)
qed

lemma get_app:
  assumes "repr rs f" "okrec r"
  shows "\<exists>f'. fapp f r = Some f' \<and> fnum f' = fnum f + 1 \<and> fget f' (fnum f') = Some r \<and>
    (\<forall>j \<le> fnum f. fget f' j = fget f j)"
proof -
  obtain f' where f': "fapp f r = Some f'" "repr (rs @ [r]) f'" using app [OF assms] by blast
  have "fget f' j = fget f j" if "j \<le> int (length rs)" for j
    unfolding get [OF f'(2)] get [OF assms(1)] using that by (auto simp: nth_append)
  with f' get [OF f'(2)] num [OF f'(2)] num [OF assms(1)] show ?thesis
    by (auto simp: nth_append nat_add_distrib)
qed

lemma get_del:
  assumes "repr rs f" "1 \<le> i" "i \<le> int (length rs)" "1 \<le> j"
  shows "\<exists>f'. fdel f i = Some f' \<and> fnum f' = fnum f - 1 \<and> fget f' j = fget f (if j < i then j else j + 1)"
proof -
  obtain f' where f': "fdel f i = Some f'" "repr (remove_nth (nat i - 1) rs) f'"
    using del [OF assms(1-3)] by blast
  have l: "nat i - 1 < length rs" using assms by linarith
  have n: "int (length (remove_nth (nat i - 1) rs)) = int (length rs) - 1" using l by simp
  have "remove_nth (nat i - 1) rs ! (nat j - 1) = rs ! (nat (if j < i then j else j + 1) - 1)"
    if "j \<le> int (length rs) - 1"
  proof (cases "j < i")
    case True
    then have "nat j - 1 < nat i - 1" using assms by linarith
    with True l show ?thesis by (simp add: remove_nth_def nth_append)
  next
    case False
    obtain a b where ab: "nat i = Suc a" "nat j = Suc b" "nat (j + 1) = Suc (Suc b)"
      using that [of "nat i - 1" "nat j - 1"] assms by linarith
    with False l have "a \<le> b" by linarith
    with ab False l show ?thesis by (simp add: remove_nth_def nth_append min_def)
  qed
  with f' n assms num [OF f'(2)] num [OF assms(1)] get [OF f'(2), of j]
    get [OF assms(1), of "if j < i then j else j + 1"]
  show ?thesis by auto
qed

text \<open>Appending a record and deleting it again leaves the records as they were.\<close>

lemma del_app:
  assumes "repr rs f" "okrec r"
  shows "\<exists>f' f''. fapp f r = Some f' \<and> fdel f' (fnum f') = Some f'' \<and> repr rs f''"
proof -
  obtain f' where f': "fapp f r = Some f'" "repr (rs @ [r]) f'" using app [OF assms] by blast
  obtain f'' where f'': "fdel f' (fnum f') = Some f''"
    "repr (remove_nth (nat (fnum f') - 1) (rs @ [r])) f''"
    using del [OF f'(2), of "fnum f'"] num [OF f'(2)] by auto
  have "remove_nth (nat (fnum f') - 1) (rs @ [r]) = rs"
    using num [OF f'(2)] by (simp add: remove_nth_def nat_add_distrib)
  with f' f'' show ?thesis by auto
qed

end

text \<open>The operations of the program on one file, everything the kernel does succeeding.\<close>

definition on_file :: "byte list \<Rightarrow> filesys" where
  "on_file f = [''file'' \<mapsto> f]"

definition file_num :: "nat \<Rightarrow> byte list \<Rightarrow> int" where
  "file_num rsize f = get_num_records (on_file f) ''file'' rsize"

definition file_get :: "nat \<Rightarrow> byte list \<Rightarrow> int \<Rightarrow> byte list option" where
  "file_get rsize f i =
     (case get_record env_fine (on_file f) ''file'' rsize i of
        (v, r) \<Rightarrow> if v = 0 then Some r else None)"

definition file_result :: "filesys \<times> int option \<Rightarrow> byte list option" where
  "file_result p = (if snd p = Some 0 then fst p ''file'' else None)"

definition file_put :: "byte list \<Rightarrow> int \<Rightarrow> byte list \<Rightarrow> byte list option" where
  "file_put f i r = file_result (substitute_record env_fine [Wrote (length r)] (on_file f) ''file'' r i)"

definition file_app :: "byte list \<Rightarrow> byte list \<Rightarrow> byte list option" where
  "file_app f r = file_result (append_record env_fine [Wrote (length r)] (on_file f) ''file'' r)"

definition file_del :: "nat \<Rightarrow> byte list \<Rightarrow> int \<Rightarrow> byte list option" where
  "file_del rsize f i =
     (case delete_record env_fine (on_file f) ''file'' rsize i of (fs, v) \<Rightarrow> file_result (fs, Some v))"

lemma safewrite_once: "snd (safewrite [Wrote (length r)] r) = Some (int (length r))"
  by (simp add: safewrite_def)

interpretation rf: record_store "holds rsize" "file_num rsize" "file_get rsize" file_put file_app
  "file_del rsize" "\<lambda>r. length r = rsize" for rsize
proof
  fix rs f i and r :: "byte list"
  assume h: "holds rsize rs f"
  have fs: "on_file f ''file'' = Some f" by (simp add: on_file_def)
  show "file_num rsize f = int (length rs)"
    by (simp add: file_num_def holds_num [of rsize rs f "on_file f" "''file''", OF h fs])
  show "file_get rsize f i = (if 1 \<le> i \<and> i \<le> int (length rs) then Some (rs ! (nat i - 1)) else None)"
    by (simp add: file_get_def get_record_holds [of rsize rs f "on_file f" "''file''", OF h fs])
  show "\<not> (1 \<le> i \<and> i \<le> int (length rs)) \<Longrightarrow> file_del rsize f i = None"
    using delete_record_holds(2) [of rsize rs f "on_file f" "''file''", OF h fs, of i] by (simp add: file_del_def file_result_def)
  show "\<exists>f'. file_del rsize f i = Some f' \<and> holds rsize (remove_nth (nat i - 1) rs) f'"
    if "1 \<le> i" "i \<le> int (length rs)"
    using delete_record_holds(1) [of rsize rs f "on_file f" "''file''", OF h fs that] by (auto simp: file_del_def file_result_def)
  assume r: "length r = rsize"
  have w: "snd (safewrite [Wrote (length r)] r) = Some (int rsize)"
    using safewrite_once [of r] unfolding r .
  show "\<exists>f'. file_app f r = Some f' \<and> holds rsize (rs @ [r]) f'"
    using append_record_holds [of rsize rs f "on_file f" "''file''", OF h fs r w] by (simp add: file_app_def file_result_def)
  show "\<exists>f'. file_put f i r = Some f' \<and> holds rsize (rs[nat i - 1 := r]) f'"
    if "1 \<le> i" "i \<le> int (length rs)"
  proof -
    have "i \<le> int (length rs) + 1" using that by simp
    from substitute_record_holds [of rsize rs f "on_file f" "''file''", OF h fs r w that(1) this] that
    show ?thesis by (auto simp: file_put_def file_result_def)
  qed
qed

section \<open>Properties\<close>

text \<open>C12. \<open>process_records\<close> runs its callback once, in order, over the records numbered \<open>id1\<close>
  to \<open>id2\<close>, keeps exactly those it answers 0 for as the callback left them, and leaves the
  records before and behind the range as they were, in a file cut to size.\<close>

theorem process_records_filters:
  assumes "holds rsize rs f" "fs n = Some f" "keeps_length rsize fc" "1 \<le> i" "i \<le> length rs" "i \<le> j"
  shows "\<exists>f'. process_records env_fine fs n rsize (int i) (int j) fc s =
      (fs(n \<mapsto> f'), fst (process_range fc s i j rs), 0)
    \<and> holds rsize (snd (process_range fc s i j rs)) f'"
  using assms by (rule process_records_holds)

theorem process_records_filters_witness:
  "\<exists>f'. process_records env_fine [''f'' \<mapsto> [1, 2, 3 :: byte]] ''f'' 1 (int 2) (int 9)
        (\<lambda>n r. (n + 1, r, if r = [2] then 1 else 0)) (0 :: nat) =
      ([''f'' \<mapsto> [1, 2, 3 :: byte], ''f'' \<mapsto> f'],
       fst (process_range (\<lambda>n r. (n + 1, r, if r = [2] then 1 else 0)) (0 :: nat) 2 9 [[1], [2], [3 :: byte]]), 0)
    \<and> holds 1 (snd (process_range (\<lambda>n r. (n + 1, r, if r = [2] then 1 else 0)) (0 :: nat) 2 9 [[1], [2], [3 :: byte]])) f'"
  by (rule process_records_filters) (simp_all add: holds_def keeps_length_def)

text \<open>Deleting a record of a file makes the numbers of the later ones smaller by one and
  changes nothing else.\<close>

theorem delete_record_renumbers:
  assumes "holds rsize rs f" "1 \<le> i" "i \<le> int (length rs)" "1 \<le> j"
  shows "\<exists>f'. file_del rsize f i = Some f' \<and> file_num rsize f' = file_num rsize f - 1 \<and>
    file_get rsize f' j = file_get rsize f (if j < i then j else j + 1)"
  using assms by (rule rf.get_del)

theorem delete_record_renumbers_witness:
  "\<exists>f'. file_del 2 [1, 2, 3, 4] 1 = Some f' \<and> file_num 2 f' = file_num 2 [1, 2, 3, 4] - 1 \<and>
    file_get 2 f' 1 = file_get 2 [1, 2, 3, 4] (if (1 :: int) < 1 then 1 else 1 + 1)"
  by (rule delete_record_renumbers [of 2 "[[1, 2], [3, 4]]"]) (simp_all add: holds_def)

text \<open>What \<open>substitute_record\<close> writes, \<open>get_record\<close> reads; every other record stays.\<close>

theorem get_substitute_record:
  assumes "holds rsize rs f" "length r = rsize" "1 \<le> i" "i \<le> int (length rs)"
  shows "\<exists>f'. file_put f i r = Some f' \<and> file_num rsize f' = file_num rsize f \<and>
    file_get rsize f' j = (if j = i then Some r else file_get rsize f j)"
  using assms by (rule rf.get_put)

theorem get_substitute_record_witness:
  "\<exists>f'. file_put [1, 2, 3, 4] 2 [5, 6] = Some f' \<and> file_num 2 f' = file_num 2 [1, 2, 3, 4] \<and>
    file_get 2 f' 1 = (if (1 :: int) = 2 then Some [5, 6] else file_get 2 [1, 2, 3, 4] 1)"
  by (rule get_substitute_record [of 2 "[[1, 2], [3, 4]]"]) (simp_all add: holds_def)

text \<open>\<open>sort_records\<close> leaves a file with the same records, in the order of the comparison.\<close>

theorem sort_records_sorts:
  assumes "holds rsize rs f" "fs n = Some f" "rs \<noteq> []" "total_preorder cmp"
  shows "\<exists>rs' f'. sort_records env_fine fs n rsize (Some cmp) = (fs(n \<mapsto> f'), 0) \<and> holds rsize rs' f' \<and>
    mset rs' = mset rs \<and> sorted_wrt (\<lambda>a b. cmp a b \<le> 0) rs'"
  using sort_records_holds [of rsize rs f fs n, OF assms(1-3)] sorted_qsort [OF assms(4)] mset_qsort by blast

theorem sort_records_sorts_witness:
  "\<exists>rs' f'. sort_records env_fine [''f'' \<mapsto> [2, 1]] ''f'' 1 (Some (\<lambda>a b. uint (hd a) - uint (hd b))) =
      ([''f'' \<mapsto> [2, 1], ''f'' \<mapsto> f'], 0) \<and> holds 1 rs' f' \<and> mset rs' = mset [[2], [1 :: byte]] \<and>
    sorted_wrt (\<lambda>a b. uint (hd a) - uint (hd b) \<le> 0) rs'"
  by (rule sort_records_sorts) (auto simp: holds_def total_preorder_def)

end
