(* ===== verification/Directory.thy ===== *)
theory Directory
  imports RecordFile "HOL-Library.Multiset"
begin

text \<open>
  Directory files, arrays of \<open>struct fileheader\<close>: \<open>safe_substitute_record\<close> and
  \<open>delete_file\<close> of src/record.c and \<open>get_dir_index\<close> of src/read.c.  A directory is the list
  of its headers.  Both binary searches share the loop \<open>lower_bound\<close>; the scan behind it
  compares file names, in src/read.c without their first letter.  An access outside the
  array of headers makes the result \<open>None\<close>.
\<close>

section \<open>Definitions\<close>

record fileheader =
  filename :: string
  owner :: string
  realowner :: string
  title :: string
  flag :: "32 word"
  fsize :: "32 word"
  thread_id :: "32 word"
  filetime :: int
  reserved :: "8 word list"

text \<open>The directories by name, and the other files that exist.\<close>

record dstate =
  dirs :: "string \<Rightarrow> fileheader list option"
  files :: "string set"

definition open_dir :: "env \<Rightarrow> dstate \<Rightarrow> string \<Rightarrow> fileheader list option" where
  "open_dir env st direct = (if open_ok env then dirs st direct else None)"

definition set_dir :: "dstate \<Rightarrow> string \<Rightarrow> fileheader list \<Rightarrow> dstate" where
  "set_dir st direct hs = st\<lparr>dirs := (dirs st)(direct \<mapsto> hs)\<rparr>"

text \<open>The loop \<open>for (low = 0, high = records; low < high; )\<close>.\<close>

function lower_bound :: "('h \<Rightarrow> int) \<Rightarrow> 'h list \<Rightarrow> int \<Rightarrow> nat \<Rightarrow> nat \<Rightarrow> nat" where
  "lower_bound time headers t low high =
     (if low < high then
        (let i = (high + low) div 2 in
         if t \<le> time (headers ! i) then lower_bound time headers t low i
         else lower_bound time headers t (i + 1) high)
      else low)"
  by pat_completeness auto
termination
  by (relation "measure (\<lambda>(time, hs, t, low, high). high - low)") (auto simp: Let_def)

datatype scan = ScanFound nat | ScanDiffers nat | ScanEnd

function dir_scan :: "('h \<Rightarrow> int) \<Rightarrow> ('h \<Rightarrow> 'h \<Rightarrow> bool) \<Rightarrow> 'h list \<Rightarrow> 'h \<Rightarrow> nat \<Rightarrow> scan" where
  "dir_scan time same headers fhdr i =
     (if i < length headers then
        (if time (headers ! i) \<noteq> time fhdr then ScanDiffers i
         else if same (headers ! i) fhdr then ScanFound i
         else dir_scan time same headers fhdr (i + 1))
      else ScanEnd)"
  by pat_completeness auto
termination
  by (relation "measure (\<lambda>(time, same, hs, h, i). length hs - i)") auto

definition dir_find :: "('h \<Rightarrow> int) \<Rightarrow> ('h \<Rightarrow> 'h \<Rightarrow> bool) \<Rightarrow> 'h list \<Rightarrow> 'h \<Rightarrow> scan" where
  "dir_find time same headers fhdr =
     dir_scan time same headers fhdr (lower_bound time headers (time fhdr) 0 (length headers))"

definition same_name :: "fileheader \<Rightarrow> fileheader \<Rightarrow> bool" where
  "same_name h g \<longleftrightarrow> filename h = filename g"

text \<open>\<open>strcmp(h->filename + 1, g->filename + 1)\<close>; of an empty name the rest is taken as empty.\<close>

definition same_tail :: "fileheader \<Rightarrow> fileheader \<Rightarrow> bool" where
  "same_tail h g \<longleftrightarrow> drop 1 (filename h) = drop 1 (filename g)"

definition same_entry :: "fileheader \<Rightarrow> fileheader \<Rightarrow> bool" where
  "same_entry h g \<longleftrightarrow> filetime h = filetime g \<and> filename h = filename g"

definition get_dir_index :: "env \<Rightarrow> dstate \<Rightarrow> string \<Rightarrow> fileheader \<Rightarrow> int" where
  "get_dir_index env st direct fhdr =
     (case open_dir env st direct of
        None \<Rightarrow> -1
      | Some headers \<Rightarrow>
          if \<not> fstat_ok env then -1
          else if \<not> mmap_ok env \<or> headers = [] then -1
          else
            (case dir_find filetime same_tail headers fhdr of
               ScanFound i \<Rightarrow> int i
             | ScanDiffers i \<Rightarrow> -1
             | ScanEnd \<Rightarrow> -1))"

text \<open>The two linear passes of \<open>safe_substitute_record\<close> on an unsorted directory.\<close>

fun back_pass :: "fileheader list \<Rightarrow> fileheader \<Rightarrow> nat \<Rightarrow> nat option" where
  "back_pass headers fhdr 0 = None"
| "back_pass headers fhdr (Suc i) =
     (if same_entry (headers ! i) fhdr then Some i else back_pass headers fhdr i)"

function forward_pass :: "fileheader list \<Rightarrow> fileheader \<Rightarrow> nat \<Rightarrow> nat option" where
  "forward_pass headers fhdr i =
     (if i < length headers then
        (if same_entry (headers ! i) fhdr then Some i else forward_pass headers fhdr (i + 1))
      else None)"
  by pat_completeness auto
termination by (relation "measure (\<lambda>(hs, h, i). length hs - i)") auto

definition substitute_in :: "fileheader list \<Rightarrow> fileheader \<Rightarrow> int \<Rightarrow> bool \<Rightarrow> (fileheader list \<times> int) option" where
  "substitute_in headers fhdr ent0 in_order =
     (let records = length headers;
          ent = (if int records \<le> ent0 then int records else ent0) in
      if in_order then
        (if ent < 1 then None
         else if same_entry (headers ! nat (ent - 1)) fhdr then
           Some (headers[nat (ent - 1) := fhdr], 0)
         else
           (case dir_find filetime same_name headers fhdr of
              ScanFound i \<Rightarrow> Some (headers[i := fhdr], 0)
            | ScanDiffers i \<Rightarrow> Some (headers, -1)
            | ScanEnd \<Rightarrow> Some (headers, 0)))
      else
        (case back_pass headers fhdr (nat ent) of
           Some i \<Rightarrow> Some (headers[i := fhdr], 0)
         | None \<Rightarrow>
             if ent < 0 then None
             else
               (case forward_pass headers fhdr (nat ent) of
                  Some i \<Rightarrow> Some (headers[i := fhdr], 0)
                | None \<Rightarrow> Some (headers, 0))))"

definition safe_substitute_record ::
  "env \<Rightarrow> dstate \<Rightarrow> string \<Rightarrow> fileheader \<Rightarrow> int \<Rightarrow> bool \<Rightarrow> (dstate \<times> int) option" where
  "safe_substitute_record env st direct fhdr ent in_order =
     (case open_dir env st direct of
        None \<Rightarrow> Some (st, -1)
      | Some headers \<Rightarrow>
          if \<not> fstat_ok env then Some (st, -1)
          else if \<not> mmap_ok env \<or> headers = [] then Some (st, -1)
          else
            (case substitute_in headers fhdr ent in_order of
               None \<Rightarrow> None
             | Some (hs, result) \<Rightarrow> Some (set_dir st direct hs, result)))"

text \<open>\<open>delete_file\<close>: the directory part of a path is what precedes its last slash.\<close>

definition PATH_MAX :: nat where "PATH_MAX = 4096"

definition strrchr :: "string \<Rightarrow> char \<Rightarrow> nat option" where
  "strrchr s c =
     (if c \<in> set s then Some (length s - 1 - length (takeWhile (\<lambda>x. x \<noteq> c) (rev s))) else None)"

fun find_name :: "fileheader list \<Rightarrow> string \<Rightarrow> nat \<Rightarrow> nat option" where
  "find_name [] name ent = None"
| "find_name (h # hs) name ent = (if filename h = name then Some ent else find_name hs name (ent + 1))"

definition delete_file :: "env \<Rightarrow> dstate \<Rightarrow> string \<Rightarrow> int \<Rightarrow> string \<Rightarrow> bool \<Rightarrow> dstate \<times> int" where
  "delete_file env st direct ent name remove =
     (let path = take PATH_MAX direct in
      case strrchr path (CHR ''/'') of
        None \<Rightarrow> (st, -1)
      | Some p \<Rightarrow>
          (let fname = take PATH_MAX (take p path @ ''/'' @ name) in
           case open_dir env st direct of
             None \<Rightarrow> (st, -1)
           | Some hs \<Rightarrow>
               if \<not> fstat_ok env then (st, -1)
               else if \<not> mmap_ok env \<or> hs = [] then (st, -1)
               else
                 (case (if 0 < ent \<and> ent \<le> int (length hs) \<and> filename (hs ! nat (ent - 1)) = name
                        then Some (nat ent) else find_name hs name 1) of
                    None \<Rightarrow> (st, -1)
                  | Some e \<Rightarrow>
                      (let hs1 = take (length hs - 1) (memmove hs (e - 1) e (length hs - e));
                           st1 = set_dir st direct hs1
                       in (if remove then st1\<lparr>files := files st1 - {fname}\<rparr> else st1, 0)))))"

section \<open>Searching a sorted directory\<close>

declare lower_bound.simps [simp del] dir_scan.simps [simp del] forward_pass.simps [simp del]

lemma sorted_times_mono:
  "sorted (map time hs) \<Longrightarrow> i \<le> j \<Longrightarrow> j < length hs \<Longrightarrow> time (hs ! i) \<le> (time (hs ! j) :: int)"
  using sorted_nth_mono [of "map time hs" i j] by simp

lemma lower_bound_spec:
  "sorted (map time hs) \<Longrightarrow> low \<le> high \<Longrightarrow> high \<le> length hs \<Longrightarrow> \<forall>j < low. time (hs ! j) < t \<Longrightarrow>
    \<forall>j. high \<le> j \<and> j < length hs \<longrightarrow> t \<le> time (hs ! j) \<Longrightarrow>
    lower_bound time hs t low high \<le> length hs \<and>
    (\<forall>j < lower_bound time hs t low high. time (hs ! j) < t) \<and>
    (\<forall>j. lower_bound time hs t low high \<le> j \<and> j < length hs \<longrightarrow> t \<le> time (hs ! j))"
proof (induction time hs t low high rule: lower_bound.induct)
  case (1 time hs t low high)
  note mono = sorted_times_mono [OF "1.prems"(1)]
  let ?i = "(high + low) div 2"
  show ?case
  proof (cases "low < high")
    case False
    then have "lower_bound time hs t low high = low" by (simp add: lower_bound.simps [of time hs t low high])
    with False "1.prems" show ?thesis by simp
  next
    case True
    then have i: "low \<le> ?i" "?i < high" by auto
    show ?thesis
    proof (cases "t \<le> time (hs ! ?i)")
      case le: True
      have "t \<le> time (hs ! j)" if "?i \<le> j" "j < length hs" for j using mono [OF that] le by simp
      with "1.IH"(1) [OF True refl le "1.prems"(1)] "1.prems" i le True show ?thesis
        by (simp add: lower_bound.simps [of time hs t low high] Let_def)
    next
      case gt: False
      have "time (hs ! j) < t" if "j < ?i + 1" for j
        using mono [of j ?i] gt that i "1.prems" by simp
      with "1.IH"(2) [OF True refl gt "1.prems"(1)] "1.prems" i gt True show ?thesis
        by (simp add: lower_bound.simps [of time hs t low high] Let_def)
    qed
  qed
qed

lemma dir_scan_cases:
  "(case dir_scan time same hs h i of
      ScanFound k \<Rightarrow> i \<le> k \<and> k < length hs \<and> time (hs ! k) = time h \<and> same (hs ! k) h \<and>
        (\<forall>j. i \<le> j \<and> j < k \<longrightarrow> time (hs ! j) = time h \<and> \<not> same (hs ! j) h)
    | ScanDiffers k \<Rightarrow> i \<le> k \<and> k < length hs \<and> time (hs ! k) \<noteq> time h \<and>
        (\<forall>j. i \<le> j \<and> j < k \<longrightarrow> time (hs ! j) = time h \<and> \<not> same (hs ! j) h)
    | ScanEnd \<Rightarrow> \<forall>j. i \<le> j \<and> j < length hs \<longrightarrow> time (hs ! j) = time h \<and> \<not> same (hs ! j) h)"
proof (induction time same hs h i rule: dir_scan.induct)
  case (1 time same hs h i)
  show ?case
  proof (cases "i < length hs \<and> time (hs ! i) = time h \<and> \<not> same (hs ! i) h")
    case False
    then show ?thesis by (auto simp: dir_scan.simps [of time same hs h i])
  next
    case True
    then have e: "dir_scan time same hs h i = dir_scan time same hs h (i + 1)"
      by (simp add: dir_scan.simps [of time same hs h i])
    have "i \<le> j \<longleftrightarrow> j = i \<or> i + 1 \<le> j" for j by auto
    with "1.IH" True show ?thesis unfolding e by (auto split: scan.splits)
  qed
qed

text \<open>
  The contract of the indexed search: over a directory sorted by time it finds the first
  entry with the time and the name looked for, and misses none.
\<close>

locale dir_index =
  fixes time :: "'h \<Rightarrow> int"
    and same :: "'h \<Rightarrow> 'h \<Rightarrow> bool"
  assumes same_refl: "same h h"
begin

lemma found:
  assumes s: "sorted (map time hs)" and f: "dir_find time same hs h = ScanFound k"
  shows "k < length hs \<and> time (hs ! k) = time h \<and> same (hs ! k) h \<and>
    (\<forall>j < k. \<not> (time (hs ! j) = time h \<and> same (hs ! j) h))"
proof -
  let ?l = "lower_bound time hs (time h) 0 (length hs)"
  have l: "\<forall>j < ?l. time (hs ! j) < time h"
    using lower_bound_spec [OF s, of 0 "length hs" "time h"] by simp
  from f dir_scan_cases [where time = time and same = same and hs = hs and h = h and i = ?l] have
    "?l \<le> k \<and> k < length hs \<and> time (hs ! k) = time h \<and> same (hs ! k) h \<and>
        (\<forall>j. ?l \<le> j \<and> j < k \<longrightarrow> time (hs ! j) = time h \<and> \<not> same (hs ! j) h)"
    by (simp add: dir_find_def)
  with l show ?thesis by (metis less_irrefl not_less)
qed

lemma missing:
  assumes s: "sorted (map time hs)" and f: "\<forall>k. dir_find time same hs h \<noteq> ScanFound k"
    and j: "j < length hs"
  shows "\<not> (time (hs ! j) = time h \<and> same (hs ! j) h)"
proof -
  let ?l = "lower_bound time hs (time h) 0 (length hs)"
  have l: "\<forall>j < ?l. time (hs ! j) < time h" "\<forall>j. ?l \<le> j \<and> j < length hs \<longrightarrow> time h \<le> time (hs ! j)"
    using lower_bound_spec [OF s, of 0 "length hs" "time h"] by simp_all
  show ?thesis
  proof (cases "dir_find time same hs h")
    case (ScanDiffers k)
    with dir_scan_cases [where time = time and same = same and hs = hs and h = h and i = ?l] have k: "?l \<le> k" "k < length hs" "time (hs ! k) \<noteq> time h"
      "\<forall>j. ?l \<le> j \<and> j < k \<longrightarrow> time (hs ! j) = time h \<and> \<not> same (hs ! j) h"
      by (simp_all add: dir_find_def)
    then have "time h < time (hs ! k)" using l by force
    with sorted_times_mono [OF s, of k j] j have "time h < time (hs ! j)" if "k \<le> j" using that by simp
    with k l j show ?thesis by (metis less_irrefl not_less)
  next
    case ScanEnd
    with dir_scan_cases [where time = time and same = same and hs = hs and h = h and i = ?l] l j show ?thesis
      by (simp add: dir_find_def) (metis less_irrefl not_less)
  qed (use f in simp)
qed

lemma finds:
  assumes s: "sorted (map time hs)" and j: "j < length hs" "time (hs ! j) = time h" "same (hs ! j) h"
  shows "\<exists>k \<le> j. dir_find time same hs h = ScanFound k"
proof -
  from missing [OF s _ j(1), of h] j obtain k where k: "dir_find time same hs h = ScanFound k" by blast
  with found [OF s k] j show ?thesis by (metis not_less)
qed

text \<open>The entry of a header of the directory itself is found.\<close>

lemma finds_member: "sorted (map time hs) \<Longrightarrow> h \<in> set hs \<Longrightarrow> \<exists>k. dir_find time same hs h = ScanFound k"
  using finds same_refl by (metis in_set_conv_nth)

end

interpretation by_name: dir_index filetime same_name
  by unfold_locales (simp add: same_name_def)

interpretation by_tail: dir_index filetime same_tail
  by unfold_locales (simp add: same_tail_def)

section \<open>Replacing an entry\<close>

lemma same_entry_iff: "same_entry g h \<longleftrightarrow> filetime g = filetime h \<and> same_name g h"
  by (simp add: same_entry_def same_name_def)

lemma back_pass_spec:
  "(case back_pass hs h n of
      Some k \<Rightarrow> k < n \<and> same_entry (hs ! k) h
    | None \<Rightarrow> \<forall>j < n. \<not> same_entry (hs ! j) h)"
  by (induction hs h n rule: back_pass.induct) (auto simp: less_Suc_eq split: option.splits)

lemma forward_pass_spec:
  "(case forward_pass hs h i of
      Some k \<Rightarrow> i \<le> k \<and> k < length hs \<and> same_entry (hs ! k) h
    | None \<Rightarrow> \<forall>j. i \<le> j \<and> j < length hs \<longrightarrow> \<not> same_entry (hs ! j) h)"
proof (induction hs h i rule: forward_pass.induct)
  case (1 hs h i)
  have "i \<le> j \<longleftrightarrow> j = i \<or> i + 1 \<le> j" for j by auto
  with 1 show ?case
    by (cases "i < length hs \<and> \<not> same_entry (hs ! i) h")
      (auto simp: forward_pass.simps [of hs h i] split: option.splits)
qed

text \<open>
  The entry replaced is one with the same time and name; a directory without such an entry
  stays as it is.
\<close>

definition substituted :: "fileheader list \<Rightarrow> fileheader \<Rightarrow> fileheader list \<times> int \<Rightarrow> bool" where
  "substituted hs h p \<longleftrightarrow>
     (if \<exists>j < length hs. same_entry (hs ! j) h
      then \<exists>k < length hs. same_entry (hs ! k) h \<and> p = (hs[k := h], 0)
      else fst p = hs)"

lemma substitute_sorted:
  assumes s: "sorted (map filetime hs)" and ne: "hs \<noteq> []" and e: "1 \<le> ent"
  shows "\<exists>p. substitute_in hs h ent True = Some p \<and> substituted hs h p"
proof -
  let ?e = "if int (length hs) \<le> ent then int (length hs) else ent"
  have e1: "1 \<le> ?e" using ne e by (cases hs) auto
  have el: "nat (?e - 1) < length hs" using ne e by (auto simp: nat_less_iff)
  show ?thesis
  proof (cases "same_entry (hs ! nat (?e - 1)) h")
    case True
    then have "substitute_in hs h ent True = Some (hs[nat (?e - 1) := h], 0)"
      using e1 by (simp add: substitute_in_def Let_def del: One_nat_def)
    with True el show ?thesis unfolding substituted_def by auto
  next
    case False
    then have f: "substitute_in hs h ent True = (case dir_find filetime same_name hs h of
          ScanFound i \<Rightarrow> Some (hs[i := h], 0) | ScanDiffers i \<Rightarrow> Some (hs, -1) | ScanEnd \<Rightarrow> Some (hs, 0))"
      using e1 by (simp add: substitute_in_def Let_def del: One_nat_def)
    show ?thesis
    proof (cases "\<exists>k. dir_find filetime same_name hs h = ScanFound k")
      case True
      then obtain k where k: "dir_find filetime same_name hs h = ScanFound k" by blast
      with f by_name.found [OF s k] show ?thesis by (auto simp: substituted_def same_entry_iff)
    next
      case none: False
      then have "\<not> (\<exists>j < length hs. same_entry (hs ! j) h)"
        using by_name.missing [OF s] by (auto simp: same_entry_iff)
      with none f show ?thesis
        by (cases "dir_find filetime same_name hs h") (auto simp: substituted_def)
    qed
  qed
qed

lemma substitute_unsorted:
  assumes ne: "hs \<noteq> []" and e: "0 \<le> ent"
  shows "\<exists>p. substitute_in hs h ent False = Some p \<and> substituted hs h p"
proof -
  let ?e = "if int (length hs) \<le> ent then int (length hs) else ent"
  have el: "nat ?e \<le> length hs" "0 \<le> ?e" using e by auto
  note b = back_pass_spec [where hs = hs and h = h and n = "nat ?e"] and w = forward_pass_spec [where hs = hs and h = h and i = "nat ?e"]
  show ?thesis
  proof (cases "back_pass hs h (nat ?e)")
    case (Some k)
    with b have k: "k < nat ?e" "same_entry (hs ! k) h" by simp_all
    from k(1) el(1) have kl: "k < length hs" by (rule less_le_trans)
    have "substitute_in hs h ent False = Some (hs[k := h], 0)"
      using Some by (simp add: substitute_in_def Let_def)
    with k kl show ?thesis unfolding substituted_def by auto
  next
    case none: None
    have f: "substitute_in hs h ent False = (case forward_pass hs h (nat ?e) of
        Some i \<Rightarrow> Some (hs[i := h], 0) | None \<Rightarrow> Some (hs, 0))"
      using none el by (simp add: substitute_in_def Let_def)
    show ?thesis
    proof (cases "forward_pass hs h (nat ?e)")
      case (Some k)
      with w f show ?thesis by (auto simp: substituted_def)
    next
      case None
      have "\<not> (\<exists>j < length hs. same_entry (hs ! j) h)"
        using b w none None by (metis (no_types, lifting) not_le option.simps(4))
      with f None show ?thesis by (auto simp: substituted_def)
    qed
  qed
qed

section \<open>Deleting an entry\<close>

lemma find_name_spec:
  "(case find_name hs name e of
      Some k \<Rightarrow> e \<le> k \<and> k - e < length hs \<and> filename (hs ! (k - e)) = name
    | None \<Rightarrow> name \<notin> filename ` set hs)"
proof (induction hs name e rule: find_name.induct)
  case (2 h hs name e)
  show ?case
  proof (cases "filename h = name")
    case False
    then have f: "find_name (h # hs) name e = find_name hs name (e + 1)" by simp
    show ?thesis unfolding f using "2.IH" [OF False] False
      by (cases "find_name hs name (e + 1)") (auto simp: nth_Cons')
  qed simp
qed simp

lemma delete_shift:
  "1 \<le> e \<Longrightarrow> e \<le> length hs \<Longrightarrow>
     take (length hs - 1) (memmove hs (e - 1) e (length hs - e)) = remove_nth (e - 1) hs"
  by (simp add: memmove_def remove_nth_def)

text \<open>
  The entry number \<open>delete_file\<close> settles on: the one given, if it is right, and else that of
  the first entry with the name.
\<close>

definition entry_number :: "fileheader list \<Rightarrow> int \<Rightarrow> string \<Rightarrow> nat option" where
  "entry_number hs ent name =
     (if 0 < ent \<and> ent \<le> int (length hs) \<and> filename (hs ! nat (ent - 1)) = name
      then Some (nat ent) else find_name hs name 1)"

lemma entry_number_spec:
  "(case entry_number hs ent name of
      Some e \<Rightarrow> 1 \<le> e \<and> e \<le> length hs \<and> filename (hs ! (e - 1)) = name
    | None \<Rightarrow> name \<notin> filename ` set hs)"
  using find_name_spec [where hs = hs and name = name and e = 1]
  by (auto simp: entry_number_def nat_pred nat_le_iff Suc_le_eq split: option.splits if_splits)

lemma delete_file_unfold:
  assumes "strrchr (take PATH_MAX direct) (CHR ''/'') = Some p" "dirs st direct = Some hs" "hs \<noteq> []"
  shows "delete_file env_fine st direct ent name remove =
    (case entry_number hs ent name of
       None \<Rightarrow> (st, -1)
     | Some e \<Rightarrow>
         (let st1 = set_dir st direct (remove_nth (e - 1) hs)
          in if remove then st1\<lparr>files := files st1 -
                 {take PATH_MAX (take p (take PATH_MAX direct) @ ''/'' @ name)}\<rparr> else st1, 0))"
proof (cases "entry_number hs ent name")
  case None
  with assms show ?thesis
    by (simp add: delete_file_def open_dir_def env_fine_def Let_def entry_number_def [symmetric])
next
  case (Some e)
  then have "1 \<le> e" "e \<le> length hs" using entry_number_spec [where hs = hs and ent = ent and name = name] by auto
  with delete_shift [OF this] assms Some show ?thesis
    by (simp add: delete_file_def open_dir_def env_fine_def Let_def entry_number_def [symmetric])
qed

section \<open>Properties\<close>


definition mk_header :: "string \<Rightarrow> int \<Rightarrow> fileheader" where
  "mk_header name t = \<lparr>filename = name, owner = '''', realowner = '''', title = '''', flag = 0,
     fsize = 0, thread_id = 0, filetime = t, reserved = replicate 12 0\<rparr>"

definition two_headers :: dstate where
  "two_headers = \<lparr>dirs = [''b/.DIR'' \<mapsto> [mk_header ''M.1.A'' 1, mk_header ''M.2.A'' 2]], files = {''b/M.1.A''}\<rparr>"


text \<open>The same for a directory that is not sorted, by the two linear passes.\<close>

theorem safe_substitute_unsorted:
  assumes "dirs st direct = Some hs" "hs \<noteq> []" "0 \<le> ent"
  shows "\<exists>hs' r. safe_substitute_record env_fine st direct h ent False = Some (set_dir st direct hs', r) \<and>
    substituted hs h (hs', r)"
  using substitute_unsorted [OF assms(2,3), of h] assms(1,2)
  by (auto simp: safe_substitute_record_def open_dir_def env_fine_def)

theorem safe_substitute_unsorted_witness:
  "\<exists>hs' r. safe_substitute_record env_fine two_headers ''b/.DIR'' (mk_header ''M.2.A'' 2) 1 False =
      Some (set_dir two_headers ''b/.DIR'' hs', r) \<and>
    substituted [mk_header ''M.1.A'' 1, mk_header ''M.2.A'' 2] (mk_header ''M.2.A'' 2) (hs', r)"
  by (rule safe_substitute_unsorted) (simp_all add: two_headers_def)

text \<open>A header newer than every entry of a sorted directory is not found, nothing is
  replaced, and \<open>safe_substitute_record\<close> still answers 0; one older than an entry gives -1.\<close>

theorem safe_substitute_silent_miss:
  "safe_substitute_record env_fine two_headers ''b/.DIR'' (mk_header ''M.9.A'' 9) 1 True =
     Some (set_dir two_headers ''b/.DIR'' [mk_header ''M.1.A'' 1, mk_header ''M.2.A'' 2], 0) \<and>
   safe_substitute_record env_fine two_headers ''b/.DIR'' (mk_header ''M.0.A'' 0) 1 True =
     Some (set_dir two_headers ''b/.DIR'' [mk_header ''M.1.A'' 1, mk_header ''M.2.A'' 2], -1)"
  by (simp add: safe_substitute_record_def open_dir_def env_fine_def substitute_in_def same_entry_def
      mk_header_def two_headers_def dir_find_def lower_bound.simps dir_scan.simps Let_def)

text \<open>C17. \<open>delete_file\<close> in a directory of distinct names removes exactly the entry with the
  name, whatever position it is given, and its file when asked to; a name that is not there
  leaves everything as it was and gives -1.\<close>

theorem delete_file_deletes:
  assumes "strrchr (take PATH_MAX direct) (CHR ''/'') = Some p" "dirs st direct = Some hs"
    "distinct (map filename hs)"
  shows "delete_file env_fine st direct ent name remove =
    (if name \<in> filename ` set hs then
       (let st1 = set_dir st direct (filter (\<lambda>h. filename h \<noteq> name) hs) in
        if remove then st1\<lparr>files := files st1 -
          {take PATH_MAX (take p (take PATH_MAX direct) @ ''/'' @ name)}\<rparr> else st1, 0)
     else (st, -1))"
proof (cases "hs = []")
  case True
  with assms show ?thesis by (simp add: delete_file_def open_dir_def env_fine_def Let_def)
next
  case False
  note u = delete_file_unfold [OF assms(1,2) False, of ent name remove]
  show ?thesis
  proof (cases "entry_number hs ent name")
    case None
    with entry_number_spec [where hs = hs and ent = ent and name = name] u show ?thesis by simp
  next
    case (Some e)
    with entry_number_spec [where hs = hs and ent = ent and name = name]
    have e: "e - 1 < length hs" "filename (hs ! (e - 1)) = name" by auto
    then have "name \<in> filename ` set hs" using nth_mem by blast
    with remove_nth_distinct [OF assms(3) e(1)] u Some e(2) show ?thesis by simp
  qed
qed

theorem delete_file_deletes_witness:
  "delete_file env_fine two_headers ''b/.DIR'' 2 ''M.1.A'' True =
    (if ''M.1.A'' \<in> filename ` set [mk_header ''M.1.A'' 1, mk_header ''M.2.A'' 2] then
       (let st1 = set_dir two_headers ''b/.DIR''
              (filter (\<lambda>h. filename h \<noteq> ''M.1.A'') [mk_header ''M.1.A'' 1, mk_header ''M.2.A'' 2]) in
        if True then st1\<lparr>files := files st1 -
          {take PATH_MAX (take 1 (take PATH_MAX ''b/.DIR'') @ ''/'' @ ''M.1.A'')}\<rparr> else st1, 0)
     else (two_headers, -1))"
  by (rule delete_file_deletes) (simp_all add: mk_header_def two_headers_def strrchr_def PATH_MAX_def)

text \<open>\<open>get_dir_index\<close> finds every header of a sorted directory, and what it finds has its
  time and, but for the first letter, its name.\<close>

theorem get_dir_index_finds:
  assumes "dirs st direct = Some hs" "sorted (map filetime hs)" "h \<in> set hs"
  shows "\<exists>k < length hs. get_dir_index env_fine st direct h = int k \<and> filetime (hs ! k) = filetime h \<and>
    same_tail (hs ! k) h"
proof -
  from by_tail.finds_member [OF assms(2,3)] obtain k where k: "dir_find filetime same_tail hs h = ScanFound k"
    by blast
  with by_tail.found [OF assms(2) k] assms show ?thesis
    by (auto simp: get_dir_index_def open_dir_def env_fine_def intro!: exI [of _ k])
qed

theorem get_dir_index_finds_witness:
  "\<exists>k < length [mk_header ''M.1.A'' 1, mk_header ''M.2.A'' 2].
     get_dir_index env_fine two_headers ''b/.DIR'' (mk_header ''M.2.A'' 2) = int k \<and>
     filetime ([mk_header ''M.1.A'' 1, mk_header ''M.2.A'' 2] ! k) = filetime (mk_header ''M.2.A'' 2) \<and>
     same_tail ([mk_header ''M.1.A'' 1, mk_header ''M.2.A'' 2] ! k) (mk_header ''M.2.A'' 2)"
  by (rule get_dir_index_finds) (simp_all add: mk_header_def two_headers_def)

end
