(* ===== verification/Thread.thy ===== *)
theory Thread
  imports Directory RecordBatch
begin

text \<open>
  The thread index of a board, src/thread.c: the directory sorted by thread and file name,
  with the place of every article in its thread marked in its first reserved byte.
\<close>

section \<open>Definitions\<close>

abbreviation (input) THREAD_BEGIN :: "8 word" where "THREAD_BEGIN \<equiv> 0"
abbreviation (input) THREAD_END :: "8 word" where "THREAD_END \<equiv> 1"
abbreviation (input) THREAD_OTHER :: "8 word" where "THREAD_OTHER \<equiv> 2"

definition cmp_aid :: "fileheader \<Rightarrow> fileheader \<Rightarrow> int" where
  "cmp_aid hdr1 hdr2 =
     (if thread_id hdr2 < thread_id hdr1 then 1
      else if thread_id hdr1 < thread_id hdr2 then -1
      else strcmp (filename hdr1) (filename hdr2))"

definition set_mark :: "fileheader list \<Rightarrow> nat \<Rightarrow> 8 word \<Rightarrow> fileheader list" where
  "set_mark tdir i v = tdir[i := (tdir ! i)\<lparr>reserved := (reserved (tdir ! i))[0 := v]\<rparr>]"

text \<open>The loop from \<open>i\<close> to \<open>num - 2\<close>, where \<open>num\<close> is the length of the array.\<close>

function mark_loop :: "fileheader list \<Rightarrow> nat \<Rightarrow> fileheader list" where
  "mark_loop tdir i =
     (if i < length tdir - 1 then
        mark_loop
          (set_mark tdir i
             (if thread_id (tdir ! (i - 1)) = thread_id (tdir ! i) \<and> thread_id (tdir ! i) \<noteq> 0
              then (if thread_id (tdir ! i) = thread_id (tdir ! (i + 1)) then THREAD_OTHER else THREAD_END)
              else THREAD_BEGIN)) (i + 1)
      else tdir)"
  by pat_completeness auto
termination by (relation "measure (\<lambda>(t, i). length t - i)") (auto simp: set_mark_def)

definition mark_thread :: "fileheader list \<Rightarrow> fileheader list" where
  "mark_thread tdir =
     (let num = length tdir in
      if num = 0 then tdir
      else
        (let t1 = set_mark tdir 0 THREAD_BEGIN in
         if 1 < num then
           (let t2 = mark_loop t1 1 in
            set_mark t2 (num - 1)
              (if thread_id (t2 ! (num - 2)) = thread_id (t2 ! (num - 1)) then THREAD_END else THREAD_BEGIN))
         else t1))"

text \<open>
  \<open>make_thread\<close> on a board's \<open>.DIR\<close>.  \<open>up_to_date\<close> says that the thread file is there and
  newer than the directory.  An empty directory cannot be mapped.  \<open>malloc_ok\<close> and
  \<open>creat_ok\<close> are the other two calls that may fail; only the first is reported.
\<close>

definition make_thread ::
  "env \<Rightarrow> bool \<Rightarrow> bool \<Rightarrow> dstate \<Rightarrow> string \<Rightarrow> bool \<Rightarrow> bool \<Rightarrow> dstate \<times> int" where
  "make_thread env malloc_ok creat_ok st board up_to_date force_refresh =
     (let dname = ''boards/'' @ board @ ''/.DIR''; tname = ''boards/'' @ board @ ''/.THREAD'' in
      case open_dir env st dname of
        None \<Rightarrow> (st, -1)
      | Some dir \<Rightarrow>
          if \<not> fstat_ok env then (st, -1)
          else if \<not> force_refresh \<and> up_to_date then (st, 0)
          else if \<not> mmap_ok env \<or> dir = [] then (st, -1)
          else if \<not> malloc_ok then (st, -1)
          else
            (let tdir = mark_thread (qsort cmp_aid dir) in
             (if creat_ok then set_dir st tname tdir else st, 0)))"

section \<open>The order\<close>

declare mark_loop.simps [simp del]

text \<open>Only file names that are C strings occur in a directory.\<close>

definition names_ok :: "fileheader list \<Rightarrow> bool" where
  "names_ok hs \<longleftrightarrow> (\<forall>h \<in> set hs. is_cstr (filename h))"

lemma cmp_aid_le:
  "cmp_aid a b \<le> 0 \<longleftrightarrow>
     thread_id a < thread_id b \<or> thread_id a = thread_id b \<and> strcmp (filename a) (filename b) \<le> 0"
  by (auto simp: cmp_aid_def)

lemma cmp_aid_total: "cmp_aid a b \<le> 0 \<or> cmp_aid b a \<le> 0"
  using strcmp_sym [of "filename a" "filename b"] by (auto simp: cmp_aid_le)

lemma cmp_aid_trans:
  "is_cstr (filename a) \<Longrightarrow> is_cstr (filename b) \<Longrightarrow> is_cstr (filename c) \<Longrightarrow>
     cmp_aid a b \<le> 0 \<Longrightarrow> cmp_aid b c \<le> 0 \<Longrightarrow> cmp_aid a c \<le> 0"
  using strcmp_trans [of "filename a" "filename b" "filename c"] by (auto simp: cmp_aid_le)

lemma sorted_insort_aid:
  "names_ok (x # ys) \<Longrightarrow> sorted_wrt (\<lambda>a b. cmp_aid a b \<le> 0) ys \<Longrightarrow>
     sorted_wrt (\<lambda>a b. cmp_aid a b \<le> 0) (insort_by cmp_aid x ys)"
proof (induction ys)
  case (Cons y ys)
  show ?case
  proof (cases "cmp_aid x y \<le> 0")
    case True
    with Cons.prems show ?thesis
      by (auto simp: names_ok_def intro: cmp_aid_trans [of x y])
  next
    case False
    then have "cmp_aid y x \<le> 0" using cmp_aid_total [of x y] by simp
    with Cons False show ?thesis by (simp add: names_ok_def)
  qed
qed simp

lemma sorted_qsort_aid: "names_ok hs \<Longrightarrow> sorted_wrt (\<lambda>a b. cmp_aid a b \<le> 0) (qsort cmp_aid hs)"
proof (induction hs)
  case (Cons h hs)
  have "set (qsort cmp_aid hs) = set hs" using mset_qsort by (rule mset_eq_setD)
  with Cons show ?case by (auto simp: names_ok_def intro!: sorted_insort_aid)
qed simp

section \<open>The marks\<close>

lemma set_mark_length [simp]: "length (set_mark t i v) = length t"
  by (simp add: set_mark_def)

lemma mark_loop_length [simp]: "length (mark_loop t i) = length t"
  by (induction t i rule: mark_loop.induct) (subst mark_loop.simps, simp)

lemma mark_thread_length [simp]: "length (mark_thread t) = length t"
  by (simp add: mark_thread_def Let_def)

text \<open>Two directories that differ at most in the marks.\<close>

definition unmarked :: "fileheader \<Rightarrow> fileheader" where
  "unmarked h = h\<lparr>reserved := drop 1 (reserved h)\<rparr>"

lemma set_mark_unmarked [simp]: "map unmarked (set_mark t i v) = map unmarked t"
proof (cases "i < length t")
  case True
  have "drop 1 ((reserved (t ! i))[0 := v]) = drop 1 (reserved (t ! i))"
    by (cases "reserved (t ! i)") auto
  then show ?thesis using True
    by (simp add: set_mark_def map_update unmarked_def list_update_same_conv)
next
  case False
  then show ?thesis by (simp add: set_mark_def list_update_beyond)
qed

lemma mark_loop_unmarked [simp]: "map unmarked (mark_loop t i) = map unmarked t"
  by (induction t i rule: mark_loop.induct) (subst mark_loop.simps, simp)

lemma mark_thread_unmarked [simp]: "map unmarked (mark_thread t) = map unmarked t"
  by (simp add: mark_thread_def Let_def)

lemma thread_id_unmarked: "thread_id (unmarked h) = thread_id h"
  by (simp add: unmarked_def)

lemma same_ids:
  "map unmarked s = map unmarked t \<Longrightarrow> i < length t \<Longrightarrow> thread_id (s ! i) = thread_id (t ! i)"
  by (metis length_map nth_map thread_id_unmarked)

text \<open>Every entry has room for a mark.\<close>

definition markable :: "fileheader list \<Rightarrow> bool" where
  "markable t \<longleftrightarrow> (\<forall>h \<in> set t. reserved h \<noteq> [])"

abbreviation mark_of :: "fileheader \<Rightarrow> 8 word" where
  "mark_of h \<equiv> reserved h ! 0"

lemma set_mark_markable [simp]: "i < length t \<Longrightarrow> markable t \<Longrightarrow> markable (set_mark t i v)"
  by (auto simp: markable_def set_mark_def dest!: set_update_subset_insert [THEN subsetD])

lemma set_mark_mark:
  "markable t \<Longrightarrow> i < length t \<Longrightarrow> j < length t \<Longrightarrow>
     mark_of (set_mark t i v ! j) = (if j = i then v else mark_of (t ! j))"
  by (auto simp: set_mark_def nth_list_update markable_def)

lemma set_mark_id [simp]:
  "j < length t \<Longrightarrow> thread_id (set_mark t i v ! j) = thread_id (t ! j)"
  using same_ids [OF set_mark_unmarked] by blast

text \<open>The mark the loop gives to an inner entry.\<close>

definition inner_mark :: "fileheader list \<Rightarrow> nat \<Rightarrow> 8 word" where
  "inner_mark t i =
     (if thread_id (t ! (i - 1)) = thread_id (t ! i) \<and> thread_id (t ! i) \<noteq> 0
      then (if thread_id (t ! i) = thread_id (t ! (i + 1)) then THREAD_OTHER else THREAD_END)
      else THREAD_BEGIN)"

lemma inner_mark_set_mark:
  "0 < j \<Longrightarrow> j + 1 < length t \<Longrightarrow> inner_mark (set_mark t i v) j = inner_mark t j"
  by (simp add: inner_mark_def)

lemma mark_loop_marks:
  "markable t \<Longrightarrow> 1 \<le> i \<Longrightarrow> i \<le> length t - 1 \<Longrightarrow> 1 < length t \<Longrightarrow>
     markable (mark_loop t i) \<and>
     (\<forall>j < length t. mark_of (mark_loop t i ! j) =
        (if i \<le> j \<and> j < length t - 1 then inner_mark t j else mark_of (t ! j)))"
proof (induction t i rule: mark_loop.induct)
  case (1 t i)
  show ?case
  proof (cases "i < length t - 1")
    case False
    then have "mark_loop t i = t" by (simp add: mark_loop.simps [of t i])
    with "1.prems" False show ?thesis by auto
  next
    case True
    let ?t = "set_mark t i (inner_mark t i)"
    have e: "mark_loop t i = mark_loop ?t (i + 1)"
      using True by (simp add: mark_loop.simps [of t i] inner_mark_def)
    have "markable ?t" using "1.prems" True by simp
    with "1.IH" [OF True, folded inner_mark_def] "1.prems" True
    have ih: "markable (mark_loop ?t (i + 1))"
      "\<forall>j < length t. mark_of (mark_loop ?t (i + 1) ! j) =
        (if i + 1 \<le> j \<and> j < length t - 1 then inner_mark ?t j else mark_of (?t ! j))" by simp_all
    have "mark_of (mark_loop ?t (i + 1) ! j) =
        (if i \<le> j \<and> j < length t - 1 then inner_mark t j else mark_of (t ! j))" if j: "j < length t" for j
    proof -
      have "inner_mark ?t j = inner_mark t j" if "i + 1 \<le> j" "j < length t - 1"
        using that inner_mark_set_mark [of j t] by simp
      moreover have "mark_of (?t ! j) = (if j = i then inner_mark t i else mark_of (t ! j))"
        using set_mark_mark [OF "1.prems"(1) _ j] True by simp
      ultimately show ?thesis using ih(2) j True by (auto simp: not_le Suc_le_eq)
    qed
    with ih(1) show ?thesis unfolding e by blast
  qed
qed

lemma mark_thread_marks:
  assumes m: "markable t" and i: "i < length t"
  shows "mark_of (mark_thread t ! i) =
    (if i = 0 then THREAD_BEGIN
     else if i = length t - 1
     then (if thread_id (t ! (i - 1)) = thread_id (t ! i) then THREAD_END else THREAD_BEGIN)
     else inner_mark t i)"
proof (cases "length t = 1")
  case True
  with m i set_mark_mark [of t 0 0] show ?thesis by (simp add: mark_thread_def)
next
  case False
  with i have two: "1 < length t" by linarith
  let ?t1 = "set_mark t 0 THREAD_BEGIN"
  let ?t2 = "mark_loop ?t1 1"
  have m1: "markable ?t1" using m two by (intro set_mark_markable) auto
  from mark_loop_marks [OF m1, of 1] two
  have m2: "markable ?t2" "\<forall>j < length t. mark_of (?t2 ! j) =
      (if 1 \<le> j \<and> j < length t - 1 then inner_mark ?t1 j else mark_of (?t1 ! j))" by simp_all
  have "map unmarked ?t2 = map unmarked t" by simp
  then have ids: "thread_id (?t2 ! j) = thread_id (t ! j)" if "j < length t" for j
    using same_ids that by blast
  have e: "mark_thread t = set_mark ?t2 (length t - 1)
      (if thread_id (t ! (length t - 2)) = thread_id (t ! (length t - 1)) then THREAD_END else THREAD_BEGIN)"
  proof -
    have "t \<noteq> []" using two by auto
    moreover have "thread_id (?t2 ! (length t - 2)) = thread_id (t ! (length t - 2))"
      "thread_id (?t2 ! (length t - 1)) = thread_id (t ! (length t - 1))"
      using two by (intro ids, simp)+
    ultimately show ?thesis using two by (simp add: mark_thread_def Let_def)
  qed
  have inner: "inner_mark ?t1 i = inner_mark t i" if "0 < i" "i < length t - 1"
    using that inner_mark_set_mark [of i t] by simp
  have "i - 1 = length t - 2" if "i = length t - 1" using that by simp
  with e set_mark_mark [OF m2(1), of "length t - 1" i] m2(2) i two inner set_mark_mark [OF m, of 0 i]
  show ?thesis by auto
qed

section \<open>Properties\<close>

text \<open>C38. \<open>make_thread\<close> writes the thread file: the articles of the board (up to their marks),
  each once, in order of thread and then of name.\<close>

theorem make_thread_sorts:
  assumes "dirs st (''boards/'' @ b @ ''/.DIR'') = Some hs" "hs \<noteq> []" "names_ok hs"
  shows "\<exists>t. make_thread env_fine True True st b fresh True = (set_dir st (''boards/'' @ b @ ''/.THREAD'') t, 0) \<and>
    image_mset unmarked (mset t) = image_mset unmarked (mset hs) \<and>
    sorted_wrt (\<lambda>x y. thread_id x < thread_id y \<or>
      thread_id x = thread_id y \<and> strcmp (filename x) (filename y) \<le> 0) t"
proof -
  let ?t = "mark_thread (qsort cmp_aid hs)"
  have u: "map unmarked ?t = map unmarked (qsort cmp_aid hs)" by simp
  have "sorted_wrt (\<lambda>x y. cmp_aid (unmarked x) (unmarked y) \<le> 0) (qsort cmp_aid hs)"
    using sorted_qsort_aid [OF assms(3)] by (simp add: cmp_aid_le unmarked_def)
  then have "sorted_wrt (\<lambda>x y. cmp_aid x y \<le> 0) (map unmarked ?t)"
    unfolding u by (simp add: sorted_wrt_map)
  then have "sorted_wrt (\<lambda>x y. cmp_aid x y \<le> 0) ?t"
    unfolding sorted_wrt_map by (simp add: cmp_aid_le unmarked_def)
  moreover have "image_mset unmarked (mset ?t) = image_mset unmarked (mset hs)"
    unfolding mset_map [symmetric] u by (simp add: mset_map)
  ultimately show ?thesis
    using assms by (auto simp: make_thread_def open_dir_def env_fine_def Let_def cmp_aid_le)
qed

definition threaded :: "string \<Rightarrow> 32 word \<Rightarrow> fileheader" where
  "threaded name i = (mk_header name 0)\<lparr>thread_id := i\<rparr>"

definition one_board :: dstate where
  "one_board = \<lparr>dirs = [''boards/b/.DIR'' \<mapsto> [threaded ''M.2'' 1, threaded ''M.1'' 1, threaded ''M.3'' 0]], files = {}\<rparr>"

theorem make_thread_sorts_witness:
  "\<exists>t. make_thread env_fine True True one_board ''b'' True True =
      (set_dir one_board (''boards/'' @ ''b'' @ ''/.THREAD'') t, 0) \<and>
    image_mset unmarked (mset t) =
      image_mset unmarked (mset [threaded ''M.2'' 1, threaded ''M.1'' 1, threaded ''M.3'' 0]) \<and>
    sorted_wrt (\<lambda>x y. thread_id x < thread_id y \<or>
      thread_id x = thread_id y \<and> strcmp (filename x) (filename y) \<le> 0) t"
  by (rule make_thread_sorts)
    (simp_all add: one_board_def names_ok_def threaded_def mk_header_def is_cstr_def)

text \<open>The marks of a sorted thread index without articles of thread 0: an article begins its
  thread exactly when its predecessor is of another one, ends it when it is not the first and
  its successor is of another one, and is in the middle otherwise.\<close>

theorem mark_thread_places:
  assumes "markable t" "i < length t" "\<forall>h \<in> set t. thread_id h \<noteq> 0"
  shows "mark_of (mark_thread t ! i) =
    (if i = 0 \<or> thread_id (t ! (i - 1)) \<noteq> thread_id (t ! i) then THREAD_BEGIN
     else if i = length t - 1 \<or> thread_id (t ! (i + 1)) \<noteq> thread_id (t ! i) then THREAD_END
     else THREAD_OTHER)"
proof -
  have "thread_id (t ! i) \<noteq> 0" using assms(2,3) by simp
  then show ?thesis using mark_thread_marks [OF assms(1,2)] by (auto simp: inner_mark_def)
qed

theorem mark_thread_places_witness:
  "mark_of (mark_thread [threaded ''M.1'' 1, threaded ''M.2'' 1, threaded ''M.3'' 2] ! 1) =
    (if (1 :: nat) = 0 \<or> thread_id ([threaded ''M.1'' 1, threaded ''M.2'' 1, threaded ''M.3'' 2] ! (1 - 1)) \<noteq>
        thread_id ([threaded ''M.1'' 1, threaded ''M.2'' 1, threaded ''M.3'' 2] ! 1) then THREAD_BEGIN
     else if 1 = length [threaded ''M.1'' 1, threaded ''M.2'' 1, threaded ''M.3'' 2] - 1 \<or>
        thread_id ([threaded ''M.1'' 1, threaded ''M.2'' 1, threaded ''M.3'' 2] ! (1 + 1)) \<noteq>
        thread_id ([threaded ''M.1'' 1, threaded ''M.2'' 1, threaded ''M.3'' 2] ! 1) then THREAD_END
     else THREAD_OTHER)"
  by (rule mark_thread_places) (simp_all add: markable_def threaded_def mk_header_def)

text \<open>Articles of thread 0 belong to no thread and begin one each, but the last article of
  the index is not tested for 0: after another one of thread 0 it is marked as an end.\<close>

theorem mark_thread_last_zero:
  "map (\<lambda>h. mark_of h) (mark_thread [threaded ''M.1'' 0, threaded ''M.2'' 0, threaded ''M.3'' 0]) =
    [THREAD_BEGIN, THREAD_BEGIN, THREAD_END]"
  by (simp add: mark_thread_def mark_loop.simps set_mark_def threaded_def mk_header_def)

end
