(* ===== verification/StringList.thy ===== *)
theory StringList
  imports Prelude
begin

text \<open>
  The growable array of strings of lib/libSystem/stringlist.c, in its configuration with
  random access (removal moves the later strings down).  A slot of the array holds nothing
  reliable (fresh from \<open>realloc\<close>, or a pointer to freed memory), the null pointer, or a
  pointer to a string; the pointer is the number of its allocation, so that freeing one
  pointer makes every copy of it dangle.  The length of \<open>strs\<close> is the field \<open>alloced\<close>.
\<close>

section \<open>Definitions\<close>

datatype slot = Undef | Null | Ptr nat string

record slist =
  strs :: "slot list"
  len :: nat
  maxused :: int
  fresh :: nat

definition SLIST_INCREMENT :: nat where "SLIST_INCREMENT = 20"

definition slist_init :: slist where
  "slist_init = \<lparr>strs = replicate SLIST_INCREMENT Undef, len = 0, maxused = -1, fresh = 0\<rparr>"

text \<open>\<open>free\<close> of the pointer in a slot; freeing an unreliable pointer is an error.\<close>

fun free_slot :: "slot \<Rightarrow> slot list \<Rightarrow> slot list option" where
  "free_slot Undef xs = None"
| "free_slot Null xs = Some xs"
| "free_slot (Ptr n s) xs =
     Some (map (\<lambda>x. case x of Ptr m t \<Rightarrow> if m = n then Undef else x | _ \<Rightarrow> x) xs)"

fun clear_loop :: "slot list \<Rightarrow> nat \<Rightarrow> nat \<Rightarrow> slot list option" where
  "clear_loop xs i 0 = Some xs"
| "clear_loop xs i (Suc n) =
     (case free_slot (xs ! i) xs of None \<Rightarrow> None | Some ys \<Rightarrow> clear_loop ys (i + 1) n)"

definition slist_clear :: "slist \<Rightarrow> slist option" where
  "slist_clear sl =
     map_option (\<lambda>xs. sl\<lparr>strs := xs, len := 0, maxused := -1\<rparr>)
       (clear_loop (strs sl) 0 (nat (maxused sl + 1)))"

text \<open>The first null slot among the first \<open>n\<close>, or 0.\<close>

fun first_null :: "slot list \<Rightarrow> nat \<Rightarrow> nat \<Rightarrow> nat" where
  "first_null xs i 0 = 0"
| "first_null xs i (Suc n) = (if xs ! i = Null then i else first_null xs (i + 1) n)"

text \<open>\<open>slist_add\<close>; the flags say whether \<open>realloc\<close> and \<open>malloc\<close> find memory.\<close>

definition slist_add :: "bool \<Rightarrow> bool \<Rightarrow> slist \<Rightarrow> string \<Rightarrow> (slist \<times> int) option" where
  "slist_add realloc_ok malloc_ok sl str =
     (let idx = (if int (len sl) = maxused sl + 1 then nat (maxused sl + 1)
                 else first_null (strs sl) 0 (len sl)) in
      if idx = length (strs sl) \<and> \<not> realloc_ok then Some (sl, -1)
      else
        (let sl1 = (if idx = length (strs sl)
                    then sl\<lparr>strs := strs sl @ replicate SLIST_INCREMENT Undef\<rparr> else sl) in
         if \<not> malloc_ok then Some (sl1, -1)
         else
           (case poke (strs sl1) idx (Ptr (fresh sl) str) of
              None \<Rightarrow> None
            | Some xs \<Rightarrow>
                Some (sl1\<lparr>strs := xs, len := len sl + 1, fresh := fresh sl + 1,
                         maxused := (if maxused sl < int idx then int idx else maxused sl)\<rparr>, 0))))"

text \<open>The loop that moves the slots above \<open>idx\<close> down by one.\<close>

fun shift_down :: "slot list \<Rightarrow> nat \<Rightarrow> nat \<Rightarrow> slot list" where
  "shift_down xs i 0 = xs"
| "shift_down xs i (Suc n) = shift_down (xs[i - 1 := xs ! i]) (i + 1) n"

definition slist_remove :: "slist \<Rightarrow> int \<Rightarrow> (slist \<times> int) option" where
  "slist_remove sl idx =
     (if idx < 0 \<or> maxused sl < idx then Some (sl, -1)
      else
        (case free_slot (strs sl ! nat idx) (strs sl) of
           None \<Rightarrow> None
         | Some xs \<Rightarrow>
             Some (sl\<lparr>strs := shift_down (xs[nat idx := Null]) (nat idx + 1) (nat (maxused sl - idx)),
                      len := len sl - 1, maxused := maxused sl - 1\<rparr>, 0)))"

text \<open>\<open>fgets\<close> with a buffer of 1024 bytes: up to 1023 characters, through the next newline.\<close>

abbreviation newline :: char where "newline \<equiv> CHR 0x0A"

fun fgets_take :: "nat \<Rightarrow> string \<Rightarrow> string" where
  "fgets_take 0 s = []"
| "fgets_take (Suc n) [] = []"
| "fgets_take (Suc n) (c # s) = (if c = newline then [c] else c # fgets_take n s)"

definition chomp :: "string \<Rightarrow> string" where
  "chomp buf = (if buf \<noteq> [] \<and> last buf = newline then butlast buf else buf)"

lemma fgets_take_progress [termination_simp]:
  "s \<noteq> [] \<Longrightarrow> 0 < length (fgets_take (Suc n) s)"
  by (cases s) auto

function load_loop :: "slist \<Rightarrow> string \<Rightarrow> slist option" where
  "load_loop sl file =
     (if file = [] then Some sl
      else
        (let buf = fgets_take 1023 file; line = chomp buf; rest = drop (length buf) file in
         if line \<noteq> [] then
           (case slist_add True True sl line of
              None \<Rightarrow> None
            | Some (sl1, r) \<Rightarrow> load_loop sl1 rest)
         else load_loop sl rest))"
  by pat_completeness auto
termination
  by (relation "measure (\<lambda>(sl, f). length f)")
    (use fgets_take_progress [of _ 1022] in \<open>auto simp: numeral_eq_Suc\<close>)

text \<open>\<open>file\<close> is the contents of the file, \<open>None\<close> when it cannot be opened.\<close>

definition slist_loadfromfile :: "slist \<Rightarrow> string option \<Rightarrow> (slist \<times> int) option" where
  "slist_loadfromfile sl file =
     (case file of
        None \<Rightarrow> Some (sl, -1)
      | Some s \<Rightarrow>
          (case slist_clear sl of
             None \<Rightarrow> None
           | Some sl1 \<Rightarrow> map_option (\<lambda>sl2. (sl2, 0)) (load_loop sl1 s)))"

fun save_loop :: "slot list \<Rightarrow> string option" where
  "save_loop [] = Some []"
| "save_loop (Undef # xs) = None"
| "save_loop (Null # xs) = save_loop xs"
| "save_loop (Ptr n s # xs) = map_option (\<lambda>t. s @ newline # t) (save_loop xs)"

definition slist_savetofile :: "slist \<Rightarrow> string option" where
  "slist_savetofile sl = save_loop (take (nat (maxused sl + 1)) (strs sl))"

text \<open>
  The iterators: \<open>None\<close> when an unreliable slot or memory behind the array is read; then the
  new cursor and the string, or nothing when there is no further string.
\<close>

fun next_loop :: "slot list \<Rightarrow> nat \<Rightarrow> nat \<Rightarrow> (nat \<times> string) option option" where
  "next_loop xs i 0 = Some None"
| "next_loop xs i (Suc n) =
     (if i < length xs then
        (case xs ! i of
           Undef \<Rightarrow> None
         | Null \<Rightarrow> next_loop xs (i + 1) n
         | Ptr p s \<Rightarrow> Some (Some (i, s)))
      else None)"

text \<open>The loop runs while the index read last is at most \<open>maxused\<close>, so it reads one slot more.\<close>

definition slist_next :: "slist \<Rightarrow> int \<Rightarrow> (nat \<times> string) option option" where
  "slist_next sl cur =
     (let i = (if cur < 0 then -1 else cur) in
      next_loop (strs sl) (nat (i + 1)) (nat (maxused sl - i + 1)))"

fun prev_loop :: "slot list \<Rightarrow> nat \<Rightarrow> (nat \<times> string) option option" where
  "prev_loop xs 0 = Some None"
| "prev_loop xs (Suc i) =
     (case xs ! i of
        Undef \<Rightarrow> None
      | Null \<Rightarrow> prev_loop xs i
      | Ptr p s \<Rightarrow> Some (Some (i, s)))"

definition slist_prev :: "slist \<Rightarrow> int \<Rightarrow> (nat \<times> string) option option" where
  "slist_prev sl cur = (if maxused sl < cur then Some None else prev_loop (strs sl) (nat cur))"

fun indexof_loop :: "slot list \<Rightarrow> string \<Rightarrow> nat \<Rightarrow> nat \<Rightarrow> int option" where
  "indexof_loop xs str i 0 = Some (-1)"
| "indexof_loop xs str i (Suc n) =
     (case xs ! i of
        Ptr p s \<Rightarrow> if strcaseeq s str then Some (int i) else indexof_loop xs str (i + 1) n
      | _ \<Rightarrow> None)"

definition slist_indexof :: "slist \<Rightarrow> string \<Rightarrow> int option" where
  "slist_indexof sl str = indexof_loop (strs sl) str 0 (len sl)"

declare load_loop.simps [simp del]

section \<open>The array as a list of strings\<close>

text \<open>
  The invariant: the first \<open>len\<close> slots hold pointers to different allocations, and
  \<open>maxused\<close> is the last of them.
\<close>

fun slot_ptr :: "slot \<Rightarrow> nat option" where
  "slot_ptr (Ptr n s) = Some n"
| "slot_ptr x = None"

fun slot_str :: "slot \<Rightarrow> string" where
  "slot_str (Ptr n s) = s"
| "slot_str x = []"

definition slist_ok :: "slist \<Rightarrow> bool" where
  "slist_ok sl \<longleftrightarrow> maxused sl = int (len sl) - 1 \<and> len sl \<le> length (strs sl) \<and> 0 < length (strs sl) \<and>
     (\<forall>x \<in> set (take (len sl) (strs sl)). slot_ptr x \<noteq> None) \<and>
     distinct (map slot_ptr (take (len sl) (strs sl))) \<and>
     (\<forall>x \<in> set (strs sl). \<forall>n. slot_ptr x = Some n \<longrightarrow> n < fresh sl)"

definition strings :: "slist \<Rightarrow> string list" where
  "strings sl = map slot_str (take (len sl) (strs sl))"

lemma length_strings: "slist_ok sl \<Longrightarrow> length (strings sl) = len sl"
  by (simp add: strings_def slist_ok_def)

lemma slot_ptr_Some: "slot_ptr x = Some n \<longleftrightarrow> (\<exists>s. x = Ptr n s)"
  by (cases x) auto

lemma slot_ptr_None: "slot_ptr x \<noteq> None \<longleftrightarrow> (\<exists>n s. x = Ptr n s)"
  by (cases x) auto

lemma slist_ok_nth: "slist_ok sl \<Longrightarrow> i < len sl \<Longrightarrow> \<exists>n. strs sl ! i = Ptr n (strings sl ! i)"
proof -
  assume ok: "slist_ok sl" and i: "i < len sl"
  then have "strs sl ! i \<in> set (take (len sl) (strs sl))"
    by (auto simp: slist_ok_def in_set_conv_nth intro!: exI [of _ i])
  with ok obtain n s where "strs sl ! i = Ptr n s"
    unfolding slist_ok_def slot_ptr_None by blast
  with ok i show ?thesis by (auto simp: strings_def slist_ok_def)
qed

lemma init_ok: "slist_ok slist_init" "strings slist_init = []"
  by (simp_all add: slist_ok_def slist_init_def strings_def SLIST_INCREMENT_def)

lemma add_ok:
  assumes ok: "slist_ok sl"
  shows "\<exists>sl'. slist_add True True sl str = Some (sl', 0) \<and> slist_ok sl' \<and> strings sl' = strings sl @ [str]"
proof -
  let ?xs = "if len sl = length (strs sl) then strs sl @ replicate SLIST_INCREMENT Undef else strs sl"
  let ?sl = "sl\<lparr>strs := ?xs[len sl := Ptr (fresh sl) str], len := len sl + 1, fresh := fresh sl + 1,
    maxused := int (len sl)\<rparr>"
  have l: "len sl < length ?xs" using ok by (auto simp: slist_ok_def SLIST_INCREMENT_def)
  have tk: "take (len sl) ?xs = take (len sl) (strs sl)" by simp
  have t: "take (Suc (len sl)) (?xs[len sl := Ptr (fresh sl) str]) = take (len sl) (strs sl) @ [Ptr (fresh sl) str]"
    unfolding take_Suc_update [OF l] tk by (rule refl)
  have "slist_add True True sl str = Some (?sl, 0)"
    using ok l by (auto simp: slist_add_def poke_def slist_ok_def Let_def SLIST_INCREMENT_def)
  moreover have "strings ?sl = strings sl @ [str]"
    using t by (simp add: strings_def)
  moreover have "slist_ok ?sl"
  proof -
    have less: "n < fresh sl + 1" if "x \<in> set (?xs[len sl := Ptr (fresh sl) str])" "slot_ptr x = Some n" for x n
    proof -
      from that(1) have "x = Ptr (fresh sl) str \<or> x \<in> set ?xs"
        using set_update_subset_insert by fastforce
      with that(2) ok show ?thesis by (fastforce simp: slist_ok_def split: if_splits)
    qed
    have "Some (fresh sl) \<notin> slot_ptr ` set (take (len sl) (strs sl))"
    proof
      assume "Some (fresh sl) \<in> slot_ptr ` set (take (len sl) (strs sl))"
      then obtain x where "x \<in> set (strs sl)" "slot_ptr x = Some (fresh sl)" by (auto dest: in_set_takeD)
      with ok show False unfolding slist_ok_def by blast
    qed
    with ok t l less show ?thesis
      unfolding slist_ok_def by (auto simp: le_less_trans)
  qed
  ultimately show ?thesis by blast
qed

text \<open>Removal: the slots above move down, the string goes away.\<close>

lemma shift_down_spec:
  "1 \<le> i \<Longrightarrow> i + n \<le> length xs \<Longrightarrow>
     shift_down xs i n = take (i - 1) xs @ take n (drop i xs) @ drop (i - 1 + n) xs"
proof (induction xs i n rule: shift_down.induct)
  case (2 xs i n)
  then obtain j where j: "i = Suc j" by (cases i) auto
  have "shift_down xs i (Suc n) = take i (xs[j := xs ! i]) @ take n (drop (i + 1) xs) @ drop (i + n) xs"
    using "2.IH" "2.prems" j by simp
  also have "take i (xs[j := xs ! i]) = take j xs @ [xs ! i]"
    using "2.prems" j take_Suc_update [of j xs "xs ! i"] by simp
  finally have "shift_down xs i (Suc n) = take j xs @ ([xs ! i] @ take n (drop (i + 1) xs)) @ drop (i + n) xs"
    by simp
  also have "[xs ! i] @ take n (drop (i + 1) xs) = take (Suc n) (drop i xs)"
    using "2.prems" by (simp add: Cons_nth_drop_Suc [symmetric])
  finally show ?case using j by simp
qed (simp add: add.commute)

lemma length_shift_down [simp]: "length (shift_down xs i n) = length xs"
  by (induction xs i n rule: shift_down.induct) auto

lemma shift_down_set: "1 \<le> i \<Longrightarrow> i + n \<le> length xs \<Longrightarrow> x \<in> set (shift_down xs i n) \<Longrightarrow> x \<in> set xs"
  by (auto simp: shift_down_spec dest: in_set_takeD in_set_dropD)

lemma take_shift_down:
  "i < n \<Longrightarrow> n \<le> length xs \<Longrightarrow> take (n - 1) (shift_down xs (i + 1) (n - 1 - i)) = remove_nth i (take n xs)"
proof -
  assume i: "i < n" "n \<le> length xs"
  have "shift_down xs (i + 1) (n - 1 - i) = (take i xs @ take (n - 1 - i) (drop (i + 1) xs)) @ drop (n - 1) xs"
    using shift_down_spec [of "i + 1" "n - 1 - i" xs] i by simp
  moreover have "length (take i xs @ take (n - 1 - i) (drop (i + 1) xs)) = n - 1" using i by simp
  ultimately have "take (n - 1) (shift_down xs (i + 1) (n - 1 - i)) = take i xs @ take (n - 1 - i) (drop (i + 1) xs)"
    by (metis append_eq_conv_conj)
  with i show ?thesis by (simp add: remove_nth_def drop_take min_def)
qed

lemma remove_ok:
  assumes ok: "slist_ok sl" and i: "i < len sl"
  shows "\<exists>sl'. slist_remove sl (int i) = Some (sl', 0) \<and> slist_ok sl' \<and>
    strings sl' = remove_nth i (strings sl)"
proof -
  obtain n where n: "strs sl ! i = Ptr n (strings sl ! i)" using slist_ok_nth [OF ok i] by blast
  let ?free = "\<lambda>x. case x of Ptr m t \<Rightarrow> if m = n then Undef else x | _ \<Rightarrow> x"
  let ?fs = "map ?free (strs sl)"
  let ?xs = "shift_down (?fs[i := Null]) (i + 1) (len sl - 1 - i)"
  let ?sl = "sl\<lparr>strs := ?xs, len := len sl - 1, maxused := maxused sl - 1\<rparr>"
  have le: "len sl \<le> length (strs sl)" using ok by (simp add: slist_ok_def)
  have nat: "nat (maxused sl - int i) = len sl - 1 - i" using ok i by (simp add: slist_ok_def)
  have call: "slist_remove sl (int i) = Some (?sl, 0)"
    using ok i n nat by (simp add: slist_remove_def slist_ok_def)
  have tk: "take (len sl - 1) ?xs = remove_nth i (take (len sl) ?fs)"
    using take_shift_down [of i "len sl" "?fs[i := Null]"] i le by (simp add: take_update_swap remove_nth_update)
  have dist: "distinct (map slot_ptr (take (len sl) (strs sl)))" using ok by (simp add: slist_ok_def)
  have keep: "remove_nth i (take (len sl) ?fs) = remove_nth i (take (len sl) (strs sl))"
  proof -
    have "?free x = x" if x: "x \<in> set (remove_nth i (take (len sl) (strs sl)))" for x
    proof -
      have "remove_nth i (take (len sl) (strs sl)) =
          filter (\<lambda>y. slot_ptr y \<noteq> slot_ptr (take (len sl) (strs sl) ! i)) (take (len sl) (strs sl))"
        using i le by (intro remove_nth_distinct [OF dist]) simp
      with x have "slot_ptr x \<noteq> slot_ptr (strs sl ! i)" using i by auto
      with n show ?thesis by (cases x) auto
    qed
    then show ?thesis by (simp add: take_map remove_nth_map [symmetric] map_idI)
  qed
  have view: "strings ?sl = remove_nth i (strings sl)"
    unfolding strings_def using tk keep by (simp add: remove_nth_map)
  have sub: "slot_ptr x = Some m \<Longrightarrow> m < fresh sl" if "x \<in> set ?xs" for x m
  proof -
    have "x \<in> set (?fs[i := Null])" by (rule shift_down_set [OF _ _ that]) (use i le in simp_all)
    then have "x = Null \<or> x \<in> set ?fs" using set_update_subset_insert by fastforce
    with ok show "slot_ptr x = Some m \<Longrightarrow> m < fresh sl"
      by (fastforce simp: slist_ok_def split: slot.splits if_splits)
  qed
  have "slist_ok ?sl"
  proof -
    have "distinct (map slot_ptr (remove_nth i (take (len sl) (strs sl))))"
      using distinct_remove_nth [OF dist] by (simp add: remove_nth_map)
    moreover have "\<forall>x \<in> set (remove_nth i (take (len sl) (strs sl))). slot_ptr x \<noteq> None"
      using ok unfolding slist_ok_def by (auto dest: set_remove_nth)
    moreover have "length ?xs = length (strs sl)"
      by simp
    ultimately show ?thesis using ok i sub tk keep by (auto simp: slist_ok_def)
  qed
  with call view show ?thesis by blast
qed

text \<open>Clearing frees every string once.\<close>

lemma clear_loop_ok:
  "i + n \<le> length xs \<Longrightarrow> \<forall>x \<in> set (take n (drop i xs)). slot_ptr x \<noteq> None \<Longrightarrow>
     distinct (map slot_ptr (take n (drop i xs))) \<Longrightarrow>
     \<exists>ys. clear_loop xs i n = Some ys \<and> length ys = length xs \<and>
       (\<forall>y \<in> set ys. y = Undef \<or> y \<in> set xs)"
proof (induction xs i n rule: clear_loop.induct)
  case (2 xs i n)
  have split: "take (Suc n) (drop i xs) = xs ! i # take n (drop (i + 1) xs)"
    using "2.prems"(1) by (simp add: Cons_nth_drop_Suc [symmetric])
  obtain p s where p: "xs ! i = Ptr p s"
    using "2.prems"(2) unfolding split slot_ptr_None by auto
  let ?free = "\<lambda>x. case x of Ptr m t \<Rightarrow> if m = p then Undef else x | _ \<Rightarrow> x"
  have free: "free_slot (xs ! i) xs = Some (map ?free xs)" using p by simp
  have same: "take n (drop (i + 1) (map ?free xs)) = take n (drop (i + 1) xs)"
  proof -
    have "?free x = x" if "x \<in> set (take n (drop (i + 1) xs))" for x
    proof -
      have "slot_ptr x \<noteq> Some p" using that "2.prems"(3) p unfolding split by (auto simp: image_iff)
      then show ?thesis by (cases x) auto
    qed
    then show ?thesis by (simp add: drop_map take_map map_idI)
  qed
  from "2.IH" [OF free] "2.prems" obtain ys where ys: "clear_loop (map ?free xs) (i + 1) n = Some ys"
    "length ys = length xs" "\<forall>y \<in> set ys. y = Undef \<or> y \<in> set (map ?free xs)"
    unfolding same split by auto
  have "y = Undef \<or> y \<in> set xs" if "y \<in> set ys" for y
    using that ys(3) by (fastforce split: slot.splits if_splits)
  with ys free show ?case by auto
qed auto

lemma clear_ok:
  assumes ok: "slist_ok sl"
  shows "\<exists>sl'. slist_clear sl = Some sl' \<and> slist_ok sl' \<and> strings sl' = []"
proof -
  have n: "nat (maxused sl + 1) = len sl" using ok by (simp add: slist_ok_def)
  from clear_loop_ok [of 0 "len sl" "strs sl"] ok obtain ys where
    "clear_loop (strs sl) 0 (len sl) = Some ys" "length ys = length (strs sl)"
    "\<forall>y \<in> set ys. y = Undef \<or> y \<in> set (strs sl)"
    by (auto simp: slist_ok_def)
  with ok n show ?thesis
    by (fastforce simp: slist_clear_def slist_ok_def strings_def)
qed

lemma indexof_loop_ok:
  "slist_ok sl \<Longrightarrow> i + n = len sl \<Longrightarrow>
     \<exists>r. indexof_loop (strs sl) str i n = Some r \<and>
       (if \<exists>j < n. strcaseeq (strings sl ! (i + j)) str
        then \<exists>j < n. r = int (i + j) \<and> strcaseeq (strings sl ! (i + j)) str \<and>
          (\<forall>k < j. \<not> strcaseeq (strings sl ! (i + k)) str)
        else r = -1)"
proof (induction n arbitrary: i)
  case (Suc n)
  then obtain p where p: "strs sl ! i = Ptr p (strings sl ! i)" using slist_ok_nth [of sl i] by auto
  show ?case
  proof (cases "strcaseeq (strings sl ! i) str")
    case True
    then show ?thesis using p by auto
  next
    case False
    have e: "indexof_loop (strs sl) str i (Suc n) = indexof_loop (strs sl) str (i + 1) n" using p False by simp
    from Suc.IH [of "i + 1"] Suc.prems obtain r where r: "indexof_loop (strs sl) str (i + 1) n = Some r"
      "if \<exists>j < n. strcaseeq (strings sl ! (i + 1 + j)) str
        then \<exists>j < n. r = int (i + 1 + j) \<and> strcaseeq (strings sl ! (i + 1 + j)) str \<and>
          (\<forall>k < j. \<not> strcaseeq (strings sl ! (i + 1 + k)) str)
        else r = -1" by auto
    have shift: "(\<exists>j < Suc n. strcaseeq (strings sl ! (i + j)) str) \<longleftrightarrow> (\<exists>j < n. strcaseeq (strings sl ! (i + 1 + j)) str)"
      using False by (auto simp: less_Suc_eq_0_disj)
    show ?thesis
    proof (cases "\<exists>j < n. strcaseeq (strings sl ! (i + 1 + j)) str")
      case True
      with r obtain j where "j < n" "r = int (i + 1 + j)" "strcaseeq (strings sl ! (i + 1 + j)) str"
        "\<forall>k < j. \<not> strcaseeq (strings sl ! (i + 1 + k)) str" by auto
      with False have "\<exists>j < Suc n. r = int (i + j) \<and> strcaseeq (strings sl ! (i + j)) str \<and>
          (\<forall>k < j. \<not> strcaseeq (strings sl ! (i + k)) str)"
        by (intro exI [of _ "Suc j"]) (auto simp: less_Suc_eq_0_disj)
      with e r(1) shift True show ?thesis by auto
    next
      case none: False
      with e r shift show ?thesis by auto
    qed
  qed
qed simp

text \<open>Saving writes one line per string; loading reads them back.\<close>

definition text_of :: "string list \<Rightarrow> string" where
  "text_of ss = concat (map (\<lambda>s. s @ [newline]) ss)"

lemma save_loop_ok:
  "\<forall>x \<in> set xs. slot_ptr x \<noteq> None \<Longrightarrow> save_loop xs = Some (text_of (map slot_str xs))"
  by (induction xs) (auto simp: text_of_def slot_ptr_Some)

lemma save_ok: "slist_ok sl \<Longrightarrow> slist_savetofile sl = Some (text_of (strings sl))"
  using save_loop_ok [of "take (len sl) (strs sl)"]
  by (simp add: slist_savetofile_def slist_ok_def strings_def)

lemma fgets_take_line:
  "newline \<notin> set s \<Longrightarrow> length s < n \<Longrightarrow> fgets_take n (s @ newline # t) = s @ [newline]"
proof (induction s arbitrary: n)
  case Nil
  then obtain m where "n = Suc m" by (cases n) auto
  then show ?case by simp
next
  case (Cons c s)
  then obtain m where "n = Suc m" by (cases n) auto
  with Cons show ?case by auto
qed

definition savable :: "string \<Rightarrow> bool" where
  "savable s \<longleftrightarrow> s \<noteq> [] \<and> newline \<notin> set s \<and> length s < 1023"

lemma load_loop_ok:
  "slist_ok sl \<Longrightarrow> \<forall>s \<in> set ss. savable s \<Longrightarrow>
     \<exists>sl'. load_loop sl (text_of ss) = Some sl' \<and> slist_ok sl' \<and> strings sl' = strings sl @ ss"
proof (induction ss arbitrary: sl)
  case Nil
  then show ?case by (simp add: text_of_def load_loop.simps [of sl "[]"])
next
  case (Cons s ss)
  obtain sl1 where sl1: "slist_add True True sl s = Some (sl1, 0)" "slist_ok sl1" "strings sl1 = strings sl @ [s]"
    using add_ok [OF Cons.prems(1)] by blast
  have s: "savable s" using Cons.prems by simp
  have f: "text_of (s # ss) = s @ newline # text_of ss" by (simp add: text_of_def)
  have line: "fgets_take 1023 (s @ newline # text_of ss) = s @ [newline]"
    using s by (intro fgets_take_line) (auto simp: savable_def)
  have "load_loop sl (text_of (s # ss)) = load_loop sl1 (text_of ss)"
    unfolding f using s sl1(1) by (subst load_loop.simps) (simp add: line chomp_def savable_def Let_def)
  with Cons.IH [OF sl1(2)] sl1(3) Cons.prems show ?case by auto
qed

text \<open>Iterating.\<close>

lemma next_loop_hit:
  "slist_ok sl \<Longrightarrow> i < len sl \<Longrightarrow> 0 < n \<Longrightarrow> next_loop (strs sl) i n = Some (Some (i, strings sl ! i))"
  using slist_ok_nth [of sl i] by (cases n) (auto simp: slist_ok_def)

lemma next_ok:
  assumes ok: "slist_ok sl" and cur: "-1 \<le> cur" "cur + 1 < int (len sl)"
  shows "slist_next sl cur = Some (Some (nat (cur + 1), strings sl ! nat (cur + 1)))"
proof -
  have "nat (cur + 1) < len sl" "0 < nat (maxused sl - cur + 1)"
    using assms by (auto simp: slist_ok_def nat_less_iff)
  note hit = next_loop_hit [OF ok this]
  show ?thesis
  proof (cases "cur < 0")
    case True
    with cur have "cur = -1" by simp
    with hit show ?thesis by (simp add: slist_next_def)
  next
    case False
    with hit show ?thesis by (simp add: slist_next_def)
  qed
qed

lemma prev_ok:
  assumes ok: "slist_ok sl" and cur: "0 < cur" "cur < int (len sl)"
  shows "slist_prev sl cur = Some (Some (nat cur - 1, strings sl ! (nat cur - 1)))"
proof -
  obtain m where m: "nat cur = Suc m" using cur by (cases "nat cur") auto
  then have "m < len sl" using cur by linarith
  from slist_ok_nth [OF ok this] cur ok m show ?thesis
    by (auto simp: slist_prev_def slist_ok_def)
qed

section \<open>Properties\<close>

text \<open>Removing a string frees it, moves the later strings down by one and keeps the
  invariant of the array.\<close>

theorem slist_remove_removes:
  assumes "slist_ok sl" "i < len sl"
  shows "\<exists>sl'. slist_remove sl (int i) = Some (sl', 0) \<and> slist_ok sl' \<and> strings sl' = remove_nth i (strings sl)"
  using assms by (rule remove_ok)

definition two_strings :: slist where
  "two_strings = \<lparr>strs = [Ptr 0 ''a'', Ptr 1 ''b'', Undef], len = 2, maxused = 1, fresh = 2\<rparr>"

theorem slist_remove_removes_witness:
  "\<exists>sl'. slist_remove two_strings (int 0) = Some (sl', 0) \<and> slist_ok sl' \<and>
    strings sl' = remove_nth 0 (strings two_strings)"
  by (rule slist_remove_removes) (auto simp: two_strings_def slist_ok_def numeral_eq_Suc)

text \<open>Saving a list and loading the file into any list gives the same strings back, for
  strings that are not empty, hold no newline and fit the line buffer.\<close>

theorem slist_save_load:
  assumes "slist_ok sl" "\<forall>s \<in> set (strings sl). savable s" "slist_ok sl0"
  shows "\<exists>file sl'. slist_savetofile sl = Some file \<and> slist_loadfromfile sl0 (Some file) = Some (sl', 0) \<and>
    slist_ok sl' \<and> strings sl' = strings sl"
proof -
  obtain sl1 where sl1: "slist_clear sl0 = Some sl1" "slist_ok sl1" "strings sl1 = []"
    using clear_ok [OF assms(3)] by blast
  from load_loop_ok [OF sl1(2) assms(2)] sl1 save_ok [OF assms(1)] show ?thesis
    by (auto simp: slist_loadfromfile_def)
qed

theorem slist_save_load_witness:
  "\<exists>file sl'. slist_savetofile two_strings = Some file \<and>
    slist_loadfromfile slist_init (Some file) = Some (sl', 0) \<and>
    slist_ok sl' \<and> strings sl' = strings two_strings"
  by (rule slist_save_load)
    (auto simp: two_strings_def slist_ok_def numeral_eq_Suc strings_def savable_def slist_init_def SLIST_INCREMENT_def)

text \<open>\<open>slist_next\<close> at the last string reads the slot behind it: it answers a stale copy of
  the string moved by a removal, and leaves the array when that is full.\<close>

theorem slist_next_overreads:
  "map_option (\<lambda>(sl', r). slist_next sl' 0) (slist_remove two_strings 0) = Some (Some (Some (1, ''b''))) \<and>
   slist_next \<lparr>strs = [Ptr 0 ''a''], len = 1, maxused = 0, fresh = 1\<rparr> 0 = None"
  by (simp add: slist_remove_def two_strings_def slist_next_def numeral_eq_Suc)

end
