(* ===== verification/ReadNav.thy ===== *)
theory ReadNav
  imports Prelude "HOL-Library.Signed_Division"
begin

text \<open>
  The position of the reader in a list of articles, from src/read.c: the list of saved
  positions (\<open>getkeep\<close>, \<open>setkeep\<close>, \<open>fixkeep\<close>) and the cursor movement in a window of
  \<open>screen_len\<close> lines over \<open>last_line\<close> articles.  Moving the cursor mark on the screen is
  output and not modelled; \<open>circle\<close> stands for \<open>DEFINE(DEF_CIRCLE)\<close>.
\<close>

section \<open>Definitions\<close>

record keeploc =
  key :: string
  top_line :: int
  crs_line :: int

text \<open>\<open>getkeep\<close> returns the list and the index of the entry its result points to.\<close>

fun keep_index :: "keeploc list \<Rightarrow> string \<Rightarrow> nat \<Rightarrow> nat option" where
  "keep_index [] s i = None"
| "keep_index (p # ps) s i = (if key p = s then Some i else keep_index ps s (i + 1))"

definition getkeep :: "keeploc list \<Rightarrow> string \<Rightarrow> int \<Rightarrow> int \<Rightarrow> keeploc list \<times> nat" where
  "getkeep keeplist s def_topline def_cursline =
     (case keep_index keeplist s 0 of
        Some i \<Rightarrow>
          (if crs_line (keeplist ! i) < 1
           then keeplist[i := (keeplist ! i)\<lparr>crs_line := 1\<rparr>] else keeplist, i)
      | None \<Rightarrow> (\<lparr>key = s, top_line = def_topline, crs_line = def_cursline\<rparr> # keeplist, 0))"

definition setkeep_at :: "int \<Rightarrow> int \<Rightarrow> keeploc \<Rightarrow> keeploc" where
  "setkeep_at t_lines pos k =
     (if top_line k \<le> pos \<and> pos < top_line k + t_lines - 4 then k\<lparr>crs_line := pos\<rparr>
      else (let half = (t_lines - 3) sdiv 2 in
            k\<lparr>crs_line := pos, top_line := (if pos \<le> half then 1 else pos - half)\<rparr>))"

definition setkeep :: "int \<Rightarrow> keeploc list \<Rightarrow> string \<Rightarrow> int \<Rightarrow> keeploc list" where
  "setkeep t_lines keeplist s pos =
     (case getkeep keeplist s 1 1 of (ks, i) \<Rightarrow> ks[i := setkeep_at t_lines pos (ks ! i)])"

definition fixkeep_at :: "int \<Rightarrow> int \<Rightarrow> keeploc \<Rightarrow> keeploc" where
  "fixkeep_at t_lines first k =
     (if first \<le> crs_line k then
        (let half = (t_lines - 3) sdiv 2 in
         k\<lparr>crs_line := (if first = 1 then 1 else first - 1),
           top_line := (if first \<le> half then 1 else first - half)\<rparr>)
      else k)"

definition fixkeep :: "int \<Rightarrow> keeploc list \<Rightarrow> string \<Rightarrow> int \<Rightarrow> int \<Rightarrow> keeploc list" where
  "fixkeep t_lines keeplist s first final =
     (case getkeep keeplist s 1 1 of (ks, i) \<Rightarrow> ks[i := fixkeep_at t_lines first (ks ! i)])"

definition modify_locmem :: "int \<Rightarrow> int \<Rightarrow> keeploc \<Rightarrow> int \<Rightarrow> keeploc" where
  "modify_locmem t_lines screen_len locmem entries =
     (let l1 = (if entries < top_line locmem then
                  (let top = entries - t_lines sdiv 2 in
                   locmem\<lparr>crs_line := entries, top_line := (if top < 1 then 1 else top)\<rparr>)
                else if entries < crs_line locmem then locmem\<lparr>crs_line := entries\<rparr>
                else locmem)
      in if top_line l1 \<le> crs_line l1 - screen_len then
           (let top = crs_line l1 - screen_len sdiv 2 in
            l1\<lparr>top_line := (if top < 1 then 1 else top)\<rparr>)
         else l1)"

text \<open>\<open>cursor_pos\<close>: the new position, and whether the window moved.\<close>

definition cursor_pos :: "bool \<Rightarrow> int \<Rightarrow> int \<Rightarrow> keeploc \<Rightarrow> int \<Rightarrow> int \<Rightarrow> keeploc \<times> bool" where
  "cursor_pos circle screen_len last_line locmem val0 from_top =
     (let val1 = (if last_line < val0 then (if circle then 1 else last_line) else val0);
          val = (if val1 \<le> 0 then (if circle then last_line else 1) else val1) in
      if top_line locmem \<le> val \<and> val < top_line locmem + screen_len
      then (locmem\<lparr>crs_line := val\<rparr>, False)
      else
        (let top = val - from_top in
         (locmem\<lparr>top_line := (if top \<le> 0 then 1 else top), crs_line := val\<rparr>, True)))"

datatype read_mode = READ_PREV | READ_NEXT | READ_OTHER

definition move_cursor_line :: "int \<Rightarrow> int \<Rightarrow> keeploc \<Rightarrow> read_mode \<Rightarrow> keeploc \<times> int" where
  "move_cursor_line screen_len last_line locmem mode =
     (let top = top_line locmem; crs = crs_line locmem in
      case mode of
        READ_PREV \<Rightarrow>
          (let (top1, reload1) =
                 (if crs \<le> top
                  then (if top - (screen_len - 1) < 1 then 1 else top - (screen_len - 1), 1)
                  else (top, 0));
               (crs1, reload2) = (if crs - 1 < 1 then (1, -1) else (crs - 1, reload1))
           in (locmem\<lparr>top_line := top1, crs_line := crs1\<rparr>, reload2))
      | READ_NEXT \<Rightarrow>
          (let (top1, reload1) =
                 (if top + screen_len \<le> crs + 1 then (top + (screen_len - 1), 1) else (top, 0));
               (crs1, reload2) = (if last_line < crs + 1 then (last_line, -1) else (crs + 1, reload1))
           in (locmem\<lparr>top_line := top1, crs_line := crs1\<rparr>, reload2))
      | READ_OTHER \<Rightarrow> (locmem, 0))"

text \<open>The movement keys of \<open>i_read_key\<close> and what the caller is told to redraw.\<close>

datatype navkey = NavUp | NavDown | NavPgDn | NavPgUp | NavHome | NavEnd

datatype update = DONOTHING | PARTUPDATE | PREUPDATE

definition i_read_key ::
  "bool \<Rightarrow> bool \<Rightarrow> int \<Rightarrow> int \<Rightarrow> keeploc \<Rightarrow> navkey \<Rightarrow> keeploc \<times> update" where
  "i_read_key circle preview screen_len last_line locmem ch =
     (let stay = (if preview then PREUPDATE else DONOTHING) in
      if last_line \<le> 0 then (locmem, DONOTHING)
      else
        (case ch of
           NavUp \<Rightarrow>
             (case cursor_pos circle screen_len last_line locmem (crs_line locmem - 1) (screen_len - 1) of
                (l, moved) \<Rightarrow> (l, if moved then PARTUPDATE else stay))
         | NavDown \<Rightarrow>
             (case cursor_pos circle screen_len last_line locmem (crs_line locmem + 1) 0 of
                (l, moved) \<Rightarrow> (l, if moved then PARTUPDATE else stay))
         | NavPgDn \<Rightarrow>
             if top_line locmem + screen_len \<le> last_line
             then (locmem\<lparr>top_line := top_line locmem + (screen_len - 1),
                          crs_line := top_line locmem + (screen_len - 1)\<rparr>, PARTUPDATE)
             else (locmem\<lparr>crs_line := last_line\<rparr>, stay)
         | NavPgUp \<Rightarrow>
             if 1 < top_line locmem then
               (let top = top_line locmem - (screen_len - 1); top1 = (if top \<le> 0 then 1 else top)
                in (locmem\<lparr>top_line := top1, crs_line := top1\<rparr>, PARTUPDATE))
             else (locmem\<lparr>crs_line := top_line locmem\<rparr>, stay)
         | NavHome \<Rightarrow> (locmem\<lparr>top_line := 1, crs_line := 1\<rparr>, PARTUPDATE)
         | NavEnd \<Rightarrow>
             if top_line locmem + screen_len \<le> last_line then
               (let top = last_line - screen_len + 1 in
                (locmem\<lparr>top_line := (if top \<le> 0 then 1 else top), crs_line := last_line\<rparr>, PARTUPDATE))
             else (locmem\<lparr>crs_line := last_line\<rparr>, stay)))"

section \<open>The cursor stays in the window and on an article\<close>

definition nav_ok :: "int \<Rightarrow> int \<Rightarrow> keeploc \<Rightarrow> bool" where
  "nav_ok screen_len last_line l \<longleftrightarrow>
     1 \<le> top_line l \<and> top_line l \<le> crs_line l \<and> crs_line l \<le> last_line \<and>
     crs_line l < top_line l + screen_len"

lemma cursor_pos_ok [inv_intros]:
  "nav_ok n m l \<Longrightarrow> 2 \<le> n \<Longrightarrow> d = n - 1 \<or> d = 0 \<Longrightarrow> nav_ok n m (fst (cursor_pos circle n m l v d))"
  by (auto simp: nav_ok_def cursor_pos_def Let_def)

lemma move_cursor_line_ok [inv_intros]:
  "nav_ok n m l \<Longrightarrow> 2 \<le> n \<Longrightarrow> nav_ok n m (fst (move_cursor_line n m l mode))"
  by (cases mode) (auto simp: nav_ok_def move_cursor_line_def Let_def)

lemma i_read_key_ok [inv_intros]:
  assumes "nav_ok n m l" "2 \<le> n"
  shows "nav_ok n m (fst (i_read_key circle preview n m l k))"
proof (cases k)
  case NavUp
  with assms cursor_pos_ok [OF assms, of "n - 1" circle "crs_line l - 1"] show ?thesis
    by (auto simp: i_read_key_def Let_def split: prod.splits)
next
  case NavDown
  with assms cursor_pos_ok [OF assms, of 0 circle "crs_line l + 1"] show ?thesis
    by (auto simp: i_read_key_def Let_def split: prod.splits)
qed (use assms in \<open>auto simp: nav_ok_def i_read_key_def Let_def\<close>)

text \<open>The states the movement keys can reach, and rule induction over them.\<close>

inductive nav_reach :: "bool \<Rightarrow> bool \<Rightarrow> int \<Rightarrow> int \<Rightarrow> keeploc \<Rightarrow> keeploc \<Rightarrow> bool"
  for circle preview n m l0 where
  start: "nav_reach circle preview n m l0 l0"
| key: "nav_reach circle preview n m l0 l \<Longrightarrow>
    nav_reach circle preview n m l0 (fst (i_read_key circle preview n m l k))"
| line: "nav_reach circle preview n m l0 l \<Longrightarrow>
    nav_reach circle preview n m l0 (fst (move_cursor_line n m l mode))"

inductive_cases nav_reachE: "nav_reach circle preview n m l0 l"

lemma nav_reach_ok: "nav_reach circle preview n m l0 l \<Longrightarrow> nav_ok n m l0 \<Longrightarrow> 2 \<le> n \<Longrightarrow> nav_ok n m l"
  by (induction rule: nav_reach.induct) (auto intro: inv_intros)

text \<open>Pressing the down key walks through the articles one by one.\<close>

lemma down_step:
  "nav_ok n m l \<Longrightarrow> crs_line l < m \<Longrightarrow> crs_line (fst (i_read_key circle preview n m l NavDown)) = crs_line l + 1"
  by (auto simp: i_read_key_def cursor_pos_def nav_ok_def Let_def)

lemma up_step:
  "nav_ok n m l \<Longrightarrow> 1 < crs_line l \<Longrightarrow> crs_line (fst (i_read_key circle preview n m l NavUp)) = crs_line l - 1"
  by (auto simp: i_read_key_def cursor_pos_def nav_ok_def Let_def)

lemma down_steps:
  assumes "nav_ok n m l" "2 \<le> n"
  shows "crs_line l + int d \<le> m \<Longrightarrow>
    nav_ok n m (((\<lambda>x. fst (i_read_key circle preview n m x NavDown)) ^^ d) l) \<and>
    crs_line (((\<lambda>x. fst (i_read_key circle preview n m x NavDown)) ^^ d) l) = crs_line l + int d"
proof (induction d)
  case (Suc d)
  let ?f = "\<lambda>x. fst (i_read_key circle preview n m x NavDown)"
  from Suc have ih: "nav_ok n m ((?f ^^ d) l)" "crs_line ((?f ^^ d) l) = crs_line l + int d" by simp_all
  show ?case
    using i_read_key_ok [OF ih(1) assms(2), of circle preview NavDown]
      down_step [OF ih(1), of circle preview] ih(2) Suc.prems by simp
qed (use assms in simp)

section \<open>Saved positions\<close>

lemma keep_index_Some:
  "keep_index ks s i = Some j \<Longrightarrow> i \<le> j \<and> j - i < length ks \<and> key (ks ! (j - i)) = s"
proof (induction ks s i arbitrary: j rule: keep_index.induct)
  case (2 p ps s i)
  show ?case
  proof (cases "key p = s")
    case False
    with 2 have "i + 1 \<le> j \<and> j - (i + 1) < length ps \<and> key (ps ! (j - (i + 1))) = s" by simp
    then show ?thesis by (auto simp: nth_Cons')
  qed (use 2 in simp)
qed simp

lemma getkeep_index:
  "getkeep ks s t c = (ks', i) \<Longrightarrow> i < length ks' \<and> key (ks' ! i) = s"
  by (auto simp: getkeep_def split: option.splits if_splits dest!: keep_index_Some)

lemma keep_index_update:
  "keep_index ks s n = Some j \<Longrightarrow> key k = s \<Longrightarrow> keep_index (ks[j - n := k]) s n = Some j"
proof (induction ks s n arbitrary: j rule: keep_index.induct)
  case (2 p ps s i)
  show ?case
  proof (cases "key p = s")
    case False
    with 2 have ps: "keep_index ps s (i + 1) = Some j" by simp
    with keep_index_Some [OF ps] have "j - i = Suc (j - (i + 1))" by auto
    with 2 ps False show ?thesis by simp
  qed (use 2 in auto)
qed simp

lemma getkeep_finds: "getkeep ks s t c = (ks', i) \<Longrightarrow> keep_index ks' s 0 = Some i"
  using keep_index_update [of ks s 0 i "(ks ! i)\<lparr>crs_line := 1\<rparr>"]
  by (auto simp: getkeep_def split: option.splits if_splits dest!: keep_index_Some [of ks])

lemma setkeep_index:
  assumes g: "getkeep ks s 1 1 = (ks', i)"
  shows "keep_index (setkeep n ks s pos) s 0 = Some i"
    "setkeep n ks s pos ! i = setkeep_at n pos (ks' ! i)"
proof -
  have "key (setkeep_at n pos (ks' ! i)) = s"
    using getkeep_index [OF g] by (simp add: setkeep_at_def Let_def)
  with keep_index_update [OF getkeep_finds [OF g], of "setkeep_at n pos (ks' ! i)"] g
  show "keep_index (setkeep n ks s pos) s 0 = Some i" by (simp add: setkeep_def)
  show "setkeep n ks s pos ! i = setkeep_at n pos (ks' ! i)"
    using g getkeep_index [OF g] by (simp add: setkeep_def)
qed

section \<open>Properties\<close>



text \<open>Every later article is reached: \<open>d\<close> times the down key moves the cursor \<open>d\<close> articles on.\<close>

theorem down_reaches:
  assumes "nav_ok n m l" "2 \<le> n" "crs_line l + int d \<le> m"
  shows "crs_line (((\<lambda>x. fst (i_read_key circle preview n m x NavDown)) ^^ d) l) = crs_line l + int d"
  using down_steps [OF assms] by blast

theorem down_reaches_witness:
  "crs_line (((\<lambda>x. fst (i_read_key False False 20 99 x NavDown)) ^^ 98) \<lparr>key = ''b'', top_line = 1, crs_line = 1\<rparr>) =
    crs_line \<lparr>key = ''b'', top_line = 1, crs_line = 1\<rparr> + int 98"
  by (rule down_reaches) (simp_all add: nav_ok_def)

text \<open>A position saved with \<open>setkeep\<close> is the one \<open>getkeep\<close> answers next, with a window that
  holds it.\<close>

theorem getkeep_setkeep:
  assumes "1 \<le> pos" "getkeep ks s 1 1 = (kx, ix)" "1 \<le> top_line (kx ! ix)" "5 \<le> n"
  shows "\<exists>ks' i. getkeep (setkeep n ks s pos) s t c = (ks', i) \<and> crs_line (ks' ! i) = pos \<and>
    1 \<le> top_line (ks' ! i) \<and> top_line (ks' ! i) \<le> pos \<and> pos < top_line (ks' ! i) + n - 3"
proof -
  let ?k = "setkeep n ks s pos"
  have k: "keep_index ?k s 0 = Some ix" "?k ! ix = setkeep_at n pos (kx ! ix)"
    using setkeep_index [OF assms(2)] by simp_all
  have h: "0 \<le> (n - 3) sdiv 2" "(n - 3) sdiv 2 < n - 3"
    using assms(4) by (simp_all add: signed_divide_int_def)
  have "crs_line (?k ! ix) = pos \<and> 1 \<le> top_line (?k ! ix) \<and> top_line (?k ! ix) \<le> pos \<and>
      pos < top_line (?k ! ix) + n - 3"
    using assms h unfolding k(2) by (auto simp: setkeep_at_def Let_def)
  with k(1) assms(1) show ?thesis by (auto simp: getkeep_def)
qed

theorem getkeep_setkeep_witness:
  "\<exists>ks' i. getkeep (setkeep 24 [] ''b'' 57) ''b'' 9 9 = (ks', i) \<and> crs_line (ks' ! i) = 57 \<and>
    1 \<le> top_line (ks' ! i) \<and> top_line (ks' ! i) \<le> 57 \<and> 57 < top_line (ks' ! i) + 24 - 3"
  by (rule getkeep_setkeep [where kx = "[\<lparr>key = ''b'', top_line = 1, crs_line = 1\<rparr>]" and ix = 0])
    (simp_all add: getkeep_def)

end
