(* ===== verification/ReadMark.thy ===== *)
theory ReadMark
  imports Prelude
begin

text \<open>
  The read marks of src/boards.c.  For the current board the program keeps the times of the
  last articles read, at most \<open>BRC_MAXNUM\<close> of them in decreasing order (\<open>brc_list\<close>,
  \<open>brc_num\<close>), and a cursor into them (\<open>brc_cur\<close>); an article older than all of them counts as
  read.  The marks of all boards are stored one behind the other in the file
  \<open>.boardrc\<close>; \<open>brc_buf\<close> is the buffer it is read into and written from.  An access
  outside a buffer makes the result \<open>None\<close>.
\<close>

section \<open>Definitions\<close>

definition BRC_MAXSIZE :: nat where "BRC_MAXSIZE = 50000"
definition BRC_MAXNUM :: nat where "BRC_MAXNUM = 60"
definition BRC_STRLEN :: nat where "BRC_STRLEN = 20"
definition BRC_ITEMSIZE :: nat where "BRC_ITEMSIZE = BRC_STRLEN + 1 + BRC_MAXNUM * 4"

lemmas brc_consts = BRC_MAXSIZE_def BRC_MAXNUM_def BRC_STRLEN_def BRC_ITEMSIZE_def

text \<open>
  The state: the globals, the user's file (\<open>None\<close> when there is none), whether the user is a
  guest, and what the uninitialised array \<open>tmp_buf\<close> of \<open>brc_update\<close> holds.
\<close>

record brc =
  currboard :: string
  brc_buf :: "char list"
  brc_cur :: nat
  brc_size :: nat
  brc_changed :: bool
  brc_name :: string
  brc_list :: "int list"
  brc_num :: nat
  boardrc :: "char list option"
  guestuser :: bool
  tmp_buf :: "char list"

subsection \<open>The list of one board\<close>

text \<open>The three loops of \<open>brc_locate\<close>; each returns the new cursor and the result.\<close>

function locate_up :: "int list \<Rightarrow> nat \<Rightarrow> int \<Rightarrow> nat \<Rightarrow> nat \<times> bool" where
  "locate_up xs num t cur =
     (if cur < num then
        (if t = xs ! cur then (cur, True)
         else if xs ! cur < t then (cur, False)
         else locate_up xs num t (cur + 1))
      else (cur, False))"
  by pat_completeness auto
termination by (relation "measure (\<lambda>(xs, num, t, cur). num - cur)") auto

fun locate_down :: "int list \<Rightarrow> int \<Rightarrow> nat \<Rightarrow> nat \<times> bool" where
  "locate_down xs t 0 = (0, False)"
| "locate_down xs t (Suc cur) =
     (if t < xs ! cur then (Suc cur, False)
      else if t = xs ! cur then (cur, True)
      else locate_down xs t cur)"

definition brc_locate :: "brc \<Rightarrow> int \<Rightarrow> brc \<times> bool" where
  "brc_locate st t =
     (if brc_num st = 0 then (st\<lparr>brc_cur := 0\<rparr>, False)
      else
        (let cur = (if brc_num st \<le> brc_cur st then brc_num st - 1 else brc_cur st);
             (cur', found) =
               (if t \<le> brc_list st ! cur then locate_up (brc_list st) (brc_num st) t cur
                else locate_down (brc_list st) t cur)
         in (st\<lparr>brc_cur := cur'\<rparr>, found)))"

definition brc_insert :: "brc \<Rightarrow> int \<Rightarrow> brc" where
  "brc_insert st t =
     (let num = (if brc_num st < BRC_MAXNUM then brc_num st + 1 else brc_num st);
          st1 = st\<lparr>brc_num := num\<rparr> in
      if brc_cur st < num then
        st1\<lparr>brc_list := (memmove (brc_list st) (brc_cur st + 1) (brc_cur st) (num - brc_cur st - 1))
                           [brc_cur st := t],
            brc_changed := True\<rparr>
      else st1)"

text \<open>The conversion \<open>(int) filetime\<close>.\<close>

definition to_int :: "int \<Rightarrow> int" where
  "to_int t = (t + 2 ^ 31) mod 2 ^ 32 - 2 ^ 31"

definition brc_unread :: "brc \<Rightarrow> int \<Rightarrow> brc \<times> bool" where
  "brc_unread st filetime =
     (case brc_locate st (to_int filetime) of
        (st1, True) \<Rightarrow> (st1, False)
      | (st1, False) \<Rightarrow> (st1, brc_num st1 = 0 \<or> brc_cur st1 < brc_num st1))"

definition brc_addlist :: "brc \<Rightarrow> int \<Rightarrow> brc" where
  "brc_addlist st filetime =
     (if 0 < filetime then
        (case brc_unread st filetime of
           (st1, u) \<Rightarrow> if u then brc_insert st1 (to_int filetime) else st1)
      else st)"

subsection \<open>Records in memory\<close>

text \<open>An \<open>int\<close> in memory: four bytes, the lowest first.\<close>

definition int_bytes :: "int \<Rightarrow> char list" where
  "int_bytes x =
     (let n = nat (x mod 2 ^ 32) in
      [char_of (n mod 256), char_of (n div 256 mod 256), char_of (n div 65536 mod 256),
       char_of (n div 16777216 mod 256)])"

fun bytes_int :: "char list \<Rightarrow> int" where
  "bytes_int [a, b, c, d] =
     to_int (int (cval a + 256 * cval b + 65536 * cval c + 16777216 * cval d))"
| "bytes_int _ = 0"

fun bytes_ints :: "nat \<Rightarrow> char list \<Rightarrow> int list" where
  "bytes_ints 0 bs = []"
| "bytes_ints (Suc n) bs = bytes_int (take 4 bs) # bytes_ints n (drop 4 bs)"

definition write_bytes :: "char list \<Rightarrow> nat \<Rightarrow> char list \<Rightarrow> char list option" where
  "write_bytes buf off bs =
     (if off + length bs \<le> length buf
      then Some (take off buf @ bs @ drop (off + length bs) buf) else None)"

text \<open>
  \<open>brc_getrecord\<close> at an offset of a buffer: the offset behind the record, the name, and the
  list with its first entries overwritten.
\<close>

definition brc_getrecord ::
  "char list \<Rightarrow> nat \<Rightarrow> int list \<Rightarrow> (nat \<times> string \<times> nat \<times> int list) option" where
  "brc_getrecord buf ptr xs =
     (if ptr + BRC_STRLEN < length buf then
        (let name = take (BRC_STRLEN - 1) (cstr (drop ptr buf));
             num0 = cval (buf ! (ptr + BRC_STRLEN));
             p = ptr + BRC_STRLEN + 1;
             num = (if BRC_MAXNUM < num0 then BRC_MAXNUM else num0)
         in if p + num * 4 \<le> length buf
            then Some (p + num0 * 4, name, num, bytes_ints num (drop p buf) @ drop num xs)
            else None)
      else None)"

definition brc_putrecord ::
  "char list \<Rightarrow> nat \<Rightarrow> string \<Rightarrow> nat \<Rightarrow> int list \<Rightarrow> (char list \<times> nat) option" where
  "brc_putrecord buf ptr name num0 xs =
     (if 0 < num0 then
        (let num = (if BRC_MAXNUM < num0 then BRC_MAXNUM else num0) in
         case write_bytes buf ptr (take (BRC_STRLEN - 1) name @ [NUL]) of
           None \<Rightarrow> None
         | Some buf1 \<Rightarrow>
             (case write_bytes buf1 (ptr + BRC_STRLEN) [char_of num] of
                None \<Rightarrow> None
              | Some buf2 \<Rightarrow>
                  (case write_bytes buf2 (ptr + BRC_STRLEN + 1) (concat (map int_bytes (take num xs))) of
                     None \<Rightarrow> None
                   | Some buf3 \<Rightarrow> Some (buf3, ptr + BRC_STRLEN + 1 + num * 4))))
      else Some (buf, ptr))"

text \<open>The test that a record starts at \<open>*p\<close>, a plain \<open>char\<close>.\<close>

definition record_start :: "char \<Rightarrow> bool" where
  "record_start c \<longleftrightarrow> 32 \<le> csval c \<and> csval c \<le> 122"

definition same_board :: "string \<Rightarrow> string \<Rightarrow> bool" where
  "same_board s t \<longleftrightarrow> take BRC_STRLEN s = take BRC_STRLEN t"

lemma getrecord_progress: "brc_getrecord buf ptr xs = Some (p, r) \<Longrightarrow> ptr + 21 \<le> p"
  by (auto simp: brc_getrecord_def Let_def brc_consts split: if_splits)

subsection \<open>Saving and loading\<close>

text \<open>The copying loop of \<open>brc_update\<close>; \<open>tmp\<close> is the offset in \<open>tbuf\<close>, \<open>ptr\<close> the one in \<open>buf\<close>.\<close>

function update_loop ::
  "string \<Rightarrow> char list \<Rightarrow> nat \<Rightarrow> nat \<Rightarrow> int list \<Rightarrow> char list \<Rightarrow> nat \<Rightarrow> (char list \<times> nat) option" where
  "update_loop board tbuf tsize tmp xs buf ptr =
     (if tmp < tsize \<and> record_start (tbuf ! tmp) then
        (case brc_getrecord tbuf tmp xs of
           None \<Rightarrow> None
         | Some (tmp', name, num, ys) \<Rightarrow>
             if \<not> same_board name board then
               (case brc_putrecord buf ptr name num ys of
                  None \<Rightarrow> None
                | Some (buf', ptr') \<Rightarrow> update_loop board tbuf tsize tmp' ys buf' ptr')
             else update_loop board tbuf tsize tmp' ys buf ptr)
      else Some (buf, ptr))"
  by pat_completeness auto
termination
  by (relation "measure (\<lambda>(b, tb, ts, tmp, xs, buf, ptr). ts - tmp)") (auto dest!: getrecord_progress)

text \<open>
  \<open>tmp_list\<close> starts with whatever is on the stack, but only entries already overwritten are
  read.  The file is assumed to be writable.
\<close>

definition brc_update :: "brc \<Rightarrow> brc option" where
  "brc_update st =
     (if \<not> brc_changed st \<or> guestuser st then Some st
      else
        (case (if 0 < brc_num st
               then brc_putrecord (brc_buf st) 0 (brc_name st) (brc_num st) (brc_list st)
               else Some (brc_buf st, 0)) of
           None \<Rightarrow> None
         | Some (buf1, ptr1) \<Rightarrow>
             (let data = (case boardrc st of
                            None \<Rightarrow> []
                          | Some f \<Rightarrow> take (BRC_MAXSIZE - BRC_ITEMSIZE) f);
                  tbuf = data @ drop (length data) (tmp_buf st)
              in case update_loop (currboard st) tbuf (length data) 0 [] buf1 ptr1 of
                   None \<Rightarrow> None
                 | Some (buf2, ptr2) \<Rightarrow>
                     Some (st\<lparr>brc_buf := buf2, brc_size := ptr2, boardrc := Some (take ptr2 buf2),
                             brc_changed := False\<rparr>))))"

text \<open>The search of \<open>brc_initial\<close>: \<open>None\<close> in the middle when no record is of the board.\<close>

function initial_loop ::
  "string \<Rightarrow> char list \<Rightarrow> nat \<Rightarrow> nat \<Rightarrow> int list \<Rightarrow> ((string \<times> nat) option \<times> int list) option" where
  "initial_loop board buf bsize ptr xs =
     (if ptr < bsize \<and> record_start (buf ! ptr) then
        (case brc_getrecord buf ptr xs of
           None \<Rightarrow> None
         | Some (ptr', name, num, ys) \<Rightarrow>
             if same_board name board then Some (Some (name, num), ys)
             else initial_loop board buf bsize ptr' ys)
      else Some (None, xs))"
  by pat_completeness auto
termination
  by (relation "measure (\<lambda>(b, buf, bs, ptr, xs). bs - ptr)") (auto dest!: getrecord_progress)

definition brc_initial :: "brc \<Rightarrow> string \<Rightarrow> (brc \<times> nat) option" where
  "brc_initial st boardname =
     (if currboard st = boardname then Some (st, brc_num st)
      else
        (case brc_update st of
           None \<Rightarrow> None
         | Some st1 \<Rightarrow>
             (let st2 = st1\<lparr>currboard := boardname, brc_changed := False\<rparr>;
                  st3 = (if brc_buf st2 ! 0 = NUL then
                           (case boardrc st2 of
                              None \<Rightarrow> st2\<lparr>brc_size := 0\<rparr>
                            | Some f \<Rightarrow>
                                (let d = take BRC_MAXSIZE f in
                                 st2\<lparr>brc_buf := d @ drop (length d) (brc_buf st2), brc_size := length d\<rparr>))
                         else st2)
              in case initial_loop boardname (brc_buf st3) (brc_size st3) 0 (brc_list st3) of
                   None \<Rightarrow> None
                 | Some (Some (name, num), xs) \<Rightarrow>
                     Some (st3\<lparr>brc_cur := 0, brc_name := name, brc_num := num, brc_list := xs\<rparr>, num)
                 | Some (None, xs) \<Rightarrow>
                     Some (st3\<lparr>brc_cur := 0, brc_name := take (BRC_STRLEN - 1) boardname,
                              brc_list := xs[0 := 1], brc_num := 1\<rparr>, 0))))"

text \<open>\<open>new_flag_clearall\<close> at the time \<open>now\<close>, for a board with that name.\<close>

definition new_flag_clearall :: "brc \<Rightarrow> string \<Rightarrow> int \<Rightarrow> brc option" where
  "new_flag_clearall st name now =
     (if name = [] then Some st
      else
        (case brc_initial st name of
           None \<Rightarrow> None
         | Some (st1, r) \<Rightarrow>
             brc_update (st1\<lparr>brc_num := 1, brc_cur := 0, brc_list := (brc_list st1)[0 := to_int now],
                             brc_changed := True\<rparr>)))"

subsection \<open>Unread articles\<close>

text \<open>\<open>check_newpost\<close>: the total and the mark of the board, and the result.\<close>

definition check_newpost ::
  "(string \<Rightarrow> (int \<times> int) option) \<Rightarrow> brc \<Rightarrow> string \<Rightarrow> (brc \<times> int \<times> bool \<times> int) option" where
  "check_newpost getbcache st name =
     (case getbcache name of
        None \<Rightarrow> Some (st, 0, False, 0)
      | Some (entries, lastpost) \<Rightarrow>
          (case brc_initial st name of
             None \<Rightarrow> None
           | Some (st1, 0) \<Rightarrow> Some (st1, entries, True, 1)
           | Some (st1, Suc n) \<Rightarrow>
               (case brc_unread st1 lastpost of (st2, u) \<Rightarrow> Some (st2, entries, u, 1))))"

text \<open>The two loops of \<open>unread_position\<close> over the times of the articles in the file.\<close>

definition read_time :: "int list \<Rightarrow> int \<Rightarrow> int option" where
  "read_time stamps num = (if 0 \<le> num \<and> num < int (length stamps) then Some (stamps ! nat num) else None)"

function skip_back :: "int list \<Rightarrow> brc \<Rightarrow> int \<Rightarrow> int \<Rightarrow> brc \<times> int" where
  "skip_back stamps st num step =
     (if 0 < num \<and> 0 < step then
        (case read_time stamps num of
           None \<Rightarrow> (st, num)
         | Some t \<Rightarrow>
             (case brc_unread st t of
                (st1, u) \<Rightarrow>
                  if \<not> u then (st1, num)
                  else skip_back stamps st1 (num - step) (if step < 32 then step + step div 2 else step)))
      else (st, num))"
  by pat_completeness auto
termination by (relation "measure (\<lambda>(ts, st, num, step). nat num)") auto

function skip_read :: "int list \<Rightarrow> brc \<Rightarrow> int \<Rightarrow> int \<Rightarrow> brc \<times> int" where
  "skip_read stamps st num entries =
     (if num < entries then
        (case read_time stamps num of
           None \<Rightarrow> (st, num)
         | Some t \<Rightarrow>
             (case brc_unread st t of
                (st1, u) \<Rightarrow> if u then (st1, num) else skip_read stamps st1 (num + 1) entries))
      else (st, num))"
  by pat_completeness auto
termination by (relation "measure (\<lambda>(ts, st, num, n). nat (n - num))") auto

definition unread_position :: "int list option \<Rightarrow> brc \<Rightarrow> string \<Rightarrow> int \<Rightarrow> (brc \<times> int) option" where
  "unread_position dirfile st name entries =
     (case dirfile of
        None \<Rightarrow> Some (st, if entries + 1 < 0 then 0 else entries + 1)
      | Some stamps \<Rightarrow>
          (case brc_initial st name of
             None \<Rightarrow> None
           | Some (st1, 0) \<Rightarrow> Some (st1, 1)
           | Some (st1, Suc n) \<Rightarrow>
               (case skip_back stamps st1 (entries - 1) 4 of
                  (st2, num) \<Rightarrow>
                    (case skip_read stamps st2 (if num < 0 then 0 else num) entries of
                       (st3, r) \<Rightarrow> Some (st3, if r < 0 then 0 else r)))))"

declare locate_up.simps [simp del] update_loop.simps [simp del] initial_loop.simps [simp del]
declare skip_back.simps [simp del] skip_read.simps [simp del]

section \<open>The list of one board\<close>

text \<open>The marks of the current board, and the invariant of the list: decreasing, and in bounds.\<close>

definition marks :: "brc \<Rightarrow> int list" where
  "marks st = take (brc_num st) (brc_list st)"

definition brc_ok :: "brc \<Rightarrow> bool" where
  "brc_ok st \<longleftrightarrow> length (brc_list st) = BRC_MAXNUM \<and> brc_num st \<le> BRC_MAXNUM \<and>
     sorted_wrt (>) (marks st)"

text \<open>\<open>cur\<close> is where \<open>t\<close> is in the decreasing list \<open>xs\<close>, or where it belongs.\<close>

definition located :: "int list \<Rightarrow> int \<Rightarrow> nat \<Rightarrow> bool \<Rightarrow> bool" where
  "located xs t cur found \<longleftrightarrow>
     cur \<le> length xs \<and> (\<forall>i < cur. t < xs ! i) \<and>
     (if found then cur < length xs \<and> xs ! cur = t
      else \<forall>i. cur \<le> i \<and> i < length xs \<longrightarrow> xs ! i < t)"

lemma desc_nth: "sorted_wrt (>) xs \<Longrightarrow> i < j \<Longrightarrow> j < length xs \<Longrightarrow> (xs :: int list) ! j < xs ! i"
  by (simp add: sorted_wrt_iff_nth_less)

lemma desc_le: "sorted_wrt (>) xs \<Longrightarrow> i \<le> j \<Longrightarrow> j < length xs \<Longrightarrow> (xs :: int list) ! j \<le> xs ! i"
  using desc_nth [of xs i j] by (cases "i = j") auto

lemma locate_up_located:
  "sorted_wrt (>) (take num xs) \<Longrightarrow> num \<le> length xs \<Longrightarrow> cur \<le> num \<Longrightarrow> \<forall>i < cur. t < xs ! i \<Longrightarrow>
     located (take num xs) t (fst (locate_up xs num t cur)) (snd (locate_up xs num t cur))"
proof (induction xs num t cur rule: locate_up.induct)
  case (1 xs num t cur)
  show ?case
  proof (cases "cur < num \<and> t < xs ! cur")
    case True
    then have "locate_up xs num t cur = locate_up xs num t (cur + 1)"
      by (simp add: locate_up.simps [of xs num t cur])
    with 1 True show ?thesis by (simp add: less_Suc_eq)
  next
    case False
    have "xs ! i \<le> xs ! cur" if "cur \<le> i" "i < num" for i
      using desc_le [OF "1.prems"(1), of cur i] that "1.prems" by simp
    with False "1.prems" show ?thesis
      by (auto simp: locate_up.simps [of xs num t cur] located_def) fastforce
  qed
qed

lemma locate_down_located:
  "sorted_wrt (>) (take num xs) \<Longrightarrow> num \<le> length xs \<Longrightarrow> cur \<le> num \<Longrightarrow>
     \<forall>i. cur \<le> i \<and> i < num \<longrightarrow> xs ! i < t \<Longrightarrow>
     located (take num xs) t (fst (locate_down xs t cur)) (snd (locate_down xs t cur))"
proof (induction xs t cur rule: locate_down.induct)
  case (1 xs t)
  then show ?case by (auto simp: located_def)
next
  case (2 xs t cur)
  have le: "xs ! cur \<le> xs ! i" if "i \<le> cur" for i
    using desc_le [OF "2.prems"(1), of i cur] that "2.prems" by simp
  have lt: "xs ! cur < xs ! i" if "i < cur" for i
    using desc_nth [OF "2.prems"(1), of i cur] that "2.prems" by simp
  consider "t < xs ! cur" | "t = xs ! cur" | "xs ! cur < t" by linarith
  then show ?case
  proof cases
    case 1
    with "2.prems" le show ?thesis by (auto simp: located_def less_Suc_eq_le) (metis order.strict_trans2)
  next
    case 2
    with "2.prems" lt show ?thesis by (auto simp: located_def)
  next
    case 3
    then have all: "\<forall>i. cur \<le> i \<and> i < num \<longrightarrow> xs ! i < t"
      using "2.prems"(4) by (metis Suc_leI le_neq_implies_less)
    have "\<not> t < xs ! cur" "t \<noteq> xs ! cur" using 3 by simp_all
    note ih = "2.IH" [OF this "2.prems"(1,2)]
    have "located (take num xs) t (fst (locate_down xs t cur)) (snd (locate_down xs t cur))"
      by (rule ih) (use "2.prems"(3) all in simp_all)
    moreover have "locate_down xs t (Suc cur) = locate_down xs t cur" using 3 by simp
    ultimately show ?thesis by (simp only:)
  qed
qed

lemma brc_locate_located:
  assumes ok: "brc_ok st"
  shows "\<exists>cur found. brc_locate st t = (st\<lparr>brc_cur := cur\<rparr>, found) \<and> located (marks st) t cur found"
proof (cases "brc_num st = 0")
  case True
  then show ?thesis
    by (intro exI [of _ 0] exI [of _ False]) (simp add: brc_locate_def located_def marks_def)
next
  case False
  let ?xs = "brc_list st" and ?n = "brc_num st"
  let ?c = "if ?n \<le> brc_cur st then ?n - 1 else brc_cur st"
  have s: "sorted_wrt (>) (take ?n ?xs)" "?n \<le> length ?xs" and c: "?c < ?n"
    using ok False by (auto simp: brc_ok_def marks_def)
  show ?thesis
  proof (cases "t \<le> ?xs ! ?c")
    case True
    have "t < ?xs ! i" if "i < ?c" for i
      using desc_nth [OF s(1), of i ?c] that c s(2) True by auto
    with locate_up_located [OF s, of ?c t] c True False show ?thesis
      unfolding brc_locate_def marks_def by (auto simp: Let_def split: prod.splits)
  next
    case gt: False
    have "?xs ! i < t" if "?c \<le> i" "i < ?n" for i
      using desc_le [OF s(1) that(1)] that s(2) gt by auto
    with locate_down_located [OF s, of ?c t] c gt False show ?thesis
      unfolding brc_locate_def marks_def by (auto simp: Let_def split: prod.splits)
  qed
qed

lemma located_unique:
  "sorted_wrt (>) xs \<Longrightarrow> located xs t cur found \<Longrightarrow> found \<longleftrightarrow> t \<in> set xs"
  unfolding located_def in_set_conv_nth
  by (metis (no_types, lifting) less_irrefl not_le)

text \<open>An article is unread when it is not marked and not older than every mark.\<close>

definition is_unread :: "int list \<Rightarrow> int \<Rightarrow> bool" where
  "is_unread xs t \<longleftrightarrow> t \<notin> set xs \<and> (xs = [] \<or> last xs < t)"

lemma located_unread:
  assumes s: "sorted_wrt (>) xs" and l: "located xs t cur found"
  shows "is_unread xs t \<longleftrightarrow> \<not> found \<and> (xs = [] \<or> cur < length xs)"
proof -
  have f: "found \<longleftrightarrow> t \<in> set xs" by (rule located_unique [OF s l])
  show ?thesis
  proof (cases "found \<or> xs = []")
    case True
    with f show ?thesis by (auto simp: is_unread_def)
  next
    case False
    then have n: "length xs - 1 < length xs" by simp
    have "last xs < t \<longleftrightarrow> cur < length xs"
    proof
      assume "cur < length xs"
      with l False n show "last xs < t" unfolding located_def by (auto simp: last_conv_nth)
    next
      assume "last xs < t"
      then have "\<not> t < xs ! (length xs - 1)" using False by (simp add: last_conv_nth)
      with l have "\<not> length xs - 1 < cur" unfolding located_def by blast
      with n show "cur < length xs" by linarith
    qed
    with f False show ?thesis by (simp add: is_unread_def)
  qed
qed

lemma brc_unread_spec:
  assumes ok: "brc_ok st"
  shows "\<exists>cur. brc_unread st t = (st\<lparr>brc_cur := cur\<rparr>, is_unread (marks st) (to_int t)) \<and>
    located (marks st) (to_int t) cur (to_int t \<in> set (marks st))"
proof -
  obtain cur found where l: "brc_locate st (to_int t) = (st\<lparr>brc_cur := cur\<rparr>, found)"
    "located (marks st) (to_int t) cur found" using brc_locate_located [OF ok] by blast
  have s: "sorted_wrt (>) (marks st)" using ok by (simp add: brc_ok_def)
  have n: "length (marks st) = brc_num st" using ok by (simp add: brc_ok_def marks_def)
  have "marks st = [] \<longleftrightarrow> brc_num st = 0" using n by (metis length_0_conv)
  with located_unread [OF s l(2)] located_unique [OF s l(2)] l n show ?thesis
    by (auto simp: brc_unread_def split: bool.splits)
qed

text \<open>Inserting a time where \<open>brc_locate\<close> left the cursor; the oldest mark of a full list goes.\<close>

lemma insert_desc:
  assumes s: "sorted_wrt (>) xs" and l: "located xs (t :: int) cur False"
  shows "sorted_wrt (>) (insert_nth cur t xs)"
proof -
  have c: "cur \<le> length xs" "\<forall>i < cur. t < xs ! i" "\<forall>i. cur \<le> i \<and> i < length xs \<longrightarrow> xs ! i < t"
    using l by (simp_all add: located_def)
  have "\<forall>x \<in> set (take cur xs). t < x" using c by (auto simp: in_set_conv_nth)
  moreover have "\<forall>x \<in> set (drop cur xs). x < t"
    using c by (auto simp: in_set_conv_nth)
  moreover have "sorted_wrt (>) (take cur xs @ drop cur xs)" using s by simp
  ultimately show ?thesis
    unfolding insert_nth_def sorted_wrt_append by (auto intro: less_trans)
qed

lemma sorted_wrt_take: "sorted_wrt P xs \<Longrightarrow> sorted_wrt P (take n xs)"
  by (metis append_take_drop_id sorted_wrt_append)

lemma take_prefix: "length a = n \<Longrightarrow> take n (a @ b) = a"
  by simp

lemma brc_insert_marks:
  assumes ok: "brc_ok st" and c: "brc_cur st \<le> brc_num st"
  shows "marks (brc_insert st t) = take BRC_MAXNUM (insert_nth (brc_cur st) t (marks st))"
    "length (brc_list (brc_insert st t)) = BRC_MAXNUM" "brc_num (brc_insert st t) \<le> BRC_MAXNUM"
proof -
  let ?xs = "brc_list st" and ?n = "brc_num st" and ?c = "brc_cur st"
  have len: "length ?xs = BRC_MAXNUM" "?n \<le> BRC_MAXNUM" using ok by (auto simp: brc_ok_def)
  let ?num = "if ?n < BRC_MAXNUM then ?n + 1 else ?n"
  have num: "?num \<le> BRC_MAXNUM" using len by auto
  show "marks (brc_insert st t) = take BRC_MAXNUM (insert_nth ?c t (marks st))"
  proof (cases "?c < ?num")
    case False
    with len c have "?n = BRC_MAXNUM" "?c = BRC_MAXNUM" by (auto split: if_splits)
    with len show ?thesis by (simp add: brc_insert_def marks_def insert_nth_def)
  next
    case True
    have "(memmove ?xs (?c + 1) ?c (?num - ?c - 1)) [?c := t] =
        take ?c ?xs @ t # take (?num - ?c - 1) (drop ?c ?xs) @ drop ?num ?xs"
      using True num len by (simp add: memmove_def list_update_append upd_conv_take_nth_drop min_def)
    then have "(memmove ?xs (?c + 1) ?c (?num - ?c - 1)) [?c := t] =
        (take ?c ?xs @ t # take (?num - ?c - 1) (drop ?c ?xs)) @ drop ?num ?xs" by simp
    moreover have "length (take ?c ?xs @ t # take (?num - ?c - 1) (drop ?c ?xs)) = ?num"
      using True num len by auto
    ultimately have "take ?num ((memmove ?xs (?c + 1) ?c (?num - ?c - 1)) [?c := t]) =
        take ?c ?xs @ t # take (?num - ?c - 1) (drop ?c ?xs)"
      by (simp only: take_prefix)
    also have "\<dots> = take BRC_MAXNUM (insert_nth ?c t (take ?n ?xs))"
    proof (cases "?n < BRC_MAXNUM")
      case True
      with c len show ?thesis by (simp add: insert_nth_def drop_take min_def)
    next
      case False
      with len \<open>?c < ?num\<close> show ?thesis by (simp add: insert_nth_def drop_take min_def take_Cons')
    qed
    finally show ?thesis using True by (simp add: brc_insert_def marks_def Let_def)
  qed
  show "length (brc_list (brc_insert st t)) = BRC_MAXNUM"
    using len num by (auto simp: brc_insert_def Let_def)
  show "brc_num (brc_insert st t) \<le> BRC_MAXNUM" using num by (simp add: brc_insert_def Let_def)
qed

lemma brc_insert_ok:
  assumes ok: "brc_ok st" and l: "located (marks st) t (brc_cur st) False"
  shows "brc_ok (brc_insert st t)"
proof -
  have c: "brc_cur st \<le> brc_num st" using l ok by (simp add: located_def marks_def brc_ok_def)
  have "sorted_wrt (>) (insert_nth (brc_cur st) t (marks st))"
    using ok l by (intro insert_desc) (simp_all add: brc_ok_def)
  with brc_insert_marks [OF ok c] show ?thesis by (simp add: brc_ok_def sorted_wrt_take)
qed

lemma located_filter:
  assumes l: "located xs t cur False"
  shows "length (filter (\<lambda>x. t < x) xs) = cur"
proof -
  have "filter (\<lambda>x. t < x) (take cur xs) = take cur xs"
    using l by (intro filter_True) (auto simp: located_def in_set_conv_nth)
  moreover have "filter (\<lambda>x. t < x) (drop cur xs) = []"
  proof (rule filter_False, rule ballI)
    fix x assume "x \<in> set (drop cur xs)"
    then obtain i where "i < length xs - cur" "x = xs ! (cur + i)" by (auto simp: in_set_conv_nth)
    with l show "\<not> t < x" by (simp add: located_def not_less less_imp_le)
  qed
  ultimately have "filter (\<lambda>x. t < x) xs = take cur xs"
    by (metis append_Nil2 append_take_drop_id filter_append)
  with l show ?thesis by (simp add: located_def)
qed

lemma brc_addlist_spec:
  assumes ok: "brc_ok st" and t: "0 < t"
  shows "brc_ok (brc_addlist st t)"
    "marks (brc_addlist st t) =
      (if is_unread (marks st) (to_int t)
       then take BRC_MAXNUM (insert_nth (length (filter (\<lambda>x. to_int t < x) (marks st))) (to_int t) (marks st))
       else marks st)"
proof -
  obtain cur where u: "brc_unread st t = (st\<lparr>brc_cur := cur\<rparr>, is_unread (marks st) (to_int t))"
    and l: "located (marks st) (to_int t) cur (to_int t \<in> set (marks st))"
    using brc_unread_spec [OF ok] by blast
  let ?st = "st\<lparr>brc_cur := cur\<rparr>"
  have m: "marks ?st = marks st" and ok1: "brc_ok ?st" using ok by (simp_all add: marks_def brc_ok_def)
  have "brc_ok (brc_addlist st t) \<and> marks (brc_addlist st t) =
      (if is_unread (marks st) (to_int t)
       then take BRC_MAXNUM (insert_nth (length (filter (\<lambda>x. to_int t < x) (marks st))) (to_int t) (marks st))
       else marks st)"
  proof (cases "is_unread (marks st) (to_int t)")
    case True
    then have l': "located (marks st) (to_int t) cur False" using l by (simp add: is_unread_def)
    then have l1: "located (marks ?st) (to_int t) (brc_cur ?st) False" by (simp add: m)
    have c: "brc_cur ?st \<le> brc_num ?st" using l' ok by (simp add: located_def marks_def brc_ok_def)
    have "length (filter (\<lambda>x. to_int t < x) (marks st)) = cur" by (rule located_filter [OF l'])
    with brc_insert_ok [OF ok1 l1] brc_insert_marks(1) [OF ok1 c] u t True m show ?thesis
      by (simp add: brc_addlist_def)
  next
    case False
    with u t m ok1 show ?thesis by (simp add: brc_addlist_def)
  qed
  then show "brc_ok (brc_addlist st t)" "marks (brc_addlist st t) =
      (if is_unread (marks st) (to_int t)
       then take BRC_MAXNUM (insert_nth (length (filter (\<lambda>x. to_int t < x) (marks st))) (to_int t) (marks st))
       else marks st)" by blast+
qed

text \<open>Once marked, an article stays read, whatever is marked later.\<close>

lemma desc_last_le: "sorted_wrt (>) xs \<Longrightarrow> x \<in> set xs \<Longrightarrow> last xs \<le> (x :: int)"
proof -
  assume s: "sorted_wrt (>) xs" and x: "x \<in> set xs"
  then obtain i where i: "i < length xs" "x = xs ! i" by (auto simp: in_set_conv_nth)
  then have "last xs = xs ! (length xs - 1)" by (intro last_conv_nth) auto
  with desc_le [OF s, of i "length xs - 1"] i show ?thesis by simp
qed

lemma is_unread_insert:
  assumes s: "sorted_wrt (>) xs" and l: "located xs t cur False" and n: "0 < n" and le: "length xs \<le> n"
    and t: "xs = [] \<or> last xs < t" and y: "\<not> is_unread xs y"
  shows "\<not> is_unread (take n (insert_nth cur t xs)) y"
proof -
  let ?ys = "insert_nth cur t xs"
  have c: "cur \<le> length xs" using l by (simp add: located_def)
  have d: "sorted_wrt (>) ?ys" by (rule insert_desc [OF s l])
  have set: "set ?ys = insert t (set xs)"
    unfolding insert_nth_def by (metis append_take_drop_id set_append list.set(2) Un_insert_right)
  have "?ys \<noteq> []" by (simp add: insert_nth_def)
  with n have ne: "take n ?ys \<noteq> []" by simp
  have dt: "sorted_wrt (>) (take n ?ys)" by (rule sorted_wrt_take [OF d])
  show ?thesis
  proof
    assume u: "is_unread (take n ?ys) y"
    then have y1: "y \<notin> set (take n ?ys)" "last (take n ?ys) < y" using ne by (auto simp: is_unread_def)
    show False
    proof (cases "y \<in> set xs")
      case True
      then have "y \<in> set ?ys" using set by simp
      then obtain i where i: "i < length ?ys" "?ys ! i = y" by (auto simp: in_set_conv_nth)
      with y1(1) have "n \<le> i" by (metis in_set_conv_nth length_take min_less_iff_conj not_le nth_take)
      then have "?ys ! i < ?ys ! (n - 1)" using desc_nth [OF d, of "n - 1" i] i n by simp
      moreover have "last (take n ?ys) = ?ys ! (n - 1)"
        using ne \<open>n \<le> i\<close> i n by (simp add: last_conv_nth min_def)
      ultimately show False using y1(2) i by simp
    next
      case False
      with y have xs: "xs \<noteq> []" "y \<le> last xs" by (auto simp: is_unread_def)
      have "last (take n ?ys) \<in> set ?ys" using ne by (meson in_set_takeD last_in_set)
      show False
      proof (cases "length ?ys \<le> n")
        case True
        have "xs ! (length xs - 1) < t" using t xs by (simp add: last_conv_nth)
        moreover have "t < xs ! (length xs - 1)" if "\<not> cur < length xs"
          using l that xs c by (auto simp: located_def)
        ultimately have "cur < length xs" by fastforce
        then have "last ?ys = last xs" by (simp add: insert_nth_def)
        with True y1(2) xs show False by simp
      next
        case False
        then have ln: "n = length xs" using le c by simp
        have "?ys ! n = (if cur = length xs then t else last xs)"
          using c xs ln by (auto simp: insert_nth_def nth_append nth_Cons' last_conv_nth min_def)
        moreover have "?ys ! n < ?ys ! (n - 1)" using desc_nth [OF d, of "n - 1" n] n False by simp
        moreover have "last (take n ?ys) = ?ys ! (n - 1)"
          using ne False n by (simp add: last_conv_nth min_def)
        moreover have "?ys ! (n - 1) = last xs" if "cur = length xs"
          using that xs ln n by (simp add: insert_nth_def nth_append last_conv_nth)
        ultimately show False using y1(2) xs by (auto split: if_splits)
      qed
    qed
  qed
qed

lemma brc_addlist_keeps_read:
  assumes ok: "brc_ok st" and t: "0 < t" and y: "\<not> is_unread (marks st) y"
  shows "\<not> is_unread (marks (brc_addlist st t)) y"
proof (cases "is_unread (marks st) (to_int t)")
  case False
  with brc_addlist_spec(2) [OF ok t] y show ?thesis by simp
next
  case True
  have s: "sorted_wrt (>) (marks st)" using ok by (simp add: brc_ok_def)
  obtain cur where l: "located (marks st) (to_int t) cur False"
    using brc_unread_spec [OF ok, of t] True by (auto simp: is_unread_def)
  have "length (filter (\<lambda>x. to_int t < x) (marks st)) = cur" by (rule located_filter [OF l])
  then show ?thesis
    using is_unread_insert [OF s l, of BRC_MAXNUM y] y brc_addlist_spec(2) [OF ok t] True ok
    by (auto simp: brc_ok_def marks_def BRC_MAXNUM_def is_unread_def)
qed

section \<open>Records in memory\<close>

definition int_range :: "int \<Rightarrow> bool" where
  "int_range x \<longleftrightarrow> - (2 ^ 31) \<le> x \<and> x < 2 ^ 31"

lemma to_int_id [simp]: "int_range x \<Longrightarrow> to_int x = x"
  by (simp add: int_range_def to_int_def)

lemma int_range_to_int [simp]: "int_range (to_int x)"
  using pos_mod_bound [of "2 ^ 32" "x + 2 ^ 31"] pos_mod_sign [of "2 ^ 32" "x + 2 ^ 31"]
  by (simp add: int_range_def to_int_def)

lemma length_int_bytes [simp]: "length (int_bytes x) = 4"
  by (simp add: int_bytes_def Let_def)

lemma split_bytes:
  fixes n :: nat
  assumes "n < 4294967296"
  shows "n mod 256 + 256 * (n div 256 mod 256) + 65536 * (n div 65536 mod 256) + 16777216 * (n div 16777216 mod 256) = n"
proof -
  have d: "n div 65536 = n div 256 div 256" "n div 16777216 = n div 256 div 256 div 256"
    by (simp_all add: div_mult2_eq [symmetric])
  let ?a = "n div 256" and ?b = "n div 256 div 256" and ?c = "n div 256 div 256 div 256"
  have "?c < 256" using assms d(2) by simp
  then have "?b = ?b mod 256 + 256 * (?c mod 256)" by simp
  moreover have "?a = ?a mod 256 + 256 * ?b" "n = n mod 256 + 256 * ?a" by simp_all
  ultimately show ?thesis unfolding d by linarith
qed

lemma cval_char_of_mod: "cval (char_of n) = n mod 256"
  by (simp add: cval_def)

lemma to_int_mod: "to_int (x mod 2 ^ 32) = to_int x"
  by (simp add: to_int_def mod_add_left_eq)

lemma bytes_int_bytes: "int_range x \<Longrightarrow> bytes_int (int_bytes x) = x"
proof -
  assume r: "int_range x"
  let ?n = "nat (x mod 2 ^ 32)"
  have n: "?n < 4294967296" using pos_mod_bound [of "2 ^ 32" x] by simp
  have "int ?n = x mod 2 ^ 32" by simp
  have "bytes_int (int_bytes x) = to_int (int (?n mod 256 + 256 * (?n div 256 mod 256) +
      65536 * (?n div 65536 mod 256) + 16777216 * (?n div 16777216 mod 256)))"
    by (simp add: int_bytes_def Let_def cval_char_of_mod)
  also have "\<dots> = to_int (int ?n)" using split_bytes [OF n] by (rule arg_cong)
  also have "\<dots> = to_int x" using to_int_mod [of x] by simp
  finally show ?thesis using r by simp
qed

lemma bytes_ints_concat:
  "\<forall>x \<in> set xs. int_range x \<Longrightarrow> bytes_ints (length xs) (concat (map int_bytes xs) @ zs) = xs"
  by (induction xs) (auto simp: bytes_int_bytes)

lemma length_bytes_ints [simp]: "length (bytes_ints n bs) = n"
  by (induction n bs rule: bytes_ints.induct) auto

lemma bytes_int_range: "int_range (bytes_int bs)"
  by (cases bs rule: bytes_int.cases) (auto simp: int_range_def [of 0])

lemma bytes_ints_range: "\<forall>x \<in> set (bytes_ints n bs). int_range x"
  by (induction n bs rule: bytes_ints.induct) (auto simp: bytes_int_range)

text \<open>A name that fits a record.\<close>

definition name_ok :: "string \<Rightarrow> bool" where
  "name_ok s \<longleftrightarrow> is_cstr s \<and> length s < BRC_STRLEN"

lemma length_concat_int_bytes [simp]: "length (concat (map int_bytes xs)) = 4 * length xs"
  by (induction xs) auto

text \<open>The bytes of a record, with \<open>pad\<close> for what is left behind the name.\<close>

definition record_bytes :: "string \<Rightarrow> char list \<Rightarrow> int list \<Rightarrow> char list" where
  "record_bytes name pad xs = name @ NUL # pad @ char_of (length xs) # concat (map int_bytes xs)"

lemma write_bytes_at:
  "length a = ptr \<Longrightarrow> length b = length bs \<Longrightarrow> write_bytes (a @ b @ c) ptr bs = Some (a @ bs @ c)"
  by (simp add: write_bytes_def)

lemma putrecord_bytes:
  assumes n: "name_ok name" and num: "0 < num" "num \<le> BRC_MAXNUM" "num \<le> length xs"
    and fits: "ptr + 21 + num * 4 \<le> length buf"
  shows "\<exists>pad. length pad + length name = 19 \<and>
    brc_putrecord buf ptr name num xs =
      Some (take ptr buf @ record_bytes name pad (take num xs) @ drop (ptr + 21 + num * 4) buf, ptr + 21 + num * 4)"
proof -
  let ?l = "length name"
  have l: "?l < 20" using n by (simp add: name_ok_def BRC_STRLEN_def)
  let ?a = "take ptr buf" and ?pad = "take (19 - ?l) (drop (ptr + ?l + 1) buf)"
    and ?rest = "drop (ptr + 21 + num * 4) buf"
  have la: "length ?a = ptr" and lp: "length ?pad = 19 - ?l" using fits l by auto
  have b1: "write_bytes buf ptr (name @ [NUL]) = Some (?a @ (name @ [NUL]) @ drop (ptr + (?l + 1)) buf)"
    using fits l by (simp add: write_bytes_def)
  have d: "drop (ptr + (?l + 1)) buf = ?pad @ drop (ptr + 20) buf"
  proof -
    have "drop (ptr + (?l + 1)) buf = ?pad @ drop (19 - ?l) (drop (ptr + ?l + 1) buf)"
      by (simp only: append_take_drop_id add.assoc)
    then show ?thesis using l by (simp add: add.commute)
  qed
  have l20: "length (?a @ (name @ [NUL]) @ ?pad) = ptr + 20" using la lp l by simp
  have d20: "drop (ptr + 20) buf = [buf ! (ptr + 20)] @ drop (ptr + 21) buf"
  proof -
    have "ptr + 20 < length buf" "Suc (ptr + 20) = ptr + 21" using fits by simp_all
    then show ?thesis using Cons_nth_drop_Suc [of "ptr + 20" buf] by (simp add: add.commute)
  qed
  have b2: "write_bytes (?a @ (name @ [NUL]) @ ?pad @ drop (ptr + 20) buf) (ptr + 20) [char_of num] =
      Some ((?a @ (name @ [NUL]) @ ?pad) @ [char_of num] @ drop (ptr + 21) buf)"
    using write_bytes_at [OF l20, of "[buf ! (ptr + 20)]" "[char_of num]" "drop (ptr + 21) buf"]
    unfolding d20 by (simp only: append.assoc) simp
  have l21: "length (?a @ (name @ [NUL]) @ ?pad @ [char_of num]) = ptr + 21" using l20 by simp
  have d21: "drop (ptr + 21) buf = take (num * 4) (drop (ptr + 21) buf) @ ?rest"
    by (metis append_take_drop_id drop_drop add.commute)
  have lt: "length (take (num * 4) (drop (ptr + 21) buf)) = length (concat (map int_bytes (take num xs)))"
    using fits num by simp
  have b3: "write_bytes ((?a @ (name @ [NUL]) @ ?pad) @ [char_of num] @ drop (ptr + 21) buf) (ptr + 21)
      (concat (map int_bytes (take num xs))) =
      Some ((?a @ (name @ [NUL]) @ ?pad @ [char_of num]) @ concat (map int_bytes (take num xs)) @ ?rest)"
    using write_bytes_at [OF l21 lt, of ?rest] unfolding d21 [symmetric] by (simp only: append.assoc)
  have tn: "take (20 - 1) name = name" using l by simp
  have m: "(if BRC_MAXNUM < num then BRC_MAXNUM else num) = num" using num by simp
  have e: "ptr + 20 + 1 = ptr + 21" by simp
  have "brc_putrecord buf ptr name num xs =
      Some ((?a @ (name @ [NUL]) @ ?pad @ [char_of num]) @ concat (map int_bytes (take num xs)) @ ?rest,
        ptr + 21 + num * 4)"
    unfolding brc_putrecord_def BRC_STRLEN_def Let_def tn m e b1 d option.case b2 b3 using num by simp
  moreover have "(?a @ (name @ [NUL]) @ ?pad @ [char_of num]) @ concat (map int_bytes (take num xs)) @ ?rest =
      ?a @ record_bytes name ?pad (take num xs) @ ?rest"
    using num by (simp add: record_bytes_def min_def)
  ultimately have "brc_putrecord buf ptr name num xs =
      Some (?a @ record_bytes name ?pad (take num xs) @ ?rest, ptr + 21 + num * 4)" by simp
  with lp l show ?thesis by (intro exI [of _ ?pad]) auto
qed

lemma getrecord_bytes:
  assumes n: "name_ok name" and p: "length pad + length name = 19" and x: "length xs \<le> BRC_MAXNUM"
    and r: "\<forall>x \<in> set xs. int_range x" and a: "length a = ptr"
  shows "brc_getrecord (a @ record_bytes name pad xs @ rest) ptr ys =
    Some (ptr + 21 + length xs * 4, name, length xs, xs @ drop (length xs) ys)"
proof -
  let ?b = "a @ record_bytes name pad xs @ rest"
  have c: "cstr (drop ptr ?b) = name" using n a by (simp add: record_bytes_def name_ok_def)
  have "?b = (a @ name @ NUL # pad) @ char_of (length xs) # concat (map int_bytes xs) @ rest"
    by (simp add: record_bytes_def)
  moreover have l: "length (a @ name @ NUL # pad) = ptr + 20" using a p by simp
  ultimately have h: "?b ! (ptr + 20) = char_of (length xs)" by (metis nth_append_length)
  have "?b = (a @ name @ NUL # pad @ [char_of (length xs)]) @ concat (map int_bytes xs) @ rest"
    by (simp add: record_bytes_def)
  moreover have "length (a @ name @ NUL # pad @ [char_of (length xs)]) = ptr + 21" using a p by simp
  ultimately have h2: "drop (ptr + 21) ?b = concat (map int_bytes xs) @ rest"
    by (metis append_eq_conv_conj)
  have v: "cval (char_of (length xs)) = length xs" using x by (simp add: BRC_MAXNUM_def)
  have lb: "length ?b = ptr + 21 + length xs * 4 + length rest" using a p by (simp add: record_bytes_def)
  have t: "take 19 name = name" using n by (simp add: name_ok_def BRC_STRLEN_def)
  have e: "ptr + 20 + 1 = ptr + 21" by simp
  have le: "ptr + 20 < length ?b" "\<not> BRC_MAXNUM < length xs" "ptr + 21 + length xs * 4 \<le> length ?b"
    using lb x by simp_all
  show ?thesis
    unfolding brc_getrecord_def BRC_STRLEN_def Let_def e h v c h2 using le bytes_ints_concat [OF r, of rest] t
    by (simp del: length_append append_assoc)
qed

section \<open>Saving and loading\<close>

text \<open>The records of a buffer, as the loops of the program see them.\<close>

function records :: "char list \<Rightarrow> nat \<Rightarrow> nat \<Rightarrow> (string \<times> int list) list option" where
  "records buf bsize ptr =
     (if ptr < bsize \<and> record_start (buf ! ptr) then
        (case brc_getrecord buf ptr [] of
           None \<Rightarrow> None
         | Some (ptr', name, num, ys) \<Rightarrow> map_option (Cons (name, take num ys)) (records buf bsize ptr'))
      else Some [])"
  by pat_completeness auto
termination
  by (relation "measure (\<lambda>(buf, bs, ptr). bs - ptr)") (auto dest!: getrecord_progress)

declare records.simps [simp del]

lemma getrecord_list:
  "brc_getrecord buf ptr xs = Some (p, name, num, ys) \<longleftrightarrow>
     (\<exists>zs. brc_getrecord buf ptr [] = Some (p, name, num, zs) \<and> length zs = num \<and> ys = zs @ drop num xs)"
  by (auto simp: brc_getrecord_def Let_def)

lemma getrecord_facts:
  assumes "brc_getrecord buf ptr [] = Some (p, name, num, zs)" and s: "record_start (buf ! ptr)"
  shows "name_ok name \<and> name \<noteq> [] \<and> name ! 0 = buf ! ptr \<and> length zs = num \<and> num \<le> BRC_MAXNUM \<and>
    (\<forall>x \<in> set zs. int_range x) \<and> ptr + 21 + num * 4 \<le> length buf \<and> ptr + 21 + num * 4 \<le> p"
proof -
  have ptr: "ptr < length buf" using assms(1) by (auto simp: brc_getrecord_def split: if_splits)
  have ne: "buf ! ptr \<noteq> NUL" using s by (auto simp: record_start_def csval_def)
  obtain t where t: "cstr (drop ptr buf) = buf ! ptr # t"
    using Cons_nth_drop_Suc [OF ptr, symmetric] ne by (simp add: cstr_def)
  have "is_cstr (take 19 (cstr (drop ptr buf)))" by (intro is_cstr_take is_cstr_cstr)
  with assms t ptr show ?thesis
    by (auto simp: brc_getrecord_def Let_def BRC_STRLEN_def name_ok_def bytes_ints_range split: if_splits)
qed

lemma record_start_bytes:
  "name \<noteq> [] \<Longrightarrow> length a = ptr \<Longrightarrow> (a @ record_bytes name pad xs @ rest) ! ptr = name ! 0"
  by (cases name) (simp_all add: record_bytes_def nth_append)

text \<open>Reading the record just written, in any buffer that agrees with it up to its end.\<close>

lemma records_put:
  assumes n: "name_ok name" "name \<noteq> []" "record_start (name ! 0)" and p: "length pad + length name = 19"
    and x: "xs \<noteq> []" "length xs \<le> BRC_MAXNUM" "\<forall>x \<in> set xs. int_range x" and a: "length a = ptr"
    and b: "take (ptr + 21 + length xs * 4) b = a @ record_bytes name pad xs"
    and l: "ptr + 21 + length xs * 4 \<le> bsize"
  shows "records b bsize ptr = map_option (Cons (name, xs)) (records b bsize (ptr + 21 + length xs * 4))"
proof -
  let ?e = "ptr + 21 + length xs * 4"
  have eq: "b = a @ record_bytes name pad xs @ drop ?e b"
    using b by (metis append.assoc append_take_drop_id)
  have "record_start (b ! ptr)"
    by (subst eq) (simp only: record_start_bytes [OF n(2) a] n(3))
  moreover have "brc_getrecord b ptr [] = Some (?e, name, length xs, xs @ drop (length xs) [])"
    by (subst eq) (rule getrecord_bytes [OF n(1) p x(2,3) a])
  moreover have "ptr < bsize" using l by simp
  ultimately show ?thesis by (subst records.simps) simp
qed

definition kept :: "string \<Rightarrow> (string \<times> int list) list \<Rightarrow> (string \<times> int list) list" where
  "kept board es = filter (\<lambda>(name, xs). \<not> same_board name board \<and> xs \<noteq> []) es"

lemma update_loop_records:
  "records tbuf ts tmp = Some es \<Longrightarrow> length tbuf + k \<le> length buf \<Longrightarrow> ptr \<le> tmp + k \<Longrightarrow> ptr \<le> length buf \<Longrightarrow>
    \<exists>buf' ptr'. update_loop board tbuf ts tmp xs buf ptr = Some (buf', ptr') \<and> length buf' = length buf \<and>
      ptr \<le> ptr' \<and> ptr' \<le> length buf \<and> take ptr buf' = take ptr buf \<and>
      records buf' ptr' ptr = Some (kept board es)"
proof (induction tbuf ts tmp arbitrary: es xs buf ptr rule: records.induct)
  case (1 tbuf ts tmp)
  show ?case
  proof (cases "tmp < ts \<and> record_start (tbuf ! tmp)")
    case False
    then have "es = []" using "1.prems"(1) by (auto simp: records.simps [of tbuf ts tmp])
    with False "1.prems" show ?thesis
      by (auto simp: update_loop.simps [of board tbuf ts tmp] records.simps [of buf ptr ptr] kept_def)
  next
    case True
    then obtain p name num zs where g: "brc_getrecord tbuf tmp [] = Some (p, name, num, zs)"
      using "1.prems"(1) by (auto simp: records.simps [of tbuf ts tmp] split: option.splits)
    have f: "name_ok name" "name \<noteq> []" "name ! 0 = tbuf ! tmp" "length zs = num" "num \<le> BRC_MAXNUM"
      "\<forall>x \<in> set zs. int_range x" "tmp + 21 + num * 4 \<le> length tbuf" "tmp + 21 + num * 4 \<le> p"
      using getrecord_facts [OF g] True by auto
    obtain es' where es: "records tbuf ts p = Some es'" "es = (name, zs) # es'"
      using "1.prems"(1) True g f(4) by (auto simp: records.simps [of tbuf ts tmp])
    let ?ys = "zs @ drop num xs"
    have g': "brc_getrecord tbuf tmp xs = Some (p, name, num, ?ys)"
      by (rule getrecord_list [THEN iffD2]) (use g f(4) in blast)
    note IH = "1.IH" [OF True g refl refl refl es(1)]
    show ?thesis
    proof (cases "same_board name board \<or> num = 0")
      case skip: True
      then have u: "update_loop board tbuf ts tmp xs buf ptr = update_loop board tbuf ts p ?ys buf ptr"
        using True g' by (auto simp: update_loop.simps [of board tbuf ts tmp] brc_putrecord_def)
      moreover have "kept board es = kept board es'"
        using skip f(4) es(2) by (auto simp: kept_def)
      moreover have "ptr \<le> p + k" using "1.prems"(3) f(8) by linarith
      ultimately show ?thesis using IH [OF "1.prems"(2) _ "1.prems"(4), of ?ys] by simp
    next
      case put: False
      have fits: "ptr + 21 + num * 4 \<le> length buf" using "1.prems"(2,3) f(7) by linarith
      from putrecord_bytes [OF f(1) _ f(5) _ fits, of ?ys] put f(4) obtain pad where pad:
        "length pad + length name = 19" "brc_putrecord buf ptr name num ?ys =
          Some (take ptr buf @ record_bytes name pad zs @ drop (ptr + 21 + num * 4) buf, ptr + 21 + num * 4)"
        by auto
      let ?buf = "take ptr buf @ record_bytes name pad zs @ drop (ptr + 21 + num * 4) buf"
      let ?ptr = "ptr + 21 + num * 4"
      have lr: "length (record_bytes name pad zs) = 21 + num * 4"
        using pad(1) f(4) by (simp add: record_bytes_def)
      have lb: "length ?buf = length buf" using fits lr by simp
      have u: "update_loop board tbuf ts tmp xs buf ptr = update_loop board tbuf ts p ?ys ?buf ?ptr"
        using True g' put pad(2) by (simp add: update_loop.simps [of board tbuf ts tmp])
      have "length tbuf + k \<le> length ?buf" "?ptr \<le> p + k" "?ptr \<le> length ?buf"
        using "1.prems"(2,3) f(8) fits lb by linarith+
      from IH [OF this, of ?ys] obtain buf' ptr' where r: "update_loop board tbuf ts p ?ys ?buf ?ptr = Some (buf', ptr')"
        "length buf' = length buf" "?ptr \<le> ptr'" "ptr' \<le> length buf" "take ?ptr buf' = take ?ptr ?buf"
        "records buf' ptr' ?ptr = Some (kept board es')" unfolding lb by blast
      have la: "length (take ptr buf) = ptr" using "1.prems"(4) by simp
      have tb: "take ?ptr ?buf = take ptr buf @ record_bytes name pad zs"
        using la lr by simp
      have "records buf' ptr' ptr = map_option (Cons (name, zs)) (records buf' ptr' (ptr + 21 + length zs * 4))"
      proof (rule records_put [OF f(1,2) _ pad(1) _ _ f(6) la])
        show "record_start (name ! 0)" using True f(3) by simp
        show "zs \<noteq> []" using put f(4) by auto
        show "length zs \<le> BRC_MAXNUM" using f(4,5) by simp
        show "take (ptr + 21 + length zs * 4) buf' = take ptr buf @ record_bytes name pad zs"
          using r(5) tb f(4) by simp
        show "ptr + 21 + length zs * 4 \<le> ptr'" using r(3) f(4) by simp
      qed
      then have "records buf' ptr' ptr = Some (kept board es)"
        using r(6) f(4) es(2) put by (auto simp: kept_def)
      moreover have "take ptr buf' = take ptr buf"
      proof -
        have "take ptr (take ?ptr buf') = take ptr (take ?ptr ?buf)" using r(5) by simp
        then show ?thesis unfolding tb using la by (simp add: min_def)
      qed
      ultimately show ?thesis using u r by auto
    qed
  qed
qed

definition of_board :: "string \<Rightarrow> string \<times> int list \<Rightarrow> bool" where
  "of_board board e \<longleftrightarrow> same_board (fst e) board"

lemma initial_loop_records:
  "records buf bs ptr = Some es \<Longrightarrow> length xs = BRC_MAXNUM \<Longrightarrow>
    \<exists>ys. initial_loop board buf bs ptr xs =
        Some (map_option (\<lambda>e. (fst e, length (snd e))) (find (of_board board) es), ys) \<and>
      length ys = BRC_MAXNUM \<and>
      (\<forall>e. find (of_board board) es = Some e \<longrightarrow> take (length (snd e)) ys = snd e \<and> length (snd e) \<le> BRC_MAXNUM)"
proof (induction buf bs ptr arbitrary: es xs rule: records.induct)
  case (1 buf bs ptr)
  show ?case
  proof (cases "ptr < bs \<and> record_start (buf ! ptr)")
    case False
    then have "es = []" using "1.prems"(1) by (auto simp: records.simps [of buf bs ptr])
    with False "1.prems" show ?thesis by (auto simp: initial_loop.simps [of board buf bs ptr])
  next
    case True
    then obtain p name num zs where g: "brc_getrecord buf ptr [] = Some (p, name, num, zs)"
      using "1.prems"(1) by (auto simp: records.simps [of buf bs ptr] split: option.splits)
    have f: "length zs = num" "num \<le> BRC_MAXNUM" using getrecord_facts [OF g] True by auto
    obtain es' where es: "records buf bs p = Some es'" "es = (name, zs) # es'"
      using "1.prems"(1) True g f(1) by (auto simp: records.simps [of buf bs ptr])
    let ?ys = "zs @ drop num xs"
    have g': "brc_getrecord buf ptr xs = Some (p, name, num, ?ys)"
      by (rule getrecord_list [THEN iffD2]) (use g f(1) in blast)
    have ly: "length ?ys = BRC_MAXNUM" using f "1.prems"(2) by simp
    show ?thesis
    proof (cases "same_board name board")
      case same: True
      with True g' es f ly show ?thesis
        by (auto simp: initial_loop.simps [of board buf bs ptr] of_board_def)
    next
      case False
      then have "initial_loop board buf bs ptr xs = initial_loop board buf bs p ?ys"
        using True g' by (simp add: initial_loop.simps [of board buf bs ptr])
      with "1.IH" [OF True g refl refl refl es(1) ly] es(2) False show ?thesis
        by (simp add: of_board_def)
    qed
  qed
qed

text \<open>The state while a board is current whose marks have changed, with a file of the records \<open>es\<close>.\<close>

definition tmp_data :: "brc \<Rightarrow> char list" where
  "tmp_data st = (case boardrc st of None \<Rightarrow> [] | Some f \<Rightarrow> take (BRC_MAXSIZE - BRC_ITEMSIZE) f)"

definition board_name :: "string \<Rightarrow> bool" where
  "board_name s \<longleftrightarrow> name_ok s \<and> s \<noteq> [] \<and> record_start (s ! 0)"

definition dirty :: "brc \<Rightarrow> (string \<times> int list) list \<Rightarrow> bool" where
  "dirty st es \<longleftrightarrow> brc_ok st \<and> 0 < brc_num st \<and> brc_changed st \<and> \<not> guestuser st \<and>
     brc_name st = currboard st \<and> board_name (currboard st) \<and> (\<forall>x \<in> set (marks st). int_range x) \<and>
     length (brc_buf st) = BRC_MAXSIZE \<and> length (tmp_buf st) = BRC_MAXSIZE - BRC_ITEMSIZE \<and>
     records (tmp_data st @ drop (length (tmp_data st)) (tmp_buf st)) (length (tmp_data st)) 0 = Some es"

lemma brc_update_records:
  assumes d: "dirty st es"
  shows "\<exists>buf n. brc_update st = Some (st\<lparr>brc_buf := buf, brc_size := n, boardrc := Some (take n buf),
      brc_changed := False\<rparr>) \<and> length buf = BRC_MAXSIZE \<and> n \<le> BRC_MAXSIZE \<and>
    records buf n 0 = Some ((currboard st, marks st) # kept (currboard st) es) \<and> buf ! 0 = currboard st ! 0"
proof -
  let ?A = "currboard st" and ?n = "brc_num st" and ?xs = "brc_list st" and ?buf = "brc_buf st"
  let ?t = "tmp_data st @ drop (length (tmp_data st)) (tmp_buf st)"
  have ok: "brc_ok st" "0 < ?n" and A: "name_ok ?A" "?A \<noteq> []" "record_start (?A ! 0)"
    and r: "\<forall>x \<in> set (marks st). int_range x" and lb: "length ?buf = BRC_MAXSIZE"
    and es: "records ?t (length (tmp_data st)) 0 = Some es"
    using d by (simp_all add: dirty_def board_name_def)
  have n: "?n \<le> BRC_MAXNUM" "?n \<le> length ?xs" using ok by (simp_all add: brc_ok_def)
  have lt: "length ?t = BRC_MAXSIZE - BRC_ITEMSIZE"
    using d by (auto simp: dirty_def tmp_data_def split: option.splits)
  have fits: "0 + 21 + ?n * 4 \<le> length ?buf" using n lb by (simp add: brc_consts)
  obtain pad where pad: "length pad + length ?A = 19"
    "brc_putrecord ?buf 0 ?A ?n ?xs =
      Some (take 0 ?buf @ record_bytes ?A pad (take ?n ?xs) @ drop (0 + 21 + ?n * 4) ?buf, 0 + 21 + ?n * 4)"
    using putrecord_bytes [OF A(1) ok(2) n fits] by blast
  let ?b = "record_bytes ?A pad (marks st) @ drop (21 + ?n * 4) ?buf"
  have put: "brc_putrecord ?buf 0 ?A ?n ?xs = Some (?b, 21 + ?n * 4)"
    using pad(2) by (simp add: marks_def)
  have lm: "length (marks st) = ?n" using n by (simp add: marks_def)
  have lr: "length (record_bytes ?A pad (marks st)) = 21 + ?n * 4"
    using pad(1) lm by (simp add: record_bytes_def)
  have lbb: "length ?b = BRC_MAXSIZE" using lr fits lb by simp
  have bound: "length ?t + BRC_ITEMSIZE \<le> length ?b" "21 + ?n * 4 \<le> 0 + BRC_ITEMSIZE" "21 + ?n * 4 \<le> length ?b"
    using lt lbb n by (simp_all add: brc_consts)
  from update_loop_records [OF es bound, of ?A "[]"] obtain buf' ptr' where
    u: "update_loop ?A ?t (length (tmp_data st)) 0 [] ?b (21 + ?n * 4) = Some (buf', ptr')"
    "length buf' = length ?b" "21 + ?n * 4 \<le> ptr'" "ptr' \<le> length ?b"
    "take (21 + ?n * 4) buf' = take (21 + ?n * 4) ?b" "records buf' ptr' (21 + ?n * 4) = Some (kept ?A es)"
    by blast
  have tb: "take (21 + ?n * 4) buf' = record_bytes ?A pad (marks st)" using u(5) lr by simp
  have "records buf' ptr' 0 = map_option (Cons (?A, marks st)) (records buf' ptr' (0 + 21 + length (marks st) * 4))"
    by (rule records_put [OF A pad(1) _ _ r, of "[]"]) (use ok lm n tb u(3) in auto)
  then have rec: "records buf' ptr' 0 = Some ((?A, marks st) # kept ?A es)" using u(6) lm by simp
  have "buf' ! 0 = take (21 + ?n * 4) buf' ! 0" by simp
  also have "\<dots> = ?A ! 0" unfolding tb using A(2) by (cases ?A) (simp_all add: record_bytes_def)
  finally have first: "buf' ! 0 = ?A ! 0" .
  have "brc_update st = Some (st\<lparr>brc_buf := buf', brc_size := ptr', boardrc := Some (take ptr' buf'), brc_changed := False\<rparr>)"
    using d put u(1) by (simp add: brc_update_def dirty_def tmp_data_def [symmetric] Let_def)
  with rec first u(2,4) lbb show ?thesis by auto
qed

lemma same_board_refl [simp]: "same_board s s"
  by (simp add: same_board_def)

lemma leave_and_return:
  assumes d: "dirty st es" and B: "B \<noteq> currboard st"
  shows "\<exists>st1 r st2. brc_initial st B = Some (st1, r) \<and> brc_initial st1 (currboard st) = Some (st2, brc_num st) \<and>
    marks st2 = marks st \<and> brc_ok st2"
proof -
  let ?A = "currboard st"
  obtain buf n where u: "brc_update st = Some (st\<lparr>brc_buf := buf, brc_size := n, boardrc := Some (take n buf),
      brc_changed := False\<rparr>)" "records buf n 0 = Some ((?A, marks st) # kept ?A es)" "buf ! 0 = ?A ! 0"
    using brc_update_records [OF d] by blast
  have ok: "brc_ok st" and nul: "buf ! 0 \<noteq> NUL"
    using d u(3) by (auto simp: dirty_def board_name_def record_start_def csval_def)
  have lx: "length (brc_list st) = BRC_MAXNUM" "length (marks st) = brc_num st"
    using ok by (simp_all add: brc_ok_def marks_def)
  from initial_loop_records [OF u(2) lx(1), of B] obtain ys m where
    b: "initial_loop B buf n 0 (brc_list st) = Some (m, ys)" "length ys = BRC_MAXNUM" by blast
  obtain st1 r where st1: "brc_initial st B = Some (st1, r)" "currboard st1 = B" "brc_buf st1 = buf"
    "brc_size st1 = n" "brc_changed st1 = False" "length (brc_list st1) = BRC_MAXNUM"
    using B u(1) nul b by (cases m) (auto simp: brc_initial_def Let_def)
  from initial_loop_records [OF u(2) st1(6), of ?A] obtain zs where
    a: "initial_loop ?A buf n 0 (brc_list st1) = Some (Some (?A, brc_num st), zs)" "length zs = BRC_MAXNUM"
    "take (brc_num st) zs = marks st" using lx(2) by (auto simp: of_board_def)
  have "brc_update st1 = Some st1" using st1(5) by (simp add: brc_update_def)
  then have "brc_initial st1 ?A = Some (st1\<lparr>currboard := ?A, brc_changed := False, brc_cur := 0, brc_name := ?A,
      brc_num := brc_num st, brc_list := zs\<rparr>, brc_num st)"
    using B st1 nul a(1) by (simp add: brc_initial_def Let_def)
  moreover have "brc_ok (st1\<lparr>currboard := ?A, brc_changed := False, brc_cur := 0, brc_name := ?A,
      brc_num := brc_num st, brc_list := zs\<rparr>)"
    using ok a(2,3) by (simp add: brc_ok_def marks_def)
  ultimately show ?thesis using st1(1) a(3) by (auto simp: marks_def)
qed

section \<open>The first unread article\<close>

lemma brc_unread_keeps: "brc_ok st \<Longrightarrow> brc_unread st t = (st1, u) \<Longrightarrow>
  brc_ok st1 \<and> marks st1 = marks st \<and> u = is_unread (marks st) (to_int t)"
  using brc_unread_spec [of st t] by (auto simp: brc_ok_def marks_def)

lemma skip_back_keeps: "brc_ok st \<Longrightarrow> skip_back stamps st num step = (st1, r) \<Longrightarrow>
  brc_ok st1 \<and> marks st1 = marks st \<and> r \<le> num"
proof (induction stamps st num step arbitrary: st1 r rule: skip_back.induct)
  case (1 stamps st num step)
  show ?case
  proof (cases "0 < num \<and> 0 < step \<and> read_time stamps num \<noteq> None")
    case False
    with "1.prems" show ?thesis by (auto simp: skip_back.simps [of stamps st num step] split: if_splits)
  next
    case True
    then obtain t where t: "read_time stamps num = Some t" by auto
    obtain st' u where u: "brc_unread st t = (st', u)" by fastforce
    note k = brc_unread_keeps [OF "1.prems"(1) u]
    show ?thesis
    proof (cases u)
      case False
      with True t u k "1.prems" show ?thesis by (auto simp: skip_back.simps [of stamps st num step])
    next
      case un: True
      with True t u "1.prems" have
        "skip_back stamps st' (num - step) (if step < 32 then step + step div 2 else step) = (st1, r)"
        by (simp add: skip_back.simps [of stamps st num step])
      with "1.IH" [OF _ t u [symmetric]] un k True show ?thesis by auto
    qed
  qed
qed

lemma skip_read_stops: "brc_ok st \<Longrightarrow> skip_read stamps st num entries = (st1, r) \<Longrightarrow>
  brc_ok st1 \<and> marks st1 = marks st \<and> num \<le> r \<and>
  (entries \<le> r \<or> read_time stamps r = None \<or> (\<exists>t. read_time stamps r = Some t \<and> is_unread (marks st) (to_int t)))"
proof (induction stamps st num entries arbitrary: st1 r rule: skip_read.induct)
  case (1 stamps st num entries)
  show ?case
  proof (cases "num < entries \<and> read_time stamps num \<noteq> None")
    case False
    with "1.prems" show ?thesis by (auto simp: skip_read.simps [of stamps st num entries] split: if_splits)
  next
    case True
    then obtain t where t: "read_time stamps num = Some t" by auto
    obtain st' u where u: "brc_unread st t = (st', u)" by fastforce
    note k = brc_unread_keeps [OF "1.prems"(1) u]
    show ?thesis
    proof (cases u)
      case un: True
      with True t u k "1.prems" show ?thesis by (auto simp: skip_read.simps [of stamps st num entries])
    next
      case False
      with True t u "1.prems" have "skip_read stamps st' (num + 1) entries = (st1, r)"
        by (simp add: skip_read.simps [of stamps st num entries])
      with "1.IH" [OF _ t u [symmetric] False] k True show ?thesis by auto
    qed
  qed
qed

section \<open>Properties\<close>

text \<open>C14. Marking an article read keeps the list decreasing and within its bounds; the article
  is read afterwards, and so is every article that was read before.\<close>

theorem brc_addlist_marks:
  assumes "brc_ok st" "0 < t"
  shows "brc_ok (brc_addlist st t) \<and> \<not> is_unread (marks (brc_addlist st t)) (to_int t) \<and>
    {y. is_unread (marks (brc_addlist st t)) y} \<subseteq> {y. is_unread (marks st) y}"
proof -
  have "\<not> is_unread (marks (brc_addlist st t)) (to_int t)"
  proof (cases "is_unread (marks st) (to_int t)")
    case False
    then show ?thesis by (rule brc_addlist_keeps_read [OF assms])
  next
    case True
    let ?xs = "marks st" and ?k = "length (filter (\<lambda>x. to_int t < x) (marks st))"
    obtain cur where u: "brc_unread st t = (st\<lparr>brc_cur := cur\<rparr>, is_unread ?xs (to_int t))"
      and l: "located ?xs (to_int t) cur (to_int t \<in> set ?xs)"
      using brc_unread_spec [OF assms(1)] by blast
    have l': "located ?xs (to_int t) cur False" using l True by (simp add: is_unread_def)
    have "cur < length ?xs \<or> ?xs = []"
      using located_unread [OF _ l'] True assms(1) by (auto simp: brc_ok_def)
    then have "cur < BRC_MAXNUM" using assms(1) l' by (auto simp: brc_ok_def marks_def BRC_MAXNUM_def located_def)
    then have "to_int t \<in> set (take BRC_MAXNUM (insert_nth cur (to_int t) ?xs))"
      using l' by (auto simp: insert_nth_def located_def min_def take_Cons')
    then show ?thesis
      using brc_addlist_spec(2) [OF assms] True located_filter [OF l'] by (simp add: is_unread_def)
  qed
  with brc_addlist_spec(1) [OF assms] brc_addlist_keeps_read [OF assms] show ?thesis by blast
qed

definition sample :: brc where
  "sample = \<lparr>currboard = ''test'', brc_buf = replicate BRC_MAXSIZE NUL, brc_cur = 0, brc_size = 0,
     brc_changed = True, brc_name = ''test'', brc_list = [30, 20, 10] @ replicate 57 0, brc_num = 3,
     boardrc = None, guestuser = False, tmp_buf = replicate (BRC_MAXSIZE - BRC_ITEMSIZE) NUL\<rparr>"

lemma sample_ok: "brc_ok sample"
  by (simp add: sample_def brc_ok_def marks_def BRC_MAXNUM_def)

theorem brc_addlist_marks_witness:
  "brc_ok (brc_addlist sample 25) \<and> \<not> is_unread (marks (brc_addlist sample 25)) (to_int 25) \<and>
    {y. is_unread (marks (brc_addlist sample 25)) y} \<subseteq> {y. is_unread (marks sample) y}"
  by (rule brc_addlist_marks) (simp_all add: sample_ok)

text \<open>\<open>brc_unread\<close> does not depend on where the cursor was left: an article is unread when
  it is not marked and newer than the oldest mark, or nothing is marked.\<close>

theorem brc_unread_answer:
  assumes "brc_ok st"
  shows "\<exists>cur. brc_unread st t = (st\<lparr>brc_cur := cur\<rparr>, is_unread (marks st) (to_int t))"
  using brc_unread_spec [OF assms] by blast

theorem brc_unread_answer_witness:
  "\<exists>cur. brc_unread sample 5 = (sample\<lparr>brc_cur := cur\<rparr>, is_unread (marks sample) (to_int 5))"
  by (rule brc_unread_answer) (rule sample_ok)


lemma sample_dirty: "dirty sample []"
  using sample_ok
  by (simp add: dirty_def sample_def board_name_def name_ok_def BRC_STRLEN_def record_start_def csval_def cval_def
      of_char_def marks_def int_range_def tmp_data_def records.simps is_cstr_def)


text \<open>\<open>brc_update\<close> stays inside its buffers and writes a file whose records are the
  current board's marks followed by those of every other board of the old file, in order.\<close>

theorem brc_update_writes:
  assumes "dirty st es"
  shows "\<exists>buf n. brc_update st = Some (st\<lparr>brc_buf := buf, brc_size := n, boardrc := Some (take n buf),
      brc_changed := False\<rparr>) \<and> length buf = BRC_MAXSIZE \<and> n \<le> BRC_MAXSIZE \<and>
    records buf n 0 = Some ((currboard st, marks st) # kept (currboard st) es)"
  using brc_update_records [OF assms] by blast

theorem brc_update_writes_witness:
  "\<exists>buf n. brc_update sample = Some (sample\<lparr>brc_buf := buf, brc_size := n, boardrc := Some (take n buf),
      brc_changed := False\<rparr>) \<and> length buf = BRC_MAXSIZE \<and> n \<le> BRC_MAXSIZE \<and>
    records buf n 0 = Some ((currboard sample, marks sample) # kept (currboard sample) [])"
  by (rule brc_update_writes) (rule sample_dirty)

text \<open>\<open>unread_position\<close> in the current board ends at an unread article or behind the last
  one, and does not change what is read.\<close>

theorem unread_position_lands:
  assumes "brc_ok st" "currboard st = name" "0 < brc_num st" "0 \<le> entries" "entries \<le> int (length stamps)"
  shows "\<exists>st1 r. unread_position (Some stamps) st name entries = Some (st1, r) \<and> marks st1 = marks st \<and> 0 \<le> r \<and>
    (entries \<le> r \<or> is_unread (marks st) (to_int (stamps ! nat r)))"
proof -
  obtain m where m: "brc_num st = Suc m" using assms(3) by (cases "brc_num st") auto
  obtain st2 num where b: "skip_back stamps st (entries - 1) 4 = (st2, num)" by fastforce
  note kb = skip_back_keeps [OF assms(1) b]
  let ?num = "if num < 0 then 0 else num"
  obtain st3 r where f: "skip_read stamps st2 ?num entries = (st3, r)" by fastforce
  from skip_read_stops [OF _ f] kb have k: "marks st3 = marks st" "?num \<le> r"
    "entries \<le> r \<or> read_time stamps r = None \<or> (\<exists>t. read_time stamps r = Some t \<and> is_unread (marks st) (to_int t))"
    by auto
  have r: "0 \<le> r" using k(2) by (simp split: if_splits)
  have "unread_position (Some stamps) st name entries = Some (st3, r)"
    using assms(2) m b f r by (simp add: unread_position_def brc_initial_def)
  moreover have "entries \<le> r \<or> is_unread (marks st) (to_int (stamps ! nat r))"
    using k(3) r assms(5) by (auto simp: read_time_def split: if_splits)
  ultimately show ?thesis using k(1) r by blast
qed

theorem unread_position_lands_witness:
  "\<exists>st1 r. unread_position (Some [5, 20, 25, 30, 40]) sample ''test'' 5 = Some (st1, r) \<and>
    marks st1 = marks sample \<and> 0 \<le> r \<and>
    (5 \<le> r \<or> is_unread (marks sample) (to_int ([5, 20, 25, 30, 40] ! nat r)))"
  by (rule unread_position_lands [OF sample_ok]) (simp_all add: sample_def)

end
