(* ===== verification/BoardList.thy ===== *)
theory BoardList
  imports CString ReadMark
begin

text \<open>
  The list of boards a user sees, from src/boards.c: which boards of the shared table are
  copied to the list (\<open>load_boards\<close>), their status letter, the search by title and the order
  of the list.  The file is built with \<open>AUTHHOST\<close> and \<open>INBOARDCOUNT\<close>, as include/functions.h
  has it.
\<close>

section \<open>Definitions\<close>

unbundle bit_operations_syntax

record boardheader =
  bfilename :: string
  btitle :: string
  bBM :: string
  bflag :: "32 word"
  level :: "32 word"
  parent :: "32 word"

record newpostdata =
  name :: string
  title :: string
  BM :: string
  flag :: "32 word"
  pos :: nat
  entries :: int
  zap :: bool
  status :: char
  inboard :: int

definition NOZAP_FLAG :: "32 word" where "NOZAP_FLAG = 0x2"
definition NOREPLY_FLAG :: "32 word" where "NOREPLY_FLAG = 0x10"
definition BRD_READONLY :: "32 word" where "BRD_READONLY = 0x100"
definition BRD_RESTRICT :: "32 word" where "BRD_RESTRICT = 0x200"
definition BRD_GROUP :: "32 word" where "BRD_GROUP = 0x1000"
definition BRD_HALFOPEN :: "32 word" where "BRD_HALFOPEN = 0x2000"
definition BRD_INTERN :: "32 word" where "BRD_INTERN = 0x4000"
definition PERM_WELCOME :: "32 word" where "PERM_WELCOME = 0x200"
definition PERM_BOARDS :: "32 word" where "PERM_BOARDS = 0x400"
definition PERM_SYSOP :: "32 word" where "PERM_SYSOP = 0x4000"
definition PERM_POSTMASK :: "32 word" where "PERM_POSTMASK = 0x8000"
definition PERM_OBOARDS :: "32 word" where "PERM_OBOARDS = 0x20000"
definition PERM_NOZAP :: "32 word" where "PERM_NOZAP = 0x80000"
definition PERM_INTERNAL :: "32 word" where "PERM_INTERNAL = 0x2000000"
definition PERM_BLEVELS :: "32 word" where "PERM_BLEVELS = PERM_SYSOP OR PERM_OBOARDS"

lemmas perm_defs = NOZAP_FLAG_def NOREPLY_FLAG_def BRD_READONLY_def BRD_RESTRICT_def BRD_GROUP_def
  BRD_HALFOPEN_def BRD_INTERN_def PERM_WELCOME_def PERM_BOARDS_def PERM_SYSOP_def PERM_POSTMASK_def
  PERM_OBOARDS_def PERM_NOZAP_def PERM_INTERNAL_def PERM_BLEVELS_def

text \<open>The test \<open>flag & bits\<close>, and the macro \<open>HAS_PERM\<close> for a user with a given level.\<close>

definition has_bits :: "32 word \<Rightarrow> 32 word \<Rightarrow> bool" where
  "has_bits x bits \<longleftrightarrow> x AND bits \<noteq> 0"

definition HAS_PERM :: "32 word \<Rightarrow> 32 word \<Rightarrow> bool" where
  "HAS_PERM userlevel x \<longleftrightarrow> (if x \<noteq> 0 then userlevel AND x \<noteq> 0 else True)"

text \<open>\<open>inGoodBrds\<close>; \<open>num\<close> may exceed the array, which has \<open>GOOD_BRC_NUM\<close> entries.\<close>

definition GOOD_BRC_NUM :: nat where "GOOD_BRC_NUM = 50"

fun good_index :: "string list \<Rightarrow> string \<Rightarrow> nat \<Rightarrow> nat" where
  "good_index [] bname i = 0"
| "good_index (s # ss) bname i = (if bname = s then i + 1 else good_index ss bname (i + 1))"

definition inGoodBrds :: "string list \<Rightarrow> nat \<Rightarrow> string \<Rightarrow> nat" where
  "inGoodBrds ids num bname = good_index (take (min num GOOD_BRC_NUM) ids) bname 0"

definition get_brdstatus :: "32 word \<Rightarrow> 32 word \<Rightarrow> char" where
  "get_brdstatus lev flg =
     (if has_bits flg BRD_READONLY then CHR ''P''
      else if has_bits lev PERM_POSTMASK then CHR ''p''
      else if has_bits lev PERM_NOZAP then CHR ''z''
      else if has_bits flg NOREPLY_FLAG then CHR ''x''
      else if lev AND NOT PERM_POSTMASK \<noteq> 0 then CHR ''r''
      else CHR '' '')"

text \<open>
  What \<open>load_boards\<close> reads besides the table: the user's level, whether the host is a trusted
  one, the list of good boards when it is to be shown (\<open>GoodBrd.num == 9999\<close>), the group and
  the title prefix chosen, the zap marks, the user's restricted boards, and the users on a board.
\<close>

record board_env =
  userlevel :: "32 word"
  valid_host :: bool
  good :: "(string list \<times> nat) option"
  boardlevel :: "32 word"
  boardprefix :: "string option"
  yank :: bool
  zapbuf :: "int list"
  restrict_boards :: "string option"
  users_on :: "nat \<Rightarrow> int"

text \<open>The two signs a title of a selected board holds, as bytes of the GB encoding.\<close>

definition sign1 :: string where "sign1 = [CHR 0xA1, CHR 0xF1]"
definition sign2 :: string where "sign2 = [CHR 0xA1, CHR 0xD1]"

text \<open>\<open>strchr(s, c) != NULL\<close>: the terminating zero counts.\<close>

definition strchr :: "string \<Rightarrow> char \<Rightarrow> bool" where
  "strchr s c \<longleftrightarrow> c = NUL \<or> c \<in> set s"

text \<open>The tests that skip a board when the list is not that of the good boards.\<close>

definition skipped :: "board_env \<Rightarrow> bool \<Rightarrow> boardheader \<Rightarrow> bool" where
  "skipped e complete b \<longleftrightarrow>
     parent b \<noteq> boardlevel e \<and> \<not> complete \<or>
     \<not> has_bits (level b) PERM_POSTMASK \<and> \<not> HAS_PERM (userlevel e) (level b) \<and>
       \<not> has_bits (level b) PERM_NOZAP \<or>
     (case boardprefix e of
        None \<Rightarrow> cget (btitle b) 0 = CHR ''*''
      | Some p \<Rightarrow>
          boardlevel e = 0 \<and> \<not> strchr p (cget (btitle b) 0) \<and> cget p 0 \<noteq> CHR ''*'' \<or>
          cget p 0 = CHR ''*'' \<and> \<not> strstr (btitle b) sign1 \<and> \<not> strstr (btitle b) sign2 \<and>
            cget (btitle b) 0 \<noteq> CHR ''*'')"

text \<open>The value \<open>addto\<close> has in the end.\<close>

definition addto :: "board_env \<Rightarrow> nat \<Rightarrow> boardheader \<Rightarrow> bool" where
  "addto e n b =
     (let a0 = (case good e of
                  None \<Rightarrow> yank e \<or> zapbuf e ! n \<noteq> 0 \<or> has_bits (level b) PERM_NOZAP
                | Some (ids, num) \<Rightarrow> 0 < inGoodBrds ids num (bfilename b) \<and> \<not> has_bits (bflag b) BRD_GROUP);
          a1 = (if \<not> valid_host e \<and> a0 \<and> has_bits (bflag b) BRD_INTERN
                then HAS_PERM (userlevel e) PERM_SYSOP \<or> HAS_PERM (userlevel e) PERM_BOARDS \<or>
                     HAS_PERM (userlevel e) PERM_BLEVELS \<or> HAS_PERM (userlevel e) PERM_INTERNAL
                else a0);
          a2 = (if \<not> valid_host e \<and> a1 \<and> has_bits (bflag b) BRD_HALFOPEN
                then HAS_PERM (userlevel e) PERM_SYSOP \<or> HAS_PERM (userlevel e) PERM_WELCOME
                else a1)
      in if has_bits (bflag b) BRD_RESTRICT then
           (case restrict_boards e of
              None \<Rightarrow> False
            | Some r \<Rightarrow> if strsect r (bfilename b) [CHR 0x0A, CHR 0x09, CHR '' ''] = None then False else a2)
         else a2)"

definition entry_of :: "board_env \<Rightarrow> nat \<Rightarrow> boardheader \<Rightarrow> newpostdata" where
  "entry_of e n b =
     \<lparr>name = bfilename b, title = btitle b, BM = bBM b,
      flag = bflag b OR (if has_bits (level b) PERM_NOZAP then NOZAP_FLAG else 0),
      pos = n, entries = -1, zap = (zapbuf e ! n = 0), status = get_brdstatus (level b) (bflag b),
      inboard = users_on e n\<rparr>"

fun boards_loop :: "board_env \<Rightarrow> bool \<Rightarrow> nat \<Rightarrow> boardheader list \<Rightarrow> newpostdata list" where
  "boards_loop e complete n [] = []"
| "boards_loop e complete n (b # bs) =
     (if cget (bfilename b) 0 = NUL then boards_loop e complete (n + 1) bs
      else if good e = None \<and> skipped e complete b then boards_loop e complete (n + 1) bs
      else if addto e n b then entry_of e n b # boards_loop e complete (n + 1) bs
      else boards_loop e complete (n + 1) bs)"

text \<open>
  \<open>load_boards\<close>: the list, \<open>brdnum\<close>, \<open>yank_flag\<close> and the result.  That an empty list of good
  boards is also saved as a file is not part of the result.
\<close>

definition load_boards :: "board_env \<Rightarrow> bool \<Rightarrow> boardheader list \<Rightarrow> newpostdata list \<times> int \<times> bool \<times> int" where
  "load_boards e complete bcache =
     (let nbrd = boards_loop e complete 0 bcache in
      if nbrd = [] \<and> \<not> yank e \<and> boardprefix e = None then (nbrd, -1, True, -1)
      else (nbrd, int (length nbrd), yank e, 0))"

text \<open>\<open>search_brdtitle\<close> from \<open>start\<close> in steps of \<open>direction\<close>, which is 1 or -1.\<close>

function title_loop :: "newpostdata list \<Rightarrow> string \<Rightarrow> int \<Rightarrow> int \<Rightarrow> int" where
  "title_loop nbrd t i direction =
     (if 0 \<le> i \<and> i < int (length nbrd) \<and> (direction = 1 \<or> direction = -1) then
        (if strstr2 (drop 1 (title (nbrd ! nat i))) t \<noteq> None then i
         else title_loop nbrd t (i + direction) direction)
      else -1)"
  by pat_completeness auto
termination
  by (relation "measure (\<lambda>(nbrd, t, i, d). if d = 1 then nat (int (length nbrd) - i) else nat (i + 1))") auto

definition search_brdtitle :: "newpostdata list \<Rightarrow> string \<Rightarrow> int \<Rightarrow> int \<Rightarrow> int" where
  "search_brdtitle nbrd t start direction =
     (if t = [] then -1 else title_loop nbrd t (start + direction) direction)"

text \<open>The comparison of the list's order; \<open>strcasecmp\<close> and \<open>strncasecmp\<close> by their lower case.\<close>

definition strcasecmp :: "string \<Rightarrow> string \<Rightarrow> int" where
  "strcasecmp s t = strcmp (map chartolower s) (map chartolower t)"

definition cmpboard :: "bool \<Rightarrow> bool \<Rightarrow> newpostdata \<Rightarrow> newpostdata \<Rightarrow> int" where
  "cmpboard brdsort brdsort2 brd tmp =
     (let type =
        (if \<not> brdsort then
           (let t = csval (cget (title brd) 0) - csval (cget (title tmp) 0) in
            if t = 0 then strcasecmp (take 6 (drop 1 (title brd))) (take 6 (drop 1 (title tmp))) else t)
         else if brdsort2 then inboard tmp - inboard brd
         else 0)
      in if type = 0 then strcasecmp (name brd) (name tmp) else type)"

section \<open>What is listed\<close>

text \<open>The list is the visible part of the table, in the order of the table.\<close>

definition visible :: "board_env \<Rightarrow> bool \<Rightarrow> nat \<times> boardheader \<Rightarrow> bool" where
  "visible e complete p \<longleftrightarrow>
     bfilename (snd p) \<noteq> [] \<and> (good e = None \<longrightarrow> \<not> skipped e complete (snd p)) \<and> addto e (fst p) (snd p)"

definition names_valid :: "boardheader list \<Rightarrow> bool" where
  "names_valid bs \<longleftrightarrow> (\<forall>b \<in> set bs. is_cstr (bfilename b))"

lemma load_loop_visible:
  "names_valid bs \<Longrightarrow> boards_loop e complete n bs =
     map (\<lambda>(i, b). entry_of e i b) (filter (visible e complete) (zip [n..<n + length bs] bs))"
proof (induction e complete n bs rule: boards_loop.induct)
  case (2 e complete n b bs)
  have "[n..<n + length (b # bs)] = n # [n + 1..<(n + 1) + length bs]"
    using upt_conv_Cons [of n "n + Suc (length bs)"] by (simp del: upt_Suc)
  moreover have "cget (bfilename b) 0 = NUL \<longleftrightarrow> bfilename b = []"
    using "2.prems" by (simp add: names_valid_def cget_NUL del: cget_nth)
  moreover have "names_valid bs" using "2.prems" by (simp add: names_valid_def)
  ultimately show ?case using "2.IH" by (simp add: visible_def del: upt_Suc upt.simps)
qed simp

lemma restricted_addto:
  "addto e n b \<Longrightarrow> has_bits (bflag b) BRD_RESTRICT \<Longrightarrow> bfilename b \<noteq> [] \<Longrightarrow>
     \<exists>r. restrict_boards e = Some r \<and> bfilename b \<in> set (sections [CHR 0x0A, CHR 0x09, CHR '' ''] r)"
  using strsect_iff [of "bfilename b" _ "[CHR 0x0A, CHR 0x09, CHR '' '']"]
  by (auto simp: addto_def Let_def split: option.splits if_splits)

lemma has_perm_bits: "x \<noteq> 0 \<Longrightarrow> HAS_PERM u x \<longleftrightarrow> has_bits u x"
  by (simp add: HAS_PERM_def has_bits_def)

lemma perms_nonzero [simp]:
  "PERM_SYSOP \<noteq> 0" "PERM_BOARDS \<noteq> 0" "PERM_BLEVELS \<noteq> 0" "PERM_INTERNAL \<noteq> 0" "PERM_WELCOME \<noteq> 0"
  by (simp_all add: perm_defs)

lemma intern_addto:
  "addto e n b \<Longrightarrow> \<not> valid_host e \<Longrightarrow> has_bits (bflag b) BRD_INTERN \<Longrightarrow>
     has_bits (userlevel e) PERM_SYSOP \<or> has_bits (userlevel e) PERM_BOARDS \<or>
     has_bits (userlevel e) PERM_BLEVELS \<or> has_bits (userlevel e) PERM_INTERNAL"
  by (auto simp: addto_def Let_def has_perm_bits split: option.splits if_splits)

lemma halfopen_addto:
  "addto e n b \<Longrightarrow> \<not> valid_host e \<Longrightarrow> has_bits (bflag b) BRD_HALFOPEN \<Longrightarrow>
     has_bits (userlevel e) PERM_SYSOP \<or> has_bits (userlevel e) PERM_WELCOME"
  by (auto simp: addto_def Let_def has_perm_bits split: option.splits if_splits)

text \<open>The search of a title.\<close>

declare title_loop.simps [simp del]

lemma title_loop_spec:
  "direction = 1 \<or> direction = -1 \<Longrightarrow> title_loop nbrd t i direction = r \<Longrightarrow> r \<noteq> -1 \<Longrightarrow>
     0 \<le> r \<and> r < int (length nbrd) \<and> strstr2 (drop 1 (title (nbrd ! nat r))) t \<noteq> None \<and>
        0 \<le> (r - i) * direction"
proof (induction nbrd t i direction arbitrary: r rule: title_loop.induct)
  case (1 nbrd t i direction)
  show ?case
  proof (cases "0 \<le> i \<and> i < int (length nbrd)")
    case False
    with "1.prems" show ?thesis by (auto simp: title_loop.simps [of nbrd t i direction])
  next
    case True
    show ?thesis
    proof (cases "strstr2 (drop 1 (title (nbrd ! nat i))) t \<noteq> None")
      case hit: True
      with True "1.prems" have "r = i" by (simp add: title_loop.simps [of nbrd t i direction])
      with hit True show ?thesis by simp
    next
      case False
      with True "1.prems" have "title_loop nbrd t (i + direction) direction = r"
        by (auto simp: title_loop.simps [of nbrd t i direction])
      with "1.IH" [of r] False True "1.prems"(1,3) show ?thesis by auto
    qed
  qed
qed

section \<open>Properties\<close>


definition sample_boards :: "boardheader list" where
  "sample_boards =
     [\<lparr>bfilename = ''sysop'', btitle = ''1 system'', bBM = [], bflag = BRD_RESTRICT, level = 0, parent = 0\<rparr>,
      \<lparr>bfilename = [], btitle = [], bBM = [], bflag = 0, level = 0, parent = 0\<rparr>,
      \<lparr>bfilename = ''test'', btitle = ''1 test'', bBM = [], bflag = BRD_INTERN, level = 0, parent = 0\<rparr>]"

definition sample_env :: board_env where
  "sample_env = \<lparr>userlevel = PERM_INTERNAL, valid_host = False, good = None, boardlevel = 0, boardprefix = None,
     yank = True, zapbuf = [0, 0, 0], restrict_boards = Some ''sysop'', users_on = \<lambda>_. 0\<rparr>"


text \<open>No restricted board is listed whose name is not one of the words of the user's list of
  restricted boards, and outside the trusted hosts no internal or half-open board is listed for
  a user without the permissions they ask for.\<close>

theorem load_boards_safe:
  assumes "names_valid bs" "d \<in> set (fst (load_boards e complete bs))"
  shows "\<exists>i b. i < length bs \<and> b = bs ! i \<and> d = entry_of e i b \<and> bfilename b \<noteq> [] \<and>
    (has_bits (bflag b) BRD_RESTRICT \<longrightarrow>
       (\<exists>r. restrict_boards e = Some r \<and> bfilename b \<in> set (sections [CHR 0x0A, CHR 0x09, CHR '' ''] r))) \<and>
    (\<not> valid_host e \<and> has_bits (bflag b) BRD_INTERN \<longrightarrow>
       has_bits (userlevel e) PERM_SYSOP \<or> has_bits (userlevel e) PERM_BOARDS \<or>
       has_bits (userlevel e) PERM_BLEVELS \<or> has_bits (userlevel e) PERM_INTERNAL) \<and>
    (\<not> valid_host e \<and> has_bits (bflag b) BRD_HALFOPEN \<longrightarrow>
       has_bits (userlevel e) PERM_SYSOP \<or> has_bits (userlevel e) PERM_WELCOME)"
proof -
  have "fst (load_boards e complete bs) =
      map (\<lambda>(i, b). entry_of e i b) (filter (visible e complete) (zip [0..<length bs] bs))"
    using load_loop_visible [OF assms(1), of e complete 0] by (simp add: load_boards_def Let_def)
  with assms(2) obtain i b where ib: "(i, b) \<in> set (zip [0..<length bs] bs)" "visible e complete (i, b)"
    "d = entry_of e i b" by auto
  then have i: "i < length bs" "b = bs ! i" by (auto simp: set_zip)
  have a: "addto e i b" "bfilename b \<noteq> []" using ib(2) by (simp_all add: visible_def)
  show ?thesis
    by (rule exI [of _ i], rule exI [of _ b])
      (use i ib(3) a restricted_addto [OF a(1)] intern_addto [OF a(1)] halfopen_addto [OF a(1)] in blast)
qed

lemma sample_listed: "entry_of sample_env (Suc (Suc 0)) (sample_boards ! 2) \<in> set (fst (load_boards sample_env False sample_boards))"
  by (simp add: load_boards_def sample_boards_def sample_env_def skipped_def addto_def Let_def has_bits_def HAS_PERM_def
      perm_defs cget_def)

theorem load_boards_safe_witness:
  "\<exists>i b. i < length sample_boards \<and> b = sample_boards ! i \<and> entry_of sample_env (Suc (Suc 0)) (sample_boards ! 2) = entry_of sample_env i b \<and>
    bfilename b \<noteq> [] \<and>
    (has_bits (bflag b) BRD_RESTRICT \<longrightarrow>
       (\<exists>r. restrict_boards sample_env = Some r \<and> bfilename b \<in> set (sections [CHR 0x0A, CHR 0x09, CHR '' ''] r))) \<and>
    (\<not> valid_host sample_env \<and> has_bits (bflag b) BRD_INTERN \<longrightarrow>
       has_bits (userlevel sample_env) PERM_SYSOP \<or> has_bits (userlevel sample_env) PERM_BOARDS \<or>
       has_bits (userlevel sample_env) PERM_BLEVELS \<or> has_bits (userlevel sample_env) PERM_INTERNAL) \<and>
    (\<not> valid_host sample_env \<and> has_bits (bflag b) BRD_HALFOPEN \<longrightarrow>
       has_bits (userlevel sample_env) PERM_SYSOP \<or> has_bits (userlevel sample_env) PERM_WELCOME)"
  by (rule load_boards_safe [OF _ sample_listed]) (simp add: names_valid_def sample_boards_def is_cstr_def)

end
