(* ===== verification/Five.thy ===== *)
theory Five
  imports CString "HOL-Library.Signed_Division"
begin

text \<open>
  The game of five in a row two users play over a connection (src/five.c).

  \<open>playboard\<close> is kept as the 225 integers it is in memory: the rules check the row of a
  point but never its column, so a window may run into the neighbouring row, or, beyond
  the first and the last row, into other variables, whose values are the function
  \<open>outside\<close>.  The counters of the rules form the record \<open>tally\<close>.  A step of the game is
  one key or one packet of the other player; \<open>None\<close> is an access outside the program's
  arrays.  The chat line \<open>chatbuf\<close> is modelled with the byte behind it, because the editor
  writes there.  Drawing is left out, except the rows of the chat window.
\<close>

section \<open>The rules\<close>

abbreviation (input) black :: nat where "black \<equiv> 1"
abbreviation (input) white :: nat where "white \<equiv> 2"

type_synonym point = "int \<times> int"
type_synonym cells = "point \<Rightarrow> nat"

record tally =
  winner :: nat
  tdeadf :: int
  tlivef :: int
  livethree :: int
  threefour :: nat

definition win :: "nat \<Rightarrow> tally \<Rightarrow> tally" where
  "win who t = t\<lparr>winner := who\<rparr>"

definition bandhand :: "tally \<Rightarrow> tally" where
  "bandhand t = t\<lparr>winner := white\<rparr>"

definition rows_ok :: "point list \<Rightarrow> bool" where
  "rows_ok ps \<longleftrightarrow> list_all (\<lambda>(x, y). 0 \<le> x \<and> x \<le> 14) ps"

definition stones :: "cells \<Rightarrow> nat \<Rightarrow> point list \<Rightarrow> nat" where
  "stones b c ps = length (filter (\<lambda>p. b p = c) ps)"

text \<open>The end of \<open>callfour\<close>: a row of six loses, and five of six do not count as a four.\<close>

definition callfour_six :: "cells \<Rightarrow> point list \<Rightarrow> tally \<Rightarrow> tally" where
  "callfour_six b ps t =
     (let n_black = stones b black ps;
          t1 = (if n_black = 5 \<and> (b (ps ! 2) = 0 \<or> b (ps ! 3) = 0 \<or> b (ps ! 4) = 0 \<or> b (ps ! 1) = 0)
                then t\<lparr>tlivef := tlivef t - 1\<rparr> else t)
      in if 6 \<le> n_black then bandhand t1 else t1)"

definition callfour :: "cells \<Rightarrow> point list \<Rightarrow> tally \<Rightarrow> tally" where
  "callfour b ps t =
     (if \<not> rows_ok ps then t
      else if winner t \<noteq> 0 then t
      else
        let c1 = b (ps ! 0); c2 = b (ps ! 1); c3 = b (ps ! 2); c4 = b (ps ! 3); c5 = b (ps ! 4); c6 = b (ps ! 5);
            dead = (c1 \<noteq> 0 \<and> c6 = 0 \<or> c1 = 0 \<and> c6 \<noteq> 0);
            n_black = stones b black [ps ! 1, ps ! 2, ps ! 3, ps ! 4];
            n_white = stones b white [ps ! 1, ps ! 2, ps ! 3, ps ! 4];
            t1 = (if c1 = 0 \<and> c6 = 0 \<and> (c3 = 0 \<or> c4 = 0) \<and> n_black = 3
                  then t\<lparr>livethree := livethree t + 1\<rparr> else t)
        in
        if n_black = 4 then
          (let t2 = (if c1 = black \<and> c6 = black then bandhand t1 else t1) in
           if c1 \<noteq> 0 \<and> c6 \<noteq> 0 then t2
           else if dead then
             (let t3 = (if c1 = 0 \<and> c5 = 0 \<or> c2 = 0 \<and> c6 = 0 then t2\<lparr>livethree := livethree t2 - 1\<rparr> else t2)
              in t3\<lparr>tdeadf := tdeadf t3 + 1, tlivef := tlivef t3 + 1, threefour := 0\<rparr>)
           else callfour_six b ps (t2\<lparr>threefour := black, tlivef := tlivef t2 + 1\<rparr>))
        else if n_white = 4 then
          (if c1 \<noteq> 0 \<and> c6 \<noteq> 0 then t1
           else if dead then t1\<lparr>tdeadf := tdeadf t1 + 1, threefour := 0\<rparr>
           else callfour_six b ps (t1\<lparr>threefour := white, tlivef := tlivef t1 + 1\<rparr>))
        else callfour_six b ps t1)"

text \<open>The windows of \<open>n\<close> points the rules look at, from the loops of the callers.\<close>

definition line :: "nat \<Rightarrow> int \<Rightarrow> int \<Rightarrow> int \<Rightarrow> int \<Rightarrow> point list" where
  "line n x y dx dy = map (\<lambda>k. (x + int k * dx, y + int k * dy)) [0..<n]"

definition verticals :: "nat \<Rightarrow> int \<Rightarrow> point list list" where
  "verticals n x = map (\<lambda>j. line n x j 0 1) [0..15 - int n]"

definition horizontals :: "nat \<Rightarrow> int \<Rightarrow> point list list" where
  "horizontals n y = map (\<lambda>i. line n i y 1 0) [0..15 - int n]"

definition diagonal :: "nat \<Rightarrow> int \<Rightarrow> int \<Rightarrow> int \<Rightarrow> point list" where
  "diagonal n x y i = line n (x + i) (y + i) 1 1"

definition antidiagonal :: "nat \<Rightarrow> int \<Rightarrow> int \<Rightarrow> int \<Rightarrow> point list" where
  "antidiagonal n x y i = line n (x - i) (y + i) (- 1) 1"

text \<open>The loops of \<open>calvalue\<close> over the whole board, once five black stones stand in a row.\<close>

definition all_sixes :: "point list list" where
  "all_sixes = concat (map (verticals 6) [0..14]) @
     concat (map (\<lambda>i. map (\<lambda>j. line 6 i j 1 0) [0..14]) [0..9]) @
     concat (map (\<lambda>i. concat (map (\<lambda>j. [line 6 i j 1 1, line 6 i (j + 5) 1 (- 1)]) [0..9])) [0..9])"

definition calvalue :: "cells \<Rightarrow> point list \<Rightarrow> tally \<Rightarrow> tally" where
  "calvalue b ps t =
     (if \<not> rows_ok ps then t
      else if winner t \<noteq> 0 then t
      else
        let gap = (b (ps ! 1) = 0 \<or> b (ps ! 2) = 0 \<or> b (ps ! 3) = 0);
            n_black = stones b black ps;
            n_white = stones b white ps;
            t1 = (if b (ps ! 0) = 0 \<and> b (ps ! 4) = 0 \<and> n_black = 3
                  then t\<lparr>livethree := livethree t + 1\<rparr> else t)
        in
        if (n_white = 4 \<or> n_black = 4) \<and> gap then t1\<lparr>tdeadf := tdeadf t1 + 1, tlivef := tlivef t1 + 1\<rparr>
        else
          let t2 = (if n_black = 5 then
                      (let t' = fold (callfour b) all_sixes (t1\<lparr>tlivef := - 1, tdeadf := 0, livethree := 0\<rparr>)
                       in if winner t' = 0 then win black t' else t')
                    else t1)
          in if n_white = 5 then win white t2 else t2)"

text \<open>The windows through a move, in the order the game scans them, and the verdict on it.\<close>

definition fives :: "int \<Rightarrow> int \<Rightarrow> point list list" where
  "fives x y = verticals 5 x @ horizontals 5 y @ map (diagonal 5 x y) [-4..0] @ map (antidiagonal 5 x y) [-4..0]"

definition sixes :: "int \<Rightarrow> int \<Rightarrow> point list list" where
  "sixes x y = verticals 6 x @ horizontals 6 y @
     concat (map (\<lambda>i. [diagonal 6 x y i, antidiagonal 6 x y i]) [-5..0])"

definition verdict :: "tally \<Rightarrow> tally" where
  "verdict t =
     (let t1 = (if 2 \<le> tlivef t \<and> winner t = 0 then bandhand t else t)
      in if 2 \<le> livethree t1 \<and> tlivef t1 = 0 then bandhand t1 else t1)"

definition judge :: "cells \<Rightarrow> int \<Rightarrow> int \<Rightarrow> tally \<Rightarrow> tally" where
  "judge b x y t =
     verdict (fold (callfour b) (sixes x y) (fold (calvalue b) (fives x y)
       (t\<lparr>tdeadf := 0, tlivef := 0, livethree := 0, threefour := 0\<rparr>)))"

section \<open>What the rules decide\<close>

lemmas tally_defs = callfour_six_def win_def bandhand_def Let_def

lemma callfour_winner: "winner (callfour b ps t) = winner t \<or> winner (callfour b ps t) = white \<and> winner t = 0"
  by (cases "winner t = 0") (simp_all add: callfour_def tally_defs)

lemma fold_callfour_winner:
  "winner (fold (callfour b) pss t) = winner t \<or> winner (fold (callfour b) pss t) = white \<and> winner t = 0"
proof (induction pss arbitrary: t)
  case (Cons ps pss)
  from Cons.IH [of "callfour b ps t"] callfour_winner [of b ps t] show ?case by auto
qed simp

definition five_of :: "cells \<Rightarrow> nat \<Rightarrow> point list \<Rightarrow> bool" where
  "five_of b c ps \<longleftrightarrow> rows_ok ps \<and> stones b c ps = 5"

lemma stones_add: "c \<noteq> d \<Longrightarrow> stones b c ps + stones b d ps \<le> length ps"
  by (induction ps) (auto simp: stones_def)

lemma calvalue_frozen: "winner t \<noteq> 0 \<Longrightarrow> calvalue b ps t = t"
  by (simp add: calvalue_def)

lemma calvalue_winner:
  assumes "winner t = 0" "length ps = 5"
  shows "winner (calvalue b ps t) \<in> {0, black, white}"
    and "winner (calvalue b ps t) = 0 \<longleftrightarrow> \<not> five_of b black ps \<and> \<not> five_of b white ps"
    and "winner (calvalue b ps t) = black \<Longrightarrow> five_of b black ps"
proof -
  let ?b = "stones b black ps" and ?w = "stones b white ps"
  have excl: "?b = 5 \<Longrightarrow> ?w = 0" "?w = 5 \<Longrightarrow> ?b = 0"
    using stones_add [of black white b ps] assms(2) by simp_all
  let ?t = "(if b (ps ! 0) = 0 \<and> b (ps ! 4) = 0 \<and> ?b = 3 then t\<lparr>livethree := livethree t + 1\<rparr> else t)
      \<lparr>tlivef := - 1, tdeadf := 0, livethree := 0\<rparr>"
  have w: "winner (fold (callfour b) all_sixes ?t) = 0 \<or> winner (fold (callfour b) all_sixes ?t) = white"
    using fold_callfour_winner [of b all_sixes ?t] assms(1) by (auto split: if_splits)
  show "winner (calvalue b ps t) \<in> {0, black, white}"
    using assms(1) w excl by (auto simp: calvalue_def tally_defs)
  show "winner (calvalue b ps t) = 0 \<longleftrightarrow> \<not> five_of b black ps \<and> \<not> five_of b white ps"
    using assms(1) w excl by (auto simp: calvalue_def five_of_def tally_defs)
  show "winner (calvalue b ps t) = black \<Longrightarrow> five_of b black ps"
    using assms(1) w excl by (auto simp: calvalue_def five_of_def tally_defs split: if_splits)
qed

lemma fold_calvalue_frozen: "winner t \<noteq> 0 \<Longrightarrow> fold (calvalue b) pss t = t"
  by (induction pss) (simp_all add: calvalue_frozen)

lemma fold_calvalue_winner:
  assumes "winner t = 0" "\<forall>ps \<in> set pss. length ps = 5"
  shows "winner (fold (calvalue b) pss t) \<in> {0, black, white} \<and>
    (winner (fold (calvalue b) pss t) = 0 \<longleftrightarrow> (\<forall>ps \<in> set pss. \<not> five_of b black ps \<and> \<not> five_of b white ps)) \<and>
    (winner (fold (calvalue b) pss t) = black \<longrightarrow> (\<exists>ps \<in> set pss. five_of b black ps))"
  using assms
proof (induction pss arbitrary: t)
  case (Cons ps pss)
  note c = calvalue_winner [OF Cons.prems(1), of ps b]
  show ?case
  proof (cases "winner (calvalue b ps t) = 0")
    case True
    with Cons.IH [OF True] c Cons.prems show ?thesis by auto
  next
    case False
    with c Cons.prems show ?thesis by (auto simp: fold_calvalue_frozen)
  qed
qed simp

lemma fives_length: "ps \<in> set (fives x y) \<Longrightarrow> length ps = 5"
  by (auto simp: fives_def verticals_def horizontals_def diagonal_def antidiagonal_def line_def)

lemma verdict_winner: "winner (verdict t) = winner t \<or> winner (verdict t) = white"
  by (auto simp: verdict_def tally_defs)

lemma judge_winner:
  assumes "winner t = 0"
  shows "winner (judge b x y t) \<in> {0, black, white}"
    and "ps \<in> set (fives x y) \<Longrightarrow> five_of b black ps \<or> five_of b white ps \<Longrightarrow> winner (judge b x y t) \<noteq> 0"
    and "winner (judge b x y t) = black \<Longrightarrow> \<exists>ps \<in> set (fives x y). five_of b black ps"
proof -
  let ?t0 = "t\<lparr>tdeadf := 0, tlivef := 0, livethree := 0, threefour := 0\<rparr>"
  define t1 where "t1 = fold (calvalue b) (fives x y) ?t0"
  define t2 where "t2 = fold (callfour b) (sixes x y) t1"
  have j: "judge b x y t = verdict t2" by (simp add: judge_def t1_def t2_def)
  have c: "winner t1 \<in> {0, black, white}"
    "winner t1 = 0 \<longleftrightarrow> (\<forall>ps \<in> set (fives x y). \<not> five_of b black ps \<and> \<not> five_of b white ps)"
    "winner t1 = black \<longrightarrow> (\<exists>ps \<in> set (fives x y). five_of b black ps)"
    using fold_calvalue_winner [of ?t0 "fives x y" b] assms fives_length by (auto simp: t1_def)
  have f: "winner t2 = winner t1 \<or> winner t2 = white \<and> winner t1 = 0"
    unfolding t2_def by (rule fold_callfour_winner)
  from c f verdict_winner [of t2] show "winner (judge b x y t) \<in> {0, black, white}"
    by (auto simp: j)
  from c f verdict_winner [of t2]
  show "ps \<in> set (fives x y) \<Longrightarrow> five_of b black ps \<or> five_of b white ps \<Longrightarrow> winner (judge b x y t) \<noteq> 0"
    by (auto simp: j)
  from c f verdict_winner [of t2] show "winner (judge b x y t) = black \<Longrightarrow> \<exists>ps \<in> set (fives x y). five_of b black ps"
    by (auto simp: j)
qed


section \<open>The chat window\<close>

text \<open>
  \<open>five_chat\<close> keeps the last four lines in a ring \<open>win\<close> and shows them in the rows from
  17; \<open>curr\<close> is the row of the prompt.  \<open>rows\<close> is what the terminal shows.
\<close>

record chat =
  wins :: "char list list"
  curr :: nat
  slot :: nat
  rows :: "nat \<Rightarrow> string"

definition five_chat_init :: "chat \<Rightarrow> chat" where
  "five_chat_init c =
     c\<lparr>wins := map (\<lambda>w. w[0 := NUL]) (wins c), curr := 17, slot := 0, rows := (rows c)(17 := ''===>'')\<rparr>"

definition five_chat :: "string \<Rightarrow> chat \<Rightarrow> chat option" where
  "five_chat msg c =
     (case strlcpy (wins c ! slot c) msg 80 of
        None \<Rightarrow> None
      | Some (w, _) \<Rightarrow>
          (let ws = (wins c)[slot c := w];
               r1 = (rows c)(curr c := cstr w);
               p = (if slot c + 1 = 4 then 0 else slot c + 1);
               cur = curr c + 1;
               (r2, cur2) = (if 21 < cur
                             then (fold (\<lambda>i r. r(i := cstr (ws ! ((p + 4 + (i - 17)) mod 4)))) [17..<21] r1, 21)
                             else (r1, cur))
           in Some (c\<lparr>wins := ws, curr := cur2, slot := p, rows := r2(cur2 := ''===>'')\<rparr>)))"

section \<open>The state of a game\<close>

record five =
  board :: "nat list"
  outside :: "int \<Rightarrow> nat"
  chess :: "point list"
  tally :: tally
  player :: nat
  hand :: nat
  px :: int
  py :: int
  xcol :: int
  fdone :: int
  banf :: bool
  quitf :: bool
  first :: bool
  chating :: bool
  data :: "char list"
  chatmem :: "char list"
  ptr :: int
  chatwin :: chat
  sent :: "char list list"

text \<open>Where \<open>playboard[x][y]\<close> lies, what is read there, and a store there.\<close>

definition cell_index :: "int \<Rightarrow> int \<Rightarrow> int" where
  "cell_index x y = 15 * x + y"

definition cells_of :: "five \<Rightarrow> cells" where
  "cells_of g = (\<lambda>(x, y). let k = cell_index x y in
     if 0 \<le> k \<and> k < int (length (board g)) then board g ! nat k else outside g k)"

definition put_stone :: "five \<Rightarrow> int \<Rightarrow> int \<Rightarrow> nat \<Rightarrow> five option" where
  "put_stone g x y c =
     (let k = cell_index x y in
      if 0 \<le> k then map_option (\<lambda>bd. g\<lparr>board := bd\<rparr>) (poke (board g) (nat k) c) else None)"

definition other :: "nat \<Rightarrow> nat" where
  "other c = (if c = black then white else black)"

text \<open>
  The code from the label \<open>begin\<close> to the loop: black's first stone is already in the
  middle, and the user who made the invitation moves next, as white.
\<close>

definition begin_game :: "five \<Rightarrow> five" where
  "begin_game g =
     g\<lparr>board := (replicate 225 0)[112 := black], hand := 1, tally := (tally g)\<lparr>winner := 0\<rparr>, quitf := False,
       px := 14, py := 7, banf := True, player := white, chess := (chess g)[1 := (14, 7)],
       fdone := (if first g then 0 else 1)\<rparr>"

text \<open>The start of \<open>five_pk\<close>: the line the user types into follows the name in \<open>chatbuf\<close>.\<close>

definition name_prompt :: "string \<Rightarrow> char list" where
  "name_prompt username = take 77 (username @ replicate (16 - length username) CHR 0x20 @ '': '') @ [NUL]"

definition five_start :: "five \<Rightarrow> string \<Rightarrow> bool \<Rightarrow> five" where
  "five_start g username inviter =
     (let mem = (chatmem g)[0 := NUL, 79 := NUL, 19 := NUL];
          nm = name_prompt username
      in begin_game (g\<lparr>first := inviter, xcol := 0, ptr := 0, chating := False,
           chatwin := five_chat_init (chatwin g),
           chatmem := take 1 mem @ nm @ drop (1 + length nm) mem\<rparr>))"

section \<open>Packets\<close>

text \<open>The packet of a move, and the reading of it.\<close>

definition digit_char :: "int \<Rightarrow> char" where
  "digit_char n = char_of (nat (n + 48))"

definition xy_po :: "int \<Rightarrow> int \<Rightarrow> char list" where
  "xy_po x y = [digit_char (x sdiv 10), digit_char (x smod 10), digit_char (y sdiv 10), digit_char (y smod 10), CHR 0x31]"

definition decode_move :: "char list \<Rightarrow> (int \<times> int \<times> int) option" where
  "decode_move d =
     (let i = atoi d in
      if - (2 ^ 31) \<le> i \<and> i < 2 ^ 31 then Some (i sdiv 1000, (i smod 1000) sdiv 10, i smod 10) else None)"

definition receive_move :: "five \<Rightarrow> five option" where
  "receive_move g =
     (case decode_move (data g) of
        None \<Rightarrow> None
      | Some (cx, cy, done) \<Rightarrow>
          (case put_stone g (cx sdiv 2) cy (player g) of
             None \<Rightarrow> None
           | Some g1 \<Rightarrow>
               (let g2 = g1\<lparr>fdone := done, hand := hand g1 + 1, xcol := cx sdiv 2, player := other (player g1)\<rparr>;
                    g3 = g2\<lparr>tally := judge (cells_of g2) (cx sdiv 2) cy (tally g2), py := cy, px := cx\<rparr>
                in Some (if winner (tally g3) \<noteq> 0 then begin_game g3 else g3))))"

text \<open>
  What becomes of a step: the loop goes on, or the connection is closed.  The answer the
  user types to a question is the character \<open>ans\<close>.
\<close>

datatype outcome = Playing five | Over five

definition sends :: "five \<Rightarrow> char list \<Rightarrow> five" where
  "sends g msg = g\<lparr>sent := sent g @ [msg]\<rparr>"

text \<open>\<open>recv\<close> overwrites the beginning of \<open>data\<close>; the bytes behind the packet stay what they were.\<close>

definition recv_into :: "char list \<Rightarrow> char list \<Rightarrow> char list" where
  "recv_into buf d = take (length buf) d @ drop (length d) buf"

definition receive :: "char list \<Rightarrow> char \<Rightarrow> five \<Rightarrow> outcome option" where
  "receive d ans g =
     (if d = [] then Some (Over g)
      else
        let g1 = g\<lparr>data := recv_into (data g) d\<rparr>;
            c = data g1 ! 0
        in
        if c = NUL then
          (if NUL \<in> set (tl (data g1))
           then map_option (\<lambda>w. Playing (g1\<lparr>chatwin := w\<rparr>)) (five_chat (cstr (tl (data g1))) (chatwin g1))
           else None)
        else if c = CHR 0x01 then
          (if ans = CHR ''n'' \<or> ans = CHR ''N'' then Some (Playing (sends g1 [CHR 0x03]))
           else Some (Playing (begin_game (sends (g1\<lparr>first := False\<rparr>) [CHR 0x02]))))
        else if c = CHR 0x02 then Some (Playing (begin_game (g1\<lparr>first := True\<rparr>)))
        else if c = CHR 0x03 then Some (Playing g1)
        else if c = CHR 0xFF then Some (Over g1)
        else map_option Playing (receive_move g1))"


section \<open>Editing the chat line\<close>

text \<open>
  Positions are relative to \<open>cbuf = chatbuf + 19\<close>; the word deletion can run to the left
  of it.  Overlapping \<open>memcpy\<close> is taken as \<open>memmove\<close>.
\<close>

abbreviation (input) BSIZE :: int where "BSIZE \<equiv> 60"

definition cb_get :: "five \<Rightarrow> int \<Rightarrow> char option" where
  "cb_get g i = (if 0 \<le> i + 19 \<and> i + 19 < int (length (chatmem g)) then Some (chatmem g ! nat (i + 19)) else None)"

definition cb_put :: "five \<Rightarrow> int \<Rightarrow> char \<Rightarrow> five option" where
  "cb_put g i c =
     (if 0 \<le> i + 19 then map_option (\<lambda>m. g\<lparr>chatmem := m\<rparr>) (poke (chatmem g) (nat (i + 19)) c) else None)"

definition cb_move :: "five \<Rightarrow> int \<Rightarrow> int \<Rightarrow> int \<Rightarrow> five option" where
  "cb_move g dst src n =
     (if 0 \<le> n \<and> 0 \<le> dst + 19 \<and> 0 \<le> src + 19 \<and> dst + 19 + n \<le> int (length (chatmem g)) \<and>
         src + 19 + n \<le> int (length (chatmem g))
      then Some (g\<lparr>chatmem := memmove (chatmem g) (nat (dst + 19)) (nat (src + 19)) (nat n)\<rparr>) else None)"

text \<open>\<open>while (cbuf[++ptr])\<close>: the first zero from a position on.\<close>

fun find_nul :: "nat \<Rightarrow> five \<Rightarrow> int \<Rightarrow> int option" where
  "find_nul 0 g i = None"
| "find_nul (Suc n) g i =
     (case cb_get g i of None \<Rightarrow> None | Some c \<Rightarrow> if c = NUL then Some i else find_nul n g (i + 1))"

text \<open>
  The two loops of Ctrl-W, counted down from a position: they test \<open>--ptr\<close> after the
  body, so that they stop at 0 only when they come from the right of it.
\<close>

fun skip_blanks :: "nat \<Rightarrow> five \<Rightarrow> int \<Rightarrow> int option" where
  "skip_blanks 0 g i = None"
| "skip_blanks (Suc n) g i =
     (case cb_get g i of
        None \<Rightarrow> None
      | Some c \<Rightarrow> if c \<noteq> CHR '' '' then Some i else if i - 1 = 0 then Some 0 else skip_blanks n g (i - 1))"

fun skip_word :: "nat \<Rightarrow> five \<Rightarrow> int \<Rightarrow> int option" where
  "skip_word 0 g i = None"
| "skip_word (Suc n) g i =
     (case (cb_get g i, cb_get g (i + 1)) of
        (Some c, c') \<Rightarrow>
          if c = CHR '' '' then
            (case c' of None \<Rightarrow> None | Some d \<Rightarrow> if d \<noteq> CHR '' '' then Some (i + 1) else Some i)
          else if i - 1 = 0 then Some 0 else skip_word n g (i - 1)
      | _ \<Rightarrow> None)"

definition erase_word :: "five \<Rightarrow> five option" where
  "erase_word g =
     (if ptr g = 0 then Some g
      else
        (case skip_blanks (length (chatmem g) + 1) g (ptr g - 1) of
           None \<Rightarrow> None
         | Some i \<Rightarrow>
             (case skip_word (length (chatmem g) + 1) g i of
                None \<Rightarrow> None
              | Some j \<Rightarrow> cb_move (g\<lparr>ptr := j\<rparr>) j (ptr g) (BSIZE - ptr g + 1))))"


text \<open>\<open>isprint2\<close> of include/macros.h on the integers \<open>igetkey\<close> returns.\<close>

definition is_key :: "nat \<Rightarrow> char \<Rightarrow> bool" where
  "is_key ch c \<longleftrightarrow> ch = cval c"

definition printable_key :: "nat \<Rightarrow> bool" where
  "printable_key ch \<longleftrightarrow> ch div 32 mod 8 \<noteq> 0 \<and> ch \<noteq> 127"

definition send_line :: "five \<Rightarrow> five option" where
  "send_line g =
     (if NUL \<in> set (tl (chatmem g)) then
        (case five_chat (cstr (tl (chatmem g))) (chatwin g) of
           None \<Rightarrow> None
         | Some w \<Rightarrow>
             cb_put (sends (g\<lparr>ptr := 0, chatwin := w\<rparr>)
               (take (length (cstr (tl (chatmem g))) + 2) (chatmem g))) 0 NUL)
      else None)"

definition type_char :: "nat \<Rightarrow> five \<Rightarrow> five option" where
  "type_char ch g =
     (if ptr g = BSIZE then Some g
      else
        (case cb_get g (ptr g) of
           None \<Rightarrow> None
         | Some c \<Rightarrow>
             if c = NUL then
               (case cb_put g (ptr g) (char_of ch) of
                  None \<Rightarrow> None
                | Some g1 \<Rightarrow> cb_put (g1\<lparr>ptr := ptr g + 1\<rparr>) (ptr g + 1) NUL)
             else
               (case cb_move g (ptr g + 1) (ptr g) (BSIZE - ptr g + 1) of
                  None \<Rightarrow> None
                | Some g1 \<Rightarrow> map_option (\<lambda>g2. g2\<lparr>ptr := ptr g + 1\<rparr>) (cb_put g1 (ptr g) (char_of ch)))))"

definition edit_key :: "nat \<Rightarrow> five \<Rightarrow> five option" where
  "edit_key ch g =
     (if ch = 10 \<or> ch = 13 then
        (case cb_get g 0 of None \<Rightarrow> None | Some c \<Rightarrow> if c = NUL then Some g else send_line g)
      else if ch = KEY_LEFT then Some (if ptr g \<noteq> 0 then g\<lparr>ptr := ptr g - 1\<rparr> else g)
      else if ch = KEY_RIGHT then
        (case cb_get g (ptr g) of None \<Rightarrow> None | Some c \<Rightarrow> Some (if c \<noteq> NUL then g\<lparr>ptr := ptr g + 1\<rparr> else g))
      else if ch = Ctrl CHR ''H'' \<or> ch = 127 then
        (if ptr g \<noteq> 0 then cb_move (g\<lparr>ptr := ptr g - 1\<rparr>) (ptr g - 1) (ptr g) (BSIZE - (ptr g - 1)) else Some g)
      else if ch = KEY_DEL then
        (case cb_get g (ptr g) of
           None \<Rightarrow> None
         | Some c \<Rightarrow> if c \<noteq> NUL then cb_move g (ptr g) (ptr g + 1) (BSIZE - ptr g) else Some g)
      else if ch = Ctrl CHR ''A'' then Some (g\<lparr>ptr := 0\<rparr>)
      else if ch = Ctrl CHR ''E'' then
        map_option (\<lambda>i. g\<lparr>ptr := i\<rparr>) (find_nul (length (chatmem g) + 1) g (ptr g + 1))
      else if ch = Ctrl CHR ''K'' then cb_put (g\<lparr>ptr := 0\<rparr>) 0 NUL
      else if ch = Ctrl CHR ''U'' then
        map_option (\<lambda>g1. g1\<lparr>ptr := 0\<rparr>) (cb_move g 0 (ptr g) (BSIZE - ptr g + 1))
      else if ch = Ctrl CHR ''W'' then erase_word g
      else if printable_key ch then type_char ch g
      else Some g)"


section \<open>A turn and a step\<close>

text \<open>The switch over the keys that move the cursor; \<open>None\<close> for the keys it does not know.\<close>

definition move_key :: "nat \<Rightarrow> five \<Rightarrow> five" where
  "move_key ch g =
     (if ch = KEY_DOWN \<or> is_key ch CHR ''j'' \<or> is_key ch CHR ''J'' then
        g\<lparr>py := (if 14 < py g + 1 then 0 else py g + 1)\<rparr>
      else if ch = KEY_UP \<or> is_key ch CHR ''k'' \<or> is_key ch CHR ''K'' then
        g\<lparr>py := (if py g - 1 < 0 then 14 else py g - 1)\<rparr>
      else if ch = KEY_LEFT \<or> is_key ch CHR ''h'' \<or> is_key ch CHR ''H'' then
        g\<lparr>px := (if px g - 1 < 0 then 28 else px g - 1)\<rparr>
      else if ch = KEY_RIGHT \<or> is_key ch CHR ''l'' \<or> is_key ch CHR ''L'' then
        g\<lparr>px := (if 28 < px g + 1 then 0 else px g + 1)\<rparr>
      else g)"

text \<open>The case of the space key: the column is the one the previous key left in \<open>x\<close>.\<close>

definition place :: "five \<Rightarrow> five option" where
  "place g =
     (let g1 = (if px g smod 2 = 1 then g\<lparr>px := px g - 1\<rparr> else g);
          h = hand g1 + 1
      in case put_stone (g1\<lparr>hand := h\<rparr>) (xcol g1) (py g1) (player g1) of
           None \<Rightarrow> None
         | Some g2 \<Rightarrow>
             map_option (\<lambda>cs. g2\<lparr>player := other (player g2), chess := cs\<rparr>) (poke (chess g2) h (px g2, py g2)))"

definition recheck :: "five \<Rightarrow> five" where
  "recheck g = g\<lparr>xcol := px g sdiv 2, banf := cells_of g (px g sdiv 2, py g) \<noteq> 0\<rparr>"

text \<open>
  The part of the loop run when it is the user's turn.  The flag of the result says that
  the loop is left, which happens when the packet cannot be sent.
\<close>

definition own_turn :: "nat \<Rightarrow> bool \<Rightarrow> five \<Rightarrow> (five \<times> bool) option" where
  "own_turn ch ok g =
     (if is_key ch CHR '' '' \<and> \<not> banf g then
        (case place g of
           None \<Rightarrow> None
         | Some g1 \<Rightarrow>
             (let g2 = (recheck g1)\<lparr>fdone := 0\<rparr> in
              if \<not> ok then Some (g2, True)
              else
                (let g3 = sends g2 (xy_po (px g2) (py g2))
                 in Some (g3\<lparr>tally := judge (cells_of g3) (px g3 sdiv 2) (py g3) (tally g3)\<rparr>, False))))
      else Some (recheck (move_key ch g), False))"

text \<open>
  The keys tested before the turn: the result says whether the loop goes on to the turn.
\<close>

definition control_key :: "nat \<Rightarrow> char \<Rightarrow> five \<Rightarrow> (five \<times> bool) option" where
  "control_key ch ans g =
     (let yes = (ans = CHR ''Y'' \<or> ans = CHR ''y'') in
      if ch = Ctrl CHR ''X'' then Some (g\<lparr>quitf := True\<rparr>, True)
      else if ch = Ctrl CHR ''C'' \<or> ch = Ctrl CHR ''D'' \<or>
              (is_key ch CHR ''Q'' \<or> is_key ch CHR ''q'') \<and> \<not> chating g
        then Some (g\<lparr>quitf := yes\<rparr>, True)
      else if ch = Ctrl CHR ''N'' \<or> (is_key ch CHR ''N'' \<or> is_key ch CHR ''n'') \<and> \<not> chating g
        then Some (if yes then sends g [CHR 0x01] else g, False)
      else if ch = 9 then Some (g\<lparr>chating := \<not> chating g\<rparr>, False)
      else if ch = 0 then Some (g, False)
      else if chating g then map_option (\<lambda>g1. (g1, False)) (edit_key ch g)
      else Some (g, True))"

definition after_key :: "five \<times> bool \<Rightarrow> outcome" where
  "after_key gb =
     (case gb of (g, broken) \<Rightarrow>
        if broken then Over g
        else if quitf g then Over (sends g [CHR 0xFF])
        else if winner (tally g) \<noteq> 0 then Playing (begin_game g)
        else Playing g)"

datatype event = Packet "char list" char | Key nat char bool

definition five_step :: "event \<Rightarrow> five \<Rightarrow> outcome option" where
  "five_step ev g =
     (case ev of
        Packet d ans \<Rightarrow> receive d ans g
      | Key ch ans ok \<Rightarrow>
          (case control_key ch ans g of
             None \<Rightarrow> None
           | Some (g1, on) \<Rightarrow>
               if \<not> on then Some (Playing g1)
               else if fdone g1 = 1 \<and> \<not> chating g1 then map_option after_key (own_turn ch ok g1)
               else Some (after_key (g1, False))))"

text \<open>The loop of \<open>five_pk\<close> over a sequence of events.\<close>

fun five_pk :: "event list \<Rightarrow> five \<Rightarrow> outcome option" where
  "five_pk [] g = Some (Playing g)"
| "five_pk (ev # evs) g =
     (case five_step ev g of
        None \<Rightarrow> None
      | Some (Over g1) \<Rightarrow> Some (Over g1)
      | Some (Playing g1) \<Rightarrow> five_pk evs g1)"


section \<open>Moves over the connection\<close>

lemma digit_char_simps:
  assumes "0 \<le> n" "n \<le> 9"
  shows "cval (digit_char n) = nat (n + 48)" "is_digit (digit_char n)" "\<not> is_space (digit_char n)"
    "digit_char n \<noteq> CHR 0x2D" "digit_char n \<noteq> CHR 0x2B"
proof -
  from assms show v: "cval (digit_char n) = nat (n + 48)" by (simp add: digit_char_def)
  from assms show "is_digit (digit_char n)" "\<not> is_space (digit_char n)"
    by (auto simp: is_digit_def is_space_def v)
  from v assms show "digit_char n \<noteq> CHR 0x2D" "digit_char n \<noteq> CHR 0x2B"
    by (auto simp: cval_def dest!: arg_cong [where f = "of_char :: char \<Rightarrow> nat"])
qed

lemma sdiv_pos: "0 \<le> a \<Longrightarrow> 0 < b \<Longrightarrow> a sdiv b = a div (b :: int)"
  by (cases "a = 0") (auto simp: signed_divide_int_def)

lemma smod_pos: "0 \<le> a \<Longrightarrow> 0 < b \<Longrightarrow> a smod b = a mod (b :: int)"
  by (cases "a = 0") (auto simp: signed_modulo_int_def sdiv_pos minus_div_mult_eq_mod)

lemma decode_xy_po:
  assumes "0 \<le> x" "x \<le> 99" "0 \<le> y" "y \<le> 99" "rest = [] \<or> \<not> is_digit (hd rest)"
  shows "decode_move (xy_po x y @ rest) = Some (x, y, 1)"
proof -
  have d: "0 \<le> x div 10" "x div 10 \<le> 9" "0 \<le> x mod 10" "x mod 10 \<le> 9"
    "0 \<le> y div 10" "y div 10 \<le> 9" "0 \<le> y mod 10" "y mod 10 \<le> 9" using assms by auto
  have po: "xy_po x y = [digit_char (x div 10), digit_char (x mod 10), digit_char (y div 10), digit_char (y mod 10), CHR 0x31]"
    using assms by (simp add: xy_po_def sdiv_pos smod_pos)
  have one: "is_digit CHR 0x31" "cval CHR 0x31 = 49" by (simp_all add: is_digit_def cval_def)
  note dg = digit_char_simps(2) and sp = digit_char_simps(3) and
    sg = digit_char_simps(4,5)
  have rest: "takeWhile is_digit rest = []" using assms(5) by (cases rest) auto
  have "atoi (xy_po x y @ rest) = decimal (xy_po x y @ rest)"
    unfolding atoi_def po using sp [OF d(1,2)] sg [OF d(1,2)] by simp
  also have "\<dots> = 10 * (10 * (10 * (10 * (x div 10) + x mod 10) + y div 10) + y mod 10) + 1"
    unfolding decimal_def po
    by (simp add: dg [OF d(1,2)] dg [OF d(3,4)] dg [OF d(5,6)] dg [OF d(7,8)] one rest d
      digit_char_simps(1) [OF d(1,2)] digit_char_simps(1) [OF d(3,4)] digit_char_simps(1) [OF d(5,6)]
      digit_char_simps(1) [OF d(7,8)] del: mult_div_mod_eq div_mult_mod_eq)
  also have "\<dots> = 1000 * x + 10 * y + 1" by presburger
  finally have a: "atoi (xy_po x y @ rest) = 1000 * x + 10 * y + 1" .
  have e: "1000 * x + 10 * y + 1 = (10 * y + 1) + x * 1000" by simp
  have "(1000 * x + 10 * y + 1) div 1000 = x"
    unfolding e using assms(3,4) div_mult_self1 [of 1000 "10 * y + 1" x] div_pos_pos_trivial [of "10 * y + 1" 1000] by linarith
  moreover have "(1000 * x + 10 * y + 1) mod 1000 = 10 * y + 1"
    unfolding e using assms(3,4) mod_mult_self1 [of "10 * y + 1" x 1000] mod_pos_pos_trivial [of "10 * y + 1" 1000] by linarith
  moreover have "(10 * y + 1) div 10 = y" by presburger
  moreover have "(1000 * x + 10 * y + 1) mod 10 = 1"
    using mod_mult_self1 [of 1 "100 * x + y" 10] by (simp add: algebra_simps)
  ultimately show ?thesis
    using a assms by (simp add: decode_move_def sdiv_pos smod_pos)
qed

lemma recv_into_xy_po:
  "5 \<le> length buf \<Longrightarrow> recv_into buf (xy_po x y) = xy_po x y @ drop 5 buf"
  by (simp add: recv_into_def xy_po_def numeral_eq_Suc)


section \<open>An invariant of the game\<close>

text \<open>
  What holds of the user's game as long as the other side keeps to the rules: the cursor is
  on the board, the number of the move is the number of stones, and when a stone may be put
  down (\<open>banf\<close> is 0) the point under the cursor is free.
\<close>

definition stones_on :: "nat list \<Rightarrow> nat" where
  "stones_on bd = length (filter (\<lambda>c. c \<noteq> 0) bd)"

definition game_ok :: "five \<Rightarrow> bool" where
  "game_ok g \<longleftrightarrow>
     length (board g) = 225 \<and> length (chess g) = 250 \<and> hand g = stones_on (board g) \<and>
     player g \<in> {black, white} \<and> winner (tally g) = 0 \<and>
     0 \<le> px g \<and> px g \<le> 28 \<and> 0 \<le> py g \<and> py g \<le> 14 \<and>
     (\<not> banf g \<longrightarrow> xcol g = px g sdiv 2 \<and> cells_of g (xcol g, py g) = 0)"

text \<open>
  The rules the other side keeps: it moves only when it is its turn, onto a free point of
  the board.
\<close>

definition control :: "char \<Rightarrow> bool" where
  "control c \<longleftrightarrow> c \<in> {NUL, CHR 0x01, CHR 0x02, CHR 0x03, CHR 0xFF}"

definition lawful :: "event \<Rightarrow> five \<Rightarrow> bool" where
  "lawful ev g \<longleftrightarrow>
     (case ev of
        Key ch ans ok \<Rightarrow> True
      | Packet d ans \<Rightarrow>
          d = [] \<or> control (recv_into (data g) d ! 0) \<or>
          banf g \<and> (\<exists>x y. decode_move (recv_into (data g) d) = Some (x, y, 1) \<and>
            0 \<le> x \<and> x \<le> 28 \<and> 0 \<le> y \<and> y \<le> 14 \<and> cells_of g (x sdiv 2, y) = 0))"

lemma cell_index_on_board:
  "0 \<le> x \<Longrightarrow> x \<le> 28 \<Longrightarrow> 0 \<le> y \<Longrightarrow> y \<le> 14 \<Longrightarrow>
   0 \<le> cell_index (x sdiv 2) y \<and> cell_index (x sdiv 2) y < 225"
  by (simp add: cell_index_def sdiv_pos)

lemma stones_on_put: "k < length bd \<Longrightarrow> bd ! k = 0 \<Longrightarrow> c \<noteq> 0 \<Longrightarrow> stones_on (bd[k := c]) = stones_on bd + 1"
proof (induction bd arbitrary: k)
  case (Cons b bd)
  then show ?case by (cases k) (auto simp: stones_on_def)
qed simp

lemma stones_on_free: "k < length bd \<Longrightarrow> bd ! k = 0 \<Longrightarrow> stones_on bd < length bd"
  unfolding stones_on_def by (rule length_filter_less [of "bd ! k"]) (metis nth_mem, simp)

lemma cells_of_cong: "board g = board h \<Longrightarrow> outside g = outside h \<Longrightarrow> cells_of g = cells_of h"
  by (simp add: cells_of_def Let_def cong: if_cong)

lemma cells_of_update [simp]:
  "cells_of (g\<lparr>data := d\<rparr>) = cells_of g" "cells_of (g\<lparr>chatmem := m\<rparr>) = cells_of g"
  "cells_of (g\<lparr>ptr := p\<rparr>) = cells_of g" "cells_of (g\<lparr>chatwin := w\<rparr>) = cells_of g"
  "cells_of (g\<lparr>sent := s\<rparr>) = cells_of g" "cells_of (g\<lparr>quitf := q\<rparr>) = cells_of g"
  "cells_of (g\<lparr>chating := c\<rparr>) = cells_of g" "cells_of (g\<lparr>fdone := n\<rparr>) = cells_of g"
  "cells_of (g\<lparr>px := x\<rparr>) = cells_of g" "cells_of (g\<lparr>py := x\<rparr>) = cells_of g"
  "cells_of (g\<lparr>xcol := x\<rparr>) = cells_of g" "cells_of (g\<lparr>banf := b\<rparr>) = cells_of g"
  "cells_of (g\<lparr>tally := t\<rparr>) = cells_of g" "cells_of (g\<lparr>hand := h\<rparr>) = cells_of g"
  "cells_of (g\<lparr>player := pl\<rparr>) = cells_of g" "cells_of (g\<lparr>chess := ch\<rparr>) = cells_of g"
  by (rule cells_of_cong; simp)+

lemma begin_game_ok: "length (chess g) = 250 \<Longrightarrow> game_ok (begin_game g)"
  by (simp add: game_ok_def begin_game_def stones_on_def numeral_eq_Suc)

lemma game_ok_frame:
  "game_ok g \<Longrightarrow> game_ok (g\<lparr>data := d\<rparr>)"
  "game_ok g \<Longrightarrow> game_ok (g\<lparr>chatmem := m, ptr := p, chatwin := w, sent := s\<rparr>)"
  "game_ok g \<Longrightarrow> game_ok (g\<lparr>quitf := q\<rparr>)"
  "game_ok g \<Longrightarrow> game_ok (g\<lparr>chating := c\<rparr>)"
  "game_ok g \<Longrightarrow> game_ok (g\<lparr>fdone := n\<rparr>)"
  "game_ok g \<Longrightarrow> winner t = 0 \<Longrightarrow> game_ok (g\<lparr>fdone := n, sent := s, tally := t\<rparr>)"
  by (auto simp: game_ok_def)

lemma sends_ok: "game_ok (sends g m) = game_ok g"
  by (simp add: game_ok_def sends_def)

text \<open>Putting a stone on a free point.\<close>

lemma put_stone_free:
  assumes "game_ok g" "0 \<le> x" "x \<le> 28" "0 \<le> y" "y \<le> 14" "cells_of g (x sdiv 2, y) = 0"
  obtains k where "k < 225" "board g ! k = 0" "int k = cell_index (x sdiv 2) y"
    "\<And>c. put_stone g (x sdiv 2) y c = Some (g\<lparr>board := (board g)[k := c]\<rparr>)"
    "hand g < 225"
proof -
  let ?i = "cell_index (x sdiv 2) y"
  from cell_index_on_board [OF assms(2-5)] have i: "0 \<le> ?i" "?i < 225" by auto
  have len: "length (board g) = 225" using assms(1) by (simp add: game_ok_def)
  have free: "board g ! nat ?i = 0" using assms(6) i len by (simp add: cells_of_def Let_def)
  show thesis
  proof (rule that [of "nat ?i"])
    show "hand g < 225" using stones_on_free [of "nat ?i" "board g"] free i len assms(1) by (simp add: game_ok_def)
  qed (use i len free in \<open>simp_all add: put_stone_def poke_def Let_def nat_less_iff\<close>)
qed

text \<open>After \<open>recheck\<close> the clause on \<open>banf\<close> holds by itself.\<close>

lemma recheck_ok:
  "length (board g) = 225 \<Longrightarrow> length (chess g) = 250 \<Longrightarrow> hand g = stones_on (board g) \<Longrightarrow>
   player g \<in> {black, white} \<Longrightarrow> winner (tally g) = 0 \<Longrightarrow> 0 \<le> px g \<Longrightarrow> px g \<le> 28 \<Longrightarrow>
   0 \<le> py g \<Longrightarrow> py g \<le> 14 \<Longrightarrow> game_ok (recheck g)"
  by (simp add: game_ok_def recheck_def)

lemma move_key_ok: "game_ok g \<Longrightarrow> game_ok (recheck (move_key ch g))"
  by (rule recheck_ok) (simp_all add: game_ok_def move_key_def)

text \<open>Putting a stone down, which the program does at the even column of the cursor.\<close>

lemma even_column:
  fixes x :: int
  assumes "0 \<le> x" "x \<le> 28"
  shows "0 \<le> (if x smod 2 = 1 then x - 1 else x)" "(if x smod 2 = 1 then x - 1 else x) \<le> 28"
    "(if x smod 2 = 1 then x - 1 else x) sdiv 2 = x sdiv 2"
proof -
  have odd: "0 < x \<and> (x - 1) sdiv 2 = x sdiv 2" if "x smod 2 = 1"
  proof -
    from that assms have m: "x mod 2 = 1" by (simp add: smod_pos)
    with assms have "0 < x" by (cases "x = 0") auto
    moreover from m have "(x - 1) div 2 = x div 2" by presburger
    ultimately show ?thesis by (simp add: sdiv_pos)
  qed
  with assms show "0 \<le> (if x smod 2 = 1 then x - 1 else x)" "(if x smod 2 = 1 then x - 1 else x) \<le> 28"
    "(if x smod 2 = 1 then x - 1 else x) sdiv 2 = x sdiv 2" by auto
qed

lemma place_ok:
  assumes "game_ok g" "\<not> banf g"
  obtains k x where "k < 225" "board g ! k = 0" "int k = cell_index (px g sdiv 2) (py g)"
    "0 \<le> x" "x \<le> 28" "x sdiv 2 = px g sdiv 2" "hand g < 225"
    "place g = Some (g\<lparr>px := x, hand := hand g + 1, board := (board g)[k := player g], player := other (player g),
       chess := (chess g)[hand g + 1 := (x, py g)]\<rparr>)"
proof -
  let ?x = "if px g smod 2 = 1 then px g - 1 else px g"
  have pos: "0 \<le> px g" "px g \<le> 28" "0 \<le> py g" "py g \<le> 14" and len: "length (board g) = 225" "length (chess g) = 250"
    using assms(1) by (simp_all add: game_ok_def)
  have x: "xcol g = px g sdiv 2" "cells_of g (px g sdiv 2, py g) = 0"
    using assms by (auto simp: game_ok_def)
  obtain k where k: "k < 225" "board g ! k = 0" "int k = cell_index (px g sdiv 2) (py g)" "hand g < 225"
    using put_stone_free [OF assms(1) pos x(2)] by blast
  have "place g = Some (g\<lparr>px := ?x, hand := hand g + 1, board := (board g)[k := player g], player := other (player g),
       chess := (chess g)[hand g + 1 := (?x, py g)]\<rparr>)"
    by (cases "px g smod 2 = 1")
      (use k len in \<open>simp_all add: place_def Let_def poke_def put_stone_def x(1) flip: k(3)\<close>)
  with that k even_column [OF pos(1,2)] show thesis by blast
qed

text \<open>A turn of the user: the board stays as it is, or gets one stone on a free point.\<close>

lemma own_turn_other:
  "\<not> (is_key ch CHR '' '' \<and> \<not> banf g) \<Longrightarrow> own_turn ch ok g = Some (recheck (move_key ch g), False)"
  by (auto simp: own_turn_def)

lemma own_turn_place:
  assumes "game_ok g" "\<not> banf g" "is_key ch CHR '' ''"
  obtains g' k where "own_turn ch ok g = Some (g', \<not> ok)" "k < 225" "board g ! k = 0"
    "int k = cell_index (px g' sdiv 2) (py g')" "player g' = other (player g)" "hand g' = hand g + 1"
    "board g' = (board g)[k := player g]" "fdone g' = 0" "length (chess g') = 250" "winner (tally g') = 0 \<Longrightarrow> game_ok g'"
    "outside g' = outside g" "quitf g' = quitf g" "0 \<le> px g'" "px g' \<le> 28" "0 \<le> py g'" "py g' \<le> 14"
    "ok \<Longrightarrow> sent g' = sent g @ [xy_po (px g') (py g')]"
    "ok \<Longrightarrow> tally g' = judge (cells_of g') (px g' sdiv 2) (py g') (tally g)"
proof -
  obtain k x where k: "k < 225" "board g ! k = 0" "int k = cell_index (px g sdiv 2) (py g)"
    "0 \<le> x" "x \<le> 28" "x sdiv 2 = px g sdiv 2" "hand g < 225"
    "place g = Some (g\<lparr>px := x, hand := hand g + 1, board := (board g)[k := player g], player := other (player g),
       chess := (chess g)[hand g + 1 := (x, py g)]\<rparr>)" (is "place g = Some ?h")
    using place_ok [OF assms(1,2)] by blast
  have len: "length (board g) = 225" "length (chess g) = 250" "hand g = stones_on (board g)"
    "player g \<in> {black, white}" "winner (tally g) = 0" "0 \<le> py g" "py g \<le> 14" using assms by (auto simp: game_ok_def)
  let ?g3 = "(recheck ?h)\<lparr>fdone := 0\<rparr>"
  have ok2: "game_ok (recheck ?h)"
    using len k stones_on_put [of k "board g" "player g"] by (intro recheck_ok) (auto simp: other_def)
  then have ok3: "game_ok ?g3" by (rule game_ok_frame(5))
  have ok4: "winner t = 0 \<Longrightarrow> game_ok (?g3\<lparr>sent := s, tally := t\<rparr>)" for s t
    using ok2 by (rule game_ok_frame(6))
  let ?g4 = "sends ?g3 (xy_po x (py g))"
  let ?r = "if ok then ?g4\<lparr>tally := judge (cells_of ?g4) (x sdiv 2) (py g) (tally g)\<rparr> else ?g3"
  have r: "own_turn ch ok g = Some (?r, \<not> ok)"
    using assms(2,3) k(8) by (simp add: own_turn_def Let_def recheck_def sends_def)
  show thesis
  proof (rule that [OF r k(1,2)])
    show "winner (tally ?r) = 0 \<Longrightarrow> game_ok ?r" using ok3 ok4 by (simp add: sends_def split: if_splits)
  qed (use k len in \<open>simp_all add: recheck_def sends_def\<close>)
qed

lemma own_turn_cases:
  assumes "game_ok g"
  shows "(\<exists>g'. own_turn ch ok g = Some (g', False) \<and> game_ok g' \<and> board g' = board g \<and> fdone g' = fdone g) \<or>
    (\<exists>g' k. own_turn ch ok g = Some (g', \<not> ok) \<and> k < 225 \<and> board g ! k = 0 \<and>
      board g' = (board g)[k := player g] \<and> fdone g' = 0 \<and> length (chess g') = 250 \<and>
      (winner (tally g') = 0 \<longrightarrow> game_ok g'))"
proof (cases "is_key ch CHR '' '' \<and> \<not> banf g")
  case False
  have "board (recheck (move_key ch g)) = board g" "fdone (recheck (move_key ch g)) = fdone g"
    by (simp_all add: recheck_def move_key_def)
  with own_turn_other [OF False] move_key_ok [OF assms, of ch] show ?thesis by blast
next
  case True
  obtain g' k where "own_turn ch ok g = Some (g', \<not> ok)" "k < 225" "board g ! k = 0"
    "board g' = (board g)[k := player g]" "fdone g' = 0" "length (chess g') = 250" "winner (tally g') = 0 \<Longrightarrow> game_ok g'"
    using own_turn_place [OF assms True [THEN conjunct2] True [THEN conjunct1], of ok] by metis
  then show ?thesis by (intro disjI2 exI [of _ g'] exI [of _ k] conjI impI)
qed

text \<open>The chat editor touches only the line, its position, the window and the connection.\<close>

definition chat_part :: "five \<Rightarrow> five \<Rightarrow> bool" where
  "chat_part g g' \<longleftrightarrow> (\<exists>m p w s. g' = g\<lparr>chatmem := m, ptr := p, chatwin := w, sent := s\<rparr> \<and> length m = length (chatmem g))"

lemma chat_part_refl [intro]: "chat_part g g"
  unfolding chat_part_def
  by (rule exI [of _ "chatmem g"], rule exI [of _ "ptr g"], rule exI [of _ "chatwin g"], rule exI [of _ "sent g"]) simp

lemma chat_part_trans: "chat_part g h \<Longrightarrow> chat_part h k \<Longrightarrow> chat_part g k"
  unfolding chat_part_def by (elim exE conjE) (simp, blast)

lemma chat_part_ptr: "chat_part g (g\<lparr>ptr := p\<rparr>)"
  unfolding chat_part_def
  by (rule exI [of _ "chatmem g"], rule exI [of _ p], rule exI [of _ "chatwin g"], rule exI [of _ "sent g"]) simp

lemma chat_part_send: "chat_part g (sends (g\<lparr>ptr := p, chatwin := w\<rparr>) m)"
  unfolding chat_part_def sends_def
  by (rule exI [of _ "chatmem g"], rule exI [of _ p], rule exI [of _ w], rule exI [of _ "sent g @ [m]"]) simp

lemma chat_part_mem: "length m = length (chatmem g) \<Longrightarrow> chat_part g (g\<lparr>chatmem := m\<rparr>)"
  unfolding chat_part_def
  by (rule exI [of _ m], rule exI [of _ "ptr g"], rule exI [of _ "chatwin g"], rule exI [of _ "sent g"]) simp

lemma cb_put_part: "cb_put g i c = Some g' \<Longrightarrow> chat_part g g'"
  by (auto simp: cb_put_def poke_def intro!: chat_part_mem split: if_splits)

lemma cb_move_part: "cb_move g d s n = Some g' \<Longrightarrow> chat_part g g'"
  by (auto simp: cb_move_def intro!: chat_part_mem length_memmove split: if_splits)

lemma type_char_part: "type_char ch g = Some g' \<Longrightarrow> chat_part g g'"
proof -
  assume a: "type_char ch g = Some g'"
  then consider "g' = g"
    | g1 where "cb_put g (ptr g) (char_of ch) = Some g1" "cb_put (g1\<lparr>ptr := ptr g + 1\<rparr>) (ptr g + 1) NUL = Some g'"
    | g1 g2 where "cb_move g (ptr g + 1) (ptr g) (BSIZE - ptr g + 1) = Some g1"
        "cb_put g1 (ptr g) (char_of ch) = Some g2" "g' = g2\<lparr>ptr := ptr g + 1\<rparr>"
    by (auto simp: type_char_def split: if_splits option.splits)
  then show ?thesis
    by cases (blast intro: chat_part_trans chat_part_ptr cb_put_part cb_move_part)+
qed

lemma erase_word_part: "erase_word g = Some g' \<Longrightarrow> chat_part g g'"
  unfolding erase_word_def
  by (auto split: if_splits option.splits intro: chat_part_trans [OF chat_part_ptr] dest!: cb_move_part)

lemma send_line_part: "send_line g = Some g' \<Longrightarrow> chat_part g g'"
  unfolding send_line_def
  by (auto split: if_splits option.splits dest!: cb_put_part intro: chat_part_trans [OF chat_part_send])

lemma edit_key_part: "edit_key ch g = Some g' \<Longrightarrow> chat_part g g'"
  unfolding edit_key_def
  by (auto split: if_splits option.splits simp: chat_part_ptr
      intro: type_char_part erase_word_part send_line_part cb_move_part cb_put_part
        chat_part_trans [OF chat_part_ptr cb_move_part] chat_part_trans [OF chat_part_ptr cb_put_part]
        chat_part_trans [OF cb_move_part chat_part_ptr])

lemma chat_part_ok: "chat_part g g' \<Longrightarrow> game_ok g \<Longrightarrow> game_ok g'"
  by (auto simp: chat_part_def game_ok_frame(2))

lemma control_key_ok: "game_ok g \<Longrightarrow> control_key ch ans g = Some (g', on) \<Longrightarrow> game_ok g'"
  unfolding control_key_def
  by (auto simp: Let_def sends_ok game_ok_frame split: if_splits intro: chat_part_ok edit_key_part)

lemma after_key_ok:
  assumes "length (chess g) = 250" "winner (tally g) = 0 \<Longrightarrow> game_ok g" "after_key (g, b) = Playing g'"
  shows "game_ok g'"
  using assms by (auto simp: after_key_def begin_game_ok split: if_splits)

lemma game_ok_chess: "game_ok g \<Longrightarrow> length (chess g) = 250"
  by (simp add: game_ok_def)

lemma receive_move_ok:
  assumes "game_ok g" "decode_move (data g) = Some (x, y, done)" "0 \<le> x" "x \<le> 28" "0 \<le> y" "y \<le> 14"
    "cells_of g (x sdiv 2, y) = 0" "banf g"
  shows "\<exists>g'. receive_move g = Some g' \<and> game_ok g'"
proof -
  obtain k where k: "k < 225" "board g ! k = 0" "int k = cell_index (x sdiv 2) y"
    "\<And>c. put_stone g (x sdiv 2) y c = Some (g\<lparr>board := (board g)[k := c]\<rparr>)" "hand g < 225"
    using put_stone_free [OF assms(1,3-7)] by blast
  let ?g2 = "g\<lparr>board := (board g)[k := player g], fdone := done, hand := hand g + 1, xcol := x sdiv 2,
    player := other (player g)\<rparr>"
  let ?g3 = "?g2\<lparr>tally := judge (cells_of ?g2) (x sdiv 2) y (tally ?g2), py := y, px := x\<rparr>"
  have r: "receive_move g = Some (if winner (tally ?g3) \<noteq> 0 then begin_game ?g3 else ?g3)"
    by (simp add: receive_move_def assms(2) k(4) Let_def)
  moreover have "game_ok ?g3" if "winner (tally ?g3) = 0"
    using that assms k stones_on_put [of k "board g" "player g"]
    by (auto simp: game_ok_def other_def)
  moreover have "length (chess ?g3) = 250" using assms(1) by (simp add: game_ok_def)
  ultimately show ?thesis using begin_game_ok by simp
qed

lemma receive_ok:
  assumes "game_ok g" "lawful (Packet d ans) g" "receive d ans g = Some (Playing g')"
  shows "game_ok g'"
proof -
  let ?g1 = "g\<lparr>data := recv_into (data g) d\<rparr>" and ?c = "recv_into (data g) d ! 0"
  have ok1: "game_ok ?g1" using assms(1) by (rule game_ok_frame)
  have ok2: "game_ok (?g1\<lparr>chatwin := w\<rparr>)" for w using ok1 by (auto simp: game_ok_def)
  have begin_ok: "game_ok (begin_game (?g1\<lparr>first := True\<rparr>))"
    "game_ok (begin_game (sends (?g1\<lparr>first := False\<rparr>) m))" for m
    using game_ok_chess [OF ok1] by (auto intro!: begin_game_ok simp: sends_def)
  from assms(3) have d: "d \<noteq> []" by (auto simp: receive_def)
  show ?thesis
  proof (cases "control ?c")
    case True
    with assms(3) d show ?thesis
      by (auto simp: receive_def Let_def control_def begin_ok ok1 ok2 sends_ok split: if_splits)
  next
    case False
    with assms(2) d obtain x y where m: "banf g" "decode_move (data ?g1) = Some (x, y, 1)"
      "0 \<le> x" "x \<le> 28" "0 \<le> y" "y \<le> 14" "cells_of g (x sdiv 2, y) = 0" by (auto simp: lawful_def)
    have "receive d ans g = map_option Playing (receive_move ?g1)"
      using False d by (simp add: receive_def Let_def control_def)
    with receive_move_ok [OF ok1 m(2-6)] m assms(3) show ?thesis by auto
  qed
qed

lemma five_step_ok:
  assumes "game_ok g" "lawful ev g" "five_step ev g = Some (Playing g')"
  shows "game_ok g'"
proof (cases ev)
  case (Packet d ans)
  with assms receive_ok show ?thesis by (auto simp: five_step_def)
next
  case (Key ch ans ok)
  with assms(3) obtain g1 on where c: "control_key ch ans g = Some (g1, on)"
    by (auto simp: five_step_def split: option.splits)
  have ok1: "game_ok g1" by (rule control_key_ok [OF assms(1) c])
  consider "g' = g1" | "after_key (g1, False) = Playing g'"
    | g2 b where "own_turn ch ok g1 = Some (g2, b)" "after_key (g2, b) = Playing g'"
    using assms(3) by (auto simp: five_step_def Key c split: if_splits)
  then show ?thesis
  proof cases
    case 2
    then show ?thesis using after_key_ok [OF game_ok_chess [OF ok1] ok1] by blast
  next
    case 3
    from own_turn_cases [OF ok1, of ch ok] 3(1)
    have "length (chess g2) = 250 \<and> (winner (tally g2) = 0 \<longrightarrow> game_ok g2)"
      using game_ok_chess by auto
    with after_key_ok [OF _ _ 3(2)] show ?thesis by blast
  qed (use ok1 in simp)
qed


section \<open>The chat line as a list\<close>

text \<open>
  What the user sees: a line \<open>s\<close> and a position in it.  The commands that search the line
  (Ctrl-E, Ctrl-W) are left out here, because they can leave it.
\<close>

definition line_is :: "five \<Rightarrow> string \<Rightarrow> nat \<Rightarrow> bool" where
  "line_is g s p \<longleftrightarrow> length (chatmem g) = 81 \<and> is_cstr s \<and> length s \<le> 60 \<and> p \<le> length s \<and> ptr g = int p \<and>
     (\<exists>pre rest. chatmem g = pre @ s @ NUL # rest \<and> length pre = 19)"

definition edit_line :: "nat \<Rightarrow> string \<times> nat \<Rightarrow> string \<times> nat" where
  "edit_line ch sp =
     (case sp of (s, p) \<Rightarrow>
        if ch = KEY_LEFT then (s, p - 1)
        else if ch = KEY_RIGHT then (s, if p < length s then p + 1 else p)
        else if ch = 8 \<or> ch = 127 then (if p = 0 then (s, p) else (remove_nth (p - 1) s, p - 1))
        else if ch = KEY_DEL then (if p < length s then remove_nth p s else s, p)
        else if ch = 1 then (s, 0)
        else if ch = 11 then ([], 0)
        else if ch = 21 then (drop p s, 0)
        else if printable_key ch \<and> p \<noteq> 60 then (insert_nth p (char_of ch) s, p + 1)
        else (s, p))"

definition plain_key :: "nat \<Rightarrow> bool" where
  "plain_key ch \<longleftrightarrow> ch \<in> {KEY_LEFT, KEY_RIGHT, KEY_DEL, 1, 8, 11, 21} \<or> 32 \<le> ch \<and> ch < 256"

lemma memmove_down:
  assumes "length mem = length pre + (length a + (length b + (length c + Suc (length rest))))"
    "mem = pre @ a @ b @ c @ NUL # rest" "length c + 1 \<le> n" "length pre + length a + length b + n \<le> length mem"
  shows "\<exists>rest'. memmove mem (length pre + length a) (length pre + length a + length b) n = pre @ a @ c @ NUL # rest'"
proof -
  have t: "take (length pre + length a) mem = pre @ a" using assms(2) by simp
  have "drop (length pre + length a + length b) mem = c @ NUL # rest" using assms(2) by simp
  moreover obtain m where "n = length c + Suc m" using assms(3) by (metis add.commute add_Suc_right le_add_diff_inverse2 plus_1_eq_Suc)
  ultimately have "take n (drop (length pre + length a + length b) mem) = c @ NUL # take m rest" by simp
  with t show ?thesis by (simp add: memmove_def)
qed

lemma memmove_up:
  assumes "mem = pre @ a @ c @ NUL # rest" "length c + 1 \<le> n" "length pre + length a + 1 + n \<le> length mem"
  shows "\<exists>rest'. (memmove mem (length pre + length a + 1) (length pre + length a) n)[length pre + length a := x] =
    pre @ a @ x # c @ NUL # rest'"
proof -
  have t: "take (length pre + length a + 1) mem = (pre @ a) @ [(c @ NUL # rest) ! 0]"
    using assms(1) by (cases c) simp_all
  have "drop (length pre + length a) mem = c @ NUL # rest" using assms(1) by simp
  moreover obtain m where "n = length c + Suc m" using assms(2) by (metis add.commute add_Suc_right le_add_diff_inverse2 plus_1_eq_Suc)
  ultimately have "take n (drop (length pre + length a) mem) = c @ NUL # take m rest" by simp
  with t show ?thesis by (simp add: memmove_def list_update_append)
qed

lemma line_get:
  assumes "line_is g s p" "q \<le> length s"
  shows "cb_get g (int q) = Some (if q < length s then s ! q else NUL)"
  using assms by (auto simp: line_is_def cb_get_def nat_add_distrib nth_append split: if_splits)

lemma line_nth_NUL: "line_is g s p \<Longrightarrow> q < length s \<Longrightarrow> s ! q \<noteq> NUL"
  by (auto simp: line_is_def is_cstr_def in_set_conv_nth)

text \<open>Removing the part of the line between two positions.\<close>

lemma line_cut:
  assumes "line_is g s p" "q \<le> r" "r \<le> length s" "61 \<le> n + int r" "n + int r \<le> 62"
  shows "\<exists>g'. cb_move g (int q) (int r) n = Some g' \<and> (\<forall>p' \<le> length s - (r - q).
    line_is (g'\<lparr>ptr := int p'\<rparr>) (take q s @ drop r s) p')"
proof -
  obtain pre rest where mem: "chatmem g = pre @ s @ NUL # rest" "length pre = 19"
    and len: "length (chatmem g) = 81" "length s \<le> 60" "is_cstr s" using assms(1) by (auto simp: line_is_def)
  let ?b = "take (r - q) (drop q s)"
  have s: "s = take q s @ ?b @ drop r s"
    using assms(2) by (metis append_take_drop_id drop_drop le_add_diff_inverse2)
  have n: "0 \<le> n" "int (nat n) = n" using assms len by auto
  have "\<exists>rest'. memmove (chatmem g) (length pre + length (take q s)) (length pre + length (take q s) + length ?b) (nat n) =
    pre @ take q s @ drop r s @ NUL # rest'"
  proof (rule memmove_down)
    show m: "chatmem g = pre @ take q s @ ?b @ drop r s @ NUL # rest" using mem(1) s by (metis append.assoc)
    then show "length (chatmem g) = length pre + (length (take q s) + (length ?b + (length (drop r s) + Suc (length rest))))"
      by (metis length_append length_Cons)
  qed (use assms len mem(2) n in auto)
  moreover have "length pre + length (take q s) = nat (int q + 19)"
    "length pre + length (take q s) + length ?b = nat (int r + 19)" using assms mem(2) by auto
  ultimately obtain rest' where mv:
    "memmove (chatmem g) (nat (int q + 19)) (nat (int r + 19)) (nat n) = pre @ take q s @ drop r s @ NUL # rest'" by metis
  have b: "int r + 19 + n \<le> 81" "int q + 19 + n \<le> 81" using assms by auto
  obtain m where m: "n = int m" by (rule nonneg_int_cases [OF n(1)])
  have q19: "nat (int q + 19) + nat n \<le> 81" and r19: "nat (int r + 19) + nat n \<le> 81"
    using b by (simp_all add: m)
  have "length (memmove (chatmem g) (nat (int q + 19)) (nat (int r + 19)) (nat n)) = length (chatmem g)"
    using len(1) q19 r19 by (intro length_memmove) simp_all
  with mv len(1) have l: "length (pre @ take q s @ drop r s @ NUL # rest') = 81" by simp
  have c: "cb_move g (int q) (int r) n = Some (g\<lparr>chatmem := pre @ take q s @ drop r s @ NUL # rest'\<rparr>)"
    using b n(1) len(1) mv by (simp add: cb_move_def)
  have "line_is (g\<lparr>chatmem := pre @ take q s @ drop r s @ NUL # rest', ptr := int p'\<rparr>) (take q s @ drop r s) p'"
    if "p' \<le> length s - (r - q)" for p'
    unfolding line_is_def
  proof (intro conjI)
    show "\<exists>pre' rest''. chatmem (g\<lparr>chatmem := pre @ take q s @ drop r s @ NUL # rest', ptr := int p'\<rparr>) =
        pre' @ (take q s @ drop r s) @ NUL # rest'' \<and> length pre' = 19"
      using mem(2) by (intro exI [of _ pre] exI [of _ rest']) simp
  qed (use l that assms len in auto)
  with c show ?thesis by blast
qed


lemma line_insert:
  assumes "line_is g s p" "length s < 60" "p < length s" "x \<noteq> NUL"
  shows "\<exists>g1 g2. cb_move g (int p + 1) (int p) (61 - int p) = Some g1 \<and> cb_put g1 (int p) x = Some g2 \<and>
    line_is (g2\<lparr>ptr := int p + 1\<rparr>) (insert_nth p x s) (p + 1)"
proof -
  obtain pre rest where mem: "chatmem g = pre @ s @ NUL # rest" "length pre = 19"
    and len: "length (chatmem g) = 81" "is_cstr s" using assms(1) by (auto simp: line_is_def)
  let ?m = "memmove (chatmem g) (nat (int p + 20)) (nat (int p + 19)) (nat (61 - int p))"
  have "\<exists>rest'. (memmove (chatmem g) (length pre + length (take p s) + 1) (length pre + length (take p s)) (nat (61 - int p)))
      [length pre + length (take p s) := x] = pre @ take p s @ x # drop p s @ NUL # rest'"
    by (rule memmove_up [where c = "drop p s" and rest = rest]) (use mem len assms in auto)
  moreover have i: "length pre + length (take p s) + 1 = nat (int p + 20)" "length pre + length (take p s) = nat (int p + 19)"
    using mem(2) assms(3) by auto
  ultimately obtain rest' where r: "?m[nat (int p + 19) := x] = pre @ take p s @ x # drop p s @ NUL # rest'" by metis
  have "length ?m = 81" using len(1) assms by (subst length_memmove) auto
  then have put: "cb_put (g\<lparr>chatmem := ?m\<rparr>) (int p) x = Some (g\<lparr>chatmem := ?m[nat (int p + 19) := x]\<rparr>)"
    using assms by (simp add: cb_put_def poke_def)
  have "cb_move g (int p + 1) (int p) (61 - int p) = Some (g\<lparr>chatmem := ?m\<rparr>)"
    using len(1) assms by (simp add: cb_move_def add.commute)
  moreover have "length (pre @ take p s @ x # drop p s @ NUL # rest') = 81"
    using \<open>length ?m = 81\<close> r by (metis length_list_update)
  then have "line_is (g\<lparr>chatmem := ?m[nat (int p + 19) := x], ptr := int p + 1\<rparr>) (insert_nth p x s) (p + 1)"
    unfolding line_is_def
  proof (intro conjI)
    show "\<exists>pre' rest''. chatmem (g\<lparr>chatmem := ?m[nat (int p + 19) := x], ptr := int p + 1\<rparr>) =
        pre' @ insert_nth p x s @ NUL # rest'' \<and> length pre' = 19"
      using mem(2) r by (intro exI [of _ pre] exI [of _ rest']) (simp add: insert_nth_def)
  qed (use len assms r in \<open>simp_all add: insert_nth_def\<close>)
  ultimately show ?thesis using put by auto
qed

lemma line_append:
  assumes "line_is g s p" "length s < 60" "p = length s" "x \<noteq> NUL"
  shows "\<exists>g1 g2. cb_put g (int p) x = Some g1 \<and> cb_put (g1\<lparr>ptr := int p + 1\<rparr>) (int p + 1) NUL = Some g2 \<and>
    line_is g2 (s @ [x]) (p + 1)"
proof -
  obtain pre rest where mem: "chatmem g = pre @ s @ NUL # rest" "length pre = 19"
    and len: "length (chatmem g) = 81" "is_cstr s" using assms(1) by (auto simp: line_is_def)
  then obtain r rest' where rest: "rest = r # rest'" using assms(2) by (cases rest) auto
  have n: "nat (int (length s) + 19) = length pre + length s" "nat (int (length s) + 20) = length pre + length s + 1"
    using mem(2) by simp_all
  have l: "length pre + length s + 1 < length (chatmem g)" using mem len assms(2) by simp
  have "(chatmem g)[length pre + length s := x, length pre + length s + 1 := NUL] = pre @ (s @ [x]) @ NUL # rest'"
    unfolding mem(1) rest by (simp add: list_update_append)
  then have "line_is (g\<lparr>ptr := int p + 1, chatmem := (chatmem g)[length pre + length s := x, length pre + length s + 1 := NUL]\<rparr>) (s @ [x]) (p + 1)"
    unfolding line_is_def using len assms mem rest by auto
  then show ?thesis
    using l n by (simp add: assms(3) cb_put_def poke_def add.assoc)
qed

lemma line_ptr: "line_is g s p \<Longrightarrow> q \<le> length s \<Longrightarrow> line_is (g\<lparr>ptr := int q\<rparr>) s q"
  by (simp add: line_is_def)

lemma line_clear:
  assumes "line_is g s p"
  shows "\<exists>g'. cb_put (g\<lparr>ptr := 0\<rparr>) 0 NUL = Some g' \<and> line_is g' [] 0"
proof -
  obtain pre rest where mem: "chatmem g = pre @ s @ NUL # rest" "length pre = 19"
    and len: "length (chatmem g) = 81" using assms(1) by (auto simp: line_is_def)
  have "(chatmem g)[19 := NUL] = pre @ [] @ NUL # tl (s @ NUL # rest)"
    using mem by (cases s) (simp_all add: list_update_append)
  with len mem show ?thesis by (auto simp: cb_put_def poke_def line_is_def)
qed

lemma type_char_line:
  assumes "line_is g s p" "32 \<le> ch" "ch < 256" "length s < 60 \<or> p = 60"
  shows "\<exists>g'. type_char ch g = Some g' \<and> (if p = 60 then g' = g else line_is g' (insert_nth p (char_of ch) s) (p + 1))"
proof (cases "p = 60")
  case True
  with assms(1) show ?thesis by (simp add: type_char_def line_is_def)
next
  case False
  have x: "(char_of ch :: char) \<noteq> NUL" using assms(2,3) cval_char_of [of ch] by (metis cval_NUL not_numeral_le_zero)
  have ptr: "ptr g = int p" "p \<le> length s" "length s \<le> 60" using assms(1) by (auto simp: line_is_def)
  show ?thesis
  proof (cases "p < length s")
    case True
    then show ?thesis
      using line_insert [OF assms(1) _ True x] line_get [OF assms(1), of p] line_nth_NUL [OF assms(1) True] False assms(4) ptr
      by (auto simp: type_char_def)
  next
    case eq: False
    with ptr have e: "p = length s" by simp
    then show ?thesis
      using line_append [OF assms(1) _ e x] line_get [OF assms(1), of p] False assms(4) ptr
      by (auto simp: type_char_def insert_nth_def)
  qed
qed


lemma edit_key_line:
  assumes "line_is g s p" "plain_key ch" "printable_key ch \<Longrightarrow> length s < 60 \<or> p = 60"
  shows "\<exists>g'. edit_key ch g = Some g' \<and> line_is g' (fst (edit_line ch (s, p))) (snd (edit_line ch (s, p)))"
proof -
  have ptr: "ptr g = int p" "p \<le> length s" "length s \<le> 60" using assms(1) by (auto simp: line_is_def)
  have get: "cb_get g (int p) = Some (if p < length s then s ! p else NUL)" by (rule line_get [OF assms(1) ptr(2)])
  have nz: "p < length s \<Longrightarrow> s ! p \<noteq> NUL" using line_nth_NUL [OF assms(1)] by blast
  note defs = edit_key_def edit_line_def Ctrl_def cval_def of_char_def
  consider "ch = KEY_LEFT" | "ch = KEY_RIGHT" | "ch = 8 \<or> ch = 127" | "ch = KEY_DEL" | "ch = 1" | "ch = 11" | "ch = 21"
    | "32 \<le> ch" "ch < 256" "ch \<noteq> 127"
    using assms(2) by (auto simp: plain_key_def)
  then show ?thesis
  proof cases
    case 1
    have "int p - 1 = int (p - 1)" if "p \<noteq> 0" using that by simp
    with 1 show ?thesis using line_ptr [OF assms(1), of "p - 1"] ptr assms(1) by (auto simp: defs)
  next
    case 2
    with nz get show ?thesis using line_ptr [OF assms(1), of "p + 1"] ptr assms(1) by (auto simp: defs add.commute)
  next
    case 3
    show ?thesis
    proof (cases p)
      case 0
      with 3 show ?thesis using ptr assms(1) by (auto simp: defs)
    next
      case (Suc k)
      have l: "line_is (g\<lparr>ptr := int k\<rparr>) s k" by (rule line_ptr [OF assms(1)]) (use Suc ptr in simp)
      obtain g' where g': "cb_move (g\<lparr>ptr := int k\<rparr>) (int k) (int (Suc k)) (60 - int k) = Some g'"
        "line_is (g'\<lparr>ptr := int k\<rparr>) (take k s @ drop (Suc k) s) k"
        using line_cut [OF l, of k "Suc k" "60 - int k"] Suc ptr by auto
      have "ptr g' = int k" using g'(1) by (auto simp: cb_move_def split: if_splits)
      then have "g'\<lparr>ptr := int k\<rparr> = g'" by simp
      with g' 3 show ?thesis using Suc ptr by (auto simp: defs remove_nth_def)
    qed
  next
    case 4
    show ?thesis
    proof (cases "p < length s")
      case True
      obtain g' where g': "cb_move g (int p) (int (Suc p)) (60 - int p) = Some g'"
        "line_is (g'\<lparr>ptr := int p\<rparr>) (take p s @ drop (Suc p) s) p"
        using line_cut [OF assms(1), of p "Suc p" "60 - int p"] True by auto
      have "ptr g' = int p" using g'(1) ptr by (auto simp: cb_move_def split: if_splits)
      then have "g'\<lparr>ptr := int p\<rparr> = g'" by simp
      then have l: "line_is g' (remove_nth p s) p" using g'(2) by (simp add: remove_nth_def)
      have c: "cb_move g (ptr g) (ptr g + 1) (60 - ptr g) = Some g'" using g'(1) ptr(1) by (simp add: add.commute)
      have "edit_key ch g = Some g'"
        unfolding edit_key_def using 4 c get nz [OF True] True ptr(1) by (simp add: Ctrl_def cval_def of_char_def)
      with 4 True l show ?thesis by (simp add: edit_line_def)
    next
      case False
      with 4 get show ?thesis using ptr assms(1) by (auto simp: defs)
    qed
  next
    case 5
    then show ?thesis using line_ptr [OF assms(1), of 0] by (auto simp: defs)
  next
    case 6
    then show ?thesis using line_clear [OF assms(1)] by (auto simp: defs)
  next
    case 7
    obtain g' where g': "cb_move g (int 0) (int p) (61 - int p) = Some g'"
      "line_is (g'\<lparr>ptr := int 0\<rparr>) (take 0 s @ drop p s) 0"
      using line_cut [OF assms(1), of 0 p "61 - int p"] ptr by auto
    with 7 show ?thesis using ptr by (auto simp: defs)
  next
    case 8
    then have "1 \<le> ch div 32" "ch div 32 < 8" by auto
    with 8 have pk: "printable_key ch" by (simp add: printable_key_def)
    have e: "edit_key ch g = type_char ch g"
      "edit_line ch (s, p) = (if p \<noteq> 60 then (insert_nth p (char_of ch) s, p + 1) else (s, p))"
      using 8 pk by (simp_all add: defs)
    show ?thesis using type_char_line [OF assms(1) 8(1,2) assms(3) [OF pk]] assms(1) by (auto simp: e)
  qed
qed


section \<open>What the chat window shows\<close>

fun chats :: "string list \<Rightarrow> chat \<Rightarrow> chat option" where
  "chats [] c = Some c"
| "chats (m # ms) c = (case five_chat m c of None \<Rightarrow> None | Some c1 \<Rightarrow> chats ms c1)"

text \<open>The ring holds the last four messages, and row 17 and the following show them in order.\<close>

definition displays :: "string list \<Rightarrow> chat \<Rightarrow> bool" where
  "displays ms c \<longleftrightarrow> length (wins c) = 4 \<and> (\<forall>w \<in> set (wins c). length w = 80) \<and>
     slot c = length ms mod 4 \<and> curr c = 17 + min 4 (length ms) \<and> rows c (curr c) = ''===>'' \<and>
     (\<forall>i < length ms. length ms \<le> i + 4 \<longrightarrow>
        cstr (wins c ! (i mod 4)) = take 79 (ms ! i) \<and> rows c (17 + i - (length ms - 4)) = take 79 (ms ! i))"

lemma strlcpy_80:
  assumes "is_cstr m" "length w = 80"
  obtains w' where "strlcpy w m 80 = Some (w', length m)" "length w' = 80" "cstr w' = take 79 m"
proof -
  obtain w' where w: "strlcpy w m 80 = Some (w', length m)" "length w' = 80"
    "take (Suc (length (take 79 m))) w' = take 79 m @ [NUL]"
    using strlcpy_ok [OF assms(1), of 80 w] assms(2) by auto
  then have "w' = take 79 m @ NUL # drop (Suc (length (take 79 m))) w'"
    by (metis append.assoc append_Cons append_Nil append_take_drop_id)
  then have "cstr w' = take 79 m" using assms(1) by (metis cstr_append_NUL is_cstr_take)
  with w that show thesis by blast
qed

lemma scrolled: "k < 4 \<Longrightarrow> fold (\<lambda>i r. r(i := f i)) [17..<21] (r0 :: nat \<Rightarrow> string) (17 + k) = f (17 + k)"
  by (auto simp: upt_rec less_Suc_eq numeral_eq_Suc)

lemma displaysI:
  assumes "length ws = 4" "\<forall>w \<in> set ws. length w = 80"
    "\<And>i. i < length ms \<Longrightarrow> length ms \<le> i + 4 \<Longrightarrow> cstr (ws ! (i mod 4)) = take 79 (ms ! i)"
    "\<And>i. i < length ms \<Longrightarrow> length ms \<le> i + 4 \<Longrightarrow>
      r (17 + i - (length ms - 4)) = take 79 (ms ! i) \<and> 17 + i - (length ms - 4) < cur"
    "cur = 17 + min 4 (length ms)" "p = length ms mod 4"
  shows "displays ms (c\<lparr>wins := ws, curr := cur, slot := p, rows := r(cur := ''===>'')\<rparr>)"
  unfolding displays_def
proof (intro conjI allI impI)
  fix i assume i: "i < length ms" "length ms \<le> i + 4"
  from assms(4) [OF i] show "rows (c\<lparr>wins := ws, curr := cur, slot := p, rows := r(cur := ''===>'')\<rparr>)
      (17 + i - (length ms - 4)) = take 79 (ms ! i)" by simp
qed (use assms in simp_all)

lemma five_chat_shows:
  assumes "displays ms c" "is_cstr m"
  shows "\<exists>c'. five_chat m c = Some c' \<and> displays (ms @ [m]) c'"
proof -
  let ?n = "length ms"
  have c: "length (wins c) = 4" "\<forall>w \<in> set (wins c). length w = 80" "slot c = ?n mod 4" "curr c = 17 + min 4 ?n"
    "\<And>i. i < ?n \<Longrightarrow> ?n \<le> i + 4 \<Longrightarrow>
       cstr (wins c ! (i mod 4)) = take 79 (ms ! i) \<and> rows c (17 + i - (?n - 4)) = take 79 (ms ! i)"
    using assms(1) by (auto simp: displays_def)
  have "length (wins c ! slot c) = 80" using c by (simp add: nth_mem)
  then obtain w where w: "strlcpy (wins c ! slot c) m 80 = Some (w, length m)" "length w = 80" "cstr w = take 79 m"
    using strlcpy_80 [OF assms(2)] by blast
  let ?ws = "(wins c)[slot c := w]"
  have slot: "(if slot c + 1 = 4 then 0 else slot c + 1) = Suc ?n mod 4"
    by (simp add: c(3) mod_Suc)
  have ring: "cstr (?ws ! (i mod 4)) = take 79 ((ms @ [m]) ! i)" if "i < Suc ?n" "Suc ?n \<le> i + 4" for i
  proof (cases "i = ?n")
    case True
    with w c show ?thesis by simp
  next
    case False
    with that have "i < ?n" "\<not> 4 dvd ?n - i" by (auto dest: dvd_imp_le)
    then have "i mod 4 \<noteq> ?n mod 4" by (metis less_imp_le mod_eq_dvd_iff_nat)
    with False that c(5) [of i] c(3) show ?thesis by (simp add: nth_append)
  qed
  have ws: "length ?ws = 4" "\<forall>v \<in> set ?ws. length v = 80"
    using c w by (auto dest!: set_update_subset_insert [THEN subsetD])
  show ?thesis
  proof (cases "?n < 4")
    case True
    let ?c = "c\<lparr>wins := ?ws, curr := 18 + ?n, slot := Suc ?n mod 4, rows := (rows c)(17 + ?n := cstr w, 18 + ?n := ''===>'')\<rparr>"
    have "five_chat m c = Some ?c"
      using True slot by (simp add: five_chat_def w(1) c(4) Let_def)
    moreover have "displays (ms @ [m]) ?c"
      unfolding displays_def using ws ring True c(5) w(3) by (auto simp: nth_append less_Suc_eq)
    ultimately show ?thesis by blast
  next
    case False
    let ?r = "fold (\<lambda>i r. r(i := cstr (?ws ! ((Suc ?n mod 4 + 4 + (i - 17)) mod 4)))) [17..<21] ((rows c)(21 := cstr w))"
    let ?c = "c\<lparr>wins := ?ws, curr := 21, slot := Suc ?n mod 4, rows := ?r(21 := ''===>'')\<rparr>"
    have "five_chat m c = Some ?c"
      using False slot by (simp add: five_chat_def w(1) c(4) Let_def)
    moreover have "?r (17 + i - (Suc ?n - 4)) = take 79 ((ms @ [m]) ! i) \<and> 17 + i - (Suc ?n - 4) < 21"
      if "i < Suc ?n" "Suc ?n \<le> i + 4" for i
    proof -
      define k where "k = i - (?n - 3)"
      have k: "i = ?n - 3 + k" "k < 4" using that False by (auto simp: k_def)
      then have e: "17 + i - (Suc ?n - 4) = 17 + k" using False by simp
      have m: "(Suc ?n mod 4 + 4 + k) mod 4 = i mod 4"
      proof -
        have "Suc ?n + (4 + k) = i + 2 * 4" using k(1) False by simp
        then show ?thesis by (metis add.assoc mod_add_left_eq mod_mult_self1)
      qed
      have "?r (17 + k) = cstr (?ws ! ((Suc ?n mod 4 + 4 + (17 + k - 17)) mod 4))" by (rule scrolled [OF k(2)])
      also have "\<dots> = cstr (?ws ! (i mod 4))" by (simp only: add_diff_cancel_left' m)
      finally show ?thesis using ring [OF that] k(2) unfolding e by simp
    qed
    then have "displays (ms @ [m]) ?c"
      by (intro displaysI) (use ws ring False in simp_all)
    ultimately show ?thesis by blast
  qed
qed

lemma chats_shows: "displays ms c \<Longrightarrow> \<forall>m \<in> set ns. is_cstr m \<Longrightarrow> \<exists>c'. chats ns c = Some c' \<and> displays (ms @ ns) c'"
proof (induction ns arbitrary: ms c)
  case (Cons n ns)
  from five_chat_shows [OF Cons.prems(1)] Cons.prems(2) obtain c1 where
    c1: "five_chat n c = Some c1" "displays (ms @ [n]) c1" by auto
  from Cons.IH [OF c1(2)] Cons.prems(2) c1(1) show ?case by auto
qed simp

lemma five_chat_init_shows:
  "length (wins c) = 4 \<Longrightarrow> \<forall>w \<in> set (wins c). length w = 80 \<Longrightarrow> displays [] (five_chat_init c)"
  by (auto simp: displays_def five_chat_init_def)

section \<open>Properties\<close>


definition fresh_tally :: tally where
  "fresh_tally = \<lparr>winner = 0, tdeadf = 0, tlivef = 0, livethree = 0, threefour = 0\<rparr>"

definition white_row :: cells where
  "white_row = (\<lambda>(x, y). if x = 3 \<and> 2 \<le> y \<and> y \<le> 6 then white else 0)"

lemma white_row_five:
  "list_ex (\<lambda>ps. five_of white_row black ps \<or> five_of white_row white ps) (fives 3 4)"
  "\<not> list_ex (five_of white_row black) (fives 3 4)"
proof -
  show "list_ex (\<lambda>ps. five_of white_row black ps \<or> five_of white_row white ps) (fives 3 4)"
    by (simp add: fives_def verticals_def line_def five_of_def rows_ok_def stones_def white_row_def upt_rec upto.simps)
  have "stones white_row black ps = 0" for ps by (auto simp: stones_def white_row_def filter_empty_conv split: if_splits)
  then show "\<not> list_ex (five_of white_row black) (fives 3 4)" by (simp add: five_of_def list_ex_iff)
qed


text \<open>
  Five black stones that are not in a row: three at the right end of the first three rows and
  two at the left end of the fifth and sixth, which the rules take for the continuation of the
  diagonal, because a column is never checked.
\<close>

definition wrapped :: cells where
  "wrapped = (\<lambda>(x, y). if cell_index x y \<in> {12, 28, 44, 60, 76} then black else 0)"

definition columns_ok :: "point list \<Rightarrow> bool" where
  "columns_ok ps \<longleftrightarrow> list_all (\<lambda>(x, y). 0 \<le> y \<and> y \<le> 14) ps"

lemma wrapped_window: "diagonal 5 2 14 (- 2) \<in> set (fives 2 14) \<and> five_of wrapped black (diagonal 5 2 14 (- 2))"
  by (simp add: fives_def diagonal_def line_def five_of_def rows_ok_def stones_def wrapped_def cell_index_def
      upt_rec upto.simps)

text \<open>The rules see five in a row where there is none: after black's move to the end of the
  third row the game is over, although no five points in a row of the board are black.\<close>

theorem judge_wraps_rows:
  "winner (judge wrapped 2 14 fresh_tally) \<noteq> 0 \<and>
   filter (\<lambda>ps. columns_ok ps \<and> five_of wrapped black ps) (fives 2 14) = []"
proof
  show "winner (judge wrapped 2 14 fresh_tally) \<noteq> 0"
    using judge_winner(2) [where t = fresh_tally and x = 2 and y = 14 and b = wrapped] wrapped_window
    by (metis fresh_tally_def tally.select_convs(1))
  show "filter (\<lambda>ps. columns_ok ps \<and> five_of wrapped black ps) (fives 2 14) = []"
    by (simp add: fives_def verticals_def horizontals_def diagonal_def antidiagonal_def line_def five_of_def
        rows_ok_def columns_ok_def stones_def wrapped_def cell_index_def upt_rec upto.simps)
qed


text \<open>The two ends of a game agree.\<close>

definition in_step :: "five \<Rightarrow> five \<Rightarrow> bool" where
  "in_step a b \<longleftrightarrow> board a = board b \<and> outside a = outside b \<and> player a = player b \<and> hand a = hand b \<and>
     winner (tally a) = winner (tally b)"

lemma judge_winner_only: "winner s = winner t \<Longrightarrow> judge b x y s = judge b x y t"
proof -
  assume "winner s = winner t"
  then have "s\<lparr>tdeadf := 0, tlivef := 0, livethree := 0, threefour := 0\<rparr> =
    t\<lparr>tdeadf := 0, tlivef := 0, livethree := 0, threefour := 0\<rparr>" by simp
  then show ?thesis by (simp add: judge_def)
qed

text \<open>C8. A move sent over the connection: when both ends are in step, the user puts a stone down,
  and the byte of the other side's buffer behind the packet is not a digit, then the other side
  accepts the packet and the two ends are in step again; the same holds of a move that ends
  the game.\<close>

theorem players_agree:
  assumes "game_ok a" "\<not> banf a" "\<not> quitf a" "in_step a b" "5 < length (data b)" "\<not> is_digit (data b ! 5)"
  shows "\<exists>a1 a2 b2. own_turn 32 True a = Some (a1, False) \<and> after_key (a1, False) = Playing a2 \<and>
    receive (List.last (sent a1)) ans b = Some (Playing b2) \<and> in_step a2 b2"
proof -
  have key: "is_key 32 CHR '' ''" by (simp add: is_key_def cval_def of_char_def)
  obtain a1 k where a1: "own_turn 32 True a = Some (a1, \<not> True)" "k < 225" "board a ! k = 0"
    "int k = cell_index (px a1 sdiv 2) (py a1)" "player a1 = other (player a)" "hand a1 = hand a + 1"
    "board a1 = (board a)[k := player a]" "fdone a1 = 0" "length (chess a1) = 250" "outside a1 = outside a"
    "quitf a1 = quitf a" "0 \<le> px a1" "px a1 \<le> 28" "0 \<le> py a1" "py a1 \<le> 14"
    "sent a1 = sent a @ [xy_po (px a1) (py a1)]"
    "tally a1 = judge (cells_of a1) (px a1 sdiv 2) (py a1) (tally a)"
    using own_turn_place [OF assms(1,2) key, of True] by blast
  let ?x = "px a1" and ?y = "py a1"
  define d where "d = xy_po ?x ?y"
  let ?b1 = "b\<lparr>data := recv_into (data b) d\<rparr>"
  have data: "data ?b1 = xy_po ?x ?y @ drop 5 (data b)" using recv_into_xy_po assms(5) by (simp add: d_def)
  have dec: "decode_move (data ?b1) = Some (?x, ?y, 1)"
    unfolding data using a1 assms(5,6) by (intro decode_xy_po) (auto simp: hd_drop_conv_nth)
  have "cval (data ?b1 ! 0) = nat (?x sdiv 10 + 48)"
    unfolding data using a1 by (simp add: xy_po_def digit_char_simps(1) sdiv_pos)
  then have ctl: "\<not> control (data ?b1 ! 0)"
    using a1 by (auto simp: control_def cval_def of_char_def sdiv_pos)
  have len: "length (board b) = 225" "board b = board a" "player b = player a" "hand b = hand a" "outside b = outside a"
    "winner (tally b) = winner (tally a)"
    using assms(1,4) by (auto simp: game_ok_def in_step_def)
  let ?b2 = "?b1\<lparr>board := (board a)[k := player a], fdone := 1, hand := hand a + 1, xcol := ?x sdiv 2,
    player := other (player a)\<rparr>"
  let ?b3 = "?b2\<lparr>tally := judge (cells_of ?b2) (?x sdiv 2) ?y (tally b), py := ?y, px := ?x\<rparr>"
  have cells: "cells_of ?b2 = cells_of a1" by (rule cells_of_cong) (simp_all add: a1 len)
  have t: "tally ?b3 = tally a1"
    unfolding a1(17) using judge_winner_only [OF len(6)] cells by simp
  have "put_stone ?b1 (?x sdiv 2) ?y (player b) = Some (?b1\<lparr>board := (board a)[k := player a]\<rparr>)"
    using a1(2) len by (simp add: put_stone_def poke_def Let_def flip: a1(4))
  then have "receive_move ?b1 = Some (if winner (tally ?b3) \<noteq> 0 then begin_game ?b3 else ?b3)"
    using dec len by (simp add: receive_move_def Let_def)
  moreover have "receive d ans b = map_option Playing (receive_move ?b1)"
    using ctl by (simp add: receive_def Let_def control_def d_def xy_po_def)
  moreover have "in_step a1 ?b3" using a1 t len by (simp add: in_step_def)
  moreover have "in_step (begin_game a1) (begin_game ?b3)"
    using a1(10) len(5) by (simp add: in_step_def begin_game_def)
  moreover have "after_key (a1, False) = Playing (if winner (tally a1) \<noteq> 0 then begin_game a1 else a1)"
    using a1(11) assms(3) by (simp add: after_key_def)
  ultimately show ?thesis using a1(1,16) t by (auto simp: d_def)
qed

definition demo :: five where
  "demo = \<lparr>board = replicate 225 0, outside = (\<lambda>k. 0), chess = replicate 250 (0, 0), tally = fresh_tally,
     player = white, hand = 0, px = 0, py = 0, xcol = 0, fdone = 0, banf = False, quitf = False, first = False,
     chating = False, data = replicate 90 NUL, chatmem = replicate 81 NUL, ptr = 0,
     chatwin = \<lparr>wins = replicate 4 (replicate 80 NUL), curr = 0, slot = 0, rows = (\<lambda>i. [])\<rparr>, sent = []\<rparr>"

definition demo_turn :: five where
  "demo_turn = (begin_game demo)\<lparr>px := 12, xcol := 6, banf := False\<rparr>"

lemma demo_turn_ok: "game_ok demo_turn"
  using begin_game_ok [of demo]
  by (simp add: game_ok_def demo_turn_def demo_def begin_game_def cells_of_def cell_index_def sdiv_pos)

theorem players_agree_witness:
  "\<exists>a1 a2 b2. own_turn 32 True demo_turn = Some (a1, False) \<and> after_key (a1, False) = Playing a2 \<and>
    receive (List.last (sent a1)) NUL (begin_game demo) = Some (Playing b2) \<and> in_step a2 b2"
  by (rule players_agree [OF demo_turn_ok])
    (simp_all add: demo_turn_def in_step_def begin_game_def demo_def is_digit_def)

text \<open>The games two users can play, while the other side keeps to the rules.\<close>

inductive plays :: "five \<Rightarrow> five \<Rightarrow> bool" for g0 where
  plays_start: "plays g0 g0"
| plays_step: "plays g0 g \<Longrightarrow> lawful ev g \<Longrightarrow> five_step ev g = Some (Playing g') \<Longrightarrow> plays g0 g'"

inductive_cases plays_stepE: "plays g0 g"

lemma plays_ok: "plays g0 g \<Longrightarrow> game_ok g0 \<Longrightarrow> game_ok g"
  by (induction rule: plays.induct) (auto intro: five_step_ok)

lemma five_start_ok: "length (chess s) = 250 \<Longrightarrow> game_ok (five_start s username inviter)"
  by (simp add: five_start_def Let_def begin_game_ok)

text \<open>In a game in which the other side keeps to the rules, a turn of the user never reaches
  outside the program's arrays, and never overwrites a stone: it leaves the board alone or puts
  one stone of the user's colour on a free point of it.\<close>

theorem own_turn_keeps_stones:
  assumes "length (chess s) = 250" "plays (five_start s username inviter) g"
  shows "\<exists>g' broken. own_turn ch ok g = Some (g', broken) \<and>
    (board g' = board g \<or> (\<exists>k < 225. board g ! k = 0 \<and> board g' = (board g)[k := player g] \<and> fdone g' = 0))"
  using own_turn_cases [OF plays_ok [OF assms(2) five_start_ok [OF assms(1)]], of ch ok] by blast

theorem own_turn_keeps_stones_witness:
  "\<exists>g' broken. own_turn 32 True (five_start demo ''abc'' False) = Some (g', broken) \<and>
    (board g' = board (five_start demo ''abc'' False) \<or>
     (\<exists>k < 225. board (five_start demo ''abc'' False) ! k = 0 \<and>
        board g' = (board (five_start demo ''abc'' False))[k := player (five_start demo ''abc'' False)] \<and> fdone g' = 0))"
  by (rule own_turn_keeps_stones [OF _ plays_start]) (simp add: demo_def)

text \<open>C36. Every state of such a game satisfies the invariant: the cursor is on the board, the number
  of the move is the number of stones, nobody has won yet, and a point where a stone may be
  put down is free.\<close>

theorem plays_invariant:
  assumes "length (chess s) = 250" "plays (five_start s username inviter) g"
  shows "game_ok g"
  by (rule plays_ok [OF assms(2) five_start_ok [OF assms(1)]])

theorem plays_invariant_witness: "game_ok (five_start demo ''abc'' False)"
  by (rule plays_invariant [OF _ plays_start]) (simp add: demo_def)

text \<open>A packet of a move that follows a chat line is misread when the byte the chat line left
  behind the packet is a digit: the move to the middle of the board is decoded as a point
  outside it, and the stone is stored outside the board.\<close>

theorem stale_digit_misread:
  "decode_move (recv_into (NUL # ''abcd7  : hi'' @ replicate 79 NUL) (xy_po 14 7)) = Some (140, 71, 7) \<and>
   put_stone (begin_game g) (140 sdiv 2) 71 c = None"
proof
  have po: "xy_po 14 7 = ''14071''"
    by code_simp
  show "decode_move (recv_into (NUL # ''abcd7  : hi'' @ replicate 79 NUL) (xy_po 14 7)) = Some (140, 71, 7)"
    by (simp add: po recv_into_def decode_move_def atoi_def decimal_def is_space_def is_digit_def cval_def of_char_def
        sdiv_pos smod_pos numeral_eq_Suc)
  show "put_stone (begin_game g) (140 sdiv 2) 71 c = None"
    by (simp add: put_stone_def begin_game_def cell_index_def sdiv_pos poke_def)
qed

text \<open>Editing the chat line with the keys that stay in it is editing a list of characters at a
  position, as long as a character is not typed into a full line.\<close>

theorem edit_key_refines:
  assumes "line_is g s p" "plain_key ch" "printable_key ch \<Longrightarrow> length s < 60 \<or> p = 60"
  shows "\<exists>g'. edit_key ch g = Some g' \<and> line_is g' (fst (edit_line ch (s, p))) (snd (edit_line ch (s, p)))"
  by (rule edit_key_line [OF assms])

definition demo_line :: five where
  "demo_line = demo\<lparr>chatmem := replicate 19 CHR '' '' @ ''helo'' @ replicate 58 NUL, ptr := 3\<rparr>"

lemma demo_line_is: "line_is demo_line ''helo'' 3"
  unfolding line_is_def
proof (intro conjI)
  show "\<exists>pre rest. chatmem demo_line = pre @ ''helo'' @ NUL # rest \<and> length pre = 19"
    by (intro exI [of _ "replicate 19 CHR '' ''"] exI [of _ "replicate 57 NUL"])
      (simp add: demo_line_def numeral_eq_Suc)
qed (simp_all add: demo_line_def)

theorem edit_key_refines_witness:
  "\<exists>g'. edit_key 108 demo_line = Some g' \<and>
    line_is g' (fst (edit_line 108 (''helo'', 3))) (snd (edit_line 108 (''helo'', 3)))"
  by (rule edit_key_refines [OF demo_line_is]) (simp_all add: plain_key_def)

text \<open>Typing a character into the middle of the line always writes one byte behind the end of
  \<open>chatbuf\<close>, the byte that was its last one.\<close>

theorem insert_overflows:
  assumes "line_is g s p" "p < length s"
  shows "\<exists>g'. type_char 120 g = Some g' \<and> chatmem g' ! 80 = chatmem g ! 79"
proof -
  from assms(1) have len: "length (chatmem g) = 81" "ptr g = int p" "length s \<le> 60" by (auto simp: line_is_def)
  have n: "nat (int p + 20) = 20 + p" "nat (61 - int p) = 61 - p" "nat (int p + 19) = 19 + p" by simp_all
  have g1: "cb_move g (int p + 1) (int p) (61 - int p) =
      Some (g\<lparr>chatmem := memmove (chatmem g) (20 + p) (19 + p) (61 - p)\<rparr>)"
    using len assms(2) by (simp add: cb_move_def n add.commute)
  let ?m = "memmove (chatmem g) (20 + p) (19 + p) (61 - p)"
  have lm: "length ?m = 81" using len assms(2) by (subst length_memmove) auto
  then have put: "cb_put (g\<lparr>chatmem := ?m\<rparr>) (int p) (char_of (120::nat)) =
      Some (g\<lparr>chatmem := ?m[19 + p := char_of (120::nat)]\<rparr>)"
    using assms(2) len by (simp add: cb_put_def poke_def n)
  have "?m ! 80 = chatmem g ! 79"
    using len assms(2) by (simp add: memmove_def nth_append)
  moreover have "?m[19 + p := char_of (120::nat)] ! 80 = ?m ! 80" using len assms(2) by (simp add: nth_list_update)
  ultimately show ?thesis
    using g1 put line_get [OF assms(1), of p] line_nth_NUL [OF assms] assms(2) len
    by (simp add: type_char_def)
qed

theorem insert_overflows_witness:
  "\<exists>g'. type_char 120 demo_line = Some g' \<and> chatmem g' ! 80 = chatmem demo_line ! 79"
  by (rule insert_overflows [OF demo_line_is]) simp


text \<open>However many lines have been exchanged, the rows of the chat window show the last four of
  them in order, each cut to 79 characters, and the prompt below them.\<close>

theorem chat_window_shows_last:
  assumes "length (wins c) = 4" "\<forall>w \<in> set (wins c). length w = 80" "\<forall>m \<in> set ms. is_cstr m"
  shows "\<exists>c'. chats ms (five_chat_init c) = Some c' \<and>
    map (rows c') [17..<17 + min 4 (length ms)] = map (take 79) (drop (length ms - 4) ms) \<and>
    rows c' (17 + min 4 (length ms)) = ''===>''"
proof -
  obtain c' where c': "chats ms (five_chat_init c) = Some c'" "displays ms c'"
    using chats_shows [OF five_chat_init_shows [OF assms(1,2)] assms(3)] by auto
  have "map (rows c') [17..<17 + min 4 (length ms)] = map (take 79) (drop (length ms - 4) ms)"
  proof (rule nth_equalityI)
    fix k assume "k < length (map (rows c') [17..<17 + min 4 (length ms)])"
    then have k: "k < min 4 (length ms)" by simp
    let ?i = "length ms - 4 + k"
    from k have "?i < length ms" "length ms \<le> ?i + 4" by auto
    with c'(2) have "rows c' (17 + ?i - (length ms - 4)) = take 79 (ms ! ?i)" by (auto simp: displays_def)
    moreover have "k < length (drop (length ms - 4) ms)" using k by auto
    ultimately show "map (rows c') [17..<17 + min 4 (length ms)] ! k = map (take 79) (drop (length ms - 4) ms) ! k"
      using k by simp
  qed simp
  with c' show ?thesis by (auto simp: displays_def)
qed

theorem chat_window_shows_last_witness:
  "\<exists>c'. chats [''a'', ''b'', ''c'', ''d'', ''e''] (five_chat_init (chatwin demo)) = Some c' \<and>
    map (rows c') [17..<17 + min 4 (length [''a'', ''b'', ''c'', ''d'', ''e''])] =
      map (take 79) (drop (length [''a'', ''b'', ''c'', ''d'', ''e''] - 4) [''a'', ''b'', ''c'', ''d'', ''e'']) \<and>
    rows c' (17 + min 4 (length [''a'', ''b'', ''c'', ''d'', ''e''])) = ''===>''"
  by (rule chat_window_shows_last) (simp_all add: demo_def)

end
