(* ===== verification/NameList.thy ===== *)
theory NameList
  imports Prelude
begin

text \<open>
  The list of names a user can complete (src/namecomplete.c): a linked list of heap nodes
  with a pointer to its head (\<open>toplev\<close>) and one to the node behind which the next name goes
  (\<open>current\<close>).  Address 0 is \<open>NULL\<close>; \<open>malloc\<close> hands out the addresses in ascending order,
  and which calls fail is the parameter \<open>avail\<close> of the state.  Loops over the list are
  partial functions: \<open>None\<close> is a dangling or null pointer, or a loop that never ends.
\<close>

record wnode =
  word :: string
  nxt :: nat

type_synonym wheap = "nat \<Rightarrow> wnode option"

record names =
  heap :: wheap
  toplev :: nat
  current :: nat
  brk :: nat
  avail :: "nat \<Rightarrow> bool"

definition malloc :: "names \<Rightarrow> (nat \<times> names) option" where
  "malloc s = (if avail s (brk s) then Some (brk s, s\<lparr>brk := brk s + 1\<rparr>) else None)"

definition set_next :: "nat \<Rightarrow> nat \<Rightarrow> wheap \<Rightarrow> wheap option" where
  "set_next p q h = map_option (\<lambda>nd. h(p \<mapsto> nd\<lparr>nxt := q\<rparr>)) (h p)"

section \<open>The operations on the list\<close>

partial_function (option) free_loop :: "wheap \<Rightarrow> nat \<Rightarrow> wheap option" where
  "free_loop h p =
     (if p = 0 then Some h
      else case h p of None \<Rightarrow> None | Some nd \<Rightarrow> free_loop (h(p := None)) (nxt nd))"

definition FreeNameList :: "names \<Rightarrow> names option" where
  "FreeNameList s = map_option (\<lambda>h. s\<lparr>heap := h, toplev := 0\<rparr>) (free_loop (heap s) (toplev s))"

definition CreateNameList :: "names \<Rightarrow> names option" where
  "CreateNameList s =
     map_option (\<lambda>s1. s1\<lparr>toplev := 0, current := 0\<rparr>) (if toplev s \<noteq> 0 then FreeNameList s else Some s)"

partial_function (option) seek_loop :: "wheap \<Rightarrow> string \<Rightarrow> nat \<Rightarrow> bool option" where
  "seek_loop h name p =
     (if p = 0 then Some False
      else case h p of
        None \<Rightarrow> None
      | Some nd \<Rightarrow> if strcaseeq (word nd) name then Some True else seek_loop h name (nxt nd))"

definition SeekInNameList :: "names \<Rightarrow> string \<Rightarrow> bool option" where
  "SeekInNameList s name = (if name = [] then Some False else seek_loop (heap s) name (toplev s))"

text \<open>The loop of \<open>DelFromNameList\<close>: the node found, or 0, and the one before it.\<close>

partial_function (option) find_loop :: "wheap \<Rightarrow> string \<Rightarrow> nat \<Rightarrow> nat \<Rightarrow> (nat \<times> nat) option" where
  "find_loop h name pre node =
     (if node = 0 then Some (0, pre)
      else case h node of
        None \<Rightarrow> None
      | Some nd \<Rightarrow> if strcaseeq (word nd) name then Some (node, pre) else find_loop h name node (nxt nd))"

definition DelFromNameList :: "names \<Rightarrow> string \<Rightarrow> (names \<times> bool) option" where
  "DelFromNameList s name =
     (if name = [] then Some (s, False)
      else
        (case find_loop (heap s) name 0 (toplev s) of
           None \<Rightarrow> None
         | Some (node, pre) \<Rightarrow>
             if node = 0 then Some (s, False)
             else
               (case heap s node of
                  None \<Rightarrow> None
                | Some nd \<Rightarrow>
                    if node = toplev s then
                      Some (s\<lparr>heap := (heap s)(node := None), toplev := nxt nd, current := nxt nd\<rparr>, True)
                    else map_option (\<lambda>h. (s\<lparr>heap := h(node := None), current := pre\<rparr>, True))
                           (set_next pre (nxt nd) (heap s)))))"

text \<open>\<open>AddToNameList\<close>: one block for the node, one for the string.\<close>

definition AddToNameList :: "names \<Rightarrow> string \<Rightarrow> (names \<times> bool) option" where
  "AddToNameList s name =
     (case SeekInNameList s name of
        None \<Rightarrow> None
      | Some True \<Rightarrow> Some (s, False)
      | Some False \<Rightarrow>
          (case malloc s of
             None \<Rightarrow> Some (s, False)
           | Some (node, s1) \<Rightarrow>
               (case malloc s1 of
                  None \<Rightarrow> Some (s1, False)
                | Some (w, s2) \<Rightarrow>
                    (let h = (heap s2)(node \<mapsto> \<lparr>word = name, nxt = 0\<rparr>) in
                     if toplev s2 = 0 then Some (s2\<lparr>heap := h, toplev := node, current := node\<rparr>, True)
                     else map_option (\<lambda>h1. (s2\<lparr>heap := h1, current := node\<rparr>, True))
                            (set_next (current s2) node h)))))"

partial_function (option) num_loop :: "wheap \<Rightarrow> nat \<Rightarrow> nat \<Rightarrow> nat option" where
  "num_loop h p i =
     (if p = 0 then Some i else case h p of None \<Rightarrow> None | Some nd \<Rightarrow> num_loop h (nxt nd) (i + 1))"

definition NumInList :: "wheap \<Rightarrow> nat \<Rightarrow> nat option" where
  "NumInList h p = num_loop h p 0"

text \<open>\<open>ApplyToNameList\<close> calls a function that may have effects on each word in turn.\<close>

partial_function (option) apply_words :: "(string \<Rightarrow> 'a \<Rightarrow> 'a) \<Rightarrow> wheap \<Rightarrow> nat \<Rightarrow> 'a \<Rightarrow> 'a option" where
  "apply_words f h p a =
     (if p = 0 then Some a else case h p of None \<Rightarrow> None | Some nd \<Rightarrow> apply_words f h (nxt nd) (f (word nd) a))"

definition ApplyToNameList :: "(string \<Rightarrow> 'a \<Rightarrow> 'a) \<Rightarrow> names \<Rightarrow> 'a \<Rightarrow> 'a option" where
  "ApplyToNameList f s a = apply_words f (heap s) (toplev s) a"

text \<open>
  \<open>chkstr\<close>: the copy behind its loop is never made, because the loop ends at the end of the
  tag.
\<close>

fun chkstr :: "string \<Rightarrow> string \<Rightarrow> bool" where
  "chkstr [] name = True"
| "chkstr (t # tag) [] = False"
| "chkstr (t # tag) (c # name) = (if t \<noteq> chartoupper c then False else chkstr tag name)"

text \<open>
  The loop of \<open>GetSubList\<close>: \<open>wlist\<close> and \<open>wcurr\<close> are the first and the last node of the new
  list.
\<close>

partial_function (option) sub_loop :: "string \<Rightarrow> names \<Rightarrow> nat \<Rightarrow> nat \<Rightarrow> nat \<Rightarrow> (names \<times> nat) option" where
  "sub_loop tag s wlist wcurr p =
     (if p = 0 then Some (s, wlist)
      else case heap s p of
        None \<Rightarrow> None
      | Some nd \<Rightarrow>
          if chkstr tag (word nd) then
            (case malloc s of
               None \<Rightarrow>
                 if wlist \<noteq> 0 then map_option (\<lambda>h. (s\<lparr>heap := h\<rparr>, wlist)) (set_next wcurr 0 (heap s))
                 else Some (s, 0)
             | Some (node, s1) \<Rightarrow>
                 (let h = (heap s1)(node \<mapsto> \<lparr>word = word nd, nxt = 0\<rparr>) in
                  case (if wlist \<noteq> 0 then set_next wcurr node h else Some h) of
                    None \<Rightarrow> None
                  | Some h1 \<Rightarrow>
                      (case h1 p of
                         None \<Rightarrow> None
                       | Some nd1 \<Rightarrow>
                           sub_loop tag (s1\<lparr>heap := h1\<rparr>) (if wlist \<noteq> 0 then wlist else node) node (nxt nd1))))
          else sub_loop tag s wlist wcurr (nxt nd))"

abbreviation (input) STRLEN :: nat where "STRLEN \<equiv> 80"

definition GetSubList :: "string \<Rightarrow> nat \<Rightarrow> names \<Rightarrow> (names \<times> nat) option" where
  "GetSubList tag p s =
     (if length tag < STRLEN then sub_loop (map chartoupper tag) s 0 0 p else None)"

definition ClearSubList :: "nat \<Rightarrow> names \<Rightarrow> names option" where
  "ClearSubList p s = map_option (\<lambda>h. s\<lparr>heap := h\<rparr>) (free_loop (heap s) p)"

partial_function (option) max_loop :: "wheap \<Rightarrow> nat \<Rightarrow> nat \<Rightarrow> nat \<Rightarrow> nat option" where
  "max_loop h p count len =
     (if p = 0 \<or> count = 0 then Some len
      else case h p of
        None \<Rightarrow> None
      | Some nd \<Rightarrow> max_loop h (nxt nd) (count - 1) (if len < length (word nd) then length (word nd) else len))"

definition MaxLen :: "wheap \<Rightarrow> nat \<Rightarrow> nat \<Rightarrow> nat option" where
  "MaxLen h p count =
     (case h p of None \<Rightarrow> None | Some nd \<Rightarrow> max_loop h p count (length (word nd)))"

section \<open>Lists in the heap\<close>

text \<open>\<open>linked h p xs\<close>: from \<open>p\<close> a list ends in \<open>NULL\<close> whose nodes and words are \<open>xs\<close>.\<close>

fun linked :: "wheap \<Rightarrow> nat \<Rightarrow> (nat \<times> string) list \<Rightarrow> bool" where
  "linked h p [] \<longleftrightarrow> p = 0"
| "linked h p ((a, w) # xs) \<longleftrightarrow> p = a \<and> a \<noteq> 0 \<and> (\<exists>q. h a = Some \<lparr>word = w, nxt = q\<rparr> \<and> linked h q xs)"

abbreviation nodes :: "(nat \<times> string) list \<Rightarrow> nat list" where "nodes \<equiv> map fst"
abbreviation texts :: "(nat \<times> string) list \<Rightarrow> string list" where "texts \<equiv> map snd"

lemma linked_0 [simp]: "linked h 0 xs \<longleftrightarrow> xs = []"
  by (cases xs) auto

lemma linked_nonzero: "p \<noteq> 0 \<Longrightarrow> linked h p xs \<Longrightarrow>
  \<exists>w q ys. xs = (p, w) # ys \<and> h p = Some \<lparr>word = w, nxt = q\<rparr> \<and> linked h q ys"
  by (cases xs) auto

lemma linked_upd [simp]: "a \<notin> set (nodes xs) \<Longrightarrow> linked (h(a := v)) p xs = linked h p xs"
  by (induction h p xs rule: linked.induct) (auto simp: fun_upd_apply)

lemma linked_frame: "\<forall>a \<in> set (nodes xs). h' a = h a \<Longrightarrow> linked h' p xs = linked h p xs"
  by (induction h p xs rule: linked.induct) auto

lemma linked_unique: "linked h p xs \<Longrightarrow> linked h p ys \<Longrightarrow> xs = ys"
proof (induction xs arbitrary: p ys)
  case (Cons x xs)
  obtain a w where x: "x = (a, w)" by (cases x)
  from Cons.prems(1) x obtain q where q: "p = a" "a \<noteq> 0" "h a = Some \<lparr>word = w, nxt = q\<rparr>" "linked h q xs" by auto
  with linked_nonzero [OF _ Cons.prems(2)] obtain ys' where "ys = (a, w) # ys'" "linked h q ys'" by auto
  with Cons.IH q x show ?case by auto
qed auto

lemma linked_append: "linked h p (xs @ ys) \<Longrightarrow> \<exists>q. linked h q ys"
  by (induction xs arbitrary: p) (auto simp: split_paired_all)

lemma linked_distinct: "linked h p xs \<Longrightarrow> distinct (nodes xs)"
proof (induction xs arbitrary: p)
  case (Cons x xs)
  obtain a w where x: "x = (a, w)" by (cases x)
  from Cons.prems x obtain q where q: "h a = Some \<lparr>word = w, nxt = q\<rparr>" "linked h q xs" "a \<noteq> 0" by auto
  have "a \<notin> set (nodes xs)"
  proof
    assume "a \<in> set (nodes xs)"
    then obtain us v vs where xs: "xs = us @ (a, v) # vs" by (auto simp: in_set_conv_decomp)
    with q(2) obtain r where r: "linked h r ((a, v) # vs)" using linked_append by blast
    with q(1) have "linked h q vs" by auto
    with q(2) have "xs = vs" by (rule linked_unique)
    with xs show False by simp
  qed
  with Cons.IH [OF q(2)] x show ?case by simp
qed simp

text \<open>Appending a node behind the last one, and removing a node.\<close>

lemma linked_snoc:
  assumes "linked h p (xs @ (c, w) # ys)" "a \<notin> set (nodes (xs @ [(c, w)]))" "a \<noteq> 0"
  shows "linked (h(a \<mapsto> \<lparr>word = v, nxt = 0\<rparr>, c \<mapsto> \<lparr>word = w, nxt = a\<rparr>)) p (xs @ [(c, w), (a, v)])"
  using assms(1,2) linked_distinct [OF assms(1)]
proof (induction xs arbitrary: p)
  case Nil
  then show ?case using assms(3) by auto
next
  case (Cons x xs)
  obtain b u where x: "x = (b, u)" by (cases x)
  with Cons.prems obtain q where "h b = Some \<lparr>word = u, nxt = q\<rparr>" "linked h q (xs @ (c, w) # ys)" "p = b" "b \<noteq> 0" by auto
  with Cons x show ?case by (auto simp: fun_upd_apply)
qed

lemma linked_last: "linked h p (xs @ [(c, w)]) \<Longrightarrow> c \<noteq> 0 \<and> h c = Some \<lparr>word = w, nxt = 0\<rparr>"
  by (induction xs arbitrary: p) auto

lemma linked_middle:
  assumes "linked h p (xs @ (b, v) # (a, w) # ys)"
  shows "\<exists>q. h b = Some \<lparr>word = v, nxt = a\<rparr> \<and> h a = Some \<lparr>word = w, nxt = q\<rparr> \<and> b \<noteq> 0 \<and> a \<noteq> 0 \<and>
    linked (h(b \<mapsto> \<lparr>word = v, nxt = q\<rparr>, a := None)) p (xs @ (b, v) # ys)"
  using assms linked_distinct [OF assms]
proof (induction xs arbitrary: p)
  case Nil
  then obtain q where q: "h b = Some \<lparr>word = v, nxt = a\<rparr>" "h a = Some \<lparr>word = w, nxt = q\<rparr>" "linked h q ys"
    "b \<noteq> 0" "a \<noteq> 0" "p = b" by auto
  moreover from Nil(2) have "linked (h(b \<mapsto> \<lparr>word = v, nxt = q\<rparr>, a := None)) q ys = linked h q ys"
    by (intro linked_frame) (auto simp: image_iff)
  ultimately show ?case using Nil(2) by (simp del: fun_upd_apply add: fun_upd_same fun_upd_other)
next
  case (Cons x xs)
  obtain c u where x: "x = (c, u)" by (cases x)
  with Cons.prems obtain q where q: "h c = Some \<lparr>word = u, nxt = q\<rparr>" "linked h q (xs @ (b, v) # (a, w) # ys)"
    "p = c" "c \<noteq> 0" by auto
  have d: "distinct (nodes (xs @ (b, v) # (a, w) # ys))" "c \<noteq> b" "c \<noteq> a" using Cons.prems(2) x by auto
  from Cons.IH [OF q(2) d(1)] q d x show ?case by (auto simp: fun_upd_apply)
qed

section \<open>What the loops compute\<close>

text \<open>Stepping one node: the shape all loops share.\<close>

lemmas loop_simps = free_loop.simps seek_loop.simps find_loop.simps num_loop.simps apply_words.simps max_loop.simps

lemma seek_linked: "linked h p xs \<Longrightarrow> seek_loop h name p = Some (list_ex (\<lambda>w. strcaseeq w name) (texts xs))"
  by (induction xs arbitrary: p) (auto simp: seek_loop.simps)

lemma num_linked: "linked h p xs \<Longrightarrow> num_loop h p i = Some (i + length xs)"
  by (induction xs arbitrary: p i) (auto simp: num_loop.simps)

lemma apply_linked: "linked h p xs \<Longrightarrow> apply_words f h p a = Some (fold f (texts xs) a)"
  by (induction xs arbitrary: p a) (auto simp: apply_words.simps)

lemma max_linked:
  "linked h p xs \<Longrightarrow> max_loop h p count len = Some (fold max (map length (take count (texts xs))) len)"
proof (induction xs arbitrary: p count len)
  case Nil
  then show ?case by (simp add: max_loop.simps)
next
  case (Cons x xs)
  obtain a w where x: "x = (a, w)" by (cases x)
  from Cons.prems x obtain q where q: "h a = Some \<lparr>word = w, nxt = q\<rparr>" "linked h q xs" "p = a" "a \<noteq> 0" by auto
  show ?case
  proof (cases count)
    case (Suc n)
    have "(if len < length w then length w else len) = max (length w) len" by simp
    with q x Suc show ?thesis by (subst max_loop.simps) (simp add: Cons.IH [OF q(2)] del: if_split)
  qed (simp add: max_loop.simps)
qed

lemma free_linked:
  "linked h p xs \<Longrightarrow> free_loop h p = Some (\<lambda>a. if a \<in> set (nodes xs) then None else h a)"
proof (induction xs arbitrary: p h)
  case Nil
  then show ?case by (simp add: free_loop.simps)
next
  case (Cons x xs)
  obtain a w where x: "x = (a, w)" by (cases x)
  from Cons.prems x obtain q where q: "h a = Some \<lparr>word = w, nxt = q\<rparr>" "linked h q xs" "p = a" "a \<noteq> 0" by auto
  have "a \<notin> set (nodes xs)" using linked_distinct [OF Cons.prems] x by simp
  then have "linked (h(a := None)) q xs" using q by simp
  note f = Cons.IH [OF this]
  have "(\<lambda>b. if b \<in> set (nodes xs) then None else (h(a := None)) b) =
    (\<lambda>b. if b \<in> set (nodes (x # xs)) then None else h b)" using x by auto
  with f q show ?case by (subst free_loop.simps) (simp del: fun_upd_apply)
qed

lemma find_linked:
  assumes "linked h p xs"
  shows "list_all (\<lambda>w. \<not> strcaseeq w name) (texts xs) \<Longrightarrow> \<exists>q. find_loop h name pre p = Some (0, q)"
    and "xs = us @ (a, w) # vs \<Longrightarrow> list_all (\<lambda>w. \<not> strcaseeq w name) (texts us) \<Longrightarrow> strcaseeq w name \<Longrightarrow>
      find_loop h name pre p = Some (a, if us = [] then pre else fst (List.last us))"
  using assms
proof (induction xs arbitrary: p pre us)
  case Nil
  { case 1 then show ?case by (simp add: find_loop.simps) next case 2 then show ?case by simp }
next
  case (Cons x xs)
  obtain b v where x: "x = (b, v)" by (cases x)
  { case 1
    from 1(2) x obtain q where q: "h b = Some \<lparr>word = v, nxt = q\<rparr>" "linked h q xs" "p = b" "b \<noteq> 0" by auto
    from Cons.IH(1) [OF _ q(2), of b] 1 q x show ?case by (auto simp: find_loop.simps)
  next
    case 2
    from 2(4) x obtain q where q: "h b = Some \<lparr>word = v, nxt = q\<rparr>" "linked h q xs" "p = b" "b \<noteq> 0" by auto
    show ?case
    proof (cases us)
      case Nil
      with 2 q x show ?thesis by (auto simp: find_loop.simps)
    next
      case (Cons u us')
      with 2 x have c: "xs = us' @ (a, w) # vs" "u = (b, v)" "list_all (\<lambda>w. \<not> strcaseeq w name) (texts us')" by auto
      have "\<not> strcaseeq v name" using 2 c Cons by simp
      with Cons.IH(2) [OF c(1,3) _ q(2), of b] 2 q c Cons show ?thesis by (auto simp: find_loop.simps)
    qed }
qed


text \<open>Addresses not handed out yet are unused.\<close>

definition fresh :: "names \<Rightarrow> bool" where
  "fresh s \<longleftrightarrow> 0 < brk s \<and> (\<forall>a \<ge> brk s. heap s a = None)"

definition only_heap :: "names \<Rightarrow> names \<Rightarrow> bool" where
  "only_heap s s' \<longleftrightarrow> toplev s' = toplev s \<and> current s' = current s \<and> avail s' = avail s \<and> brk s \<le> brk s'"

lemma linked_allocated: "linked h p xs \<Longrightarrow> a \<in> set (nodes xs) \<Longrightarrow> h a \<noteq> None \<and> a \<noteq> 0"
proof (induction xs arbitrary: p)
  case (Cons x xs)
  obtain b w where x: "x = (b, w)" by (cases x)
  with Cons.prems(1) obtain q where q: "h b \<noteq> None" "b \<noteq> 0" "linked h q xs" by auto
  show ?case
  proof (cases "a = b")
    case False
    with Cons.prems(2) x have "a \<in> set (nodes xs)" by simp
    with Cons.IH [OF q(3)] show ?thesis by blast
  qed (use q in simp)
qed simp

lemma fresh_notin: "fresh s \<Longrightarrow> linked (heap s) p xs \<Longrightarrow> brk s \<le> a \<Longrightarrow> a \<notin> set (nodes xs)"
  using linked_allocated unfolding fresh_def by blast

text \<open>One more node at the end of the list \<open>GetSubList\<close> builds.\<close>

lemma sub_extend:
  assumes "linked h wlist acc" "acc = [] \<longrightarrow> wlist = 0" "acc \<noteq> [] \<longrightarrow> wcurr = fst (List.last acc)"
    "node \<notin> set (nodes acc)" "node \<noteq> 0"
  shows "\<exists>h'. (if wlist \<noteq> 0 then set_next wcurr node (h(node \<mapsto> \<lparr>word = w, nxt = 0\<rparr>))
        else Some (h(node \<mapsto> \<lparr>word = w, nxt = 0\<rparr>))) = Some h' \<and>
    linked h' (if wlist \<noteq> 0 then wlist else node) (acc @ [(node, w)]) \<and>
    (\<forall>a. a \<noteq> node \<and> a \<notin> set (nodes acc) \<longrightarrow> h' a = h a)"
proof (cases acc rule: rev_cases)
  case Nil
  with assms show ?thesis by simp
next
  case (snoc us u)
  obtain c v where u: "u = (c, v)" by (cases u)
  from assms(1) snoc u have l: "linked h wlist (us @ [(c, v)])" by simp
  then have nz: "wlist \<noteq> 0" by (cases us) auto
  from linked_last [OF l] have hc: "h c = Some \<lparr>word = v, nxt = 0\<rparr>" by simp
  have c: "c = wcurr" "c \<noteq> node" using assms snoc u by auto
  have "set_next wcurr node (h(node \<mapsto> \<lparr>word = w, nxt = 0\<rparr>)) =
    Some (h(node \<mapsto> \<lparr>word = w, nxt = 0\<rparr>, c \<mapsto> \<lparr>word = v, nxt = node\<rparr>))"
    using c hc by (simp add: set_next_def)
  moreover have "linked (h(node \<mapsto> \<lparr>word = w, nxt = 0\<rparr>, c \<mapsto> \<lparr>word = v, nxt = node\<rparr>)) wlist (us @ [(c, v), (node, w)])"
    using assms snoc u by (intro linked_snoc [OF l]) auto
  ultimately show ?thesis using nz snoc u by auto
qed

lemma sub_linked:
  assumes "linked (heap s) p xs" "linked (heap s) wlist acc" "fresh s" "\<And>n. avail s n"
    "acc = [] \<longrightarrow> wlist = 0" "acc \<noteq> [] \<longrightarrow> wcurr = fst (List.last acc)"
    "set (nodes acc) \<inter> set (nodes xs) = {}"
  shows "\<exists>s' r ys. sub_loop tag s wlist wcurr p = Some (s', r) \<and> linked (heap s') r (acc @ ys) \<and>
    texts ys = filter (chkstr tag) (texts xs) \<and> fresh s' \<and> only_heap s s' \<and>
    set (nodes ys) \<subseteq> {brk s..<brk s'} \<and> (\<forall>a < brk s. a \<notin> set (nodes acc) \<longrightarrow> heap s' a = heap s a)"
  using assms
proof (induction xs arbitrary: s p wlist wcurr acc)
  case Nil
  then show ?case by (intro exI [of _ s] exI [of _ wlist] exI [of _ "[]"]) (simp add: sub_loop.simps only_heap_def)
next
  case (Cons x xs)
  obtain b v where x: "x = (b, v)" by (cases x)
  from Cons.prems(1) x obtain q where q: "heap s b = Some \<lparr>word = v, nxt = q\<rparr>" "linked (heap s) q xs" "p = b" "b \<noteq> 0" by auto
  show ?case
  proof (cases "chkstr tag v")
    case False
    have d: "set (nodes acc) \<inter> set (nodes xs) = {}" using Cons.prems(7) by auto
    from Cons.IH [OF q(2) Cons.prems(2-6) d] False q x show ?thesis
      by (subst sub_loop.simps) simp
  next
    case True
    let ?node = "brk s"
    have node: "?node \<notin> set (nodes acc)" "?node \<notin> set (nodes (x # xs))" "?node \<noteq> 0"
      by (rule fresh_notin [OF Cons.prems(3,2) order_refl], rule fresh_notin [OF Cons.prems(3,1) order_refl])
        (use Cons.prems(3) in \<open>simp add: fresh_def\<close>)
    obtain h1 where h1: "(if wlist \<noteq> 0 then set_next wcurr ?node ((heap s)(?node \<mapsto> \<lparr>word = v, nxt = 0\<rparr>))
        else Some ((heap s)(?node \<mapsto> \<lparr>word = v, nxt = 0\<rparr>))) = Some h1"
      "linked h1 (if wlist \<noteq> 0 then wlist else ?node) (acc @ [(?node, v)])"
      "\<And>a. a \<noteq> ?node \<Longrightarrow> a \<notin> set (nodes acc) \<Longrightarrow> h1 a = heap s a"
      using sub_extend [OF Cons.prems(2,5,6) node(1,3), of v] by blast
    let ?s1 = "s\<lparr>brk := brk s + 1, heap := h1\<rparr>"
    have b: "h1 b = Some \<lparr>word = v, nxt = q\<rparr>" using h1(3) [of b] node(2) Cons.prems(7) x q(1) by auto
    have lq: "linked h1 q xs"
    proof -
      have "\<forall>a \<in> set (nodes xs). h1 a = heap s a"
        using h1(3) node(2) Cons.prems(7) by (metis Int_iff empty_iff list.set_intros(2) list.simps(9))
      from linked_frame [OF this] q(2) show ?thesis by simp
    qed
    have fr: "fresh ?s1"
    proof -
      have "h1 a = None" if "brk s + 1 \<le> a" for a
        using that h1(3) [of a] fresh_notin [OF Cons.prems(3,2), of a] Cons.prems(3) by (auto simp: fresh_def)
      then show ?thesis by (simp add: fresh_def)
    qed
    have "\<exists>s' r ys. sub_loop tag ?s1 (if wlist \<noteq> 0 then wlist else ?node) ?node q = Some (s', r) \<and>
      linked (heap s') r ((acc @ [(?node, v)]) @ ys) \<and> texts ys = filter (chkstr tag) (texts xs) \<and> fresh s' \<and>
      only_heap ?s1 s' \<and> set (nodes ys) \<subseteq> {brk ?s1..<brk s'} \<and>
      (\<forall>a < brk ?s1. a \<notin> set (nodes (acc @ [(?node, v)])) \<longrightarrow> heap s' a = heap ?s1 a)"
      using lq h1(2) fr Cons.prems(4,7) node(2) by (intro Cons.IH) auto
    then obtain s' r ys where i: "sub_loop tag ?s1 (if wlist \<noteq> 0 then wlist else ?node) ?node q = Some (s', r)"
      "linked (heap s') r ((acc @ [(?node, v)]) @ ys)" "texts ys = filter (chkstr tag) (texts xs)" "fresh s'"
      "only_heap ?s1 s'" "set (nodes ys) \<subseteq> {brk ?s1..<brk s'}"
      "\<And>a. a < brk ?s1 \<Longrightarrow> a \<notin> set (nodes (acc @ [(?node, v)])) \<Longrightarrow> heap s' a = heap ?s1 a" by blast
    have run: "sub_loop tag s wlist wcurr p = Some (s', r)"
    proof -
      have hb: "heap (s\<lparr>brk := brk s + 1\<rparr>) = heap s" by simp
      have m: "malloc s = Some (?node, s\<lparr>brk := brk s + 1\<rparr>)" using Cons.prems(4) by (simp add: malloc_def)
      have "sub_loop tag s wlist wcurr p = sub_loop tag (s\<lparr>brk := brk s + 1, heap := h1\<rparr>) (if wlist \<noteq> 0 then wlist else ?node) ?node q"
        by (subst sub_loop.simps) (simp only: q(1,3,4) True m hb h1(1) b option.case prod.case Let_def if_False if_True
            wnode.select_convs simp_thms)
      with i(1) show ?thesis by simp
    qed
    show ?thesis
    proof (intro exI conjI)
      show "texts ((?node, v) # ys) = filter (chkstr tag) (texts (x # xs))" using i(3) True x by simp
      show "linked (heap s') r (acc @ (?node, v) # ys)" using i(2) by simp
      show "set (nodes ((?node, v) # ys)) \<subseteq> {brk s..<brk s'}" using i(5,6) by (auto simp: only_heap_def)
      show "\<forall>a < brk s. a \<notin> set (nodes acc) \<longrightarrow> heap s' a = heap s a" using i(7) h1(3) by auto
      show "only_heap s s'" using i(5) by (simp add: only_heap_def)
    qed (use run i(4) in auto)
  qed
qed


section \<open>The operations on lists of words\<close>

definition names_are :: "names \<Rightarrow> (nat \<times> string) list \<Rightarrow> bool" where
  "names_are s xs \<longleftrightarrow> linked (heap s) (toplev s) xs \<and> fresh s"

definition at_end :: "names \<Rightarrow> (nat \<times> string) list \<Rightarrow> bool" where
  "at_end s xs \<longleftrightarrow> xs \<noteq> [] \<longrightarrow> current s = fst (List.last xs)"

definition known :: "string \<Rightarrow> string list \<Rightarrow> bool" where
  "known name ws \<longleftrightarrow> name \<noteq> [] \<and> list_ex (\<lambda>w. strcaseeq w name) ws"

lemma seek_known: "names_are s xs \<Longrightarrow> SeekInNameList s name = Some (known name (texts xs))"
  by (simp add: names_are_def SeekInNameList_def known_def seek_linked)

text \<open>Adding a name puts it behind \<open>current\<close>, wherever that is.\<close>

lemma add_behind_current:
  assumes "names_are s (us @ (c, w) # vs)" "current s = c" "\<And>n. avail s n" "\<not> known name (texts (us @ (c, w) # vs))"
  shows "\<exists>s' a. AddToNameList s name = Some (s', True) \<and> names_are s' (us @ [(c, w), (a, name)]) \<and> current s' = a \<and>
    avail s' = avail s"
proof -
  let ?a = "brk s"
  have l: "linked (heap s) (toplev s) (us @ (c, w) # vs)" and f: "fresh s" using assms(1) by (auto simp: names_are_def)
  have a: "?a \<notin> set (nodes (us @ (c, w) # vs))" "?a \<noteq> 0"
    using fresh_notin [OF f l] f by (auto simp: fresh_def)
  have top: "toplev s \<noteq> 0" using l by (cases us) auto
  obtain q where hc: "heap s c = Some \<lparr>word = w, nxt = q\<rparr>" using linked_append [OF l] by auto
  let ?h = "(heap s)(?a \<mapsto> \<lparr>word = name, nxt = 0\<rparr>, c \<mapsto> \<lparr>word = w, nxt = ?a\<rparr>)"
  let ?s' = "s\<lparr>brk := ?a + 2, heap := ?h, current := ?a\<rparr>"
  have ca: "c \<noteq> ?a" using a by auto
  have "AddToNameList s name = Some (?s', True)"
    using top hc ca assms(2-4) seek_known [OF assms(1), of name]
    by (simp add: AddToNameList_def malloc_def set_next_def Let_def)
  moreover have "linked ?h (toplev s) (us @ [(c, w), (?a, name)])"
    by (rule linked_snoc [OF l]) (use a in auto)
  moreover have "fresh ?s'" using f hc by (auto simp: fresh_def)
  ultimately show ?thesis by (intro exI [of _ ?s'] exI [of _ ?a]) (simp add: names_are_def)
qed

lemma add_name:
  assumes "names_are s xs" "at_end s xs" "\<And>n. avail s n"
  shows "\<exists>s' xs'. AddToNameList s name = Some (s', \<not> known name (texts xs)) \<and> names_are s' xs' \<and> at_end s' xs' \<and>
    texts xs' = (if known name (texts xs) then texts xs else texts xs @ [name]) \<and> avail s' = avail s"
proof (cases "known name (texts xs)")
  case True
  then show ?thesis using assms seek_known [OF assms(1), of name]
    by (intro exI [of _ s] exI [of _ xs]) (simp add: AddToNameList_def)
next
  case False
  show ?thesis
  proof (cases xs rule: rev_cases)
    case Nil
    let ?s' = "s\<lparr>brk := brk s + 2, heap := (heap s)(brk s \<mapsto> \<lparr>word = name, nxt = 0\<rparr>), toplev := brk s, current := brk s\<rparr>"
    have "toplev s = 0" "fresh s" using assms(1) Nil by (auto simp: names_are_def)
    then have "AddToNameList s name = Some (?s', True)" "names_are ?s' [(brk s, name)]"
      using False Nil assms(3) seek_known [OF assms(1), of name]
      by (auto simp: AddToNameList_def malloc_def names_are_def fresh_def Let_def)
    with False Nil show ?thesis by (intro exI [of _ ?s'] exI [of _ "[(brk s, name)]"]) (simp add: at_end_def)
  next
    case (snoc us u)
    obtain c w where u: "u = (c, w)" by (cases u)
    have "current s = c" using assms(2) snoc u by (simp add: at_end_def)
    from add_behind_current [OF _ this assms(3), of us w "[]" name] assms(1) False snoc u
    obtain s' a where "AddToNameList s name = Some (s', True)" "names_are s' (us @ [(c, w), (a, name)])" "current s' = a"
      "avail s' = avail s" by auto
    with False snoc u show ?thesis
      by (intro exI [of _ s'] exI [of _ "us @ [(c, w), (a, name)]"]) (simp add: at_end_def)
  qed
qed

lemma find_split: "list_ex P xs \<Longrightarrow> \<exists>us x vs. xs = us @ x # vs \<and> P x \<and> list_all (\<lambda>y. \<not> P y) us"
  using split_list_first_prop [of xs P] by (auto simp: list_ex_iff list_all_iff)

lemma fresh_None: "fresh s \<Longrightarrow> fresh (s\<lparr>heap := (heap s)(a := None), toplev := p, current := c\<rparr>)"
  by (simp add: fresh_def)

lemma del_name:
  assumes "names_are s (us @ (a, w) # vs)" "name \<noteq> []" "strcaseeq w name" "list_all (\<lambda>w. \<not> strcaseeq w name) (texts us)"
  shows "\<exists>s'. DelFromNameList s name = Some (s', True) \<and> names_are s' (us @ vs) \<and> avail s' = avail s \<and>
    (us @ vs \<noteq> [] \<longrightarrow> current s' = (if us = [] then fst (hd vs) else fst (List.last us)))"
proof -
  have l: "linked (heap s) (toplev s) (us @ (a, w) # vs)" and f: "fresh s" using assms(1) by (auto simp: names_are_def)
  have find: "find_loop (heap s) name 0 (toplev s) = Some (a, if us = [] then 0 else fst (List.last us))"
    by (rule find_linked(2) [OF l refl assms(4,3)])
  obtain q where q: "heap s a = Some \<lparr>word = w, nxt = q\<rparr>" "a \<noteq> 0" using linked_append [OF l] by auto
  have d: "distinct (nodes (us @ (a, w) # vs))" by (rule linked_distinct [OF l])
  show ?thesis
  proof (cases us rule: rev_cases)
    case Nil
    let ?s' = "s\<lparr>heap := (heap s)(a := None), toplev := q, current := q\<rparr>"
    have top: "toplev s = a" "linked (heap s) q vs" using l q Nil by auto
    then have "linked ((heap s)(a := None)) q vs" using d by simp
    moreover have "DelFromNameList s name = Some (?s', True)"
      using find q top Nil assms(2) by (simp add: DelFromNameList_def)
    moreover have "vs \<noteq> [] \<Longrightarrow> q = fst (hd vs)" using top(2) by (cases vs) auto
    ultimately show ?thesis using Nil fresh_None [OF f, where a = a and p = q and c = q]
      by (intro exI [of _ ?s']) (simp add: names_are_def)
  next
    case (snoc ts t)
    obtain b v where t: "t = (b, v)" by (cases t)
    from linked_middle [of "heap s" "toplev s" ts b v a w vs] l snoc t q
    have m: "heap s b = Some \<lparr>word = v, nxt = a\<rparr>"
      "linked ((heap s)(b \<mapsto> \<lparr>word = v, nxt = q\<rparr>, a := None)) (toplev s) (us @ vs)" by auto
    have "a \<noteq> toplev s" using l snoc t d by (cases ts) auto
    let ?s' = "s\<lparr>heap := (heap s)(b \<mapsto> \<lparr>word = v, nxt = q\<rparr>, a := None), current := b\<rparr>"
    from \<open>a \<noteq> toplev s\<close> have "DelFromNameList s name = Some (?s', True)"
      using find q m(1) snoc t assms(2) by (simp add: DelFromNameList_def set_next_def)
    moreover have "fresh ?s'" using f m(1) by (auto simp: fresh_def)
    ultimately show ?thesis using m(2) snoc t by (intro exI [of _ ?s']) (simp add: names_are_def)
  qed
qed

lemma del_unknown:
  assumes "names_are s xs" "\<not> known name (texts xs)"
  shows "DelFromNameList s name = Some (s, False)"
proof (cases "name = []")
  case False
  with assms(2) have "list_all (\<lambda>w. \<not> strcaseeq w name) (texts xs)" by (auto simp: known_def list_ex_iff list_all_iff)
  with find_linked(1) assms(1) obtain q where "find_loop (heap s) name 0 (toplev s) = Some (0, q)"
    unfolding names_are_def by blast
  with False show ?thesis by (simp add: DelFromNameList_def)
qed (simp add: DelFromNameList_def)


section \<open>Completing a name\<close>

text \<open>
  \<open>matches tag w\<close>: \<open>w\<close> begins with \<open>tag\<close>, letters of either case being equal.  A
  completion keeps the list of the names that match what has been typed, and narrows it
  with every character; the contract is that of a locale, which both completions of the
  file provide.
\<close>

definition matches :: "string \<Rightarrow> string \<Rightarrow> bool" where
  "matches tag w \<longleftrightarrow> length tag \<le> length w \<and> map chartoupper tag = map chartoupper (take (length tag) w)"

lemma chkstr_matches: "chkstr (map chartoupper tag) w = matches tag w"
proof (induction "map chartoupper tag" w arbitrary: tag rule: chkstr.induct)
  case (3 t tag' c name)
  then show ?case by (cases tag) (auto simp: matches_def)
qed (auto simp: matches_def)

lemma matches_snoc: "matches (s @ [c]) w \<longleftrightarrow>
  matches s w \<and> length s < length w \<and> chartoupper c = chartoupper (w ! length s)"
  by (auto simp: matches_def take_Suc_conv_app_nth)

locale narrowing =
  fixes fits :: "string \<Rightarrow> string \<Rightarrow> bool"
  assumes fits_nil: "fits [] w"
    and fits_snoc: "fits (s @ [c]) w \<Longrightarrow> fits s w"
begin

lemma narrow: "filter (fits (s @ [c])) (filter (fits s) ws) = filter (fits (s @ [c])) ws"
  by (induction ws) (auto dest: fits_snoc)

lemma narrow_all: "filter (fits (s @ t)) (filter (fits s) ws) = filter (fits (s @ t)) ws"
proof (induction t rule: rev_induct)
  case (snoc c t)
  then show ?case using narrow [of "s @ t" c ws] narrow [of "s @ t" c "filter (fits s) ws"] by simp
qed simp

lemma all_fit: "filter (fits []) ws = ws"
  by (simp add: fits_nil)

end

interpretation prefix: narrowing matches
  by unfold_locales (auto simp: matches_snoc, simp add: matches_def)

lemma GetSubList_names:
  assumes "linked (heap s) p xs" "fresh s" "\<And>n. avail s n" "length tag < 80"
  shows "\<exists>s' r ys. GetSubList tag p s = Some (s', r) \<and> linked (heap s') r ys \<and>
    texts ys = filter (matches tag) (texts xs) \<and> fresh s' \<and> only_heap s s' \<and>
    set (nodes ys) \<subseteq> {brk s..<brk s'} \<and> (\<forall>a < brk s. heap s' a = heap s a)"
proof -
  have "(\<lambda>w. chkstr (map chartoupper tag) w) = matches tag" by (rule ext) (rule chkstr_matches)
  with sub_linked [of s p xs 0 "[]" 0 "map chartoupper tag"] assms show ?thesis
    by (simp add: GetSubList_def)
qed

text \<open>
  The state of \<open>namecomplete\<close>: the buffer, how many characters of it have been typed (the
  pointer \<open>temp\<close> is always that far behind \<open>data\<close>), the candidates, the position in them
  of the next page, and the last page shown, as rows, columns and words.
\<close>

record completer =
  nm :: names
  buf :: "char list"
  count :: nat
  cwlist :: nat
  morelist :: nat
  page :: "(int \<times> nat \<times> string) list"

datatype progress = More completer | Finished completer | Aborted

text \<open>The node loop of the space key: does every candidate have this character there?\<close>

partial_function (option) same_char :: "wheap \<Rightarrow> nat \<Rightarrow> nat \<Rightarrow> char \<Rightarrow> bool option" where
  "same_char h p i ch =
     (if p = 0 then Some True
      else case h p of
        None \<Rightarrow> None
      | Some nd \<Rightarrow>
          if length (word nd) < i then None
          else if chartoupper ch \<noteq> chartoupper (cget (word nd) i) then Some False
          else same_char h (nxt nd) i ch)"

text \<open>
  Taking one more character: the candidates are filtered again, and the character is taken
  back when none is left.  The flag says whether it was kept.
\<close>

definition type_name :: "char \<Rightarrow> completer \<Rightarrow> (completer \<times> bool) option" where
  "type_name ch c =
     (case poke (buf c) (count c) ch of
        None \<Rightarrow> None
      | Some b1 \<Rightarrow>
          (case poke b1 (count c + 1) NUL of
             None \<Rightarrow> None
           | Some b2 \<Rightarrow>
               (case GetSubList (cstr b2) (cwlist c) (nm c) of
                  None \<Rightarrow> None
                | Some (s1, node) \<Rightarrow>
                    if node = 0 then Some (c\<lparr>nm := s1, buf := b2[count c := NUL]\<rparr>, False)
                    else
                      (case ClearSubList (cwlist c) s1 of
                         None \<Rightarrow> None
                       | Some s2 \<Rightarrow>
                           Some (c\<lparr>nm := s2, buf := b2, count := count c + 1, cwlist := node, morelist := 0\<rparr>, True)))))"

text \<open>The loop of the space key, from index \<open>i\<close> of the words.\<close>

function extend_loop :: "nat \<Rightarrow> completer \<Rightarrow> completer option" where
  "extend_loop i c =
     (if i = 0 \<or> STRLEN \<le> i then Some c
      else case heap (nm c) (cwlist c) of
        None \<Rightarrow> None
      | Some nd \<Rightarrow>
          if length (word nd) < i then None
          else if cget (word nd) i = NUL then Some c
          else
            (case same_char (heap (nm c)) (cwlist c) i (cget (word nd) i) of
               None \<Rightarrow> None
             | Some False \<Rightarrow> Some c
             | Some True \<Rightarrow>
                 (case type_name (cget (word nd) i) c of
                    None \<Rightarrow> None
                  | Some (c1, False) \<Rightarrow> Some c1
                  | Some (c1, True) \<Rightarrow> extend_loop (i + 1) c1)))"
  by pat_completeness auto

termination by (relation "measure (\<lambda>(i, c). 80 - i)") auto

declare extend_loop.simps [simp del]


text \<open>A page of candidates: columns of at most \<open>numl\<close> words below row \<open>origy\<close>.\<close>

partial_function (option) show_column ::
  "wheap \<Rightarrow> int \<Rightarrow> int \<Rightarrow> nat \<Rightarrow> nat \<Rightarrow> int \<Rightarrow> (int \<times> nat \<times> string) list \<Rightarrow> (nat \<times> (int \<times> nat \<times> string) list) option" where
  "show_column h numl origy col p i acc =
     (if p = 0 \<or> i \<le> origy - 1 then Some (p, acc)
      else case h p of
        None \<Rightarrow> None
      | Some nd \<Rightarrow>
          if word nd \<noteq> [] then show_column h numl origy col (nxt nd) (i - 1) (acc @ [(origy + 2 + (numl - i), col, word nd)])
          else show_column h numl origy col (nxt nd) i acc)"

function show_columns ::
  "wheap \<Rightarrow> nat \<Rightarrow> int \<Rightarrow> nat \<Rightarrow> nat \<Rightarrow> nat \<Rightarrow> (int \<times> nat \<times> string) list \<Rightarrow> (nat \<times> (int \<times> nat \<times> string) list) option" where
  "show_columns h numl origy p col len acc =
     (if 80 \<le> len + col then Some (p, acc)
      else case show_column h (int numl) origy col p (int numl) acc of
        None \<Rightarrow> None
      | Some (p1, acc1) \<Rightarrow>
          if p1 = 0 then Some (p1, acc1)
          else case MaxLen h p1 numl of
            None \<Rightarrow> None
          | Some len1 \<Rightarrow> show_columns h numl origy p1 (col + len + 2) len1 acc1)"
  by pat_completeness auto

termination by (relation "measure (\<lambda>(h, numl, origy, p, col, len, acc). 80 - col)") auto

declare show_columns.simps [simp del]

definition list_page :: "nat \<Rightarrow> int \<Rightarrow> completer \<Rightarrow> completer option" where
  "list_page numl origy c =
     (let p = (if morelist c = 0 then cwlist c else morelist c) in
      case MaxLen (heap (nm c)) p numl of
        None \<Rightarrow> None
      | Some len \<Rightarrow>
          map_option (\<lambda>(p1, pg). c\<lparr>morelist := p1, page := pg\<rparr>) (show_columns (heap (nm c)) numl origy p 0 len []))"

text \<open>The search of the return key for an exact name.\<close>

partial_function (option) exact_loop :: "wheap \<Rightarrow> string \<Rightarrow> nat \<Rightarrow> string option option" where
  "exact_loop h s p =
     (if p = 0 then Some None
      else case h p of
        None \<Rightarrow> None
      | Some nd \<Rightarrow> if strcaseeq s (word nd) then Some (Some (word nd)) else exact_loop h s (nxt nd))"

definition word_at :: "completer \<Rightarrow> string option" where
  "word_at c = map_option word (heap (nm c) (cwlist c))"

definition take_word :: "completer \<Rightarrow> completer option" where
  "take_word c =
     (case word_at c of
        None \<Rightarrow> None
      | Some w \<Rightarrow> map_option (\<lambda>b. c\<lparr>buf := b, count := length w\<rparr>) (strcpy (buf c) w))"

definition accept_name :: "completer \<Rightarrow> completer option" where
  "accept_name c =
     (case poke (buf c) (count c) NUL of
        None \<Rightarrow> None
      | Some b \<Rightarrow>
          (case NumInList (heap (nm c)) (cwlist c) of
             None \<Rightarrow> None
           | Some n \<Rightarrow>
               (case (if n = 1 then map_option Some (word_at c)
                      else exact_loop (heap (nm c)) (cstr b) (cwlist c)) of
                  None \<Rightarrow> None
                | Some choice \<Rightarrow>
                    (case (case choice of None \<Rightarrow> Some b | Some w \<Rightarrow> strcpy b w) of
                       None \<Rightarrow> None
                     | Some b1 \<Rightarrow>
                         map_option (\<lambda>s. c\<lparr>nm := s, buf := b1\<rparr>) (ClearSubList (cwlist c) (nm c))))))"

definition space_name :: "nat \<Rightarrow> int \<Rightarrow> completer \<Rightarrow> completer option" where
  "space_name numl origy c =
     (case NumInList (heap (nm c)) (cwlist c) of
        None \<Rightarrow> None
      | Some n \<Rightarrow>
          if n = 1 then take_word c
          else
            (case extend_loop (length (cstr (buf c))) c of
               None \<Rightarrow> None
             | Some c1 \<Rightarrow> list_page numl origy c1))"

definition erase_name :: "completer \<Rightarrow> completer option" where
  "erase_name c =
     (if count c = 0 then Some c
      else
        (case poke (buf c) (count c - 1) NUL of
           None \<Rightarrow> None
         | Some b \<Rightarrow>
             (case ClearSubList (cwlist c) (nm c) of
                None \<Rightarrow> None
              | Some s1 \<Rightarrow>
                  map_option (\<lambda>(s2, node). c\<lparr>nm := s2, buf := b, count := count c - 1, cwlist := node, morelist := 0\<rparr>)
                    (GetSubList (cstr b) (toplev s1) s1))))"

definition key_char :: "int \<Rightarrow> char" where
  "key_char ch = char_of (nat (ch mod 256))"

definition name_key :: "nat \<Rightarrow> int \<Rightarrow> int \<Rightarrow> completer \<Rightarrow> progress option" where
  "name_key numl origy ch c =
     (if ch = - 1 then Some Aborted
      else if ch = 10 \<or> ch = 13 then map_option Finished (accept_name c)
      else if ch = 32 then map_option More (space_name numl origy c)
      else if ch = 127 \<or> ch = 8 then map_option More (erase_name c)
      else if count c < STRLEN then map_option (\<lambda>(c1, kept). More c1) (type_name (key_char ch) c)
      else Some (More c))"

fun name_keys :: "nat \<Rightarrow> int \<Rightarrow> int list \<Rightarrow> completer \<Rightarrow> progress option" where
  "name_keys numl origy [] c = Some (More c)"
| "name_keys numl origy (ch # chs) c =
     (case name_key numl origy ch c of
        None \<Rightarrow> None
      | Some (More c1) \<Rightarrow> name_keys numl origy chs c1
      | Some p \<Rightarrow> Some p)"

definition namecomplete :: "nat \<Rightarrow> int \<Rightarrow> int list \<Rightarrow> names \<Rightarrow> char list \<Rightarrow> progress option" where
  "namecomplete numl origy chs s data =
     (case (if toplev s = 0 then map_option fst (AddToNameList s []) else Some s) of
        None \<Rightarrow> None
      | Some s1 \<Rightarrow>
          (case GetSubList [] (toplev s1) s1 of
             None \<Rightarrow> None
           | Some (s2, p) \<Rightarrow>
               name_keys numl origy chs
                 \<lparr>nm = s2, buf = data, count = 0, cwlist = p, morelist = 0, page = []\<rparr>))"

section \<open>The candidates are the names that match\<close>

definition completing :: "string list \<Rightarrow> completer \<Rightarrow> bool" where
  "completing ws c \<longleftrightarrow>
     (\<forall>n. avail (nm c) n) \<and> fresh (nm c) \<and> (\<forall>w \<in> set ws. length w \<le> 78 \<and> is_cstr w) \<and>
     length (buf c) = 80 \<and> count c < 80 \<and> is_cstr (take (count c) (buf c)) \<and> buf c ! count c = NUL \<and>
     (\<exists>tops xs. linked (heap (nm c)) (toplev (nm c)) tops \<and> texts tops = ws \<and>
        linked (heap (nm c)) (cwlist c) xs \<and> texts xs = filter (matches (take (count c) (buf c))) ws \<and> xs \<noteq> [] \<and>
        set (nodes tops) \<inter> set (nodes xs) = {} \<and>
        (\<exists>ys zs. xs = ys @ zs \<and> linked (heap (nm c)) (morelist c) zs))"


text \<open>Replacing the candidates by a narrower list, and freeing the old ones.\<close>

lemma below_brk: "fresh s \<Longrightarrow> linked (heap s) p xs \<Longrightarrow> a \<in> set (nodes xs) \<Longrightarrow> a < brk s"
  using fresh_notin by (metis not_le)

lemma linked_keep:
  assumes "linked (heap s) p xs" "fresh s" "\<forall>a < brk s. heap s' a = heap s a"
  shows "linked (heap s') p xs"
  using linked_frame [of xs "heap s'" "heap s" p] assms below_brk [OF assms(2,1)] by blast

lemma clear_linked:
  assumes "linked (heap s) p xs" "fresh s"
  shows "\<exists>s'. ClearSubList p s = Some s' \<and> fresh s' \<and> only_heap s s' \<and> brk s' = brk s \<and>
    (\<forall>q ys. linked (heap s) q ys \<longrightarrow> set (nodes ys) \<inter> set (nodes xs) = {} \<longrightarrow> linked (heap s') q ys)"
proof -
  let ?h = "\<lambda>a. if a \<in> set (nodes xs) then None else heap s a"
  have "ClearSubList p s = Some (s\<lparr>heap := ?h\<rparr>)"
    using free_linked [OF assms(1)] by (simp add: ClearSubList_def)
  moreover have "linked ?h q ys" if "linked (heap s) q ys" "set (nodes ys) \<inter> set (nodes xs) = {}" for q ys
  proof -
    have "\<forall>a \<in> set (nodes ys). ?h a = heap s a" using that(2) by auto
    from linked_frame [OF this] that(1) show ?thesis by simp
  qed
  ultimately show ?thesis using assms(2) by (intro exI [of _ "s\<lparr>heap := ?h\<rparr>"]) (auto simp: fresh_def only_heap_def)
qed

lemma matches_trans: "matches t w \<Longrightarrow> matches w x \<Longrightarrow> matches t x"
proof -
  assume a: "matches t w" "matches w x"
  have "map chartoupper (take (length t) w) = take (length t) (map chartoupper w)" by (simp add: take_map)
  also have "\<dots> = take (length t) (map chartoupper (take (length w) x))" using a(2) by (simp add: matches_def)
  also have "\<dots> = map chartoupper (take (length t) x)" using a(1) by (simp add: matches_def take_map min_def)
  finally show ?thesis using a by (auto simp: matches_def)
qed

lemma filter_matches_trans: "matches t w \<Longrightarrow> filter (matches w) (filter (matches t) ws) = filter (matches w) ws"
  unfolding filter_filter by (rule filter_cong [OF refl]) (blast intro: matches_trans)

lemma matches_refl [simp]: "matches w w"
  by (simp add: matches_def)

lemma cstr_buf:
  assumes "is_cstr (take n b)" "n < length b" "b ! n = NUL"
  shows "cstr b = take n b"
  using cstr_append_NUL [OF assms(1), of "drop (Suc n) b"] id_take_nth_drop [OF assms(2)] assms(3) by simp

lemma completing_typed:
  assumes "completing ws c"
  shows "cstr (buf c) = take (count c) (buf c)" "count c \<le> 78" "length (take (count c) (buf c)) = count c"
proof -
  have b: "length (buf c) = 80" "count c < 80" "is_cstr (take (count c) (buf c))" "buf c ! count c = NUL"
    using assms by (auto simp: completing_def)
  then show "cstr (buf c) = take (count c) (buf c)" "length (take (count c) (buf c)) = count c"
    using cstr_buf [of "count c" "buf c"] by auto
  from assms obtain xs where "texts xs = filter (matches (take (count c) (buf c))) ws" "xs \<noteq> []"
    by (auto simp: completing_def)
  then obtain w where "w \<in> set ws" "matches (take (count c) (buf c)) w"
    by (metis filter_False map_is_Nil_conv)
  with assms b(1,2) show "count c \<le> 78" by (auto simp: completing_def matches_def)
qed

lemma completingI:
  assumes "\<And>n. avail (nm c) n" "fresh (nm c)" "\<forall>w \<in> set ws. length w \<le> 78 \<and> is_cstr w"
    "length (buf c) = 80" "count c < 80" "is_cstr (take (count c) (buf c))" "buf c ! count c = NUL"
    "linked (heap (nm c)) (toplev (nm c)) tops" "texts tops = ws"
    "linked (heap (nm c)) (cwlist c) xs" "texts xs = filter (matches (take (count c) (buf c))) ws" "xs \<noteq> []"
    "set (nodes tops) \<inter> set (nodes xs) = {}" "xs = ys @ zs" "linked (heap (nm c)) (morelist c) zs"
  shows "completing ws c"
  using assms unfolding completing_def by blast

lemma completingE:
  assumes "completing ws c"
  obtains tops xs ys zs where "linked (heap (nm c)) (toplev (nm c)) tops" "texts tops = ws"
    "linked (heap (nm c)) (cwlist c) xs" "texts xs = filter (matches (take (count c) (buf c))) ws" "xs \<noteq> []"
    "set (nodes tops) \<inter> set (nodes xs) = {}" "xs = ys @ zs" "linked (heap (nm c)) (morelist c) zs"
  using assms unfolding completing_def by blast

lemma type_name_ok:
  assumes "completing ws c" "ch \<noteq> NUL"
  defines "t \<equiv> take (count c) (buf c)"
  shows "\<exists>c' kept. type_name ch c = Some (c', kept) \<and> completing ws c' \<and> kept = list_ex (matches (t @ [ch])) ws \<and>
    take (count c') (buf c') = (if kept then t @ [ch] else t) \<and> count c' = (if kept then count c + 1 else count c)"
proof -
  from assms(1) obtain tops xs where av: "\<And>n. avail (nm c) n" and fr: "fresh (nm c)"
    and ws: "\<forall>w \<in> set ws. length w \<le> 78 \<and> is_cstr w" "texts tops = ws"
    and l: "linked (heap (nm c)) (toplev (nm c)) tops" "linked (heap (nm c)) (cwlist c) xs"
    and xs: "texts xs = filter (matches t) ws" "xs \<noteq> []" "set (nodes tops) \<inter> set (nodes xs) = {}"
    and b: "length (buf c) = 80" "is_cstr t" "buf c ! count c = NUL"
    and ml: "\<exists>ys zs. xs = ys @ zs \<and> linked (heap (nm c)) (morelist c) zs"
    by (auto simp: completing_def t_def)
  have n: "count c \<le> 78" "length t = count c" using completing_typed [OF assms(1)] by (simp_all add: t_def)
  let ?b = "(buf c)[count c := ch, count c + 1 := NUL]"
  have tb: "take (count c + 1) ?b = t @ [ch]" using n(1) b(1) by (simp add: t_def take_Suc_conv_app_nth)
  have nb: "?b ! (count c + 1) = NUL" using n(1) b(1) by simp
  have cs: "cstr ?b = t @ [ch]"
    using cstr_buf [of "count c + 1" ?b] tb nb b n assms(2) by simp
  obtain s1 r ys where g: "GetSubList (t @ [ch]) (cwlist c) (nm c) = Some (s1, r)" "linked (heap s1) r ys"
    "texts ys = filter (matches (t @ [ch])) (texts xs)" "fresh s1" "only_heap (nm c) s1"
    "set (nodes ys) \<subseteq> {brk (nm c)..<brk s1}" "\<forall>a < brk (nm c). heap s1 a = heap (nm c) a"
    using GetSubList_names [OF l(2) fr av, of "t @ [ch]"] n by auto
  have ys: "texts ys = filter (matches (t @ [ch])) ws" using g(3) xs(1) prefix.narrow by simp
  note l1 = linked_keep [OF l(1) fr g(7)] linked_keep [OF l(2) fr g(7)]
  have top: "toplev s1 = toplev (nm c)" "\<And>n. avail s1 n" using g(5) av by (simp_all add: only_heap_def)
  have below: "a \<in> set (nodes tops) \<union> set (nodes xs) \<Longrightarrow> a < brk (nm c)" for a
    using below_brk [OF fr l(1)] below_brk [OF fr l(2)] by blast
  have dj: "set (nodes tops) \<inter> set (nodes ys) = {}" "set (nodes ys) \<inter> set (nodes xs) = {}"
    using below g(6) by fastforce+
  have start: "type_name ch c = (if r = 0 then Some (c\<lparr>nm := s1, buf := ?b[count c := NUL]\<rparr>, False)
      else case ClearSubList (cwlist c) s1 of None \<Rightarrow> None
        | Some s2 \<Rightarrow> Some (c\<lparr>nm := s2, buf := ?b, count := count c + 1, cwlist := r, morelist := 0\<rparr>, True))"
    using b(1) n(1) cs g(1) by (simp add: type_name_def poke_def split: option.split)
  show ?thesis
  proof (cases "r = 0")
    case True
    let ?c = "c\<lparr>nm := s1, buf := ?b[count c := NUL]\<rparr>"
    have "ys = []" using g(2) True by simp
    then have "filter (matches (t @ [ch])) ws = []" using ys by simp
    then have no: "\<not> list_ex (matches (t @ [ch])) ws" by (auto simp: list_ex_iff filter_empty_conv)
    obtain us zs where uz: "xs = us @ zs" "linked (heap (nm c)) (morelist c) zs" using ml by blast
    have "completing ws ?c"
    proof (rule completingI [where tops = tops and xs = xs and ys = us and zs = zs])
      show "linked (heap (nm ?c)) (morelist ?c) zs" using linked_keep [OF uz(2) fr g(7)] by simp
    qed (use top g(4) ws l1 xs b n uz in \<open>simp_all add: t_def\<close>)
    with start True no show ?thesis by (auto simp: t_def)
  next
    case False
    then have "ys \<noteq> []" using g(2) by auto
    then have "filter (matches (t @ [ch])) ws \<noteq> []" using ys by auto
    then have yes: "list_ex (matches (t @ [ch])) ws" by (auto simp: list_ex_iff filter_empty_conv)
    from clear_linked [OF l1(2) g(4)] obtain s2 where s2: "ClearSubList (cwlist c) s1 = Some s2" "fresh s2"
      "only_heap s1 s2" "\<And>q zs. linked (heap s1) q zs \<Longrightarrow> set (nodes zs) \<inter> set (nodes xs) = {} \<Longrightarrow> linked (heap s2) q zs"
      by blast
    let ?c = "c\<lparr>nm := s2, buf := ?b, count := count c + 1, cwlist := r, morelist := 0\<rparr>"
    have top2: "toplev s2 = toplev (nm c)" "\<And>n. avail s2 n" using s2(3) top by (simp_all add: only_heap_def)
    have "completing ws ?c"
    proof (rule completingI [where tops = tops and xs = ys and ys = ys and zs = "[]"])
      show "texts ys = filter (matches (take (count ?c) (buf ?c))) ws" using ys tb by simp
      show "is_cstr (take (count ?c) (buf ?c))" using tb b(2) assms(2) by simp
      show "buf ?c ! count ?c = NUL" using nb by simp
    qed (use top2 s2(2) s2(4) [OF l1(1)] s2(4) [OF g(2)] xs(3) dj ws b n \<open>ys \<noteq> []\<close> in simp_all)
    with start False s2(1) yes tb show ?thesis by auto
  qed
qed


lemma chartoupper_NUL: "chartoupper c = chartoupper NUL \<longleftrightarrow> c = NUL"
proof -
  have "cval (chartoupper c) = 0 \<longleftrightarrow> cval c = 0"
  proof (cases "97 \<le> cval c \<and> cval c \<le> 122")
    case True
    then have "cval (chartoupper c) = cval c - 32"
      using less_imp_diff_less [OF cval_less [of c], of 32] by (simp add: chartoupper_def)
    with True have "cval (chartoupper c) \<noteq> 0" "cval c \<noteq> 0" by linarith+
    then show ?thesis by blast
  next
    case False
    then have "chartoupper c = c" by (auto simp: chartoupper_def)
    then show ?thesis by simp
  qed
  then show ?thesis by (simp add: chartoupper_def)
qed

lemma same_linked:
  "linked h p xs \<Longrightarrow> \<forall>w \<in> set (texts xs). i \<le> length w \<Longrightarrow>
   same_char h p i ch = Some (list_all (\<lambda>w. chartoupper ch = chartoupper (cget w i)) (texts xs))"
proof (induction xs arbitrary: p)
  case (Cons x xs)
  obtain a w where x: "x = (a, w)" by (cases x)
  with Cons.prems obtain q where "h a = Some \<lparr>word = w, nxt = q\<rparr>" "linked h q xs" "p = a" "a \<noteq> 0" by auto
  with Cons x show ?case by (subst same_char.simps) simp
qed (simp add: same_char.simps)

lemma first_candidate:
  assumes "completing ws c"
  obtains q w xs where "heap (nm c) (cwlist c) = Some \<lparr>word = w, nxt = q\<rparr>"
    "linked (heap (nm c)) (cwlist c) ((cwlist c, w) # xs)" "cwlist c \<noteq> 0"
    "w # texts xs = filter (matches (take (count c) (buf c))) ws"
proof -
  from assms obtain ys where "linked (heap (nm c)) (cwlist c) ys" "ys \<noteq> []"
    "texts ys = filter (matches (take (count c) (buf c))) ws" by (auto simp: completing_def)
  then show thesis using that by (cases ys) auto
qed

text \<open>The space key takes the characters all candidates share, and loses no candidate.\<close>

lemma extend_loop_ok:
  assumes "completing ws c" "i = count c"
  shows "\<exists>c' e. extend_loop i c = Some c' \<and> completing ws c' \<and> count c' = count c + length e \<and>
    take (count c') (buf c') = take (count c) (buf c) @ e \<and>
    filter (matches (take (count c') (buf c'))) ws = filter (matches (take (count c) (buf c))) ws"
  using assms
proof (induction i c rule: extend_loop.induct)
  case (1 i c)
  let ?t = "take (count c) (buf c)"
  have stay: ?case if "extend_loop i c = Some c"
    using that 1(2) by (intro exI [of _ c] exI [of _ "[]"]) simp
  note ty = completing_typed [OF 1(2)]
  obtain q w xs where f: "heap (nm c) (cwlist c) = Some \<lparr>word = w, nxt = q\<rparr>"
    "linked (heap (nm c)) (cwlist c) ((cwlist c, w) # xs)" "cwlist c \<noteq> 0"
    "w # texts xs = filter (matches ?t) ws" using first_candidate [OF 1(2)] by blast
  have len: "\<forall>v \<in> set (w # texts xs). i \<le> length v"
    unfolding f(4) using ty(3) 1(3) by (auto simp: matches_def)
  have same: "same_char (heap (nm c)) (cwlist c) i (cget w i) =
      Some (list_all (\<lambda>v. chartoupper (cget w i) = chartoupper (cget v i)) (w # texts xs))"
    using same_linked [OF f(2), of i "cget w i"] len by simp
  show ?case
  proof (cases "i = 0 \<or> 80 \<le> i \<or> cget w i = NUL \<or>
      \<not> list_all (\<lambda>v. chartoupper (cget w i) = chartoupper (cget v i)) (w # texts xs)")
    case True
    show ?thesis
      by (rule stay) (subst extend_loop.simps, use True f(1) len same in auto)
  next
    case False
    let ?ch = "cget w i"
    obtain c1 kept where k: "type_name ?ch c = Some (c1, kept)" "completing ws c1" "kept = list_ex (matches (?t @ [?ch])) ws"
      "take (count c1) (buf c1) = (if kept then ?t @ [?ch] else ?t)" "count c1 = (if kept then count c + 1 else count c)"
      using type_name_ok [OF 1(2), of ?ch] False by auto
    have all: "matches (?t @ [?ch]) v = matches ?t v" if "v \<in> set ws" for v
    proof -
      have "i < length v" "chartoupper ?ch = chartoupper (v ! i)" if "matches ?t v"
      proof -
        from that \<open>v \<in> set ws\<close> f(4) have v: "v \<in> set (w # texts xs)" by simp
        with False have e: "chartoupper ?ch = chartoupper (cget v i)" by (auto simp: list_all_iff)
        show l: "i < length v"
        proof (rule ccontr)
          assume "\<not> i < length v"
          then have "cget v i = NUL" by simp
          with e False show False by (auto simp: chartoupper_NUL)
        qed
        with e show "chartoupper ?ch = chartoupper (v ! i)" by simp
      qed
      then show ?thesis using ty(3) 1(3) by (auto simp: matches_snoc)
    qed
    then have "filter (matches (?t @ [?ch])) ws = w # texts xs" using f(4) by (metis filter_cong)
    then have "w \<in> set (filter (matches (?t @ [?ch])) ws)" by simp
    then have kept by (auto simp: k(3) list_ex_iff)
    have step: "extend_loop i c = extend_loop (i + 1) c1"
      by (subst extend_loop.simps) (use False f(1) len same k(1) \<open>kept\<close> in auto)
    have "\<exists>c' e. extend_loop (i + 1) c1 = Some c' \<and> completing ws c' \<and> count c' = count c1 + length e \<and>
      take (count c') (buf c') = take (count c1) (buf c1) @ e \<and>
      filter (matches (take (count c') (buf c'))) ws = filter (matches (take (count c1) (buf c1))) ws"
      by (rule "1.IH" [of "\<lparr>word = w, nxt = q\<rparr>" True "(c1, True)" c1 True]) (use False f(1) len same k \<open>kept\<close> 1(3) in auto)
    then obtain c' e where c': "extend_loop (i + 1) c1 = Some c'" "completing ws c'" "count c' = count c1 + length e"
      "take (count c') (buf c') = take (count c1) (buf c1) @ e"
      "filter (matches (take (count c') (buf c'))) ws = filter (matches (take (count c1) (buf c1))) ws" by blast
    have "filter (matches (take (count c1) (buf c1))) ws = filter (matches ?t) ws"
      using k(4) \<open>kept\<close> all by (simp cong: filter_cong)
    with c' step k(4,5) \<open>kept\<close> show ?thesis by (intro exI [of _ c'] exI [of _ "?ch # e"]) simp
  qed
qed


text \<open>A page shows the candidates from a position on, those without a text left out.\<close>

definition words_of :: "(int \<times> nat \<times> string) list \<Rightarrow> string list" where
  "words_of pg = map (\<lambda>e. snd (snd e)) pg"

lemma words_of_simps [simp]: "words_of [] = []" "words_of (pg @ [(r, col, w)]) = words_of pg @ [w]"
  by (simp_all add: words_of_def)

lemma show_column_linked:
  assumes "linked h p zs"
  shows "\<exists>p1 acc1 us vs. show_column h numl origy col p i acc = Some (p1, acc1) \<and> zs = us @ vs \<and> linked h p1 vs \<and>
    words_of acc1 = words_of acc @ filter (\<lambda>w. w \<noteq> []) (texts us)"
  using assms
proof (induction zs arbitrary: p i acc)
  case Nil
  then show ?case by (subst show_column.simps) simp
next
  case (Cons x zs)
  obtain a w where x: "x = (a, w)" by (cases x)
  from Cons.prems x obtain q where q: "h a = Some \<lparr>word = w, nxt = q\<rparr>" "linked h q zs" "p = a" "a \<noteq> 0" by auto
  show ?case
  proof (cases "i \<le> origy - 1")
    case True
    then show ?thesis using Cons.prems
      by (intro exI [of _ p] exI [of _ acc] exI [of _ "[]"] exI [of _ "x # zs"]) (subst show_column.simps, simp)
  next
    case False
    let ?i = "if w \<noteq> [] then i - 1 else i" and ?acc = "if w \<noteq> [] then acc @ [(origy + 2 + (numl - i), col, w)] else acc"
    from Cons.IH [OF q(2), of ?i ?acc] obtain p1 acc1 us vs where
      r: "show_column h numl origy col q ?i ?acc = Some (p1, acc1)" "zs = us @ vs" "linked h p1 vs"
      "words_of acc1 = words_of ?acc @ filter (\<lambda>w. w \<noteq> []) (texts us)" by blast
    have "show_column h numl origy col p i acc = Some (p1, acc1)"
      by (subst show_column.simps) (use q False r(1) in auto)
    then show ?thesis using r x
      by (intro exI [of _ p1] exI [of _ acc1] exI [of _ "x # us"] exI [of _ vs]) auto
  qed
qed

lemma show_columns_linked:
  "linked h p zs \<Longrightarrow> p \<noteq> 0 \<Longrightarrow>
   \<exists>p1 acc1 us vs. show_columns h numl origy p col len acc = Some (p1, acc1) \<and> zs = us @ vs \<and> linked h p1 vs \<and>
    words_of acc1 = words_of acc @ filter (\<lambda>w. w \<noteq> []) (texts us)"
proof (induction h numl origy p col len acc arbitrary: zs rule: show_columns.induct)
  case (1 h numl origy p col len acc)
  show ?case
  proof (cases "80 \<le> len + col")
    case True
    then show ?thesis using 1(2)
      by (intro exI [of _ p] exI [of _ acc] exI [of _ "[]"] exI [of _ zs]) (subst show_columns.simps, simp)
  next
    case False
    obtain p1 acc1 us vs where c: "show_column h (int numl) origy col p (int numl) acc = Some (p1, acc1)"
      "zs = us @ vs" "linked h p1 vs"
      "words_of acc1 = words_of acc @ filter (\<lambda>w. w \<noteq> []) (texts us)"
      using show_column_linked [OF 1(2), of "int numl" origy col "int numl" acc] by blast
    show ?thesis
    proof (cases "p1 = 0")
      case True
      with False c show ?thesis
        by (intro exI [of _ p1] exI [of _ acc1] exI [of _ us] exI [of _ vs]) (subst show_columns.simps, simp)
    next
      case nz: False
      then obtain w q ys where "h p1 = Some \<lparr>word = w, nxt = q\<rparr>" using linked_nonzero c(3) by blast
      then obtain len1 where m: "MaxLen h p1 numl = Some len1"
        using max_linked [OF c(3)] by (simp add: MaxLen_def)
      obtain p2 acc2 us2 vs2 where r: "show_columns h numl origy p1 (col + len + 2) len1 acc1 = Some (p2, acc2)"
        "vs = us2 @ vs2" "linked h p2 vs2"
        "words_of acc2 = words_of acc1 @ filter (\<lambda>w. w \<noteq> []) (texts us2)"
        using 1(1) [OF False c(1) refl nz m c(3) nz] by blast
      have "show_columns h numl origy p col len acc = Some (p2, acc2)"
        by (subst show_columns.simps) (use False c(1) nz m r(1) in simp)
      with r c show ?thesis
        by (intro exI [of _ p2] exI [of _ acc2]) (rule exI [of _ "us @ us2"], rule exI [of _ vs2], simp)
    qed
  qed
qed

lemma list_page_ok:
  assumes "completing ws c"
  shows "\<exists>c'. list_page numl origy c = Some c' \<and> completing ws c' \<and> count c' = count c \<and> buf c' = buf c"
proof -
  obtain tops xs ys zs where l: "linked (heap (nm c)) (toplev (nm c)) tops" "texts tops = ws"
    "linked (heap (nm c)) (cwlist c) xs" "texts xs = filter (matches (take (count c) (buf c))) ws" "xs \<noteq> []"
    "set (nodes tops) \<inter> set (nodes xs) = {}" "xs = ys @ zs" "linked (heap (nm c)) (morelist c) zs"
    using completingE [OF assms] by blast
  let ?p = "if morelist c = 0 then cwlist c else morelist c"
  obtain y' z' where p: "xs = y' @ z'" "linked (heap (nm c)) ?p z'" "?p \<noteq> 0"
  proof (cases "morelist c = 0")
    case True
    moreover have "cwlist c \<noteq> 0" using l(3,5) by (cases xs) auto
    ultimately show ?thesis using that [of "[]" xs] l(3) by simp
  next
    case False
    then show ?thesis using that [of ys zs] l(7,8) by simp
  qed
  then obtain w q where "heap (nm c) ?p = Some \<lparr>word = w, nxt = q\<rparr>" using linked_nonzero by blast
  then obtain len where m: "MaxLen (heap (nm c)) ?p numl = Some len" using max_linked [OF p(2)] by (simp add: MaxLen_def)
  obtain p1 pg us vs where s: "show_columns (heap (nm c)) numl origy ?p 0 len [] = Some (p1, pg)" "z' = us @ vs"
    "linked (heap (nm c)) p1 vs"
    using show_columns_linked [OF p(2,3), of numl origy 0 len "[]"] by blast
  let ?c = "c\<lparr>morelist := p1, page := pg\<rparr>"
  have "list_page numl origy c = Some ?c" using m s(1) by (simp add: list_page_def Let_def)
  moreover have "completing ws ?c"
    by (rule completingI [where tops = tops and xs = xs and ys = "y' @ us" and zs = vs])
      (use assms l p s in \<open>auto simp: completing_def\<close>)
  ultimately show ?thesis by simp
qed

lemma take_word_ok:
  assumes "completing ws c" "filter (matches (take (count c) (buf c))) ws = [w]"
  shows "\<exists>c'. take_word c = Some c' \<and> completing ws c' \<and> take (count c') (buf c') = w"
proof -
  obtain tops xs ys zs where l: "linked (heap (nm c)) (toplev (nm c)) tops" "texts tops = ws"
    "linked (heap (nm c)) (cwlist c) xs" "texts xs = filter (matches (take (count c) (buf c))) ws" "xs \<noteq> []"
    "set (nodes tops) \<inter> set (nodes xs) = {}" "xs = ys @ zs" "linked (heap (nm c)) (morelist c) zs"
    using completingE [OF assms(1)] by blast
  have lb: "length (buf c) = 80" using assms(1) by (simp add: completing_def)
  have win: "w \<in> set ws" "matches (take (count c) (buf c)) w"
  proof -
    have "w \<in> set (filter (matches (take (count c) (buf c))) ws)" by (simp add: assms(2))
    then show "w \<in> set ws" "matches (take (count c) (buf c)) w" by simp_all
  qed
  then have w: "length w \<le> 78" "is_cstr w" using assms(1) by (auto simp: completing_def)
  obtain a where a: "xs = [(a, w)]" "cwlist c = a" using l(3,4) assms(2) by (cases xs) auto
  let ?b = "w @ NUL # drop (length w + 1) (buf c)"
  let ?c = "c\<lparr>buf := ?b, count := length w\<rparr>"
  have "take_word c = Some ?c" using a l(3) w lb by (simp add: take_word_def word_at_def strcpy_def)
  moreover have "filter (matches w) ws = [w]"
  proof -
    show ?thesis using filter_matches_trans [OF win(2), of ws] assms(2) by simp
  qed
  then have "completing ws ?c"
    by (intro completingI [where tops = tops and xs = xs and ys = ys and zs = zs])
      (use assms l w lb a in \<open>auto simp: completing_def\<close>)
  ultimately show ?thesis by simp
qed


lemma erase_name_ok:
  assumes "completing ws c"
  shows "\<exists>c'. erase_name c = Some c' \<and> completing ws c' \<and>
    take (count c') (buf c') = butlast (take (count c) (buf c))"
proof (cases "count c")
  case 0
  with assms show ?thesis by (simp add: erase_name_def)
next
  case (Suc n)
  obtain tops xs ys zs where l: "linked (heap (nm c)) (toplev (nm c)) tops" "texts tops = ws"
    "linked (heap (nm c)) (cwlist c) xs" "texts xs = filter (matches (take (count c) (buf c))) ws" "xs \<noteq> []"
    "set (nodes tops) \<inter> set (nodes xs) = {}" "xs = ys @ zs" "linked (heap (nm c)) (morelist c) zs"
    using completingE [OF assms] by blast
  have b: "length (buf c) = 80" "count c < 80" "is_cstr (take (count c) (buf c))" "fresh (nm c)" "\<And>k. avail (nm c) k"
    "\<forall>w \<in> set ws. length w \<le> 78 \<and> is_cstr w"
    using assms by (auto simp: completing_def)
  let ?b = "(buf c)[n := NUL]"
  have t: "take (Suc n) (buf c) = take n (buf c) @ [buf c ! n]" using Suc b by (simp add: take_Suc_conv_app_nth)
  then have bl: "butlast (take (count c) (buf c)) = take n (buf c)" using Suc by simp
  have ct: "is_cstr (take n (buf c))" using b(3) Suc t by simp
  have cs: "cstr ?b = take n (buf c)" using cstr_buf [of n ?b] ct Suc b by simp
  obtain s1 where s1: "ClearSubList (cwlist c) (nm c) = Some s1" "fresh s1" "only_heap (nm c) s1"
    "\<And>q zs. linked (heap (nm c)) q zs \<Longrightarrow> set (nodes zs) \<inter> set (nodes xs) = {} \<Longrightarrow> linked (heap s1) q zs"
    using clear_linked [OF l(3) b(4)] by blast
  have top1: "toplev s1 = toplev (nm c)" "\<And>k. avail s1 k" using s1(3) b(5) by (simp_all add: only_heap_def)
  have l1: "linked (heap s1) (toplev s1) tops" using s1(4) [OF l(1,6)] top1 by simp
  obtain s2 r rs where g: "GetSubList (take n (buf c)) (toplev s1) s1 = Some (s2, r)" "linked (heap s2) r rs"
    "texts rs = filter (matches (take n (buf c))) (texts tops)" "fresh s2" "only_heap s1 s2"
    "set (nodes rs) \<subseteq> {brk s1..<brk s2}" "\<forall>a < brk s1. heap s2 a = heap s1 a"
  proof -
    have "length (take n (buf c)) < 80" using Suc b(2) by simp
    from GetSubList_names [OF l1 s1(2) top1(2) this] that show thesis by blast
  qed
  have l2: "linked (heap s2) (toplev s2) tops" using linked_keep [OF l1 s1(2) g(7)] g(5) by (simp add: only_heap_def)
  have dj: "set (nodes tops) \<inter> set (nodes rs) = {}" using below_brk [OF s1(2) l1] g(6) by fastforce
  have ne: "rs \<noteq> []"
  proof -
    obtain w where "w \<in> set (texts xs)" using l(5) by (cases xs) auto
    then have "w \<in> set (filter (matches (take (count c) (buf c))) ws)" by (simp only: l(4))
    then have "matches (take n (buf c) @ [buf c ! n]) w" "w \<in> set ws" using Suc t by auto
    then have "w \<in> set (texts rs)" using g(3) l(2) by (simp add: matches_snoc)
    then show ?thesis by auto
  qed
  let ?c = "c\<lparr>nm := s2, buf := ?b, count := n, cwlist := r, morelist := 0\<rparr>"
  have "erase_name c = Some ?c" using Suc b s1(1) g(1) cs by (simp add: erase_name_def poke_def)
  moreover have "completing ws ?c"
  proof (rule completingI [where tops = tops and xs = rs and ys = rs and zs = "[]"])
    show "texts rs = filter (matches (take (count ?c) (buf ?c))) ws" using g(3) l(2) by simp
    show "\<And>k. avail (nm ?c) k" using g(5) top1 by (simp add: only_heap_def)
  qed (use g l2 dj ne b ct Suc l(2) in simp_all)
  ultimately show ?thesis using bl by simp
qed

lemma space_name_ok:
  assumes "completing ws c"
  shows "\<exists>c'. space_name numl origy c = Some c' \<and> completing ws c' \<and>
    filter (matches (take (count c') (buf c'))) ws = filter (matches (take (count c) (buf c))) ws"
proof -
  obtain q w xs where f: "heap (nm c) (cwlist c) = Some \<lparr>word = w, nxt = q\<rparr>"
    "linked (heap (nm c)) (cwlist c) ((cwlist c, w) # xs)" "cwlist c \<noteq> 0"
    "w # texts xs = filter (matches (take (count c) (buf c))) ws" using first_candidate [OF assms] by blast
  have n: "NumInList (heap (nm c)) (cwlist c) = Some (Suc (length xs))"
    using num_linked [OF f(2)] by (simp add: NumInList_def)
  show ?thesis
  proof (cases xs)
    case Nil
    with f(4) have one: "filter (matches (take (count c) (buf c))) ws = [w]" by simp
    obtain c' where c': "take_word c = Some c'" "completing ws c'" "take (count c') (buf c') = w"
      using take_word_ok [OF assms one] by blast
    have "w \<in> set (filter (matches (take (count c) (buf c))) ws)" by (simp add: one)
    then have "matches (take (count c) (buf c)) w" by simp
    then have "filter (matches w) ws = filter (matches (take (count c) (buf c))) ws"
      using filter_matches_trans [of "take (count c) (buf c)" w ws] one by simp
    with c' one n Nil show ?thesis by (simp add: space_name_def)
  next
    case (Cons x xs')
    obtain c1 e where c1: "extend_loop (count c) c = Some c1" "completing ws c1"
      "filter (matches (take (count c1) (buf c1))) ws = filter (matches (take (count c) (buf c))) ws"
      using extend_loop_ok [OF assms refl] by blast
    obtain c2 where c2: "list_page numl origy c1 = Some c2" "completing ws c2" "count c2 = count c1" "buf c2 = buf c1"
      using list_page_ok [OF c1(2)] by blast
    have "length (cstr (buf c)) = count c" using completing_typed [OF assms] by simp
    with c1 c2 n Cons show ?thesis by (simp add: space_name_def)
  qed
qed

text \<open>What the return key leaves in the buffer.\<close>

definition chosen :: "string list \<Rightarrow> string \<Rightarrow> string" where
  "chosen ws s =
     (case filter (matches s) ws of
        [w] \<Rightarrow> w
      | _ \<Rightarrow> (case filter (strcaseeq s) ws of [] \<Rightarrow> s | w # _ \<Rightarrow> w))"

lemma exact_linked: "linked h p xs \<Longrightarrow> exact_loop h s p = Some (List.find (strcaseeq s) (texts xs))"
proof (induction xs arbitrary: p)
  case (Cons x xs)
  obtain a w where x: "x = (a, w)" by (cases x)
  with Cons.prems obtain q where "h a = Some \<lparr>word = w, nxt = q\<rparr>" "linked h q xs" "p = a" "a \<noteq> 0" by auto
  with Cons x show ?case by (subst exact_loop.simps) simp
qed (simp add: exact_loop.simps)

lemma chartoupper_lower: "chartolower (chartoupper c) = chartolower c" "chartoupper (chartolower c) = chartoupper c"
proof -
  have "cval (chartoupper c) = (if 97 \<le> cval c \<and> cval c \<le> 122 then cval c - 32 else cval c)"
    using less_imp_diff_less [OF cval_less [of c], of 32] by (simp add: chartoupper_def)
  then show "chartolower (chartoupper c) = chartolower c"
    by (intro cval_inject [THEN iffD1]) (auto simp: cval_chartolower)
  have "cval (chartoupper d) = (if 97 \<le> cval d \<and> cval d \<le> 122 then cval d - 32 else cval d)" for d
    using less_imp_diff_less [OF cval_less [of d], of 32] by (simp add: chartoupper_def)
  then show "chartoupper (chartolower c) = chartoupper c"
    by (intro cval_inject [THEN iffD1]) (auto simp: cval_chartolower)
qed

lemma strcaseeq_matches: "strcaseeq s w \<Longrightarrow> matches s w"
proof -
  assume a: "strcaseeq s w"
  then have "map chartoupper (map chartolower s) = map chartoupper (map chartolower w)" by (simp add: strcaseeq_def)
  then have "map chartoupper s = map chartoupper w" by (simp add: comp_def chartoupper_lower)
  moreover have "length s = length w" using a by (metis length_map strcaseeq_def)
  ultimately show ?thesis by (simp add: matches_def)
qed

lemma find_filter: "List.find P xs = (case filter P xs of [] \<Rightarrow> None | x # _ \<Rightarrow> Some x)"
  by (induction xs) auto

lemma accept_name_ok:
  assumes "completing ws c"
  shows "\<exists>c'. accept_name c = Some c' \<and> cstr (buf c') = chosen ws (take (count c) (buf c))"
proof -
  let ?t = "take (count c) (buf c)"
  obtain q w xs where f: "heap (nm c) (cwlist c) = Some \<lparr>word = w, nxt = q\<rparr>"
    "linked (heap (nm c)) (cwlist c) ((cwlist c, w) # xs)" "cwlist c \<noteq> 0"
    "w # texts xs = filter (matches ?t) ws" using first_candidate [OF assms] by blast
  note ty = completing_typed [OF assms]
  have b: "length (buf c) = 80" "count c < 80" "fresh (nm c)" "\<forall>w \<in> set ws. length w \<le> 78 \<and> is_cstr w"
    "buf c ! count c = NUL" using assms by (auto simp: completing_def)
  then have b1: "(buf c)[count c := NUL] = buf c" by (metis list_update_id)
  have n: "NumInList (heap (nm c)) (cwlist c) = Some (Suc (length xs))"
    using num_linked [OF f(2)] by (simp add: NumInList_def)
  obtain s where s: "ClearSubList (cwlist c) (nm c) = Some s" using clear_linked [OF f(2) b(3)] by blast
  define pick where "pick = (if length xs = 0 then Some w else List.find (strcaseeq ?t) (w # texts xs))"
  have ex: "(if Suc (length xs) = 1 then map_option Some (word_at c) else exact_loop (heap (nm c)) (cstr (buf c)) (cwlist c)) =
    Some pick"
    using f(1) exact_linked [OF f(2), of ?t] ty by (simp add: pick_def word_at_def)
  have "filter (strcaseeq ?t) (filter (matches ?t) ws) = filter (strcaseeq ?t) ws"
    using strcaseeq_matches by (induction ws) auto
  then have ch: "chosen ws ?t = (case pick of None \<Rightarrow> ?t | Some v \<Rightarrow> v)"
    unfolding chosen_def pick_def f(4) [symmetric]
    by (cases xs) (auto simp: find_filter f(4) [symmetric] split: list.splits)
  show ?thesis
  proof (cases pick)
    case None
    have "accept_name c = Some (c\<lparr>nm := s, buf := buf c\<rparr>)"
      using b ex n s None by (simp add: accept_name_def poke_def b1)
    with None ch ty show ?thesis by simp
  next
    case (Some v)
    have fs: "List.find (strcaseeq ?t) us = Some v \<Longrightarrow> v \<in> set us" for us by (auto simp: find_Some_iff)
    have "v \<in> set (w # texts xs)" using Some fs [of "w # texts xs"] by (cases "xs = []") (simp_all add: pick_def)
    then have v: "length v \<le> 78" "is_cstr v" using f(4) b(4) by auto
    then have "strcpy (buf c) v = Some (v @ NUL # drop (length v + 1) (buf c))" using b by (simp add: strcpy_def)
    then have "accept_name c = Some (c\<lparr>nm := s, buf := v @ NUL # drop (length v + 1) (buf c)\<rparr>)"
      using b ex n s Some by (simp add: accept_name_def poke_def b1)
    with Some ch v show ?thesis by simp
  qed
qed


lemma name_key_ok:
  assumes "completing ws c" "key_char ch \<noteq> NUL"
  shows "name_key numl origy ch c = Some Aborted \<and> ch = - 1 \<or>
    (\<exists>c'. name_key numl origy ch c = Some (More c') \<and> completing ws c') \<or>
    (\<exists>c'. name_key numl origy ch c = Some (Finished c') \<and> (ch = 10 \<or> ch = 13) \<and>
      cstr (buf c') = chosen ws (take (count c) (buf c)))"
proof -
  obtain ca where a: "accept_name c = Some ca" "cstr (buf ca) = chosen ws (take (count c) (buf c))"
    using accept_name_ok [OF assms(1)] by blast
  obtain cs where s: "space_name numl origy c = Some cs" "completing ws cs"
    using space_name_ok [OF assms(1)] by blast
  obtain ce where e: "erase_name c = Some ce" "completing ws ce"
    using erase_name_ok [OF assms(1)] by blast
  obtain ct kept where t: "type_name (key_char ch) c = Some (ct, kept)" "completing ws ct"
    using type_name_ok [OF assms] by blast
  show ?thesis using a s e t assms(1) by (simp add: name_key_def)
qed

lemma name_keys_ok:
  assumes "completing ws c" "\<forall>ch \<in> set chs. key_char ch \<noteq> NUL \<and> ch \<notin> {- 1, 10, 13}"
  shows "\<exists>c'. name_keys numl origy chs c = Some (More c') \<and> completing ws c'"
  using assms
proof (induction chs arbitrary: c)
  case (Cons ch chs)
  then obtain c1 where "name_key numl origy ch c = Some (More c1)" "completing ws c1"
    using name_key_ok [of ws c ch numl origy] by auto
  with Cons show ?case by auto
qed simp

lemma name_keys_append:
  "name_keys numl origy (chs @ chs') c =
    (case name_keys numl origy chs c of Some (More c1) \<Rightarrow> name_keys numl origy chs' c1 | r \<Rightarrow> r)"
  by (induction chs arbitrary: c) (auto split: option.splits progress.splits)

lemma namecomplete_start:
  assumes "names_are s tops" "tops \<noteq> []" "\<And>n. avail s n" "\<forall>w \<in> set (texts tops). length w \<le> 78 \<and> is_cstr w"
    "length data = 80" "data ! 0 = NUL"
  shows "\<exists>c. namecomplete numl origy chs s data = name_keys numl origy chs c \<and> completing (texts tops) c \<and>
    take (count c) (buf c) = []"
proof -
  have l: "linked (heap s) (toplev s) tops" "fresh s" using assms(1) by (auto simp: names_are_def)
  have top: "toplev s \<noteq> 0" using l(1) assms(2) by (cases tops) auto
  obtain s' r ys where g: "GetSubList [] (toplev s) s = Some (s', r)" "linked (heap s') r ys"
    "texts ys = filter (matches []) (texts tops)" "fresh s'" "only_heap s s'"
    "set (nodes ys) \<subseteq> {brk s..<brk s'}" "\<forall>a < brk s. heap s' a = heap s a"
    using GetSubList_names [OF l assms(3), of "[]"] by auto
  let ?c = "\<lparr>nm = s', buf = data, count = 0, cwlist = r, morelist = 0, page = []\<rparr>"
  have ys: "texts ys = texts tops" using g(3) prefix.all_fit by simp
  have "completing (texts tops) ?c"
  proof (rule completingI [where tops = tops and xs = ys and ys = ys and zs = "[]"])
    show "linked (heap (nm ?c)) (toplev (nm ?c)) tops"
      using linked_keep [OF l g(7)] g(5) by (simp add: only_heap_def)
    show "set (nodes tops) \<inter> set (nodes ys) = {}" using below_brk [OF l(2,1)] g(6) by fastforce
    show "texts ys = filter (matches (take (count ?c) (buf ?c))) (texts tops)" using g(3) by simp
    show "ys \<noteq> []" using ys assms(2) by auto
    show "\<And>n. avail (nm ?c) n" using g(5) assms(3) by (simp add: only_heap_def)
  qed (use g assms in simp_all)
  then show ?thesis using top g(1) by (intro exI [of _ ?c]) (simp add: namecomplete_def)
qed


section \<open>Properties\<close>

text \<open>When \<open>current\<close> is the last node, \<open>AddToNameList\<close> adds a name at the end of the list, unless
  the list already has it in some combination of upper and lower case.\<close>

theorem add_name_appends:
  assumes "names_are s xs" "at_end s xs" "\<And>n. avail s n"
  shows "\<exists>s' xs'. AddToNameList s name = Some (s', \<not> known name (texts xs)) \<and> names_are s' xs' \<and> at_end s' xs' \<and>
    texts xs' = (if known name (texts xs) then texts xs else texts xs @ [name])"
  using add_name [OF assms] by blast

definition no_names :: names where
  "no_names = \<lparr>heap = (\<lambda>a. None), toplev = 0, current = 0, brk = 1, avail = (\<lambda>n. True)\<rparr>"

definition two_names :: names where
  "two_names = \<lparr>heap = [1 \<mapsto> \<lparr>word = ''alpha'', nxt = 2\<rparr>, 2 \<mapsto> \<lparr>word = ''beta'', nxt = 0\<rparr>],
     toplev = 1, current = 2, brk = 3, avail = (\<lambda>n. True)\<rparr>"

lemma two_names_are: "names_are two_names [(1, ''alpha''), (2, ''beta'')]"
  by (simp add: names_are_def two_names_def fresh_def)

theorem add_name_appends_witness:
  "\<exists>s' xs'. AddToNameList two_names ''BETA'' = Some (s', \<not> known ''BETA'' (texts [(1, ''alpha''), (2, ''beta'')])) \<and>
    names_are s' xs' \<and> at_end s' xs' \<and>
    texts xs' = (if known ''BETA'' (texts [(1, ''alpha''), (2, ''beta'')]) then texts [(1, ''alpha''), (2, ''beta'')]
      else texts [(1, ''alpha''), (2, ''beta'')] @ [''BETA''])"
  by (rule add_name_appends [OF two_names_are]) (simp_all add: at_end_def two_names_def)

text \<open>\<open>DelFromNameList\<close> removes the first name equal to its argument up to case, and leaves
  \<open>current\<close> before the gap; the next \<open>AddToNameList\<close> puts its name there and cuts off every
  name that followed.\<close>

theorem del_then_add_loses:
  assumes "names_are s (us @ (a, w) # vs)" "\<And>n. avail s n" "us @ vs \<noteq> []"
    "name \<noteq> []" "strcaseeq w name" "list_all (\<lambda>w. \<not> strcaseeq w name) (texts us)" "\<not> known new (texts (us @ vs))"
  shows "\<exists>s1 s2 xs. DelFromNameList s name = Some (s1, True) \<and> names_are s1 (us @ vs) \<and>
    AddToNameList s1 new = Some (s2, True) \<and> names_are s2 xs \<and>
    texts xs = (if us = [] then [snd (hd vs)] else texts us) @ [new]"
proof -
  obtain s1 where s1: "DelFromNameList s name = Some (s1, True)" "names_are s1 (us @ vs)" "avail s1 = avail s"
    "current s1 = (if us = [] then fst (hd vs) else fst (List.last us))"
    using del_name [OF assms(1,4,5,6)] assms(3) by blast
  obtain ts c v rs where split: "us @ vs = ts @ (c, v) # rs" "current s1 = c"
    "ts @ [(c, v)] = (if us = [] then [hd vs] else us)"
  proof (cases us rule: rev_cases)
    case Nil
    then show ?thesis using that [of "[]" "fst (hd vs)" "snd (hd vs)" "tl vs"] assms(3) s1(4) by simp
  next
    case (snoc ts t)
    then show ?thesis using that [of ts "fst t" "snd t" vs] s1(4) by simp
  qed
  obtain s2 b where "AddToNameList s1 new = Some (s2, True)" "names_are s2 (ts @ [(c, v), (b, new)])"
    using add_behind_current [of s1 ts c v rs new] s1(2,3) split(1,2) assms(2,7) by auto
  moreover have "texts (ts @ [(c, v), (b, new)]) = texts (ts @ [(c, v)]) @ [new]" by simp
  ultimately show ?thesis using s1(1,2) split(3)
    by (intro exI [of _ s1] exI [of _ s2] exI [of _ "ts @ [(c, v), (b, new)]"]) (auto split: if_splits)
qed

definition three_names :: names where
  "three_names = \<lparr>heap = [1 \<mapsto> \<lparr>word = ''alpha'', nxt = 2\<rparr>, 2 \<mapsto> \<lparr>word = ''beta'', nxt = 3\<rparr>, 3 \<mapsto> \<lparr>word = ''gamma'', nxt = 0\<rparr>],
     toplev = 1, current = 3, brk = 4, avail = (\<lambda>n. True)\<rparr>"

theorem del_then_add_loses_witness:
  "\<exists>s1 s2 xs. DelFromNameList three_names ''alpha'' = Some (s1, True) \<and> names_are s1 ([] @ [(2, ''beta''), (3, ''gamma'')]) \<and>
    AddToNameList s1 ''delta'' = Some (s2, True) \<and> names_are s2 xs \<and>
    texts xs = (if ([] :: (nat \<times> string) list) = [] then [snd (hd [(2 :: nat, ''beta''), (3, ''gamma'')])] else texts []) @ [''delta'']"
  by (rule del_then_add_loses [of _ "[]" 1 "''alpha''"])
    (simp_all add: three_names_def names_are_def fresh_def known_def strcaseeq_def chartolower_def cval_def of_char_def)

text \<open>\<open>GetSubList\<close> builds, of new nodes, the list of the names that begin with the tag, in the
  order of the list, and leaves the list as it was.\<close>

theorem GetSubList_filters:
  assumes "linked (heap s) p xs" "fresh s" "\<And>n. avail s n" "length tag < 80"
  shows "\<exists>s' r ys. GetSubList tag p s = Some (s', r) \<and> linked (heap s') r ys \<and>
    texts ys = filter (matches tag) (texts xs) \<and> linked (heap s') p xs \<and> set (nodes xs) \<inter> set (nodes ys) = {}"
proof -
  obtain s' r ys where g: "GetSubList tag p s = Some (s', r)" "linked (heap s') r ys"
    "texts ys = filter (matches tag) (texts xs)" "set (nodes ys) \<subseteq> {brk s..<brk s'}" "\<forall>a < brk s. heap s' a = heap s a"
    using GetSubList_names [OF assms] by blast
  have "set (nodes xs) \<inter> set (nodes ys) = {}" using below_brk [OF assms(2,1)] g(4) by fastforce
  with g linked_keep [OF assms(1,2) g(5)] show ?thesis by blast
qed

theorem GetSubList_filters_witness:
  "\<exists>s' r ys. GetSubList ''BE'' (toplev two_names) two_names = Some (s', r) \<and> linked (heap s') r ys \<and>
    texts ys = filter (matches ''BE'') (texts [(1, ''alpha''), (2, ''beta'')]) \<and>
    linked (heap s') (toplev two_names) [(1, ''alpha''), (2, ''beta'')] \<and>
    set (nodes [(1, ''alpha''), (2, ''beta'')]) \<inter> set (nodes ys) = {}"
  by (rule GetSubList_filters) (use two_names_are in \<open>simp_all add: names_are_def two_names_def\<close>)


lemma key_char_nonzero: "ch mod 256 \<noteq> 0 \<Longrightarrow> key_char ch \<noteq> NUL"
proof -
  assume a: "ch mod 256 \<noteq> 0"
  have "0 \<le> ch mod 256" "ch mod 256 < 256" by simp_all
  with a have n: "0 < nat (ch mod 256)" "nat (ch mod 256) < 256" by linarith+
  have "cval (key_char ch) = nat (ch mod 256)" unfolding key_char_def by (rule cval_char_of [OF n(2)])
  with n(1) show ?thesis by (metis cval_NUL less_numeral_extra(3))
qed


text \<open>A key whose byte is zero is kept as if it were a character of the name: the position moves
  on although the text is the same, and what is typed after it is not seen.\<close>

theorem nul_key_kept:
  assumes "completing ws c"
  shows "\<exists>c'. name_key numl origy 0 c = Some (More c') \<and> count c' = count c + 1 \<and> cstr (buf c') = take (count c) (buf c)"
proof -
  let ?t = "take (count c) (buf c)"
  obtain tops xs where l: "linked (heap (nm c)) (cwlist c) xs" "texts xs = filter (matches ?t) ws" "xs \<noteq> []"
    using completingE [OF assms] by metis
  have b: "length (buf c) = 80" "is_cstr ?t" "fresh (nm c)" "\<And>k. avail (nm c) k"
    using assms by (auto simp: completing_def)
  have n: "count c \<le> 78" using completing_typed [OF assms] by simp
  let ?b = "(buf c)[count c := NUL, count c + 1 := NUL]"
  have cs: "cstr ?b = ?t" using cstr_buf [of "count c" ?b] b n by simp
  have len: "length ?t < 80" using n by simp
  obtain s1 r ys where g: "GetSubList ?t (cwlist c) (nm c) = Some (s1, r)" "linked (heap s1) r ys"
    "texts ys = filter (matches ?t) (texts xs)" "fresh s1" "\<forall>a < brk (nm c). heap s1 a = heap (nm c) a"
    using GetSubList_names [OF l(1) b(3,4) len] by blast
  have "texts ys = texts xs" using g(3) l(2) by simp
  with l(3) have "ys \<noteq> []" by auto
  with g(2) have r: "r \<noteq> 0" by (cases ys) auto
  obtain s2 where s2: "ClearSubList (cwlist c) s1 = Some s2"
    using clear_linked [OF linked_keep [OF l(1) b(3) g(5)] g(4)] by blast
  have "type_name NUL c = Some (c\<lparr>nm := s2, buf := ?b, count := count c + 1, cwlist := r, morelist := 0\<rparr>, True)"
    using b(1) n cs g(1) r s2 by (simp add: type_name_def poke_def)
  moreover have "key_char 0 = NUL" by code_simp
  ultimately show ?thesis using cs n by (simp add: name_key_def)
qed

lemma completing_two: "completing [''alpha'', ''beta'']
    \<lparr>nm = two_names\<lparr>heap := (heap two_names)(3 \<mapsto> \<lparr>word = ''beta'', nxt = 0\<rparr>), brk := 4\<rparr>, buf = ''b'' @ replicate 79 NUL,
      count = 1, cwlist = 3, morelist = 0, page = []\<rparr>" (is "completing _ ?c")
proof (rule completingI [where tops = "[(1, ''alpha''), (2, ''beta'')]" and xs = "[(3, ''beta'')]" and ys = "[(3, ''beta'')]" and zs = "[]"])
  show "texts [(3, ''beta'')] = filter (matches (take (count ?c) (buf ?c))) [''alpha'', ''beta'']"
  proof -
    have "filter (matches ''b'') [''alpha'', ''beta''] = [''beta'']" by code_simp
    then show ?thesis by simp
  qed
qed (simp_all add: two_names_def fresh_def)

theorem nul_key_kept_witness:
  "\<exists>c'. name_key 20 3 0 \<lparr>nm = two_names\<lparr>heap := (heap two_names)(3 \<mapsto> \<lparr>word = ''beta'', nxt = 0\<rparr>), brk := 4\<rparr>,
      buf = ''b'' @ replicate 79 NUL, count = 1, cwlist = 3, morelist = 0, page = []\<rparr> = Some (More c') \<and>
    count c' = 1 + 1 \<and> cstr (buf c') = take 1 (''b'' @ replicate 79 NUL)"
  using nul_key_kept [OF completing_two, of 20 3] by simp


end
