(* ===== verification/UserComplete.thy ===== *)
theory UserComplete
  imports NameList
begin

text \<open>
  Completion over the identifiers of all users (\<open>usercomplete\<close> in src/namecomplete.c and
  \<open>u_namearray\<close> in src/ucache.c).  The candidates are an array of fixed rows, modelled by the
  list of the strings in them; an empty tag gives the array of all users itself.  Reading a
  row behind the end of its string is \<open>None\<close>.
\<close>

abbreviation (input) IDLEN :: nat where "IDLEN \<equiv> 12"

section \<open>The arrays\<close>

definition u_namearray :: "string list \<Rightarrow> string \<Rightarrow> string list option" where
  "u_namearray users tag =
     (if tag = [] then Some users
      else if length tag < STRLEN then
        (let tagbuf = map chartoupper tag; ch = csval (tagbuf ! 0) in
         Some (filter (\<lambda>p. (csval (cget p 0) = ch \<or> csval (cget p 0) = ch - 65 + 97) \<and> chkstr tagbuf p) users))
      else None)"

text \<open>The macro \<open>mytoupper\<close> on integers.\<close>

definition mytoupper :: "int \<Rightarrow> int" where
  "mytoupper ch = (if 97 \<le> ch \<and> ch \<le> 122 then ch + 65 - 97 else ch)"

fun sub_rows :: "string list \<Rightarrow> int \<Rightarrow> int \<Rightarrow> nat \<Rightarrow> string list option" where
  "sub_rows [] key key2 pos = Some []"
| "sub_rows (w # ws) key key2 pos =
     (if length w < pos then None
      else case sub_rows ws key key2 pos of
        None \<Rightarrow> None
      | Some rs \<Rightarrow> Some (if csval (cget w pos) = key \<or> csval (cget w pos) = key2 then w # rs else rs))"

definition UserSubArray :: "string list \<Rightarrow> int \<Rightarrow> nat \<Rightarrow> string list option" where
  "UserSubArray ws key pos =
     (let key1 = mytoupper key;
          key2 = (if 65 \<le> key1 \<and> key1 \<le> 90 then key1 - 65 + 97 else key1)
      in sub_rows ws key1 key2 pos)"

fun user_max :: "string list \<Rightarrow> nat \<Rightarrow> nat \<Rightarrow> nat" where
  "user_max [] n m = m"
| "user_max (w # ws) n m = (if n = 0 then m else user_max ws (n - 1) (if m < length w then length w else m))"

definition UserMaxLen :: "string list \<Rightarrow> nat \<Rightarrow> nat \<Rightarrow> nat" where
  "UserMaxLen ws morenum n = user_max (drop morenum ws) n 0"

section \<open>The keys\<close>

record ucompleter =
  ubuf :: "char list"
  ucount :: nat
  ulist :: "string list"
  umore :: nat
  upage :: "(int \<times> nat \<times> string) list"

definition type_user :: "int \<Rightarrow> ucompleter \<Rightarrow> (ucompleter \<times> bool) option" where
  "type_user ch c =
     (case poke (ubuf c) (ucount c) (key_char ch) of
        None \<Rightarrow> None
      | Some b1 \<Rightarrow>
          (case poke b1 (ucount c + 1) NUL of
             None \<Rightarrow> None
           | Some b2 \<Rightarrow>
               (case UserSubArray (ulist c) ch (ucount c) of
                  None \<Rightarrow> None
                | Some rs \<Rightarrow>
                    if rs = [] then Some (c\<lparr>ubuf := b2[ucount c := NUL]\<rparr>, False)
                    else Some (c\<lparr>ubuf := b2, ucount := ucount c + 1, ulist := rs, umore := 0\<rparr>, True))))"

text \<open>The loop of the space key.\<close>

function uextend_loop :: "nat \<Rightarrow> ucompleter \<Rightarrow> ucompleter option" where
  "uextend_loop i c =
     (if i = 0 \<or> IDLEN \<le> i then Some c
      else case ulist c of
        [] \<Rightarrow> None
      | w # ws \<Rightarrow>
          if length w < i then None
          else if cget w i = NUL then Some c
          else if list_ex (\<lambda>v. length v < i) ws then None
          else if list_ex (\<lambda>v. chartoupper (cget v i) \<noteq> chartoupper (cget w i)) (w # ws) then Some c
          else
            (case type_user (csval (cget w i)) c of
               None \<Rightarrow> None
             | Some (c1, False) \<Rightarrow> Some c1
             | Some (c1, True) \<Rightarrow> uextend_loop (i + 1) c1))"
  by pat_completeness auto

termination by (relation "measure (\<lambda>(i, c). 12 - i)") auto

declare uextend_loop.simps [simp del]

text \<open>The listing: a column ends after \<open>lines\<close> words, those without a text not counted.\<close>

fun user_column :: "int \<Rightarrow> int \<Rightarrow> nat \<Rightarrow> string list \<Rightarrow> int \<Rightarrow> (int \<times> nat \<times> string) list \<Rightarrow>
    string list \<times> (int \<times> nat \<times> string) list" where
  "user_column lines origy col [] i acc = ([], acc)"
| "user_column lines origy col (w # ws) i acc =
     (if i < lines then
        (if w \<noteq> [] then user_column lines origy col ws (i + 1) (acc @ [(origy + 2 + i, col, w)])
         else user_column lines origy col ws i acc)
      else (w # ws, acc))"

function user_columns :: "nat \<Rightarrow> int \<Rightarrow> string list \<Rightarrow> nat \<Rightarrow> nat \<Rightarrow> (int \<times> nat \<times> string) list \<Rightarrow>
    string list \<times> (int \<times> nat \<times> string) list" where
  "user_columns numl origy ws col len acc =
     (if 79 \<le> len + col then (ws, acc)
      else case user_column (int numl - origy + 1) origy col ws 0 acc of
        (ws1, acc1) \<Rightarrow>
          if ws1 = [] then (ws1, acc1)
          else user_columns numl origy ws1 (col + len + 2) (UserMaxLen ws1 0 numl) acc1)"
  by pat_completeness auto

termination by (relation "measure (\<lambda>(numl, origy, ws, col, len, acc). 80 - col)") auto

declare user_columns.simps [simp del]

definition user_page :: "nat \<Rightarrow> int \<Rightarrow> ucompleter \<Rightarrow> ucompleter" where
  "user_page numl origy c =
     (case user_columns numl origy (drop (umore c) (ulist c)) 0 (UserMaxLen (ulist c) (umore c) numl) [] of
        (rest, pg) \<Rightarrow> c\<lparr>umore := (if rest = [] then 0 else length (ulist c) - length rest), upage := pg\<rparr>)"

definition space_user :: "nat \<Rightarrow> int \<Rightarrow> ucompleter \<Rightarrow> ucompleter option" where
  "space_user numl origy c =
     (case ulist c of
        [w] \<Rightarrow> map_option (\<lambda>b. c\<lparr>ubuf := b, ucount := length w\<rparr>) (strcpy (ubuf c) w)
      | _ \<Rightarrow> map_option (user_page numl origy) (uextend_loop (length (cstr (ubuf c))) c))"

definition erase_user :: "string list \<Rightarrow> ucompleter \<Rightarrow> ucompleter option" where
  "erase_user users c =
     (if ucount c = 0 then Some c
      else
        (case poke (ubuf c) (ucount c - 1) NUL of
           None \<Rightarrow> None
         | Some b \<Rightarrow>
             map_option (\<lambda>ws. c\<lparr>ubuf := b, ucount := ucount c - 1, ulist := ws, umore := 0\<rparr>)
               (u_namearray users (cstr b))))"

text \<open>The return key: every candidate equal to the buffer, up to case, is copied into it.\<close>

definition strncaseeq :: "nat \<Rightarrow> string \<Rightarrow> string \<Rightarrow> bool" where
  "strncaseeq n s t \<longleftrightarrow> strcaseeq (take n s) (take n t)"

fun accept_rows :: "string list \<Rightarrow> char list \<Rightarrow> char list option" where
  "accept_rows [] b = Some b"
| "accept_rows (w # ws) b =
     (if strncaseeq (IDLEN + 2) (cstr b) w then
        (case strcpy b w of None \<Rightarrow> None | Some b1 \<Rightarrow> accept_rows ws b1)
      else accept_rows ws b)"

definition accept_user :: "ucompleter \<Rightarrow> ucompleter option" where
  "accept_user c =
     (case poke (ubuf c) (ucount c) NUL of
        None \<Rightarrow> None
      | Some b \<Rightarrow> map_option (\<lambda>b1. c\<lparr>ubuf := b1\<rparr>) (accept_rows (ulist c) b))"

datatype uprogress = UMore ucompleter | UFinished ucompleter | UAborted

definition user_key :: "string list \<Rightarrow> nat \<Rightarrow> int \<Rightarrow> int \<Rightarrow> ucompleter \<Rightarrow> uprogress option" where
  "user_key users numl origy ch c =
     (if ch = - 1 then Some UAborted
      else if ch = 10 \<or> ch = 13 then map_option UFinished (accept_user c)
      else if ch = 32 then map_option UMore (space_user numl origy c)
      else if ch = 127 \<or> ch = 8 then map_option UMore (erase_user users c)
      else if ucount c < STRLEN then map_option (\<lambda>(c1, kept). UMore c1) (type_user ch c)
      else Some (UMore c))"

fun user_keys :: "string list \<Rightarrow> nat \<Rightarrow> int \<Rightarrow> int list \<Rightarrow> ucompleter \<Rightarrow> uprogress option" where
  "user_keys users numl origy [] c = Some (UMore c)"
| "user_keys users numl origy (ch # chs) c =
     (case user_key users numl origy ch c of
        None \<Rightarrow> None
      | Some (UMore c1) \<Rightarrow> user_keys users numl origy chs c1
      | Some p \<Rightarrow> Some p)"

definition usercomplete :: "string list \<Rightarrow> nat \<Rightarrow> int \<Rightarrow> int list \<Rightarrow> char list \<Rightarrow> uprogress option" where
  "usercomplete users numl origy chs buffer =
     (case u_namearray users [] of
        None \<Rightarrow> None
      | Some ws \<Rightarrow>
          user_keys users numl origy chs \<lparr>ubuf = buffer, ucount = 0, ulist = ws, umore = 0, upage = []\<rparr>)"

section \<open>The arrays hold the users that match\<close>

lemma u_namearray_matches:
  assumes "length tag < 80"
  shows "u_namearray users tag = Some (filter (matches tag) users)"
proof (cases tag)
  case Nil
  then show ?thesis using prefix.all_fit by (simp add: u_namearray_def)
next
  case (Cons t ts)
  have "(csval (cget p 0) = csval (chartoupper t) \<or> csval (cget p 0) = csval (chartoupper t) - 65 + 97)"
    if "matches tag p" for p
  proof -
    from that Cons obtain c p' where p: "p = c # p'" "chartoupper t = chartoupper c"
      by (cases p) (auto simp: matches_def)
    have "cval (chartoupper c) = (if 97 \<le> cval c \<and> cval c \<le> 122 then cval c - 32 else cval c)"
      using less_imp_diff_less [OF cval_less [of c], of 32] by (simp add: chartoupper_def)
    then have "csval (chartoupper c) = (if 97 \<le> cval c \<and> cval c \<le> 122 then csval c - 32 else csval c)"
      by (auto simp: csval_def)
    then show ?thesis by (auto simp: p cget_def)
  qed
  then have "filter (\<lambda>p. (csval (cget p 0) = csval (chartoupper t) \<or> csval (cget p 0) = csval (chartoupper t) - 65 + 97) \<and>
      matches tag p) users = filter (matches tag) users"
    by (intro filter_cong) auto
  then show ?thesis using assms Cons by (simp add: u_namearray_def Let_def flip: chkstr_matches)
qed

text \<open>Identifiers are made of plain characters.\<close>

definition plain_id :: "string \<Rightarrow> bool" where
  "plain_id w \<longleftrightarrow> length w \<le> 12 \<and> list_all (\<lambda>c. 32 < cval c \<and> cval c < 128) w"

lemma csval_toupper: "cval c < 128 \<Longrightarrow> csval c = int (cval c)"
  by (simp add: csval_def)

lemma cval_chartoupper: "cval (chartoupper c) = (if 97 \<le> cval c \<and> cval c \<le> 122 then cval c - 32 else cval c)"
  using less_imp_diff_less [OF cval_less [of c], of 32] by (simp add: chartoupper_def)

lemma row_test:
  assumes "plain_id w" "pos \<le> length w" "ch mod 256 \<noteq> 0"
  defines "k \<equiv> mytoupper ch"
  shows "(csval (cget w pos) = k \<or> csval (cget w pos) = (if 65 \<le> k \<and> k \<le> 90 then k - 65 + 97 else k)) \<longleftrightarrow>
    0 < ch \<and> ch < 128 \<and> pos < length w \<and> chartoupper (key_char ch) = chartoupper (w ! pos)"
proof (cases "pos < length w")
  case False
  then have "csval (cget w pos) = 0" by (simp add: csval_def)
  moreover have "ch \<noteq> 0" using assms(3) by auto
  ultimately show ?thesis using False by (auto simp: k_def mytoupper_def split: if_splits)
next
  case True
  let ?c = "w ! pos"
  have c: "32 < cval ?c" "cval ?c < 128" using assms(1) True by (auto simp: plain_id_def list_all_length)
  have cs: "csval (cget w pos) = int (cval ?c)" using True c by (simp add: csval_toupper)
  show ?thesis
  proof (cases "0 < ch \<and> ch < 128")
    case in_range: True
    then have "ch mod 256 = ch" by simp
    then have kc: "cval (key_char ch) = nat ch" using in_range cval_char_of [of "nat ch"] by (simp add: key_char_def nat_less_iff)
    have "chartoupper (key_char ch) = chartoupper ?c \<longleftrightarrow> cval (chartoupper (key_char ch)) = cval (chartoupper ?c)"
      by simp
    also have "\<dots> \<longleftrightarrow> (if 97 \<le> ch \<and> ch \<le> 122 then ch - 32 else ch) =
        (if 97 \<le> cval ?c \<and> cval ?c \<le> 122 then int (cval ?c) - 32 else int (cval ?c))"
      unfolding cval_chartoupper kc using in_range by (auto simp: nat_le_iff le_nat_iff)
    finally show ?thesis
      unfolding cs using in_range True by (auto simp: k_def mytoupper_def)
  next
    case False
    with c show ?thesis unfolding cs by (auto simp: k_def mytoupper_def)
  qed
qed

lemma sub_rows_filter:
  "\<forall>w \<in> set ws. pos \<le> length w \<Longrightarrow>
   sub_rows ws key key2 pos = Some (filter (\<lambda>w. csval (cget w pos) = key \<or> csval (cget w pos) = key2) ws)"
  by (induction ws) auto

lemma UserSubArray_filter:
  assumes "\<forall>w \<in> set ws. plain_id w \<and> matches t w" "ch mod 256 \<noteq> 0"
  shows "UserSubArray ws ch (length t) =
    Some (if 0 < ch \<and> ch < 128 then filter (matches (t @ [key_char ch])) ws else [])"
proof -
  have pos: "\<forall>w \<in> set ws. length t \<le> length w" using assms(1) by (auto simp: matches_def)
  have "filter (\<lambda>w. csval (cget w (length t)) = mytoupper ch \<or> csval (cget w (length t)) =
      (if 65 \<le> mytoupper ch \<and> mytoupper ch \<le> 90 then mytoupper ch - 65 + 97 else mytoupper ch)) ws =
    filter (\<lambda>w. 0 < ch \<and> ch < 128 \<and> matches (t @ [key_char ch]) w) ws"
  proof (rule filter_cong [OF refl])
    fix w assume "w \<in> set ws"
    with assms(1) pos have w: "plain_id w" "matches t w" "length t \<le> length w" by auto
    show "(csval (cget w (length t)) = mytoupper ch \<or> csval (cget w (length t)) =
        (if 65 \<le> mytoupper ch \<and> mytoupper ch \<le> 90 then mytoupper ch - 65 + 97 else mytoupper ch)) =
      (0 < ch \<and> ch < 128 \<and> matches (t @ [key_char ch]) w)"
      unfolding row_test [OF w(1,3) assms(2)] matches_snoc using w(2) by blast
  qed
  then show ?thesis
    unfolding UserSubArray_def Let_def sub_rows_filter [OF pos] by (auto simp del: filter_eq_Cons_iff)
qed

definition ucompleting :: "string list \<Rightarrow> ucompleter \<Rightarrow> bool" where
  "ucompleting users c \<longleftrightarrow> (\<forall>w \<in> set users. plain_id w) \<and> length (ubuf c) = 80 \<and> ucount c < 80 \<and>
     is_cstr (take (ucount c) (ubuf c)) \<and> ubuf c ! ucount c = NUL \<and>
     ulist c = filter (matches (take (ucount c) (ubuf c))) users \<and> ulist c \<noteq> []"

lemma ucompleting_typed:
  assumes "ucompleting users c"
  shows "cstr (ubuf c) = take (ucount c) (ubuf c)" "length (take (ucount c) (ubuf c)) = ucount c" "ucount c \<le> 12"
proof -
  from assms show "cstr (ubuf c) = take (ucount c) (ubuf c)" "length (take (ucount c) (ubuf c)) = ucount c"
    using cstr_buf [of "ucount c" "ubuf c"] by (auto simp: ucompleting_def)
  from assms obtain w where "w \<in> set (ulist c)" by (cases "ulist c") (auto simp: ucompleting_def)
  with assms show "ucount c \<le> 12" by (auto simp: ucompleting_def matches_def plain_id_def)
qed

lemma type_user_ok:
  assumes "ucompleting users c" "ch mod 256 \<noteq> 0"
  defines "t \<equiv> take (ucount c) (ubuf c)"
  shows "\<exists>c' kept. type_user ch c = Some (c', kept) \<and> ucompleting users c' \<and>
    kept = (0 < ch \<and> ch < 128 \<and> list_ex (matches (t @ [key_char ch])) users) \<and>
    take (ucount c') (ubuf c') = (if kept then t @ [key_char ch] else t) \<and>
    ucount c' = (if kept then ucount c + 1 else ucount c)"
proof -
  note u = assms(1) [unfolded ucompleting_def, folded t_def]
  note ty = ucompleting_typed [OF assms(1), folded t_def]
  have ws: "\<forall>w \<in> set (ulist c). plain_id w \<and> matches t w" using u by auto
  let ?rs = "if 0 < ch \<and> ch < 128 then filter (matches (t @ [key_char ch])) (ulist c) else []"
  have sub: "UserSubArray (ulist c) ch (ucount c) = Some ?rs"
    using UserSubArray_filter [OF ws assms(2)] ty(2) by simp
  have narrow: "filter (matches (t @ [key_char ch])) (ulist c) = filter (matches (t @ [key_char ch])) users"
    using u prefix.narrow by metis
  let ?b = "(ubuf c)[ucount c := key_char ch, ucount c + 1 := NUL]"
  have start: "type_user ch c = (if ?rs = [] then Some (c\<lparr>ubuf := ?b[ucount c := NUL]\<rparr>, False)
      else Some (c\<lparr>ubuf := ?b, ucount := ucount c + 1, ulist := ?rs, umore := 0\<rparr>, True))"
    using u ty(3) sub by (simp add: type_user_def poke_def)
  have nz: "key_char ch \<noteq> NUL" using key_char_nonzero [OF assms(2)] .
  show ?thesis
  proof (cases "0 < ch \<and> ch < 128 \<and> list_ex (matches (t @ [key_char ch])) users")
    case True
    then obtain w where "w \<in> set (filter (matches (t @ [key_char ch])) users)" by (auto simp: list_ex_iff)
    then have "filter (matches (t @ [key_char ch])) users \<noteq> []" by (metis empty_iff empty_set)
    then have ne: "?rs \<noteq> []" using True narrow by simp
    have tb: "take (ucount c + 1) ?b = t @ [key_char ch]" using u ty(3) by (simp add: t_def take_Suc_conv_app_nth)
    let ?c = "c\<lparr>ubuf := ?b, ucount := ucount c + 1, ulist := ?rs, umore := 0\<rparr>"
    have "ucompleting users ?c"
      unfolding ucompleting_def
    proof (intro conjI)
      show "is_cstr (take (ucount ?c) (ubuf ?c))" using tb u nz by simp
      show "ulist ?c = filter (matches (take (ucount ?c) (ubuf ?c))) users" using tb narrow True by simp
      show "ubuf ?c ! ucount ?c = NUL" using u ty(3) by simp
    qed (use u ty(3) ne in simp_all)
    with start ne True tb show ?thesis by (intro exI [of _ ?c] exI [of _ True]) simp
  next
    case False
    then have e: "?rs = []" using narrow by (auto simp: list_ex_iff filter_empty_conv)
    have "ucompleting users (c\<lparr>ubuf := ?b[ucount c := NUL]\<rparr>)"
      unfolding ucompleting_def using u ty(3) by (auto simp: t_def)
    with start e False show ?thesis
      by (intro exI [of _ "c\<lparr>ubuf := ?b[ucount c := NUL]\<rparr>"] exI [of _ False]) (simp add: t_def)
  qed
qed


lemma first_user:
  assumes "ucompleting users c"
  obtains w ws where "ulist c = w # ws" "\<forall>v \<in> set (w # ws). ucount c \<le> length v \<and> plain_id v \<and> v \<in> set users"
    "w # ws = filter (matches (take (ucount c) (ubuf c))) users"
proof -
  from assms have u: "ulist c = filter (matches (take (ucount c) (ubuf c))) users" "ulist c \<noteq> []"
    "\<forall>w \<in> set users. plain_id w" by (auto simp: ucompleting_def)
  from u(2) obtain w ws where w: "ulist c = w # ws" by (cases "ulist c") auto
  have "ucount c \<le> length v \<and> plain_id v \<and> v \<in> set users" if "v \<in> set (ulist c)" for v
    using that u(1,3) ucompleting_typed(2) [OF assms] by (auto simp: matches_def)
  then have "\<forall>v \<in> set (w # ws). ucount c \<le> length v \<and> plain_id v \<and> v \<in> set users" unfolding w by blast
  from that [OF w this] u(1) w show thesis by simp
qed

lemma uextend_loop_ok:
  assumes "ucompleting users c" "i = ucount c"
  shows "\<exists>c'. uextend_loop i c = Some c' \<and> ucompleting users c'"
  using assms
proof (induction i c rule: uextend_loop.induct)
  case (1 i c)
  obtain w ws where f: "ulist c = w # ws" "\<forall>v \<in> set (w # ws). ucount c \<le> length v \<and> plain_id v \<and> v \<in> set users"
    using first_user [OF 1(2)] by blast
  have long: "\<not> length w < i" "\<not> list_ex (\<lambda>v. length v < i) ws" using f(2) 1(3) by (auto simp: list_ex_iff)
  show ?case
  proof (cases "i = 0 \<or> 12 \<le> i \<or> cget w i = NUL \<or> list_ex (\<lambda>v. chartoupper (cget v i) \<noteq> chartoupper (cget w i)) (w # ws)")
    case True
    have "uextend_loop i c = Some c"
      by (subst uextend_loop.simps) (use True f(1) long in auto)
    with 1(2) show ?thesis by blast
  next
    case False
    have i: "i < length w" using False long by (cases "i < length w") auto
    then have ch: "32 < cval (w ! i)" "cval (w ! i) < 128"
      using f(2) by (auto simp: plain_id_def list_all_length)
    then have "int (cval (w ! i)) mod 256 \<noteq> 0" by (simp del: cval_eq_0)
    then have m: "csval (cget w i) mod 256 \<noteq> 0" using i ch by (simp only: cget_nth csval_toupper not_False_eq_True)
    obtain c1 kept where k: "type_user (csval (cget w i)) c = Some (c1, kept)" "ucompleting users c1"
      "ucount c1 = (if kept then ucount c + 1 else ucount c)"
      using type_user_ok [OF 1(2) m] by blast
    show ?thesis
    proof (cases kept)
      case True
      have "\<exists>c'. uextend_loop (i + 1) c1 = Some c' \<and> ucompleting users c'"
        by (rule "1.IH" [of w ws "(c1, True)" c1 True]) (use False f(1) long k True 1(3) in auto)
      moreover have "uextend_loop i c = uextend_loop (i + 1) c1"
        by (subst uextend_loop.simps) (use False f(1) long k(1) True in auto)
      ultimately show ?thesis by simp
    next
      case no: False
      have "uextend_loop i c = Some c1"
        by (subst uextend_loop.simps) (use False f(1) long k(1) no in auto)
      with k(2) show ?thesis by blast
    qed
  qed
qed

lemma user_page_ok: "ucompleting users c \<Longrightarrow> ucompleting users (user_page numl origy c)"
  by (auto simp: user_page_def ucompleting_def split: prod.split)

lemma space_user_ok:
  assumes "ucompleting users c"
  shows "\<exists>c'. space_user numl origy c = Some c' \<and> ucompleting users c'"
proof -
  obtain w ws where f: "ulist c = w # ws" "\<forall>v \<in> set (w # ws). ucount c \<le> length v \<and> plain_id v \<and> v \<in> set users"
    "w # ws = filter (matches (take (ucount c) (ubuf c))) users"
    using first_user [OF assms] by blast
  show ?thesis
  proof (cases ws)
    case Nil
    have w: "length w \<le> 12" "list_all (\<lambda>c. 32 < cval c \<and> cval c < 128) w" using f(2) by (auto simp: plain_id_def)
    then have cs: "is_cstr w" by (auto simp: is_cstr_def list_all_iff)
    have "w \<in> set (filter (matches (take (ucount c) (ubuf c))) users)" by (simp add: f(3) [symmetric])
    then have "matches (take (ucount c) (ubuf c)) w" by simp
    then have one: "filter (matches w) users = [w]"
      using filter_matches_trans [of "take (ucount c) (ubuf c)" w users] f(3) Nil by (metis filter.simps matches_refl)
    have lb: "length (ubuf c) = 80" using assms by (simp add: ucompleting_def)
    let ?c = "c\<lparr>ubuf := w @ NUL # drop (length w + 1) (ubuf c), ucount := length w\<rparr>"
    have "space_user numl origy c = Some ?c"
      using f(1) [unfolded Nil] w lb by (simp add: space_user_def strcpy_def)
    moreover have "ucompleting users ?c"
      using assms w cs one f(1) [unfolded Nil] by (auto simp: ucompleting_def)
    ultimately show ?thesis by blast
  next
    case (Cons v vs)
    obtain c1 where c1: "uextend_loop (ucount c) c = Some c1" "ucompleting users c1"
      using uextend_loop_ok [OF assms refl] by blast
    have "length (cstr (ubuf c)) = ucount c" using ucompleting_typed [OF assms] by simp
    then have "space_user numl origy c = Some (user_page numl origy c1)"
      using c1(1) f(1) Cons by (simp add: space_user_def)
    with user_page_ok [OF c1(2)] show ?thesis by blast
  qed
qed

lemma erase_user_ok:
  assumes "ucompleting users c"
  shows "\<exists>c'. erase_user users c = Some c' \<and> ucompleting users c'"
proof (cases "ucount c")
  case 0
  with assms show ?thesis by (simp add: erase_user_def)
next
  case (Suc n)
  note u = assms [unfolded ucompleting_def]
  let ?b = "(ubuf c)[n := NUL]"
  have t: "take (Suc n) (ubuf c) = take n (ubuf c) @ [ubuf c ! n]" using Suc u by (simp add: take_Suc_conv_app_nth)
  have ct: "is_cstr (take n (ubuf c))" using u Suc t by simp
  have cs: "cstr ?b = take n (ubuf c)" using cstr_buf [of n ?b] ct Suc u by simp
  have arr: "u_namearray users (take n (ubuf c)) = Some (filter (matches (take n (ubuf c))) users)"
    using u Suc by (intro u_namearray_matches) simp
  obtain w ws where "ulist c = w # ws" "w # ws = filter (matches (take (ucount c) (ubuf c))) users"
    using first_user [OF assms] by blast
  then have "w \<in> set (filter (matches (take (ucount c) (ubuf c))) users)" by (metis list.set_intros(1))
  then have "matches (take n (ubuf c) @ [ubuf c ! n]) w" "w \<in> set users" using Suc t by auto
  then have "w \<in> set (filter (matches (take n (ubuf c))) users)" by (simp add: matches_snoc)
  then have ne: "filter (matches (take n (ubuf c))) users \<noteq> []" by (metis empty_iff empty_set)
  let ?c = "c\<lparr>ubuf := ?b, ucount := n, ulist := filter (matches (take n (ubuf c))) users, umore := 0\<rparr>"
  have "erase_user users c = Some ?c" using Suc u cs arr by (simp add: erase_user_def poke_def)
  moreover have "ucompleting users ?c" using u Suc ct ne by (simp add: ucompleting_def)
  ultimately show ?thesis by blast
qed

lemma accept_rows_ok:
  assumes "\<forall>w \<in> set ws. plain_id w" "length b = 80" "NUL \<in> set b" "length (cstr b) \<le> 12"
  shows "\<exists>b'. accept_rows ws b = Some b' \<and>
    (if list_ex (strcaseeq (cstr b)) ws then cstr b' \<in> set ws \<and> strcaseeq (cstr b) (cstr b') else cstr b' = cstr b)"
  using assms
proof (induction ws arbitrary: b)
  case (Cons w ws)
  have w: "length w \<le> 12" "plain_id w" using Cons.prems(1) by (auto simp: plain_id_def)
  then have cs: "is_cstr w" by (auto simp: plain_id_def is_cstr_def list_all_iff)
  have eq: "strncaseeq (IDLEN + 2) (cstr b) w = strcaseeq (cstr b) w"
    using Cons.prems(4) w by (simp add: strncaseeq_def)
  show ?case
  proof (cases "strcaseeq (cstr b) w")
    case False
    have "accept_rows (w # ws) b = accept_rows ws b" using False eq by simp
    moreover from Cons.IH [of b] Cons.prems obtain b' where "accept_rows ws b = Some b'"
      "if list_ex (strcaseeq (cstr b)) ws then cstr b' \<in> set ws \<and> strcaseeq (cstr b) (cstr b') else cstr b' = cstr b"
      by auto
    ultimately show ?thesis using False by (intro exI [of _ b']) (simp split: if_splits)
  next
    case True
    let ?b = "w @ NUL # drop (length w + 1) b"
    have cb: "cstr ?b = w" using cs by simp
    have "\<exists>b'. accept_rows ws ?b = Some b' \<and>
      (if list_ex (strcaseeq (cstr ?b)) ws then cstr b' \<in> set ws \<and> strcaseeq (cstr ?b) (cstr b') else cstr b' = cstr ?b)"
      by (rule Cons.IH) (use Cons.prems w cb in auto)
    then obtain b' where b': "accept_rows ws ?b = Some b'"
      "if list_ex (strcaseeq w) ws then cstr b' \<in> set ws \<and> strcaseeq w (cstr b') else cstr b' = w"
      unfolding cb by blast
    have "accept_rows (w # ws) b = Some b'" using True eq b'(1) Cons.prems(2) w by (simp add: strcpy_def)
    moreover have "strcaseeq (cstr b) (cstr b')" using b'(2) True by (auto simp: strcaseeq_def split: if_splits)
    moreover have "cstr b' \<in> set (w # ws)" using b'(2) by (auto split: if_splits)
    ultimately show ?thesis using True by auto
  qed
qed simp


lemma accept_user_ok:
  assumes "ucompleting users c"
  defines "t \<equiv> take (ucount c) (ubuf c)"
  shows "\<exists>c'. accept_user c = Some c' \<and>
    (if list_ex (strcaseeq t) users then cstr (ubuf c') \<in> set users \<and> strcaseeq t (cstr (ubuf c')) else cstr (ubuf c') = t)"
proof -
  note u = assms(1) [unfolded ucompleting_def, folded t_def]
  note ty = ucompleting_typed [OF assms(1), folded t_def]
  have same: "(ubuf c)[ucount c := NUL] = ubuf c" using u by (metis list_update_id)
  have nul: "NUL \<in> set (ubuf c)" using u by (metis nth_mem)
  have rows: "list_ex (strcaseeq t) (ulist c) = list_ex (strcaseeq t) users" "set (ulist c) \<subseteq> set users"
    using u strcaseeq_matches by (auto simp: list_ex_iff)
  have pl: "\<forall>w \<in> set (ulist c). plain_id w" using u by auto
  obtain b where b: "accept_rows (ulist c) (ubuf c) = Some b"
    "if list_ex (strcaseeq t) (ulist c) then cstr b \<in> set (ulist c) \<and> strcaseeq t (cstr b) else cstr b = t"
    using accept_rows_ok [OF pl _ nul] u ty by auto
  have "accept_user c = Some (c\<lparr>ubuf := b\<rparr>)"
    using b(1) u same by (simp add: accept_user_def poke_def)
  with b(2) rows show ?thesis by (intro exI [of _ "c\<lparr>ubuf := b\<rparr>"]) (auto split: if_splits)
qed

lemma user_keys_ok:
  assumes "ucompleting users c" "\<forall>ch \<in> set chs. ch mod 256 \<noteq> 0 \<and> ch \<notin> {- 1, 10, 13}"
  shows "\<exists>c'. user_keys users numl origy chs c = Some (UMore c') \<and> ucompleting users c'"
  using assms
proof (induction chs arbitrary: c)
  case (Cons ch chs)
  have ch: "ch mod 256 \<noteq> 0" "ch \<noteq> - 1" "ch \<noteq> 10" "ch \<noteq> 13" using Cons.prems(2) by auto
  obtain cs where s: "space_user numl origy c = Some cs" "ucompleting users cs"
    using space_user_ok [OF Cons.prems(1)] by blast
  obtain ce where e: "erase_user users c = Some ce" "ucompleting users ce"
    using erase_user_ok [OF Cons.prems(1)] by blast
  obtain ct kept where t: "type_user ch c = Some (ct, kept)" "ucompleting users ct"
    using type_user_ok [OF Cons.prems(1) ch(1)] by blast
  obtain c1 where "user_key users numl origy ch c = Some (UMore c1)" "ucompleting users c1"
  proof -
    have "user_key users numl origy ch c = Some (UMore (if ch = 32 then cs else if ch = 127 \<or> ch = 8 then ce
        else if ucount c < 80 then ct else c))"
      using s e t ch by (simp add: user_key_def)
    with that s(2) e(2) t(2) Cons.prems(1) show thesis by (simp split: if_splits)
  qed
  with Cons show ?case by auto
qed simp

lemma user_keys_append:
  "user_keys users numl origy (chs @ chs') c =
    (case user_keys users numl origy chs c of Some (UMore c1) \<Rightarrow> user_keys users numl origy chs' c1 | r \<Rightarrow> r)"
  by (induction chs arbitrary: c) (auto split: option.splits uprogress.splits)

section \<open>Properties\<close>

text \<open>\<open>u_namearray\<close> returns the users whose identifier begins with the tag, in the order of the
  user table.\<close>

theorem u_namearray_prefix:
  assumes "length tag < 80"
  shows "u_namearray users tag = Some (filter (matches tag) users)"
  by (rule u_namearray_matches [OF assms])

theorem u_namearray_prefix_witness:
  "u_namearray [''SYSOP'', ''guest''] ''sy'' = Some (filter (matches ''sy'') [''SYSOP'', ''guest''])"
  by (rule u_namearray_prefix) simp

text \<open>Whatever keys are pressed before the return key, \<open>usercomplete\<close> stays inside its arrays,
  what has been typed begins the identifier of at least one user, and the text returned is
  the identifier of a user equal to it up to case when there is one, and what was typed
  otherwise.\<close>

theorem usercomplete_returns:
  assumes "\<forall>w \<in> set users. plain_id w" "users \<noteq> []" "length data = 80" "data ! 0 = NUL"
    "\<forall>ch \<in> set chs. ch mod 256 \<noteq> 0 \<and> ch \<notin> {- 1, 10, 13}"
  shows "\<exists>c t. usercomplete users numl origy (chs @ [13]) data = Some (UFinished c) \<and> list_ex (matches t) users \<and>
    (if list_ex (strcaseeq t) users then cstr (ubuf c) \<in> set users \<and> strcaseeq t (cstr (ubuf c)) else cstr (ubuf c) = t)"
proof -
  let ?c0 = "\<lparr>ubuf = data, ucount = 0, ulist = users, umore = 0, upage = []\<rparr>"
  have "ucompleting users ?c0" using assms prefix.all_fit by (simp add: ucompleting_def)
  then obtain c1 where c1: "user_keys users numl origy chs ?c0 = Some (UMore c1)" "ucompleting users c1"
    using user_keys_ok [OF _ assms(5)] by blast
  let ?t = "take (ucount c1) (ubuf c1)"
  obtain c2 where c2: "accept_user c1 = Some c2"
    "if list_ex (strcaseeq ?t) users then cstr (ubuf c2) \<in> set users \<and> strcaseeq ?t (cstr (ubuf c2)) else cstr (ubuf c2) = ?t"
    using accept_user_ok [OF c1(2)] by blast
  have "usercomplete users numl origy (chs @ [13]) data = Some (UFinished c2)"
    using c1(1) c2(1) by (simp add: usercomplete_def u_namearray_def user_keys_append user_key_def)
  moreover obtain w ws where "w # ws = filter (matches ?t) users" using first_user [OF c1(2)] by blast
  then have "w \<in> set (filter (matches ?t) users)" by (metis list.set_intros(1))
  then have "list_ex (matches ?t) users" by (auto simp: list_ex_iff)
  ultimately show ?thesis using c2(2) by blast
qed

theorem usercomplete_returns_witness:
  "\<exists>c t. usercomplete [''SYSOP'', ''guest''] 20 3 ([103, 32] @ [13]) (replicate 80 NUL) = Some (UFinished c) \<and>
    list_ex (matches t) [''SYSOP'', ''guest''] \<and>
    (if list_ex (strcaseeq t) [''SYSOP'', ''guest''] then cstr (ubuf c) \<in> set [''SYSOP'', ''guest''] \<and> strcaseeq t (cstr (ubuf c))
     else cstr (ubuf c) = t)"
  by (rule usercomplete_returns) (simp_all add: plain_id_def cval_def of_char_def)


end
