(* ===== verification/TextLines.thy ===== *)
theory TextLines
  imports Prelude
begin

text \<open>
  The text in the editor (src/edit.c): a doubly linked list of lines in the heap, with
  pointers to the first, the last, the current and the topmost visible line.  Address 0 is
  \<open>NULL\<close>; a line has a buffer of 256 bytes and its length.  \<open>raw\<close> gives the bytes a fresh
  block holds; a failing allocation ends the program and is not modelled.  \<open>None\<close> is an
  access through \<open>NULL\<close> or outside a buffer.
\<close>

abbreviation (input) WRAPMARGIN :: nat where "WRAPMARGIN \<equiv> 255"
abbreviation (input) BUFSIZE :: nat where "BUFSIZE \<equiv> 256"

record textline =
  tprev :: nat
  tnext :: nat
  tlen :: nat
  tattr :: nat
  tdata :: "char list"

type_synonym lheap = "nat \<Rightarrow> textline option"

record editor =
  lines :: lheap
  firstline :: nat
  lastline :: nat
  currline :: nat
  top_of_win :: nat
  lbrk :: nat
  raw :: "nat \<Rightarrow> char list"
  currpnt :: nat
  currln :: int
  curr_window_line :: int
  redraw_everything :: bool
  insert_character :: bool
  enabledbchar :: bool
  mark_begin :: nat
  mark_end :: nat
  mark_on :: bool
  first_mark_line :: int
  marknum :: int
  moveln :: nat
  shifttmp :: nat
  lastindent :: int
  editansi :: bool
  t_lines :: int
  origin :: "string option"

section \<open>The operations\<close>

definition modify :: "nat \<Rightarrow> (textline \<Rightarrow> textline) \<Rightarrow> lheap \<Rightarrow> lheap option" where
  "modify a f h = map_option (\<lambda>l. h(a \<mapsto> f l)) (h a)"

text \<open>\<open>Origin\<close>: the mark of the line that says where an article was posted, in the mode in which it counts.\<close>

definition Origin :: "editor \<Rightarrow> nat \<Rightarrow> bool option" where
  "Origin e p =
     (case origin e of
        None \<Rightarrow> Some False
      | Some tmp \<Rightarrow>
          if p = 0 then Some False
          else map_option (\<lambda>l. strstr (cstr (tdata l)) tmp \<and> cget (cstr (tdata l)) 0 \<noteq> CHR '':'') (lines e p))"

text \<open>\<open>forward_line\<close> and \<open>back_line\<close> return the line and the number of lines moved over.\<close>

fun forward_line :: "lheap \<Rightarrow> nat \<Rightarrow> nat \<Rightarrow> nat \<Rightarrow> (nat \<times> nat) option" where
  "forward_line h pos 0 moved = Some (pos, moved)"
| "forward_line h pos (Suc n) moved =
     (if pos = 0 then forward_line h pos n moved
      else case h pos of
        None \<Rightarrow> None
      | Some l \<Rightarrow> if tnext l \<noteq> 0 then forward_line h (tnext l) n (moved + 1) else forward_line h pos n moved)"

fun back_line :: "lheap \<Rightarrow> nat \<Rightarrow> nat \<Rightarrow> nat \<Rightarrow> (nat \<times> nat) option" where
  "back_line h pos 0 moved = Some (pos, moved)"
| "back_line h pos (Suc n) moved =
     (if pos = 0 then back_line h pos n moved
      else case h pos of
        None \<Rightarrow> None
      | Some l \<Rightarrow> if tprev l \<noteq> 0 then back_line h (tprev l) n (moved + 1) else back_line h pos n moved)"

text \<open>\<open>countline\<close> and \<open>getlineno\<close>: loops over the list, which do not end when it is damaged.\<close>

partial_function (option) count_loop :: "lheap \<Rightarrow> nat \<Rightarrow> nat \<Rightarrow> nat \<Rightarrow> nat option" where
  "count_loop h la pos moved =
     (if pos = la then Some moved
      else case h pos of
        None \<Rightarrow> None
      | Some l \<Rightarrow> if tnext l \<noteq> 0 then count_loop h la (tnext l) (moved + 1) else count_loop h la pos moved)"

definition countline :: "editor \<Rightarrow> nat option" where
  "countline e = count_loop (lines e) (lastline e) (firstline e) 0"

partial_function (option) lineno_loop :: "lheap \<Rightarrow> nat \<Rightarrow> nat \<Rightarrow> nat \<Rightarrow> nat option" where
  "lineno_loop h tw p cnt =
     (if p = tw \<or> p = 0 then Some cnt
      else case h p of None \<Rightarrow> None | Some l \<Rightarrow> lineno_loop h tw (tprev l) (cnt + 1))"

definition getlineno :: "editor \<Rightarrow> nat option" where
  "getlineno e = lineno_loop (lines e) (top_of_win e) (currline e) 0"

definition alloc_line :: "editor \<Rightarrow> editor \<times> nat" where
  "alloc_line e =
     (e\<lparr>lines := (lines e)(lbrk e \<mapsto>
          \<lparr>tprev = 0, tnext = 0, tlen = 0, tattr = 0, tdata = (raw e (lbrk e))[0 := NUL]\<rparr>),
        lbrk := lbrk e + 1\<rparr>, lbrk e)"

text \<open>\<open>append(p, line)\<close> puts \<open>p\<close> behind \<open>line\<close>.\<close>

definition append_line :: "nat \<Rightarrow> nat \<Rightarrow> editor \<Rightarrow> editor option" where
  "append_line p line e =
     (case lines e line of
        None \<Rightarrow> None
      | Some l \<Rightarrow>
          (case modify p (\<lambda>x. x\<lparr>tnext := tnext l\<rparr>) (lines e) of
             None \<Rightarrow> None
           | Some h1 \<Rightarrow>
               (case (if tnext l \<noteq> 0 then map_option (\<lambda>h. e\<lparr>lines := h\<rparr>) (modify (tnext l) (\<lambda>x. x\<lparr>tprev := p\<rparr>) h1)
                      else Some (e\<lparr>lines := h1, lastline := p\<rparr>)) of
                  None \<Rightarrow> None
                | Some e1 \<Rightarrow>
                    (case modify line (\<lambda>x. x\<lparr>tnext := p\<rparr>) (lines e1) of
                       None \<Rightarrow> None
                     | Some h2 \<Rightarrow> map_option (\<lambda>h. e1\<lparr>lines := h\<rparr>) (modify p (\<lambda>x. x\<lparr>tprev := line\<rparr>) h2)))))"

text \<open>The macro \<open>ADJUST_MARK\<close>, and \<open>delete_line\<close>.\<close>

definition adjust_mark :: "nat \<Rightarrow> nat \<Rightarrow> textline \<Rightarrow> nat" where
  "adjust_mark m line l = (if m = line then (if tnext l \<noteq> 0 then tnext l else tprev l) else m)"

definition delete_line :: "nat \<Rightarrow> editor \<Rightarrow> editor option" where
  "delete_line line e =
     (case lines e line of
        None \<Rightarrow> None
      | Some l \<Rightarrow>
          if tnext l = 0 \<and> tprev l = 0 then
            Some (e\<lparr>lines := (lines e)(line \<mapsto> l\<lparr>tdata := (tdata l)[0 := NUL], tlen := 0\<rparr>),
                    mark_on := False, mark_begin := 0, mark_end := 0\<rparr>)
          else
            (let e0 = e\<lparr>mark_begin := adjust_mark (mark_begin e) line l, mark_end := adjust_mark (mark_end e) line l\<rparr> in
             case (if tnext l \<noteq> 0 then map_option (\<lambda>h. e0\<lparr>lines := h\<rparr>) (modify (tnext l) (\<lambda>x. x\<lparr>tprev := tprev l\<rparr>) (lines e0))
                   else Some (e0\<lparr>lastline := tprev l\<rparr>)) of
               None \<Rightarrow> None
             | Some e1 \<Rightarrow>
                 (case (if tprev l \<noteq> 0 then map_option (\<lambda>h. e1\<lparr>lines := h\<rparr>) (modify (tprev l) (\<lambda>x. x\<lparr>tnext := tnext l\<rparr>) (lines e1))
                        else Some (e1\<lparr>firstline := tnext l\<rparr>)) of
                    None \<Rightarrow> None
                  | Some e2 \<Rightarrow> Some (e2\<lparr>lines := (lines e2)(line := None)\<rparr>))))"

text \<open>\<open>split\<close>: the fresh line is freed again when the position is behind the line.\<close>

definition split_line :: "nat \<Rightarrow> nat \<Rightarrow> editor \<Rightarrow> editor option" where
  "split_line line pos e =
     (case alloc_line e of
        (e1, p) \<Rightarrow>
          (case lines e1 line of
             None \<Rightarrow> None
           | Some l \<Rightarrow>
               if tlen l < pos then Some (e1\<lparr>lines := (lines e1)(p := None)\<rparr>)
               else if NUL \<notin> set (drop pos (tdata l)) then None
               else
                 (case (lines e1 p, poke (tdata l) pos NUL) of
                    (Some q, Some d) \<Rightarrow>
                      (case strcpy (tdata q) (cstr (drop pos (tdata l))) of
                         None \<Rightarrow> None
                       | Some qd \<Rightarrow>
                           (case append_line p line
                                  (e1\<lparr>lines := (lines e1)(p \<mapsto> q\<lparr>tlen := tlen l - pos, tdata := qd, tattr := tattr l\<rparr>,
                                                   line \<mapsto> l\<lparr>tlen := pos, tdata := d\<rparr>)\<rparr>) of
                              None \<Rightarrow> None
                            | Some e2 \<Rightarrow>
                                Some ((if line = currline e2 \<and> pos \<le> currpnt e2
                                       then e2\<lparr>currline := p, currpnt := currpnt e2 - pos,
                                               curr_window_line := curr_window_line e2 + 1, currln := currln e2 + 1\<rparr>
                                       else e2)\<lparr>redraw_everything := True\<rparr>)))
                  | _ \<Rightarrow> None)))"

text \<open>The scans \<open>while (s != p->data && ...) s--\<close>, as positions.\<close>

fun back_while :: "(char \<Rightarrow> bool) \<Rightarrow> char list \<Rightarrow> nat \<Rightarrow> nat" where
  "back_while P d 0 = 0"
| "back_while P d (Suc k) = (if P (d ! Suc k) then back_while P d k else Suc k)"

definition word_break :: "char list \<Rightarrow> nat \<Rightarrow> nat" where
  "word_break d k = back_while (\<lambda>c. c \<noteq> CHR '' '') d (back_while (\<lambda>c. c = CHR '' '') d k)"

text \<open>\<open>strcat(a->data, s)\<close>.\<close>

definition strcat_data :: "textline \<Rightarrow> string \<Rightarrow> textline option" where
  "strcat_data l s =
     (if NUL \<in> set (tdata l) then map_option (\<lambda>d. l\<lparr>tdata := d\<rparr>) (strcpy (tdata l) (cstr (tdata l) @ s)) else None)"

text \<open>The space \<open>join\<close> puts behind the carried words when the line ends in another character.\<close>

definition join_pad :: "nat \<Rightarrow> editor \<Rightarrow> editor option" where
  "join_pad a e =
     (case lines e a of
        None \<Rightarrow> None
      | Some p \<Rightarrow>
          if 1 \<le> tlen p \<and> tlen p + 1 < WRAPMARGIN \<and> tdata p ! (tlen p - 1) \<noteq> CHR '' '' then
            map_option (\<lambda>p1. e\<lparr>lines := (lines e)(a \<mapsto> p1\<lparr>tlen := tlen p + 1\<rparr>)\<rparr>) (strcat_data p '' '')
          else Some e)"

text \<open>\<open>join\<close>: the branch in which the two lines fit in one, and the whole function.\<close>

definition join_fit :: "nat \<Rightarrow> textline \<Rightarrow> textline \<Rightarrow> editor \<Rightarrow> editor option" where
  "join_fit line l n e =
     (case (if NUL \<in> set (tdata n) then strcat_data l (cstr (tdata n)) else None) of
        None \<Rightarrow> None
      | Some l1 \<Rightarrow> delete_line (tnext l) (e\<lparr>lines := (lines e)(line \<mapsto> l1\<lparr>tlen := tlen l + tlen n\<rparr>)\<rparr>))"

partial_function (option) join :: "nat \<Rightarrow> editor \<Rightarrow> (editor \<times> bool) option" where
  "join line e =
     (case lines e line of
        None \<Rightarrow> None
      | Some l \<Rightarrow>
          if tnext l = 0 then Some (e, True)
          else
            (case lines e (tnext l) of
               None \<Rightarrow> None
             | Some n \<Rightarrow>
                 if tlen l + tlen n < WRAPMARGIN then map_option (\<lambda>e1. (e1, True)) (join_fit line l n e)
                 else if WRAPMARGIN \<le> tlen l then None
                 else
                   (let s = word_break (tdata n) (254 - tlen l) in
                    if s = 0 then Some (e, True)
                    else
                      (case split_line (tnext l) (s + 1) e of
                         None \<Rightarrow> None
                       | Some e1 \<Rightarrow>
                           (case lines e1 line of
                              None \<Rightarrow> None
                            | Some l2 \<Rightarrow>
                                (case lines e1 (tnext l) of
                                   None \<Rightarrow> None
                                 | Some n2 \<Rightarrow>
                                     if WRAPMARGIN \<le> tlen l2 + tlen n2 then Some (e1, True)
                                     else
                                       Option.bind (join line e1) (\<lambda>r.
                                         case lines (fst r) line of
                                           None \<Rightarrow> None
                                         | Some l3 \<Rightarrow> map_option (\<lambda>e3. (e3, False)) (join_pad (tnext l3) (fst r)))))))))"

section \<open>The list in the heap\<close>

text \<open>
  \<open>seg h p r b\<close>: the lines \<open>r\<close> (address and text) hang together, from a first line whose
  predecessor is \<open>p\<close> to a last line whose successor is \<open>b\<close>.
\<close>

definition text_of :: "textline \<Rightarrow> string \<Rightarrow> bool" where
  "text_of t s \<longleftrightarrow> is_cstr s \<and> tlen t = length s \<and>
     (\<exists>rest. tdata t = s @ NUL # rest \<and> length s + length rest = 255)"

definition first :: "(nat \<times> string) list \<Rightarrow> nat \<Rightarrow> nat" where
  "first r b = (case r of [] \<Rightarrow> b | x # _ \<Rightarrow> fst x)"

definition lastp :: "nat \<Rightarrow> (nat \<times> string) list \<Rightarrow> nat" where
  "lastp p r = last (p # map fst r)"

fun seg :: "lheap \<Rightarrow> nat \<Rightarrow> (nat \<times> string) list \<Rightarrow> nat \<Rightarrow> bool" where
  "seg h p [] b = True"
| "seg h p ((x, s) # r) b =
     (x \<noteq> 0 \<and> (\<exists>t. h x = Some t \<and> tprev t = p \<and> tnext t = first r b \<and> text_of t s) \<and> seg h x r b)"

definition fresh_ok :: "editor \<Rightarrow> bool" where
  "fresh_ok e \<longleftrightarrow> 0 < lbrk e \<and> (\<forall>a\<ge>lbrk e. lines e a = None) \<and> (\<forall>a. length (raw e a) = BUFSIZE)"

definition view :: "editor \<Rightarrow> (nat \<times> string) list \<Rightarrow> bool" where
  "view e r \<longleftrightarrow> r \<noteq> [] \<and> seg (lines e) 0 r 0 \<and> distinct (map fst r) \<and>
     firstline e = first r 0 \<and> lastline e = lastp 0 r \<and> fresh_ok e"

lemma first_simps [simp]: "first [] b = b" "first (x # r) b = fst x"
  by (simp_all add: first_def)

lemma first_append: "first (r @ r2) b = first r (first r2 b)"
  by (cases r) simp_all

lemma lastp_simps [simp]: "lastp p [] = p" "lastp p (x # r) = lastp (fst x) r"
  by (simp_all add: lastp_def)

lemma lastp_append [simp]: "lastp p (r @ r2) = lastp (lastp p r) r2"
  by (induction r arbitrary: p) simp_all

lemma lastp_in: "r \<noteq> [] \<Longrightarrow> lastp p r \<in> fst ` set r"
proof -
  assume "r \<noteq> []"
  then have "lastp p r = last (map fst r)" by (simp add: lastp_def)
  moreover have "last (map fst r) \<in> set (map fst r)" using \<open>r \<noteq> []\<close> by (intro last_in_set) simp
  ultimately show ?thesis by simp
qed

lemma seg_append: "seg h p (r @ r2) b \<longleftrightarrow> seg h p r (first r2 b) \<and> seg h (lastp p r) r2 b"
proof (induction r arbitrary: p)
  case (Cons y r)
  then show ?case by (cases y) (simp add: first_append conj_assoc)
qed simp

lemma seg_frame: "(\<And>x. x \<in> fst ` set r \<Longrightarrow> h' x = h x) \<Longrightarrow> seg h' p r b \<longleftrightarrow> seg h p r b"
  by (induction r arbitrary: p) auto

lemma seg_upd [simp]: "a \<notin> fst ` set r \<Longrightarrow> seg (h(a := v)) p r b \<longleftrightarrow> seg h p r b"
  by (rule seg_frame) auto

lemma seg_mem: "seg h p r b \<Longrightarrow> (x, s) \<in> set r \<Longrightarrow> x \<noteq> 0 \<and> (\<exists>t. h x = Some t \<and> text_of t s)"
  by (induction r arbitrary: p) auto

lemma seg_nz: "seg h p r b \<Longrightarrow> r \<noteq> [] \<Longrightarrow> lastp p r \<noteq> 0"
proof (induction r arbitrary: p)
  case (Cons y r)
  obtain x s where y: "y = (x, s)" by (cases y)
  with Cons.prems have "x \<noteq> 0" "seg h x r b" by auto
  then show ?case using Cons.IH [of x] y by (cases "r = []") auto
qed simp

lemma text_of_links [simp]:
  "text_of (t\<lparr>tnext := n\<rparr>) s = text_of t s" "text_of (t\<lparr>tprev := n\<rparr>) s = text_of t s"
  "text_of (t\<lparr>tattr := n\<rparr>) s = text_of t s"
  by (simp_all add: text_of_def)

lemma viewD:
  "view e r \<Longrightarrow> seg (lines e) 0 r 0" "view e r \<Longrightarrow> distinct (map fst r)"
  "view e r \<Longrightarrow> firstline e = first r 0" "view e r \<Longrightarrow> lastline e = lastp 0 r" "view e r \<Longrightarrow> fresh_ok e"
  by (simp_all add: view_def)

text \<open>Replacing the text of a line, and putting a fresh line behind a line.\<close>

lemma seg_set_text:
  "seg h p (us @ (x, s) # vs) b \<Longrightarrow> distinct (map fst (us @ (x, s) # vs)) \<Longrightarrow> h x = Some t \<Longrightarrow>
     tprev t' = tprev t \<Longrightarrow> tnext t' = tnext t \<Longrightarrow> text_of t' s' \<Longrightarrow>
     seg (h(x \<mapsto> t')) p (us @ (x, s') # vs) b"
  by (auto simp: seg_append)

lemma seg_insert:
  assumes "seg h p (us @ (x, s) # vs) b" and "distinct (map fst (us @ (x, s) # vs))"
    and "n \<notin> fst ` set (us @ (x, s) # vs)" and "n \<noteq> 0" and "h n = Some q" and "text_of q s'"
    and "h x = Some t" and "tnext t = first vs b"
    and "vs \<noteq> [] \<Longrightarrow> h (first vs b) = Some w"
    and "h' = (if vs = [] then h else h(first vs b \<mapsto> w\<lparr>tprev := n\<rparr>))
               (x \<mapsto> t\<lparr>tnext := n\<rparr>, n \<mapsto> q\<lparr>tnext := first vs b, tprev := x\<rparr>)"
  shows "seg h' p (us @ (x, s) # (n, s') # vs) b"
proof (cases vs)
  case Nil
  with assms show ?thesis by (auto simp: seg_append)
next
  case (Cons y vs')
  obtain z u where y: "y = (z, u)" by (cases y)
  from assms Cons y show ?thesis by (auto simp: seg_append image_Un)
qed

lemma append_line_view:
  assumes "seg (lines e) 0 (us @ (x, s) # vs) 0" and "distinct (map fst (us @ (x, s) # vs))"
    and "lastline e = lastp 0 (us @ (x, s) # vs)"
    and "n \<notin> fst ` set (us @ (x, s) # vs)" and "n \<noteq> 0" and "lines e n = Some q" and "text_of q s'"
  shows "\<exists>e'. append_line n x e = Some e' \<and> seg (lines e') 0 (us @ (x, s) # (n, s') # vs) 0 \<and>
     lastline e' = lastp 0 (us @ (x, s) # (n, s') # vs) \<and> dom (lines e') = dom (lines e) \<and>
     e' = e\<lparr>lines := lines e', lastline := lastline e'\<rparr>"
proof -
  from assms(1) obtain t where t: "lines e x = Some t" "tnext t = first vs 0" by (auto simp: seg_append)
  have xn: "x \<noteq> n" using assms(4) by auto
  show ?thesis
  proof (cases vs)
    case Nil
    with assms t xn show ?thesis
      by (auto simp: append_line_def modify_def seg_append Let_def)
  next
    case (Cons y vs')
    obtain z u where y: "y = (z, u)" by (cases y)
    from assms(1) Cons y obtain w where w: "lines e z = Some w" "z \<noteq> 0" by (auto simp: seg_append)
    have zs: "z \<noteq> x" "z \<noteq> n" using assms(2,4) Cons y by auto
    have eq: "append_line n x e = Some (e\<lparr>lines := (lines e)(z \<mapsto> w\<lparr>tprev := n\<rparr>,
        x \<mapsto> t\<lparr>tnext := n\<rparr>, n \<mapsto> q\<lparr>tnext := z, tprev := x\<rparr>)\<rparr>)"
      using t w zs xn Cons y assms(6) by (simp add: append_line_def modify_def fun_upd_twist)
    have "seg ((lines e)(z \<mapsto> w\<lparr>tprev := n\<rparr>, x \<mapsto> t\<lparr>tnext := n\<rparr>, n \<mapsto> q\<lparr>tnext := z, tprev := x\<rparr>)) 0
            (us @ (x, s) # (n, s') # vs) 0"
      by (rule seg_insert [OF assms(1,2,4,5,6,7) t(1) t(2), of w]) (use Cons y w in simp_all)
    then show ?thesis using assms(3,6) t w Cons y by (simp add: eq insert_absorb domI)
  qed
qed

text \<open>What stays: the editing modes and the marks.\<close>

definition same_modes :: "editor \<Rightarrow> editor \<Rightarrow> bool" where
  "same_modes e e' \<longleftrightarrow> insert_character e' = insert_character e \<and> enabledbchar e' = enabledbchar e \<and>
     origin e' = origin e \<and> raw e' = raw e \<and> t_lines e' = t_lines e \<and> editansi e' = editansi e"

definition same_cursor :: "editor \<Rightarrow> editor \<Rightarrow> bool" where
  "same_cursor e e' \<longleftrightarrow> same_modes e e' \<and> currline e' = currline e \<and> currpnt e' = currpnt e \<and>
     currln e' = currln e \<and> curr_window_line e' = curr_window_line e \<and> top_of_win e' = top_of_win e \<and>
     redraw_everything e' = redraw_everything e \<and> lbrk e' = lbrk e"

definition same_place :: "editor \<Rightarrow> editor \<Rightarrow> bool" where
  "same_place e e' \<longleftrightarrow> same_modes e e' \<and> currline e' = currline e \<and> currpnt e' = currpnt e \<and>
     currln e' = currln e \<and> curr_window_line e' = curr_window_line e \<and> top_of_win e' = top_of_win e"

lemma same_cursor_place: "same_cursor e e' \<Longrightarrow> same_place e e'"
  by (simp add: same_cursor_def same_place_def)

lemma same_place_trans: "same_place e f \<Longrightarrow> same_place f g \<Longrightarrow> same_place e g"
  by (simp add: same_place_def same_modes_def)

lemma same_modes_refl [simp]: "same_modes e e"
  by (simp add: same_modes_def)

lemma same_modes_trans: "same_modes e f \<Longrightarrow> same_modes f g \<Longrightarrow> same_modes e g"
  by (simp add: same_modes_def)

lemma text_ofD: "text_of t s \<Longrightarrow> is_cstr s \<and> tlen t = length s \<and> length s \<le> 255 \<and> length (tdata t) = 256 \<and>
    NUL \<in> set (tdata t) \<and> cstr (tdata t) = s"
  by (auto simp: text_of_def)

lemma text_of_nth: "text_of t s \<Longrightarrow> i < length s \<Longrightarrow> tdata t ! i = s ! i"
  by (auto simp: text_of_def nth_append)

lemma text_ofI: "is_cstr s \<Longrightarrow> length s + length rest = 255 \<Longrightarrow> tdata t = s @ NUL # rest \<Longrightarrow> tlen t = length s \<Longrightarrow> text_of t s"
  by (simp add: text_of_def)

lemma view_mem: "view e r \<Longrightarrow> (x, s) \<in> set r \<Longrightarrow> x \<noteq> 0 \<and> x < lbrk e \<and> (\<exists>t. lines e x = Some t \<and> text_of t s)"
  by (metis viewD(1,5) seg_mem fresh_ok_def not_le option.distinct(1))

lemma view_fresh: "view e r \<Longrightarrow> lbrk e \<notin> fst ` set r"
  using view_mem less_irrefl by (metis imageE prod.collapse)

lemma split_text:
  assumes "text_of t s" and "pos \<le> length s"
  shows "NUL \<in> set (drop pos (tdata t))" and "cstr (drop pos (tdata t)) = drop pos s"
    and "\<exists>d. poke (tdata t) pos NUL = Some d \<and> text_of (t\<lparr>tlen := pos, tdata := d\<rparr>) (take pos s)"
proof -
  obtain rest where r: "tdata t = s @ NUL # rest" "length s + length rest = 255" "is_cstr s"
    using assms(1) by (auto simp: text_of_def)
  show "NUL \<in> set (drop pos (tdata t))" "cstr (drop pos (tdata t)) = drop pos s"
    using r assms(2) by simp_all
  have "(tdata t)[pos := NUL] = take pos s @ NUL # drop (Suc pos) (tdata t)"
    using r assms(2) by (simp add: upd_conv_take_nth_drop)
  then show "\<exists>d. poke (tdata t) pos NUL = Some d \<and> text_of (t\<lparr>tlen := pos, tdata := d\<rparr>) (take pos s)"
    using r assms(2)
    by (intro exI [of _ "(tdata t)[pos := NUL]"] conjI text_ofI [where rest = "drop (Suc pos) (tdata t)"])
       (simp_all add: poke_def)
qed

lemma strcpy_text:
  assumes "length buf = 256" and "is_cstr s" and "length s \<le> 255" and "tlen t = length s"
  shows "\<exists>d. strcpy buf s = Some d \<and> text_of (t\<lparr>tdata := d\<rparr>) s"
  using assms by (auto simp: strcpy_def intro!: text_ofI)

lemma split_view:
  assumes "view e (us @ (x, s) # vs)" and "pos \<le> length s"
  shows "\<exists>e'. split_line x pos e = Some e' \<and> view e' (us @ (x, take pos s) # (lbrk e, drop pos s) # vs) \<and>
     (let moved = (x = currline e \<and> pos \<le> currpnt e) in
       currline e' = (if moved then lbrk e else currline e) \<and>
       currpnt e' = (if moved then currpnt e - pos else currpnt e) \<and>
       currln e' = (if moved then currln e + 1 else currln e) \<and>
       curr_window_line e' = (if moved then curr_window_line e + 1 else curr_window_line e)) \<and>
     redraw_everything e' \<and> top_of_win e' = top_of_win e \<and> same_modes e e' \<and> lbrk e' = Suc (lbrk e)"
proof -
  let ?n = "lbrk e"
  let ?q0 = "\<lparr>tprev = 0, tnext = 0, tlen = 0, tattr = 0, tdata = (raw e ?n)[0 := NUL]\<rparr>"
  let ?e1 = "fst (alloc_line e)"
  from assms(1) have mem: "x \<noteq> 0" "x < ?n" and fr: "fresh_ok e" and dist: "distinct (map fst (us @ (x, s) # vs))"
    and sg: "seg (lines e) 0 (us @ (x, s) # vs) 0" and la: "lastline e = lastp 0 (us @ (x, s) # vs)"
    and fi: "firstline e = first (us @ (x, s) # vs) 0"
    using view_mem [OF assms(1), of x s] viewD [OF assms(1)] by auto
  obtain l where l: "lines e x = Some l" "text_of l s" using view_mem [OF assms(1), of x s] by auto
  have nin: "?n \<notin> fst ` set (us @ (x, s) # vs)"
    by (rule view_fresh [OF assms(1)])
  note l' = text_ofD [OF l(2)]
  obtain d where d: "poke (tdata l) pos NUL = Some d" "text_of (l\<lparr>tlen := pos, tdata := d\<rparr>) (take pos s)"
    using split_text(3) [OF l(2) assms(2)] by blast
  have len256: "length ((raw e ?n)[0 := NUL]) = 256" using fr by (simp add: fresh_ok_def)
  have ll: "is_cstr (drop pos s)" "length (drop pos s) \<le> 255" "tlen l - pos = length (drop pos s)"
    using l' diff_le_self [of "length s" pos] by (simp_all del: diff_le_self)
  obtain qd where qd: "strcpy ((raw e ?n)[0 := NUL]) (drop pos s) = Some qd"
      "text_of (?q0\<lparr>tlen := tlen l - pos, tattr := tattr l, tdata := qd\<rparr>) (drop pos s)"
    using strcpy_text [OF len256, of "drop pos s" "?q0\<lparr>tlen := tlen l - pos, tattr := tattr l\<rparr>"] ll by auto
  let ?q = "?q0\<lparr>tlen := tlen l - pos, tdata := qd, tattr := tattr l\<rparr>"
  let ?l = "l\<lparr>tlen := pos, tdata := d\<rparr>"
  let ?h = "(lines e)(?n \<mapsto> ?q)"
  let ?e2 = "e\<lparr>lbrk := Suc ?n, lines := ?h(x \<mapsto> ?l)\<rparr>"
  have "seg ?h 0 (us @ (x, s) # vs) 0" using sg nin by (simp only: seg_upd simp_thms)
  then have sg2: "seg (lines ?e2) 0 (us @ (x, take pos s) # vs) 0"
    using seg_set_text [OF _ dist, of ?h 0 0 l ?l "take pos s"] l(1) d(2) mem(2) by simp
  have "\<exists>e'. append_line ?n x ?e2 = Some e' \<and> seg (lines e') 0 (us @ (x, take pos s) # (?n, drop pos s) # vs) 0 \<and>
     lastline e' = lastp 0 (us @ (x, take pos s) # (?n, drop pos s) # vs) \<and> dom (lines e') = dom (lines ?e2) \<and>
     e' = ?e2\<lparr>lines := lines e', lastline := lastline e'\<rparr>"
    by (rule append_line_view [of ?e2 _ _ _ _ _ ?q, OF sg2]) (use dist la nin fr mem(2) qd(2) in \<open>simp_all add: fresh_ok_def\<close>)
  then obtain e3 where e3: "append_line ?n x ?e2 = Some e3"
      "seg (lines e3) 0 (us @ (x, take pos s) # (?n, drop pos s) # vs) 0"
      "lastline e3 = lastp 0 (us @ (x, take pos s) # (?n, drop pos s) # vs)" "dom (lines e3) = dom (lines ?e2)"
      "e3 = ?e2\<lparr>lines := lines e3, lastline := lastline e3\<rparr>" by blast
  have same: "currline e3 = currline e" "currpnt e3 = currpnt e" "currln e3 = currln e" "lbrk e3 = Suc ?n"
      "curr_window_line e3 = curr_window_line e" "firstline e3 = firstline e" "top_of_win e3 = top_of_win e" "same_modes e e3" "raw e3 = raw e"
    by (subst e3(5), simp add: same_modes_def)+
  let ?e4 = "(if x = currline e3 \<and> pos \<le> currpnt e3
     then e3\<lparr>currline := ?n, currpnt := currpnt e3 - pos, curr_window_line := curr_window_line e3 + 1, currln := currln e3 + 1\<rparr>
     else e3)\<lparr>redraw_everything := True\<rparr>"
  have eq: "split_line x pos e = Some ?e4"
    using e3(1) l d(1) qd(1) l' split_text(1,2) [OF l(2) assms(2)] assms(2) mem(2)
    by (simp add: split_line_def alloc_line_def fun_upd_twist)
  have "fresh_ok e3"
    unfolding fresh_ok_def same
  proof (intro conjI allI impI)
    fix a assume a: "Suc ?n \<le> a"
    then have "a \<notin> dom (lines ?e2)" using fr mem(2) by (auto simp: fresh_ok_def)
    then show "lines e3 a = None" using e3(4) by (metis domIff)
  qed (use fr in \<open>simp_all add: fresh_ok_def\<close>)
  then have "view e3 (us @ (x, take pos s) # (?n, drop pos s) # vs)"
    unfolding view_def same using e3(2,3) fi dist nin by (simp add: first_append image_Un)
  then have "view ?e4 (us @ (x, take pos s) # (?n, drop pos s) # vs)"
    by (auto simp: view_def fresh_ok_def)
  then show ?thesis using eq same by (intro exI [of _ ?e4]) (auto simp: Let_def same_modes_def)
qed

text \<open>Deleting a line that is not the only one.\<close>

lemma delete_seg:
  assumes "seg h 0 (us @ (x, s) # vs) 0" and "distinct (map fst (us @ (x, s) # vs))" and "h x = Some l"
    and "h1 = (if vs = [] then h else h(first vs 0 \<mapsto> w\<lparr>tprev := lastp 0 us\<rparr>))"
    and "vs \<noteq> [] \<Longrightarrow> h (first vs 0) = Some w"
    and "h2 = (if us = [] then h1 else h1(lastp 0 us \<mapsto> u\<lparr>tnext := first vs 0\<rparr>))"
    and "us \<noteq> [] \<Longrightarrow> h (lastp 0 us) = Some u"
  shows "seg (h2(x := None)) 0 (us @ vs) 0"
proof (cases us rule: rev_cases)
  case Nil
  then show ?thesis using assms by (cases vs) auto
next
  case (snoc us' y)
  obtain a t where y: "y = (a, t)" by (cases y)
  show ?thesis
  proof (cases vs)
    case Nil
    with assms snoc y show ?thesis by (auto simp: seg_append image_Un)
  next
    case (Cons z vs')
    obtain b v where z: "z = (b, v)" by (cases z)
    have ne: "a \<noteq> b" "a \<noteq> x" "b \<noteq> x" "a \<notin> fst ` set us'" "a \<notin> fst ` set vs'" "b \<notin> fst ` set us'" "b \<notin> fst ` set vs'"
      "x \<notin> fst ` set us'" "x \<notin> fst ` set vs'"
      using assms(2) snoc y Cons z by auto
    have sg: "seg h 0 us' a" "a \<noteq> 0" "tprev u = lastp 0 us'" "text_of u t" "h a = Some u"
      "b \<noteq> 0" "tnext w = first vs' 0" "text_of w v" "h b = Some w" "seg h b vs' 0"
      using assms(1,5,7) snoc y Cons z by (auto simp: seg_append)
    have h2: "h2 = h(b \<mapsto> w\<lparr>tprev := a\<rparr>, a \<mapsto> u\<lparr>tnext := b\<rparr>)" using assms(4,6) snoc y Cons z by simp
    show ?thesis unfolding snoc y Cons z h2 using sg ne by (simp add: seg_append)
  qed
qed

lemma delete_line_view:
  assumes "view e (us @ (x, s) # vs)" and "us @ vs \<noteq> []"
  shows "\<exists>e'. delete_line x e = Some e' \<and> view e' (us @ vs) \<and> same_cursor e e'"
proof -
  note v = viewD [OF assms(1)]
  obtain l where l: "lines e x = Some l" "tprev l = lastp 0 us" "tnext l = first vs 0"
    using v(1) by (auto simp: seg_append)
  have usg: "seg (lines e) 0 us x" and vsg: "seg (lines e) x vs 0" and dist: "distinct (map fst (us @ (x, s) # vs))"
    using v(1,2) by (auto simp: seg_append)
  have nz: "lastp 0 us = 0 \<longleftrightarrow> us = []" using seg_nz [OF usg] by (cases "us = []") auto
  have fnz: "first vs 0 = 0 \<longleftrightarrow> vs = []" using vsg by (cases vs) auto
  obtain w where w: "vs \<noteq> [] \<Longrightarrow> lines e (first vs 0) = Some w" using vsg by (cases vs) auto
  have inu: "lastp 0 us \<in> fst ` set us" if "us \<noteq> []" using lastp_in [OF that] .
  have inv: "first vs 0 \<in> fst ` set vs" if "vs \<noteq> []" using that by (cases vs) auto
  have ne: "lastp 0 us \<noteq> first vs 0" if "us \<noteq> []" "vs \<noteq> []"
    using inu [OF that(1)] inv [OF that(2)] dist by (simp del: image_eqI add: disjoint_iff) metis
  have xne: "us \<noteq> [] \<Longrightarrow> lastp 0 us \<noteq> x" "vs \<noteq> [] \<Longrightarrow> first vs 0 \<noteq> x"
    using inu inv dist by (simp, metis)+
  obtain u where u: "us \<noteq> [] \<Longrightarrow> lines e (lastp 0 us) = Some u"
    using inu seg_mem [OF usg] by (metis imageE prod.collapse)
  define h1 where "h1 = (if vs = [] then lines e else (lines e)(first vs 0 \<mapsto> w\<lparr>tprev := lastp 0 us\<rparr>))"
  define h2 where "h2 = (if us = [] then h1 else h1(lastp 0 us \<mapsto> u\<lparr>tnext := first vs 0\<rparr>))"
  have sg: "seg (h2(x := None)) 0 (us @ vs) 0"
    by (rule delete_seg [OF v(1,2) l(1) h1_def w h2_def u])
  have d: "dom (h2(x := None)) \<subseteq> dom (lines e)"
    using w u by (auto simp: h2_def h1_def split: if_splits)
  have "\<exists>e'. delete_line x e = Some e' \<and> lines e' = h2(x := None) \<and>
      firstline e' = (if us = [] then first vs 0 else firstline e) \<and>
      lastline e' = (if vs = [] then lastp 0 us else lastline e) \<and> same_cursor e e'"
  proof (cases "us = []")
    case True
    with assms(2) l w u nz fnz xne
    have "delete_line x e = Some (e\<lparr>mark_begin := adjust_mark (mark_begin e) x l, mark_end := adjust_mark (mark_end e) x l,
        firstline := first vs 0, lines := h2(x := None)\<rparr>)"
      by (simp add: delete_line_def modify_def Let_def h1_def h2_def)
    then show ?thesis using True assms(2) by (simp add: same_cursor_def same_modes_def)
  next
    case False
    show ?thesis
    proof (cases "vs = []")
      case True
      with False l w u nz fnz xne
      have "delete_line x e = Some (e\<lparr>mark_begin := adjust_mark (mark_begin e) x l, mark_end := adjust_mark (mark_end e) x l,
          lastline := lastp 0 us, lines := h2(x := None)\<rparr>)"
        by (simp add: delete_line_def modify_def Let_def h1_def h2_def)
      then show ?thesis using True False by (simp add: same_cursor_def same_modes_def)
    next
      case vs: False
      with False l w u nz fnz xne ne
      have "delete_line x e = Some (e\<lparr>mark_begin := adjust_mark (mark_begin e) x l, mark_end := adjust_mark (mark_end e) x l,
          lines := h2(x := None)\<rparr>)"
        by (simp add: delete_line_def modify_def Let_def h1_def h2_def)
      then show ?thesis using vs False by (simp add: same_cursor_def same_modes_def)
    qed
  qed
  then obtain e' where e': "delete_line x e = Some e'" "lines e' = h2(x := None)"
      "firstline e' = (if us = [] then first vs 0 else firstline e)"
      "lastline e' = (if vs = [] then lastp 0 us else lastline e)"
      "same_cursor e e'" by blast
  have "lbrk e' = lbrk e" "raw e' = raw e" using e'(5) by (simp_all add: same_cursor_def same_modes_def)
  moreover have "lines e' a = None" if "lbrk e \<le> a" for a
    using that v(5) d e'(2) by (metis domIff fresh_ok_def subset_iff)
  ultimately have "fresh_ok e'" using v(5) by (simp add: fresh_ok_def)
  moreover have "firstline e' = first (us @ vs) 0" "lastline e' = lastp 0 (us @ vs)"
    using e'(3,4) v(3,4) assms(2) by (cases us; cases vs; simp)+
  ultimately have "view e' (us @ vs)" using sg e'(2) dist assms(2) by (simp add: view_def)
  with e'(1,5) show ?thesis by blast
qed

lemma set_text_view:
  assumes "view e (us @ (x, s) # vs)" and "lines e x = Some t" and "tprev t' = tprev t" and "tnext t' = tnext t"
    and "text_of t' s'"
  shows "view (e\<lparr>lines := (lines e)(x \<mapsto> t')\<rparr>) (us @ (x, s') # vs)"
proof -
  note v = viewD [OF assms(1)]
  have "seg ((lines e)(x \<mapsto> t')) 0 (us @ (x, s') # vs) 0" by (rule seg_set_text [OF v(1,2) assms(2-5)])
  moreover have "fresh_ok (e\<lparr>lines := (lines e)(x \<mapsto> t')\<rparr>)"
    using v(5) assms(2) by (auto simp: fresh_ok_def)
  ultimately show ?thesis using assms(1) by (simp add: view_def first_append)
qed

lemma view_at:
  assumes "view e (us @ (x, s) # vs)"
  shows "\<exists>t. lines e x = Some t \<and> tprev t = lastp 0 us \<and> tnext t = first vs 0 \<and> text_of t s"
  using viewD(1) [OF assms] by (auto simp: seg_append)

section \<open>Joining lines\<close>

lemma back_while_le: "back_while P d k \<le> k"
  by (induction k) auto

lemma back_while_stop: "back_while P d k = j \<Longrightarrow> 0 < j \<Longrightarrow> \<not> P (d ! j)"
  by (induction k) (auto split: if_splits)

lemma back_while_passed: "back_while P d k < j \<Longrightarrow> j \<le> k \<Longrightarrow> P (d ! j)"
  by (induction k) (auto split: if_splits simp: le_Suc_eq)

lemma back_while_cong: "(\<And>i. i \<le> k \<Longrightarrow> d ! i = d' ! i) \<Longrightarrow> back_while P d k = back_while P d' k"
  by (induction k) auto

lemma word_break_cong: "(\<And>i. i \<le> k \<Longrightarrow> d ! i = d' ! i) \<Longrightarrow> word_break d k = word_break d' k"
  unfolding word_break_def
  by (subst back_while_cong [of k d d'], simp, rule back_while_cong)
    (meson back_while_le le_trans)

text \<open>A break other than 0 is at a space, strictly before the place the search starts from.\<close>

lemma word_break_space: "0 < word_break d k \<Longrightarrow> d ! word_break d k = CHR '' '' \<and> word_break d k < k"
proof -
  assume p: "0 < word_break d k"
  let ?m = "back_while (\<lambda>c. c = CHR '' '') d k"
  have sp: "d ! word_break d k = CHR '' ''"
    using back_while_stop [OF refl p [unfolded word_break_def]] by (simp add: word_break_def)
  have le: "word_break d k \<le> ?m" "?m \<le> k" by (simp_all add: word_break_def back_while_le)
  with p have "d ! ?m \<noteq> CHR '' ''" using back_while_stop [of "\<lambda>c. c = CHR '' ''" d k ?m] by simp
  with sp have "word_break d k \<noteq> ?m" by auto
  with sp le show ?thesis by simp
qed

definition pad :: "string \<Rightarrow> string" where
  "pad t = (if t \<noteq> [] \<and> length t < 254 \<and> last t \<noteq> CHR '' '' then t @ '' '' else t)"

lemma strcat_text:
  assumes "text_of l s" and "is_cstr s2" and "length s + length s2 < 256"
  shows "\<exists>l1. strcat_data l s2 = Some l1 \<and> tprev l1 = tprev l \<and> tnext l1 = tnext l \<and>
           text_of (l1\<lparr>tlen := length s + length s2\<rparr>) (s @ s2)"
proof -
  have len: "length (s @ s2) \<le> 255" "is_cstr (s @ s2)" "length (tdata l) = 256"
    using assms text_ofD [OF assms(1)] by simp_all
  obtain d where d: "strcpy (tdata l) (s @ s2) = Some d"
      "text_of (l\<lparr>tlen := length (s @ s2), tdata := d\<rparr>) (s @ s2)"
    using strcpy_text [OF len(3,2,1), of "l\<lparr>tlen := length (s @ s2)\<rparr>"] by auto
  have "text_of (l\<lparr>tdata := d, tlen := length s + length s2\<rparr>) (s @ s2)"
    using d(2) by (simp add: text_of_def)
  then show ?thesis using d(1) text_ofD [OF assms(1)] by (simp add: strcat_data_def)
qed

lemma join_fit_view:
  assumes "view e (us @ (x, s) # (y, s2) # vs)" and "length s + length s2 < WRAPMARGIN"
    and "lines e x = Some l" and "lines e y = Some n"
  shows "\<exists>e'. join_fit x l n e = Some e' \<and> view e' (us @ (x, s @ s2) # vs) \<and> same_cursor e e'"
proof -
  have l: "text_of l s" "tnext l = y" using view_at [OF assms(1)] assms(3) by auto
  have n: "text_of n s2" using view_at [of e "us @ [(x, s)]" y s2 vs] assms(1,4) by auto
  note n' = text_ofD [OF n]
  obtain l1 where l1: "strcat_data l s2 = Some l1" "tprev l1 = tprev l" "tnext l1 = tnext l"
      "text_of (l1\<lparr>tlen := length s + length s2\<rparr>) (s @ s2)"
    using strcat_text [OF l(1), of s2] n' assms(2) by auto
  let ?e1 = "e\<lparr>lines := (lines e)(x \<mapsto> l1\<lparr>tlen := length s + length s2\<rparr>)\<rparr>"
  have "view ?e1 (us @ (x, s @ s2) # (y, s2) # vs)"
    by (rule set_text_view [OF assms(1,3)]) (use l1 in simp_all)
  then obtain e' where e': "delete_line y ?e1 = Some e'" "view e' (us @ (x, s @ s2) # vs)" "same_cursor ?e1 e'"
    using delete_line_view [of ?e1 "us @ [(x, s @ s2)]" y s2 vs] by auto
  then show ?thesis using l1(1) l(2) n' text_ofD [OF l(1)]
    by (simp add: join_fit_def same_cursor_def same_modes_def)
qed

lemma join_fit_step:
  assumes "view e (us @ (x, s) # (y, s2) # vs)" and "length s + length s2 < WRAPMARGIN"
  shows "\<exists>e'. join x e = Some (e', True) \<and> view e' (us @ (x, s @ s2) # vs) \<and> same_cursor e e'"
proof -
  obtain l where l: "lines e x = Some l" "text_of l s" "tnext l = y" using view_at [OF assms(1)] by auto
  obtain n where n: "lines e y = Some n" "text_of n s2"
    using view_at [of e "us @ [(x, s)]" y s2 vs] assms(1) by auto
  have "y \<noteq> 0" using view_mem [OF assms(1), of y s2] by auto
  then show ?thesis
    using join_fit_view [OF assms l(1) n(1)] assms(2) l n text_ofD [OF l(2)] text_ofD [OF n(2)]
    by (subst join.simps) auto
qed

lemma join_pad_view:
  assumes "view e (us @ (x, t) # vs)"
  shows "\<exists>e'. join_pad x e = Some e' \<and> view e' (us @ (x, pad t) # vs) \<and> same_cursor e e'"
proof -
  obtain l where l: "lines e x = Some l" "text_of l t" using view_at [OF assms] by auto
  note l' = text_ofD [OF l(2)]
  have nth: "t \<noteq> [] \<Longrightarrow> tdata l ! (length t - Suc 0) = last t"
    using text_of_nth [OF l(2), of "length t - 1"] by (simp add: last_conv_nth)
  show ?thesis
  proof (cases "t \<noteq> [] \<and> length t < 254 \<and> last t \<noteq> CHR '' ''")
    case False
    then show ?thesis using l l' nth assms
      by (auto simp: join_pad_def pad_def same_cursor_def Suc_le_eq)
  next
    case True
    then obtain l1 where l1: "strcat_data l '' '' = Some l1" "tprev l1 = tprev l" "tnext l1 = tnext l"
        "text_of (l1\<lparr>tlen := Suc (length t)\<rparr>) (t @ '' '')"
      using strcat_text [OF l(2), of "'' ''"] by auto
    have "view (e\<lparr>lines := (lines e)(x \<mapsto> l1\<lparr>tlen := Suc (length t)\<rparr>)\<rparr>) (us @ (x, t @ '' '') # vs)"
      by (rule set_text_view [OF assms l(1)]) (use l1 in simp_all)
    then show ?thesis using True l l' nth l1(1)
      by (simp add: join_pad_def pad_def same_cursor_def same_modes_def Suc_le_eq)
  qed
qed

definition carried :: "string \<Rightarrow> string \<Rightarrow> nat" where
  "carried s s2 = word_break s2 (254 - length s)"

lemma join_overflow_step:
  assumes v: "view e (us @ (x, s) # (y, s2) # vs)" and over: "WRAPMARGIN \<le> length s + length s2"
    and ls: "length s < WRAPMARGIN" and k: "k = carried s s2"
  shows "k = 0 \<Longrightarrow> join x e = Some (e, True)"
    and "0 < k \<Longrightarrow> \<exists>e' n. join x e = Some (e', False) \<and> same_modes e e' \<and>
           view e' (us @ (x, s @ take (Suc k) s2) # (n, pad (drop (Suc k) s2)) # vs) \<and>
           (currline e \<noteq> y \<longrightarrow> same_place e e')"
proof -
  obtain l where l: "lines e x = Some l" "text_of l s" "tnext l = y" using view_at [OF v] by auto
  obtain n where n: "lines e y = Some n" "text_of n s2"
    using view_at [of e "us @ [(x, s)]" y s2 vs] v by auto
  have y0: "y \<noteq> 0" using view_mem [OF v, of y s2] by auto
  note l' = text_ofD [OF l(2)] and n' = text_ofD [OF n(2)]
  have wb: "word_break (tdata n) (254 - length s) = k"
    unfolding k carried_def by (rule word_break_cong, rule text_of_nth [OF n(2)]) (use over ls in linarith)
  show "join x e = Some (e, True)" if "k = 0"
    using that l n l' n' y0 over ls wb by (subst join.simps) simp
  assume "0 < k"
  then have kb: "k < 254 - length s" "Suc k \<le> length s2"
    using word_break_space [of s2 "254 - length s"] k over unfolding carried_def by auto
  obtain e1 where e1: "split_line y (Suc k) e = Some e1" "same_modes e e1"
      "view e1 (us @ (x, s) # (y, take (Suc k) s2) # (lbrk e, drop (Suc k) s2) # vs)"
      "currline e \<noteq> y \<Longrightarrow> same_place e e1"
    using split_view [of e "us @ [(x, s)]" y s2 vs "Suc k"] v kb(2) by (auto simp: Let_def same_place_def)
  obtain l2 where l2: "lines e1 x = Some l2" "text_of l2 s" using view_at [OF e1(3)] by auto
  obtain n2 where n2: "lines e1 y = Some n2" "text_of n2 (take (Suc k) s2)"
    using view_at [of e1 "us @ [(x, s)]"] e1(3) by fastforce
  have sum: "length s + length (take (Suc k) s2) < WRAPMARGIN" using kb by simp
  obtain e2 where e2: "join x e1 = Some (e2, True)" "same_cursor e1 e2"
      "view e2 (us @ (x, s @ take (Suc k) s2) # (lbrk e, drop (Suc k) s2) # vs)"
    using join_fit_step [OF e1(3) sum] by auto
  obtain l3 where l3: "lines e2 x = Some l3" "tnext l3 = lbrk e" using view_at [OF e2(3)] by auto
  obtain e3 where e3: "join_pad (lbrk e) e2 = Some e3" "same_cursor e2 e3"
      "view e3 (us @ (x, s @ take (Suc k) s2) # (lbrk e, pad (drop (Suc k) s2)) # vs)"
    using join_pad_view [of e2 "us @ [(x, s @ take (Suc k) s2)]" "lbrk e" "drop (Suc k) s2" vs] e2(3) by auto
  have eq: "join x e = Some (e3, False)"
    using l n l' n' y0 over ls wb \<open>0 < k\<close> e1(1) l2 n2 sum e2(1) l3 e3(1) text_ofD [OF l2(2)] text_ofD [OF n2(2)]
    by (subst join.simps) simp
  have "same_modes e e3" using e1(2) e2(2) e3(2) by (auto simp: same_cursor_def same_modes_def)
  moreover have "currline e \<noteq> y \<longrightarrow> same_place e e3"
    using e1(4) same_cursor_place [OF e2(2)] same_cursor_place [OF e3(2)] same_place_trans by blast
  ultimately show "\<exists>e' n. join x e = Some (e', False) \<and> same_modes e e' \<and>
      view e' (us @ (x, s @ take (Suc k) s2) # (n, pad (drop (Suc k) s2)) # vs) \<and>
      (currline e \<noteq> y \<longrightarrow> same_place e e')"
    using eq e3(3) by blast
qed

section \<open>Editors on given lines\<close>

text \<open>The editor whose lines have the given texts and lie at the addresses from 1 on.\<close>

definition full_line :: "string list \<Rightarrow> nat \<Rightarrow> textline option" where
  "full_line ls a =
     (if 1 \<le> a \<and> a \<le> length ls then
        Some \<lparr>tprev = a - 1, tnext = (if a = length ls then 0 else a + 1), tlen = length (ls ! (a - 1)), tattr = 0,
              tdata = ls ! (a - 1) @ NUL # replicate (255 - length (ls ! (a - 1))) NUL\<rparr>
      else None)"

definition on_lines :: "string list \<Rightarrow> nat \<Rightarrow> nat \<Rightarrow> editor" where
  "on_lines ls a c =
     \<lparr>lines = full_line ls, firstline = 1, lastline = length ls, currline = a, top_of_win = 1, lbrk = length ls + 1,
      raw = (\<lambda>_. replicate 256 (CHR 0x55)), currpnt = c, currln = int a - 1, curr_window_line = int a - 1,
      redraw_everything = False, insert_character = True, enabledbchar = True, mark_begin = 0,
      mark_end = 0, mark_on = False, first_mark_line = 0, marknum = 0, moveln = 0, shifttmp = 0,
      lastindent = -1, editansi = False, t_lines = 24, origin = None\<rparr>"

definition numbered :: "nat \<Rightarrow> string list \<Rightarrow> (nat \<times> string) list" where
  "numbered k ls = zip [k..<k + length ls] ls"

lemma numbered_simps [simp]:
  "numbered k [] = []" "numbered k (s # ls) = (k, s) # numbered (Suc k) ls"
  by (simp_all add: numbered_def upt_conv_Cons del: upt_Suc)

lemma fst_numbered: "map fst (numbered k ls) = [k..<k + length ls]"
  by (simp add: numbered_def)

lemma seg_numbered:
  "\<forall>s\<in>set ls. is_cstr s \<and> length s \<le> 255 \<Longrightarrow> p + length ls = length all \<Longrightarrow> (\<forall>i < length ls. all ! (p + i) = ls ! i) \<Longrightarrow>
     seg (full_line all) p (numbered (Suc p) ls) 0"
proof (induction ls arbitrary: p)
  case (Cons s ls)
  have nth: "all ! p = s" using Cons.prems(3) by force
  have "seg (full_line all) (Suc p) (numbered (Suc (Suc p)) ls) 0"
  proof (rule Cons.IH)
    show "\<forall>i<length ls. all ! (Suc p + i) = ls ! i" using Cons.prems(3) by force
  qed (use Cons.prems in simp_all)
  moreover have "\<exists>t. full_line all (Suc p) = Some t \<and> tprev t = p \<and>
      tnext t = (if Suc p = length all then 0 else Suc (Suc p)) \<and> text_of t s"
    using Cons.prems(1,2) nth by (auto simp: full_line_def intro!: text_ofI)
  moreover have "first (numbered (Suc (Suc p)) ls) 0 = (if Suc p = length all then 0 else Suc (Suc p))"
    using Cons.prems(2) by (cases ls) auto
  ultimately show ?case by simp
qed simp

lemma on_lines_view:
  assumes "ls \<noteq> []" and "\<forall>s\<in>set ls. is_cstr s \<and> length s \<le> 255"
  shows "view (on_lines ls a c) (numbered 1 ls)"
proof -
  have "seg (full_line ls) 0 (numbered (Suc 0) ls) 0" using assms(2) by (intro seg_numbered) auto
  moreover have "lastp 0 (numbered (Suc 0) ls) = length ls"
    using assms(1) by (simp add: lastp_def fst_numbered last_conv_nth del: upt_Suc)
  moreover have "first (numbered (Suc 0) ls) 0 = 1" using assms(1) by (cases ls) auto
  ultimately show ?thesis using assms(1)
    by (auto simp: view_def on_lines_def fresh_ok_def fst_numbered full_line_def numbered_def Suc_le_eq simp del: upt_Suc)
qed

lemma on_lines_sel [simp]:
  "currline (on_lines ls a c) = a" "currpnt (on_lines ls a c) = c" "origin (on_lines ls a c) = None"
  "insert_character (on_lines ls a c)" "enabledbchar (on_lines ls a c)" "\<not> editansi (on_lines ls a c)"
  "curr_window_line (on_lines ls a c) = int a - 1" "t_lines (on_lines ls a c) = 24" "lbrk (on_lines ls a c) = length ls + 1"
  by (simp_all add: on_lines_def)

end
