(* ===== verification/TextEdit.thy ===== *)
theory TextEdit
  imports TextLines "HOL-Library.Monad_Syntax"
begin

text \<open>
  Typing and deleting in the editor (src/edit.c): \<open>insert_char\<close> with its wrapping of a full line,
  \<open>delete_char\<close>, moving to a line, searching, and reading a file into the editor and writing it out.
\<close>

section \<open>Inserting a character\<close>

definition set_line :: "nat \<Rightarrow> textline \<Rightarrow> editor \<Rightarrow> editor" where
  "set_line a l e = e\<lparr>lines := (lines e)(a \<mapsto> l)\<rparr>"

text \<open>Overwriting, or moving the tail with its terminating zero up by one.\<close>

definition put_char :: "char \<Rightarrow> editor \<Rightarrow> textline \<Rightarrow> textline option" where
  "put_char ch e l =
     (if currpnt e < tlen l \<and> \<not> insert_character e then
        map_option (\<lambda>d. l\<lparr>tdata := d\<rparr>) (poke (tdata l) (currpnt e) ch)
      else if tlen l + 1 < length (tdata l) then
        map_option (\<lambda>d. l\<lparr>tdata := d, tlen := tlen l + 1\<rparr>)
          (poke (memmove (tdata l) (currpnt e + 1) (currpnt e) (tlen l + 1 - currpnt e)) (currpnt e) ch)
      else None)"

text \<open>The number of bytes with the high bit that end right before a position.\<close>

fun high_run :: "char list \<Rightarrow> nat \<Rightarrow> nat" where
  "high_run d 0 = 0"
| "high_run d (Suc k) = (if high_bit (d ! k) then Suc (high_run d k) else 0)"

text \<open>Where a full line is broken, and whether at a word.\<close>

definition break_at :: "char list \<Rightarrow> nat \<Rightarrow> nat \<times> bool" where
  "break_at d len =
     (let w = word_break d (len - 1);
          s = (if w = 0 then len - 2 else w)
      in (if high_bit (d ! s) \<and> odd (high_run d (s + 1)) then s - 1 else s, w \<noteq> 0))"

definition wrap_pad :: "nat \<Rightarrow> editor \<Rightarrow> editor option" where
  "wrap_pad a e = do {
     p \<leftarrow> lines e a;
     if 1 \<le> tlen p \<and> tdata p ! (tlen p - 1) \<noteq> CHR '' '' then do {
       d \<leftarrow> poke (tdata p) (tlen p) (CHR '' '');
       d' \<leftarrow> poke d (tlen p + 1) NUL;
       Some (set_line a (p\<lparr>tdata := d', tlen := tlen p + 1\<rparr>) e)
     } else Some e
   }"

definition wrap_line :: "nat \<Rightarrow> textline \<Rightarrow> editor \<Rightarrow> editor option" where
  "wrap_line p l e =
     (case break_at (tdata l) (tlen l) of
        (s, wordwrap) \<Rightarrow> do {
          e1 \<leftarrow> split_line p (s + 1) e;
          l1 \<leftarrow> lines e1 p;
          e2 \<leftarrow> (if wordwrap then wrap_pad (tnext l1) e1 else Some e1);
          q \<leftarrow> lines e2 (tnext l1);
          org \<leftarrow> Origin e2 (currline e2);
          Some (if org then e2\<lparr>currline := tprev q, curr_window_line := curr_window_line e2 - 1, currln := currln e2 - 1\<rparr>
                else e2)
        })"

definition insert_char :: "char \<Rightarrow> editor \<Rightarrow> editor option" where
  "insert_char ch e = do {
     l \<leftarrow> lines e (currline e);
     if tlen l < currpnt e then Some e
     else do {
       l1 \<leftarrow> put_char ch e l;
       let e1 = (set_line (currline e) l1 e)\<lparr>currpnt := currpnt e + 1\<rparr>;
       if tlen l1 < WRAPMARGIN then Some e1 else wrap_line (currline e) l1 e1
     }
   }"

fun ve_insert_str :: "string \<Rightarrow> editor \<Rightarrow> editor option" where
  "ve_insert_str [] e = Some e"
| "ve_insert_str (c # s) e = do { e1 \<leftarrow> insert_char c e; ve_insert_str s e1 }"

section \<open>Deleting a character\<close>

text \<open>
  \<open>for (i = a; i != end; i++) data[i] = data[i + n]\<close>, as a move of \<open>end - a\<close> bytes; the loop does
  not stop before the end of the buffer when \<open>a\<close> is behind \<open>end\<close>.
\<close>

definition shift_left :: "nat \<Rightarrow> nat \<Rightarrow> nat \<Rightarrow> char list \<Rightarrow> char list option" where
  "shift_left a stop n d =
     (if a \<le> stop \<and> stop + n \<le> length d then Some (memmove d a (a + n) (stop - a)) else None)"

text \<open>The scan for the first half of a double-byte character before the cursor.\<close>

fun dbcs_state :: "char list \<Rightarrow> nat \<Rightarrow> bool" where
  "dbcs_state d 0 = False"
| "dbcs_state d (Suc k) = (if dbcs_state d k then False else high_bit (d ! k))"

definition del_one :: "nat \<Rightarrow> textline \<Rightarrow> (textline \<times> nat) option" where
  "del_one c l = map_option (\<lambda>d. (l\<lparr>tdata := d, tlen := tlen l - 1\<rparr>, c)) (shift_left c (tlen l) 1 (tdata l))"

definition del_two :: "nat \<Rightarrow> nat \<Rightarrow> textline \<Rightarrow> (textline \<times> nat) option" where
  "del_two a c l = map_option (\<lambda>d. (l\<lparr>tdata := d, tlen := tlen l - 2\<rparr>, c)) (shift_left a (tlen l - 1) 2 (tdata l))"

definition del_at :: "bool \<Rightarrow> nat \<Rightarrow> textline \<Rightarrow> (textline \<times> nat) option" where
  "del_at dbl c l =
     (if dbl \<and> high_bit (tdata l ! c) then
        let dbchar = dbcs_state (tdata l) c in
        if c < tlen l - 1 then
          if high_bit (tdata l ! (c + 1)) then
            if dbchar then del_two (c - 1) (c - 1) l else del_two c c l
          else if dbchar then del_two (c - 1) (c - 1) l
          else del_one c l
        else if dbchar \<and> c = tlen l - 1 then del_two (c - 1) (c - 1) l
        else del_one c l
      else del_one c l)"

definition delete_char :: "editor \<Rightarrow> editor option" where
  "delete_char e = do {
     l \<leftarrow> lines e (currline e);
     if tlen l = 0 \<or> tlen l \<le> currpnt e then Some e
     else do {
       r \<leftarrow> del_at (enabledbchar e) (currpnt e) l;
       Some ((set_line (currline e) (fst r) e)\<lparr>currpnt := snd r\<rparr>)
     }
   }"

section \<open>Moving to a line and searching\<close>

text \<open>The loop of \<open>goline\<close>: at most \<open>k\<close> steps along the list; the line, or 0, and \<open>count\<close>.\<close>

fun go_loop :: "lheap \<Rightarrow> nat \<Rightarrow> nat \<Rightarrow> int \<Rightarrow> (nat \<times> int) option" where
  "go_loop h p 0 count = Some (p, count)"
| "go_loop h p (Suc k) count =
     (if p = 0 then Some (0, count) else do { l \<leftarrow> h p; go_loop h (tnext l) k (count + 1) })"

text \<open>Leaving the line of origin and the empty line before it.\<close>

definition leave_origin :: "editor \<Rightarrow> editor option" where
  "leave_origin e = do {
     o1 \<leftarrow> Origin e (currline e);
     e1 \<leftarrow> (if o1 then do {
              l \<leftarrow> lines e (currline e);
              Some (e\<lparr>currline := tprev l, top_of_win := tprev l, curr_window_line := 0, currln := currln e - 1\<rparr>)
            } else Some e);
     l1 \<leftarrow> lines e1 (currline e1);
     o2 \<leftarrow> Origin e1 (tprev l1);
     if o2 then do {
       l2 \<leftarrow> lines e1 (tprev l1);
       Some (e1\<lparr>currline := tprev l2, top_of_win := tprev l2, curr_window_line := 0, currln := currln e1 - 2\<rparr>)
     } else Some e1
   }"

definition goline :: "int \<Rightarrow> editor \<Rightarrow> editor option" where
  "goline m e =
     (let n = (if m < 0 then 1 else m) in
      if n = 0 then Some e
      else do {
        r \<leftarrow> go_loop (lines e) (firstline e) (nat (n - 1)) 1;
        leave_origin
          (if fst r \<noteq> 0 then e\<lparr>currln := n - 1, curr_window_line := 0, top_of_win := fst r, currline := fst r\<rparr>
           else e\<lparr>top_of_win := lastline e, currln := snd r - 2, curr_window_line := 0, currline := lastline e\<rparr>)
      })"

text \<open>The position of the first occurrence of a string, as \<open>strstr(s, t) - s\<close>.\<close>

fun strpos :: "string \<Rightarrow> string \<Rightarrow> nat option" where
  "strpos [] t = (if t = [] then Some 0 else None)"
| "strpos (c # s) t = (if take (length t) (c # s) = t then Some 0 else map_option Suc (strpos s t))"

text \<open>The loop of \<open>searchline\<close>: the line found with the new cursor and its distance, or \<open>(0, _, _)\<close>.\<close>

partial_function (option) search_loop :: "lheap \<Rightarrow> string \<Rightarrow> nat \<Rightarrow> nat \<Rightarrow> int \<Rightarrow> (nat \<times> nat \<times> int) option" where
  "search_loop h t p tt count =
     (if p = 0 then Some (0, tt, count)
      else Option.bind (h p) (\<lambda>l.
        case strpos (cstr (drop tt (tdata l))) t of
          Some i \<Rightarrow> Some (p, tt + i + length t, count)
        | None \<Rightarrow> search_loop h t (tnext l) 0 (count + 1)))"

definition searchline :: "string \<Rightarrow> editor \<Rightarrow> editor option" where
  "searchline t e = do {
     r \<leftarrow> search_loop (lines e) t (currline e) (currpnt e) 1;
     e1 \<leftarrow> (if fst r \<noteq> 0 then
              Some (e\<lparr>currpnt := fst (snd r), currln := currln e + snd (snd r) - 1, curr_window_line := 0,
                      top_of_win := fst r, currline := fst r\<rparr>)
            else goline (currln e + 1) e);
     leave_origin e1
   }"

section \<open>Files\<close>

definition vedit_init :: "editor \<Rightarrow> editor" where
  "vedit_init e =
     (case alloc_line e of
        (e1, p) \<Rightarrow>
          e1\<lparr>firstline := p, lastline := p, currline := p, currpnt := 0, top_of_win := p, currln := 0,
             curr_window_line := 0, redraw_everything := False, mark_begin := 0, mark_end := 0,
             mark_on := False, first_mark_line := 0, marknum := 0\<rparr>)"

text \<open>\<open>insert_to_fp\<close>: the lines that are not empty, and the reset code when one has an escape.\<close>

abbreviation (input) LF :: char where "LF \<equiv> CHR 0x0A"
abbreviation (input) ANSI_RESET :: string where "ANSI_RESET \<equiv> KEY_ESC # ''[m''"

partial_function (option) out_loop :: "lheap \<Rightarrow> nat \<Rightarrow> string \<Rightarrow> nat \<Rightarrow> (string \<times> nat) option" where
  "out_loop h p out ansi =
     (if p = 0 then Some (out, ansi)
      else Option.bind (h p) (\<lambda>l.
        let s = cstr (tdata l) in
        if s \<noteq> [] then out_loop h (tnext l) (out @ s @ [LF]) (if KEY_ESC \<in> set s then ansi + 1 else ansi)
        else out_loop h (tnext l) out ansi))"

definition insert_to_fp :: "editor \<Rightarrow> string option" where
  "insert_to_fp e = do {
     r \<leftarrow> out_loop (lines e) (firstline e) [] 0;
     Some (if snd r \<noteq> 0 then fst r @ ANSI_RESET @ [LF] else fst r)
   }"

text \<open>\<open>read_file\<close>: the bytes of the file one by one; a tab inserts at least one space.\<close>

partial_function (option) tab_loop :: "editor \<Rightarrow> editor option" where
  "tab_loop e = Option.bind (insert_char (CHR '' '') e)
     (\<lambda>e1. if currpnt e1 mod 8 \<noteq> 0 then tab_loop e1 else Some e1)"

definition read_byte :: "char \<Rightarrow> editor \<Rightarrow> editor option" where
  "read_byte ch e =
     (if isprint2 ch \<or> ch = KEY_ESC then
        if currpnt e < 254 then insert_char ch e
        else if currpnt e < 255 then insert_char (CHR ''.'') e
        else Some e
      else if ch = CHR 0x09 then tab_loop e
      else if ch = LF then split_line (currline e) (currpnt e) e
      else Some e)"

fun read_bytes :: "string \<Rightarrow> editor \<Rightarrow> editor option" where
  "read_bytes [] e = Some e"
| "read_bytes (c # s) e = do { e1 \<leftarrow> read_byte c e; read_bytes s e1 }"

text \<open>The contents of the file, \<open>None\<close> when it cannot be opened; the result is the editor and -1 or 0.\<close>

definition read_file :: "string option \<Rightarrow> editor \<Rightarrow> (editor \<times> int) option" where
  "read_file file e =
     (let e0 = (if currline e = 0 then vedit_init e else e) in
      case file of
        None \<Rightarrow> Some (e0, -1)
      | Some s \<Rightarrow> do { e1 \<leftarrow> read_bytes s e0; Some (e1, 0) })"

section \<open>One character\<close>

definition typed :: "bool \<Rightarrow> nat \<Rightarrow> char \<Rightarrow> string \<Rightarrow> string" where
  "typed ins c ch s = (if c < length s \<and> \<not> ins then s[c := ch] else take c s @ ch # drop c s)"

lemma put_char_text:
  assumes "text_of l s" and "currpnt e \<le> length s" and "length s \<le> 254" and "ch \<noteq> NUL"
  shows "\<exists>l1. put_char ch e l = Some l1 \<and> tprev l1 = tprev l \<and> tnext l1 = tnext l \<and>
           text_of l1 (typed (insert_character e) (currpnt e) ch s)"
proof -
  let ?c = "currpnt e"
  obtain rest where r: "tdata l = s @ NUL # rest" "length s + length rest = 255" "is_cstr s" "tlen l = length s"
    using assms(1) by (auto simp: text_of_def)
  show ?thesis
  proof (cases "?c < length s \<and> \<not> insert_character e")
    case True
    moreover have "is_cstr (s[?c := ch])"
      using r(3) assms(4) by (auto simp: is_cstr_def dest: set_update_subset_insert [THEN subsetD])
    ultimately show ?thesis using r
      by (auto simp: put_char_def poke_def typed_def list_update_append intro!: text_ofI)
  next
    case False
    let ?m = "memmove (tdata l) (?c + 1) ?c (tlen l + 1 - ?c)"
    have "?m = take (Suc ?c) (tdata l) @ drop ?c s @ NUL # tl rest"
      using r assms(2,3) by (cases rest) (auto simp: memmove_def Suc_diff_le)
    then have eq: "?m[?c := ch] = (take ?c s @ ch # drop ?c s) @ NUL # tl rest" (is "_ = ?d")
      using r assms(2,3) by (simp add: upd_conv_take_nth_drop min_absorb2)
    have "length ?m = 256" using r assms(2,3) by (subst length_memmove) auto
    then have "put_char ch e l = Some (l\<lparr>tdata := ?d, tlen := tlen l + 1\<rparr>)"
      using False r assms(2,3) eq by (auto simp: put_char_def poke_def)
    moreover have "text_of (l\<lparr>tdata := ?d, tlen := tlen l + 1\<rparr>) (take ?c s @ ch # drop ?c s)"
      by (rule text_ofI [where rest = "tl rest"]) (use r assms in simp_all)
    ultimately show ?thesis using False by (auto simp: typed_def)
  qed
qed

lemma set_line_view:
  assumes "view e (us @ (x, s) # vs)" and "lines e x = Some t" and "tprev t' = tprev t" and "tnext t' = tnext t"
    and "text_of t' s'"
  shows "view (set_line x t' e) (us @ (x, s') # vs)"
  unfolding set_line_def by (rule set_text_view [OF assms])

lemma view_update [simp]:
  "view (e\<lparr>currpnt := a\<rparr>) r = view e r" "view (e\<lparr>currline := a\<rparr>) r = view e r"
  "view (e\<lparr>currln := b\<rparr>) r = view e r" "view (e\<lparr>curr_window_line := b\<rparr>) r = view e r"
  "view (e\<lparr>top_of_win := a\<rparr>) r = view e r" "view (e\<lparr>redraw_everything := d\<rparr>) r = view e r"
  by (simp_all add: view_def fresh_ok_def)

lemma length_typed [simp]: "c \<le> length s \<Longrightarrow> length (typed ins c ch s) = (if c < length s \<and> \<not> ins then length s else Suc (length s))"
  by (simp add: typed_def)

text \<open>The cursor is on a line, and not behind its end; no line is full.\<close>

definition cursor_ok :: "editor \<Rightarrow> (nat \<times> string) list \<Rightarrow> bool" where
  "cursor_ok e r \<longleftrightarrow> (\<exists>us s vs. r = us @ (currline e, s) # vs \<and> currpnt e \<le> length s)"

definition short_lines :: "(nat \<times> string) list \<Rightarrow> bool" where
  "short_lines r \<longleftrightarrow> (\<forall>p\<in>set r. length (snd p) \<le> 254)"

lemma insert_char_short:
  assumes v: "view e (us @ (x, s) # vs)" and x: "currline e = x" and c: "currpnt e \<le> length s"
    and len: "length s \<le> 254" "length (typed (insert_character e) (currpnt e) ch s) < 255" and ch: "ch \<noteq> NUL"
  shows "\<exists>e'. insert_char ch e = Some e' \<and> view e' (us @ (x, typed (insert_character e) (currpnt e) ch s) # vs) \<and>
     currline e' = x \<and> currpnt e' = currpnt e + 1 \<and> same_modes e e' \<and> lbrk e' = lbrk e \<and>
     currln e' = currln e \<and> curr_window_line e' = curr_window_line e"
proof -
  obtain l where l: "lines e x = Some l" "text_of l s" using view_at [OF v] by auto
  obtain l1 where l1: "put_char ch e l = Some l1" "tprev l1 = tprev l" "tnext l1 = tnext l"
      "text_of l1 (typed (insert_character e) (currpnt e) ch s)"
    using put_char_text [OF l(2) c len(1) ch] by auto
  have "view (set_line x l1 e) (us @ (x, typed (insert_character e) (currpnt e) ch s) # vs)"
    by (rule set_line_view [OF v l(1) l1(2-4)])
  then show ?thesis using l l1(1) x c len text_ofD [OF l(2)] text_ofD [OF l1(4)]
    by (auto simp: insert_char_def set_line_def same_modes_def)
qed

section \<open>Wrapping\<close>

lemma high_run_cong: "(\<And>i. i < k \<Longrightarrow> d ! i = d' ! i) \<Longrightarrow> high_run d k = high_run d' k"
  by (induction k) auto

lemma break_at_cong:
  assumes "\<And>i. i < n \<Longrightarrow> d ! i = d' ! i" and "3 \<le> n"
  shows "break_at d n = break_at d' n"
proof -
  have w: "word_break d (n - 1) = word_break d' (n - 1)"
    by (rule word_break_cong) (use assms in simp)
  let ?s = "if word_break d' (n - 1) = 0 then n - 2 else word_break d' (n - 1)"
  have "?s < n" using word_break_space [of d' "n - 1"] assms(2) by (cases "word_break d' (n - 1) = 0") auto
  then have "d ! ?s = d' ! ?s" "high_run d (?s + 1) = high_run d' (?s + 1)"
    by (simp add: assms(1), intro high_run_cong assms(1)) simp
  then show ?thesis unfolding break_at_def w Let_def by (simp del: high_run.simps)
qed

lemma break_at_range:
  assumes "break_at d 255 = (k, w)"
  shows "0 < k" and "k \<le> 253" and "w \<Longrightarrow> d ! k = CHR '' ''" and "\<not> w \<Longrightarrow> 252 \<le> k"
proof -
  have sp: "\<not> high_bit (CHR '' '')" by (simp add: high_bit_def cval_def)
  have "w \<longleftrightarrow> word_break d 254 \<noteq> 0" using assms by (auto simp: break_at_def Let_def)
  moreover have "k = word_break d 254" if "word_break d 254 \<noteq> 0"
    using assms word_break_space [of d 254] that sp by (simp add: break_at_def Let_def)
  moreover have "k = 253 \<or> k = 252" if "word_break d 254 = 0"
    using assms that by (auto simp: break_at_def Let_def split: if_splits)
  ultimately show "0 < k" "k \<le> 253" "w \<Longrightarrow> d ! k = CHR '' ''" "\<not> w \<Longrightarrow> 252 \<le> k"
    using word_break_space [of d 254] by auto
qed

lemma wrap_pad_view:
  assumes "view e (us @ (x, t) # vs)" and "length t < 254"
  shows "\<exists>e'. wrap_pad x e = Some e' \<and> view e' (us @ (x, pad t) # vs) \<and> same_cursor e e'"
proof -
  obtain l where l: "lines e x = Some l" "text_of l t" using view_at [OF assms(1)] by auto
  note l' = text_ofD [OF l(2)]
  have nth: "t \<noteq> [] \<Longrightarrow> tdata l ! (length t - Suc 0) = last t"
    using text_of_nth [OF l(2), of "length t - 1"] by (simp add: last_conv_nth)
  show ?thesis
  proof (cases "t \<noteq> [] \<and> last t \<noteq> CHR '' ''")
    case False
    then show ?thesis using l l' nth assms by (auto simp: wrap_pad_def pad_def same_cursor_def Suc_le_eq)
  next
    case True
    obtain rest where r: "tdata l = t @ NUL # rest" "length t + length rest = 255" using l(2) by (auto simp: text_of_def)
    then obtain c rest' where rest: "rest = c # rest'" using assms(2) by (cases rest) auto
    let ?l = "l\<lparr>tdata := t @ CHR '' '' # NUL # rest', tlen := Suc (length t)\<rparr>"
    have "text_of ?l (t @ '' '')" by (rule text_ofI [where rest = rest']) (use r rest l' in simp_all)
    then have "view (set_line x ?l e) (us @ (x, t @ '' '') # vs)" by (intro set_line_view [OF assms(1) l(1)]) simp_all
    moreover have "wrap_pad x e = Some (set_line x ?l e)"
      using True l l' nth r rest by (simp add: wrap_pad_def poke_def list_update_append Suc_le_eq)
    ultimately show ?thesis using True assms(2) by (auto simp: pad_def set_line_def same_cursor_def same_modes_def)
  qed
qed

definition wrapped :: "bool \<Rightarrow> string \<Rightarrow> string" where
  "wrapped w t = (if w then pad t else t)"

lemma insert_char_wrap:
  assumes v: "view e (us @ (x, s) # vs)" and x: "currline e = x" and c: "currpnt e \<le> length s"
    and t: "t = typed (insert_character e) (currpnt e) ch s" "length s \<le> 254" "length t = 255" and ch: "ch \<noteq> NUL"
    and org: "origin e = None" and k: "break_at t 255 = (k, w)"
  shows "\<exists>e'. insert_char ch e = Some e' \<and>
     view e' (us @ (x, take (Suc k) t) # (lbrk e, wrapped w (drop (Suc k) t)) # vs) \<and> same_modes e e' \<and>
     currline e' = (if k \<le> currpnt e then lbrk e else x) \<and>
     currpnt e' = (if k \<le> currpnt e then currpnt e - k else currpnt e + 1)"
proof -
  obtain l where l: "lines e x = Some l" "text_of l s" using view_at [OF v] by auto
  obtain l1 where l1: "put_char ch e l = Some l1" "tprev l1 = tprev l" "tnext l1 = tnext l" "text_of l1 t"
    using put_char_text [OF l(2) c t(2) ch] t(1) by auto
  let ?e1 = "(set_line x l1 e)\<lparr>currpnt := currpnt e + 1\<rparr>"
  have v1: "view ?e1 (us @ (x, t) # vs)" using set_line_view [OF v l(1) l1(2-4)] by simp
  have k2: "break_at (tdata l1) 255 = (k, w)"
    using k break_at_cong [of 255 "tdata l1" t] text_of_nth [OF l1(4)] t(3) by simp
  note kr = break_at_range [OF k]
  obtain e2 where e2: "split_line x (Suc k) ?e1 = Some e2" "same_modes ?e1 e2"
      "view e2 (us @ (x, take (Suc k) t) # (lbrk e, drop (Suc k) t) # vs)"
      "currline e2 = (if x = currline ?e1 \<and> Suc k \<le> currpnt ?e1 then lbrk ?e1 else currline ?e1)"
      "currpnt e2 = (if x = currline ?e1 \<and> Suc k \<le> currpnt ?e1 then currpnt ?e1 - Suc k else currpnt ?e1)"
    using split_view [OF v1, of "Suc k"] kr t(3) by (auto simp: Let_def set_line_def)
  obtain l2 where l2: "lines e2 x = Some l2" "tnext l2 = lbrk e" using view_at [OF e2(3)] by auto
  obtain e3 where e3: "(if w then wrap_pad (lbrk e) e2 else Some e2) = Some e3" "same_cursor e2 e3"
      "view e3 (us @ (x, take (Suc k) t) # (lbrk e, wrapped w (drop (Suc k) t)) # vs)"
  proof (cases w)
    case True
    have "length (drop (Suc k) t) < 254" using t(3) kr by simp
    then show ?thesis
      using that True wrap_pad_view [of e2 "us @ [(x, take (Suc k) t)]" "lbrk e" "drop (Suc k) t" vs] e2(3)
      by (auto simp: wrapped_def)
  next
    case False
    then show ?thesis using that e2(3) by (auto simp: wrapped_def same_cursor_def)
  qed
  obtain q where q: "lines e3 (lbrk e) = Some q"
    using view_at [of e3 "us @ [(x, take (Suc k) t)]" "lbrk e" "wrapped w (drop (Suc k) t)" vs] e3(3) by auto
  have o3: "origin e3 = None" using org e2(2) e3(2) by (simp add: same_cursor_def same_modes_def set_line_def)
  have "insert_char ch e = Some e3"
    using l l1(1) x c t k2 e2(1) l2 e3(1) q o3 text_ofD [OF l(2)] text_ofD [OF l1(4)]
    by (cases w) (simp_all add: insert_char_def wrap_line_def Origin_def)
  moreover have "same_modes e e3" "currline e3 = currline e2" "currpnt e3 = currpnt e2"
    using e2(2) e3(2) by (simp_all add: same_cursor_def same_modes_def set_line_def)
  ultimately show ?thesis using e3(3) e2(4,5) x by (auto simp: set_line_def)
qed

lemma cursor_okI: "r = us @ (currline e, s) # vs \<Longrightarrow> currpnt e \<le> length s \<Longrightarrow> cursor_ok e r"
  by (auto simp: cursor_ok_def)

lemma length_pad: "length t < 254 \<Longrightarrow> length t \<le> length (wrapped w t) \<and> length (wrapped w t) \<le> 254"
  by (auto simp: wrapped_def pad_def)

lemma insert_char_step:
  assumes "view e r" and "cursor_ok e r" and "short_lines r" and "origin e = None" and "ch \<noteq> NUL"
  shows "\<exists>e' r'. insert_char ch e = Some e' \<and> view e' r' \<and> cursor_ok e' r' \<and> short_lines r' \<and> same_modes e e'"
proof -
  obtain us s vs where r: "r = us @ (currline e, s) # vs" and c: "currpnt e \<le> length s"
    using assms(2) by (auto simp: cursor_ok_def)
  have s: "length s \<le> 254" using assms(3) r by (simp add: short_lines_def)
  define t where "t = typed (insert_character e) (currpnt e) ch s"
  have lt: "length t = (if currpnt e < length s \<and> \<not> insert_character e then length s else Suc (length s))"
    using c by (simp add: t_def)
  note v = assms(1) [unfolded r]
  show ?thesis
  proof (cases "length t = 255")
    case False
    then have t255: "length t < 255" using lt s c by auto
    then obtain e' where e': "insert_char ch e = Some e'" "view e' (us @ (currline e, t) # vs)"
        "currline e' = currline e" "currpnt e' = currpnt e + 1" "same_modes e e'"
      using insert_char_short [OF v refl c s _ assms(5)] t_def by auto
    have "currpnt e' \<le> length t" using e'(4) lt c by auto
    then have "cursor_ok e' (us @ (currline e, t) # vs)" using e'(3) by (auto intro: cursor_okI)
    moreover have "short_lines (us @ (currline e, t) # vs)"
      using assms(3) r t255 by (auto simp: short_lines_def)
    ultimately show ?thesis using e' by blast
  next
    case True
    obtain k w where k: "break_at t 255 = (k, w)" by (cases "break_at t 255")
    note kr = break_at_range [OF k]
    obtain e' where e': "insert_char ch e = Some e'" "same_modes e e'"
        "view e' (us @ (currline e, take (Suc k) t) # (lbrk e, wrapped w (drop (Suc k) t)) # vs)"
        "currline e' = (if k \<le> currpnt e then lbrk e else currline e)"
        "currpnt e' = (if k \<le> currpnt e then currpnt e - k else currpnt e + 1)"
      using insert_char_wrap [OF v refl c t_def s True assms(5,4) k] by auto
    let ?r = "us @ (currline e, take (Suc k) t) # (lbrk e, wrapped w (drop (Suc k) t)) # vs"
    have ld: "length (drop (Suc k) t) \<le> length (wrapped w (drop (Suc k) t))"
        "length (wrapped w (drop (Suc k) t)) \<le> 254"
      using length_pad [of "drop (Suc k) t" w] True kr by auto
    have "cursor_ok e' ?r"
    proof (cases "k \<le> currpnt e")
      case le: True
      show ?thesis
        by (rule cursor_okI [of _ "us @ [(currline e, take (Suc k) t)]" _ "wrapped w (drop (Suc k) t)" vs])
           (use le e'(4,5) ld(1) True s c in \<open>simp_all\<close>)
    next
      case False
      then show ?thesis
        by (intro cursor_okI [of _ us _ "take (Suc k) t"]) (use e'(4,5) True kr in simp_all)
    qed
    moreover have "short_lines ?r" using assms(3) r True kr ld(2) by (auto simp: short_lines_def)
    ultimately show ?thesis using e' by blast
  qed
qed

lemma ve_insert_str_step:
  "view e r \<Longrightarrow> cursor_ok e r \<Longrightarrow> short_lines r \<Longrightarrow> origin e = None \<Longrightarrow> is_cstr t \<Longrightarrow>
     \<exists>e' r'. ve_insert_str t e = Some e' \<and> view e' r' \<and> cursor_ok e' r' \<and> short_lines r' \<and> same_modes e e'"
proof (induction t arbitrary: e r)
  case (Cons ch t)
  then obtain e1 r1 where 1: "insert_char ch e = Some e1" "view e1 r1" "cursor_ok e1 r1" "short_lines r1" "same_modes e e1"
    using insert_char_step [of e r ch] by auto
  have "origin e1 = None" "is_cstr t" using 1(5) Cons.prems(4,5) by (simp_all add: same_modes_def)
  from Cons.IH [OF 1(2-4) this] obtain e' r' where "ve_insert_str t e1 = Some e'" "view e' r'" "cursor_ok e' r'"
      "short_lines r'" "same_modes e1 e'" by blast
  then show ?case using 1(1,5) same_modes_trans by auto
qed auto

section \<open>Reading a file and writing it out\<close>

definition plain :: "string \<Rightarrow> bool" where
  "plain s \<longleftrightarrow> (\<forall>c\<in>set s. isprint2 c \<or> c = KEY_ESC)"

lemma plain_Cons: "plain (c # s) \<longleftrightarrow> (isprint2 c \<or> c = KEY_ESC) \<and> plain s"
  by (simp add: plain_def)

lemma printable_not_NUL: "isprint2 c \<or> c = KEY_ESC \<Longrightarrow> c \<noteq> NUL"
  by (auto simp: isprint2_def)

lemma typed_end: "typed ins (length s) ch s = s @ [ch]"
  by (simp add: typed_def)

lemma read_text:
  "view e (us @ [(x, s)]) \<Longrightarrow> currline e = x \<Longrightarrow> currpnt e = length s \<Longrightarrow> plain t \<Longrightarrow> length s + length t \<le> 254 \<Longrightarrow>
     \<exists>e'. read_bytes (t @ u) e = read_bytes u e' \<and> view e' (us @ [(x, s @ t)]) \<and> currline e' = x \<and>
          currpnt e' = length (s @ t) \<and> same_modes e e'"
proof (induction t arbitrary: s e)
  case (Cons ch t)
  have ch: "isprint2 ch \<or> ch = KEY_ESC" "ch \<noteq> NUL" using Cons.prems(4) printable_not_NUL by (auto simp: plain_Cons)
  obtain e1 where e1: "insert_char ch e = Some e1" "view e1 (us @ [(x, s @ [ch])])" "currline e1 = x"
      "currpnt e1 = Suc (length s)" "same_modes e e1"
    using insert_char_short [OF Cons.prems(1,2), of ch] Cons.prems(3,5) ch by (auto simp: typed_end)
  obtain e' where "read_bytes (t @ u) e1 = read_bytes u e'" "view e' (us @ [(x, (s @ [ch]) @ t)])" "currline e' = x"
      "currpnt e' = length ((s @ [ch]) @ t)" "same_modes e1 e'"
    using Cons.IH [OF e1(2,3)] e1(4) Cons.prems(4,5) by (auto simp: plain_Cons)
  moreover have "read_byte ch e = Some e1" using ch Cons.prems(3,5) e1(1) by (auto simp: read_byte_def)
  ultimately show ?case using e1(5) same_modes_trans [OF e1(5)] by auto
qed auto

lemma LF_not_plain [simp]: "\<not> isprint2 LF" "LF \<noteq> KEY_ESC"
  by (simp_all add: isprint2_def cval_def)

lemma read_newline:
  assumes "view e (us @ [(x, s)])" and "currline e = x" and "currpnt e = length s"
  shows "\<exists>e'. read_byte LF e = Some e' \<and> view e' ((us @ [(x, s)]) @ [(currline e', [])]) \<and> currpnt e' = 0"
proof -
  obtain e' where "split_line x (length s) e = Some e'" "view e' (us @ [(x, s), (lbrk e, [])])"
      "currline e' = lbrk e" "currpnt e' = 0"
    using split_view [of e us x s "[]" "length s"] assms by (auto simp: Let_def)
  then show ?thesis using assms by (auto simp: read_byte_def)
qed

definition file_of :: "string list \<Rightarrow> string \<Rightarrow> string" where
  "file_of ls t = concat (map (\<lambda>s. s @ [LF]) ls) @ t"

lemma read_lines:
  "view e (us @ [(currline e, [])]) \<Longrightarrow> currpnt e = 0 \<Longrightarrow> \<forall>s\<in>set (ls @ [t]). plain s \<and> length s \<le> 254 \<Longrightarrow>
     \<exists>e' r. read_bytes (file_of ls t) e = Some e' \<and> view e' (us @ r) \<and> map snd r = ls @ [t]"
proof (induction ls arbitrary: us e)
  case Nil
  then obtain e' where "read_bytes (t @ []) e = read_bytes [] e'" "view e' (us @ [(currline e, t)])"
    using read_text [of e us "currline e" "[]" t "[]"] by auto
  then show ?case by (intro exI [of _ e'] exI [of _ "[(currline e, t)]"]) (simp add: file_of_def)
next
  case (Cons s ls)
  then obtain e1 where e1: "read_bytes (s @ LF # file_of ls t) e = read_bytes (LF # file_of ls t) e1"
      "view e1 (us @ [(currline e, s)])" "currline e1 = currline e" "currpnt e1 = length s"
    using read_text [of e us "currline e" "[]" s "LF # file_of ls t"] by auto
  obtain e2 where e2: "read_byte LF e1 = Some e2" "view e2 ((us @ [(currline e, s)]) @ [(currline e2, [])])" "currpnt e2 = 0"
    using read_newline [OF e1(2-4)] by blast
  obtain e' r where "read_bytes (file_of ls t) e2 = Some e'" "view e' ((us @ [(currline e, s)]) @ r)" "map snd r = ls @ [t]"
    using Cons.IH [OF e2(2,3)] Cons.prems(3) by auto
  then show ?case using e1(1) e2(1)
    by (intro exI [of _ e'] exI [of _ "(currline e, s) # r"]) (simp add: file_of_def)
qed

lemma init_view:
  assumes "fresh_ok e"
  shows "view (vedit_init e) [(lbrk e, [])]" and "currline (vedit_init e) = lbrk e" and "currpnt (vedit_init e) = 0"
    and "same_modes e (vedit_init e)"
proof -
  have len: "length (raw e (lbrk e)) = 256" using assms by (simp add: fresh_ok_def)
  then obtain c rest where "raw e (lbrk e) = c # rest" "length rest = 255" by (cases "raw e (lbrk e)") auto
  then show "view (vedit_init e) [(lbrk e, [])]"
    using assms by (auto simp: vedit_init_def alloc_line_def view_def fresh_ok_def text_of_def)
qed (simp_all add: vedit_init_def alloc_line_def same_modes_def)

definition written :: "string list \<Rightarrow> string" where
  "written ls = concat (map (\<lambda>s. s @ [LF]) (filter (\<lambda>s. s \<noteq> []) ls))"

lemma out_loop_seg:
  "seg h p r 0 \<Longrightarrow> \<exists>n. out_loop h (first r 0) out k = Some (out @ written (map snd r), k + n) \<and>
     (n = 0 \<longleftrightarrow> (\<forall>s\<in>set (map snd r). KEY_ESC \<notin> set s))"
proof (induction r arbitrary: p out k)
  case Nil
  show ?case by (subst out_loop.simps) (simp add: written_def)
next
  case (Cons y r)
  obtain x s where y: "y = (x, s)" by (cases y)
  from Cons.prems y obtain l where l: "h x = Some l" "text_of l s" "tnext l = first r 0" "x \<noteq> 0" "seg h x r 0" by auto
  note l' = text_ofD [OF l(2)]
  let ?out = "if s = [] then out else out @ s @ [LF]" and ?k = "if KEY_ESC \<in> set s then k + 1 else k"
  obtain n where n: "out_loop h (first r 0) ?out ?k = Some (?out @ written (map snd r), ?k + n)"
      "n = 0 \<longleftrightarrow> (\<forall>s\<in>set (map snd r). KEY_ESC \<notin> set s)"
    using Cons.IH [OF l(5), of ?out ?k] by blast
  show ?case
    by (rule exI [of _ "if KEY_ESC \<in> set s then Suc n else n"], subst out_loop.simps)
      (use n l l' y in \<open>auto simp: written_def Let_def\<close>)
qed

lemma insert_to_fp_view:
  assumes "view e r"
  shows "insert_to_fp e = Some (written (map snd r) @
     (if \<exists>s\<in>set (map snd r). KEY_ESC \<in> set s then ANSI_RESET @ [LF] else []))"
proof -
  obtain n where "out_loop (lines e) (first r 0) [] 0 = Some ([] @ written (map snd r), 0 + n)"
      "n = 0 \<longleftrightarrow> (\<forall>s\<in>set (map snd r). KEY_ESC \<notin> set s)"
    using out_loop_seg [OF viewD(1) [OF assms]] by blast
  then show ?thesis using viewD(3) [OF assms] by (auto simp: insert_to_fp_def)
qed

section \<open>Deleting\<close>

lemma shift_left_text:
  assumes "text_of l s" and "a + n \<le> length s" and "0 < n"
  shows "\<exists>d. shift_left a (length s + 1 - n) n (tdata l) = Some d \<and>
           text_of (l\<lparr>tdata := d, tlen := length s - n\<rparr>) (take a s @ drop (a + n) s)"
proof -
  obtain rest where r: "tdata l = s @ NUL # rest" "length s + length rest = 255" "is_cstr s"
    using assms(1) by (auto simp: text_of_def)
  let ?rest = "drop (length s + 1 - n) (tdata l)"
  have m: "length s + 1 - n - a = Suc (length s - (a + n))" using assms(2) by simp
  have "take (length s + 1 - n - a) (drop (a + n) (tdata l)) = drop (a + n) s @ [NUL]"
    using assms(2) r(1) by (simp add: m Suc_diff_le)
  then have "memmove (tdata l) a (a + n) (length s + 1 - n - a) = (take a s @ drop (a + n) s) @ NUL # ?rest"
    using assms(2) r(1) by (simp add: memmove_def)
  moreover have "text_of (l\<lparr>tdata := (take a s @ drop (a + n) s) @ NUL # ?rest, tlen := length s - n\<rparr>)
      (take a s @ drop (a + n) s)"
    by (rule text_ofI [where rest = ?rest]) (use r assms(2,3) in simp_all)
  ultimately show ?thesis using assms(2,3) r(1,2) by (simp add: shift_left_def)
qed

lemma del_one_text:
  "text_of l s \<Longrightarrow> c < length s \<Longrightarrow>
     \<exists>l1. del_one c l = Some (l1, c) \<and> tprev l1 = tprev l \<and> tnext l1 = tnext l \<and> text_of l1 (remove_nth c s)"
  using shift_left_text [of l s c 1] by (auto simp: del_one_def remove_nth_def text_ofD)

lemma del_two_text:
  assumes "text_of l s" and "a + 2 \<le> length s"
  shows "\<exists>l1. del_two a c l = Some (l1, c) \<and> tprev l1 = tprev l \<and> tnext l1 = tnext l \<and>
     text_of l1 (take a s @ drop (a + 2) s)"
proof -
  obtain d where d: "shift_left a (length s + 1 - 2) 2 (tdata l) = Some d"
      "text_of (l\<lparr>tdata := d, tlen := length s - 2\<rparr>) (take a s @ drop (a + 2) s)"
    using shift_left_text [OF assms] by auto
  moreover have "length s + 1 - 2 = tlen l - 1" using text_ofD [OF assms(1)] by simp
  ultimately show ?thesis using text_ofD [OF assms(1)] by (simp add: del_two_def)
qed

lemma delete_char_view:
  assumes "view e (us @ (x, s) # vs)" and "currline e = x" and "currpnt e < length s"
    and "\<And>l. text_of l s \<Longrightarrow> \<exists>l1. del_at (enabledbchar e) (currpnt e) l = Some (l1, c') \<and> tprev l1 = tprev l \<and>
           tnext l1 = tnext l \<and> text_of l1 s'"
  shows "\<exists>e'. delete_char e = Some e' \<and> view e' (us @ (x, s') # vs) \<and> currline e' = x \<and> currpnt e' = c'"
proof -
  obtain l where l: "lines e x = Some l" "text_of l s" using view_at [OF assms(1)] by auto
  obtain l1 where l1: "del_at (enabledbchar e) (currpnt e) l = Some (l1, c')" "tprev l1 = tprev l"
      "tnext l1 = tnext l" "text_of l1 s'" using assms(4) [OF l(2)] by blast
  have "view (set_line x l1 e) (us @ (x, s') # vs)" by (rule set_line_view [OF assms(1) l(1) l1(2-4)])
  then show ?thesis using l l1(1) assms(2,3) text_ofD [OF l(2)]
    by (auto simp: delete_char_def set_line_def)
qed

lemma dbcs_state_cong: "(\<And>i. i < k \<Longrightarrow> d ! i = d' ! i) \<Longrightarrow> dbcs_state d k = dbcs_state d' k"
  by (induction k) auto

text \<open>Deleting from either half of a double-byte character.\<close>

lemma del_at_double:
  assumes "text_of l s" and s: "s = us @ [a, b] @ vs" and st: "\<not> dbcs_state us (length us)"
    and hi: "high_bit a" "high_bit b" and c: "c = length us \<or> c = Suc (length us)"
  shows "\<exists>l1. del_at True c l = Some (l1, length us) \<and> tprev l1 = tprev l \<and> tnext l1 = tnext l \<and> text_of l1 (us @ vs)"
proof -
  have nth: "tdata l ! i = s ! i" if "i < length s" for i using text_of_nth [OF assms(1) that] .
  have d0: "\<not> dbcs_state (tdata l) (length us)"
    using st dbcs_state_cong [of "length us" "tdata l" us] nth s by (simp add: nth_append)
  have ab: "tdata l ! length us = a" "tdata l ! Suc (length us) = b" using nth s by (simp_all add: nth_append)
  have "del_at True c l = del_two (length us) (length us) l"
    using c d0 ab hi text_ofD [OF assms(1)] s by (auto simp: del_at_def Let_def)
  then show ?thesis using del_two_text [OF assms(1), of "length us" "length us"] s by simp
qed

lemma del_at_single:
  assumes "text_of l s" and "c < length s" and "\<not> dbl \<or> \<not> high_bit (s ! c)"
  shows "\<exists>l1. del_at dbl c l = Some (l1, c) \<and> tprev l1 = tprev l \<and> tnext l1 = tnext l \<and> text_of l1 (remove_nth c s)"
  using del_one_text [OF assms(1,2)] assms(3) text_of_nth [OF assms(1,2)] by (auto simp: del_at_def)

section \<open>Going to a line\<close>

lemma Origin_None [simp]: "origin e = None \<Longrightarrow> Origin e p = Some False"
  by (simp add: Origin_def)

lemma leave_origin_None: "origin e = None \<Longrightarrow> lines e (currline e) \<noteq> None \<Longrightarrow> leave_origin e = Some e"
  by (auto simp: leave_origin_def)

lemma go_loop_seg:
  "seg h p r 0 \<Longrightarrow> go_loop h (first r 0) k c =
     (if k < length r then Some (fst (r ! k), c + int k) else Some (0, c + int (length r)))"
proof (induction r arbitrary: p k c)
  case Nil
  then show ?case by (cases k) simp_all
next
  case (Cons y r)
  obtain x s where y: "y = (x, s)" by (cases y)
  from Cons.prems y obtain l where l: "h x = Some l" "tnext l = first r 0" "x \<noteq> 0" "seg h x r 0" by auto
  show ?case using Cons.IH [OF l(4)] l y by (cases k) auto
qed

lemma goline_view:
  assumes "view e r" and "origin e = None" and "0 < n"
  shows "goline n e = Some
    (if nat (n - 1) < length r then
       e\<lparr>currln := n - 1, curr_window_line := 0, top_of_win := fst (r ! nat (n - 1)), currline := fst (r ! nat (n - 1))\<rparr>
     else e\<lparr>top_of_win := lastline e, currln := int (length r) - 1, curr_window_line := 0, currline := lastline e\<rparr>)"
proof -
  note v = viewD [OF assms(1)]
  have ne: "r \<noteq> []" using assms(1) by (simp add: view_def)
  have in_list: "a \<in> fst ` set r \<Longrightarrow> \<exists>t. lines e a = Some t \<and> a \<noteq> 0" for a
    using seg_mem [OF v(1)] by fastforce
  show ?thesis
  proof (cases "nat (n - 1) < length r")
    case True
    then have "fst (r ! nat (n - 1)) \<in> fst ` set r" by simp
    then obtain t where "lines e (fst (r ! nat (n - 1))) = Some t" "fst (r ! nat (n - 1)) \<noteq> 0" using in_list by blast
    then show ?thesis using go_loop_seg [OF v(1), of "nat (n - 1)" 1] True v(3) assms(2,3)
      by (simp add: goline_def leave_origin_None)
  next
    case False
    obtain t where "lines e (lastline e) = Some t" using in_list [OF lastp_in [OF ne, of 0]] v(4) by auto
    then show ?thesis using go_loop_seg [OF v(1), of "nat (n - 1)" 1] False v(3) assms(2,3)
      by (simp add: goline_def leave_origin_None)
  qed
qed

section \<open>Properties\<close>

text \<open>C20. 
  Typing any string into a text whose lines are not full never leaves a buffer: the text is again a
  list of lines of at most 254 characters with the cursor on one of them, wherever the lines wrap.
\<close>

theorem typing_keeps_lines:
  assumes "view e r" and "cursor_ok e r" and "short_lines r" and "origin e = None" and "is_cstr t"
  shows "\<exists>e' r'. ve_insert_str t e = Some e' \<and> view e' r' \<and> cursor_ok e' r' \<and> short_lines r'"
  using ve_insert_str_step [OF assms] by blast

theorem typing_keeps_lines_witness:
  "\<exists>e' r'. ve_insert_str ''xyz'' (on_lines [''ab'', ''c''] 1 1) = Some e' \<and> view e' r' \<and> cursor_ok e' r' \<and> short_lines r'"
  by (rule typing_keeps_lines [of _ "numbered 1 [''ab'', ''c'']"])
    (use on_lines_view [of "[''ab'', ''c'']" 1 1] in \<open>auto simp: cursor_ok_def short_lines_def intro: exI [of _ "[]"]\<close>)

text \<open>
  A character typed into a full line breaks the line: the two pieces are the line with the
  character in it, cut at a space if there is one, with a space behind the carried word, and the
  cursor follows the character.
\<close>

theorem full_line_wraps:
  assumes "view e (us @ (x, s) # vs)" and "currline e = x" and "currpnt e \<le> length s" and "length s = 254"
    and "insert_character e" and "ch \<noteq> NUL" and "origin e = None"
    and "break_at (insert_nth (currpnt e) ch s) 255 = (k, w)"
  shows "\<exists>e' n. insert_char ch e = Some e' \<and> 0 < k \<and> k \<le> 253 \<and> (w \<longrightarrow> insert_nth (currpnt e) ch s ! k = CHR '' '') \<and>
     view e' (us @ (x, take (Suc k) (insert_nth (currpnt e) ch s)) #
                   (n, wrapped w (drop (Suc k) (insert_nth (currpnt e) ch s))) # vs) \<and>
     (currline e', currpnt e') = (if k \<le> currpnt e then (n, currpnt e - k) else (x, currpnt e + 1))"
proof -
  have t: "typed (insert_character e) (currpnt e) ch s = insert_nth (currpnt e) ch s"
    using assms(5) by (simp add: typed_def insert_nth_def)
  have len: "length (insert_nth (currpnt e) ch s) = 255" using assms(3,4) by simp
  show ?thesis
    using insert_char_wrap [OF assms(1-3) t [symmetric] _ len assms(6-8)] assms(4) break_at_range [OF assms(8)]
    by auto
qed

theorem full_line_wraps_witness:
  "\<exists>e' n k w. insert_char (CHR ''b'') (on_lines [replicate 254 (CHR ''a'')] 1 254) = Some e' \<and> 0 < k \<and>
     view e' [(1, take (Suc k) (insert_nth 254 (CHR ''b'') (replicate 254 (CHR ''a'')))),
              (n, wrapped w (drop (Suc k) (insert_nth 254 (CHR ''b'') (replicate 254 (CHR ''a'')))))]"
proof -
  let ?s = "replicate 254 (CHR ''a'')"
  obtain k w where k: "break_at (insert_nth 254 (CHR ''b'') ?s) 255 = (k, w)" by fastforce
  have "view (on_lines [?s] 1 254) ([] @ (1, ?s) # [])" using on_lines_view [of "[?s]" 1 254] by (simp add: is_cstr_def)
  from full_line_wraps [OF this, of "CHR ''b''" k w] k show ?thesis by auto
qed

text \<open>
  In the double-byte mode the delete key removes a whole character of two bytes with the high bit,
  from either of its halves, and leaves the cursor where the character was.
\<close>

theorem delete_whole_character:
  assumes "view e (us @ (x, ps @ [a, b] @ qs) # vs)" and "currline e = x" and "enabledbchar e"
    and "currpnt e = length ps \<or> currpnt e = Suc (length ps)"
    and "high_bit a" and "high_bit b" and "\<not> dbcs_state ps (length ps)"
  shows "\<exists>e'. delete_char e = Some e' \<and> view e' (us @ (x, ps @ qs) # vs) \<and> currline e' = x \<and> currpnt e' = length ps"
proof (rule delete_char_view [OF assms(1,2)])
  show "currpnt e < length (ps @ [a, b] @ qs)" using assms(4) by auto
next
  fix l assume "text_of l (ps @ [a, b] @ qs)"
  then show "\<exists>l1. del_at (enabledbchar e) (currpnt e) l = Some (l1, length ps) \<and> tprev l1 = tprev l \<and>
      tnext l1 = tnext l \<and> text_of l1 (ps @ qs)"
    using del_at_double [OF _ refl assms(7,5,6,4)] assms(3) by simp
qed

theorem delete_whole_character_witness:
  "\<exists>e'. delete_char (on_lines [[CHR ''a'', CHR 0xB0, CHR 0xA1, CHR ''b'']] 1 2) = Some e' \<and>
     view e' [(1, ''ab'')] \<and> currline e' = 1 \<and> currpnt e' = 1"
  using delete_whole_character [of "on_lines [[CHR ''a'', CHR 0xB0, CHR 0xA1, CHR ''b'']] 1 2" "[]" 1 "''a''" "CHR 0xB0" "CHR 0xA1" "''b''" "[]"]
    on_lines_view [of "[[CHR ''a'', CHR 0xB0, CHR 0xA1, CHR ''b'']]" 1 2]
  by (simp add: high_bit_def cval_def)

text \<open>C34. 
  A text file of lines of at most 254 printable characters is read into the editor line by line,
  and written back as it was except for its empty lines, with the reset code behind it when a line
  has an escape.
\<close>

theorem read_then_write:
  assumes "fresh_ok e" and "currline e = 0" and "\<forall>s\<in>set (ls @ [t]). plain s \<and> length s \<le> 254"
  shows "\<exists>e' r. read_file (Some (file_of ls t)) e = Some (e', 0) \<and> view e' r \<and> map snd r = ls @ [t] \<and>
     insert_to_fp e' = Some (written (ls @ [t]) @
       (if \<exists>s\<in>set (ls @ [t]). KEY_ESC \<in> set s then ANSI_RESET @ [LF] else []))"
proof -
  note i = init_view [OF assms(1)]
  obtain e' r where e': "read_bytes (file_of ls t) (vedit_init e) = Some e'" "view e' ([] @ r)" "map snd r = ls @ [t]"
    using read_lines [of "vedit_init e" "[]" ls t] i assms(3) by auto
  show ?thesis using e' insert_to_fp_view [of e' r] assms(2) by (auto simp: read_file_def)
qed

definition no_text :: editor where
  "no_text = (on_lines [] 0 0)\<lparr>lines := (\<lambda>_. None)\<rparr>"

theorem read_then_write_witness:
  "\<exists>e' r. read_file (Some (file_of [''ab'', '''', ''c''] [])) no_text = Some (e', 0) \<and> view e' r \<and>
     map snd r = [''ab'', '''', ''c'', ''''] \<and> insert_to_fp e' = Some (''ab'' @ LF # ''c'' @ [LF])"
  using read_then_write [of no_text "[''ab'', '''', ''c'']" "[]"]
  by (auto simp: no_text_def on_lines_def fresh_ok_def plain_def isprint2_def cval_def written_def)

end
