(* ===== verification/EditKeys.thy ===== *)
theory EditKeys
  imports TextEdit
begin

text \<open>
  The keys of the editor (\<open>vedit_key\<close> in src/edit.c) and the marking of a block of lines.  A key is
  the code \<open>igetkey\<close> returns.  What only draws on the screen is left out; the pointers to the window
  and the flag that asks for a redraw are kept.  A run that ends in \<open>abort_bbs\<close> is \<open>None\<close>.
\<close>

abbreviation (input) CR :: char where "CR \<equiv> CHR 0x0D"

definition cur :: "editor \<Rightarrow> textline option" where
  "cur e = lines e (currline e)"

section \<open>Marking\<close>

definition set_mark :: "textline \<Rightarrow> textline" where
  "set_mark l = l\<lparr>tattr := tattr l div 2 * 2 + 1\<rparr>"

definition clear_mark :: "textline \<Rightarrow> textline" where
  "clear_mark l = l\<lparr>tattr := tattr l div 2 * 2\<rparr>"

definition marked :: "textline \<Rightarrow> bool" where
  "marked l \<longleftrightarrow> odd (tattr l)"

partial_function (option) block_loop :: "nat \<Rightarrow> nat \<Rightarrow> nat \<Rightarrow> nat \<Rightarrow> int \<Rightarrow> lheap \<Rightarrow> (lheap \<times> int) option" where
  "block_loop b f p pass_mark fml h =
     (if p = 0 then Some (h, fml)
      else Option.bind (h p) (\<lambda>l.
        if p = b \<or> p = f then block_loop b f (tnext l) (pass_mark + 1) fml (h(p \<mapsto> set_mark l))
        else if pass_mark = 1 then block_loop b f (tnext l) pass_mark fml (h(p \<mapsto> set_mark l))
        else block_loop b f (tnext l) pass_mark (if pass_mark = 2 then fml else fml + 1) (h(p \<mapsto> clear_mark l))))"

definition mark_block :: "editor \<Rightarrow> (editor \<times> bool) option" where
  "mark_block e0 =
     (let e = e0\<lparr>first_mark_line := 0\<rparr> in
      if mark_begin e = 0 \<and> mark_end e = 0 then Some (e, False)
      else if mark_begin e = mark_end e \<or> mark_end e = 0 then
        do { h \<leftarrow> modify (mark_begin e) set_mark (lines e); Some (e\<lparr>lines := h\<rparr>, True) }
      else if mark_begin e = 0 then
        do { h \<leftarrow> modify (mark_end e) set_mark (lines e); Some (e\<lparr>lines := h\<rparr>, True) }
      else do {
        r \<leftarrow> block_loop (mark_begin e) (mark_end e) (firstline e) 0 0 (lines e);
        Some (e\<lparr>lines := fst r, first_mark_line := snd r\<rparr>, True)
      })"

partial_function (option) unmark_loop :: "nat \<Rightarrow> lheap \<Rightarrow> lheap option" where
  "unmark_loop p h =
     (if p = 0 then Some h
      else Option.bind (h p) (\<lambda>l. unmark_loop (tnext l) (h(p \<mapsto> clear_mark l))))"

text \<open>The actions 0 to 3 of \<open>process_MARK_action\<close>: cancel, begin, end, copy.\<close>

definition mark_cancel :: "editor \<Rightarrow> editor option" where
  "mark_cancel e = do {
     h \<leftarrow> unmark_loop (firstline e) (lines e);
     Some (e\<lparr>lines := h, mark_on := False, mark_begin := 0, mark_end := 0\<rparr>)
   }"

definition mark_end_point :: "bool \<Rightarrow> editor \<Rightarrow> editor option" where
  "mark_end_point is_begin e = do {
     r \<leftarrow> mark_block (if is_begin then e\<lparr>mark_begin := currline e\<rparr> else e\<lparr>mark_end := currline e\<rparr>);
     Some ((fst r)\<lparr>mark_on := snd r\<rparr>)
   }"

partial_function (option) copy_loop :: "nat \<Rightarrow> editor \<Rightarrow> editor option" where
  "copy_loop p e =
     (if p = 0 then Some e
      else Option.bind (lines e p) (\<lambda>l.
        Option.bind
          (if marked l then Option.bind (ve_insert_str (cstr (tdata l)) e) (\<lambda>e1. split_line (currline e1) (currpnt e1) e1)
           else Some e)
          (\<lambda>e2. Option.bind (lines e2 p) (\<lambda>l2. copy_loop (tnext l2) e2))))"

definition mark_copy :: "editor \<Rightarrow> editor option" where
  "mark_copy e = do {
     l \<leftarrow> cur e;
     if mark_on e \<and> \<not> marked l then copy_loop (firstline e) e else Some e
   }"

definition process_MARK_action :: "char \<Rightarrow> editor \<Rightarrow> editor option" where
  "process_MARK_action arg e = map_option (\<lambda>e1. e1\<lparr>redraw_everything := True\<rparr>)
     (if arg = CHR ''0'' then mark_cancel e
      else if arg = CHR ''1'' then mark_end_point True e
      else if arg = CHR ''2'' then mark_end_point False e
      else if arg = CHR ''3'' then mark_copy e
      else Some e)"

section \<open>Moving the cursor\<close>

text \<open>\<open>forward_line2\<close>: its result, and the count it leaves in \<open>moveln\<close>.\<close>

definition forward_line2 :: "lheap \<Rightarrow> nat \<Rightarrow> int \<Rightarrow> (int \<times> nat) option" where
  "forward_line2 h pos num = do {
     r \<leftarrow> forward_line h pos (nat num) 0;
     let num' = (if 0 < num then 0 else num) - 1;
     Some (if 0 < num' then (0, 0) else (1, snd r))
   }"

definition key_left :: "editor \<Rightarrow> editor option" where
  "key_left e =
     (if 0 < currpnt e then Some (e\<lparr>currpnt := currpnt e - 1\<rparr>)
      else do {
        l \<leftarrow> cur e;
        if tprev l \<noteq> 0 then do {
          q \<leftarrow> lines e (tprev l);
          Some (e\<lparr>curr_window_line := curr_window_line e - 1, currln := currln e - 1,
                  currline := tprev l, currpnt := tlen q\<rparr>)
        } else Some e
      })"

text \<open>Down to the next line, and back again from the line of origin.\<close>

definition step_down :: "textline \<Rightarrow> editor \<Rightarrow> editor option" where
  "step_down l e = do {
     o1 \<leftarrow> Origin e (tnext l);
     if o1 then do { q \<leftarrow> lines e (tnext l); Some (e\<lparr>currline := tprev q\<rparr>) }
     else Some (e\<lparr>curr_window_line := curr_window_line e + 1, currln := currln e + 1, currline := tnext l\<rparr>)
   }"

definition key_right :: "editor \<Rightarrow> editor option" where
  "key_right e = do {
     l \<leftarrow> cur e;
     if tlen l \<noteq> currpnt e then Some (e\<lparr>currpnt := currpnt e + 1\<rparr>)
     else if tnext l \<noteq> 0 then step_down l (e\<lparr>currpnt := 0\<rparr>)
     else Some e
   }"

definition fit_indent :: "editor \<Rightarrow> editor option" where
  "fit_indent e = do {
     l \<leftarrow> cur e;
     Some (e\<lparr>currpnt := (if lastindent e < int (tlen l) then nat (lastindent e) else tlen l)\<rparr>)
   }"

definition key_up :: "editor \<Rightarrow> editor option" where
  "key_up e = do {
     l \<leftarrow> cur e;
     if tprev l \<noteq> 0 then
       fit_indent (e\<lparr>currln := currln e - 1, curr_window_line := curr_window_line e - 1, currline := tprev l\<rparr>)
     else Some e
   }"

definition key_down :: "editor \<Rightarrow> editor option" where
  "key_down e = do {
     l \<leftarrow> cur e;
     if tnext l \<noteq> 0 then do { e1 \<leftarrow> step_down l e; fit_indent e1 } else Some e
   }"

definition fit_line :: "editor \<Rightarrow> editor option" where
  "fit_line e = do { l \<leftarrow> cur e; Some (if tlen l < currpnt e then e\<lparr>currpnt := tlen l\<rparr> else e) }"

definition key_pgup :: "editor \<Rightarrow> editor option" where
  "key_pgup e = do {
     r1 \<leftarrow> back_line (lines e) (top_of_win e) (nat (t_lines e - 2)) 0;
     r2 \<leftarrow> back_line (lines e) (currline e) (nat (t_lines e - 2)) 0;
     let e1 = e\<lparr>top_of_win := fst r1, currline := fst r2, moveln := snd r2, currln := currln e - int (snd r2)\<rparr>;
     n \<leftarrow> getlineno e1;
     e2 \<leftarrow> fit_line (e1\<lparr>curr_window_line := int n\<rparr>);
     Some (e2\<lparr>redraw_everything := True\<rparr>)
   }"

definition key_pgdn :: "editor \<Rightarrow> editor option" where
  "key_pgdn e = do {
     f \<leftarrow> forward_line2 (lines e) (top_of_win e) (t_lines e - 2);
     if fst f = 0 then Some (e\<lparr>moveln := snd f\<rparr>)
     else do {
       r \<leftarrow> forward_line (lines e) (currline e) (nat (t_lines e - 2)) 0;
       let e1 = e\<lparr>currline := fst r, moveln := snd r, currln := currln e + int (snd r)\<rparr>;
       n \<leftarrow> getlineno e1;
       e2 \<leftarrow> fit_line (e1\<lparr>curr_window_line := int n\<rparr>);
       l \<leftarrow> cur e2;
       o1 \<leftarrow> Origin e2 (tprev l);
       e3 \<leftarrow> (if o1 then do {
                q \<leftarrow> lines e2 (tprev l);
                la \<leftarrow> lines e2 (lastline e2);
                lp \<leftarrow> lines e2 (tprev la);
                Some (e2\<lparr>currln := currln e2 - 2, curr_window_line := 0, currline := tprev q, top_of_win := tprev lp\<rparr>)
              } else Some e2);
       o2 \<leftarrow> Origin e3 (currline e3);
       e4 \<leftarrow> (if o2 then do {
                q \<leftarrow> cur e3;
                Some (e3\<lparr>currln := currln e3 - 1, curr_window_line := curr_window_line e3 - 1, currline := tprev q\<rparr>)
              } else Some e3);
       Some (e4\<lparr>redraw_everything := True\<rparr>)
     }
   }"

definition key_start :: "editor \<Rightarrow> editor" where
  "key_start e = e\<lparr>top_of_win := firstline e, currline := firstline e, currpnt := 0, curr_window_line := 0,
                   currln := 0, redraw_everything := True\<rparr>"

definition key_tail :: "editor \<Rightarrow> editor option" where
  "key_tail e = do {
     r \<leftarrow> back_line (lines e) (lastline e) (nat (t_lines e - 2)) 0;
     m \<leftarrow> countline e;
     let e1 = e\<lparr>top_of_win := fst r, moveln := m, currln := int m, currline := lastline e\<rparr>;
     n \<leftarrow> getlineno e1;
     let e2 = e1\<lparr>curr_window_line := int n, currpnt := 0\<rparr>;
     l \<leftarrow> cur e2;
     o1 \<leftarrow> Origin e2 (tprev l);
     e3 \<leftarrow> (if o1 then do {
              q \<leftarrow> lines e2 (tprev l);
              Some (e2\<lparr>currline := tprev q, currln := currln e2 - 2, curr_window_line := curr_window_line e2 - 2\<rparr>)
            } else Some e2);
     Some (e3\<lparr>redraw_everything := True\<rparr>)
   }"

section \<open>Deleting\<close>

text \<open>\<open>while (!join(p))\<close>, where running off the list ends the program.\<close>

partial_function (option) join_loop :: "nat \<Rightarrow> editor \<Rightarrow> editor option" where
  "join_loop p e =
     Option.bind (join p e) (\<lambda>r.
       if snd r then Some (fst r)
       else Option.bind (lines (fst r) p) (\<lambda>l.
         if tnext l = 0 then None else join_loop (tnext l) (fst r)))"

fun killsp :: "string \<Rightarrow> string" where
  "killsp [] = []"
| "killsp (c # s) = (if c = CHR '' '' then killsp s else c # s)"

definition key_backspace :: "editor \<Rightarrow> editor option" where
  "key_backspace e =
     (if currpnt e = 0 then do {
        l \<leftarrow> cur e;
        if tprev l = 0 then Some e
        else do {
          q \<leftarrow> lines e (tprev l);
          let e1 = e\<lparr>currln := currln e - 1, curr_window_line := curr_window_line e - 1, currline := tprev l, currpnt := tlen q\<rparr>;
          let e2 = (if curr_window_line e1 < 0 then e1\<lparr>top_of_win := currline e1, curr_window_line := 0\<rparr> else e1);
          n \<leftarrow> lines e2 (tnext q);
          e3 \<leftarrow> (if killsp (cstr (tdata n)) = [] then delete_line (tnext q) e2 else join_loop (currline e2) e2);
          Some (e3\<lparr>redraw_everything := True\<rparr>)
        }
      }
      else delete_char (e\<lparr>currpnt := currpnt e - 1\<rparr>))"

text \<open>
  The bodies of the keys that call \<open>vedit_key\<close> again: the state, and whether the other key
  follows (\<open>Ctrl-K\<close> after \<open>Ctrl-Y\<close> and after \<open>Ctrl-D\<close> at the line of origin, \<open>Ctrl-Y\<close> after \<open>Ctrl-K\<close>).
\<close>

definition del_body :: "editor \<Rightarrow> (editor \<times> bool) option" where
  "del_body e = do {
     l \<leftarrow> cur e;
     if tlen l = currpnt e then do {
       o1 \<leftarrow> Origin e (tnext l);
       if \<not> o1 then do { e1 \<leftarrow> join_loop (currline e) e; Some (e1\<lparr>redraw_everything := True\<rparr>, False) }
       else if currpnt e = 0 then Some (e, True)
       else Some (e\<lparr>redraw_everything := True\<rparr>, False)
     }
     else do { e1 \<leftarrow> delete_char e; Some (e1, False) }
   }"

definition yank_body :: "editor \<Rightarrow> (editor \<times> bool) option" where
  "yank_body e0 = do {
     let e = e0\<lparr>currpnt := 0\<rparr>;
     l \<leftarrow> cur e;
     o1 \<leftarrow> Origin e (tnext l);
     if tnext l \<noteq> 0 \<and> o1 \<and> tprev l = 0 \<or> tnext l = 0 \<and> tprev l = 0 then do {
       d \<leftarrow> poke (tdata l) 0 NUL;
       Some (set_line (currline e) (l\<lparr>tdata := d, tlen := 0\<rparr>) e, False)
     }
     else Some (set_line (currline e) (l\<lparr>tlen := 0\<rparr>) e, True)
   }"

text \<open>\<open>Ctrl-K\<close> on an empty line: the line goes away.\<close>

definition kill_empty :: "textline \<Rightarrow> editor \<Rightarrow> editor option" where
  "kill_empty l e =
     (let e1 = (if tnext l = 0 then
                  e\<lparr>curr_window_line := (if 0 < curr_window_line e then curr_window_line e - 1 else curr_window_line e),
                    currln := currln e - 1\<rparr>
                else e);
          p = (if tnext l = 0 then tprev l else tnext l);
          e2 = (if currline e1 = top_of_win e1 then e1\<lparr>top_of_win := p\<rparr> else e1)
      in do {
        e3 \<leftarrow> delete_line (currline e2) e2;
        let e4 = e3\<lparr>currline := p\<rparr>;
        o1 \<leftarrow> Origin e4 p;
        e5 \<leftarrow> (if o1 then do {
                 q \<leftarrow> cur e4;
                 Some (e4\<lparr>currline := tprev q, curr_window_line := curr_window_line e4 - 1, currln := currln e4 - 1\<rparr>)
               } else Some e4);
        Some (e5\<lparr>redraw_everything := True\<rparr>)
      })"

definition kill_body :: "editor \<Rightarrow> (editor \<times> bool) option" where
  "kill_body e = do {
     l \<leftarrow> cur e;
     if tprev l = 0 \<and> tnext l = 0 then do {
       d \<leftarrow> poke (tdata l) 0 NUL;
       Some ((set_line (currline e) (l\<lparr>tdata := d\<rparr>) e)\<lparr>currpnt := 0\<rparr>, False)
     }
     else do {
       o1 \<leftarrow> Origin e (tnext l);
       if o1 \<and> currpnt e = tlen l \<and> currpnt e \<noteq> 0 then Some (e, False)
       else if o1 \<and> tprev l = 0 then Some (e, True)
       else if tlen l = 0 then do { e1 \<leftarrow> kill_empty l e; Some (e1, False) }
       else if tlen l = currpnt e then do {
         e1 \<leftarrow> join_loop (currline e) e;
         Some (e1\<lparr>redraw_everything := True\<rparr>, False)
       }
       else do {
         d \<leftarrow> poke (tdata l) (currpnt e) NUL;
         Some (set_line (currline e) (l\<lparr>tlen := currpnt e, tdata := d\<rparr>) e, False)
       }
     }
   }"

section \<open>One key\<close>

definition key_prologue :: "nat \<Rightarrow> editor \<Rightarrow> (editor \<times> bool) option" where
  "key_prologue ch e = do {
     l \<leftarrow> cur e;
     Some (e\<lparr>lastindent :=
              (if ch \<in> {Ctrl (CHR ''P''), KEY_UP, Ctrl (CHR ''N''), KEY_DOWN} then
                 if lastindent e = -1 then int (currpnt e) else lastindent e
               else -1)\<rparr>,
           editansi e \<and> KEY_ESC \<in> set (cstr (tdata l)))
   }"

text \<open>Keeping the cursor inside the window: at most one line up, as many lines down as needed.\<close>

fun scroll_down :: "nat \<Rightarrow> editor \<Rightarrow> editor option" where
  "scroll_down 0 e = Some e"
| "scroll_down (Suc k) e = do {
     t \<leftarrow> lines e (top_of_win e);
     scroll_down k (e\<lparr>curr_window_line := curr_window_line e - 1,
                      top_of_win := (if tnext t = 0 then top_of_win e else tnext t)\<rparr>)
   }"

definition key_epilogue :: "editor \<Rightarrow> editor option" where
  "key_epilogue e0 = do {
     e1 \<leftarrow> (if curr_window_line e0 < 0 then do {
              t \<leftarrow> lines e0 (top_of_win e0);
              Some (e0\<lparr>curr_window_line := 0, top_of_win := (if tprev t = 0 then top_of_win e0 else tprev t)\<rparr>)
            } else Some e0);
     e2 \<leftarrow> (if t_lines e1 - 1 \<le> curr_window_line e1
            then scroll_down (nat (curr_window_line e1 - t_lines e1 + 2)) e1 else Some e1);
     let e3 = (if editansi e2 then e2\<lparr>redraw_everything := True\<rparr> else e2);
     let shift = (if 80 < currpnt e3 + 2 then currpnt e3 div 78 * 78 else 0);
     Some (if shifttmp e3 \<noteq> shift \<or> redraw_everything e3 then e3\<lparr>redraw_everything := True, shifttmp := shift\<rparr>
           else e3\<lparr>redraw_everything := False\<rparr>)
   }"

text \<open>The keys that do not call \<open>vedit_key\<close> again.\<close>

definition simple_key :: "nat \<Rightarrow> bool \<Rightarrow> editor \<Rightarrow> editor option" where
  "simple_key ch no_touch e =
     (if ch = Ctrl (CHR ''I'') then if no_touch then Some e else tab_loop e
      else if ch = cval CR \<or> ch = cval LF then
        if no_touch then Some e else split_line (currline e) (currpnt e) e
      else if ch = Ctrl (CHR ''G'') \<or> ch = Ctrl (CHR ''Q'') then Some (e\<lparr>redraw_everything := True\<rparr>)
      else if ch = Ctrl (CHR ''R'') then Some (e\<lparr>enabledbchar := \<not> enabledbchar e\<rparr>)
      else if ch = KEY_LEFT then key_left e
      else if ch = Ctrl (CHR ''C'') then process_MARK_action (CHR ''3'') e
      else if ch = Ctrl (CHR ''U'') then
        if marknum e = 0 then process_MARK_action (CHR ''1'') (e\<lparr>marknum := 1\<rparr>)
        else process_MARK_action (CHR ''2'') e
      else if ch = Ctrl (CHR ''V'') \<or> ch = KEY_RIGHT then key_right e
      else if ch = Ctrl (CHR ''P'') \<or> ch = KEY_UP then key_up e
      else if ch = Ctrl (CHR ''N'') \<or> ch = KEY_DOWN then key_down e
      else if ch = Ctrl (CHR ''B'') \<or> ch = KEY_PGUP then key_pgup e
      else if ch = Ctrl (CHR ''F'') \<or> ch = KEY_PGDN then key_pgdn e
      else if ch = Ctrl (CHR ''A'') \<or> ch = KEY_HOME then Some (e\<lparr>currpnt := 0\<rparr>)
      else if ch = Ctrl (CHR ''E'') \<or> ch = KEY_END then do { l \<leftarrow> cur e; Some (e\<lparr>currpnt := tlen l\<rparr>) }
      else if ch = Ctrl (CHR ''S'') then Some (key_start e)
      else if ch = Ctrl (CHR ''T'') then key_tail e
      else if ch = Ctrl (CHR ''O'') \<or> ch = KEY_INS then Some (e\<lparr>insert_character := \<not> insert_character e\<rparr>)
      else if ch = Ctrl (CHR ''H'') \<or> ch = 127 then if no_touch then Some e else key_backspace e
      else Some e)"

partial_function (option) vedit_key :: "nat \<Rightarrow> editor \<Rightarrow> editor option" where
  "vedit_key ch e0 =
     Option.bind (key_prologue ch e0) (\<lambda>r.
       Option.bind
         (if ch < 256 \<and> isprint2 (char_of ch) then
            if snd r then Some (fst r) else insert_char (char_of ch) (fst r)
          else if ch = Ctrl (CHR ''Y'') then
            Option.bind (yank_body (fst r)) (\<lambda>q. if snd q then vedit_key (Ctrl (CHR ''K'')) (fst q) else Some (fst q))
          else if ch = Ctrl (CHR ''K'') then
            if snd r then Some (fst r)
            else Option.bind (kill_body (fst r)) (\<lambda>q. if snd q then vedit_key (Ctrl (CHR ''Y'')) (fst q) else Some (fst q))
          else if ch = Ctrl (CHR ''D'') \<or> ch = KEY_DEL then
            if snd r then Some (fst r)
            else Option.bind (del_body (fst r)) (\<lambda>q.
                   if snd q then
                     Option.bind (vedit_key (Ctrl (CHR ''K'')) (fst q)) (\<lambda>e1. Some (e1\<lparr>redraw_everything := True\<rparr>))
                   else Some (fst q))
          else simple_key ch (snd r) (fst r))
         key_epilogue)"

text \<open>The action 4 of \<open>process_MARK_action\<close>: deleting the marked block.\<close>

partial_function (option) mark_delete_loop :: "nat \<Rightarrow> editor \<Rightarrow> editor option" where
  "mark_delete_loop p e =
     (if p = 0 then Some e
      else Option.bind (lines e p) (\<lambda>l.
        if \<not> marked l then mark_delete_loop (tnext l) e
        else Option.bind (vedit_key (Ctrl (CHR ''Y'')) (e\<lparr>currline := p\<rparr>)) (\<lambda>e1.
          Option.bind (cur e1) (\<lambda>l1.
            Option.bind (Origin e1 (tnext l1)) (\<lambda>o1.
              if currline e1 = firstline e1 \<and> (tnext l1 = 0 \<or> o1) then
                Option.bind (if marked l1 then vedit_key (Ctrl (CHR ''Y'')) e1 else Some e1) (\<lambda>e2.
                  Option.bind (lines e2 (currline e1)) (\<lambda>l2. mark_delete_loop (tnext l2) e2))
              else mark_delete_loop (currline e1) e1)))))"

definition mark_delete :: "editor \<Rightarrow> editor option" where
  "mark_delete e =
     (if mark_on e then
        (let first_only = (currline e = firstline e) in do {
           e1 \<leftarrow> mark_delete_loop (firstline e) e;
           e2 \<leftarrow> process_MARK_action (CHR ''0'') e1;
           let e3 = e2\<lparr>marknum := 0\<rparr>;
           if first_only then goline 1 e3
           else (let e4 = (if first_mark_line e3 = 0 then e3\<lparr>first_mark_line := 1\<rparr> else e3)
                 in goline (first_mark_line e4) e4)
         })
      else Some e)"

section \<open>Joining until a line is not full\<close>

text \<open>What the loop around \<open>join\<close> does to the texts of the lines from the current one on.\<close>

fun rejoin :: "string list \<Rightarrow> string list" where
  "rejoin (s # s2 # r) =
     (if length s + length s2 < WRAPMARGIN then (s @ s2) # r
      else let k = carried s s2 in
        if k = 0 then s # s2 # r else (s @ take (Suc k) s2) # rejoin (pad (drop (Suc k) s2) # r))"
| "rejoin r = r"

lemma join_last: "view e (us @ [(x, s)]) \<Longrightarrow> join x e = Some (e, True)"
  using view_at [of e us x s "[]"] by (subst join.simps) auto

lemma pad_short: "length t \<le> 254 \<Longrightarrow> length (pad t) \<le> 254"
  by (simp add: pad_def)

lemma carried_short:
  "0 < carried s s2 \<Longrightarrow> length (s @ take (Suc (carried s s2)) s2) \<le> 254"
  using word_break_space [of s2 "254 - length s"] by (auto simp: carried_def min_def)

lemma rejoin_short: "\<forall>s\<in>set r. length s \<le> 254 \<Longrightarrow> \<forall>s\<in>set (rejoin r). length s \<le> 254"
proof (induction r rule: rejoin.induct)
  case (1 s s2 r)
  then show ?case using carried_short [of s s2] pad_short [of "drop (Suc (carried s s2)) s2"]
    by (auto simp: Let_def)
qed auto

lemma join_loop_step:
  assumes "view e (us @ (x, s) # vs)" and "\<forall>t\<in>set (s # map snd vs). length t \<le> 254"
    and "currline e \<notin> fst ` set vs"
  shows "\<exists>e' s' r. join_loop x e = Some e' \<and> view e' (us @ (x, s') # r) \<and>
     s' # map snd r = rejoin (s # map snd vs) \<and> same_place e e'"
  using assms
proof (induction "length vs" arbitrary: e us x s vs)
  case 0
  then show ?case using join_last [of e us x s]
    by (subst join_loop.simps) (auto simp: same_place_def)
next
  case (Suc n)
  obtain y s2 r where vs: "vs = (y, s2) # r" using Suc.hyps(2) by (cases vs) auto
  note v = Suc.prems(1) [unfolded vs]
  have ls: "length s < WRAPMARGIN" and y: "currline e \<noteq> y" and r: "currline e \<notin> fst ` set r"
    using Suc.prems(2,3) vs by auto
  consider (fit) "length s + length s2 < WRAPMARGIN"
    | (stuck) "WRAPMARGIN \<le> length s + length s2" "carried s s2 = 0"
    | (carry) "WRAPMARGIN \<le> length s + length s2" "0 < carried s s2" by linarith
  then show ?case
  proof cases
    case fit
    then show ?thesis using join_fit_step [OF v fit] vs same_cursor_place
      by (subst join_loop.simps) auto
  next
    case stuck
    then show ?thesis using join_overflow_step(1) [OF v stuck(1) ls refl] v vs
      by (subst join_loop.simps) (auto simp: same_place_def)
  next
    case carry
    let ?k = "carried s s2"
    obtain e1 m where e1: "join x e = Some (e1, False)" "same_modes e e1"
        "view e1 (us @ (x, s @ take (Suc ?k) s2) # (m, pad (drop (Suc ?k) s2)) # r)"
        "same_place e e1"
      using join_overflow_step(2) [OF v carry(1) ls refl carry(2)] y by auto
    obtain l where l: "lines e1 x = Some l" "tnext l = m" using view_at [OF e1(3)] by auto
    have m: "m \<noteq> 0" using view_mem [OF e1(3), of m] by auto
    let ?us = "us @ [(x, s @ take (Suc ?k) s2)]"
    have "\<exists>e' s' r'. join_loop m e1 = Some e' \<and> view e' (?us @ (m, s') # r') \<and>
        s' # map snd r' = rejoin (pad (drop (Suc ?k) s2) # map snd r) \<and> same_place e1 e'"
    proof (rule Suc.hyps(1))
      show "n = length r" using Suc.hyps(2) vs by simp
      show "view e1 (?us @ (m, pad (drop (Suc ?k) s2)) # r)" using e1(3) by simp
      show "\<forall>t\<in>set (pad (drop (Suc ?k) s2) # map snd r). length t \<le> 254"
        using Suc.prems(2) vs pad_short [of "drop (Suc ?k) s2"] by auto
      show "currline e1 \<notin> fst ` set r" using e1(4) r by (simp add: same_place_def)
    qed
    then obtain e' s' r' where e': "join_loop m e1 = Some e'" "view e' (?us @ (m, s') # r')"
        "s' # map snd r' = rejoin (pad (drop (Suc ?k) s2) # map snd r)" "same_place e1 e'" by blast
    have "join_loop x e = Some e'" using e1(1) l m e'(1) by (subst join_loop.simps) simp
    moreover have "same_place e e'" using same_place_trans [OF e1(4) e'(4)] .
    moreover have "(s @ take (Suc ?k) s2) # map snd ((m, s') # r') = rejoin (s # map snd vs)"
      using carry e'(3) vs by (simp add: Let_def)
    ultimately show ?thesis using e'(2) by (metis append.assoc append_Cons append_Nil)
  qed
qed

section \<open>Keys as changes of the text\<close>

lemma CR_LF_codes [simp]: "cval CR = 13" "cval LF = 10"
  by (simp_all add: cval_def)

lemma isprint2_code: "(n::nat) < 256 \<Longrightarrow> isprint2 (char_of n) \<longleftrightarrow> 32 \<le> n \<and> n \<noteq> 127"
  by (simp add: isprint2_def)

text \<open>The cursor is in the window; the colours are not shown while editing.\<close>

definition in_window :: "editor \<Rightarrow> bool" where
  "in_window e \<longleftrightarrow> 0 \<le> curr_window_line e \<and> curr_window_line e < t_lines e - 1 \<and> \<not> editansi e"

lemma epilogue_in_window:
  "in_window e \<Longrightarrow> \<exists>e'. key_epilogue e = Some e' \<and> lines e' = lines e \<and> (\<forall>r. view e' r = view e r) \<and> same_place e e'"
  by (auto simp: key_epilogue_def in_window_def Let_def same_place_def same_modes_def view_def fresh_ok_def)

lemma prologue_view:
  assumes "view e (us @ (x, s) # vs)" and "currline e = x" and "\<not> editansi e"
  shows "\<exists>e'. key_prologue ch e = Some (e', False) \<and> lines e' = lines e \<and> (\<forall>r. view e' r = view e r) \<and> same_place e e'"
  using view_at [OF assms(1)] assms(2,3)
  by (auto simp: key_prologue_def cur_def same_place_def same_modes_def view_def fresh_ok_def)

lemma same_place_view: "same_place e e' \<Longrightarrow> in_window e' = in_window e"
  by (simp add: same_place_def same_modes_def in_window_def)

definition kept_text :: "string \<Rightarrow> string list \<Rightarrow> string list" where
  "kept_text s0 r = (if killsp (hd r) = [] then s0 # tl r else rejoin (s0 # r))"

lemma view_snoc: "view e (us @ a # b # vs) = view e ((us @ [a]) @ b # vs)"
  by simp

lemma backspace_step:
  assumes v: "view e (us @ (y, s0) # (x, s) # vs)" and x: "currline e = x" "currpnt e = 0" and win: "in_window e"
    and short: "\<forall>t\<in>set (s0 # s # map snd vs). length t \<le> 254"
  shows "\<exists>e' s' r. key_backspace e = Some e' \<and> view e' (us @ (y, s') # r) \<and>
     s' # map snd r = kept_text s0 (s # map snd vs) \<and> currline e' = y \<and> currpnt e' = length s0 \<and>
     in_window e' \<and> same_modes e e'"
proof -
  obtain l where l: "lines e x = Some l" "tprev l = y" "text_of l s"
    using view_at [of e "us @ [(y, s0)]" x s vs] v by auto
  obtain q where q: "lines e y = Some q" "tnext q = x" "text_of q s0" using view_at [OF v] by auto
  have y: "y \<noteq> 0" using view_mem [OF v, of y] by auto
  let ?e1 = "e\<lparr>currln := currln e - 1, curr_window_line := curr_window_line e - 1, currline := y, currpnt := length s0\<rparr>"
  define e2 where "e2 = (if curr_window_line ?e1 < 0 then ?e1\<lparr>top_of_win := currline ?e1, curr_window_line := 0\<rparr> else ?e1)"
  have e2: "view e2 (us @ (y, s0) # (x, s) # vs)" "currline e2 = y" "currpnt e2 = length s0" "in_window e2"
      "same_modes e e2" "lines e2 = lines e"
    using v win by (auto simp: e2_def in_window_def same_modes_def)
  have step: "key_backspace e = Option.bind (if killsp s = [] then delete_line x e2 else join_loop y e2)
      (\<lambda>e3. Some (e3\<lparr>redraw_everything := True\<rparr>))"
    using x l q y text_ofD [OF l(3)] text_ofD [OF q(3)]
    by (auto simp: key_backspace_def cur_def Let_def e2_def)
  have finish: "?thesis" if j: "(if killsp s = [] then delete_line x e2 else join_loop y e2) = Some e3"
      "view e3 (us @ (y, s') # r)" "s' # map snd r = kept_text s0 (s # map snd vs)" "same_place e2 e3" for e3 s' r
    using that e2(2-5) step same_place_view [OF that(4)]
    by (intro exI [of _ "e3\<lparr>redraw_everything := True\<rparr>"] exI [of _ s'] exI [of _ r])
       (auto simp: same_place_def same_modes_def in_window_def)
  show ?thesis
  proof (cases "killsp s = []")
    case True
    obtain e3 where e3: "delete_line x e2 = Some e3" "view e3 (us @ (y, s0) # vs)" "same_cursor e2 e3"
      using delete_line_view [of e2 "us @ [(y, s0)]" x s vs] e2(1) by auto
    show ?thesis
      by (rule finish [of e3 s0 vs]) (use True e3 same_cursor_place in \<open>auto simp: kept_text_def\<close>)
  next
    case False
    have "currline e2 \<notin> fst ` set ((x, s) # vs)" using viewD(2) [OF v] e2(2) by auto
    then obtain e3 s' r where e3: "join_loop y e2 = Some e3" "view e3 (us @ (y, s') # r)"
        "s' # map snd r = rejoin (s0 # map snd ((x, s) # vs))" "same_place e2 e3"
      using join_loop_step [OF e2(1)] short by auto
    show ?thesis
      by (rule finish [OF _ e3(2) _ e3(4)]) (use False e3 in \<open>auto simp: kept_text_def\<close>)
  qed
qed

lemma vedit_simple:
  assumes "ch < 32 \<or> ch = 127 \<or> 256 \<le> ch" and "ch \<notin> {25, 11, 4, KEY_DEL}"
  shows "vedit_key ch e = Option.bind (key_prologue ch e) (\<lambda>r. Option.bind (simple_key ch (snd r) (fst r)) key_epilogue)"
  using assms by (subst vedit_key.simps) (auto simp: isprint2_code)

text \<open>A key whose body leads to a state in the window.\<close>

lemma vedit_simple_step:
  assumes "ch < 32 \<or> ch = 127 \<or> 256 \<le> ch" and "ch \<notin> {25, 11, 4, KEY_DEL}"
    and "view e (us @ (x, s) # vs)" and "currline e = x" and "in_window e"
    and "\<And>e0. view e0 (us @ (x, s) # vs) \<Longrightarrow> same_place e e0 \<Longrightarrow> in_window e0 \<Longrightarrow>
           \<exists>e1. simple_key ch False e0 = Some e1 \<and> in_window e1 \<and> P e1"
    and "\<And>e1 e2. P e1 \<Longrightarrow> same_place e1 e2 \<Longrightarrow> \<forall>r. view e2 r = view e1 r \<Longrightarrow> P e2"
  shows "\<exists>e'. vedit_key ch e = Some e' \<and> in_window e' \<and> P e'"
proof -
  have "\<not> editansi e" using assms(5) by (simp add: in_window_def)
  then obtain e0 where e0: "key_prologue ch e = Some (e0, False)" "\<forall>r. view e0 r = view e r" "same_place e e0"
    using prologue_view [OF assms(3,4), of ch] by blast
  have w0: "in_window e0" using same_place_view [OF e0(3)] assms(5) by simp
  obtain e1 where e1: "simple_key ch False e0 = Some e1" "in_window e1" "P e1"
    using assms(6) [OF _ e0(3) w0] e0(2) assms(3) by blast
  obtain e2 where e2: "key_epilogue e1 = Some e2" "\<forall>r. view e2 r = view e1 r" "same_place e1 e2"
    using epilogue_in_window [OF e1(2)] by blast
  have "vedit_key ch e = Some e2" using vedit_simple [OF assms(1,2)] e0(1) e1(1) e2(1) by simp
  then show ?thesis using assms(7) [OF e1(3) e2(3,2)] same_place_view [OF e2(3)] e1(2) by blast
qed

lemma backspace_key:
  assumes "view e (us @ (y, s0) # (x, s) # vs)" and "currline e = x" and "currpnt e = 0" and "in_window e"
    and "\<forall>t\<in>set (s0 # s # map snd vs). length t \<le> 254"
  shows "\<exists>e'. vedit_key 8 e = Some e' \<and> in_window e' \<and>
     (\<exists>s' r. view e' (us @ (y, s') # r) \<and> s' # map snd r = kept_text s0 (s # map snd vs) \<and>
       currline e' = y \<and> currpnt e' = length s0)"
proof (rule vedit_simple_step [of 8 e "us @ [(y, s0)]" x s vs])
  fix e0 assume e0: "view e0 ((us @ [(y, s0)]) @ (x, s) # vs)" "same_place e e0" "in_window e0"
  have "simple_key 8 False e0 = key_backspace e0" by (simp add: simple_key_def)
  then show "\<exists>e1. simple_key 8 False e0 = Some e1 \<and> in_window e1 \<and>
      (\<exists>s' r. view e1 (us @ (y, s') # r) \<and> s' # map snd r = kept_text s0 (s # map snd vs) \<and>
        currline e1 = y \<and> currpnt e1 = length s0)"
    using backspace_step [of e0 us y s0 x s vs] e0 assms(2,3,5) by (auto simp: same_place_def)
qed (use assms in \<open>auto simp: same_place_def\<close>)

lemma enter_key:
  assumes "view e (us @ (x, s) # vs)" and "currline e = x" and "currpnt e \<le> length s" and "in_window e"
    and "curr_window_line e + 2 < t_lines e"
  shows "\<exists>e'. vedit_key 13 e = Some e' \<and> in_window e' \<and>
     (\<exists>n. view e' (us @ (x, take (currpnt e) s) # (n, drop (currpnt e) s) # vs) \<and>
       currline e' = n \<and> currpnt e' = 0)"
proof (rule vedit_simple_step [of 13 e us x s vs])
  fix e0 assume e0: "view e0 (us @ (x, s) # vs)" "same_place e e0" "in_window e0"
  have "simple_key 13 False e0 = split_line x (currpnt e) e0"
    using assms(2) e0(2) by (simp add: simple_key_def same_place_def)
  moreover have "in_window e1" if "same_modes e0 e1" "curr_window_line e1 = curr_window_line e0 + 1" for e1
    using that e0(2,3) assms(5) by (auto simp: in_window_def same_place_def same_modes_def)
  ultimately show "\<exists>e1. simple_key 13 False e0 = Some e1 \<and> in_window e1 \<and>
     (\<exists>n. view e1 (us @ (x, take (currpnt e) s) # (n, drop (currpnt e) s) # vs) \<and>
       currline e1 = n \<and> currpnt e1 = 0)"
    using split_view [OF e0(1) assms(3)] e0(2) assms(2) by (auto simp: same_place_def Let_def)
qed (use assms in \<open>auto simp: same_place_def\<close>)

lemma take_drop_rejoin:
  "length s \<le> 254 \<Longrightarrow> killsp (drop c s) \<noteq> [] \<Longrightarrow> kept_text (take c s) (drop c s # r) = s # r"
proof -
  assume "length s \<le> 254" "killsp (drop c s) \<noteq> []"
  moreover have "length (take c s) + length (drop c s) = length s" by (metis append_take_drop_id length_append)
  ultimately show ?thesis by (simp add: kept_text_def del: length_take length_drop)
qed

lemma enter_backspace_keys:
  assumes "view e (us @ (x, s) # vs)" and "currline e = x" and "currpnt e \<le> length s" and "in_window e"
    and "curr_window_line e + 2 < t_lines e" and "\<forall>t\<in>set (s # map snd vs). length t \<le> 254"
    and "killsp (drop (currpnt e) s) \<noteq> []"
  shows "\<exists>e1 e2. vedit_key 13 e = Some e1 \<and> vedit_key 8 e1 = Some e2 \<and> currline e2 = x \<and> currpnt e2 = currpnt e \<and>
     (\<exists>r. view e2 (us @ (x, s) # r) \<and> map snd r = map snd vs)"
proof -
  obtain e1 n where e1: "vedit_key 13 e = Some e1" "in_window e1" "currline e1 = n" "currpnt e1 = 0"
      "view e1 (us @ (x, take (currpnt e) s) # (n, drop (currpnt e) s) # vs)"
    using enter_key [OF assms(1-5)] by blast
  have short: "\<forall>t\<in>set (take (currpnt e) s # drop (currpnt e) s # map snd vs). length t \<le> 254"
    using assms(6) by auto
  obtain e2 s' r where e2: "vedit_key 8 e1 = Some e2" "view e2 (us @ (x, s') # r)"
      "s' # map snd r = kept_text (take (currpnt e) s) (drop (currpnt e) s # map snd vs)"
      "currline e2 = x" "currpnt e2 = length (take (currpnt e) s)"
    using backspace_key [OF e1(5,3,4,2) short] by blast
  then show ?thesis using e1(1) assms(3) take_drop_rejoin [OF _ assms(7), of "map snd vs"] assms(6)
    by (auto simp: min_absorb2)
qed

text \<open>\<open>Ctrl-K\<close>, by the place of the cursor.\<close>

lemma vedit_K:
  assumes "view e (us @ (x, s) # vs)" and "currline e = x" and "in_window e" and "origin e = None"
    and "\<And>e0. view e0 (us @ (x, s) # vs) \<Longrightarrow> same_place e e0 \<Longrightarrow> lines e0 = lines e \<Longrightarrow>
           \<exists>e1. kill_body e0 = Some (e1, False) \<and> in_window e1 \<and> P e1"
    and "\<And>e1 e2. P e1 \<Longrightarrow> same_place e1 e2 \<Longrightarrow> \<forall>r. view e2 r = view e1 r \<Longrightarrow> lines e2 = lines e1 \<Longrightarrow> P e2"
  shows "\<exists>e'. vedit_key 11 e = Some e' \<and> P e'"
proof -
  have "\<not> editansi e" using assms(3) by (simp add: in_window_def)
  then obtain e0 where e0: "key_prologue 11 e = Some (e0, False)" "\<forall>r. view e0 r = view e r" "same_place e e0"
      "lines e0 = lines e"
    using prologue_view [OF assms(1,2), of 11] by blast
  obtain e1 where e1: "kill_body e0 = Some (e1, False)" "in_window e1" "P e1"
    using assms(5) [OF _ e0(3,4)] e0(2) assms(1) by blast
  obtain e2 where e2: "key_epilogue e1 = Some e2" "\<forall>r. view e2 r = view e1 r" "same_place e1 e2" "lines e2 = lines e1"
    using epilogue_in_window [OF e1(2)] by blast
  have "vedit_key 11 e = Some e2"
    by (subst vedit_key.simps) (simp add: isprint2_code e0(1) e1(1) e2(1))
  then show ?thesis using assms(6) [OF e1(3) e2(3,2,4)] by blast
qed

text \<open>
  The line is empty for everything that reads it as a string, but its length is the old one: what is
  typed at its end stays behind the terminating zero.
\<close>

definition dead_line :: "editor \<Rightarrow> nat \<Rightarrow> nat \<Rightarrow> bool" where
  "dead_line e x n \<longleftrightarrow> (\<exists>l. lines e x = Some l \<and> tdata l ! 0 = NUL \<and> length (tdata l) = 256 \<and> tlen l = n)"

lemma kill_single_line:
  assumes "view e [(x, s)]" and "currline e = x" and "in_window e" and "origin e = None"
  shows "\<exists>e'. vedit_key 11 e = Some e' \<and>
     dead_line e' x (length s) \<and> currline e' = x \<and> currpnt e' = 0 \<and> in_window e'"
proof (rule vedit_K [of e "[]" x s "[]"])
  fix e0 assume e0: "view e0 ([] @ [(x, s)])" "same_place e e0"
  obtain l where l: "lines e0 x = Some l" "tprev l = 0" "tnext l = 0" "text_of l s"
    using view_at [of e0 "[]" x s "[]"] e0(1) by auto
  note l' = text_ofD [OF l(4)]
  show "\<exists>e1. kill_body e0 = Some (e1, False) \<and> in_window e1 \<and>
     (dead_line e1 x (length s) \<and> currline e1 = x \<and> currpnt e1 = 0 \<and> in_window e1)"
    using l l' e0(2) assms(2,3)
    by (auto simp: kill_body_def cur_def poke_def set_line_def dead_line_def same_place_def same_modes_def in_window_def)
qed (use assms in \<open>auto simp: same_place_def same_modes_def in_window_def dead_line_def\<close>)

lemma cstr_hd_NUL: "xs ! 0 = NUL \<Longrightarrow> xs \<noteq> [] \<Longrightarrow> cstr xs = []"
  by (cases xs) (simp_all add: cstr_def)

lemma prologue_alive:
  "lines e (currline e) = Some l \<Longrightarrow> \<not> editansi e \<Longrightarrow>
     \<exists>e0. key_prologue ch e = Some (e0, False) \<and> lines e0 = lines e \<and> same_place e e0"
  by (auto simp: key_prologue_def cur_def same_place_def same_modes_def)

lemma end_key_dead:
  assumes "dead_line e x n" and "currline e = x" and "in_window e"
  shows "\<exists>e'. vedit_key KEY_END e = Some e' \<and> dead_line e' x n \<and> currline e' = x \<and> currpnt e' = n \<and> in_window e' \<and> same_modes e e'"
proof -
  obtain l where l: "lines e x = Some l" "tlen l = n" using assms(1) by (auto simp: dead_line_def)
  then obtain e0 where e0: "key_prologue KEY_END e = Some (e0, False)" "lines e0 = lines e" "same_place e e0"
    using prologue_alive [of e l KEY_END] assms(2,3) by (auto simp: in_window_def)
  let ?e1 = "e0\<lparr>currpnt := n\<rparr>"
  have "simple_key KEY_END False e0 = Some ?e1"
    using e0(2,3) l assms(2) by (simp add: simple_key_def cur_def same_place_def)
  moreover have "in_window ?e1" using same_place_view [OF e0(3)] assms(3) by (simp add: in_window_def)
  then obtain e2 where "key_epilogue ?e1 = Some e2" "lines e2 = lines ?e1" "same_place ?e1 e2" "in_window e2"
    using epilogue_in_window [of ?e1] same_place_view by blast
  ultimately show ?thesis using e0 assms(1,2) vedit_simple [of KEY_END e]
    by (auto simp: dead_line_def same_place_def same_modes_def)
qed

lemma put_char_dead:
  assumes "dead_line e x n" and "lines e x = Some l" and "currpnt e = n" and "0 < n" and "n < 254"
  shows "\<exists>l1. put_char ch e l = Some l1 \<and> tdata l1 ! 0 = NUL \<and> length (tdata l1) = 256 \<and> tlen l1 = n + 1"
proof -
  have l: "tdata l ! 0 = NUL" "length (tdata l) = 256" "tlen l = n" using assms(1,2) by (auto simp: dead_line_def)
  let ?d = "(memmove (tdata l) (n + 1) n 1)[n := ch]"
  have "length ?d = 256" using l assms(5) by simp
  moreover have "?d ! 0 = NUL" using l assms(4,5) by (simp add: memmove_def nth_append)
  ultimately show ?thesis using l assms(3,5) by (simp add: put_char_def poke_def)
qed

lemma type_dead:
  assumes "dead_line e x n" and "currline e = x" and "currpnt e = n" and "0 < n" and "n < 254" and "in_window e"
    and "ch < 256" and "isprint2 (char_of ch)"
  shows "\<exists>e'. vedit_key ch e = Some e' \<and> dead_line e' x (n + 1)"
proof -
  obtain l where l: "lines e x = Some l" "tlen l = n" using assms(1) by (auto simp: dead_line_def)
  obtain e0 where e0: "key_prologue ch e = Some (e0, False)" "lines e0 = lines e" "same_place e e0"
    using prologue_alive [of e l ch] l assms(2,6) by (auto simp: in_window_def)
  have d0: "dead_line e0 x n" using assms(1) e0(2) by (simp add: dead_line_def)
  obtain l1 where l1: "put_char (char_of ch) e0 l = Some l1" "tdata l1 ! 0 = NUL" "length (tdata l1) = 256" "tlen l1 = n + 1"
    using put_char_dead [OF d0, of l] e0(2,3) l assms(3-5) by (auto simp: same_place_def)
  let ?e1 = "(set_line x l1 e0)\<lparr>currpnt := n + 1\<rparr>"
  have "insert_char (char_of ch) e0 = Some ?e1"
    using e0(2,3) l l1 assms(2,3,5) by (simp add: insert_char_def same_place_def)
  moreover have "in_window ?e1"
    using same_place_view [OF e0(3)] assms(6) by (simp add: in_window_def set_line_def)
  then obtain e2 where "key_epilogue ?e1 = Some e2" "lines e2 = lines ?e1"
    using epilogue_in_window [of ?e1] by blast
  moreover have "dead_line ?e1 x (n + 1)" using l1 by (simp add: dead_line_def set_line_def)
  ultimately show ?thesis using e0(1) assms(7,8)
    by (subst vedit_key.simps) (simp add: dead_line_def)
qed

section \<open>Properties\<close>

text \<open>C22. 
  The loop around \<open>join\<close> that follows a deleted end of line always returns, without running off
  the list, and leaves the lines as \<open>rejoin\<close> says: words move up until a line has room.
\<close>

theorem joining_returns:
  assumes "view e (us @ (x, s) # vs)" and "currline e = x" and "\<forall>t\<in>set (s # map snd vs). length t \<le> 254"
  shows "\<exists>e' r. join_loop x e = Some e' \<and> view e' (us @ r) \<and> map snd r = rejoin (s # map snd vs) \<and>
     currline e' = x \<and> currpnt e' = currpnt e"
proof -
  have "currline e \<notin> fst ` set vs" using viewD(2) [OF assms(1)] assms(2) by auto
  then obtain e' s' r where "join_loop x e = Some e'" "view e' (us @ (x, s') # r)"
      "s' # map snd r = rejoin (s # map snd vs)" "same_place e e'"
    using join_loop_step [OF assms(1,3)] by blast
  then show ?thesis using assms(2)
    by (intro exI [of _ e'] exI [of _ "(x, s') # r"]) (simp add: same_place_def)
qed

theorem joining_returns_witness:
  "\<exists>e' r. join_loop 1 (on_lines [''ab'', ''cd'', ''e''] 1 2) = Some e' \<and> view e' r \<and> map snd r = [''abcd'', ''e''] \<and>
     currline e' = 1 \<and> currpnt e' = 2"
  using joining_returns [of "on_lines [''ab'', ''cd'', ''e''] 1 2" "[]" 1 "''ab''" "[(Suc (Suc 0), ''cd''), (Suc (Suc (Suc 0)), ''e'')]"]
    on_lines_view [of "[''ab'', ''cd'', ''e'']" 1 2]
  by simp

text \<open>C19. 
  The return key followed by the backspace key gives the text and the cursor back, unless only
  spaces stand behind the cursor (the line they made is dropped).
\<close>

theorem enter_then_backspace:
  assumes "view e (us @ (x, s) # vs)" and "currline e = x" and "currpnt e \<le> length s" and "in_window e"
    and "curr_window_line e + 2 < t_lines e" and "\<forall>t\<in>set (s # map snd vs). length t \<le> 254"
    and "killsp (drop (currpnt e) s) \<noteq> []"
  shows "\<exists>e1 e2 r. vedit_key (cval CR) e = Some e1 \<and> vedit_key (Ctrl (CHR ''H'')) e1 = Some e2 \<and>
     view e2 (us @ (x, s) # r) \<and> map snd r = map snd vs \<and> currline e2 = x \<and> currpnt e2 = currpnt e"
  using enter_backspace_keys [OF assms] by auto

theorem enter_then_backspace_witness:
  "\<exists>e1 e2 r. vedit_key (cval CR) (on_lines [''ab'', ''c''] 1 1) = Some e1 \<and> vedit_key (Ctrl (CHR ''H'')) e1 = Some e2 \<and>
     view e2 ((1, ''ab'') # r) \<and> map snd r = [''c''] \<and> currline e2 = 1 \<and> currpnt e2 = 1"
  using enter_then_backspace [of "on_lines [''ab'', ''c''] 1 1" "[]" 1 "''ab''" "[(Suc (Suc 0), ''c'')]"]
    on_lines_view [of "[''ab'', ''c'']" 1 1]
  by (simp add: in_window_def)

text \<open>
  \<open>Ctrl-K\<close> on the only line empties the line but keeps its length: what is typed after the end key
  is stored behind the terminating zero, and the text stays empty.
\<close>

theorem killed_line_swallows:
  assumes "view e [(x, s)]" and "s \<noteq> []" and "length s < 254" and "currline e = x" and "in_window e"
    and "origin e = None" and "ch < 256" and "isprint2 (char_of ch)"
  shows "\<exists>e1 e2 e3 l. vedit_key (Ctrl (CHR ''K'')) e = Some e1 \<and> vedit_key KEY_END e1 = Some e2 \<and>
     vedit_key ch e2 = Some e3 \<and> lines e3 x = Some l \<and> cstr (tdata l) = [] \<and> tlen l = length s + 1"
proof -
  obtain e1 where e1: "vedit_key 11 e = Some e1" "dead_line e1 x (length s)" "currline e1 = x" "in_window e1"
    using kill_single_line [OF assms(1,4,5,6)] by blast
  obtain e2 where e2: "vedit_key KEY_END e1 = Some e2" "dead_line e2 x (length s)" "currline e2 = x"
      "currpnt e2 = length s" "in_window e2"
    using end_key_dead [OF e1(2-4)] by blast
  obtain e3 where e3: "vedit_key ch e2 = Some e3" "dead_line e3 x (length s + 1)"
    using type_dead [OF e2(2-4) _ _ e2(5)] assms(2,3,7,8) by auto
  obtain l where l: "lines e3 x = Some l" "tdata l ! 0 = NUL" "length (tdata l) = 256" "tlen l = length s + 1"
    using e3(2) by (auto simp: dead_line_def)
  have "cstr (tdata l) = []" by (rule cstr_hd_NUL [OF l(2)]) (use l(3) in auto)
  then show ?thesis using e1(1) e2(1) e3(1) l by auto
qed

theorem killed_line_swallows_witness:
  "\<exists>e1 e2 e3 l. vedit_key (Ctrl (CHR ''K'')) (on_lines [''abc''] 1 0) = Some e1 \<and> vedit_key KEY_END e1 = Some e2 \<and>
     vedit_key 120 e2 = Some e3 \<and> lines e3 1 = Some l \<and> cstr (tdata l) = [] \<and> tlen l = length ''abcx''"
  using killed_line_swallows [of "on_lines [''abc''] 1 0" 1 "''abc''" 120] on_lines_view [of "[''abc'']" 1 0]
  by (simp add: in_window_def isprint2_code)

text \<open>\<open>forward_line2\<close> reports success wherever the list ends: its counter is below zero when it is tested.\<close>

lemma forward_line2_succeeds: "forward_line2 h pos num = Some r \<Longrightarrow> fst r = 1"
  by (auto simp: forward_line2_def Let_def split: bind_splits if_splits)

end
