(* ===== verification/ChatText.thy ===== *)
theory ChatText
  imports Prelude
begin

text \<open>
  The texts of the chat server (src/station.c), byte for byte: the messages, each a function of the
  arguments of its format, and the three tables of social verbs.  Text in GB 18030 is given by the
  hexadecimal digits of its bytes.
\<close>

definition hex_val :: "char \<Rightarrow> nat" where
  "hex_val c = (if is_digit c then cval c - 48 else cval c - 55)"

fun gb :: "string \<Rightarrow> string" where
  "gb (a # b # s) = char_of (16 * hex_val a + hex_val b) # gb s"
| "gb s = []"

definition esc :: "string \<Rightarrow> string" where
  "esc s = KEY_ESC # s"

section \<open>Messages\<close>

definition msg_not_op :: "string" where
  "msg_not_op = esc ''[1;37m'' @ gb ''A1EF'' @ esc ''[32m'' @ gb ''C4FAB2BBCAC7D5E2CFE1B7BFB5C4C0CFB4F3'' @
     esc ''[37m '' @ gb ''A1EF'' @ esc ''[m''"

definition msg_no_such_id :: "string \<Rightarrow> string" where
  "msg_no_such_id a = esc ''[1;37m'' @ gb ''A1EF'' @ esc ''[32m ['' @ esc ''[36m'' @ a @ esc ''[32m] '' @
     gb ''B2BBD4DAD5E2BCE4CFE1B7BFC0EF'' @ esc ''[37m '' @ gb ''A1EF'' @ esc ''[m''"

definition msg_not_here :: "string \<Rightarrow> string" where
  "msg_not_here a = esc ''[1;37m'' @ gb ''A1EF'' @ '' '' @ esc ''[32m['' @ esc ''[36m'' @ a @
     esc ''[32m] '' @ gb ''B2A2C3BBD3D0C7B0C0B4B1BEBBE1D2E9CCFC'' @ esc ''[37m '' @ gb ''A1EF'' @
     esc ''[m''"

definition t_logout :: "string \<Rightarrow> string" where
  "t_logout a = esc ''[1;37m'' @ gb ''A1EF'' @ '' '' @ esc ''[32m['' @ esc ''[36m'' @ a @ esc ''[32m] '' @
     gb ''C2FDC2FDC0EBBFAAC1CB'' @ '' '' @ esc ''[37m'' @ gb ''A1EF'' @ esc ''[m''"

definition t_lostconn :: "string \<Rightarrow> string" where
  "t_lostconn a = esc ''[1;37m'' @ gb ''A1EF'' @ '' '' @ esc ''[32m['' @ esc ''[36m'' @ a @
     esc ''[32m] '' @ gb ''CFF1B6CFC1CBCFDFB5C4B7E7F3DD'' @ '' ... '' @ esc ''[37m'' @ gb ''A1EF'' @
     esc ''[m''"

definition t_kick :: "string \<Rightarrow> string" where
  "t_kick a = esc ''[1;37m'' @ gb ''A1EF'' @ '' '' @ esc ''[32m['' @ esc ''[36m'' @ a @ esc ''[32m] '' @
     gb ''B1BBC0CFB4F3B8CFB3F6C8A5C1CB'' @ '' '' @ esc ''[37m'' @ gb ''A1EF'' @ esc ''[m''"

definition t_which_name :: "string" where
  "t_which_name = esc ''[1;31m'' @ gb ''A1F2'' @ '' '' @ esc ''[37m'' @
     gb ''C7EBD6B8B6A8D0C2B5C4C1C4CCECCAD2C3FBB3C6'' @ '' '' @ esc ''[31m'' @ gb ''A1F2'' @ esc ''[m''"

definition t_rname :: "string \<Rightarrow> string" where
  "t_rname a = ''/r'' @ take 11 a"

definition t_renamed :: "string \<Rightarrow> string \<Rightarrow> string" where
  "t_renamed a b = esc ''[1;37m'' @ gb ''A1EF'' @ '' '' @ esc ''[32m['' @ esc ''[36m'' @ a @
     esc ''[32m] '' @ gb ''BDABC1C4CCECCAD2C3FBB3C6B8C4CEAA'' @ '' '' @ esc ''[1;33m'' @ take 11 b @
     '' '' @ esc ''[37m'' @ gb ''A1EF'' @ esc ''[m''"

definition t_which_topic :: "string" where
  "t_which_topic = esc ''[1;31m'' @ gb ''A1F2'' @ '' '' @ esc ''[37m'' @ gb ''C7EBD6B8B6A8BBB0CCE2'' @
     '' '' @ esc ''[31m'' @ gb ''A1F2'' @ esc ''[m''"

definition t_topic :: "string \<Rightarrow> string" where
  "t_topic a = ''/t'' @ take 42 a"

definition t_new_topic :: "string \<Rightarrow> string \<Rightarrow> string" where
  "t_new_topic a b = esc ''[1;37m'' @ gb ''A1EF'' @ '' '' @ esc ''[32m['' @ esc ''[36m'' @ a @
     esc ''[32m] '' @ gb ''BDABBBB0CCE2B8C4CEAA'' @ '' '' @ esc ''[1;33m'' @ pad_left 42 (take 42 b) @
     '' '' @ esc ''[37m'' @ gb ''A1EF'' @ esc ''[m''"

definition t_no_new_room :: "string" where
  "t_no_new_room = esc ''[1;31m'' @ gb ''A1F2'' @ '' '' @ esc ''[37m'' @
     gb ''B1A7C7B8A3ACC4FAB2BBC4DCBFAAD0C2B0FCCFE1'' @ '' '' @ esc ''[31m'' @ gb ''A1F2'' @ esc ''[m''"

definition t_rooms_full :: "string" where
  "t_rooms_full = esc ''[1;31m'' @ gb ''A1F2'' @ '' '' @ esc ''[37m'' @
     gb ''CED2C3C7B5C4B7BFBCE4C2FAC1CBE0B8'' @ '' '' @ esc ''[31m'' @ gb ''A1F2'' @ esc ''[m''"

definition t_locked :: "string" where
  "t_locked = esc ''[1;31m'' @ gb ''A1F2'' @ '' '' @ esc ''[37m'' @
     gb ''B1BEB7BFC9CCCCD6BBFAC3DCD6D0A3ACB7C7C7EBCEF0C8EB'' @ '' '' @ esc ''[31m'' @ gb ''A1F2'' @
     esc ''[m''"

definition t_enters :: "string \<Rightarrow> string \<Rightarrow> string" where
  "t_enters a b = esc ''[1;31m'' @ gb ''A1F5'' @ '' '' @ esc ''[37m['' @ esc ''[36;1m'' @ a @
     esc ''[37m] '' @ gb ''BDF8C8EB'' @ '' '' @ esc ''[35m'' @ b @ '' '' @ esc ''[37m'' @ gb ''B0FCCFE1'' @
     '' '' @ esc ''[31m'' @ gb ''A1F5'' @ esc ''[m''"

definition t_room :: "string \<Rightarrow> string" where
  "t_room a = ''/r'' @ a"

definition t_rtopic :: "string \<Rightarrow> string" where
  "t_rtopic a = ''/t'' @ a"

definition t_welcome :: "string \<Rightarrow> string \<Rightarrow> string" where
  "t_welcome a b = esc ''[1;31m'' @ gb ''A1F5'' @ esc ''[37m '' @ gb ''BBB6D3ADB9E2C1D9A1BA'' @
     esc ''[32m'' @ a @ esc ''[37m'' @ gb ''A1BBB5C4A1BE'' @ esc ''[36m'' @ b @ esc ''[37m'' @
     gb ''A1BF'' @ esc ''[31m'' @ gb ''A1F5'' @ esc ''[m''"

definition t_room_count :: "int \<Rightarrow> string" where
  "t_room_count a = esc ''[1;31m'' @ gb ''A1F5'' @ esc ''[37m '' @ gb ''C4BFC7B0D2D1BEADD3D0'' @ '' '' @
     esc ''[1;33m'' @ dec a @ '' '' @ esc ''[37m'' @ gb ''BCE4BBE1D2E9CAD2D3D0BFCDC8CB'' @ '' '' @
     esc ''[31m'' @ gb ''A1F5'' @ esc ''[m''"

definition t_user_count :: "int \<Rightarrow> string" where
  "t_user_count a = esc ''[1;31m'' @ gb ''A1F5'' @ '' '' @ esc ''[37m'' @
     gb ''B1BEBBE1D2E9CCFCC4DAB9B2D3D0'' @ '' '' @ esc ''[36m'' @ dec a @ esc ''[37m '' @ gb ''C8CB'' @
     '' ''"

definition t_secret_count :: "int \<Rightarrow> string" where
  "t_secret_count a = ''['' @ esc ''[36m'' @ dec a @ esc ''[37m '' @
     gb ''C8CBD4DAB8DFBBFAC3DCCCD6C2DBCAD2'' @ '']''"

definition t_count_end :: "string" where
  "t_count_end = esc ''[31m'' @ gb ''A1F5'' @ esc ''[m''"

definition t_no_list :: "string" where
  "t_no_list = esc ''[1;31m'' @ gb ''A1F2'' @ '' '' @ esc ''[37m'' @
     gb ''B1A7C7B8A3A1C0CFB4F3B2BBC8C3C4E3BFB4D3D0C4C4D0A9B7BFBCE4D3D0BFCDC8CB'' @ '' '' @ esc ''[31m'' @
     gb ''A1F2'' @ esc ''[m''"

definition t_rooms_head :: "string" where
  "t_rooms_head = esc ''[1;33;44m '' @ gb ''CCB8CCECCAD2C3FBB3C6'' @ ''  '' @
     gb ''A9A6C8CBCAFDA9A6BBB0CCE2'' @ ''            '' @ esc ''[m''"

definition t_rooms_line :: "string \<Rightarrow> int \<Rightarrow> string \<Rightarrow> string" where
  "t_rooms_line a b c = '' '' @ esc ''[1;32m'' @ pad_right 12 a @ esc ''[37m'' @ gb ''A9A6'' @
     esc ''[36m'' @ pad_left 4 (dec b) @ esc ''[37m'' @ gb ''A9A6'' @ esc ''[33m'' @ c @ esc ''[m''"

definition t_is_locked :: "string" where
  "t_is_locked = '' ['' @ gb ''CBF8D7A1'' @ '']''"

definition t_is_secret :: "string" where
  "t_is_secret = '' ['' @ gb ''BBFAC3DC'' @ '']''"

definition t_is_noemote :: "string" where
  "t_is_noemote = '' ['' @ gb ''BDFBD6B9B6AFD7F7'' @ '']''"

definition t_is_school :: "string" where
  "t_is_school = '' ['' @ gb ''D2BBC8CBCCE1CECA'' @ '']''"

definition t_users_head :: "string" where
  "t_users_head = esc ''[1;33;44m '' @ gb ''C1C4CCECB4FABAC5A9A6CAB9D3C3D5DFB4FABAC5'' @ ''  '' @
     gb ''A9A6C1C4'' @ ''    '' @ gb ''CCEC'' @ ''    '' @ gb ''CAD2A1F5'' @ ''Op'' @ gb ''A1F5C0B4D7D4'' @
     ''                          '' @ esc ''[m''"

definition t_users_line :: "char \<Rightarrow> string \<Rightarrow> string \<Rightarrow> string \<Rightarrow> string \<Rightarrow> string \<Rightarrow> string \<Rightarrow> string" where
  "t_users_line a b c d e f g = esc ''[1;5m'' @ [a] @ esc ''[0;1;37m'' @ pad_right 8 b @ gb ''A9A6'' @
     esc ''[31m'' @ c @ pad_right 12 d @ esc ''[37m'' @ gb ''A9A6'' @ esc ''[32m'' @ pad_right 14 e @
     esc ''[37m'' @ gb ''A1F5'' @ esc ''[34m'' @ pad_right 2 f @ esc ''[37m'' @ gb ''A1F5'' @
     esc ''[35m'' @ pad_right 30 g @ esc ''[m''"

definition t_outsider :: "string" where
  "t_outsider = esc ''[1;35m''"

definition t_insider :: "string" where
  "t_insider = esc ''[1;36m''"

definition t_yes :: "string" where
  "t_yes = gb ''CAC7''"

definition t_no :: "string" where
  "t_no = gb ''B7F1''"

definition t_no_room :: "string \<Rightarrow> string" where
  "t_no_room a = esc ''[1;31m'' @ gb ''A1F2'' @ '' '' @ esc ''[37m'' @ gb ''C3BB'' @ '' '' @ a @ '' '' @
     gb ''D5E2B8F6B7BFBCE4E0B8'' @ '' '' @ esc ''[31m'' @ gb ''A1F2'' @ esc ''[m''"

definition t_no_secrets :: "string" where
  "t_no_secrets = esc ''[1;31m'' @ gb ''A1F2'' @ '' '' @ esc ''[37m'' @
     gb ''B1BEBBE1D2E9CCFCB5C4B7BFBCE4BDD4B9ABBFAAB5C4A3ACC3BBD3D0C3D8C3DC'' @ '' '' @ esc ''[31m'' @
     gb ''A1F2'' @ esc ''[m''"

definition t_who_head :: "string" where
  "t_who_head = esc ''[1;33;44m '' @ gb ''C1C4CCECB4FABAC5'' @ '' '' @ gb ''CAB9D3C3D5DFB4FABAC5'' @
     ''  '' @ gb ''A9A6'' @ '' '' @ gb ''C1C4CCECB4FABAC5'' @ '' '' @ gb ''CAB9D3C3D5DFB4FABAC5'' @
     ''  '' @ gb ''A9A6'' @ '' '' @ gb ''C1C4CCECB4FABAC5'' @ '' '' @ gb ''CAB9D3C3D5DFB4FABAC5'' @ '' '' @
     esc ''[m''"

definition t_who_cell :: "char \<Rightarrow> string \<Rightarrow> char \<Rightarrow> string \<Rightarrow> string \<Rightarrow> string \<Rightarrow> string" where
  "t_who_cell a b c d e f = esc ''[1;34;5m'' @ [a] @ esc ''[m'' @ esc ''[1m'' @ pad_right 8 b @ [c] @ d @
     pad_right 12 e @ f @ esc ''[m''"

definition t_bar :: "string" where
  "t_bar = gb ''A9A6''"

definition t_which_flags :: "string" where
  "t_which_flags = esc ''[1;31m'' @ gb ''A1D1'' @ '' '' @ esc ''[37m'' @
     gb ''C7EBB8E6CBDFB9F1CCA8C4FAD2AAB5C4B7BFBCE4CAC7'' @ '': {['' @ esc ''[32m+'' @ esc ''[37m('' @
     gb ''C9E8B6A8'' @ '')]['' @ esc ''[32m-'' @ esc ''[37m('' @ gb ''C8A1CFFB'' @ '')]}{['' @
     esc ''[32ml'' @ esc ''[37m('' @ gb ''CBF8D7A1'' @ '')]['' @ esc ''[32ms'' @ esc ''[37m('' @
     gb ''C3D8C3DC'' @ '')]}'' @ esc ''[m''"

definition t_lock :: "string" where
  "t_lock = gb ''CBF8D7A1''"

definition t_secret :: "string" where
  "t_secret = gb ''BBFAC3DC''"

definition t_noemote :: "string" where
  "t_noemote = gb ''BDFBD6B9B6AFD7F7''"

definition t_school :: "string" where
  "t_school = gb ''D2BBC8CBCCE1CECA''"

definition t_flag_unknown :: "char \<Rightarrow> string" where
  "t_flag_unknown a = esc ''[1;31m'' @ gb ''A1F2'' @ '' '' @ esc ''[37m'' @
     gb ''B1A7C7B8A3ACBFB4B2BBB6AEC4E3B5C4D2E2CBBCA3BA'' @ ''['' @ esc ''[36m'' @ [a] @ esc ''[37m] '' @
     esc ''[31m'' @ gb ''A1F2'' @ esc ''[m''"

definition t_flag_set :: "string \<Rightarrow> string \<Rightarrow> string \<Rightarrow> string" where
  "t_flag_set a b c = esc ''[1;37m'' @ gb ''A1EF'' @ esc ''[32m '' @ gb ''D5E2B7BFBCE4B1BB'' @ '' '' @ a @
     '' '' @ b @ c @ gb ''B5C4D0CECABD'' @ '' '' @ esc ''[37m'' @ gb ''A1EF'' @ esc ''[m''"

definition t_set :: "string" where
  "t_set = gb ''C9E8B6A8CEAA''"

definition t_unset :: "string" where
  "t_unset = gb ''C8A1CFFB''"

definition t_bad_name :: "string" where
  "t_bad_name = esc ''[1;31m'' @ gb ''A1F2'' @ '' '' @ esc ''[37m'' @
     gb ''C4FAB5C4C3FBD7D6CAC7B2BBCAC7D0B4B4EDC1CB'' @ esc ''[31m '' @ gb ''A1F2'' @ esc ''[m''"

definition t_name_taken :: "string" where
  "t_name_taken = esc ''[1;31m'' @ gb ''A1F2'' @ '' '' @ esc ''[37m'' @
     gb ''B1A7C7B8A3A1D3D0C8CBB8FAC4E3CDACC3FBA3ACCBF9D2D4C4E3B2BBC4DCBDF8C0B4'' @ '' '' @ esc ''[31m'' @
     gb ''A1F2'' @ esc ''[m''"

definition t_nick :: "string \<Rightarrow> string \<Rightarrow> string" where
  "t_nick a b = esc ''[1;31m'' @ gb ''A1F2'' @ '' '' @ esc ''[36m'' @ a @ '' '' @ esc ''[0;37m'' @
     gb ''D2D1BEADB8C4C3FBCEAA'' @ '' '' @ esc ''[1;33m'' @ b @ '' '' @ esc ''[31m'' @ gb ''A1F2'' @
     esc ''[m''"

definition t_nickname :: "string \<Rightarrow> string" where
  "t_nickname a = ''/n'' @ a"

definition t_ambiguous :: "string" where
  "t_ambiguous = esc ''[1;31m '' @ gb ''A1F2'' @ esc ''[37m '' @
     gb ''C4C7CEBBB2CED3EBD5DFBDD0CAB2C3B4C3FBD7D6'' @ '' '' @ esc ''[31m'' @ gb ''A1F2'' @ esc ''[m''"

definition t_no_notes :: "string" where
  "t_no_notes = esc ''[1;31m '' @ gb ''A1F2'' @ esc ''[37m '' @ gb ''B6D4B7BDB9D8B1D5C1CBB1E3BCE3CFE4'' @
     '' '' @ esc ''[31m'' @ gb ''A1F2'' @ esc ''[m''"

definition t_note :: "string \<Rightarrow> string" where
  "t_note a = esc ''[1;32m '' @ gb ''A1F9'' @ '' '' @ esc ''[36m'' @ a @ '' '' @ esc ''[37m'' @
     gb ''B4ABD6BDCCF5D0A1C3D8CAE9C0B4B5BD'' @ esc ''[m: ''"

definition t_note_sent :: "string \<Rightarrow> string" where
  "t_note_sent a = esc ''[1;32m '' @ gb ''A1F9'' @ '' '' @ esc ''[37m'' @
     gb ''D6BDCCF5D2D1BEADBDBBB8F8C1CB'' @ '' '' @ esc ''[36m'' @ a @ esc ''[m: ''"

definition t_note_empty :: "string" where
  "t_note_empty = esc ''[1;31m '' @ gb ''A1F2'' @ esc ''[37m '' @
     gb ''C4E3D2AAB8FAB6D4B7BDCBB5D0A9CAB2C3B4D1BDA3BF'' @ esc ''[31m'' @ gb ''A1F2'' @ esc ''[m''"

definition t_no_emotes :: "string" where
  "t_no_emotes = gb ''B1BEC1C4CCECCAD2BDFBD6B9B6AFD7F7''"

definition t_act :: "string \<Rightarrow> string \<Rightarrow> string" where
  "t_act a b = esc ''[1;36m'' @ a @ '' '' @ esc ''[37m'' @ b @ esc ''[m''"

definition t_cloak :: "string \<Rightarrow> string \<Rightarrow> string" where
  "t_cloak a b = esc ''[1;36m'' @ a @ '' '' @ esc ''[37m'' @ b @ '' '' @ gb ''D2FEC9EDD7B4CCAC'' @
     ''...'' @ esc ''[m''"

definition t_cloak_on :: "string" where
  "t_cloak_on = gb ''BDF8C8EB''"

definition t_cloak_off :: "string" where
  "t_cloak_off = gb ''CDA3D6B9''"

definition t_stay :: "string" where
  "t_stay = esc ''[1;31m'' @ gb ''A1F2'' @ '' '' @ esc ''[37m'' @ gb ''C4E3D6BBC4DCD4DAD5E2C0EFC1C4CCEC'' @
     '' '' @ esc ''[31m'' @ gb ''A1F2'' @ esc ''[m''"

definition t_which_room :: "string" where
  "t_which_room = esc ''[1;31m'' @ gb ''A1F2'' @ '' '' @ esc ''[37m'' @ gb ''C7EBCECAC4C4B8F6B7BFBCE4'' @
     '' '' @ esc ''[31m'' @ gb ''A1F2'' @ esc ''[m''"

definition t_bad_room :: "string" where
  "t_bad_room = esc ''[1;31m'' @ gb ''A1F2'' @ esc ''[37m'' @ gb ''B7BFBCE4C3FBD6D0B2BBC4DCD3D0A1BE'' @
     ''*:/%'' @ gb ''A1BFB5C8B2BBBACFB7A8D7D6B7FB'' @ esc ''[31m'' @ gb ''A1F2'' @ esc ''[37m''"

definition t_op_already :: "string" where
  "t_op_already = esc ''[1;37m'' @ gb ''A1EF'' @ '' '' @ esc ''[32m'' @
     gb ''C4E3CDFCC1CBC4E3B1BEC0B4BECDCAC7C0CFB4F3E0B8'' @ '' '' @ esc ''[37m'' @ gb ''A1EF'' @ esc ''[m''"

definition t_new_op :: "string \<Rightarrow> string \<Rightarrow> string" where
  "t_new_op a b = esc ''[1;37m'' @ gb ''A1EF'' @ '' '' @ esc ''[36m '' @ a @ esc ''[32m'' @
     gb ''BEF6B6A8C8C3'' @ '' '' @ esc ''[35m'' @ b @ '' '' @ esc ''[32m'' @ gb ''B5B1C0CFB4F3'' @ '' '' @
     esc ''[37m'' @ gb ''A1EF'' @ esc ''[m''"

definition t_coming :: "string \<Rightarrow> string" where
  "t_coming a = esc ''[1;37m'' @ gb ''A1EF'' @ '' '' @ esc ''[36m'' @ a @ '' '' @ esc ''[32m'' @
     gb ''B5C8D2BBCFC2BECDC0B4'' @ '' '' @ esc ''[37m'' @ gb ''A1EF'' @ esc ''[m''"

definition t_invites :: "string \<Rightarrow> string \<Rightarrow> string" where
  "t_invites a b = esc ''[1;37m'' @ gb ''A1EF'' @ '' '' @ esc ''[36m'' @ a @ '' '' @ esc ''[32m'' @
     gb ''D1FBC7EBC4FAB5BD'' @ '' ['' @ esc ''[33m'' @ b @ esc ''[32m] '' @ gb ''B7BFBCE4C1C4CCEC'' @
     esc ''[37m '' @ gb ''A1EF'' @ esc ''[m''"

definition t_no_wall :: "string" where
  "t_no_wall = esc ''[1;31m'' @ gb ''A1F2'' @ '' '' @ esc ''[37m'' @
     gb ''C4E3B2BBBFC9D2D4D4DABBE1D2E9CCFCC4DAB4F3C9F9D0FABBA9'' @ '' '' @ esc ''[31m'' @ gb ''A1F2'' @
     esc ''[m''"

definition t_wall_empty :: "string" where
  "t_wall_empty = esc ''[1;37m'' @ gb ''A1EF'' @ '' '' @ esc ''[32m'' @
     gb ''B9E3B2A5C4DAC8DDCAC7CAB2C3B4'' @ '' '' @ esc ''[37m'' @ gb ''A1EF'' @ esc ''[m''"

definition t_wall_head :: "string \<Rightarrow> string" where
  "t_wall_head a = esc ''[1m Ding Dong!! '' @ gb ''B4ABB4EFCAD2B1A8B8E6A3BA'' @ '' '' @ esc ''[36m'' @ a @
     esc ''[37m '' @ gb ''D3D0BBB0B6D4B4F3BCD2D0FBB2BCA3BA'' @ esc ''[m''"

definition t_wall :: "string \<Rightarrow> string" where
  "t_wall a = esc ''[1;34m'' @ gb ''A1BE'' @ esc ''[33m'' @ a @ esc ''[34m'' @ gb ''A1BF'' @ esc ''[m''"

definition t_everybody :: "string" where
  "t_everybody = gb ''B4F3BCD2''"

definition t_which_party :: "string" where
  "t_which_party = esc ''[1;31m'' @ gb ''A1F2'' @ '' '' @ esc ''[37m'' @ gb ''C7EBCECAC4C4BCE4B7BFBCE4'' @
     '' '' @ esc ''[31m'' @ gb ''A1F2'' @ esc ''[m''"

definition t_party :: "string \<Rightarrow> string \<Rightarrow> string \<Rightarrow> string \<Rightarrow> string" where
  "t_party a b c d = esc ''[1;36m'' @ a @ '' '' @ esc ''[32m'' @ b @ esc ''[33m '' @ c @ '' '' @
     esc ''[32m'' @ d @ esc ''[37;0m''"

definition t_demo :: "string" where
  "t_demo = esc ''[1;37m'' @ gb ''B6AFD7F7D1DDCABEA3BA'' @ esc ''[m''"

definition t_speak :: "string \<Rightarrow> string \<Rightarrow> string \<Rightarrow> string" where
  "t_speak a b c = esc ''[1;36m'' @ a @ '' '' @ esc ''[32m'' @ b @ gb ''A3BA'' @ esc ''[33m '' @ c @
     esc ''[37;0m''"

definition t_condition :: "string \<Rightarrow> string \<Rightarrow> string" where
  "t_condition a b = esc ''[1;36m'' @ a @ '' '' @ esc ''[33m'' @ b @ esc ''[37;0m''"

definition t_verbs1 :: "string" where
  "t_verbs1 = esc ''[1m'' @ gb ''A1BE'' @ '' Verb + Nick'' @ gb ''A3BA'' @ ''   '' @ gb ''B6AFB4CA'' @
     '' + '' @ gb ''B6D4B7BDC3FBD7D6'' @ '' '' @ gb ''A1BF'' @ esc ''[m''"

definition t_verbs2 :: "string" where
  "t_verbs2 = esc ''[1m'' @ gb ''A1BE'' @ '' Verb + Message'' @ gb ''A3BAB6AFB4CA'' @ '' + '' @
     gb ''D2AACBB5B5C4BBB0'' @ '' '' @ gb ''A1BF'' @ esc ''[m''"

definition t_verbs3 :: "string" where
  "t_verbs3 = esc ''[1m'' @ gb ''A1BE'' @ '' Verb'' @ gb ''A3BAB6AFB4CA'' @ '' '' @ gb ''A1BF'' @
     esc ''[m''"

definition t_love :: "string" where
  "t_love = gb ''C4E3B0AECED2C0B4CED2B0AEC4E3''"

definition t_help :: "string" where
  "t_help = esc ''[1;37m'' @ gb ''D3C3'' @ '' //help ['' @ gb ''B1E0BAC5'' @ ''] '' @
     gb ''BBF1B5C3B6AFD7F7C1D0B1EDA3ACD3C3'' @ '' //help ['' @ gb ''B6AFD7F7'' @ ''] '' @
     gb ''B9DBBFB4B6AFD7F7CABEB7B6'' @ esc ''[m''"

definition t_help_line :: "int \<Rightarrow> string \<Rightarrow> string" where
  "t_help_line a b = dec a @ ''. '' @ b"

definition t_talk_self :: "string" where
  "t_talk_self = esc ''[1;37m'' @ gb ''A1EF'' @ '' '' @ esc ''[32m'' @
     gb ''C4E3CAC7C0CFB4F3B0A1A3ACD3D0BBB0D6B1BDD3CBB5BECDD0D0C1CB'' @ '' '' @ esc ''[37m'' @ gb ''A1EF'' @
     esc ''[m''"

definition t_talk_on :: "string \<Rightarrow> string \<Rightarrow> string" where
  "t_talk_on a b = esc ''[1;37m'' @ gb ''A1EF'' @ '' '' @ esc ''[36m'' @ a @ '' '' @ esc ''[32m'' @
     gb ''BEF6B6A8B0D1C2F3BFCBB7E7BDBBB8F8'' @ '' '' @ esc ''[35m'' @ b @ '' '' @ esc ''[32m '' @
     esc ''[37m'' @ gb ''A1EF'' @ esc ''[m''"

definition t_talk_off :: "string \<Rightarrow> string \<Rightarrow> string" where
  "t_talk_off a b = esc ''[1;37m'' @ gb ''A1EF'' @ '' '' @ esc ''[36m'' @ a @ '' '' @ esc ''[32m'' @
     gb ''BEF6B6A8C3BBCAD5'' @ '' '' @ esc ''[35m'' @ b @ '' '' @ esc ''[32m'' @ gb ''B5C4C2F3BFCBB7E7'' @
     ''  '' @ esc ''[37m'' @ gb ''A1EF'' @ esc ''[m''"

definition t_no_hand :: "string" where
  "t_no_hand = esc ''[1;31m '' @ gb ''A1F2'' @ esc ''[37m '' @
     gb ''C7EBC4E3B3A9CBF9D3FBD1D4A3ACCEDED0E8BED9CAD6'' @ '' '' @ esc ''[31m'' @ gb ''A1F2'' @ esc ''[m''"

definition t_hand :: "string \<Rightarrow> string" where
  "t_hand a = esc ''[1;37m'' @ gb ''A1EF'' @ '' '' @ esc ''[36m'' @ a @ '' '' @ esc ''[32m'' @
     gb ''BED9C6F0C1CBCAD6A3ACBAC3CFF1CFEBCBB5CAB2C3B4B5C4D1F9D7D3'' @ '' '' @ esc ''[37m'' @ gb ''A1EF'' @
     esc ''[m''"

definition t_hand_sent :: "string \<Rightarrow> string" where
  "t_hand_sent a = esc ''[1;37m'' @ gb ''A1EF'' @ '' '' @ esc ''[36m'' @ a @ '' '' @ esc ''[32m'' @
     gb ''CFF2C0CFB4F3C3C7BED9CAD6CABED2E2'' @ '' '' @ esc ''[37m'' @ gb ''A1EF'' @ esc ''[m''"

definition t_paper :: "string \<Rightarrow> string" where
  "t_paper a = esc ''[1;31m'' @ gb ''A1F2'' @ '' '' @ esc ''[37m'' @
     gb ''C4FAB5C4B1E3BCE3CFE4B5C4D7B4CCACC7D0BBBBCEAA'' @ '' ['' @ a @ ''] '' @ esc ''[31m'' @
     gb ''A1F2'' @ esc ''[m''"

definition t_open :: "string" where
  "t_open = gb ''BFAAC6F4''"

definition t_closed :: "string" where
  "t_closed = gb ''B9D8B1D5''"

definition t_no_mike :: "string" where
  "t_no_mike = esc ''[1;31m '' @ gb ''A1F2'' @ esc ''[37m '' @
     gb ''C4E3CFD6D4DAC3BBD3D0C2F3BFCBB7E7A3ACCEDEB7A8CBB5BBB0'' @ '' '' @ esc ''[31m'' @ gb ''A1F2'' @
     esc ''[m''"

definition t_unknown :: "string \<Rightarrow> string" where
  "t_unknown a = esc ''[1;32m '' @ gb ''A1F2'' @ '' '' @ esc ''[37m'' @
     gb ''B1A7C7B8A3ACBFB4B2BBB6AEC4E3B5C4D2E2CBBCA3BA'' @ esc ''[36m/'' @ a @ '' '' @ esc ''[31m'' @
     gb ''A1F2'' @ esc ''[m''"

section \<open>Social verbs\<close>

definition party_data :: "(string \<times> string \<times> string) list" where
  "party_data = [
    (''admire'', gb ''B6D4'', gb ''B5C4BEB0D1F6D6AEC7E9D3CCC8E7CCCFCCCFBDADCBAEC1ACC3E0B2BBBEF8''),
    (''agree'', gb ''CDEAC8ABCDACD2E2'', gb ''B5C4BFB4B7A8''),
    (''bearhug'', gb ''C8C8C7E9B5C4D3B5B1A7'', []),
    (''ben'', gb ''D0A6BAC7BAC7B5D8B6D4'', gb ''CBB5A3BAA1B0B1BF'' @ '', '' @ gb ''C1ACD5E2B6BCB2BBD6AAB5C0'' @ ''... :P'' @ gb ''A1B1''),
    (''bless'', gb ''D7A3B8A3'', gb ''D0C4CFEBCAC2B3C9''),
    (''bow'', gb ''B1CFB9AAB1CFBEB4B5C4CFF2'', gb ''BECFB9AA''),
    (''bye'', gb ''CFF2'', gb ''D2BBB9B0CAD6B5C0A3BAA1B0C7E0C9BDD2C0BEC9A3ACC5E7CBAEB3A3C0B4A3ACD4DBC3C7CFC2BBD8D4D9BBE1'' @ ''!'' @ gb ''A1B1''),
    (''bye1'', gb ''BFDEBFDECCE4CCE4B5D8C0ADD7C5'', gb ''B5C4D2C2BDC7'' @ '':'' @ gb ''A1B0C9E1B2BBB5C3C4E3D7DFB0A1'' @ ''...'' @ gb ''A1B1''),
    (''bye2'', gb ''C6E0CDF1B5D8B6D4'', gb ''CBB5B5C0'' @ '':'' @ gb ''A1B0CAC0C9CFC3BBD3D0B2BBC9A2B5C4D1E7CFAFA3ACCED2CFC8D7DFD2BBB2BDC1CBA3ACB4F3BCD2B6E0B1A3D6D8'' @ ''.'' @ gb ''A1B1''),
    (''byebye'', gb ''CDFBD7C5'', gb ''C0EBC8A5B5C4B1B3D3B0BDA5BDA5CFFBCAA7A3ACC1BDB5CEBEA7D3A8B5C4C0E1BBA8B4D3C8F9B1DFBBACC2E4''),
    (''bite'', gb ''BADDBADDB5C4D2A7C1CB'', gb ''D2BBBFDAA3ACB0D1CBFBCDB4B5C3CDDBCDDBB4F3BDD0'' @ ''...'' @ gb ''D5E6CBAC'' @ '','' @ gb ''B9FEB9FEA3A1''),
    (''blink'', gb ''BCD9D7B0CAB2C3B4D2B2B2BBD6AAB5C0A3ACB6D4'', gb ''CCECD5E6B5D8D5A3C1CBD5A3D1DBBEA6''),
    (''breath'', '':'' @ gb ''B8CFBFECB8F8'', gb ''D7F6C8CBB9A4BAF4CEFC'' @ ''!''),
    (''brother'', gb ''B6D4'', gb ''D2BBB1A7C8AD'' @ '','' @ gb ''B5C0'' @ '':'' @ gb ''A1B0C4D1B5C3C4E3CED2B8CEB5A8CFE0D5D5'' @ '','' @ gb ''B2BBC8F4C4E3CED2D2E5BDE1BDF0C0BC'' @ '','' @ gb ''D2E2CFC2C8E7BACE'' @ ''?'' @ gb ''A1B1''),
    (''bigfoot'', gb ''C9ECB3F6B4F3BDC5A3ACB6D4D7BC'', gb ''B5C4C8FDB4E7BDF0C1ABBADDBADDB5D8B2C8CFC2C8A5''),
    (''consider'', gb ''BFAACABCC8CFD5E6BFBCC2C7C9B1CBC0'', gb ''B5C4BFC9C4DCD0D4BACDBCBCCAF5C4D1B6C8''),
    (''caress'', gb ''B8A7C3FE'', []),
    (''cringe'', gb ''CFF2'', gb ''B1B0B9AAC7FCCFA5A3ACD2A1CEB2C6F2C1AF''),
    (''cry'', gb ''CFF2'', gb ''BABFDFFBB4F3BFDE''),
    (''cry1'', gb ''D4BDCFEBD4BDC9CBD0C4A3ACB2BBBDFBC5BFD4DA'', gb ''B5C4BCE7B0F2C9CFBABFDFFBB4F3BFDEC6F0C0B4''),
    (''cry2'', gb ''C6CBD4DA'', gb ''C9EDC9CFA3ACBFDEB5C3CBC0C8A5BBEEC0B4'' @ '':'' @ gb ''A1B0B1F0D7DFD1BD'' @ ''!'' @ gb ''B8D5C5DDB5C4B7BDB1E3C3E6C4E3BBB9C3BBB3D4CDEAC4D8'' @ ''!'' @ gb ''A1B1''),
    (''cold'', gb ''CCFDC1CB'', gb ''B5C4BBB0A3ACC0E4B5C3D6B1C6F0BCA6C6A4B8EDB4F1''),
    (''comfort'', gb ''CEC2D1D4B0B2CEBF'', []),
    (''clap'', gb ''CFF2'', gb ''C8C8C1D2B9C4D5C6''),
    (''dance'', gb ''C0ADC1CB'', gb ''B5C4CAD6F4E6F4E6C6F0CEE8''),
    (''die'', gb ''BADCBFE1B5D8CCCDB3F6D2BBB0D1B7C0D0E2CBAEC7B9A3ACA1B8C5F6'' @ ''!'' @ gb ''A1B9D2BBC7B9B0D1'', gb ''B8F8B1D0C1CB'' @ ''.''),
    (''dog'', gb ''B9D8C3C5A1A2B7C5B9B7A3A1'' @ '' '' @ gb ''B0D1'', gb ''D2A7B5C4C2E4BBA8C1F7CBAE''),
    (''dogleg'', gb ''CAC7D5FDD7DAB9B7CDC8CDF5A1ABCDF4CDF4A1AB'' @ '', '' @ gb ''CAB9BEA2C5C4C5C4'', gb ''B5C4C2EDC6A8''),
    (''dontno'', gb ''B6D4'', gb ''D2A1D2A1CDB7CBB5B5C0'' @ '': '' @ gb ''A1B0D5E2B8F6'' @ ''...'' @ gb ''CED2B2BBD6AAB5C0'' @ ''...'' @ gb ''A1B1''),
    (''dontdo'', gb ''B6D4'', gb ''CBB5'' @ '':'' @ gb ''A1B0D0A1C5F3D3D1A3AC'' @ '' '' @ gb ''B2BBBFC9D2D4D5E2D1F9C5B6A3ACD5E2D1F9D7F6CAC7B2BBBAC3B5C4D3B4A1B1''),
    (''drivel'', gb ''B6D4D6F8'', gb ''C1F7BFDACBAE''),
    (''dunno'', gb ''B5C9B4F3D1DBBEA6A3ACCCECD5E6B5D8CECAA3BA'', gb ''A3ACC4E3CBB5CAB2C3B4CED2B2BBB6AED2AE'' @ ''... :(''),
    (''dlook'', gb ''B4F4B4F4B5D8CDFBD7C5'', gb ''A3ACBFDACBAEBBA9C0B2C0B2B5D8C1F7C1CBD2BBB5D8''),
    (''dove'', gb ''B8F8C1CB'', gb ''D2BBBFE9'' @ ''DOVE'' @ gb ''A3ACCBB5'' @ '':'' @ gb ''A1B0C4C5A3ACB8F8C4E3D2BBBFE9'' @ ''DOVE'' @ gb ''A3ACD2AABAC3BAC3CCFDBBB0C5B6A1B1''),
    (''emlook'', gb ''C9CFCFC2B6CBCFEAC1CB'', gb ''C1BDD1DBA1B0BECDC4E3D0A1D7D3D1BD'' @ '','' @ gb ''CED2B5B1CAC7CBADC4D8'' @ '','' @ gb ''D2B2B8D2D4DAD5E2C0EFC8F6D2B0'' @ ''!'' @ gb ''A1B1''),
    (''face'', gb ''CDE7C6A4B5C4B6D4'', gb ''D7F6C1CBB8F6B9EDC1B3'' @ ''.''),
    (''faceless'', gb ''B6D4D7C5'', gb ''B4F3BDD0B5C0A3BAA1B0BAD9BAD9'' @ '', '' @ gb ''C4E3B5C4C3E6D7D3C2F4B6E0C9D9C7AED2BBBDEF'' @ ''?'' @ gb ''A1B1''),
    (''farewell'', gb ''BAACC0E1'' @ '','' @ gb ''D2C0D2C0B2BBC9E1B5D8CFF2'', gb ''B5C0B1F0''),
    (''fear'', gb ''B6D4'', gb ''C2B6B3F6C5C2C5C2B5C4B1EDC7E9''),
    (''flook'', gb ''B3D5B3D5B5C4CDFBD7C5'', '', '' @ gb ''C4C7C9EEC7E9B5C4D1DBC9F1CBB5C3F7C1CBD2BBC7D0'' @ ''.''),
    (''forgive'', gb ''B4F3B6C8B5C4B6D4'', gb ''CBB5A3BACBE3C1CBA3ACD4ADC1C2C4E3C1CB''),
    (''giggle'', gb ''B6D4D6F8'', gb ''C9B5C9B5B5C4B4F4D0A6''),
    (''grin'', gb ''B6D4'', gb ''C2B6B3F6D0B0B6F1B5C4D0A6C8DD''),
    (''growl'', gb ''B6D4'', gb ''C5D8CFF8B2BBD2D1''),
    (''hammer'', gb ''BED9C6F0BBDDCFE3B5C4'' @ ''50000000T'' @ gb ''CCFAB4B8CDF9'' @ ''$'', gb ''C9CFD3C3C1A6D2BBC7C3'' @ ''!,*** '' @ gb ''A1A1BC20EFCF'' @ '' '' @ gb ''A1BD'' @ ''!''),
    (''hand'', gb ''B8FA'', gb ''CED5CAD6''),
    (''heng'', gb ''BFB4B6BCB2BBBFB4'', gb ''D2BBD1DBA3AC'' @ '' '' @ gb ''BADFC1CBD2BBC9F9A3ACB8DFB8DFB5C4B0D1CDB7D1EFC6F0C0B4C1CB'' @ '','' @ gb ''B2BBD0BCD2BBB9CBB5C4D1F9D7D3'' @ ''...''),
    (''hi'', gb ''B6D4'', gb ''BADCD3D0C0F1C3B2B5D8CBB5C1CBD2BBC9F9A3BAA1B0'' @ ''Hi! '' @ gb ''C4E3BAC3'' @ ''!'' @ gb ''A1B1''),
    (''hug'', gb ''C7E1C7E1B5D8D3B5B1A7'', []),
    (''kick'', gb ''B0D1'', gb ''CCDFB5C4CBC0C8A5BBEEC0B4''),
    (''kiss'', gb ''C7E1CEC7'', gb ''B5C4C1B3BCD5''),
    (''laugh'', gb ''B4F3C9F9B3B0D0A6'', []),
    (''look'', gb ''D4F4D4F4B5D8BFB4D7C5'', gb ''A3ACB2BBD6AAB5C0D4DAB4F2CAB2C3B4E2C8D6F7D2E2A1A3''),
    (''love'', gb ''C9EEC7E9B5D8CDFBD7C5'', gb ''A3ACB7A2CFD6D7D4BCBAB0AEC9CFC1CB'' @ ''ta''),
    (''love2'', gb ''B6D4'', gb ''C7E9C9EEBFEEBFEEB5C4CBB5A3BAD4DACCECD4B8CEAA8C49B9ABD7D0A3ACD4DAB5D8D4B8CEAA'' @ ''<'' @ gb ''D3CDD5A8B9ED'' @ ''>''),
    (''lovelook'', gb ''D2BBCBABCBAECDF4CDF4B5C4B4F3D1DBBEA6BAACC7E9C2F6C2F6B5D8BFB4D7C5'', ''!''),
    (''missyou'', gb ''CCF0CCF0D2BBD0A6A3ACD1DBD6D0C8B4C1F7CFC2D1DBC0E1'' @ '':'', gb ''A3ACD5E6B5C4CAC7C4E3C2F0A3ACD5E2B2BBCAC7D7F7C3CEA3BF''),
    (''meet'', gb ''B6D4'', gb ''D2BBB1A7C8ADA3ACCBB5B5C0A3BAA1B0BEC3CEC5B4F3C3FBA3ACBDF1C8D5D2BBBCFBA3ACD5E6CAC7C8FDC9FAD3D0D0D2A3A1A1B1''),
    (''moon'', gb ''C0ADD7C5'', gb ''B5C4D0A1CAD6A3ACD6B8D7C5B3F5C9FDB5C4D4C2C1C1CBB5A3BAA1B0CCECC9CFC3F7D4C2A3ACCAC7CED2C3C7B5C4D6A4C8CBA1B1''),
    (''nod'', gb ''CFF2'', gb ''B5E3CDB7B3C6CAC7''),
    (''nothing'', gb ''B8CFC3A6B7F6C6F0'', gb ''A3BAD0A1CAC2D2BBD7AEA3ACBACED7E3B9D2B3DDA3BF''),
    (''nudge'', gb ''D3C3CAD6D6E2B6A5'', gb ''B5C4B7CAB6C7D7D3''),
    (''oh'', gb ''B6D4'', gb ''CBB5A3BAA1B0C5B6A3ACBDB4D7D3B0A1A3A1A1B1''),
    (''pad'', gb ''C7E1C5C4'', gb ''B5C4BCE7B0F2''),
    (''papa'', gb ''BDF4D5C5B5D8B6D4'', gb ''CBB5A3BAA1B0CED2BAC3C5C2C5C2C5B6'' @ ''...'' @ gb ''A1B1''),
    (''papaya'', gb ''C7C3C1CBC7C3'', gb ''B5C4C4BEB9CFC4D4B4FC''),
    (''praise'', gb ''B6D4'', gb ''CBB5B5C0'' @ '': '' @ gb ''B9FBC8BBB8DFC3F7'' @ ''! '' @ gb ''C5E5B7FEC5E5B7FE'' @ ''!''),
    (''pinch'', gb ''D3C3C1A6B5C4B0D1'', gb ''C5A1B5C4BADAC7E0''),
    (''poor'', gb ''C0ADD7C5'', gb ''B5C4CAD6CBB5A3BAA1B0BFC9C1AFB5C4BAA2D7D3A3A1A1B1D1DBC0E1E0A7E0A7B5D8B5F4C1CBCFC2C0B4'' @ ''.....''),
    (''punch'', gb ''BADDBADDD7E1C1CB'', gb ''D2BBB6D9''),
    (''puke'', gb ''B6D4D7C5'', gb ''CDC2B0A1CDC2B0A1A3ACBEDDCBB5CDC2B6E0BCB8B4CEBECDCFB0B9DFC1CB''),
    (''pure'', gb ''B6D4'', gb ''C2B6B3F6B4BFD5E6B5C4D0A6C8DD''),
    (''qmarry'', gb ''CFF2'', gb ''D3C2B8D2B5D8B9F2C1CBCFC2C0B4A3BAC4E3D4B8D2E2BCDEB8F8CED2C2F0'' @ ''---'' @ gb ''D5E6CAC7D3C2C6F8BFC9BCCEB0A1'' @ ''!''),
    (''report'', gb ''CDB5CDB5B5D8B6D4'', gb ''CBB5A3BAA1B0B1A8B8E6CED2BAC3C2F0A3BFA1B1''),
    (''rose'', gb ''CDBBC8BBB4D3C9EDBAF3C4C3B3F6D2BBB6E4'' @ ''-'' @ [CHR 0x60] @ ''-,-<@ '' @ gb ''C9EEC7E9B5D8CFD7B8F8'', gb ''A3A1''),
    (''rose999'', gb ''B6D4'', gb ''B3AAB5C0A3BAA1B0CED2D2D1BEADCEAAC4E3D6D6CFC2A3ACBEC5B0D9BEC5CAAEBEC5B6E4C3B5B9E5A1ADA1ADA1B1''),
    (''run'', gb ''C6F8B4ADD3F5D3F5B5D8B6D4'', gb ''CBB5'' @ '':'' @ gb ''CED2BBBBC1CBB0CBC6A5BFECC2EDC8D5D2B9BCE6B3CCB8CFC0B4'' @ ''.'' @ gb ''C4DCD4D9BCFBB5BDC4E3CBC0C1CBD2B2D0C4B8CA''),
    (''shrug'', gb ''CEDEC4CEB5D8CFF2'', gb ''CBCAC1CBCBCABCE7B0F2''),
    (''sigh'', gb ''B6D4'', gb ''CCBEC1CBD2BBBFDAC6F8'' @ '','' @ gb ''B5C0'' @ '': '' @ gb ''D4F8BEADB2D7BAA3C4D1CEAACBAE'' @ '','' @ gb ''B3FDC8B4CED7C9BDB2BBCAC7D4C6'' @ ''...''),
    (''slap'', gb ''C5BEC5BEB5C4B0CDC1CB'', gb ''D2BBB6D9B6FAB9E2''),
    (''smooch'', gb ''D3B5CEC7D6F8'', []),
    (''snicker'', gb ''BAD9BAD9BAD9'' @ ''..'' @ gb ''B5C4B6D4'', gb ''C7D4D0A6''),
    (''sniff'', gb ''B6D4'', gb ''E0CDD6AED2D4B1C7''),
    (''spank'', gb ''D3C3B0CDD5C6B4F2'', gb ''B5C4CDCEB2BF''),
    (''squeeze'', gb ''BDF4BDF4B5D8D3B5B1A7D6F8'', []),
    (''sorry'', gb ''B8D0B5BDB6D4'', gb ''CAAEB6FECDF2B7D6B5C4C7B8D2E2'' @ '', '' @ gb ''D3DACAC7B5CDC9F9CBB5B5C0'' @ '':'' @ gb ''CED2B8D0B5BDB7C7B3A3B5C4B1A7C7B8'' @ ''!''),
    (''thank'', gb ''CFF2'', gb ''B5C0D0BB''),
    (''thanks'', gb ''B9F2D4DAB5D8C9CFB6D4'', gb ''B9A7BEB4B5C4BFC4C1CBBCB8B8F6CDB7'' @ '':'' @ gb ''C4E3B5C4B4F3B6F7B4F3B5C2A3ACC3BBB3DDC4D1CDF6'' @ ''!''),
    (''tickle'', gb ''B9BEDFB4'' @ ''!'' @ gb ''B9BEDFB4'' @ ''!'' @ gb ''C9A6'', gb ''B5C4D1F7''),
    (''wake'', gb ''C5ACC1A6B5C4D2A1D2A1'', gb ''A3ACD4DAC6E4B6FAB1DFB4F3BDD0A3BAA1B0BFECD0D1D0D1A3ACBBE1D7C5C1B9B5C4A3A1A1B1''),
    (''wakeup'', gb ''D2A1D6F8'', gb ''A3ACCAD4D6F8B0D1CBFBBDD0D0D1A1A3B4F3C9F9D4DACBFBB6FAB1DFB4F3BDD0A3BAA1B8'' @ '' '' @ gb ''D6ED'' @ ''! '' @ gb ''C6F0C0B4C1CB'' @ ''! '' @ gb ''A1B9''),
    (''wave'', gb ''B6D4D6F8'', gb ''C6B4C3FCB5C4D2A1CAD6''),
    (''welcome'', gb ''C8C8C1D2BBB6D3AD'', gb ''B5C4B5BDC0B4''),
    (''wing'', gb ''C4C3D7C5D2BBBAD0CEACCBFCC4CCC9B5C9B5B5C4CBB5A3BAC4E3A1A3A1A3BECDCAC7'', gb ''C2F0A3BF''),
    (''wink'', gb ''B6D4'', gb ''C9F1C3D8B5C4D5A3D5A3D1DBBEA6''),
    (''zap'', gb ''B6D4'', gb ''B7E8BFF1B5C4B9A5BBF7''),
    (''xinku'', gb ''B8D0B6AFB5C3C8C8C0E1D3AFBFF4A3ACCFF2D7C5'', gb ''D5F1B1DBB8DFBAF4A3BAA1B0CAD7B3A4D0C1BFE0C1CBA3A1A1B1''),
    (''bupa'', gb ''B0AEC1AFB5D8C3FED7C5'', gb ''B5C4CDB7'' @ '','' @ gb ''CBB5'' @ '':'' @ gb ''A1B0D0A1C3C3C3C3'' @ '','' @ gb ''B2BBC5C2'' @ '','' @ gb ''CADCC1CBCAB2C3B4CEAFC7FCB4F3B8E7B8E7CCE6C4E3B1A8B3F0'' @ ''!'' @ gb ''A1B1''),
    (''gril'', gb ''B8CFBDF4B8F8'', gb ''B4B7B4B7B1B3'' @ '','' @ gb ''D0C4CFEB'' @ '':'' @ gb ''BAA2D7D3D0A1'' @ '','' @ gb ''B1F0B2EDB9FDC6F8C8A5'' @ ''.''),
    ('':)..'', gb ''B6D4'', gb ''B4B9CFD1C8FDB3DFA3ACB2BBD6AAB5C0CFC2D2BBB2BDBBE1D3D0BACEBED9B6AF''),
    (''?'', gb ''BADCD2C9BBF3B5C4BFB4D7C5'', []),
    (''@@'', gb ''D5F6B4F3C1CBD1DBBEA6BEAAC6E6B5D8B6A2D7C5'', '':'' @ gb ''A1B0D5E2'' @ ''...'' @ gb ''D5E2D2B2CCAB'' @ ''....'' @ gb ''A1B1''),
    (''@@!'', gb ''BADDBADDB5D8B5C9C1CB'', gb ''D2BBD1DB'' @ '', '' @ gb ''CBFBC1A2BFCCB1BBBFB4B5C3CBF5D0A1C1CBD2BBB0EB''),
    (''mail'', gb ''B8F8'', gb ''B4D3C3C0B9FAB7A2C1CBD2BBB7E2D3D0B0D7C9ABB7DBC4A9B5C4D3CABCFE'')]"

definition speak_data :: "(string \<times> string) list" where
  "speak_data = [
    (''ask'', gb ''D1AFCECA''),
    (''chant'', gb ''B8E8CBCC''),
    (''cheer'', gb ''BAC8B2C9''),
    (''chuckle'', gb ''C7E1D0A6''),
    (''curse'', gb ''D6E4C2EE''),
    (''demand'', gb ''D2AAC7F3''),
    (''frown'', gb ''F5BEC3BC''),
    (''groan'', gb ''C9EBD2F7''),
    (''grumble'', gb ''B7A2C0CEC9A7''),
    (''hum'', gb ''E0ABE0ABD7D4D3EF''),
    (''moan'', gb ''B1AFCCBE''),
    (''notice'', gb ''D7A2D2E2''),
    (''order'', gb ''C3FCC1EE''),
    (''ponder'', gb ''C9F2CBBC''),
    (''pout'', gb ''E0D9D6F8D7ECCBB5''),
    (''pray'', gb ''C6EDB5BB''),
    (''request'', gb ''BFD2C7F3''),
    (''shout'', gb ''B4F3BDD0''),
    (''sing'', gb ''B3AAB8E8''),
    (''smile'', gb ''CEA2D0A6''),
    (''smirk'', gb ''BCD9D0A6''),
    (''swear'', gb ''B7A2CAC4''),
    (''tease'', gb ''B3B0D0A6''),
    (''whimper'', gb ''CED8D1CAB5C4CBB5''),
    (''yawn'', gb ''B9FEC7B7C1ACCCEC''),
    (''yell'', gb ''B4F3BAB0'')]"

definition condition_data :: "(string \<times> string) list" where
  "condition_data = [
    (''acid'', gb ''CBB5B5C0A3BAA1B0BAC3C8E2C2EFE0A1'' @ ''~~~'' @ gb ''A1B1''),
    (''addoil'', gb ''CDFBBFD5B8DFBAB0'' @ '': '' @ gb ''BCD3D3CD'' @ ''!!''),
    (''applaud'', gb ''C5BEC5BEC5BEC5BEC5BEC5BEC5BE'' @ ''....''),
    (''blush'', gb ''C1B3B6BCBAECC1CB''),
    (''boss'', gb ''B7C5C9F9B4F3BDD0A3BACDDBC8FBA3ACB2BBB5C3C1CBA3ACC0CFB0E5C0B4C1CBA3ACCED2D2AACCD3C1CBA3ACD4D9BCFBC1CBB8F7CEBB'' @ ''.''),
    (''bug'', gb ''B4F3C9F9CBB5A1B0B1A8B8E6D5BEB3A4A3ACCED2D7A5B5BDD2BBD6BBB3E6D7D3A1B1A1A3''),
    (''cool'', gb ''B4F3BDD0C6F0C0B4A3BACDDBC8FBA1ABA1ABA1ABBAC3'' @ ''cool'' @ gb ''C5B6A1ABA1AB''),
    (''cough'', gb ''BFC8C1CBBCB8C9F9''),
    (''die'', gb ''BFDACDC2B0D7C4ADA3ACCBABD1DBD2BBB7ADA3ACC9EDCCE5B4A4C1CBBCB8CFC2A3ACB2BBB6AFC1CBA3ACC4E3D2BBBFB4CBC0C1CBA1A3''),
    (''goeat'', gb ''B5C4B6C7D7D3D3D6B9BEB9BEB5C4BDD0C1CB'' @ '','' @ gb ''B0A6'' @ '','' @ gb ''B2BBB5C3B2BBC8A5B3D4CAB3CCC3C4C7'' @ ''#$%&'' @ gb ''B5C4B7B9B2CBC1CB''),
    (''faint'', gb ''DFDBB5B1D2BBC9F9A3ACD4CEB5B9D4DAB5D8'' @ ''...''),
    (''faint1'', gb ''BFDACDC2B0D7C4ADA3ACBBE8B5B9D4DAB5D8C9CFA1A3''),
    (''faint2'', gb ''BFDAD6D0BFF1C5E7CFCAD1AAA3ACB7ADC9EDB5B9D4DAB5D8C9CFA1A3''),
    (''haha'', gb ''B9FEB9FEB9FEB9FE'' @ ''......''),
    (''handup'', gb ''C6B4C3FCB5D8C9ECB3A4D7D4BCBAB5C4CAD6B1DBA3ACB8DFC9F9BDD0B5C0A3BAA1B0CED2A3ACCED2A3ACCED2A3A1A1B1''),
    (''happy'', ''r-o-O-m....'' @ gb ''CCFDC1CBD5E6CBACA3A1''),
    (''heihei'', gb ''C0E4D0A6D2BBC9F9''),
    (''jump'', gb ''B8DFD0CBB5D8CFF1D0A1BAA2D7D3CBC6B5C4A3ACD4DAC1C4CCECCAD2C0EFB1C4B1C4CCF8CCF8A1A3''),
    (''pavid'', gb ''C1B3C9ABB2D4B0D7'' @ ''!'' @ gb ''BAC3CFF1BEE5C5C2CAB2C3B4'' @ ''!''),
    (''puke'', gb ''D5E6B6F1D0C4A3ACCED2CCFDC1CBB6BCCFEBCDC2''),
    (''shake'', gb ''D2A1C1CBD2A1CDB7''),
    (''sleep'', ''Zzzzzzzzzz'' @ gb ''A3ACD5E6CEDEC1C4A3ACB6BCBFECCBAFD6F8C1CB''),
    (''so'', gb ''BECDBDB4D7D3'' @ ''!!''),
    (''strut'', gb ''B4F3D2A1B4F3B0DAB5D8D7DF''),
    (''suicide'', gb ''D5E6CFEBC2F2BFE9B6B9B8AFC0B4D2BBCDB7D7B2CBC0'' @ '', '' @ gb ''C3FEC1CBC3FEC9EDB1DFD3D6C3BBC1E3C7AE'' @ '', '' @ gb ''D6BBBAC3C8CCD2BBCAD6''),
    (''toe'', gb ''BEF5B5C3D5E6CAC7CEDEC1C4'' @ '', '' @ gb ''D3DACAC7D7A8D0C4B5D8CDE6C6F0D7D4BCBAB5C4BDC5D6BACDB7C0B4''),
    (''tongue'', gb ''CDC2C1CBCDC2C9E0CDB7''),
    (''think'', gb ''CDE1D6F8CDB7CFEBC1CBD2BBCFC2''),
    (''wa'', gb ''CDDBA3A1'' @ '':-O''),
    (''wawl'', gb ''BEAACCECB6AFB5D8B5C4BFDE''),
    (''xixi'', gb ''CDB5D0A6A3BACEFBCEFBA1ABA1AB''),
    (''ya'', gb ''B5C3D2E2B5C4D7F7B3F6CAA4C0FBB5C4CAD6CAC6'' @ ''! '' @ gb ''A1B8'' @ '' V '' @ gb ''A1B9'' @ '':'' @ gb ''A1B0'' @ '' '' @ gb ''B9FEB9FEB9FE'' @ ''...'' @ gb ''A1B1''),
    ('':('', gb ''B3EEC3BCBFE0C1B3B5C4'' @ '','' @ gb ''D2BBB8B1B5B9C3B9D1F9''),
    ('':)'', gb ''B5C4C1B3C9CFC2B6B3F6D3E4BFECB5C4B1EDC7E9'' @ ''.''),
    ('':D'', gb ''C0D6B5C4BACFB2BBC2A3D7EC''),
    ('':P'', gb ''CDC2C1CBCDC2C9E0CDB7'' @ '','' @ gb ''B2EEB5E3D2A7B5BDD7D4BCBA''),
    (''@@'', gb ''D2AACBC0B2CBC1CB'' @ '' %^#@%$#&^*&(&^$#%$#@(*&()*)_*&(#@%$^%&^.''),
    (''sing1'', gb ''C1B9B7E7D3D0D0C5A3ACC7EFD4C2CEDEB1DFA1A3A1A3A1A3A1A3A1A3A1A3''),
    (''mail'', gb ''B8F8''),
    (''wonder'', gb ''BBB3D2C9B5C4CBB5A3BACAC7B2BBCAC7D5E6B5C4A3BF''),
    (''apache'', gb ''D7F8D7C5B0A2C5C1C6E6D6B1C9FDBBFAC0EBBFAAA1A3D5E6CAC7BFE1B4F4C1CBA3A1''),
    (''parapara'', gb ''B5C4CAD6D4DABFD5D6D0C2D2CEE8A3ACC4C7D1F9D7D3CBC6BAF5D4DACCF8'' @ ''parapara'' @ gb ''A1A3'')]"

end
