(* ===== verification/ChatStation.thy ===== *)
theory ChatStation
  imports ChatText "HOL-Library.Monad_Syntax"
begin

text \<open>
  The chat server (src/station.c): users on their sockets, the rooms they are in, and every command.
  Messages go to \<open>out\<close> in the order of the socket numbers; \<open>writable\<close> says on which sockets
  \<open>select\<close> allows to send.  The size of the table of users is a parameter of the build, here the
  length of the list; \<open>bbsname\<close> is one too.  \<open>None\<close> is an access outside an array or a socket set.
\<close>

section \<open>State\<close>

type_synonym perms = "32 word"

record chatuser =
  sockfd :: int
  utent :: int
  room :: int
  flags :: perms
  cloak :: int
  userid :: string
  chatid :: string
  ibuf :: "char list"
  ibufsize :: nat
  host :: string

record chatroom =
  name :: string
  occupants :: int
  rflags :: "16 word"
  invites :: "nat list"
  topic :: string

record station =
  users :: "chatuser list"
  rooms :: "chatroom list"
  chatbuf :: "char list"
  out :: "(int \<times> string) list"
  writable :: "int \<Rightarrow> bool"
  allfds :: "int list"
  nfds :: int
  num_conns :: int
  maintopic :: string
  chatname :: string
  bbsname :: string

abbreviation (input) MAXROOM :: nat where "MAXROOM \<equiv> 32"
abbreviation (input) CHAT_IDLEN :: nat where "CHAT_IDLEN \<equiv> 9"
abbreviation (input) IDLEN :: nat where "IDLEN \<equiv> 12"
abbreviation (input) ROOM_ALL :: int where "ROOM_ALL \<equiv> -2"

abbreviation (input) PERM_CHATROOM :: perms where "PERM_CHATROOM \<equiv> 0x2"
abbreviation (input) PERM_LOGINOK :: perms where "PERM_LOGINOK \<equiv> 0x10"
abbreviation (input) PERM_DENYPOST :: perms where "PERM_DENYPOST \<equiv> 0x20"
abbreviation (input) PERM_CHATCLOAK :: perms where "PERM_CHATCLOAK \<equiv> 0x1000"
abbreviation (input) PERM_SYSOP :: perms where "PERM_SYSOP \<equiv> 0x4000"
abbreviation (input) PERM_TALK :: perms where "PERM_TALK \<equiv> 0x80000"
abbreviation (input) PERM_MESSAGE :: perms where "PERM_MESSAGE \<equiv> 0x400000"
abbreviation (input) PERM_ACHATROOM :: perms where "PERM_ACHATROOM \<equiv> 0x10000000"

unbundle bit_operations_syntax

definition RESTRICTED :: "chatuser \<Rightarrow> bool" where "RESTRICTED u \<longleftrightarrow> flags u = 0"
definition SYSOP :: "chatuser \<Rightarrow> bool" where "SYSOP u \<longleftrightarrow> flags u AND (PERM_ACHATROOM OR PERM_SYSOP) \<noteq> 0"
definition CLOAK :: "chatuser \<Rightarrow> bool" where "CLOAK u \<longleftrightarrow> flags u AND PERM_CHATCLOAK \<noteq> 0"
definition ROOMOP :: "chatuser \<Rightarrow> bool" where "ROOMOP u \<longleftrightarrow> flags u AND PERM_CHATROOM \<noteq> 0"
definition OUTSIDER :: "chatuser \<Rightarrow> bool" where "OUTSIDER u \<longleftrightarrow> flags u AND PERM_DENYPOST \<noteq> 0"
definition CANTALK :: "chatuser \<Rightarrow> bool" where "CANTALK u \<longleftrightarrow> flags u AND PERM_TALK \<noteq> 0"
definition MESG :: "chatuser \<Rightarrow> bool" where "MESG u \<longleftrightarrow> flags u AND PERM_MESSAGE \<noteq> 0"

abbreviation (input) ROOM_LOCKED :: "16 word" where "ROOM_LOCKED \<equiv> 1"
abbreviation (input) ROOM_SECRET :: "16 word" where "ROOM_SECRET \<equiv> 2"
abbreviation (input) ROOM_NOEMOTE :: "16 word" where "ROOM_NOEMOTE \<equiv> 4"
abbreviation (input) ROOM_SCHOOL :: "16 word" where "ROOM_SCHOOL \<equiv> 8"

definition has_flag :: "chatroom \<Rightarrow> 16 word \<Rightarrow> bool" where
  "has_flag r f \<longleftrightarrow> rflags r AND f \<noteq> 0"

text \<open>Access to the two arrays by the integers the program computes with.\<close>

definition get_user :: "station \<Rightarrow> int \<Rightarrow> chatuser option" where
  "get_user s u = (if 0 \<le> u \<and> u < int (length (users s)) then Some (users s ! nat u) else None)"

definition get_room :: "station \<Rightarrow> int \<Rightarrow> chatroom option" where
  "get_room s r = (if 0 \<le> r \<and> r < int (length (rooms s)) then Some (rooms s ! nat r) else None)"

definition set_user :: "int \<Rightarrow> chatuser \<Rightarrow> station \<Rightarrow> station" where
  "set_user u x s = s\<lparr>users := (users s)[nat u := x]\<rparr>"

definition set_room :: "int \<Rightarrow> chatroom \<Rightarrow> station \<Rightarrow> station" where
  "set_room r x s = s\<lparr>rooms := (rooms s)[nat r := x]\<rparr>"

fun first_index :: "('a \<Rightarrow> bool) \<Rightarrow> 'a list \<Rightarrow> int \<Rightarrow> int" where
  "first_index P [] i = -1"
| "first_index P (x # xs) i = (if P x then i else first_index P xs (i + 1))"

section \<open>Words and names\<close>

definition BADCIDCHARS :: string where
  "BADCIDCHARS = '' *:/%''"

definition is_valid_chatid :: "string \<Rightarrow> bool" where
  "is_valid_chatid s \<longleftrightarrow> s \<noteq> [] \<and> (\<forall>c \<in> set (take CHAT_IDLEN s). c \<notin> set BADCIDCHARS)"

text \<open>\<open>nextword\<close> returns the word and the rest of the line.\<close>

definition nextword :: "string \<Rightarrow> string \<times> string" where
  "nextword str =
     (let s = dropWhile is_space str;
          w = takeWhile (\<lambda>c. \<not> is_space c) s
      in (w, drop (length w + 1) s))"

definition chatid_to_indx :: "int \<Rightarrow> string \<Rightarrow> station \<Rightarrow> int option" where
  "chatid_to_indx unum nm s = do {
     me \<leftarrow> get_user s unum;
     Some (first_index (\<lambda>u. sockfd u \<noteq> -1 \<and> strcaseeq nm (chatid u) \<and> (cloak u = 0 \<or> \<not> CLOAK me)) (users s) 0)
   }"

fun fuzzy_loop :: "string \<Rightarrow> chatuser list \<Rightarrow> int \<Rightarrow> int \<Rightarrow> int" where
  "fuzzy_loop nm [] i indx = indx"
| "fuzzy_loop nm (u # us) i indx =
     (if sockfd u = -1 then fuzzy_loop nm us (i + 1) indx
      else if strncaseeq nm (chatid u) (length nm) \<or> strncaseeq nm (userid u) (length nm) then
        if length nm = length (chatid u) \<or> length nm = length (userid u) then i
        else if indx = -1 then fuzzy_loop nm us (i + 1) i
        else -2
      else fuzzy_loop nm us (i + 1) indx)"

definition fuzzy_chatid_to_indx :: "int \<Rightarrow> string \<Rightarrow> station \<Rightarrow> int option" where
  "fuzzy_chatid_to_indx unum nm s =
     (let indx = fuzzy_loop nm (users s) 0 (-1) in
      if indx = -2 then Some (-2)
      else do {
        u \<leftarrow> get_user s indx;
        me \<leftarrow> get_user s unum;
        Some (if cloak u = 0 \<or> CLOAK me then indx else -1)
      })"

definition roomid_to_indx :: "string \<Rightarrow> station \<Rightarrow> int" where
  "roomid_to_indx nm s =
     (case rooms s of
        [] \<Rightarrow> -1
      | r0 # rs \<Rightarrow> if strcaseeq nm (name r0) then 0
                  else first_index (\<lambda>r. occupants r \<noteq> 0 \<and> strcaseeq nm (name r)) rs 1)"

section \<open>Sending\<close>

definition do_send :: "int list \<Rightarrow> string \<Rightarrow> station \<Rightarrow> station" where
  "do_send writefds str s =
     s\<lparr>out := out s @ map (\<lambda>i. (i, str)) (filter (\<lambda>i. i \<in> set writefds \<and> writable s i) (map int [0..<nat (nfds s)]))\<rparr>"

definition room_fds :: "int \<Rightarrow> station \<Rightarrow> int list" where
  "room_fds r s = map sockfd (filter (\<lambda>u. sockfd u \<noteq> -1 \<and> (r = ROOM_ALL \<or> r = room u)) (users s))"

definition send_to_room :: "int \<Rightarrow> string \<Rightarrow> station \<Rightarrow> station" where
  "send_to_room r str s = do_send (room_fds r s) str s"

definition send_to_unum :: "int \<Rightarrow> string \<Rightarrow> station \<Rightarrow> station option" where
  "send_to_unum unum str s = do {
     u \<leftarrow> get_user s unum;
     if sockfd u < 0 then None else Some (do_send [sockfd u] str s)
   }"

text \<open>\<open>snprintf\<close> and \<open>strlcat\<close> into \<open>chatbuf\<close>, and sending what it holds.\<close>

definition buf :: "station \<Rightarrow> string" where
  "buf s = cstr (chatbuf s)"

definition put_buf :: "string \<Rightarrow> station \<Rightarrow> station" where
  "put_buf t s = s\<lparr>chatbuf := snprintf (chatbuf s) t\<rparr>"

definition cat_buf :: "string \<Rightarrow> station \<Rightarrow> station" where
  "cat_buf t s = put_buf (buf s @ t) s"

text \<open>\<open>strcat\<close>, without a bound.\<close>

definition strcat_buf :: "string \<Rightarrow> station \<Rightarrow> station option" where
  "strcat_buf t s = map_option (\<lambda>b. s\<lparr>chatbuf := b\<rparr>) (strcpy (chatbuf s) (buf s @ t))"

definition tell :: "int \<Rightarrow> string \<Rightarrow> station \<Rightarrow> station option" where
  "tell unum t s = (let s1 = put_buf t s in send_to_unum unum (buf s1) s1)"

definition tell_room :: "int \<Rightarrow> string \<Rightarrow> station \<Rightarrow> station" where
  "tell_room r t s = (let s1 = put_buf t s in send_to_room r (buf s1) s1)"

section \<open>Rooms\<close>

datatype disp = EXIT_LOGOUT | EXIT_LOSTCONN | EXIT_KICK

text \<open>What \<open>exit_room\<close> puts into \<open>chatbuf\<close>; the message is \<open>None\<close> for \<open>NULL\<close>.\<close>

definition exit_text :: "chatuser \<Rightarrow> disp \<Rightarrow> string option \<Rightarrow> station \<Rightarrow> station option" where
  "exit_text u d msg s =
     (case d of
        EXIT_LOGOUT \<Rightarrow>
          (let s1 = put_buf (t_logout (chatid u)) s in
           case msg of
             None \<Rightarrow> Some s1
           | Some m \<Rightarrow> if m = [] then Some s1 else do { s2 \<leftarrow> strcat_buf '': '' s1; strcat_buf (take 80 m) s2 })
      | EXIT_LOSTCONN \<Rightarrow> Some (put_buf (t_lostconn (chatid u)) s)
      | EXIT_KICK \<Rightarrow> Some (put_buf (t_kick (chatid u)) s))"

definition exit_room :: "int \<Rightarrow> disp \<Rightarrow> string option \<Rightarrow> station \<Rightarrow> station option" where
  "exit_room unum d msg s = do {
     u \<leftarrow> get_user s unum;
     s1 \<leftarrow> (if room u \<noteq> -1 then do {
              r \<leftarrow> get_room s (room u);
              let s0 = set_room (room u) (r\<lparr>occupants := occupants r - 1\<rparr>) s;
              if occupants r - 1 \<noteq> 0 then do {
                s2 \<leftarrow> exit_text u d msg s0;
                Some (if cloak u = 0 then send_to_room (room u) (buf s2) s2 else s2)
              } else Some s0
            } else Some s);
     Some (set_user unum (u\<lparr>flags := flags u AND NOT PERM_CHATROOM, room := -1\<rparr>) s1)
   }"

definition chat_rename :: "int \<Rightarrow> string \<Rightarrow> station \<Rightarrow> station option" where
  "chat_rename unum msg s = do {
     u \<leftarrow> get_user s unum;
     if \<not> ROOMOP u \<and> \<not> SYSOP u then send_to_unum unum msg_not_op s
     else if msg = [] then send_to_unum unum t_which_name s
     else do {
       _ \<leftarrow> get_room s (room u);
       Some (tell_room (room u) (t_renamed (chatid u) msg) (tell_room (room u) (t_rname msg) s))
     }
   }"

definition chat_topic :: "int \<Rightarrow> string \<Rightarrow> station \<Rightarrow> station option" where
  "chat_topic unum msg s = do {
     u \<leftarrow> get_user s unum;
     if \<not> ROOMOP u \<and> \<not> SYSOP u then send_to_unum unum msg_not_op s
     else if msg = [] then send_to_unum unum t_which_topic s
     else do {
       r \<leftarrow> get_room s (room u);
       let s1 = set_room (room u) (r\<lparr>topic := take 42 msg\<rparr>) s;
       Some (tell_room (room u) (t_new_topic (chatid u) msg) (tell_room (room u) (t_topic msg) s1))
     }
   }"

text \<open>The new room of \<open>enter_room\<close>: the first free one behind the main room.\<close>

definition new_room :: "string \<Rightarrow> station \<Rightarrow> int \<times> station" where
  "new_room rid s =
     (let i = first_index (\<lambda>r. occupants r = 0) (tl (rooms s)) 1 in
      if i = -1 then (-1, s)
      else (i, set_room i ((rooms s ! nat i)
                 \<lparr>invites := replicate (length (users s)) 0, topic := maintopic s, name := take (IDLEN - 1) rid, rflags := 0\<rparr>) s))"

text \<open>The part behind the tests: leaving the old room and entering the new one.\<close>

definition go_in :: "int \<Rightarrow> int \<Rightarrow> bool \<Rightarrow> string \<Rightarrow> string option \<Rightarrow> station \<Rightarrow> station option" where
  "go_in unum rnum opr rid msg s = do {
     s1 \<leftarrow> exit_room unum EXIT_LOGOUT msg s;
     u \<leftarrow> get_user s1 unum;
     let u1 = u\<lparr>room := rnum, flags := (if opr then flags u OR PERM_CHATROOM else flags u)\<rparr>;
     let s2 = set_user unum u1 s1;
     r \<leftarrow> get_room s2 rnum;
     let s3 = set_room rnum (r\<lparr>occupants := occupants r + 1, invites := (invites r)[nat unum := 0]\<rparr>) s2;
     let s4 = (if cloak u1 = 0 then tell_room rnum (t_enters (chatid u1) (name r)) s3 else s3);
     s5 \<leftarrow> tell unum (t_room rid) s4;
     tell unum (t_rtopic (topic r)) s5
   }"

definition enter_room :: "int \<Rightarrow> string \<Rightarrow> string option \<Rightarrow> station \<Rightarrow> station option" where
  "enter_room unum rid msg s0 = do {
     u \<leftarrow> get_user s0 unum;
     let rn = roomid_to_indx rid s0;
     if rn = -1 \<and> OUTSIDER u then send_to_unum unum t_no_new_room s0
     else do {
       let (rnum, s) = (if rn = -1 then new_room rid s0 else (rn, s0));
       if rnum = -1 then send_to_unum unum t_rooms_full s
       else do {
         r \<leftarrow> get_room s rnum;
         if \<not> SYSOP u \<and> has_flag r ROOM_LOCKED \<and> invites r ! nat unum = 0 then send_to_unum unum t_locked s
         else go_in unum rnum (rn = -1) rid msg s
       }
     }
   }"

definition no_user :: chatuser where
  "no_user = \<lparr>sockfd = -1, utent = -1, room = -1, flags = 0, cloak = 0, userid = [], chatid = [],
     ibuf = replicate 128 NUL, ibufsize = 0, host = []\<rparr>"

definition logout_user :: "int \<Rightarrow> station \<Rightarrow> station option" where
  "logout_user unum s = do {
     u \<leftarrow> get_user s unum;
     if sockfd u < 0 then None
     else Some (set_user unum no_user
       (s\<lparr>allfds := filter (\<lambda>f. f \<noteq> sockfd u) (allfds s),
          rooms := map (\<lambda>r. r\<lparr>invites := (invites r)[nat unum := 0]\<rparr>) (rooms s),
          num_conns := num_conns s - 1\<rparr>))
   }"

section \<open>Logging in\<close>

text \<open>
  The counts of \<open>print_user_counts\<close>: rooms in use, users, users in secret rooms.  The loop over the
  rooms also looks at the users of the same numbers.
\<close>

definition count_at :: "chatuser \<Rightarrow> station \<Rightarrow> nat \<Rightarrow> (int \<times> int \<times> int) \<Rightarrow> (int \<times> int \<times> int) option" where
  "count_at me s i acc = do {
     r \<leftarrow> get_room s (int i);
     u \<leftarrow> get_user s (int i);
     let roomc = fst acc + (if 0 < i \<and> 0 < occupants r \<and> (\<not> has_flag r ROOM_SECRET \<or> SYSOP me) then 1 else 0);
     if sockfd u \<noteq> -1 \<and> room u \<noteq> -1 \<and> cloak u = 0 then do {
       c \<leftarrow> get_room s (room u);
       Some (if has_flag c ROOM_SECRET \<and> \<not> SYSOP me then (roomc, fst (snd acc), snd (snd acc) + 1)
             else (roomc, fst (snd acc) + 1, snd (snd acc)))
     } else Some (roomc, snd acc)
   }"

fun count_loop :: "chatuser \<Rightarrow> station \<Rightarrow> nat list \<Rightarrow> (int \<times> int \<times> int) \<Rightarrow> (int \<times> int \<times> int) option" where
  "count_loop me s [] acc = Some acc"
| "count_loop me s (i # is) acc = do { acc1 \<leftarrow> count_at me s i acc; count_loop me s is acc1 }"

definition print_user_counts :: "int \<Rightarrow> station \<Rightarrow> station option" where
  "print_user_counts unum s = do {
     me \<leftarrow> get_user s unum;
     c \<leftarrow> count_loop me s [0..<MAXROOM] (0, 0, 0);
     s1 \<leftarrow> tell unum (t_welcome (bbsname s) (chatname s)) s;
     s2 \<leftarrow> tell unum (t_room_count (fst c + 1)) s1;
     let s3 = put_buf (t_user_count (fst (snd c) + 1)) s2;
     let s4 = (if snd (snd c) \<noteq> 0 then cat_buf (take 39 (t_secret_count (snd (snd c)))) s3 else s3);
     let s5 = cat_buf t_count_end s4;
     send_to_unum unum (buf s5) s5
   }"

definition int32 :: "int \<Rightarrow> perms" where
  "int32 i = word_of_int i"

text \<open>The value stored in a \<open>char\<close>.\<close>

definition to_char :: "int \<Rightarrow> int" where
  "to_char i = (let m = i mod 256 in if m < 128 then m else m - 256)"

text \<open>The entry of the user who logs in; \<open>None\<close> when the identifier does not fit its buffer.\<close>

definition login_entry :: "chatuser \<Rightarrow> int \<Rightarrow> perms \<Rightarrow> int \<Rightarrow> string \<Rightarrow> string \<Rightarrow> chatuser option" where
  "login_entry u ut fl cl uid cid =
     (if length uid < IDLEN + 2 then
        Some (u\<lparr>flags := fl, cloak := cl, utent := ut, userid := uid, chatid := take (CHAT_IDLEN - 1) cid\<rparr>)
      else None)"

definition login_user :: "int \<Rightarrow> string \<Rightarrow> station \<Rightarrow> (station \<times> int) option" where
  "login_user unum msg0 s = do {
     let (utentstr, msg1) = nextword msg0;
     let (level, msg2) = nextword msg1;
     let (uid, msg3) = nextword msg2;
     let (cid, msg4) = nextword msg3;
     let (cloakstr, _) = nextword msg4;
     let ut = atoi utentstr;
     if \<exists>u \<in> set (users s). sockfd u \<noteq> -1 \<and> utent u = ut then do {
       s1 \<leftarrow> send_to_unum unum ''BG'' s; Some (s1, -1)
     }
     else if \<not> is_valid_chatid cid then do { s1 \<leftarrow> send_to_unum unum ''IN'' s; Some (s1, 0) }
     else do {
       other \<leftarrow> chatid_to_indx 0 cid s;
       if other \<noteq> -1 then do { s1 \<leftarrow> send_to_unum unum ''EX'' s; Some (s1, 0) }
       else do {
         u \<leftarrow> get_user s unum;
         let near = strncaseeq ''localhost'' (host u) 30;
         if \<not> near \<and> int32 (atoi level) AND PERM_LOGINOK = 0 \<and> strncaseeq cid ''guest'' 8 then do {
           s1 \<leftarrow> send_to_unum unum ''IN'' s; Some (s1, 0)
         }
         else do {
           u1 \<leftarrow> login_entry u ut (if near then int32 (atoi level) AND NOT PERM_DENYPOST else PERM_DENYPOST)
                  (if near then to_char (atoi cloakstr) else 0) uid cid;
           s1 \<leftarrow> send_to_unum unum ''OK'' (set_user unum u1 s);
           s2 \<leftarrow> print_user_counts unum s1;
           s3 \<leftarrow> enter_room unum ''main'' None s2;
           Some (s3, 0)
         }
       }
     }
   }"

end
