(* ===== verification/ChatCommands.thy ===== *)
theory ChatCommands
  imports ChatStation
begin

text \<open>
  The commands of the chat server (src/station.c): one definition per handler, the table of the
  commands, \<open>command_execute\<close>, the reading of a packet, and the connection of a client.
\<close>

unbundle bit_operations_syntax

section \<open>Listing\<close>

definition room_line :: "chatroom \<Rightarrow> station \<Rightarrow> station" where
  "room_line r s =
     (let s1 = put_buf (t_rooms_line (name r) (occupants r) (topic r)) s;
          s2 = (if has_flag r ROOM_LOCKED then cat_buf t_is_locked s1 else s1);
          s3 = (if has_flag r ROOM_SECRET then cat_buf t_is_secret s2 else s2);
          s4 = (if has_flag r ROOM_NOEMOTE then cat_buf t_is_noemote s3 else s3)
      in if has_flag r ROOM_SCHOOL then cat_buf t_is_school s4 else s4)"

fun rooms_loop :: "int \<Rightarrow> chatuser \<Rightarrow> chatroom list \<Rightarrow> int \<Rightarrow> station \<Rightarrow> station option" where
  "rooms_loop unum me [] i s = Some s"
| "rooms_loop unum me (r # rs) i s =
     (if occupants r \<le> 0 \<or> \<not> SYSOP me \<and> has_flag r ROOM_SECRET \<and> room me \<noteq> i then rooms_loop unum me rs (i + 1) s
      else do {
        let s1 = room_line r s;
        s2 \<leftarrow> send_to_unum unum (buf s1) s1;
        rooms_loop unum me rs (i + 1) s2
      })"

definition chat_list_rooms :: "int \<Rightarrow> string \<Rightarrow> station \<Rightarrow> station option" where
  "chat_list_rooms unum msg s = do {
     me \<leftarrow> get_user s unum;
     if RESTRICTED me then send_to_unum unum t_no_list s
     else do { s1 \<leftarrow> send_to_unum unum t_rooms_head s; rooms_loop unum me (rooms s1) 0 s1 }
   }"

text \<open>Whether a user is shown to another one, in one room or in all of them (-1).\<close>

definition listed :: "chatuser \<Rightarrow> int \<Rightarrow> station \<Rightarrow> chatuser \<Rightarrow> bool option" where
  "listed me whichroom s u =
     (if sockfd u = -1 \<or> room u = -1 \<or> cloak u = 1 \<and> \<not> CLOAK me then Some False
      else if whichroom \<noteq> -1 \<and> whichroom \<noteq> room u then Some False
      else if room me = room u then Some True
      else if RESTRICTED me then Some False
      else do { r \<leftarrow> get_room s (room u); Some (\<not> has_flag r ROOM_SECRET \<or> SYSOP me) })"

definition user_line :: "chatuser \<Rightarrow> station \<Rightarrow> string option" where
  "user_line u s = do {
     r \<leftarrow> get_room s (room u);
     Some (t_users_line (if cloak u = 1 then CHR ''C'' else CHR '' '') (chatid u)
             (if OUTSIDER u then t_outsider else t_insider) (userid u) (name r)
             (if ROOMOP u then t_yes else t_no) (host u))
   }"

fun users_loop :: "int \<Rightarrow> chatuser \<Rightarrow> int \<Rightarrow> int \<Rightarrow> int \<Rightarrow> chatuser list \<Rightarrow> int \<Rightarrow> station \<Rightarrow> station option" where
  "users_loop unum me whichroom start stop [] cnt s = Some s"
| "users_loop unum me whichroom start stop (u # us) cnt s = do {
     l \<leftarrow> listed me whichroom s u;
     if \<not> l then users_loop unum me whichroom start stop us cnt s
     else if cnt + 1 < start then users_loop unum me whichroom start stop us (cnt + 1) s
     else if stop \<noteq> 0 \<and> stop < cnt + 1 then Some s
     else do {
       t \<leftarrow> user_line u s;
       s1 \<leftarrow> tell unum t s;
       users_loop unum me whichroom start stop us (cnt + 1) s1
     }
   }"

definition chat_do_user_list :: "int \<Rightarrow> string \<Rightarrow> int \<Rightarrow> station \<Rightarrow> station option" where
  "chat_do_user_list unum msg whichroom s = do {
     me \<leftarrow> get_user s unum;
     let m1 = dropWhile is_space msg;
     let m2 = dropWhile (\<lambda>c. \<not> is_digit c) (dropWhile is_digit m1);
     s1 \<leftarrow> send_to_unum unum t_users_head s;
     users_loop unum me whichroom (atoi m1) (atoi m2) (users s1) 0 s1
   }"

definition chat_list_by_room :: "int \<Rightarrow> string \<Rightarrow> station \<Rightarrow> station option" where
  "chat_list_by_room unum msg s = do {
     me \<leftarrow> get_user s unum;
     let (w, rest) = nextword msg;
     if w = [] then chat_do_user_list unum rest (room me) s
     else if roomid_to_indx w s = -1 then tell unum (t_no_room w) s
     else do {
       r \<leftarrow> get_room s (roomid_to_indx w s);
       if has_flag r ROOM_SECRET \<and> \<not> SYSOP me then send_to_unum unum t_no_secrets s
       else chat_do_user_list unum rest (roomid_to_indx w s) s
     }
   }"

definition chat_list_users :: "int \<Rightarrow> string \<Rightarrow> station \<Rightarrow> station option" where
  "chat_list_users unum msg s = chat_do_user_list unum msg (-1) s"

text \<open>\<open>snprintf(chatbuf + c * 50, sizeof(chatbuf) - c * 50, ...)\<close>: up to three names in a line.\<close>

definition put_at :: "nat \<Rightarrow> string \<Rightarrow> station \<Rightarrow> station" where
  "put_at k t s = s\<lparr>chatbuf := take k (chatbuf s) @ snprintf (drop k (chatbuf s)) t\<rparr>"

definition who_cell :: "nat \<Rightarrow> chatuser \<Rightarrow> string" where
  "who_cell c u = t_who_cell (if cloak u = 1 then CHR ''C'' else CHR '' '') (chatid u)
     (if ROOMOP u then CHR ''*'' else CHR '' '') (if OUTSIDER u then t_outsider else t_insider) (userid u)
     (if c < 2 then t_bar else ''  '')"

fun map_loop :: "int \<Rightarrow> chatuser \<Rightarrow> int \<Rightarrow> chatuser list \<Rightarrow> nat \<Rightarrow> station \<Rightarrow> station option" where
  "map_loop unum me whichroom [] c s = (if 0 < c then send_to_unum unum (buf s) s else Some s)"
| "map_loop unum me whichroom (u # us) c s = do {
     l \<leftarrow> listed me whichroom s u;
     if \<not> l then map_loop unum me whichroom us c s
     else do {
       let s1 = put_at (c * 50) (who_cell c u) s;
       if c + 1 = 3 then do { s2 \<leftarrow> send_to_unum unum (buf s1) s1; map_loop unum me whichroom us 0 s2 }
       else map_loop unum me whichroom us (c + 1) s1
     }
   }"

definition chat_map_chatids :: "int \<Rightarrow> int \<Rightarrow> station \<Rightarrow> station option" where
  "chat_map_chatids unum whichroom s = do {
     me \<leftarrow> get_user s unum;
     s1 \<leftarrow> send_to_unum unum t_who_head s;
     map_loop unum me whichroom (users s1) 0 s1
   }"

definition chat_map_chatids_thisroom :: "int \<Rightarrow> string \<Rightarrow> station \<Rightarrow> station option" where
  "chat_map_chatids_thisroom unum msg s = do { me \<leftarrow> get_user s unum; chat_map_chatids unum (room me) s }"

section \<open>Settings of a room and of a user\<close>

definition room_flag :: "char \<Rightarrow> (16 word \<times> string) option" where
  "room_flag c =
     (if chartolower c = CHR ''l'' then Some (ROOM_LOCKED, t_lock)
      else if chartolower c = CHR ''s'' then Some (ROOM_SECRET, t_secret)
      else if chartolower c = CHR ''e'' then Some (ROOM_NOEMOTE, t_noemote)
      else if chartolower c = CHR ''a'' then Some (ROOM_SCHOOL, t_school)
      else None)"

fun flags_loop :: "int \<Rightarrow> chatuser \<Rightarrow> bool \<Rightarrow> string \<Rightarrow> station \<Rightarrow> station option" where
  "flags_loop unum u sign [] s = Some s"
| "flags_loop unum u sign (c # cs) s =
     (case room_flag c of
        None \<Rightarrow> tell unum (t_flag_unknown c) s
      | Some (f, fstr) \<Rightarrow> do {
          r \<leftarrow> get_room s (room u);
          flags_loop unum u sign cs
            (if has_flag r f \<noteq> sign then
               tell_room (room u) (t_flag_set (chatid u) (if sign then t_set else t_unset) fstr)
                 (set_room (room u) (r\<lparr>rflags := rflags r XOR f\<rparr>) s)
             else s)
        })"

definition chat_setroom :: "int \<Rightarrow> string \<Rightarrow> station \<Rightarrow> station option" where
  "chat_setroom unum msg s = do {
     u \<leftarrow> get_user s unum;
     let w = fst (nextword msg);
     if \<not> ROOMOP u \<and> \<not> SYSOP u then send_to_unum unum msg_not_op s
     else do {
       let sign = \<not> (w \<noteq> [] \<and> hd w = CHR ''-'');
       let w1 = (if w \<noteq> [] \<and> (hd w = CHR ''+'' \<or> hd w = CHR ''-'') then tl w else w);
       if w1 = [] then send_to_unum unum t_which_flags s else flags_loop unum u sign w1 s
     }
   }"

definition chat_nick :: "int \<Rightarrow> string \<Rightarrow> station \<Rightarrow> station option" where
  "chat_nick unum msg s = do {
     u \<leftarrow> get_user s unum;
     let cid = take (CHAT_IDLEN - 1) (fst (nextword msg));
     if \<not> is_valid_chatid cid then send_to_unum unum t_bad_name s
     else do {
       other \<leftarrow> chatid_to_indx 0 cid s;
       if other \<noteq> -1 \<and> other \<noteq> unum then send_to_unum unum t_name_taken s
       else do {
         let s1 = tell_room (room u) (t_nick (chatid u) cid) s;
         tell unum (t_nickname cid) (set_user unum (u\<lparr>chatid := cid\<rparr>) s1)
       }
     }
   }"

definition chat_private :: "int \<Rightarrow> string \<Rightarrow> station \<Rightarrow> station option" where
  "chat_private unum msg s = do {
     me \<leftarrow> get_user s unum;
     let (recipient, rest) = nextword msg;
     recunum \<leftarrow> fuzzy_chatid_to_indx unum recipient s;
     if recunum < 0 then tell unum (if recunum = -1 then msg_no_such_id recipient else t_ambiguous) s
     else do {
       r \<leftarrow> get_user s recunum;
       if \<not> MESG r then tell unum t_no_notes s
       else if rest \<noteq> [] then do {
         let s1 = cat_buf rest (put_buf (t_note (chatid me)) s);
         s2 \<leftarrow> send_to_unum recunum (buf s1) s1;
         let s3 = cat_buf rest (put_buf (t_note_sent (chatid r)) s2);
         send_to_unum unum (buf s3) s3
       }
       else tell unum t_note_empty s
     }
   }"

text \<open>\<open>put_chatid\<close>: the name, a colon, and blanks up to ten characters, into \<open>chatbuf\<close>.\<close>

definition put_chatid :: "chatuser \<Rightarrow> station \<Rightarrow> station option" where
  "put_chatid u s =
     (let t = chatid u @ CHR '':'' # replicate (10 - (length (chatid u) + 1)) (CHR '' '') in
      if length t \<le> 10 then Some (s\<lparr>chatbuf := t @ NUL # drop 11 (chatbuf s)\<rparr>) else None)"

definition chat_allmsg :: "int \<Rightarrow> string \<Rightarrow> station \<Rightarrow> station option" where
  "chat_allmsg unum msg s =
     (if msg = [] then Some s
      else do {
        u \<leftarrow> get_user s unum;
        s1 \<leftarrow> put_chatid u s;
        s2 \<leftarrow> strcat_buf msg s1;
        Some (send_to_room (room u) (buf s2) s2)
      })"

definition chat_act :: "int \<Rightarrow> string \<Rightarrow> station \<Rightarrow> station option" where
  "chat_act unum msg s = do {
     u \<leftarrow> get_user s unum;
     r \<leftarrow> get_room s (room u);
     if has_flag r ROOM_NOEMOTE then send_to_unum unum t_no_emotes s
     else if msg \<noteq> [] then Some (tell_room (room u) (t_act (chatid u) msg) s)
     else Some s
   }"

definition chat_cloak :: "int \<Rightarrow> string \<Rightarrow> station \<Rightarrow> station option" where
  "chat_cloak unum msg s = do {
     u \<leftarrow> get_user s unum;
     if CLOAK u then do {
       let c = (if cloak u = 1 then 0 else 1);
       tell unum (t_cloak (chatid u) (if c = 1 then t_cloak_on else t_cloak_off)) (set_user unum (u\<lparr>cloak := c\<rparr>) s)
     } else Some s
   }"

definition chat_join :: "int \<Rightarrow> string \<Rightarrow> station \<Rightarrow> station option" where
  "chat_join unum msg s = do {
     u \<leftarrow> get_user s unum;
     let (rid, rest) = nextword msg;
     if RESTRICTED u then send_to_unum unum t_stay s
     else if rid = [] then send_to_unum unum t_which_room s
     else if \<not> is_valid_chatid rid then send_to_unum unum t_bad_room s
     else enter_room unum rid (Some rest) s
   }"

section \<open>Operators\<close>

definition chat_kick :: "int \<Rightarrow> string \<Rightarrow> station \<Rightarrow> station option" where
  "chat_kick unum msg s = do {
     u \<leftarrow> get_user s unum;
     let twit = fst (nextword msg);
     if \<not> ROOMOP u \<and> \<not> SYSOP u then send_to_unum unum msg_not_op s
     else do {
       recunum \<leftarrow> chatid_to_indx unum twit s;
       if recunum = -1 then tell unum (msg_no_such_id twit) s
       else do {
         r \<leftarrow> get_user s recunum;
         if room u \<noteq> room r then tell unum (msg_not_here (chatid r)) s
         else do {
           s1 \<leftarrow> exit_room recunum EXIT_KICK None s;
           if room u = 0 then logout_user recunum s1 else enter_room recunum ''main'' None s1
         }
       }
     }
   }"

definition chat_makeop :: "int \<Rightarrow> string \<Rightarrow> station \<Rightarrow> station option" where
  "chat_makeop unum msg s = do {
     u \<leftarrow> get_user s unum;
     let newop = fst (nextword msg);
     if \<not> ROOMOP u \<and> \<not> SYSOP u then send_to_unum unum msg_not_op s
     else do {
       recunum \<leftarrow> chatid_to_indx unum newop s;
       if recunum = -1 then tell unum (msg_no_such_id newop) s
       else if unum = recunum then tell unum t_op_already s
       else do {
         r \<leftarrow> get_user s recunum;
         if room u \<noteq> room r then tell unum (msg_not_here (chatid r)) s
         else Some (tell_room (room u) (t_new_op (chatid u) (chatid r))
                (set_user recunum (r\<lparr>flags := flags r OR PERM_CHATROOM\<rparr>)
                  (set_user unum (u\<lparr>flags := flags u AND NOT PERM_CHATROOM\<rparr>) s)))
       }
     }
   }"

definition chat_invite :: "int \<Rightarrow> string \<Rightarrow> station \<Rightarrow> station option" where
  "chat_invite unum msg s = do {
     u \<leftarrow> get_user s unum;
     let invitee = fst (nextword msg);
     if \<not> ROOMOP u \<and> \<not> SYSOP u then send_to_unum unum msg_not_op s
     else do {
       recunum \<leftarrow> chatid_to_indx unum invitee s;
       if recunum = -1 then tell unum (msg_not_here invitee) s
       else do {
         v \<leftarrow> get_user s recunum;
         r \<leftarrow> get_room s (room u);
         if invites r ! nat recunum = 1 then tell unum (t_coming (chatid v)) s
         else do {
           let s1 = set_room (room u) (r\<lparr>invites := (invites r)[nat recunum := 1]\<rparr>) s;
           s2 \<leftarrow> tell recunum (t_invites (chatid u) (name r)) s1;
           tell unum (t_coming (chatid v)) s2
         }
       }
     }
   }"

definition chat_broadcast :: "int \<Rightarrow> string \<Rightarrow> station \<Rightarrow> station option" where
  "chat_broadcast unum msg s = do {
     u \<leftarrow> get_user s unum;
     if \<not> SYSOP u then send_to_unum unum t_no_wall s
     else if msg = [] then send_to_unum unum t_wall_empty s
     else Some (tell_room ROOM_ALL (t_wall msg) (tell_room ROOM_ALL (t_wall_head (chatid u)) s))
   }"

definition chat_goodbye :: "int \<Rightarrow> string \<Rightarrow> station \<Rightarrow> station option" where
  "chat_goodbye unum msg s = exit_room unum EXIT_LOGOUT (Some msg) s"

definition chat_maketalk :: "int \<Rightarrow> string \<Rightarrow> station \<Rightarrow> station option" where
  "chat_maketalk unum msg s = do {
     u \<leftarrow> get_user s unum;
     let newop = fst (nextword msg);
     if \<not> SYSOP u \<and> \<not> ROOMOP u then send_to_unum unum msg_not_op s
     else do {
       recunum \<leftarrow> chatid_to_indx unum newop s;
       if recunum = -1 then tell unum (msg_no_such_id newop) s
       else if unum = recunum then tell unum t_talk_self s
       else do {
         v \<leftarrow> get_user s recunum;
         let v1 = v\<lparr>flags := flags v XOR PERM_TALK\<rparr>;
         Some (tell_room (room v) ((if CANTALK v1 then t_talk_on else t_talk_off) (chatid u) (chatid v))
                (set_user recunum v1 s))
       }
     }
   }"

fun hand_loop :: "chatuser \<Rightarrow> chatuser list \<Rightarrow> int \<Rightarrow> station \<Rightarrow> station option" where
  "hand_loop u [] i s = Some s"
| "hand_loop u (v # vs) i s =
     (if SYSOP v \<or> ROOMOP v then do { s1 \<leftarrow> tell i (t_hand (chatid u)) s; hand_loop u vs (i + 1) s1 }
      else hand_loop u vs (i + 1) s)"

definition chat_hand :: "int \<Rightarrow> string \<Rightarrow> station \<Rightarrow> station option" where
  "chat_hand unum msg s = do {
     u \<leftarrow> get_user s unum;
     r \<leftarrow> get_room s (room u);
     if \<not> has_flag r ROOM_SCHOOL then send_to_unum unum t_no_hand s
     else do { s1 \<leftarrow> hand_loop u (users s) 0 s; tell unum (t_hand_sent (chatid u)) s1 }
   }"

definition chat_paper :: "int \<Rightarrow> string \<Rightarrow> station \<Rightarrow> station option" where
  "chat_paper unum msg s = do {
     u \<leftarrow> get_user s unum;
     let u1 = u\<lparr>flags := flags u XOR PERM_MESSAGE\<rparr>;
     tell unum (t_paper (if MESG u1 then t_open else t_closed)) (set_user unum u1 s)
   }"

section \<open>Social verbs\<close>

text \<open>A demonstration to oneself, or the sentence to the room.\<close>

definition act_out :: "int \<Rightarrow> bool \<Rightarrow> string \<Rightarrow> station \<Rightarrow> station option" where
  "act_out unum self t s = do {
     u \<leftarrow> get_user s unum;
     let s1 = put_buf t s;
     if self then do {
       s2 \<leftarrow> send_to_unum unum t_demo s1;
       s3 \<leftarrow> send_to_unum unum (buf s2) s2;
       send_to_unum unum [] s3
     } else Some (send_to_room (room u) (buf s1) s1)
   }"

text \<open>The result says whether the verb is one of the table.\<close>

definition party_action :: "int \<Rightarrow> string \<Rightarrow> string \<Rightarrow> bool \<Rightarrow> station \<Rightarrow> (station \<times> bool) option" where
  "party_action unum cmd party self s =
     (case map_of party_data cmd of
        None \<Rightarrow> Some (s, False)
      | Some (part1, part2) \<Rightarrow> do {
          u \<leftarrow> get_user s unum;
          if party = [] then do {
            s1 \<leftarrow> act_out unum self (t_party (chatid u) part1 t_everybody part2) s; Some (s1, True)
          }
          else do {
            recunum \<leftarrow> fuzzy_chatid_to_indx unum party s;
            if recunum < 0 then do {
              s1 \<leftarrow> tell unum (if recunum = -1 then msg_no_such_id party else t_which_party) s; Some (s1, True)
            }
            else do {
              v \<leftarrow> get_user s recunum;
              s1 \<leftarrow> act_out unum self (t_party (chatid u) part1 (chatid v) part2) s; Some (s1, True)
            }
          }
        })"

definition speak_action :: "int \<Rightarrow> string \<Rightarrow> string \<Rightarrow> bool \<Rightarrow> station \<Rightarrow> (station \<times> bool) option" where
  "speak_action unum cmd msg self s =
     (case map_of speak_data cmd of
        None \<Rightarrow> Some (s, False)
      | Some part1 \<Rightarrow> do {
          u \<leftarrow> get_user s unum;
          s1 \<leftarrow> act_out unum self (t_speak (chatid u) part1 msg) s; Some (s1, True)
        })"

definition condition_action :: "int \<Rightarrow> string \<Rightarrow> bool \<Rightarrow> station \<Rightarrow> (station \<times> bool) option" where
  "condition_action unum cmd self s =
     (case map_of condition_data cmd of
        None \<Rightarrow> Some (s, False)
      | Some part1 \<Rightarrow> do {
          u \<leftarrow> get_user s unum;
          s1 \<leftarrow> act_out unum self (t_condition (chatid u) part1) s; Some (s1, True)
        })"

text \<open>The verbs of a table, eight in a line; \<open>j\<close> counts them.\<close>

fun verbs_loop :: "int \<Rightarrow> string list \<Rightarrow> nat \<Rightarrow> station \<Rightarrow> (station \<times> nat) option" where
  "verbs_loop unum [] j s = Some (s, j + 1)"
| "verbs_loop unum (p # ps) j s = do {
     s1 \<leftarrow> strcat_buf p s;
     if (j + 1) mod 8 = 0 then do {
       s2 \<leftarrow> send_to_unum unum (buf s1) s1;
       verbs_loop unum ps (j + 1) (put_buf [] s2)
     }
     else do {
       s2 \<leftarrow> strcat_buf (replicate (min 8 (10 - length p)) (CHR '' '')) s1;
       verbs_loop unum ps (j + 1) s2
     }
   }"

definition dscrb :: "string list" where
  "dscrb = [t_verbs1, t_verbs2, t_verbs3]"

definition verbs :: "string list list" where
  "verbs = [map fst party_data, map fst speak_data, map fst condition_data]"

definition list_verbs :: "int \<Rightarrow> nat \<Rightarrow> station \<Rightarrow> station option" where
  "list_verbs unum i s = do {
     s1 \<leftarrow> send_to_unum unum (dscrb ! i) (s\<lparr>chatbuf := (chatbuf s)[0 := NUL]\<rparr>);
     (s2, j) \<leftarrow> verbs_loop unum (verbs ! i) 0 s1;
     s3 \<leftarrow> (if j mod 8 \<noteq> 0 then send_to_unum unum (buf s2) s2 else Some s2);
     send_to_unum unum '' '' s3
   }"

definition show_help :: "int \<Rightarrow> station \<Rightarrow> station option" where
  "show_help unum s = do {
     s1 \<leftarrow> send_to_unum unum t_help s;
     s2 \<leftarrow> send_to_unum unum ''  '' s1;
     s3 \<leftarrow> tell unum (t_help_line 1 t_verbs1) s2;
     s4 \<leftarrow> tell unum (t_help_line 2 t_verbs2) s3;
     s5 \<leftarrow> tell unum (t_help_line 3 t_verbs3) s4;
     send_to_unum unum '' '' s5
   }"

definition view_action_verb :: "int \<Rightarrow> string \<Rightarrow> station \<Rightarrow> station option" where
  "view_action_verb unum verb s =
     (let i = atoi verb - 1 in
      if 0 \<le> i \<and> i \<le> 2 then list_verbs unum (nat i) s
      else do {
        (s1, done1) \<leftarrow> party_action unum verb [] True s;
        if done1 then Some s1
        else do {
          (s2, done2) \<leftarrow> speak_action unum verb t_love True s1;
          if done2 then Some s2
          else do {
            (s3, done3) \<leftarrow> condition_action unum verb True s2;
            if done3 then Some s3 else show_help unum s3
          }
        }
      })"

section \<open>Commands\<close>

text \<open>The table of the commands: the name, the handler, and whether the name must be given in full.\<close>

definition chatcmdlist :: "(string \<times> (int \<Rightarrow> string \<Rightarrow> station \<Rightarrow> station option) \<times> bool) list" where
  "chatcmdlist =
     [(''act'', chat_act, False), (''bye'', chat_goodbye, False), (''flags'', chat_setroom, False),
      (''invite'', chat_invite, False), (''join'', chat_join, False), (''kick'', chat_kick, False),
      (''msg'', chat_private, False), (''nick'', chat_nick, False), (''operator'', chat_makeop, False),
      (''talk'', chat_maketalk, False), (''rooms'', chat_list_rooms, False), (''whoin'', chat_list_by_room, True),
      (''wall'', chat_broadcast, True), (''cloak'', chat_cloak, True), (''who'', chat_map_chatids_thisroom, False),
      (''list'', chat_list_users, False), (''topic'', chat_topic, False), (''hand'', chat_hand, False),
      (''rname'', chat_rename, False), (''paper'', chat_paper, False)]"

definition matches_cmd :: "string \<Rightarrow> string \<times> 'h \<times> bool \<Rightarrow> bool" where
  "matches_cmd cmd rec = (if snd (snd rec) then strcaseeq cmd (fst rec) else strncaseeq cmd (fst rec) (length cmd))"

text \<open>A line \<open>//verb\<close>; the result says whether it was understood.\<close>

definition verb_line :: "int \<Rightarrow> string \<Rightarrow> string \<Rightarrow> station \<Rightarrow> (station \<times> bool) option" where
  "verb_line unum verb msg s =
     (if verb = ''help'' \<or> verb = [] then do {
        s1 \<leftarrow> view_action_verb unum (fst (nextword msg)) s; Some (s1, True)
      }
      else do {
        u \<leftarrow> get_user s unum;
        r \<leftarrow> get_room s (room u);
        if has_flag r ROOM_NOEMOTE then do { s1 \<leftarrow> send_to_unum unum t_no_emotes s; Some (s1, True) }
        else do {
          (s1, done1) \<leftarrow> party_action unum verb msg False s;
          if done1 then Some (s1, True)
          else do {
            (s2, done2) \<leftarrow> speak_action unum verb msg False s1;
            if done2 then Some (s2, True) else condition_action unum verb False s2
          }
        }
      })"

definition slash_line :: "int \<Rightarrow> string \<Rightarrow> string \<Rightarrow> station \<Rightarrow> (station \<times> bool) option" where
  "slash_line unum cmd msg s =
     (case find (matches_cmd cmd) chatcmdlist of
        None \<Rightarrow> Some (s, False)
      | Some (_, handler, _) \<Rightarrow> do { s1 \<leftarrow> handler unum msg s; Some (s1, True) })"

text \<open>A line that is not a command, and the text of a line behind its slash.\<close>

definition say_line :: "int \<Rightarrow> string \<Rightarrow> station \<Rightarrow> station option" where
  "say_line unum msg s = do {
     u \<leftarrow> get_user s unum;
     r \<leftarrow> get_room s (room u);
     if has_flag r ROOM_SCHOOL \<and> \<not> SYSOP u \<and> \<not> ROOMOP u \<and> \<not> CANTALK u then tell unum t_no_mike s
     else chat_allmsg unum msg s
   }"

definition clear_ibuf :: "int \<Rightarrow> station \<Rightarrow> station option" where
  "clear_ibuf unum s = do { u \<leftarrow> get_user s unum; Some (set_user unum (u\<lparr>ibuf := replicate 128 NUL\<rparr>) s) }"

definition command_execute :: "int \<Rightarrow> station \<Rightarrow> (station \<times> int) option" where
  "command_execute unum s = do {
     u \<leftarrow> get_user s unum;
     let msg = cstr (ibuf u);
     if room u = -1 then
       if cget msg 0 \<noteq> CHR ''/'' \<or> cget msg 1 \<noteq> CHR ''!'' then Some (s, -1) else login_user unum (drop 2 msg) s
     else if cget msg 0 \<noteq> CHR ''/'' then do { s1 \<leftarrow> say_line unum msg s; Some (s1, 0) }
     else do {
       let (cmd, rest) = nextword (tl msg);
       (s1, match) \<leftarrow> (if cget cmd 0 = CHR ''/'' then verb_line unum (tl cmd) rest s else slash_line unum cmd rest s);
       s2 \<leftarrow> (if match then Some s1 else tell unum (t_unknown cmd) s1);
       s3 \<leftarrow> clear_ibuf unum s2;
       Some (s3, 0)
     }
   }"

section \<open>Packets and connections\<close>

text \<open>
  The loop of \<open>process_chat_command\<close> over the \<open>k\<close> bytes from position \<open>i\<close> of \<open>chatbuf\<close> on, which the
  commands write into; the count of the bytes of the unfinished line is kept in \<open>n\<close>.
\<close>

definition put_ibuf :: "int \<Rightarrow> nat \<Rightarrow> char \<Rightarrow> station \<Rightarrow> station option" where
  "put_ibuf unum n c s = do {
     u \<leftarrow> get_user s unum;
     b \<leftarrow> poke (ibuf u) n c;
     Some (set_user unum (u\<lparr>ibuf := b\<rparr>) s)
   }"

fun packet_loop :: "int \<Rightarrow> nat \<Rightarrow> nat \<Rightarrow> nat \<Rightarrow> station \<Rightarrow> (station \<times> nat \<times> int) option" where
  "packet_loop unum 0 i n s = Some (s, n, 0)"
| "packet_loop unum (Suc k) i n s =
     (let c = chatbuf s ! i in
      if c = CHR 0x0D then packet_loop unum k (i + 1) n s
      else if c = CHR 0x0A then do {
        s1 \<leftarrow> put_ibuf unum n NUL s;
        (s2, rc) \<leftarrow> command_execute unum s1;
        if rc = -1 then Some (s2, n, -1) else packet_loop unum k (i + 1) 0 s2
      }
      else if n < 127 then do { s1 \<leftarrow> put_ibuf unum n c s; packet_loop unum k (i + 1) (n + 1) s1 }
      else packet_loop unum k (i + 1) n s)"

definition process_chat_command :: "int \<Rightarrow> string \<Rightarrow> station \<Rightarrow> (station \<times> int) option" where
  "process_chat_command unum data s =
     (if data = [] then do { s1 \<leftarrow> exit_room unum EXIT_LOSTCONN None s; Some (s1, -1) }
      else do {
        u \<leftarrow> get_user s unum;
        let d = take 256 data;
        (s1, n, rc) \<leftarrow> packet_loop unum (length d) 0 (ibufsize u) (s\<lparr>chatbuf := d @ drop (length d) (chatbuf s)\<rparr>);
        if rc = -1 then Some (s1, -1)
        else do {
          u1 \<leftarrow> get_user s1 unum;
          Some (set_user unum (u1\<lparr>ibufsize := n\<rparr>) s1, 0)
        }
      })"

text \<open>The two parts of the loop of \<open>main\<close>: a connection, and a socket that can be read.\<close>

definition accept_client :: "int \<Rightarrow> string \<Rightarrow> station \<Rightarrow> station" where
  "accept_client clisock hst s =
     (let i = first_index (\<lambda>u. sockfd u = -1) (users s) 0 in
      if i = -1 then s
      else (set_user i ((users s ! nat i)\<lparr>host := hst, sockfd := clisock, room := -1\<rparr>)
              (s\<lparr>allfds := clisock # allfds s, nfds := max (nfds s) (clisock + 1), num_conns := num_conns s + 1\<rparr>)))"

definition serve_client :: "int \<Rightarrow> string \<Rightarrow> station \<Rightarrow> station option" where
  "serve_client i data s = do {
     u \<leftarrow> get_user s i;
     if sockfd u = -1 then Some s
     else do {
       (s1, rc) \<leftarrow> process_chat_command i data s;
       if rc = -1 then logout_user i s1 else Some s1
     }
   }"

definition start_station :: "nat \<Rightarrow> string \<Rightarrow> string \<Rightarrow> string \<Rightarrow> (int \<Rightarrow> bool) \<Rightarrow> int \<Rightarrow> station" where
  "start_station maxactive title tpc bbs wr sock =
     \<lparr>users = replicate maxactive (no_user\<lparr>room := 0\<rparr>),
      rooms = \<lparr>name = ''main'', occupants = 0, rflags = 0, invites = replicate maxactive 0, topic = take 47 tpc\<rparr>
              # replicate 31 \<lparr>name = [], occupants = 0, rflags = 0, invites = replicate maxactive 0, topic = []\<rparr>,
      chatbuf = replicate 256 NUL, out = [], writable = wr, allfds = [sock], nfds = sock + 1, num_conns = 0,
      maintopic = tpc, chatname = take 18 title, bbsname = bbs\<rparr>"

end
