(* ===== verification/ChatRooms.thy ===== *)
theory ChatRooms
  imports ChatCommands
begin

text \<open>
  The invariant of the chat server: the rooms know how many users are in them, the tables stay
  inside their bounds, and every command keeps it.
\<close>

unbundle bit_operations_syntax

section \<open>The invariant\<close>

definition in_room :: "int \<Rightarrow> chatuser \<Rightarrow> bool" where
  "in_room r u \<longleftrightarrow> sockfd u \<noteq> -1 \<and> room u = r"

definition heads :: "station \<Rightarrow> int \<Rightarrow> int" where
  "heads s r = int (length (filter (in_room r) (users s)))"

definition user_ok :: "chatuser \<Rightarrow> bool" where
  "user_ok u \<longleftrightarrow> (sockfd u = -1 \<and> flags u = 0 \<or> 0 \<le> sockfd u \<and> -1 \<le> room u \<and> room u < 32) \<and>
     length (chatid u) \<le> 8 \<and> length (ibuf u) = 128 \<and> ibufsize u \<le> 127"

definition station_ok :: "station \<Rightarrow> bool" where
  "station_ok s \<longleftrightarrow> 32 \<le> length (users s) \<and> length (rooms s) = 32 \<and> length (chatbuf s) = 256 \<and>
     (\<forall>u\<in>set (users s). user_ok u) \<and>
     (\<forall>r<32. occupants (rooms s ! r) = heads s (int r) \<and> length (invites (rooms s ! r)) = length (users s))"

definition active :: "station \<Rightarrow> int \<Rightarrow> bool" where
  "active s u \<longleftrightarrow> 0 \<le> u \<and> u < int (length (users s)) \<and> 0 \<le> sockfd (users s ! nat u)"

text \<open>What a message changes: \<open>chatbuf\<close> and \<open>out\<close>.\<close>

definition quiet :: "station \<Rightarrow> station \<Rightarrow> bool" where
  "quiet s s' \<longleftrightarrow> users s' = users s \<and> rooms s' = rooms s \<and> length (chatbuf s') = length (chatbuf s) \<and>
     maintopic s' = maintopic s \<and> nfds s' = nfds s \<and> writable s' = writable s \<and>
     allfds s' = allfds s \<and> num_conns s' = num_conns s \<and> bbsname s' = bbsname s \<and> chatname s' = chatname s"

lemma quiet_refl [simp]: "quiet s s"
  by (simp add: quiet_def)

lemma quiet_trans [trans]: "quiet s t \<Longrightarrow> quiet t u \<Longrightarrow> quiet s u"
  by (simp add: quiet_def)

lemma quiet_ok: "quiet s s' \<Longrightarrow> station_ok s \<Longrightarrow> station_ok s'"
  by (simp add: quiet_def station_ok_def heads_def)

lemma quiet_active: "quiet s s' \<Longrightarrow> active s' u \<longleftrightarrow> active s u"
  by (simp add: quiet_def active_def)

lemma quiet_get [simp]:
  assumes "quiet s s'"
  shows "get_user s' u = get_user s u" and "get_room s' r = get_room s r"
  using assms by (simp_all add: quiet_def get_user_def get_room_def)

lemma activeD: "active s u \<Longrightarrow> get_user s u = Some (users s ! nat u) \<and> 0 \<le> sockfd (users s ! nat u) \<and> nat u < length (users s)"
  by (auto simp: active_def get_user_def)

lemma okD:
  assumes "station_ok s"
  shows "32 \<le> length (users s)" "length (rooms s) = 32" "length (chatbuf s) = 256"
    and "i < length (users s) \<Longrightarrow> user_ok (users s ! i)"
    and "r < 32 \<Longrightarrow> occupants (rooms s ! r) = heads s (int r)"
    and "r < 32 \<Longrightarrow> length (invites (rooms s ! r)) = length (users s)"
  using assms by (auto simp: station_ok_def)

lemma get_room_ok: "station_ok s \<Longrightarrow> 0 \<le> r \<Longrightarrow> r < 32 \<Longrightarrow> get_room s r = Some (rooms s ! nat r)"
  by (simp add: get_room_def okD)

lemma active_room: "station_ok s \<Longrightarrow> active s u \<Longrightarrow> room (users s ! nat u) \<noteq> -1 \<Longrightarrow>
    get_room s (room (users s ! nat u)) = Some (rooms s ! nat (room (users s ! nat u))) \<and>
    0 \<le> room (users s ! nat u) \<and> room (users s ! nat u) < 32"
  using okD(4) [of s "nat u"] activeD [of s u] by (auto simp: user_ok_def get_room_ok)

section \<open>Messages\<close>

lemma length_snprintf [simp]: "xs \<noteq> [] \<Longrightarrow> length (snprintf xs t) = length xs"
  by (cases xs) (auto simp: snprintf_def Let_def min_def)

lemma do_send_quiet [simp]: "quiet s (do_send f t s)"
  by (simp add: quiet_def do_send_def)

lemma send_to_room_quiet [simp]: "quiet s (send_to_room r t s)"
  by (simp add: send_to_room_def)

lemma send_to_unum_quiet: "active s u \<Longrightarrow> \<exists>s'. send_to_unum u t s = Some s' \<and> quiet s s'"
  using activeD [of s u] by (simp add: send_to_unum_def)

lemma put_buf_quiet: "length (chatbuf s) = 256 \<Longrightarrow> quiet s (put_buf t s)"
  using length_snprintf [of "chatbuf s" t] by (fastforce simp: quiet_def put_buf_def)

lemma cat_buf_quiet: "length (chatbuf s) = 256 \<Longrightarrow> quiet s (cat_buf t s)"
  by (simp add: cat_buf_def put_buf_quiet)

lemma tell_quiet: "station_ok s \<Longrightarrow> active s u \<Longrightarrow> \<exists>s'. tell u t s = Some s' \<and> quiet s s'"
  using send_to_unum_quiet [of "put_buf t s" u] put_buf_quiet [of s t] okD(3) quiet_trans
  by (fastforce simp: tell_def Let_def quiet_active)

lemma tell_room_quiet: "length (chatbuf s) = 256 \<Longrightarrow> quiet s (tell_room r t s)"
  unfolding tell_room_def Let_def by (rule quiet_trans [OF put_buf_quiet send_to_room_quiet])

lemma strcat_buf_quiet: "length (buf s @ t) < length (chatbuf s) \<Longrightarrow> \<exists>s'. strcat_buf t s = Some s' \<and> quiet s s'"
  by (auto simp: strcat_buf_def strcpy_def quiet_def)

lemma set_room_sel [simp]:
  "users (set_room r x s) = users s" "chatbuf (set_room r x s) = chatbuf s"
  "rooms (set_room r x s) = (rooms s)[nat r := x]" "maintopic (set_room r x s) = maintopic s"
  by (simp_all add: set_room_def)

lemma set_user_sel [simp]:
  "users (set_user u x s) = (users s)[nat u := x]" "chatbuf (set_user u x s) = chatbuf s"
  "rooms (set_user u x s) = rooms s" "maintopic (set_user u x s) = maintopic s"
  by (simp_all add: set_user_def)

lemma get_user_set: "get_user (set_room r x s) u = get_user s u" "get_room (set_user u y s) r = get_room s r"
  by (simp_all add: get_user_def get_room_def)

text \<open>What is in \<open>chatbuf\<close> behind \<open>snprintf\<close>.\<close>

lemma is_cstr_texts: "is_cstr t \<Longrightarrow> length t < length b \<Longrightarrow> cstr (snprintf b t) = t"
  by (auto simp: snprintf_def Let_def)

lemma length_takeWhile_stop: "\<not> P y \<Longrightarrow> length (takeWhile P (xs @ y # ys)) \<le> length xs"
  by (induction xs) auto

lemma length_buf_put: "length (chatbuf s) = 256 \<Longrightarrow> length (buf (put_buf t s)) \<le> min 255 (length t)"
  using length_takeWhile_stop [of "\<lambda>c. c \<noteq> NUL" NUL "take 255 t" "drop (Suc (min (length t) 255)) (chatbuf s)"]
  by (simp add: buf_def put_buf_def snprintf_def Let_def cstr_def)
lemma length_buf_strcat:
  assumes "strcat_buf t s = Some s'"
  shows "length (buf s') \<le> length (buf s) + length t"
proof -
  have "chatbuf s' = (buf s @ t) @ NUL # drop (length (buf s @ t) + 1) (chatbuf s)"
    using assms by (auto simp: strcat_buf_def strcpy_def split: if_splits)
  then show ?thesis
    using length_takeWhile_stop [of "\<lambda>c. c \<noteq> NUL" NUL "buf s @ t" "drop (length (buf s @ t) + 1) (chatbuf s)"]
    by (simp add: buf_def [of s'] cstr_def)
qed

lemma length_t_logout: "length (t_logout a) = 49 + length a"
  by (simp add: t_logout_def esc_def)

lemma exit_text_quiet:
  assumes "length (chatbuf s) = 256" and "length (chatid u) \<le> 8"
  shows "\<exists>s'. exit_text u d msg s = Some s' \<and> quiet s s'"
proof (cases "d = EXIT_LOGOUT \<and> (\<exists>m. msg = Some m \<and> m \<noteq> [])")
  case True
  then obtain m where m: "d = EXIT_LOGOUT" "msg = Some m" "m \<noteq> []" by blast
  let ?s1 = "put_buf (t_logout (chatid u)) s"
  have q1: "quiet s ?s1" by (rule put_buf_quiet [OF assms(1)])
  have l1: "length (buf ?s1) \<le> 57" using length_buf_put [OF assms(1), of "t_logout (chatid u)"] assms(2) by (simp add: length_t_logout)
  have c1: "length (chatbuf ?s1) = 256" using q1 assms(1) by (simp add: quiet_def)
  then obtain s2 where s2: "strcat_buf '': '' ?s1 = Some s2" "quiet ?s1 s2"
    using strcat_buf_quiet [of ?s1 "'': ''"] l1 by auto
  have l2: "length (buf s2) \<le> 59" using length_buf_strcat [OF s2(1)] l1 by simp
  have c2: "length (chatbuf s2) = 256" using s2(2) c1 by (simp add: quiet_def)
  have "length (buf s2 @ take 80 m) < length (chatbuf s2)" using l2 c2 by (auto simp: min_def)
  then obtain s3 where "strcat_buf (take 80 m) s2 = Some s3" "quiet s2 s3"
    using strcat_buf_quiet by blast
  with m s2 q1 show ?thesis by (auto simp: exit_text_def Let_def intro: quiet_trans)
next
  case False
  then show ?thesis using put_buf_quiet [OF assms(1)] by (auto simp: exit_text_def Let_def split: disp.split option.split)
qed

section \<open>Counting\<close>

lemma count_update:
  "i < length xs \<Longrightarrow> int (length (filter P (xs[i := x]))) = int (length (filter P xs)) - of_bool (P (xs ! i)) + of_bool (P x)"
proof (induction xs arbitrary: i)
  case (Cons y xs)
  then show ?case by (cases i) auto
qed simp

lemma heads_set_user:
  assumes "nat u < length (users s)"
  shows "heads (set_user u x s) r = heads s r - of_bool (in_room r (users s ! nat u)) + of_bool (in_room r x)"
  using count_update [OF assms, of "in_room r" x] by (simp add: heads_def)

definition left :: "chatuser \<Rightarrow> chatuser" where
  "left u = u\<lparr>flags := flags u AND NOT PERM_CHATROOM, room := -1\<rparr>"

text \<open>The state behind \<open>exit_room\<close>, up to messages.\<close>

definition after_exit :: "int \<Rightarrow> station \<Rightarrow> station \<Rightarrow> bool" where
  "after_exit u s s' \<longleftrightarrow>
     (let x = users s ! nat u; s1 = (if room x = -1 then s else
        set_room (room x) ((rooms s ! nat (room x))\<lparr>occupants := occupants (rooms s ! nat (room x)) - 1\<rparr>) s)
      in quiet (set_user u (left x) s1) s')"

lemma quiet_set_user: "quiet s s' \<Longrightarrow> quiet (set_user u x s) (set_user u x s')"
  by (simp add: quiet_def set_user_def)

lemma quiet_set_room: "quiet s s' \<Longrightarrow> quiet (set_room r x s) (set_room r x s')"
  by (simp add: quiet_def set_room_def)

lemma exit_room_state:
  assumes ok: "station_ok s" and act: "active s u"
  shows "\<exists>s'. exit_room u d msg s = Some s' \<and> after_exit u s s'"
proof -
  let ?x = "users s ! nat u"
  have g: "get_user s u = Some ?x" "nat u < length (users s)" using activeD [OF act] by auto
  have x8: "length (chatid ?x) \<le> 8" using okD(4) [OF ok g(2)] by (simp add: user_ok_def)
  show ?thesis
  proof (cases "room ?x = -1")
    case True
    then show ?thesis using g by (simp add: exit_room_def after_exit_def left_def)
  next
    case False
    let ?r = "rooms s ! nat (room ?x)"
    let ?s0 = "set_room (room ?x) (?r\<lparr>occupants := occupants ?r - 1\<rparr>) s"
    have gr: "get_room s (room ?x) = Some ?r" using active_room [OF ok act False] by simp
    obtain s2 where s2: "exit_text ?x d msg ?s0 = Some s2" "quiet ?s0 s2"
      using exit_text_quiet [of ?s0 ?x d msg] x8 okD(3) [OF ok] by auto
    have q: "quiet ?s0 (if cloak ?x = 0 then send_to_room (room ?x) (buf s2) s2 else s2)"
      using quiet_trans [OF s2(2) send_to_room_quiet] s2(2) by simp
    show ?thesis
    proof (cases "occupants ?r - 1 = 0")
      case True
      then show ?thesis using g gr False by (simp add: exit_room_def after_exit_def left_def Let_def)
    next
      case ne: False
      then show ?thesis using g gr False s2(1) quiet_set_user [OF q]
        by (auto simp: exit_room_def after_exit_def left_def Let_def)
    qed
  qed
qed

lemma after_exit_ok:
  assumes ok: "station_ok s" and act: "active s u" and ex: "after_exit u s s'"
  shows "station_ok s'" and "active s' v \<longleftrightarrow> active s v" and "users s' = (users s)[nat u := left (users s ! nat u)]"
    and "length (rooms s') = 32" and "length (users s') = length (users s)"
proof -
  let ?x = "users s ! nat u"
  note a = activeD [OF act]
  show us: "users s' = (users s)[nat u := left ?x]"
    using ex by (auto simp: after_exit_def quiet_def Let_def split: if_splits)
  then show "length (users s') = length (users s)" by simp
  show lr: "length (rooms s') = 32" using ex okD(2) [OF ok] by (auto simp: after_exit_def quiet_def Let_def split: if_splits)
  have sk: "sockfd (left ?x) = sockfd ?x" by (simp add: left_def)
  then show "active s' v \<longleftrightarrow> active s v" using us by (cases "nat u = nat v") (auto simp: active_def)
  have uo: "user_ok (left ?x)" using okD(4) [OF ok, of "nat u"] a by (auto simp: user_ok_def left_def)
  have hd: "heads s' r = heads s r - of_bool (r = room ?x)" if "0 \<le> r" for r
  proof -
    have "heads s' r = heads (set_user u (left ?x) s) r" using us by (simp add: heads_def)
    also have "\<dots> = heads s r - of_bool (in_room r ?x) + of_bool (in_room r (left ?x))"
      by (rule heads_set_user) (use a in simp)
    finally show ?thesis using a that by (auto simp: in_room_def left_def)
  qed
  have oc: "occupants (rooms s' ! r) = occupants (rooms s ! r) - of_bool (int r = room ?x) \<and>
      length (invites (rooms s' ! r)) = length (users s)" if "r < 32" for r
  proof (cases "room ?x = -1")
    case True
    then have "rooms s' = rooms s" using ex by (simp add: after_exit_def quiet_def Let_def)
    then show ?thesis using that True okD(6) [OF ok] by simp
  next
    case False
    have rx: "0 \<le> room ?x" "room ?x < 32" using active_room [OF ok act False] by auto
    have "rooms s' = (rooms s)[nat (room ?x) := (rooms s ! nat (room ?x))\<lparr>occupants := occupants (rooms s ! nat (room ?x)) - 1\<rparr>]"
      using ex False by (simp add: after_exit_def quiet_def Let_def)
    then show ?thesis using that rx okD(2,6) [OF ok] by (auto simp: nth_list_update)
  qed
  have "\<forall>y\<in>set (users s'). user_ok y"
    using us uo ok by (auto simp: station_ok_def dest: set_update_subset_insert [THEN subsetD])
  moreover have "length (chatbuf s') = 256"
    using ex okD(3) [OF ok] by (auto simp: after_exit_def quiet_def Let_def split: if_splits)
  ultimately show "station_ok s'"
    using lr us okD(1,5) [OF ok] hd oc by (auto simp: station_ok_def)
qed

section \<open>Changes that keep the invariant\<close>

lemma station_okI:
  assumes "32 \<le> length (users s)" "length (rooms s) = 32" "length (chatbuf s) = 256"
    and "\<forall>u\<in>set (users s). user_ok u"
    and "\<And>r. r < 32 \<Longrightarrow> occupants (rooms s ! r) = heads s (int r) \<and> length (invites (rooms s ! r)) = length (users s)"
  shows "station_ok s"
  using assms by (simp add: station_ok_def)

lemma okU: "station_ok s \<Longrightarrow> \<forall>u\<in>set (users s). user_ok u"
  by (simp add: station_ok_def)

lemma users_ok_update: "\<forall>y\<in>set xs. user_ok y \<Longrightarrow> user_ok x \<Longrightarrow> \<forall>y\<in>set (xs[i := x]). user_ok y"
  by (auto dest: set_update_subset_insert [THEN subsetD])

lemma set_user_ok:
  assumes "station_ok s" and "nat u < length (users s)" and "user_ok y"
    and "\<And>r. 0 \<le> r \<Longrightarrow> in_room r y \<longleftrightarrow> in_room r (users s ! nat u)"
  shows "station_ok (set_user u y s)"
proof -
  have "heads (set_user u y s) (int r) = heads s (int r)" for r
    using heads_set_user [OF assms(2), of y "int r"] assms(4) [of "int r"] by simp
  moreover have "\<forall>y\<in>set (users (set_user u y s)). user_ok y"
    using users_ok_update [OF okU [OF assms(1)] assms(3)] by simp
  ultimately show ?thesis using okD [OF assms(1)] by (intro station_okI) simp_all
qed

lemma set_room_ok:
  assumes "station_ok s" and "0 \<le> r" and "r < 32" and "occupants x = occupants (rooms s ! nat r)"
    and "length (invites x) = length (users s)"
  shows "station_ok (set_room r x s)"
proof -
  have "occupants ((rooms s)[nat r := x] ! i) = heads s (int i) \<and>
      length (invites ((rooms s)[nat r := x] ! i)) = length (users s)" if "i < 32" for i
    using assms okD(2,5,6) [OF assms(1)] that by (cases "i = nat r") auto
  then show ?thesis using assms(1) by (auto simp: station_ok_def heads_def)
qed

lemma join_ok:
  assumes ok: "station_ok s" and u: "nat u < length (users s)" and x: "room (users s ! nat u) = -1"
    and r: "0 \<le> r" "r < 32" and y: "user_ok y" "room y = r" "sockfd y \<noteq> -1"
    and iv: "length iv = length (users s)"
  shows "station_ok (set_room r ((rooms s ! nat r)\<lparr>occupants := occupants (rooms s ! nat r) + 1, invites := iv\<rparr>)
           (set_user u y s))" (is "station_ok ?s'")
proof -
  have hd: "heads ?s' (int i) = heads s (int i) + of_bool (int i = r)" for i
  proof -
    have "heads ?s' (int i) = heads (set_user u y s) (int i)" by (simp add: heads_def)
    also have "\<dots> = heads s (int i) - of_bool (in_room (int i) (users s ! nat u)) + of_bool (in_room (int i) y)"
      by (rule heads_set_user [OF u])
    finally show ?thesis using x y by (auto simp: in_room_def)
  qed
  have "occupants (rooms ?s' ! i) = heads ?s' (int i) \<and> length (invites (rooms ?s' ! i)) = length (users s)"
    if "i < 32" for i
    unfolding hd using r iv okD(2,5,6) [OF ok] that by (cases "i = nat r") auto
  moreover have "\<forall>z\<in>set (users ?s'). user_ok z" using users_ok_update [OF okU [OF ok] y(1)] by simp
  ultimately show ?thesis using okD(1-3) [OF ok] by (intro station_okI) simp_all
qed

lemma first_index_hit:
  "first_index P xs i = -1 \<longleftrightarrow> (\<forall>x\<in>set xs. \<not> P x)" if "0 \<le> i"
  using that by (induction xs arbitrary: i) auto

lemma first_index_Some:
  "first_index P xs i = k \<Longrightarrow> 0 \<le> i \<Longrightarrow> k \<noteq> -1 \<Longrightarrow>
     i \<le> k \<and> k < i + int (length xs) \<and> P (xs ! nat (k - i)) \<and> (\<forall>j < nat (k - i). \<not> P (xs ! j))"
proof (induction xs arbitrary: i)
  case (Cons x xs)
  show ?case
  proof (cases "P x")
    case True
    with Cons.prems show ?thesis by auto
  next
    case False
    have IH: "i + 1 \<le> k \<and> k < i + 1 + int (length xs) \<and> P (xs ! nat (k - (i + 1))) \<and> (\<forall>j < nat (k - (i + 1)). \<not> P (xs ! j))"
      by (rule Cons.IH) (use Cons.prems False in auto)
    then have e: "nat (k - i) = Suc (nat (k - (i + 1)))" by (auto simp: nat_eq_iff)
    show ?thesis unfolding e using IH False by (auto simp: less_Suc_eq_0_disj)
  qed
qed simp

lemma new_room_ok:
  assumes ok: "station_ok s" and nr: "new_room rid s = (k, s')"
  shows "station_ok s'" and "users s' = users s" and "k = -1 \<or> 0 \<le> k \<and> k < 32" and "k = -1 \<longrightarrow> s' = s"
proof -
  let ?k = "first_index (\<lambda>r. occupants r = 0) (tl (rooms s)) 1"
  have k: "?k = k" using nr by (auto simp: new_room_def Let_def split: if_splits)
  have kr: "1 \<le> k \<and> k < 32 \<and> occupants (rooms s ! nat k) = 0" if "k \<noteq> -1"
  proof -
    have f: "1 \<le> k \<and> k < 1 + int (length (tl (rooms s))) \<and> occupants (tl (rooms s) ! nat (k - 1)) = 0"
      using first_index_Some [OF k _ that] by simp
    then have "nat k = Suc (nat (k - 1))" "nat (k - 1) < length (tl (rooms s))" by auto
    then have "tl (rooms s) ! nat (k - 1) = rooms s ! nat k" by (simp add: nth_tl)
    with f okD(2) [OF ok] show ?thesis by simp
  qed
  show "station_ok s'" "users s' = users s" "k = -1 \<or> 0 \<le> k \<and> k < 32" "k = -1 \<longrightarrow> s' = s"
    using nr k kr ok by (auto simp: new_room_def Let_def split: if_splits intro!: set_room_ok)
qed

section \<open>Entering and leaving\<close>

lemma quiet_users: "quiet s s' \<Longrightarrow> users s' = users s"
  by (simp add: quiet_def)

lemma tell_twice:
  assumes "station_ok s" and "active s u"
  shows "\<exists>s'. Option.bind (tell u t s) (tell u t') = Some s' \<and> quiet s s'"
proof -
  obtain s1 where s1: "tell u t s = Some s1" "quiet s s1" using tell_quiet [OF assms] by blast
  then obtain s2 where "tell u t' s1 = Some s2" "quiet s1 s2"
    using tell_quiet [of s1 u t'] assms quiet_ok quiet_active by blast
  with s1 show ?thesis using quiet_trans by auto
qed

definition entered :: "chatuser \<Rightarrow> int \<Rightarrow> bool \<Rightarrow> chatuser" where
  "entered x r opr = (left x)\<lparr>room := r, flags := (if opr then flags (left x) OR PERM_CHATROOM else flags (left x))\<rparr>"

lemma go_in_state:
  assumes ok: "station_ok s" and act: "active s u" and r: "0 \<le> rnum" "rnum < 32"
  shows "\<exists>s'. go_in u rnum opr rid msg s = Some s' \<and> station_ok s' \<and>
     users s' = (users s)[nat u := entered (users s ! nat u) rnum opr] \<and> invites (rooms s' ! nat rnum) ! nat u = 0"
proof -
  let ?x = "users s ! nat u" and ?y = "entered (users s ! nat u) rnum opr"
  obtain s1 where s1: "exit_room u EXIT_LOGOUT msg s = Some s1" "after_exit u s s1"
    using exit_room_state [OF ok act] by blast
  note a1 = after_exit_ok [OF ok act s1(2)]
  note a = activeD [OF act]
  have x1: "users s1 ! nat u = left ?x" "nat u < length (users s1)" using a a1(3) by auto
  have act1: "active s1 u" using act a1(2) by simp
  have yok: "user_ok ?y" using okD(4) [OF ok, of "nat u"] a r by (auto simp: user_ok_def entered_def left_def)
  let ?R = "rooms s1 ! nat rnum"
  let ?s2 = "set_user u ?y s1"
  let ?s3 = "set_room rnum (?R\<lparr>occupants := occupants ?R + 1, invites := (invites ?R)[nat u := 0]\<rparr>) ?s2"
  have ok3: "station_ok ?s3"
  proof (rule join_ok [OF a1(1) x1(2) _ r yok])
    show "sockfd ?y \<noteq> -1" using a by (auto simp: entered_def left_def)
  qed (use x1 okD(6) [OF a1(1), of "nat rnum"] r in \<open>simp_all add: left_def entered_def\<close>)
  let ?s4 = "if cloak ?y = 0 then tell_room rnum (t_enters (chatid ?y) (name ?R)) ?s3 else ?s3"
  have q4: "quiet ?s3 ?s4" using tell_room_quiet [of ?s3] okD(3) [OF ok3] by simp
  have act3: "active ?s3 u" using act1 x1 by (auto simp: active_def entered_def left_def)
  have "station_ok ?s4" "active ?s4 u" using q4 ok3 act3 quiet_ok quiet_active by blast+
  then obtain s6 where s6: "Option.bind (tell u (t_room rid) ?s4) (tell u (t_rtopic (topic ?R))) = Some s6" "quiet ?s4 s6"
    using tell_twice by blast
  have g: "get_user s1 u = Some (left ?x)" using activeD [OF act1] x1 by simp
  have gr: "get_room ?s2 rnum = Some ?R" using get_room_ok [OF a1(1) r] by (simp add: get_user_set)
  have y: "(left ?x)\<lparr>room := rnum, flags := (if opr then flags (left ?x) OR PERM_CHATROOM else flags (left ?x))\<rparr> = ?y"
    by (simp add: entered_def)
  have "go_in u rnum opr rid msg s = Some s6"
    using s6(1) by (simp only: go_in_def s1(1) Option.bind.simps Let_def g y gr)
  moreover have q6: "quiet ?s3 s6" by (rule quiet_trans [OF q4 s6(2)])
  moreover have "users s6 = (users s)[nat u := ?y]" using quiet_users [OF q6] a1(3) by simp
  moreover have "invites (rooms s6 ! nat rnum) ! nat u = 0"
    using q6 okD(2,6) [OF a1(1)] r x1(2) by (simp add: quiet_def)
  ultimately show ?thesis using quiet_ok [OF q6 ok3] by blast
qed

lemma roomid_range:
  assumes "station_ok s"
  shows "roomid_to_indx rid s = -1 \<or> 0 \<le> roomid_to_indx rid s \<and> roomid_to_indx rid s < 32"
proof -
  obtain r0 rs where r: "rooms s = r0 # rs" "length rs = 31" using okD(2) [OF assms] by (cases "rooms s") auto
  show ?thesis
    using first_index_Some [of "\<lambda>r. occupants r \<noteq> 0 \<and> strcaseeq rid (name r)" rs 1 "first_index (\<lambda>r. occupants r \<noteq> 0 \<and> strcaseeq rid (name r)) rs 1"] r
    by (auto simp: roomid_to_indx_def)
qed

text \<open>Entering a room: nothing but messages, or the user is in the room.\<close>

definition moved_to :: "int \<Rightarrow> station \<Rightarrow> station \<Rightarrow> bool" where
  "moved_to u s s' \<longleftrightarrow> users s' = users s \<or>
     (\<exists>r opr. 0 \<le> r \<and> r < 32 \<and> users s' = (users s)[nat u := entered (users s ! nat u) r opr])"

lemma enter_room_state:
  assumes ok: "station_ok s" and act: "active s u"
  shows "\<exists>s'. enter_room u rid msg s = Some s' \<and> station_ok s' \<and> moved_to u s s'"
proof -
  let ?x = "users s ! nat u" and ?rn = "roomid_to_indx rid s"
  have g: "get_user s u = Some ?x" using activeD [OF act] by simp
  have quiet_case: "\<exists>s'. send_to_unum u t s0 = Some s' \<and> station_ok s' \<and> moved_to u s s'"
    if "station_ok s0" "users s0 = users s" for s0 t
  proof -
    have "active s0 u" using act that(2) by (simp add: active_def)
    then obtain s' where "send_to_unum u t s0 = Some s'" "quiet s0 s'" using send_to_unum_quiet by blast
    then show ?thesis using that quiet_ok quiet_users by (auto simp: moved_to_def)
  qed
  show ?thesis
  proof (cases "?rn = -1 \<and> OUTSIDER ?x")
    case True
    then show ?thesis using quiet_case [OF ok refl] g by (simp add: enter_room_def)
  next
    case False
    obtain rnum s0 where p: "(if ?rn = -1 then new_room rid s else (?rn, s)) = (rnum, s0)" by fastforce
    have s0: "station_ok s0" "users s0 = users s" "rnum = -1 \<or> 0 \<le> rnum \<and> rnum < 32"
      using p ok new_room_ok [OF ok] roomid_range [OF ok, of rid] by (auto split: if_splits)
    show ?thesis
    proof (cases "rnum = -1")
      case True
      then show ?thesis using quiet_case [OF s0(1,2)] g False p by (auto simp: enter_room_def)
    next
      case ne: False
      then have r: "0 \<le> rnum" "rnum < 32" using s0(3) by auto
      have act0: "active s0 u" using act s0(2) by (simp add: active_def)
      obtain s' where s': "go_in u rnum (?rn = -1) rid msg s0 = Some s'" "station_ok s'"
          "users s' = (users s0)[nat u := entered (users s0 ! nat u) rnum (?rn = -1)]"
        using go_in_state [OF s0(1) act0 r] by blast
      then have mv: "moved_to u s s'" using s0(2) r by (auto simp: moved_to_def)
      have e: "enter_room u rid msg s = (if \<not> SYSOP ?x \<and> has_flag (rooms s0 ! nat rnum) ROOM_LOCKED \<and>
            invites (rooms s0 ! nat rnum) ! nat u = 0 then send_to_unum u t_locked s0
          else go_in u rnum (?rn = -1) rid msg s0)"
        using g False p ne get_room_ok [OF s0(1) r] by (auto simp: enter_room_def)
      show ?thesis unfolding e using quiet_case [OF s0(1,2)] s'(1,2) mv by auto
    qed
  qed
qed

lemma user_ok_no_user: "user_ok no_user"
  by (simp add: user_ok_def no_user_def)

lemma logout_ok:
  assumes ok: "station_ok s" and act: "active s u" and rm: "room (users s ! nat u) = -1"
  shows "\<exists>s'. logout_user u s = Some s' \<and> station_ok s' \<and> users s' = (users s)[nat u := no_user]"
proof -
  note a = activeD [OF act]
  let ?s1 = "s\<lparr>allfds := filter (\<lambda>f. f \<noteq> sockfd (users s ! nat u)) (allfds s),
          rooms := map (\<lambda>r. r\<lparr>invites := (invites r)[nat u := 0]\<rparr>) (rooms s), num_conns := num_conns s - 1\<rparr>"
  have "station_ok ?s1"
    by (rule station_okI) (use okD [OF ok] okU [OF ok] in \<open>simp_all add: heads_def\<close>)
  then have "station_ok (set_user u no_user ?s1)"
    using a rm user_ok_no_user by (intro set_user_ok) (auto simp: in_room_def no_user_def)
  then show ?thesis using a by (auto simp: logout_user_def)
qed

end
