(* ===== verification/ChatServer.thy ===== *)
theory ChatServer
  imports ChatRooms
begin

text \<open>
  Every command keeps the invariant of the chat server, so every state the server reaches from its
  start through connections and packets satisfies it.
\<close>

unbundle bit_operations_syntax

section \<open>Operations that only send\<close>

text \<open>\<open>hush s s'\<close>: nothing but messages lies between the two states.\<close>

definition hush :: "station \<Rightarrow> station \<Rightarrow> bool" where
  "hush s s' \<longleftrightarrow> (length (chatbuf s) = 256 \<longrightarrow> quiet s s')"

named_theorems hushes

lemma hush_refl [simp]: "hush s s"
  by (simp add: hush_def)

lemma hush_trans: "hush s t \<Longrightarrow> hush t u \<Longrightarrow> hush s u"
  by (auto simp: hush_def quiet_def)

lemma quiet_hush: "quiet s s' \<Longrightarrow> hush s s'"
  by (simp add: hush_def)

lemma hush_ok: "hush s s' \<Longrightarrow> station_ok s \<Longrightarrow> quiet s s'"
  by (simp add: hush_def okD(3))

lemma hush_put [simp]: "hush s (put_buf t s)" "hush s (cat_buf t s)" "hush s (tell_room r t s)" "hush s (send_to_room r t s)"
  by (simp_all add: hush_def put_buf_quiet cat_buf_quiet tell_room_quiet)

lemma hush_after [intro!]:
  assumes "hush s s1"
  shows "hush s (put_buf t s1)" "hush s (cat_buf t s1)" "hush s (tell_room r t s1)" "hush s (send_to_room r t s1)"
  using assms hush_trans hush_put by blast+

lemma hush_before:
  "hush (put_buf t s) s' \<Longrightarrow> hush s s'" "hush (cat_buf t s) s' \<Longrightarrow> hush s s'"
  "hush (tell_room r t s) s' \<Longrightarrow> hush s s'" "hush (send_to_room r t s) s' \<Longrightarrow> hush s s'"
  by (erule hush_trans [OF hush_put(1)] hush_trans [OF hush_put(2)] hush_trans [OF hush_put(3)] hush_trans [OF hush_put(4)])+

lemma hush_send [hushes]: "send_to_unum u t s = Some s' \<Longrightarrow> hush s s'"
  by (auto simp: send_to_unum_def hush_def bind_eq_Some_conv split: if_splits)

lemma hush_tell [hushes]: "tell u t s = Some s' \<Longrightarrow> hush s s'"
  unfolding tell_def Let_def by (rule hush_trans [OF hush_put(1) hush_send])

lemma hush_strcat [hushes]: "strcat_buf t s = Some s' \<Longrightarrow> hush s s'"
  by (auto simp: strcat_buf_def strcpy_def hush_def quiet_def split: if_splits)

lemma hush_put_at [simp]: "k < 256 \<Longrightarrow> hush s (put_at k t s)"
  by (auto simp: hush_def quiet_def put_at_def)

lemma hush_put_chatid [hushes]: "put_chatid u s = Some s' \<Longrightarrow> hush s s'"
  by (auto simp: put_chatid_def Let_def hush_def quiet_def split: if_splits)

lemma hush_bind: "Option.bind m f = Some s' \<Longrightarrow> (\<And>s1. m = Some s1 \<Longrightarrow> hush s s1) \<Longrightarrow>
    (\<And>s1. f s1 = Some s' \<Longrightarrow> hush s1 s') \<Longrightarrow> hush s s'"
  by (auto simp: bind_eq_Some_conv intro: hush_trans)

lemma hush_room_line [simp]: "hush s (room_line r s)"
  unfolding room_line_def Let_def by auto

lemma hush_rooms_loop [hushes]: "rooms_loop unum me rs i s = Some s' \<Longrightarrow> hush s s'"
proof (induction rs arbitrary: i s)
  case (Cons r rs)
  then show ?case
    by (auto simp: bind_eq_Some_conv Let_def split: if_splits intro: hush_trans hush_trans [OF hush_room_line] dest!: hush_send)
qed simp

lemma hush_users_loop [hushes]: "users_loop unum me w a b us cnt s = Some s' \<Longrightarrow> hush s s'"
proof (induction us arbitrary: cnt s)
  case (Cons u us)
  then show ?case
    by (auto simp: bind_eq_Some_conv split: if_splits intro: hush_trans dest!: hush_tell)
qed simp

lemma hush_user_list [hushes]: "chat_do_user_list unum msg w s = Some s' \<Longrightarrow> hush s s'"
  by (auto simp: chat_do_user_list_def bind_eq_Some_conv Let_def intro: hush_trans dest!: hushes)

lemma hush_map_loop [hushes]: "map_loop unum me w us c s = Some s' \<Longrightarrow> c < 3 \<Longrightarrow> hush s s'"
proof (induction us arbitrary: c s)
  case (Cons u us)
  have p: "hush s (put_at (c * 50) (who_cell c u) s)" using Cons.prems(2) by simp
  obtain l where l: "listed me w s u = Some l" using Cons.prems(1) by (auto simp: bind_eq_Some_conv)
  show ?case
  proof (cases l)
    case False
    then show ?thesis using Cons l by simp
  next
    case True
    show ?thesis
    proof (cases "c + 1 = 3")
      case c3: True
      then show ?thesis using Cons.prems(1) l True p
        by (auto simp: bind_eq_Some_conv Let_def dest!: hush_send Cons.IH intro: hush_trans [OF p] hush_trans [OF hush_trans [OF p]])
    next
      case False
      then have "map_loop unum me w us (c + 1) (put_at (c * 50) (who_cell c u) s) = Some s'"
        using Cons.prems(1) l True by (simp add: Let_def)
      then show ?thesis using Cons.IH [of "c + 1"] Cons.prems(2) False by (intro hush_trans [OF p]) simp
    qed
  qed
qed (auto split: if_splits dest: hush_send)

lemma hush_hand_loop [hushes]: "hand_loop u vs i s = Some s' \<Longrightarrow> hush s s'"
proof (induction vs arbitrary: i s)
  case (Cons v vs)
  then show ?case
    by (auto simp: bind_eq_Some_conv split: if_splits intro: hush_trans dest!: hush_tell)
qed simp

lemma hush_act_out [hushes]: "act_out unum self t s = Some s' \<Longrightarrow> hush s s'"
  by (auto simp: act_out_def bind_eq_Some_conv Let_def split: if_splits intro: hush_trans hush_trans [OF hush_put(1)] dest!: hush_send)

lemma hush_verbs_loop [hushes]: "verbs_loop unum ps j s = Some (s', k) \<Longrightarrow> hush s s'"
proof (induction ps arbitrary: j s)
  case (Cons p ps)
  then show ?case
    by (auto simp: bind_eq_Some_conv split: if_splits intro: hush_trans hush_trans [OF _ hush_put(1)] dest!: hush_send hush_strcat)
qed simp

lemma hush_count [hushes]: "print_user_counts unum s = Some s' \<Longrightarrow> hush s s'"
  by (auto simp: print_user_counts_def bind_eq_Some_conv Let_def split: if_splits
      intro: hush_trans dest!: hush_tell hush_send dest: hush_before)

section \<open>Commands that change users and rooms\<close>

text \<open>The user is connected, or has just been logged out.\<close>

definition present :: "station \<Rightarrow> int \<Rightarrow> bool" where
  "present s u \<longleftrightarrow> 0 \<le> u \<and> u < int (length (users s)) \<and> (0 \<le> sockfd (users s ! nat u) \<or> room (users s ! nat u) = -1)"

definition calm :: "int \<Rightarrow> station \<Rightarrow> station \<Rightarrow> bool" where
  "calm u s s' \<longleftrightarrow> (station_ok s \<and> active s u \<longrightarrow> station_ok s' \<and> active s' u)"

definition fine :: "int \<Rightarrow> station \<Rightarrow> station \<Rightarrow> bool" where
  "fine u s s' \<longleftrightarrow> (station_ok s \<and> active s u \<longrightarrow> station_ok s' \<and> present s' u)"

lemma active_present: "active s u \<Longrightarrow> present s u"
  by (simp add: active_def present_def)

lemma quiet_present: "quiet s s' \<Longrightarrow> present s' u \<longleftrightarrow> present s u"
  by (simp add: quiet_def present_def)

lemma calm_fine: "calm u s s' \<Longrightarrow> fine u s s'"
  using active_present by (auto simp: calm_def fine_def)

lemma calm_trans: "calm u s t \<Longrightarrow> calm u t s' \<Longrightarrow> calm u s s'"
  by (simp add: calm_def)

lemma hush_calm: "hush s s' \<Longrightarrow> calm u s s'"
  using hush_ok quiet_ok quiet_active by (fastforce simp: calm_def)

lemma calm_hush: "calm u s s1 \<Longrightarrow> hush s1 s' \<Longrightarrow> calm u s s'"
  using calm_trans hush_calm by blast

lemma chatid_active:
  assumes "station_ok s" and "chatid_to_indx a nm s = Some v" and "v \<noteq> -1"
  shows "active s v"
proof -
  obtain P where P: "first_index (\<lambda>u. sockfd u \<noteq> -1 \<and> P u) (users s) 0 = v"
    using assms(2) by (auto simp: chatid_to_indx_def bind_eq_Some_conv)
  have v: "0 \<le> v" "v < int (length (users s))" "sockfd (users s ! nat v) \<noteq> -1"
    using first_index_Some [OF P _ assms(3)] by auto
  then show ?thesis using okD(4) [OF assms(1), of "nat v"] by (auto simp: active_def user_ok_def)
qed

text \<open>A change of a connected user that leaves the user in the room.\<close>

definition stays :: "chatuser \<Rightarrow> chatuser \<Rightarrow> bool" where
  "stays x y \<longleftrightarrow> sockfd y = sockfd x \<and> room y = room x \<and> length (chatid y) \<le> 8 \<and> length (ibuf y) = 128 \<and> ibufsize y \<le> 127"

lemma stays_ok:
  assumes ok: "station_ok s" and act: "active s v" and st: "stays (users s ! nat v) y"
  shows "station_ok (set_user v y s)" and "active (set_user v y s) w \<longleftrightarrow> active s w"
proof -
  note a = activeD [OF act]
  have "user_ok y" using st okD(4) [OF ok, of "nat v"] a by (auto simp: stays_def user_ok_def)
  then show "station_ok (set_user v y s)"
    using st a by (intro set_user_ok [OF ok]) (auto simp: stays_def in_room_def)
  show "active (set_user v y s) w \<longleftrightarrow> active s w"
    using st by (cases "nat v = nat w") (auto simp: active_def stays_def)
qed

lemma stays_update:
  assumes "station_ok s" and "active s v"
  shows "stays (users s ! nat v) ((users s ! nat v)\<lparr>flags := f\<rparr>)" "stays (users s ! nat v) ((users s ! nat v)\<lparr>cloak := c\<rparr>)"
    and "length cid \<le> 8 \<Longrightarrow> stays (users s ! nat v) ((users s ! nat v)\<lparr>chatid := cid\<rparr>)"
  using okD(4) [OF assms(1), of "nat v"] activeD [OF assms(2)] by (auto simp: stays_def user_ok_def)

text \<open>A change of a room that leaves its counts alone.\<close>

definition keeps_room :: "chatroom \<Rightarrow> chatroom \<Rightarrow> bool" where
  "keeps_room x y \<longleftrightarrow> occupants y = occupants x \<and> length (invites y) = length (invites x)"

lemma keeps_room_calm:
  assumes "get_room s r = Some x" and "keeps_room x y"
  shows "calm u s (set_room r y s)"
proof -
  have r: "0 \<le> r" "r < int (length (rooms s))" "x = rooms s ! nat r"
    using assms(1) by (auto simp: get_room_def split: if_splits)
  have "station_ok (set_room r y s)" if ok: "station_ok s"
    using set_room_ok [OF ok r(1), of y] r okD(2,6) [OF ok] assms(2) by (auto simp: keeps_room_def)
  then show ?thesis by (auto simp: calm_def active_def)
qed

lemma stays_calm:
  assumes "station_ok s \<Longrightarrow> active s v \<and> stays (users s ! nat v) y"
  shows "calm u s (set_user v y s)"
  using assms stays_ok by (auto simp: calm_def)

lemma get_userD: "get_user s u = Some x \<Longrightarrow> x = users s ! nat u"
  by (auto simp: get_user_def split: if_splits)

lemma calm_flags_loop: "flags_loop unum u sign cs s = Some s' \<Longrightarrow> calm unum s s'"
proof (induction cs arbitrary: s)
  case (Cons c cs)
  show ?case
  proof (cases "room_flag c")
    case None
    then show ?thesis using Cons.prems hush_calm [OF hush_tell] by simp
  next
    case (Some a)
    then obtain f t where a: "room_flag c = Some (f, t)" by (cases a) auto
    obtain r where r: "get_room s (room u) = Some r" using Cons.prems a by (auto simp: bind_eq_Some_conv)
    let ?s1 = "if has_flag r f \<noteq> sign then tell_room (room u) (t_flag_set (chatid u) (if sign then t_set else t_unset) t)
        (set_room (room u) (r\<lparr>rflags := rflags r XOR f\<rparr>) s) else s"
    have "calm unum s ?s1"
      using keeps_room_calm [OF r, of "r\<lparr>rflags := rflags r XOR f\<rparr>" unum] hush_put(3) calm_hush
      by (auto simp: keeps_room_def hush_calm)
    moreover have "calm unum ?s1 s'" using Cons a r by (simp add: bind_eq_Some_conv)
    ultimately show ?thesis by (rule calm_trans)
  qed
qed (simp add: hush_calm)

lemma bindE: "Option.bind m f = Some y \<Longrightarrow> (\<And>x. m = Some x \<Longrightarrow> f x = Some y \<Longrightarrow> P) \<Longrightarrow> P"
  by (auto simp: bind_eq_Some_conv)

named_theorems calms

lemma calm_setroom [calms]: "chat_setroom u msg s = Some s' \<Longrightarrow> calm u s s'"
  by (auto simp: chat_setroom_def Let_def elim!: bindE split: if_splits dest!: hush_send calm_flags_loop intro: hush_calm)

lemma calm_rename [calms]: "chat_rename u msg s = Some s' \<Longrightarrow> calm u s s'"
  by (auto simp: chat_rename_def elim!: bindE split: if_splits dest!: hush_send intro!: hush_calm)

lemma calm_topic [calms]:
  assumes "chat_topic u msg s = Some s'"
  shows "calm u s s'"
proof -
  have "calm u s (tell_room a b (tell_room c d (set_room q (r\<lparr>topic := t\<rparr>) s)))" if "get_room s q = Some r" for a b c d q r t
    using keeps_room_calm [OF that, of "r\<lparr>topic := t\<rparr>"] by (rule calm_hush) (auto simp: keeps_room_def)
  then show ?thesis
    using assms by (auto simp: chat_topic_def Let_def elim!: bindE split: if_splits dest!: hush_send intro: hush_calm)
qed

lemma calm_private [calms]: "chat_private u msg s = Some s' \<Longrightarrow> calm u s s'"
  by (auto simp: chat_private_def Let_def elim!: bindE split: if_splits prod.splits
      intro!: hush_calm intro: hush_trans dest!: hush_send hush_tell hush_before) (erule (1) hush_trans)

lemma calm_allmsg [calms]: "chat_allmsg u msg s = Some s' \<Longrightarrow> calm u s s'"
  by (auto simp: chat_allmsg_def elim!: bindE split: if_splits intro!: hush_calm intro: hush_trans dest!: hushes)

lemma calm_act [calms]: "chat_act u msg s = Some s' \<Longrightarrow> calm u s s'"
  by (auto simp: chat_act_def elim!: bindE split: if_splits dest!: hush_send intro!: hush_calm)

lemma calm_broadcast [calms]: "chat_broadcast u msg s = Some s' \<Longrightarrow> calm u s s'"
  by (auto simp: chat_broadcast_def elim!: bindE split: if_splits dest!: hush_send intro!: hush_calm)

lemma calm_hand [calms]: "chat_hand u msg s = Some s' \<Longrightarrow> calm u s s'"
  by (auto simp: chat_hand_def elim!: bindE split: if_splits intro!: hush_calm intro: hush_trans dest!: hushes)

lemma calm_lists [calms]:
  "chat_list_rooms u msg s = Some s' \<Longrightarrow> calm u s s'"
  "chat_list_by_room u msg s = Some s' \<Longrightarrow> calm u s s'"
  "chat_list_users u msg s = Some s' \<Longrightarrow> calm u s s'"
  "chat_map_chatids_thisroom u msg s = Some s' \<Longrightarrow> calm u s s'"
  by (auto simp: chat_list_rooms_def chat_list_by_room_def chat_list_users_def chat_map_chatids_thisroom_def
      chat_map_chatids_def Let_def elim!: bindE split: if_splits prod.splits
      intro!: hush_calm intro: hush_trans dest!: hushes)

lemma calm_nick [calms]:
  assumes "chat_nick u msg s = Some s'"
  shows "calm u s s'"
proof -
  let ?cid = "take 8 (fst (nextword msg))"
  have step: "calm u s (set_user u (x\<lparr>chatid := ?cid\<rparr>) (tell_room r t s))" if x: "get_user s u = Some x" for x r t
  proof (rule calm_trans [OF hush_calm [OF hush_put(3)]])
    have e: "users (tell_room r t s) = users s" by (simp add: tell_room_def put_buf_def send_to_room_def do_send_def Let_def)
    show "calm u (tell_room r t s) (set_user u (x\<lparr>chatid := ?cid\<rparr>) (tell_room r t s))"
      using get_userD [OF x] stays_update(3) [of "tell_room r t s" u ?cid] stays_ok [of "tell_room r t s" u] e
      by (auto simp: calm_def)
  qed
  show ?thesis
    using assms by (auto simp: chat_nick_def Let_def elim!: bindE split: if_splits dest!: hush_send hush_tell)
      (erule hush_calm | rule calm_hush [OF step], assumption, assumption)+
qed

text \<open>A handler that changes its own user and then only sends.\<close>

lemma calm_self:
  assumes "get_user s u = Some x" and "stays x y \<or> (\<exists>f. y = x\<lparr>flags := f\<rparr>) \<or> (\<exists>c. y = x\<lparr>cloak := c\<rparr>)"
  shows "calm u s (set_user u y s)"
proof -
  have "stays (users s ! nat u) y" if "station_ok s" "active s u"
    using assms(2) stays_update(1,2) [OF that] get_userD [OF assms(1)] by auto
  then show ?thesis using stays_ok by (auto simp: calm_def)
qed

lemma calm_cloak [calms]:
  assumes "chat_cloak u msg s = Some s'"
  shows "calm u s s'"
proof -
  obtain x where x: "get_user s u = Some x" using assms by (auto simp: chat_cloak_def elim: bindE)
  have step: "calm u s (set_user u (x\<lparr>cloak := c\<rparr>) s)" for c by (rule calm_self [OF x]) blast
  show ?thesis
  proof (cases "CLOAK x")
    case True
    with assms x have "tell u (t_cloak (chatid x) (if (if cloak x = 1 then 0 else 1) = (1::int) then t_cloak_on else t_cloak_off))
        (set_user u (x\<lparr>cloak := if cloak x = 1 then 0 else 1\<rparr>) s) = Some s'"
      by (simp add: chat_cloak_def Let_def split del: if_split)
    then show ?thesis by (rule calm_hush [OF step hush_tell])
  next
    case False
    with assms x show ?thesis by (simp add: chat_cloak_def hush_calm)
  qed
qed

lemma calm_paper [calms]: "chat_paper u msg s = Some s' \<Longrightarrow> calm u s s'"
  unfolding chat_paper_def Let_def
  by (elim bindE) (blast intro: calm_hush [OF calm_self] hush_tell)

text \<open>Giving flags to another connected user.\<close>

lemma calm_other:
  assumes "chatid_to_indx a nm s = Some v" and "v \<noteq> -1" and "get_user s v = Some x"
  shows "calm u s (set_user v (x\<lparr>flags := f\<rparr>) s)"
  using chatid_active [OF _ assms(1,2)] get_userD [OF assms(3)] stays_update(1) stays_ok by (auto simp: calm_def)

lemma calm_maketalk [calms]: "chat_maketalk u msg s = Some s' \<Longrightarrow> calm u s s'"
  by (auto simp: chat_maketalk_def Let_def elim!: bindE split: if_splits dest!: hush_send hush_tell)
    (erule hush_calm | rule calm_hush [OF calm_other hush_put(3)], assumption+)+

lemma calm_makeop [calms]:
  assumes "chat_makeop u msg s = Some s'"
  shows "calm u s s'"
proof -
  have step: "calm u s (set_user v (y\<lparr>flags := g\<rparr>) (set_user u (x\<lparr>flags := f\<rparr>) s))"
    if x: "get_user s u = Some x" "get_user s v = Some y" and v: "chatid_to_indx u nm s = Some v" "v \<noteq> -1" "u \<noteq> v"
    for x y v nm f g
    unfolding calm_def
  proof (rule impI, elim conjE)
    assume ok: "station_ok s" and au: "active s u"
    let ?s1 = "set_user u (x\<lparr>flags := f\<rparr>) s"
    note st = stays_update(1) [OF ok au, of f]
    have y: "y = users ?s1 ! nat v" using x v(3) by (auto simp: get_user_def split: if_splits)
    have ok1: "station_ok ?s1" using stays_ok(1) [OF ok au st] get_userD [OF x(1)] by simp
    have act1: "active ?s1 w \<longleftrightarrow> active s w" for w using stays_ok(2) [OF ok au st] get_userD [OF x(1)] by simp
    then have av: "active ?s1 v" using chatid_active [OF ok v(1,2)] by simp
    note st1 = stays_update(1) [OF ok1 av, of g]
    show "station_ok (set_user v (y\<lparr>flags := g\<rparr>) ?s1) \<and> active (set_user v (y\<lparr>flags := g\<rparr>) ?s1) u"
      using stays_ok [OF ok1 av st1] y act1 au by simp
  qed
  show ?thesis
    using assms by (auto simp: chat_makeop_def Let_def elim!: bindE split: if_splits dest!: hush_send hush_tell)
      (erule hush_calm | rule calm_hush [OF step hush_put(3)], assumption+)+
qed

lemma calm_invite [calms]:
  assumes "chat_invite u msg s = Some s'"
  shows "calm u s s'"
proof -
  have step: "calm u s (set_room q (r\<lparr>invites := (invites r)[k := n]\<rparr>) s)" if "get_room s q = Some r" for q r k n
    by (rule keeps_room_calm [OF that]) (simp add: keeps_room_def)
  show ?thesis
    using assms by (auto simp: chat_invite_def Let_def elim!: bindE split: if_splits dest!: hush_send hush_tell)
      (erule hush_calm | rule calm_hush [OF step hush_trans], assumption+)+
qed

lemma moved_active: "moved_to u s s' \<Longrightarrow> active s' v \<longleftrightarrow> active s v"
  by (cases "nat u = nat v") (auto simp: moved_to_def active_def entered_def left_def)

lemma enter_room_ok:
  assumes "enter_room v rid msg s = Some s'" and "station_ok s" and "active s v"
  shows "station_ok s'" and "active s' u \<longleftrightarrow> active s u"
  using enter_room_state [OF assms(2,3), of rid msg] assms(1) moved_active by auto

lemma calm_enter: "enter_room u rid msg s = Some s' \<Longrightarrow> calm u s s'"
  using enter_room_ok unfolding calm_def by blast

lemma calm_join [calms]: "chat_join u msg s = Some s' \<Longrightarrow> calm u s s'"
  by (auto simp: chat_join_def elim!: bindE split: if_splits prod.splits dest!: hush_send intro: hush_calm calm_enter)

lemma exit_room_ok:
  assumes "exit_room v d msg s = Some s'" and "station_ok s" and "active s v"
  shows "station_ok s'" and "active s' u \<longleftrightarrow> active s u" and "users s' = (users s)[nat v := left (users s ! nat v)]"
  using exit_room_state [OF assms(2,3), of d msg] assms after_exit_ok [OF assms(2,3)] by auto

lemma calm_goodbye [calms]: "chat_goodbye u msg s = Some s' \<Longrightarrow> calm u s s'"
  using exit_room_ok by (auto simp: chat_goodbye_def calm_def)

text \<open>The only command behind which the user may be gone: an operator can be kicked by oneself.\<close>

lemma fine_kick: "chat_kick u msg s = Some s' \<Longrightarrow> fine u s s'"
  unfolding fine_def
proof (rule impI, elim conjE)
  assume k: "chat_kick u msg s = Some s'" and ok: "station_ok s" and au: "active s u"
  obtain x where x: "get_user s u = Some x" using activeD [OF au] by simp
  consider (quiet) "hush s s'" | (kick) v nm s1 where "chatid_to_indx u nm s = Some v" "v \<noteq> -1"
      "exit_room v EXIT_KICK None s = Some s1" "(if room x = 0 then logout_user v s1 else enter_room v ''main'' None s1) = Some s'"
    using k x unfolding chat_kick_def
    by (auto elim!: bindE split: if_splits simp: Let_def dest!: hush_tell hush_send)
  then show "station_ok s' \<and> present s' u"
  proof cases
    case quiet
    then have "fine u s s'" by (rule calm_fine [OF hush_calm])
    then show ?thesis using ok au by (simp add: fine_def)
  next
    case kick
    have av: "active s v" by (rule chatid_active [OF ok kick(1,2)])
    note ex = exit_room_ok [OF kick(3) ok av]
    have av1: "active s1 v" using ex(2) av by simp
    show ?thesis
    proof (cases "room x = 0")
      case True
      have rm: "room (users s1 ! nat v) = -1" using ex(3) activeD [OF av] by (simp add: left_def)
      obtain s2 where s2: "logout_user v s1 = Some s2" "station_ok s2" "users s2 = (users s1)[nat v := no_user]"
        using logout_ok [OF ex(1) av1 rm] by blast
      have "present s1 u" using ex(2) au active_present by simp
      then have "present s2 u" using s2(3) by (cases "nat u = nat v") (auto simp: present_def no_user_def)
      then show ?thesis using s2(1,2) kick(4) True by simp
    next
      case False
      then show ?thesis using enter_room_ok [of v _ _ s1 s'] kick(4) ex av1 au active_present by simp
    qed
  qed
qed

lemma command_fine: "(n, h, b) \<in> set chatcmdlist \<Longrightarrow> h u msg s = Some s' \<Longrightarrow> fine u s s'"
  by (auto simp: chatcmdlist_def dest!: fine_kick dest: calms intro: calm_fine)

section \<open>A line, a packet, a connection\<close>

lemma hush_party [hushes]: "party_action u cmd p self s = Some (s', d) \<Longrightarrow> hush s s'"
  by (auto simp: party_action_def elim!: bindE split: option.splits if_splits dest!: hush_act_out hush_tell)

lemma hush_speak [hushes]: "speak_action u cmd p self s = Some (s', d) \<Longrightarrow> hush s s'"
  by (auto simp: speak_action_def elim!: bindE split: option.splits dest!: hush_act_out)

lemma hush_condition [hushes]: "condition_action u cmd self s = Some (s', d) \<Longrightarrow> hush s s'"
  by (auto simp: condition_action_def elim!: bindE split: option.splits dest!: hush_act_out)

lemma hush_clear: "length (chatbuf s) = 256 \<Longrightarrow> quiet s (s\<lparr>chatbuf := (chatbuf s)[0 := NUL]\<rparr>)"
  by (simp add: quiet_def)

lemma hush_list_verbs [hushes]: "list_verbs u i s = Some s' \<Longrightarrow> hush s s'"
proof -
  assume a: "list_verbs u i s = Some s'"
  have 0: "hush s (s\<lparr>chatbuf := (chatbuf s)[0 := NUL]\<rparr>)" by (simp add: hush_def hush_clear)
  obtain s1 s2 j s3 where s1: "send_to_unum u (dscrb ! i) (s\<lparr>chatbuf := (chatbuf s)[0 := NUL]\<rparr>) = Some s1"
    and s2: "verbs_loop u (verbs ! i) 0 s1 = Some (s2, j)"
    and s3: "(if j mod 8 \<noteq> 0 then send_to_unum u (buf s2) s2 else Some s2) = Some s3" and s4: "send_to_unum u '' '' s3 = Some s'"
    using a unfolding list_verbs_def by (auto elim!: bindE split: prod.splits)
  have "hush s2 s3" using s3 by (auto split: if_splits dest: hush_send)
  then show ?thesis
    using hush_trans [OF 0 hush_trans [OF hush_send [OF s1] hush_verbs_loop [OF s2]]] hush_send [OF s4] hush_trans by blast
qed

lemma hush_help [hushes]: "show_help u s = Some s' \<Longrightarrow> hush s s'"
  by (auto simp: show_help_def elim!: bindE dest!: hush_send hush_tell) (blast intro: hush_trans)

lemma hush_view [hushes]: "view_action_verb u v s = Some s' \<Longrightarrow> hush s s'"
  unfolding view_action_verb_def Let_def
  by (auto elim!: bindE split: if_splits prod.splits dest!: hushes) (blast intro: hush_trans)+

lemma hush_verb_line: "verb_line u v msg s = Some (s', d) \<Longrightarrow> hush s s'"
  unfolding verb_line_def
  by (auto elim!: bindE split: if_splits prod.splits dest!: hushes) (blast intro: hush_trans)+

lemma find_in: "find P xs = Some x \<Longrightarrow> x \<in> set xs"
  by (auto simp: find_Some_iff)

lemma fine_slash_line: "slash_line u cmd msg s = Some (s', d) \<Longrightarrow> fine u s s'"
  unfolding slash_line_def
  by (auto elim!: bindE split: option.splits dest!: find_in command_fine intro: calm_fine [OF hush_calm])

lemma calm_say_line: "say_line u msg s = Some s' \<Longrightarrow> calm u s s'"
  by (auto simp: say_line_def elim!: bindE split: if_splits dest!: hush_tell calm_allmsg intro: hush_calm)

text \<open>The input of the user is cleared or extended.\<close>

lemma set_ibuf_ok:
  assumes ok: "station_ok s" and pr: "present s u" and x: "get_user s u = Some x"
    and y: "y = x\<lparr>ibuf := b, ibufsize := n\<rparr>" "length b = 128" "n \<le> 127"
  shows "station_ok (set_user u y s)" and "present (set_user u y s) u" and "active (set_user u y s) u \<longleftrightarrow> active s u"
proof -
  have u: "nat u < length (users s)" "x = users s ! nat u" using pr get_userD [OF x] by (auto simp: present_def)
  have "user_ok y" using okD(4) [OF ok u(1)] u(2) y by (auto simp: user_ok_def)
  then show "station_ok (set_user u y s)" using u y(1) by (intro set_user_ok [OF ok]) (auto simp: in_room_def)
  show "present (set_user u y s) u" "active (set_user u y s) u \<longleftrightarrow> active s u"
    using pr u y(1) by (auto simp: present_def active_def)
qed

text \<open>The two ways through \<open>login_user\<close>: a refusal, or an entry in the table and the main room.\<close>

lemma login_cases:
  assumes l: "login_user u msg s = Some (s', rc)" and quiet: "hush s s' \<Longrightarrow> P"
    and enter: "\<And>x y ut fl cl uid cid s1 s2. get_user s u = Some x \<Longrightarrow> login_entry x ut fl cl uid cid = Some y \<Longrightarrow>
        send_to_unum u ''OK'' (set_user u y s) = Some s1 \<Longrightarrow> print_user_counts u s1 = Some s2 \<Longrightarrow>
        enter_room u ''main'' None s2 = Some s' \<Longrightarrow> rc = 0 \<Longrightarrow> P"
  shows P
  using l unfolding login_user_def Let_def
  by (auto elim!: bindE split: if_split_asm prod.splits) (erule quiet [OF hush_send] | erule (5) enter)+

lemma login_state:
  assumes l: "login_user u msg s = Some (s', rc)" and ok: "station_ok s" and act: "active s u"
    and rm: "room (users s ! nat u) = -1"
  shows "station_ok s' \<and> active s' u \<and> (rc = -1 \<longrightarrow> room (users s' ! nat u) = -1)"
  using l
proof (rule login_cases)
  assume "hush s s'"
  then have q: "quiet s s'" by (rule hush_ok [OF _ ok])
  then have "users s' = users s" by (rule quiet_users)
  then show ?thesis using quiet_ok [OF q ok] act rm by (simp add: active_def)
next
  fix x y ut fl cl uid cid s1 s2
  assume x: "get_user s u = Some x" and y: "login_entry x ut fl cl uid cid = Some y"
    and s1: "send_to_unum u ''OK'' (set_user u y s) = Some s1" and s2: "print_user_counts u s1 = Some s2"
    and e: "enter_room u ''main'' None s2 = Some s'" and rc: "rc = 0"
  have "stays (users s ! nat u) y"
    using y okD(4) [OF ok, of "nat u"] activeD [OF act] get_userD [OF x]
    by (auto simp: stays_def user_ok_def login_entry_def split: if_splits)
  note st = stays_ok [OF ok act this]
  have q: "quiet (set_user u y s) s2" by (rule hush_ok [OF hush_trans [OF hush_send [OF s1] hush_count [OF s2]] st(1)])
  have "station_ok s2" "active s2 u" using q st act quiet_ok quiet_active by blast+
  then show ?thesis using enter_room_ok [OF e] rc by simp
qed

lemma login_absent:
  assumes "station_ok s" and "present s u" and "\<not> active s u" and "login_user u msg s = Some r"
  shows False
proof -
  have "send_to_unum u t s = None" "sockfd y = sockfd (users s ! nat u) \<Longrightarrow> send_to_unum u t (set_user u y s) = None" for t y
    using assms(2,3) by (auto simp: send_to_unum_def get_user_def present_def active_def split: if_splits)
  then show False
    using assms(4) unfolding login_user_def Let_def
    by (auto elim!: bindE split: if_splits prod.splits simp: login_entry_def dest!: get_userD)
qed

lemma execute_state:
  assumes e: "command_execute u s = Some (s', rc)" and ok: "station_ok s" and pr: "present s u"
  shows "station_ok s' \<and> present s' u \<and> (rc = -1 \<longrightarrow> room (users s' ! nat u) = -1)"
proof -
  let ?x = "users s ! nat u"
  have g: "get_user s u = Some ?x" using pr by (simp add: present_def get_user_def)
  show ?thesis
  proof (cases "room ?x = -1")
    case True
    show ?thesis
    proof (cases "rc = -1 \<and> s' = s")
      case same: True
      then show ?thesis using ok pr True by simp
    next
      case False
      then have l: "login_user u (drop 2 (cstr (ibuf ?x))) s = Some (s', rc)"
        using e g True by (auto simp: command_execute_def Let_def split: if_splits)
      then have "active s u" using login_absent [OF ok pr] by blast
      then show ?thesis using login_state [OF l ok _ True] active_present by blast
    qed
  next
    case False
    then have act: "active s u" using pr by (auto simp: present_def active_def)
    let ?msg = "cstr (ibuf ?x)"
    obtain cmd rest where nw: "nextword (tl ?msg) = (cmd, rest)" by fastforce
    consider (say) "say_line u ?msg s = Some s'" "rc = 0"
      | (command) s1 m s2 where
          "(if cget cmd 0 = CHR ''/'' then verb_line u (tl cmd) rest s else slash_line u cmd rest s) = Some (s1, m)"
          "(if m then Some s1 else tell u (t_unknown cmd) s1) = Some s2" "clear_ibuf u s2 = Some s'" "rc = 0"
    proof (cases "cget ?msg 0 = CHR ''/''")
      case True
      have "Option.bind (if cget cmd 0 = CHR ''/'' then verb_line u (tl cmd) rest s else slash_line u cmd rest s)
          (\<lambda>(s1, m). Option.bind (if m then Some s1 else tell u (t_unknown cmd) s1)
            (\<lambda>s2. Option.bind (clear_ibuf u s2) (\<lambda>s3. Some (s3, 0)))) = Some (s', rc)"
        using e True False nw by (simp add: command_execute_def g Let_def cong: if_cong)
      then show ?thesis by (elim bindE) (auto elim!: bindE intro: that(2) simp del: if_split_asm split del: if_split)
    next
      case no: False
      then show ?thesis using e g False that(1) by (auto simp: command_execute_def Let_def elim!: bindE)
    qed
    then show ?thesis
    proof cases
      case say
      then show ?thesis using calm_say_line [OF say(1)] ok act active_present by (auto simp: calm_def)
    next
      case command
      have "fine u s s1"
        using command(1) by (auto split: if_split_asm dest: hush_verb_line fine_slash_line intro: calm_fine [OF hush_calm])
      then have s1: "station_ok s1" "present s1 u" using ok act by (auto simp: fine_def)
      have "hush s1 s2" using command(2) by (auto split: if_split_asm dest: hush_tell)
      then have q: "quiet s1 s2" by (rule hush_ok [OF _ s1(1)])
      then have s2: "station_ok s2" "present s2 u" using s1 quiet_ok quiet_present by blast+
      obtain y where y: "get_user s2 u = Some y" "s' = set_user u (y\<lparr>ibuf := replicate 128 NUL\<rparr>) s2"
        using command(3) by (auto simp: clear_ibuf_def elim: bindE)
      have "ibufsize y \<le> 127" using s2 okD(4) [OF s2(1), of "nat u"] get_userD [OF y(1)] by (auto simp: present_def user_ok_def)
      then show ?thesis using set_ibuf_ok [OF s2 y(1), where y = "y\<lparr>ibuf := replicate 128 NUL\<rparr>" and n = "ibufsize y"] y(2) command(4) by simp
    qed
  qed
qed

lemma put_ibuf_state:
  assumes p: "put_ibuf u n c s = Some s'" and ok: "station_ok s" and pr: "present s u"
  shows "station_ok s' \<and> present s' u"
proof -
  obtain x b where x: "get_user s u = Some x" and b: "poke (ibuf x) n c = Some b" and s': "s' = set_user u (x\<lparr>ibuf := b\<rparr>) s"
    using p by (auto simp: put_ibuf_def elim!: bindE)
  have xo: "user_ok x" using pr get_userD [OF x] okD(4) [OF ok, of "nat u"] by (auto simp: present_def)
  have "length b = 128" using b xo by (auto simp: poke_def user_ok_def split: if_splits)
  then show ?thesis
    using set_ibuf_ok [OF ok pr x, where y = "x\<lparr>ibuf := b\<rparr>" and b = b and n = "ibufsize x"] xo s' by (simp add: user_ok_def)
qed

lemma packet_state:
  "packet_loop u k i n s = Some (s', n', rc) \<Longrightarrow> station_ok s \<Longrightarrow> present s u \<Longrightarrow> n \<le> 127 \<Longrightarrow>
     station_ok s' \<and> present s' u \<and> n' \<le> 127 \<and> (rc = -1 \<longrightarrow> room (users s' ! nat u) = -1)"
proof (induction k arbitrary: i n s)
  case (Suc k)
  let ?c = "chatbuf s ! i"
  consider (cr) "?c = CHR 0x0D" | (lf) "?c = CHR 0x0A" | (other) "?c \<noteq> CHR 0x0D" "?c \<noteq> CHR 0x0A" by blast
  then show ?case
  proof cases
    case cr
    then have "packet_loop u k (i + 1) n s = Some (s', n', rc)" using Suc.prems(1) by (simp add: Let_def)
    then show ?thesis using Suc.prems(2-) by (rule Suc.IH)
  next
    case lf
    then obtain s1 s2 r where s1: "put_ibuf u n NUL s = Some s1" and s2: "command_execute u s1 = Some (s2, r)"
      and r: "(if r = -1 then Some (s2, n, -1) else packet_loop u k (i + 1) 0 s2) = Some (s', n', rc)"
      using Suc.prems(1) by (auto simp: Let_def elim!: bindE split: prod.splits)
    have "station_ok s1" "present s1 u" using put_ibuf_state [OF s1] Suc.prems by auto
    then have e: "station_ok s2 \<and> present s2 u \<and> (r = -1 \<longrightarrow> room (users s2 ! nat u) = -1)" by (rule execute_state [OF s2])
    show ?thesis
    proof (cases "r = -1")
      case True
      then show ?thesis using r e Suc.prems(4) by auto
    next
      case False
      then show ?thesis using r e Suc.IH [of "i + 1" 0 s2] by simp
    qed
  next
    case other
    show ?thesis
    proof (cases "n < 127")
      case True
      then obtain s1 where s1: "put_ibuf u n ?c s = Some s1" and l: "packet_loop u k (i + 1) (n + 1) s1 = Some (s', n', rc)"
        using Suc.prems(1) other by (auto simp: Let_def elim!: bindE)
      have "station_ok s1" "present s1 u" using put_ibuf_state [OF s1] Suc.prems by auto
      then show ?thesis using Suc.IH [OF l] True by simp
    next
      case False
      then have "packet_loop u k (i + 1) n s = Some (s', n', rc)" using Suc.prems(1) other by (simp add: Let_def)
      then show ?thesis using Suc.prems(2-) by (rule Suc.IH)
    qed
  qed
qed simp

lemma process_state:
  assumes p: "process_chat_command u data s = Some (s', rc)" and ok: "station_ok s" and act: "active s u"
  shows "station_ok s' \<and> present s' u \<and> (rc = -1 \<longrightarrow> room (users s' ! nat u) = -1)"
proof (cases "data = []")
  case True
  then have ex: "exit_room u EXIT_LOSTCONN None s = Some s'" using p by (auto simp: process_chat_command_def elim!: bindE)
  note e = exit_room_ok [OF ex ok act]
  show ?thesis using e(1,3) active_present [of s' u] e(2) act activeD [OF act] by (simp add: left_def)
next
  case False
  let ?d = "take 256 data"
  let ?s0 = "s\<lparr>chatbuf := ?d @ drop (length ?d) (chatbuf s)\<rparr>"
  have q: "quiet s ?s0" using okD(3) [OF ok] by (auto simp: quiet_def)
  obtain x s1 n r where x: "get_user s u = Some x" and l: "packet_loop u (length ?d) 0 (ibufsize x) ?s0 = Some (s1, n, r)"
    and f: "(if r = -1 then Some (s1, -1) else Option.bind (get_user s1 u) (\<lambda>y. Some (set_user u (y\<lparr>ibufsize := n\<rparr>) s1, 0))) = Some (s', rc)"
    using p False by (auto simp: process_chat_command_def Let_def elim!: bindE split: prod.splits)
  have "ibufsize x \<le> 127" using okD(4) [OF ok, of "nat u"] activeD [OF act] get_userD [OF x] by (auto simp: user_ok_def)
  moreover have "station_ok ?s0" "present ?s0 u" using quiet_ok [OF q ok] quiet_present [OF q] active_present [OF act] by auto
  ultimately have st: "station_ok s1" "present s1 u" "n \<le> 127" "r = -1 \<longrightarrow> room (users s1 ! nat u) = -1"
    using packet_state [OF l] by auto
  show ?thesis
  proof (cases "r = -1")
    case True
    then show ?thesis using f st by auto
  next
    case False
    then obtain y where y: "get_user s1 u = Some y" "s' = set_user u (y\<lparr>ibufsize := n\<rparr>) s1" "rc = 0"
      using f by (auto elim!: bindE)
    have "length (ibuf y) = 128" using st okD(4) [OF st(1), of "nat u"] get_userD [OF y(1)] by (auto simp: present_def user_ok_def)
    then show ?thesis
      using set_ibuf_ok [OF st(1,2) y(1), where y = "y\<lparr>ibufsize := n\<rparr>" and b = "ibuf y" and n = n] st(3) y(2,3) by simp
  qed
qed

lemma serve_ok:
  assumes sv: "serve_client i data s = Some s'" and ok: "station_ok s"
  shows "station_ok s'"
proof -
  obtain x where x: "get_user s i = Some x" using sv by (auto simp: serve_client_def elim!: bindE)
  have i: "0 \<le> i" "nat i < length (users s)" "x = users s ! nat i" using x by (auto simp: get_user_def split: if_splits)
  show ?thesis
  proof (cases "sockfd x = -1")
    case True
    then show ?thesis using sv ok x by (simp add: serve_client_def)
  next
    case False
    then have act: "active s i" using okD(4) [OF ok i(2)] i by (auto simp: user_ok_def active_def)
    obtain s1 rc where p: "process_chat_command i data s = Some (s1, rc)" and f: "(if rc = -1 then logout_user i s1 else Some s1) = Some s'"
      using sv x False by (auto simp: serve_client_def elim!: bindE split: prod.splits)
    have st: "station_ok s1" "present s1 i" "rc = -1 \<longrightarrow> room (users s1 ! nat i) = -1" using process_state [OF p ok act] by auto
    show ?thesis
    proof (cases "rc = -1")
      case True
      then have lo: "logout_user i s1 = Some s'" using f by simp
      then have "active s1 i"
        using st(2) by (auto simp: logout_user_def present_def active_def get_user_def elim!: bindE split: if_splits)
      then show ?thesis using logout_ok [OF st(1), of i] lo st(3) True by auto
    next
      case False
      then show ?thesis using f st by simp
    qed
  qed
qed

lemma accept_ok:
  assumes ok: "station_ok s" and sock: "0 \<le> sock"
  shows "station_ok (accept_client sock hst s)"
proof -
  let ?i = "first_index (\<lambda>u. sockfd u = -1) (users s) 0"
  show ?thesis
  proof (cases "?i = -1")
    case True
    then show ?thesis using ok by (simp add: accept_client_def)
  next
    case False
    have i: "0 \<le> ?i" "nat ?i < length (users s)" "sockfd (users s ! nat ?i) = -1"
      using first_index_Some [of _ _ _ ?i, OF refl _ False] by auto
    let ?s1 = "s\<lparr>allfds := sock # allfds s, nfds := max (nfds s) (sock + 1), num_conns := num_conns s + 1\<rparr>"
    let ?y = "(users s ! nat ?i)\<lparr>host := hst, sockfd := sock, room := -1\<rparr>"
    have ok1: "station_ok ?s1" using ok by (simp add: station_ok_def heads_def)
    have "user_ok ?y" using okD(4) [OF ok i(2)] sock by (simp add: user_ok_def)
    then have "station_ok (set_user ?i ?y ?s1)"
      using i by (intro set_user_ok [OF ok1]) (auto simp: in_room_def)
    then show ?thesis using False by (simp add: accept_client_def Let_def)
  qed
qed

lemma heads_start: "heads (start_station n t tp b w k) r = 0"
  by (simp add: heads_def start_station_def in_room_def no_user_def)

lemma start_ok: "32 \<le> n \<Longrightarrow> station_ok (start_station n title tpc bbs wr sock)"
proof (rule station_okI)
  fix r :: nat assume "r < 32"
  then show "occupants (rooms (start_station n title tpc bbs wr sock) ! r) = heads (start_station n title tpc bbs wr sock) (int r) \<and>
      length (invites (rooms (start_station n title tpc bbs wr sock) ! r)) = length (users (start_station n title tpc bbs wr sock))"
    unfolding heads_start by (cases r) (simp_all add: start_station_def)
qed (auto simp: start_station_def user_ok_def no_user_def)

text \<open>
  The states the server can be in: after its start, clients connect, the clients send bytes or
  disconnect (no bytes), and which sockets can be written to changes at any time.
\<close>

inductive reachable :: "station \<Rightarrow> bool" where
  start: "32 \<le> n \<Longrightarrow> reachable (start_station n title tpc bbs wr sock)"
| connect: "reachable s \<Longrightarrow> 0 \<le> sock \<Longrightarrow> reachable (accept_client sock hst s)"
| serve: "reachable s \<Longrightarrow> serve_client i data s = Some s' \<Longrightarrow> reachable s'"
| select: "reachable s \<Longrightarrow> reachable (s\<lparr>writable := wr\<rparr>)"

lemma reachable_ok: "reachable s \<Longrightarrow> station_ok s"
proof (induction rule: reachable.induct)
  case (select s wr)
  then show ?case by (simp add: station_ok_def heads_def)
qed (simp_all add: start_ok accept_ok serve_ok)

end
