(* ===== verification/ChatSafety.thy ===== *)
theory ChatSafety
  imports ChatServer
begin

text \<open>
  In a state of the chat server that satisfies the invariant the commands of a user who is in a
  room stay inside the arrays, the socket sets and the buffer.  The search for a part of a name is
  the exception.
\<close>

unbundle bit_operations_syntax

section \<open>Total operations\<close>

text \<open>\<open>goes m s\<close>: the operation returns, and only messages were sent.\<close>

definition goes :: "station option \<Rightarrow> station \<Rightarrow> bool" where
  "goes m s \<longleftrightarrow> (\<exists>s'. m = Some s' \<and> quiet s s')"

lemma goes_Some [simp]: "goes (Some s') s \<longleftrightarrow> quiet s s'"
  by (simp add: goes_def)

lemma goes_bind:
  assumes "goes m s" and "\<And>s1. quiet s s1 \<Longrightarrow> goes (f s1) s1"
  shows "goes (Option.bind m f) s"
proof -
  obtain s1 where "m = Some s1" "quiet s s1" using assms(1) by (auto simp: goes_def)
  then show ?thesis using assms(2) [of s1] quiet_trans by (fastforce simp: goes_def)
qed

lemma goes_send: "active s u \<Longrightarrow> goes (send_to_unum u t s) s"
  using send_to_unum_quiet by (simp add: goes_def)

lemma goes_tell: "station_ok s \<Longrightarrow> active s u \<Longrightarrow> goes (tell u t s) s"
  using tell_quiet by (simp add: goes_def)

lemma goes_from: "goes m s1 \<Longrightarrow> quiet s s1 \<Longrightarrow> goes m s"
  unfolding goes_def using quiet_trans by blast

lemma goesD: "goes m s \<Longrightarrow> m \<noteq> None"
  by (auto simp: goes_def)

text \<open>The state behind a message is again one from which messages go out.\<close>

definition live :: "int \<Rightarrow> station \<Rightarrow> bool" where
  "live u s \<longleftrightarrow> station_ok s \<and> active s u"

lemma live_quiet: "quiet s s' \<Longrightarrow> live u s \<Longrightarrow> live u s'"
  using quiet_ok quiet_active by (auto simp: live_def)

lemma live_send: "live u s \<Longrightarrow> goes (send_to_unum u t s) s" "live u s \<Longrightarrow> goes (tell u t s) s"
  by (simp_all add: live_def goes_send goes_tell)

lemma live_get: "live u s \<Longrightarrow> get_user s u = Some (users s ! nat u)"
  using activeD by (simp add: live_def)

lemma live_put: "live u s \<Longrightarrow> quiet s (put_buf t s)" "live u s \<Longrightarrow> quiet s (cat_buf t s)" "live u s \<Longrightarrow> quiet s (tell_room r t s)"
  by (simp_all add: live_def okD(3) put_buf_quiet cat_buf_quiet tell_room_quiet)

lemma goes_rooms_loop: "live u s \<Longrightarrow> goes (rooms_loop u me rs i s) s"
proof (induction rs arbitrary: i s)
  case (Cons r rs)
  have q: "quiet s (room_line r s)" using hush_room_line hush_ok Cons.prems by (simp add: live_def)
  have "goes (Option.bind (send_to_unum u (buf (room_line r s)) (room_line r s)) (rooms_loop u me rs (i + 1))) s"
    by (rule goes_from [OF goes_bind q]) (use Cons live_quiet q live_send in auto)
  then show ?case using Cons by (simp add: Let_def)
qed simp

lemma listed_total: "station_ok s \<Longrightarrow> user_ok v \<Longrightarrow> \<exists>b. listed me w s v = Some b"
  by (auto simp: listed_def user_ok_def get_room_ok)

lemma listed_room: "listed me w s v = Some True \<Longrightarrow> user_ok v \<Longrightarrow> station_ok s \<Longrightarrow> \<exists>r. get_room s (room v) = Some r"
  by (auto simp: listed_def user_ok_def get_room_ok split: if_splits)

lemma goes_users_loop: "live u s \<Longrightarrow> \<forall>v\<in>set us. user_ok v \<Longrightarrow> goes (users_loop u me w a b us c s) s"
proof (induction us arbitrary: c s)
  case (Cons v us)
  have ok: "station_ok s" "user_ok v" using Cons.prems by (auto simp: live_def)
  obtain l where l: "listed me w s v = Some l" using listed_total [OF ok] by blast
  show ?case
  proof (cases l)
    case False
    then show ?thesis using Cons l by simp
  next
    case True
    then obtain r where "get_room s (room v) = Some r" using listed_room [of me w s v] l ok by auto
    then obtain t where t: "user_line v s = Some t" by (auto simp: user_line_def)
    have "goes (Option.bind (tell u t s) (users_loop u me w a b us (c + 1))) s"
      by (rule goes_bind) (use Cons live_quiet live_send in auto)
    then show ?thesis using Cons l True t by simp
  qed
qed simp

lemma goes_map_loop: "live u s \<Longrightarrow> \<forall>v\<in>set us. user_ok v \<Longrightarrow> c < 3 \<Longrightarrow> goes (map_loop u me w us c s) s"
proof (induction us arbitrary: c s)
  case Nil
  then show ?case by (simp add: live_send)
next
  case (Cons v us)
  have ok: "station_ok s" "user_ok v" using Cons.prems by (auto simp: live_def)
  obtain l where l: "listed me w s v = Some l" using listed_total [OF ok] by blast
  let ?s1 = "put_at (c * 50) (who_cell c v) s"
  have q: "quiet s ?s1" using hush_put_at [of "c * 50" s] Cons.prems(3) hush_ok ok by simp
  note l1 = live_quiet [OF q Cons.prems(1)]
  have "goes (Option.bind (send_to_unum u (buf ?s1) ?s1) (map_loop u me w us 0)) s"
    by (rule goes_from [OF goes_bind q]) (use Cons live_quiet l1 live_send in auto)
  moreover have "goes (map_loop u me w us (c + 1) ?s1) s" if "c + 1 \<noteq> 3"
    by (rule goes_from [OF Cons.IH q]) (use Cons.prems l1 that in auto)
  ultimately show ?case using Cons l by (cases l) (auto simp: Let_def)
qed

lemma users_okD: "live u s \<Longrightarrow> \<forall>v\<in>set (users s). user_ok v"
  unfolding live_def by (rule okU [OF conjunct1])

lemma goes_user_list:
  assumes "live u s"
  shows "goes (chat_do_user_list u msg w s) s"
proof -
  have "goes (users_loop u me w a b (users s1) 0 s1) s1" if "quiet s s1" for s1 me a b
    using goes_users_loop live_quiet [OF that assms] users_okD by blast
  then show ?thesis
    using assms by (simp add: chat_do_user_list_def live_get Let_def) (blast intro: goes_bind live_send(1))
qed

lemma goes_who:
  assumes "live u s"
  shows "goes (chat_map_chatids u w s) s"
proof -
  have "goes (map_loop u me w (users s1) 0 s1) s1" if "quiet s s1" for s1 me
    using goes_map_loop [OF live_quiet [OF that assms]] live_quiet [OF that assms] users_okD by simp
  then show ?thesis
    using assms by (simp add: chat_map_chatids_def live_get) (blast intro: goes_bind live_send(1))
qed

lemma goes_hand_loop: "live u s \<Longrightarrow> \<forall>j<length vs. users s ! (i + j) = vs ! j \<Longrightarrow> i + length vs = length (users s) \<Longrightarrow>
    goes (hand_loop x vs (int i) s) s"
proof (induction vs arbitrary: i s)
  case (Cons v vs)
  have v: "users s ! i = v" "i < length (users s)" using Cons.prems(2,3) by (auto dest: spec [of _ 0])
  have nx: "\<forall>j<length vs. users s1 ! (Suc i + j) = vs ! j" "Suc i + length vs = length (users s1)" if "quiet s s1" for s1
    using Cons.prems(2,3) that quiet_users by (auto dest: spec [of _ "Suc _"])
  show ?case
  proof (cases "SYSOP v \<or> ROOMOP v")
    case True
    then have "flags v \<noteq> 0" by (auto simp: SYSOP_def ROOMOP_def)
    then have act: "active s (int i)" using okD(4) [of s i] Cons.prems(1) v by (auto simp: live_def user_ok_def active_def)
    have "goes (Option.bind (tell (int i) (t_hand (chatid x)) s) (hand_loop x vs (int (Suc i)))) s"
    proof (rule goes_bind)
      show "goes (tell (int i) (t_hand (chatid x)) s) s" using act Cons.prems(1) goes_tell by (simp add: live_def)
      show "goes (hand_loop x vs (int (Suc i)) s1) s1" if "quiet s s1" for s1
        by (rule Cons.IH [OF live_quiet [OF that Cons.prems(1)] nx [OF that]])
    qed
    then show ?thesis using True by (simp add: add.commute)
  next
    case False
    then show ?thesis using Cons.IH [OF Cons.prems(1) nx(1,2) [OF quiet_refl]] by (simp add: add.commute)
  qed
qed simp

section \<open>The commands\<close>

text \<open>A user who is connected and in a room.\<close>

definition inside :: "int \<Rightarrow> station \<Rightarrow> bool" where
  "inside u s \<longleftrightarrow> live u s \<and> room (users s ! nat u) \<noteq> -1"

lemma insideD:
  assumes "inside u s"
  shows "live u s" and "get_user s u = Some (users s ! nat u)"
    and "get_room s (room (users s ! nat u)) = Some (rooms s ! nat (room (users s ! nat u)))"
  using assms live_get active_room by (auto simp: inside_def live_def)

lemma inside_quiet: "quiet s s' \<Longrightarrow> inside u s \<Longrightarrow> inside u s'"
  using live_quiet quiet_users by (simp add: inside_def)

lemma chatid_total:
  assumes "station_ok s" and "0 \<le> a" and "a < int (length (users s))"
  shows "\<exists>v. chatid_to_indx a nm s = Some v \<and> (v \<noteq> -1 \<longrightarrow> active s v)"
proof -
  obtain v where v: "chatid_to_indx a nm s = Some v" using assms(2,3) by (auto simp: chatid_to_indx_def get_user_def)
  then show ?thesis using chatid_active [OF assms(1) v] by blast
qed

text \<open>\<open>chatid_to_indx(0, ...)\<close> and \<open>chatid_to_indx(unum, ...)\<close>.\<close>

lemma inside_chatid:
  assumes "inside u s"
  shows "\<exists>v. chatid_to_indx 0 nm s = Some v" and "\<exists>v. chatid_to_indx u nm s = Some v \<and> (v \<noteq> -1 \<longrightarrow> active s v)"
proof -
  have ok: "station_ok s" "0 \<le> u" "u < int (length (users s))" using assms by (auto simp: inside_def live_def active_def)
  show "\<exists>v. chatid_to_indx u nm s = Some v \<and> (v \<noteq> -1 \<longrightarrow> active s v)" by (rule chatid_total [OF ok])
  show "\<exists>v. chatid_to_indx 0 nm s = Some v" using chatid_total [OF ok(1), of 0 nm] okD(1) [OF ok(1)] by fastforce
qed

named_theorems runs

lemma goes_runs: "goes m s \<Longrightarrow> \<exists>s'. m = Some s'"
  by (auto simp: goes_def)

lemma sends: "live u s \<Longrightarrow> \<exists>s'. send_to_unum u t s = Some s'" "live u s \<Longrightarrow> \<exists>s'. tell u t s = Some s'"
  using live_send goes_runs by blast+

lemma inside_sends: "inside u s \<Longrightarrow> \<exists>s'. send_to_unum u t s = Some s'" "inside u s \<Longrightarrow> \<exists>s'. tell u t s = Some s'"
  using sends insideD by blast+

lemma inside_set_room:
  assumes i: "inside u s" and k: "keeps_room (rooms s ! nat (room (users s ! nat u))) y"
  shows "inside u (set_room (room (users s ! nat u)) y s)"
proof -
  have "calm u s (set_room (room (users s ! nat u)) y s)" by (rule keeps_room_calm [OF insideD(3) [OF i] k])
  then show ?thesis using i by (simp add: calm_def inside_def live_def)
qed

lemma runs_act [runs]: "inside u s \<Longrightarrow> \<exists>s'. chat_act u msg s = Some s'"
  by (simp add: chat_act_def insideD inside_sends)

lemma runs_rename [runs]: "inside u s \<Longrightarrow> \<exists>s'. chat_rename u msg s = Some s'"
  by (simp add: chat_rename_def insideD inside_sends)

lemma runs_topic [runs]: "inside u s \<Longrightarrow> \<exists>s'. chat_topic u msg s = Some s'"
  by (simp add: chat_topic_def insideD inside_sends)

lemma runs_broadcast [runs]: "inside u s \<Longrightarrow> \<exists>s'. chat_broadcast u msg s = Some s'"
  by (simp add: chat_broadcast_def insideD inside_sends)

lemma runs_goodbye [runs]: "inside u s \<Longrightarrow> \<exists>s'. chat_goodbye u msg s = Some s'"
  using exit_room_state by (fastforce simp: chat_goodbye_def inside_def live_def)

lemma runs_join [runs]: "inside u s \<Longrightarrow> \<exists>s'. chat_join u msg s = Some s'"
  using enter_room_state [of s u]
  by (auto simp: chat_join_def insideD inside_sends inside_def live_def split: prod.split)

lemma runs_lists [runs]:
  assumes "inside u s"
  shows "\<exists>s'. chat_list_rooms u msg s = Some s'" and "\<exists>s'. chat_list_users u msg s = Some s'"
    and "\<exists>s'. chat_map_chatids_thisroom u msg s = Some s'"
proof -
  note l = insideD(1) [OF assms]
  have "goes (Option.bind (send_to_unum u t_rooms_head s) (\<lambda>s1. rooms_loop u me (rooms s1) 0 s1)) s" for me
    by (rule goes_bind [OF live_send(1) [OF l]]) (rule goes_rooms_loop [OF live_quiet [OF _ l]])
  note goes_runs [OF this]
  then show "\<exists>s'. chat_list_rooms u msg s = Some s'"
    by (simp add: chat_list_rooms_def insideD [OF assms] inside_sends [OF assms])
  show "\<exists>s'. chat_list_users u msg s = Some s'" "\<exists>s'. chat_map_chatids_thisroom u msg s = Some s'"
    using goes_runs [OF goes_user_list [OF l]] goes_runs [OF goes_who [OF l]]
    by (auto simp: chat_list_users_def chat_map_chatids_thisroom_def insideD [OF assms])
qed

lemma runs_by_room [runs]:
  assumes "inside u s"
  shows "\<exists>s'. chat_list_by_room u msg s = Some s'"
proof -
  note l = insideD(1) [OF assms]
  have "get_room s (roomid_to_indx w s) = Some (rooms s ! nat (roomid_to_indx w s))" if "roomid_to_indx w s \<noteq> -1" for w
    using roomid_range [of s w] that l get_room_ok by (auto simp: live_def)
  then show ?thesis
    using goes_runs [OF goes_user_list [OF l]]
    by (auto simp: chat_list_by_room_def insideD [OF assms] inside_sends [OF assms] split: prod.split)
qed

lemma runs_flags_loop: "inside u s \<Longrightarrow> x = users s ! nat u \<Longrightarrow> \<exists>s'. flags_loop u x sign cs s = Some s'"
proof (induction cs arbitrary: s)
  case (Cons c cs)
  show ?case
  proof (cases "room_flag c")
    case None
    then show ?thesis using Cons inside_sends by simp
  next
    case (Some a)
    then obtain f t where a: "room_flag c = Some (f, t)" by (cases a) auto
    let ?r = "rooms s ! nat (room x)"
    let ?s0 = "set_room (room x) (?r\<lparr>rflags := rflags ?r XOR f\<rparr>) s"
    let ?s1 = "tell_room (room x) (t_flag_set (chatid x) (if sign then t_set else t_unset) t) ?s0"
    have i0: "inside u ?s0" unfolding Cons.prems(2) by (rule inside_set_room [OF Cons.prems(1)]) (simp add: keeps_room_def)
    have q: "quiet ?s0 ?s1" by (rule live_put(3) [OF insideD(1) [OF i0]])
    have "inside u ?s1" by (rule inside_quiet [OF q i0])
    moreover have "x = users ?s1 ! nat u" using quiet_users [OF q] Cons.prems(2) by simp
    ultimately have run1: "\<exists>s'. flags_loop u x sign cs ?s1 = Some s'" by (rule Cons.IH)
    have g: "get_room s (room x) = Some ?r" using insideD(3) [OF Cons.prems(1)] Cons.prems(2) by simp
    show ?thesis
    proof (cases "has_flag ?r f = sign")
      case True
      then show ?thesis using Cons.IH [OF Cons.prems] a g by simp
    next
      case False
      then have "flags_loop u x sign (c # cs) s = flags_loop u x sign cs ?s1" using a g by simp
      then show ?thesis using run1 by simp
    qed
  qed
qed simp

lemma runs_setroom [runs]: "inside u s \<Longrightarrow> \<exists>s'. chat_setroom u msg s = Some s'"
  by (simp add: chat_setroom_def insideD inside_sends Let_def runs_flags_loop)

lemma runs_hand [runs]:
  assumes "inside u s"
  shows "\<exists>s'. chat_hand u msg s = Some s'"
proof -
  note l = insideD(1) [OF assms]
  have "goes (Option.bind (hand_loop x (users s) 0 s) (tell u t)) s" for x t
    using goes_bind [OF goes_hand_loop [OF l, of "users s" 0 x]] live_send(2) live_quiet [OF _ l] by simp
  note goes_runs [OF this]
  then show ?thesis
    by (simp add: chat_hand_def insideD [OF assms] inside_sends [OF assms])
qed

lemma live_tell_room: "live u s \<Longrightarrow> live u (tell_room r t s)"
  using live_put(3) live_quiet by blast

lemma stays_live:
  assumes "live u s" and "active s v" and "stays (users s ! nat v) y"
  shows "live u (set_user v y s)"
  using assms stays_ok by (auto simp: live_def)

lemma runs_nick [runs]:
  assumes "inside u s"
  shows "\<exists>s'. chat_nick u msg s = Some s'"
proof -
  note l = insideD(1) [OF assms]
  let ?cid = "take 8 (fst (nextword msg))" and ?s1 = "\<lambda>r t. tell_room r t s"
  have "\<exists>s'. tell u t' (set_user u ((users s ! nat u)\<lparr>chatid := ?cid\<rparr>) (?s1 r t)) = Some s'" for r t t'
  proof -
    have l1: "live u (?s1 r t)" and u1: "users (?s1 r t) = users s"
      using live_tell_room [OF l] quiet_users [OF live_put(3) [OF l]] by auto
    then have "active (?s1 r t) u" "station_ok (?s1 r t)" by (simp_all add: live_def)
    then have "live u (set_user u ((users s ! nat u)\<lparr>chatid := ?cid\<rparr>) (?s1 r t))"
      using stays_live [OF l1] stays_update(3) [of "?s1 r t" u ?cid] u1 by simp
    then show ?thesis by (rule sends)
  qed
  moreover obtain v where "chatid_to_indx 0 ?cid s = Some v" using inside_chatid(1) [OF assms] by blast
  ultimately show ?thesis by (simp add: chat_nick_def insideD [OF assms] inside_sends [OF assms] Let_def)
qed

lemma runs_own_flags:
  assumes "inside u s"
  shows "\<exists>s'. tell u t (set_user u ((users s ! nat u)\<lparr>flags := f\<rparr>) s) = Some s'"
    and "\<exists>s'. tell u t (set_user u ((users s ! nat u)\<lparr>cloak := c\<rparr>) s) = Some s'"
proof -
  have i: "live u s" "station_ok s" "active s u" using assms by (simp_all add: inside_def live_def)
  show "\<exists>s'. tell u t (set_user u ((users s ! nat u)\<lparr>flags := f\<rparr>) s) = Some s'"
    by (rule sends(2) [OF stays_live [OF i(1,3) stays_update(1) [OF i(2,3)]]])
  show "\<exists>s'. tell u t (set_user u ((users s ! nat u)\<lparr>cloak := c\<rparr>) s) = Some s'"
    by (rule sends(2) [OF stays_live [OF i(1,3) stays_update(2) [OF i(2,3)]]])
qed

lemma runs_cloak [runs]: "inside u s \<Longrightarrow> \<exists>s'. chat_cloak u msg s = Some s'"
  by (simp add: chat_cloak_def insideD Let_def runs_own_flags)

lemma runs_paper [runs]: "inside u s \<Longrightarrow> \<exists>s'. chat_paper u msg s = Some s'"
  by (simp add: chat_paper_def insideD Let_def runs_own_flags)

lemma active_get: "active s v \<Longrightarrow> get_user s v = Some (users s ! nat v)"
  using activeD by blast

lemma runs_makeop [runs]:
  assumes "inside u s"
  shows "\<exists>s'. chat_makeop u msg s = Some s'" and "\<exists>s'. chat_maketalk u msg s = Some s'"
proof -
  obtain v where v: "chatid_to_indx u (fst (nextword msg)) s = Some v" "v \<noteq> -1 \<longrightarrow> active s v"
    using inside_chatid(2) [OF assms] by blast
  have gv: "v \<noteq> -1 \<longrightarrow> get_user s v = Some (users s ! nat v)" using v(2) active_get by blast
  note d = insideD(2) [OF assms] inside_sends [OF assms]
  have "(\<exists>s'. chat_makeop u msg s = Some s') \<and> (\<exists>s'. chat_maketalk u msg s = Some s')"
  proof (cases "v = u")
    case True
    have "u \<noteq> -1" using assms by (auto simp: inside_def live_def active_def)
    then show ?thesis by (simp add: chat_makeop_def chat_maketalk_def d v(1) [unfolded True] Let_def)
  next
    case False
    then show ?thesis
      using gv by (cases "v = -1") (auto simp: chat_makeop_def chat_maketalk_def d v(1) Let_def)
  qed
  then show "\<exists>s'. chat_makeop u msg s = Some s'" "\<exists>s'. chat_maketalk u msg s = Some s'" by blast+
qed

lemma runs_invite [runs]:
  assumes "inside u s"
  shows "\<exists>s'. chat_invite u msg s = Some s'"
proof -
  let ?x = "users s ! nat u" and ?r = "rooms s ! nat (room (users s ! nat u))"
  obtain v where v: "chatid_to_indx u (fst (nextword msg)) s = Some v" "v \<noteq> -1 \<longrightarrow> active s v"
    using inside_chatid(2) [OF assms] by blast
  have gv: "v \<noteq> -1 \<longrightarrow> get_user s v = Some (users s ! nat v)" using v(2) active_get by blast
  let ?s1 = "set_room (room ?x) (?r\<lparr>invites := (invites ?r)[nat v := 1]\<rparr>) s"
  have two: "\<exists>s'. Option.bind (tell v t ?s1) (tell u t') = Some s'" if "v \<noteq> -1" for t t'
  proof -
    have i1: "inside u ?s1" by (rule inside_set_room [OF assms]) (simp add: keeps_room_def)
    have av: "active ?s1 v" using v(2) that by (simp add: active_def)
    then have g1: "goes (tell v t ?s1) ?s1" using insideD(1) [OF i1] by (simp add: goes_tell live_def)
    have g2: "goes (tell u t' s2) s2" if "quiet ?s1 s2" for s2
      using live_send(2) live_quiet [OF that insideD(1) [OF i1]] by blast
    show ?thesis by (rule goes_runs [OF goes_bind [OF g1 g2]])
  qed
  show ?thesis
    using v gv two by (auto simp: chat_invite_def insideD [OF assms] inside_sends [OF assms] Let_def)
qed

lemma runs_kick [runs]:
  assumes "inside u s"
  shows "\<exists>s'. chat_kick u msg s = Some s'"
proof -
  have ok: "station_ok s" using assms by (simp add: inside_def live_def)
  obtain v where v: "chatid_to_indx u (fst (nextword msg)) s = Some v" "v \<noteq> -1 \<longrightarrow> active s v"
    using inside_chatid(2) [OF assms] by blast
  have gv: "v \<noteq> -1 \<longrightarrow> get_user s v = Some (users s ! nat v)" using v(2) active_get by blast
  have out: "\<exists>s1. exit_room v EXIT_KICK None s = Some s1 \<and> (\<exists>s2. logout_user v s1 = Some s2) \<and>
      (\<exists>s2. enter_room v ''main'' None s1 = Some s2)" if "v \<noteq> -1"
  proof -
    have av: "active s v" using v(2) that by blast
    obtain s1 where s1: "exit_room v EXIT_KICK None s = Some s1" using exit_room_state [OF ok av] by blast
    note e = exit_room_ok [OF s1 ok av]
    have av1: "active s1 v" and rm: "room (users s1 ! nat v) = -1"
      using e(2,3) av activeD [OF av] by (auto simp: left_def)
    show ?thesis using s1 logout_ok [OF e(1) av1 rm] enter_room_state [OF e(1) av1] by blast
  qed
  show ?thesis
    using v gv out by (cases "v = -1") (auto simp: chat_kick_def insideD [OF assms] inside_sends [OF assms] Let_def)
qed

lemma length_cstr: "length (cstr b) \<le> length b"
  by (simp add: cstr_def length_takeWhile_le)

lemma runs_allmsg:
  assumes i: "inside u s" and m: "length msg \<le> 127"
  shows "\<exists>s'. chat_allmsg u msg s = Some s'"
proof -
  let ?x = "users s ! nat u"
  let ?t = "chatid ?x @ CHR '':'' # replicate (10 - (length (chatid ?x) + 1)) (CHR '' '')"
  have ok: "station_ok s" "active s u" using i by (simp_all add: inside_def live_def)
  have c: "length (chatid ?x) \<le> 8" using okD(4) [OF ok(1), of "nat u"] activeD [OF ok(2)] by (simp add: user_ok_def)
  let ?s1 = "s\<lparr>chatbuf := ?t @ NUL # drop 11 (chatbuf s)\<rparr>"
  have p: "put_chatid ?x s = Some ?s1" using c by (simp add: put_chatid_def Let_def)
  have l: "length (chatbuf ?s1) = 256" using okD(3) [OF ok(1)] c by simp
  have "length (buf ?s1) \<le> 10"
    using length_takeWhile_stop [of "\<lambda>c. c \<noteq> NUL" NUL ?t "drop 11 (chatbuf s)"] c by (simp add: buf_def cstr_def)
  then have "length (buf ?s1 @ msg) < length (chatbuf ?s1)" using l m by simp
  then have "\<exists>s2. strcat_buf msg ?s1 = Some s2" using strcat_buf_quiet by blast
  then show ?thesis by (auto simp: chat_allmsg_def insideD(2) [OF i] p)
qed

section \<open>Properties\<close>


lemma fuzzy_nobody:
  "\<forall>v\<in>set us. sockfd v = -1 \<or> \<not> strncaseeq w (chatid v) (length w) \<and> \<not> strncaseeq w (userid v) (length w) \<Longrightarrow>
     fuzzy_loop w us i (-1) = -1"
  by (induction us arbitrary: i) auto

text \<open>
  C2. A private message to a name that no connected user's name begins with reads the user in front
  of the table: the search finds no index, and its result is used before it is tested.
\<close>
theorem message_to_nobody_faults:
  assumes "\<forall>v\<in>set (users s). sockfd v = -1 \<or>
      \<not> strncaseeq (fst (nextword msg)) (chatid v) (length (fst (nextword msg))) \<and>
      \<not> strncaseeq (fst (nextword msg)) (userid v) (length (fst (nextword msg)))"
  shows "chat_private u msg s = None"
proof -
  have "fuzzy_loop (fst (nextword msg)) (users s) 0 (-1) = -1" by (rule fuzzy_nobody [OF assms])
  then have "fuzzy_chatid_to_indx u (fst (nextword msg)) s = None"
    by (simp add: fuzzy_chatid_to_indx_def get_user_def)
  then show ?thesis by (cases "nextword msg") (simp add: chat_private_def bind_eq_None_conv)
qed

text \<open>A server with one user, in the main room.\<close>

definition one_guest :: "string \<Rightarrow> station" where
  "one_guest cid =
     (let s = start_station 32 ''chat'' ''hello'' ''bbs'' (\<lambda>_. True) 3
      in set_user 0 (no_user\<lparr>sockfd := 4, room := 0, chatid := cid, userid := ''guest''\<rparr>)
           (set_room 0 (hd (rooms s)\<lparr>occupants := 1\<rparr>) (s\<lparr>nfds := 5\<rparr>)))"

lemma one_guest_users: "users (one_guest cid) =
    no_user\<lparr>sockfd := 4, room := 0, chatid := cid, userid := ''guest''\<rparr> # replicate 31 (no_user\<lparr>room := 0\<rparr>)"
proof -
  have "replicate 32 x = x # replicate 31 x" for x :: chatuser
    using replicate_Suc [of 31 x] by simp
  then show ?thesis by (simp add: one_guest_def start_station_def Let_def set_user_def set_room_def)
qed

lemma one_guest_rooms: "rooms (one_guest cid) =
    \<lparr>name = ''main'', occupants = 1, rflags = 0, invites = replicate 32 0, topic = ''hello''\<rparr>
      # replicate 31 \<lparr>name = [], occupants = 0, rflags = 0, invites = replicate 32 0, topic = []\<rparr>"
  by (simp add: one_guest_def start_station_def Let_def set_user_def set_room_def)

lemma one_guest_ok:
  assumes "length cid \<le> 8"
  shows "station_ok (one_guest cid)" and "active (one_guest cid) 0" and "room (users (one_guest cid) ! nat 0) \<noteq> -1"
proof -
  have "heads (one_guest cid) (int r) = (if r = 0 then 1 else 0)" for r
    unfolding heads_def one_guest_users by (simp add: in_room_def no_user_def)
  moreover have "chatbuf (one_guest cid) = replicate 256 NUL"
    by (simp add: one_guest_def start_station_def Let_def set_user_def set_room_def)
  ultimately show "station_ok (one_guest cid)"
    using assms by (intro station_okI) (auto simp: one_guest_users one_guest_rooms user_ok_def no_user_def nth_Cons')
  show "active (one_guest cid) 0" "room (users (one_guest cid) ! nat 0) \<noteq> -1"
    by (simp_all add: active_def one_guest_users)
qed


theorem message_to_nobody_faults_witness: "chat_private 0 ''ann hi'' (one_guest ''bob'') = None"
proof (rule message_to_nobody_faults)
  have w: "fst (nextword ''ann hi'') = ''ann''" by code_simp
  have "strncaseeq ''ann'' ''bob'' (length ''ann'') = False" "strncaseeq ''ann'' ''guest'' (length ''ann'') = False"
    by code_simp+
  then show "\<forall>v\<in>set (users (one_guest ''bob'')). sockfd v = -1 \<or>
      \<not> strncaseeq (fst (nextword ''ann hi'')) (chatid v) (length (fst (nextword ''ann hi''))) \<and>
      \<not> strncaseeq (fst (nextword ''ann hi'')) (userid v) (length (fst (nextword ''ann hi'')))"
    unfolding w one_guest_users by (auto simp: no_user_def)
qed

end
