(* ===== verification/ChatProps.thy ===== *)
theory ChatProps
  imports ChatSafety
begin

text \<open>
  What the chat server promises: the rooms of a running server know who is in them, what is said
  stays in its room, locked rooms stay shut, and a line reaches its command.
\<close>

unbundle bit_operations_syntax

section \<open>Rooms\<close>

text \<open>C2. 
  C1. In every state a running server reaches, each room's count is the number of connected users
  in it, and every connected user is in one of the 32 rooms or in none.
\<close>
theorem rooms_count_their_users:
  assumes "reachable s"
  shows "(\<forall>r<32. occupants (rooms s ! r) = int (length (filter (\<lambda>u. sockfd u \<noteq> -1 \<and> room u = int r) (users s)))) \<and>
    (\<forall>u\<in>set (users s). sockfd u = -1 \<or> 0 \<le> sockfd u \<and> -1 \<le> room u \<and> room u < 32)"
proof -
  have ok: "station_ok s" by (rule reachable_ok [OF assms])
  show ?thesis
    using okD(5) [OF ok] okU [OF ok] by (auto simp: heads_def in_room_def [abs_def] user_ok_def)
qed

definition two_calls :: station where
  "two_calls = accept_client 5 ''localhost'' (accept_client 4 ''far'' (start_station 32 ''chat'' ''hello'' ''bbs'' (\<lambda>_. True) 3))"

lemma two_calls_reachable: "reachable two_calls"
  by (simp add: two_calls_def reachable.start reachable.connect)

theorem rooms_count_their_users_witness: "occupants (rooms two_calls ! 3) = int (length (filter (\<lambda>u. sockfd u \<noteq> -1 \<and> room u = int 3) (users two_calls)))"
  using rooms_count_their_users [OF two_calls_reachable] by simp

lemma enter_existing:
  assumes ok: "station_ok s" and act: "active s u" and rn: "roomid_to_indx rid s = r" "r \<noteq> -1"
  shows "enter_room u rid msg s =
     (if \<not> SYSOP (users s ! nat u) \<and> has_flag (rooms s ! nat r) ROOM_LOCKED \<and> invites (rooms s ! nat r) ! nat u = 0
      then send_to_unum u t_locked s else go_in u r False rid msg s)" and "0 \<le> r" and "r < 32"
proof -
  show r: "0 \<le> r" "r < 32" using roomid_range [OF ok, of rid] rn by auto
  show "enter_room u rid msg s =
     (if \<not> SYSOP (users s ! nat u) \<and> has_flag (rooms s ! nat r) ROOM_LOCKED \<and> invites (rooms s ! nat r) ! nat u = 0
      then send_to_unum u t_locked s else go_in u r False rid msg s)"
    using rn get_room_ok [OF ok r] activeD [OF act] by (simp add: enter_room_def Let_def)
qed

text \<open>
  C2. A locked room is shut: a user who is not a system operator and not invited gets a message and
  stays where he is, and nothing else changes.
\<close>
theorem locked_room_is_shut:
  assumes "station_ok s" and "active s u" and "roomid_to_indx rid s = r" and "r \<noteq> -1"
    and "has_flag (rooms s ! nat r) ROOM_LOCKED" and "\<not> SYSOP (users s ! nat u)" and "invites (rooms s ! nat r) ! nat u = 0"
  shows "\<exists>s'. enter_room u rid msg s = Some s' \<and> users s' = users s \<and> rooms s' = rooms s \<and>
    (\<forall>f t. (f, t) \<in> set (out s') \<longrightarrow> (f, t) \<in> set (out s) \<or> f = sockfd (users s ! nat u) \<and> t = t_locked)"
  using enter_existing(1) [OF assms(1-4), of msg] assms(5-7) activeD [OF assms(2)]
  by (auto simp: send_to_unum_def do_send_def)

text \<open>
  C3. An invitation opens a locked room for its holder, once: the user is in the room, and the
  invitation is gone.
\<close>
theorem invitation_opens_once:
  assumes ok: "station_ok s" and act: "active s u" and rn: "roomid_to_indx rid s = r" "r \<noteq> -1"
    and iv: "invites (rooms s ! nat r) ! nat u = 1"
  shows "\<exists>s'. enter_room u rid msg s = Some s' \<and> station_ok s' \<and> room (users s' ! nat u) = r \<and>
    (\<forall>v < length (users s). v \<noteq> nat u \<longrightarrow> users s' ! v = users s ! v) \<and> invites (rooms s' ! nat r) ! nat u = 0"
proof -
  note e = enter_existing(1) [OF ok act rn, of msg] and r = enter_existing(2,3) [OF ok act rn]
  obtain s' where "go_in u r False rid msg s = Some s'" "station_ok s'"
      "users s' = (users s)[nat u := entered (users s ! nat u) r False]" "invites (rooms s' ! nat r) ! nat u = 0"
    using go_in_state [OF ok act r] by blast
  then show ?thesis using e iv activeD [OF act] by (simp add: entered_def)
qed

definition guest_at_door :: "nat \<Rightarrow> station" where
  "guest_at_door n = set_room 0 ((rooms (one_guest ''bob'') ! 0)\<lparr>rflags := 1, invites := (replicate 32 0)[0 := n]\<rparr>) (one_guest ''bob'')"

lemma guest_at_door_ok: "station_ok (guest_at_door n)" "active (guest_at_door n) 0" "roomid_to_indx ''main'' (guest_at_door n) = 0"
  "has_flag (rooms (guest_at_door n) ! nat 0) 1" "\<not> SYSOP (users (guest_at_door n) ! nat 0)"
  "invites (rooms (guest_at_door n) ! nat 0) ! nat 0 = n"
proof -
  have g: "length ''bob'' \<le> 8" by simp
  show "station_ok (guest_at_door n)"
    unfolding guest_at_door_def by (rule set_room_ok [OF one_guest_ok(1) [OF g]]) (simp_all add: one_guest_users one_guest_rooms)
  show "active (guest_at_door n) 0" using one_guest_ok(2) [OF g] by (simp add: guest_at_door_def active_def)
qed (simp_all add: guest_at_door_def one_guest_rooms one_guest_users roomid_to_indx_def strcaseeq_def has_flag_def SYSOP_def no_user_def)

theorem locked_room_is_shut_witness: "\<exists>s'. enter_room 0 ''main'' None (guest_at_door 0) = Some s' \<and> users s' = users (guest_at_door 0)"
proof -
  have "(0::int) \<noteq> -1" by simp
  from locked_room_is_shut [OF guest_at_door_ok(1-3) this guest_at_door_ok(4-6), of None] show ?thesis by blast
qed

theorem invitation_opens_once_witness: "\<exists>s'. enter_room 0 ''main'' None (guest_at_door 1) = Some s' \<and> room (users s' ! 0) = 0"
proof -
  have "(0::int) \<noteq> -1" by simp
  from invitation_opens_once [OF guest_at_door_ok(1-3) this guest_at_door_ok(6), of None] show ?thesis by auto
qed

section \<open>Saying something\<close>

text \<open>The name at the head of what a user says.\<close>

definition speaker :: "chatuser \<Rightarrow> string" where
  "speaker u = chatid u @ CHR '':'' # replicate (10 - (length (chatid u) + 1)) (CHR '' '')"

lemma said:
  assumes i: "inside u s" and m: "length msg \<le> 127" "msg \<noteq> []"
    and z: "NUL \<notin> set (chatid (users s ! nat u))" "NUL \<notin> set msg"
  shows "chat_allmsg u msg s =
     (let t = speaker (users s ! nat u) @ msg;
          s2 = s\<lparr>chatbuf := t @ NUL # drop (length t + 1) (speaker (users s ! nat u) @ NUL # drop 11 (chatbuf s))\<rparr>
      in Some (send_to_room (room (users s ! nat u)) t s2))"
proof -
  let ?x = "users s ! nat u"
  have ok: "station_ok s" "active s u" using i by (simp_all add: inside_def live_def)
  have c: "length (chatid ?x) \<le> 8" using okD(4) [OF ok(1), of "nat u"] activeD [OF ok(2)] by (simp add: user_ok_def)
  let ?s1 = "s\<lparr>chatbuf := speaker ?x @ NUL # drop 11 (chatbuf s)\<rparr>"
  have l: "length (speaker ?x) = 10" using c by (simp add: speaker_def)
  then have p: "put_chatid ?x s = Some ?s1" by (simp add: put_chatid_def speaker_def Let_def)
  have nz: "NUL \<notin> set (speaker ?x)" using z(1) by (auto simp: speaker_def)
  have cs: "cstr (t @ NUL # r) = t" if "NUL \<notin> set t" for t r
    using that by (induction t) (auto simp: cstr_def)
  have b: "buf ?s1 = speaker ?x" using cs [OF nz] by (simp add: buf_def)
  have "length (speaker ?x @ msg) < length (chatbuf ?s1)" using l m okD(3) [OF ok(1)] by simp
  then have s: "strcat_buf msg ?s1 = Some (?s1\<lparr>chatbuf := (speaker ?x @ msg) @ NUL # drop (length (speaker ?x @ msg) + 1) (chatbuf ?s1)\<rparr>)"
    using b by (simp add: strcat_buf_def strcpy_def)
  have "buf (s\<lparr>chatbuf := (speaker ?x @ msg) @ NUL # r\<rparr>) = speaker ?x @ msg" for r
    using cs [of "speaker ?x @ msg" r] nz z(2) by (simp add: buf_def)
  then show ?thesis using m(2) p s insideD(2) [OF i] by (simp add: chat_allmsg_def Let_def)
qed

text \<open>C9. 
  C4. What a user says is sent once to every writable socket of a user in the same room, in the
  order of the sockets, and to nobody else.
\<close>
theorem said_in_the_room:
  assumes "station_ok s" and "active s u" and "room (users s ! nat u) \<noteq> -1"
    and "msg \<noteq> []" and "length msg \<le> 127" and "NUL \<notin> set msg" and "NUL \<notin> set (chatid (users s ! nat u))"
  shows "\<exists>s' fds. chat_allmsg u msg s = Some s' \<and> users s' = users s \<and> rooms s' = rooms s \<and>
    out s' = out s @ map (\<lambda>f. (f, speaker (users s ! nat u) @ msg)) fds \<and> sorted fds \<and> distinct fds \<and>
    set fds = {f. 0 \<le> f \<and> f < nfds s \<and> writable s f \<and>
      (\<exists>v\<in>set (users s). sockfd v = f \<and> room v = room (users s ! nat u))}"
proof -
  let ?x = "users s ! nat u" and ?t = "speaker (users s ! nat u) @ msg"
  have i: "inside u s" using assms(1-3) by (simp add: inside_def live_def)
  define b where "b = ?t @ NUL # drop (length ?t + 1) (speaker ?x @ NUL # drop 11 (chatbuf s))"
  define fds where "fds = filter (\<lambda>f. f \<in> set (room_fds (room ?x) s) \<and> writable s f) (map int [0..<nat (nfds s)])"
  have e: "chat_allmsg u msg s = Some (send_to_room (room ?x) ?t (s\<lparr>chatbuf := b\<rparr>))"
    unfolding b_def using said [OF i assms(5,4,7,6)] by (simp add: Let_def)
  have rf: "room_fds r (s\<lparr>chatbuf := b\<rparr>) = room_fds r s" for r by (simp add: room_fds_def)
  have o: "out (send_to_room (room ?x) ?t (s\<lparr>chatbuf := b\<rparr>)) = out s @ map (\<lambda>f. (f, ?t)) fds"
    unfolding send_to_room_def do_send_def rf by (simp add: fds_def)
  have "0 \<le> room ?x" using okD(4) [OF assms(1), of "nat u"] activeD [OF assms(2)] assms(3) by (auto simp: user_ok_def)
  then have "set (room_fds (room ?x) s) = {f. f \<noteq> -1 \<and> (\<exists>v\<in>set (users s). sockfd v = f \<and> room v = room ?x)}"
    by (auto simp: room_fds_def)
  moreover have "set (map int [0..<nat (nfds s)]) = {f. 0 \<le> f \<and> f < nfds s}"
    by (auto intro: image_eqI [where x = "nat f" for f])
  ultimately have "set fds = {f. 0 \<le> f \<and> f < nfds s \<and> writable s f \<and> (\<exists>v\<in>set (users s). sockfd v = f \<and> room v = room ?x)}"
    by (auto simp: fds_def)
  moreover have "sorted (map int [0..<k])" for k by (induction k) (auto simp: sorted_append)
  then have "sorted fds" unfolding fds_def by (rule sorted_wrt_filter)
  moreover have "distinct fds" unfolding fds_def by (simp add: distinct_map)
  ultimately show ?thesis using e o by (auto simp: send_to_room_def do_send_def)
qed

theorem said_in_the_room_witness: "\<exists>s'. chat_allmsg 0 ''hi'' (one_guest ''bob'') = Some s' \<and>
    users s' = users (one_guest ''bob'')"
proof -
  have g: "length ''bob'' \<le> 8" by simp
  have "''hi'' \<noteq> []" "length ''hi'' \<le> 127" "NUL \<notin> set ''hi''" "NUL \<notin> set (chatid (users (one_guest ''bob'') ! nat 0))"
    by (simp_all add: one_guest_users)
  from said_in_the_room [OF one_guest_ok [OF g] this] show ?thesis by blast
qed

section \<open>Packets\<close>

abbreviation (input) LF :: char where "LF \<equiv> CHR 0x0A"
abbreviation (input) CR :: char where "CR \<equiv> CHR 0x0D"

definition with_ibuf :: "int \<Rightarrow> chatuser \<Rightarrow> char list \<Rightarrow> station \<Rightarrow> station" where
  "with_ibuf u x b s = set_user u (x\<lparr>ibuf := b\<rparr>) s"

lemma packet_collects:
  assumes "get_user s u = Some x" and "length (ibuf x) = 128" and "n + length d \<le> 127"
    and "LF \<notin> set d" and "CR \<notin> set d" and "take (length d) (drop i (chatbuf s)) = d"
  shows "packet_loop u (length d + k) i n s =
    packet_loop u k (i + length d) (n + length d) (with_ibuf u x (take n (ibuf x) @ d @ drop (n + length d) (ibuf x)) s)"
  using assms
proof (induction d arbitrary: i n s x)
  case Nil
  have "set_user u x s = s" using Nil.prems(1) by (auto simp: set_user_def get_user_def split: if_splits)
  then show ?case by (simp add: with_ibuf_def)
next
  case (Cons c d)
  have i: "i < length (chatbuf s)" "chatbuf s ! i = c" "take (length d) (drop (Suc i) (chatbuf s)) = d"
  proof -
    show i: "i < length (chatbuf s)" using Cons.prems(6) by (cases "i < length (chatbuf s)") auto
    then have "drop i (chatbuf s) = chatbuf s ! i # drop (Suc i) (chatbuf s)" by (simp add: Cons_nth_drop_Suc)
    then show "chatbuf s ! i = c" "take (length d) (drop (Suc i) (chatbuf s)) = d" using Cons.prems(6) by auto
  qed
  have c: "c \<noteq> LF" "c \<noteq> CR" "LF \<notin> set d" "CR \<notin> set d" using Cons.prems(4,5) by auto
  let ?b = "(ibuf x)[n := c]" and ?s1 = "set_user u (x\<lparr>ibuf := (ibuf x)[n := c]\<rparr>) s"
  have p: "put_ibuf u n c s = Some ?s1" using Cons.prems(1-3) by (simp add: put_ibuf_def poke_def)
  have g: "get_user ?s1 u = Some (x\<lparr>ibuf := ?b\<rparr>)" using Cons.prems(1) by (auto simp: get_user_def set_user_def split: if_splits)
  have b: "take (Suc n) ?b @ d @ drop (Suc n + length d) ?b = take n (ibuf x) @ (c # d) @ drop (n + length (c # d)) (ibuf x)"
    using Cons.prems(2,3) by (simp add: take_Suc_conv_app_nth)
  have "packet_loop u (length (c # d) + k) i n s = packet_loop u (length d + k) (i + 1) (n + 1) ?s1"
    using i(2) c(1,2) Cons.prems(3) p by (simp add: Let_def)
  also have "\<dots> = packet_loop u k (Suc i + length d) (Suc n + length d)
      (with_ibuf u (x\<lparr>ibuf := ?b\<rparr>) (take (Suc n) ?b @ d @ drop (Suc n + length d) ?b) ?s1)"
    using Cons.IH [OF g, of "Suc n" "Suc i"] Cons.prems(2,3) c i(3) by simp
  also have "with_ibuf u (x\<lparr>ibuf := ?b\<rparr>) (take (Suc n) ?b @ d @ drop (Suc n + length d) ?b) ?s1 =
      with_ibuf u x (take n (ibuf x) @ (c # d) @ drop (n + length (c # d)) (ibuf x)) s"
    unfolding b by (simp add: with_ibuf_def set_user_def)
  finally show ?case by simp
qed

text \<open>The bytes of the line a user has not finished yet.\<close>

definition pending :: "station \<Rightarrow> int \<Rightarrow> string" where
  "pending s u = take (ibufsize (users s ! nat u)) (ibuf (users s ! nat u))"

lemma length_pending: "station_ok s \<Longrightarrow> active s u \<Longrightarrow> length (pending s u) = ibufsize (users s ! nat u)"
  using okD(4) [of s "nat u"] activeD [of s u] by (simp add: pending_def user_ok_def)

lemma packet_start:
  assumes ok: "station_ok s" and act: "active s u" and d: "LF \<notin> set d" "CR \<notin> set d" "length (pending s u) + length d \<le> 127"
    and e: "d @ e \<noteq> []" "length (d @ e) \<le> 256"
  shows "process_chat_command u (d @ e) s =
     (let x = users s ! nat u; b = pending s u @ d @ drop (ibufsize x + length d) (ibuf x);
          s0 = with_ibuf u x b (s\<lparr>chatbuf := (d @ e) @ drop (length (d @ e)) (chatbuf s)\<rparr>)
      in Option.bind (packet_loop u (length e) (length d) (ibufsize x + length d) s0)
        (\<lambda>(s1, n, rc). if rc = -1 then Some (s1, -1)
           else Option.bind (get_user s1 u) (\<lambda>u1. Some (set_user u (u1\<lparr>ibufsize := n\<rparr>) s1, 0))))"
proof -
  let ?x = "users s ! nat u" and ?s0 = "s\<lparr>chatbuf := (d @ e) @ drop (length (d @ e)) (chatbuf s)\<rparr>"
  have xo: "length (ibuf ?x) = 128" using okD(4) [OF ok, of "nat u"] activeD [OF act] by (simp add: user_ok_def)
  have g: "get_user ?s0 u = Some ?x" using act by (simp add: get_user_def active_def)
  have l: "packet_loop u (length d + length e) 0 (ibufsize ?x) ?s0 = packet_loop u (length e) (length d) (ibufsize ?x + length d)
      (with_ibuf u ?x (pending s u @ d @ drop (ibufsize ?x + length d) (ibuf ?x)) ?s0)"
    using packet_collects [OF g xo, of "ibufsize ?x" d 0 "length e"] d length_pending [OF ok act] by (simp add: pending_def)
  have t: "(d @ e = []) = False" "take 256 (d @ e) = d @ e" "get_user s u = Some ?x" using e activeD [OF act] by simp_all
  show ?thesis
    by (simp only: process_chat_command_def Let_def t if_False length_append Option.bind.simps l [simplified length_append])
qed

text \<open>
  C5. A piece of a line that arrives without its end is kept behind what has arrived before;
  nothing is run or sent.
\<close>
theorem piece_is_kept:
  assumes ok: "station_ok s" and act: "active s u" and d: "d \<noteq> []" "LF \<notin> set d" "CR \<notin> set d" "length (pending s u) + length d \<le> 127"
  shows "\<exists>s'. process_chat_command u d s = Some (s', 0) \<and> pending s' u = pending s u @ d \<and> rooms s' = rooms s \<and> out s' = out s \<and>
    (\<forall>v. v \<noteq> nat u \<longrightarrow> users s' ! v = users s ! v)"
proof -
  have u: "nat u < length (users s)" "0 \<le> u" using activeD [OF act] act by (simp_all add: active_def)
  have len: "length (pending s u) = ibufsize (users s ! nat u)" by (rule length_pending [OF ok act])
  have e: "d @ [] \<noteq> []" "length (d @ []) \<le> 256" using d by auto
  let ?x = "users s ! nat u"
  let ?b = "pending s u @ d @ drop (ibufsize ?x + length d) (ibuf ?x)"
  let ?s0 = "with_ibuf u ?x ?b (s\<lparr>chatbuf := d @ drop (length d) (chatbuf s)\<rparr>)"
  have g: "get_user ?s0 u = Some (?x\<lparr>ibuf := ?b\<rparr>)" using u by (simp add: with_ibuf_def set_user_def get_user_def)
  have "process_chat_command u d s = Some (set_user u (?x\<lparr>ibuf := ?b, ibufsize := ibufsize ?x + length d\<rparr>) ?s0, 0)"
    using packet_start [OF ok act d(2-4) e] g by (simp add: Let_def)
  then show ?thesis using u len by (simp add: pending_def with_ibuf_def set_user_def)
qed


lemma say_command:
  assumes i: "inside u s" and line: "cstr (ibuf (users s ! nat u)) = a" and a: "a \<noteq> []" "hd a \<noteq> CHR ''/''" "length a \<le> 127" "NUL \<notin> set a"
    and nz: "NUL \<notin> set (chatid (users s ! nat u))" and mike: "\<not> has_flag (rooms s ! nat (room (users s ! nat u))) ROOM_SCHOOL"
  shows "\<exists>s' fds b. command_execute u s = Some (s', 0) \<and> users s' = users s \<and> rooms s' = rooms s \<and>
    chatbuf s' = (speaker (users s ! nat u) @ a) @ NUL # b \<and> out s' = out s @ map (\<lambda>f. (f, speaker (users s ! nat u) @ a)) fds"
proof -
  have r: "room (users s ! nat u) \<noteq> -1" using i by (simp add: inside_def)
  have c0: "cget a 0 \<noteq> CHR ''/''" using a by (cases a) (simp_all add: cget_def)
  have "command_execute u s = Option.bind (chat_allmsg u a s) (\<lambda>s1. Some (s1, 0))"
    using insideD [OF i] line r c0 mike by (simp add: command_execute_def say_line_def Let_def)
  then show ?thesis
    using said [OF i a(3,1) nz a(4)] by (auto simp: Let_def send_to_room_def do_send_def)
qed

text \<open>
  C7. Two lines in one packet: the reply to the first one is written over the second one before it
  is read.  Nothing of the second line is run, and a piece of the reply is left as the user's
  unfinished line.
\<close>
theorem second_line_is_lost:
  assumes ok: "station_ok s" and act: "active s u" and rm: "room (users s ! nat u) \<noteq> -1" and p: "pending s u = []"
    and a: "a \<noteq> []" "hd a \<noteq> CHR ''/''" "set a \<inter> {LF, CR, NUL} = {}" and b: "length a + length b \<le> 8"
    and cid: "set (chatid (users s ! nat u)) \<inter> {LF, CR, NUL} = {}"
    and mike: "\<not> has_flag (rooms s ! nat (room (users s ! nat u))) ROOM_SCHOOL"
  shows "\<exists>s' fds. process_chat_command u (a @ [LF] @ b @ [LF]) s = Some (s', 0) \<and>
    out s' = out s @ map (\<lambda>f. (f, speaker (users s ! nat u) @ a)) fds \<and>
    pending s' u = take (length b + 1) (drop (length a + 1) (speaker (users s ! nat u)))"
proof -
  let ?x = "users s ! nat u" and ?e = "[LF] @ b @ [LF]"
  have u: "nat u < length (users s)" "0 \<le> u" using activeD [OF act] act by (simp_all add: active_def)
  have xo: "length (ibuf ?x) = 128" "length (chatid ?x) \<le> 8" using okD(4) [OF ok u(1)] by (simp_all add: user_ok_def)
  have n0: "ibufsize ?x = 0" using p length_pending [OF ok act] by simp
  have ls: "length (speaker ?x) = 10" using xo(2) by (simp add: speaker_def)
  let ?b0 = "a @ drop (length a) (ibuf ?x)"
  let ?s0 = "with_ibuf u ?x ?b0 (s\<lparr>chatbuf := (a @ ?e) @ drop (length (a @ ?e)) (chatbuf s)\<rparr>)"
  let ?s1 = "set_user u (?x\<lparr>ibuf := ?b0[length a := NUL]\<rparr>) ?s0"
  have start: "process_chat_command u (a @ ?e) s = Option.bind (packet_loop u (Suc (length b + 1)) (length a) (length a) ?s0)
        (\<lambda>(s1, n, rc). if rc = -1 then Some (s1, -1)
           else Option.bind (get_user s1 u) (\<lambda>u1. Some (set_user u (u1\<lparr>ibufsize := n\<rparr>) s1, 0)))"
    using packet_start [OF ok act, of a ?e] a b n0 p by (simp add: Let_def del: packet_loop.simps)
  have put: "put_ibuf u (length a) NUL ?s0 = Some ?s1"
    using u xo(1) b by (simp add: put_ibuf_def poke_def with_ibuf_def set_user_def get_user_def)
  have q: "quiet s (s\<lparr>chatbuf := (a @ ?e) @ drop (length (a @ ?e)) (chatbuf s)\<rparr>)"
    using okD(3) [OF ok] b by (simp add: quiet_def)
  have s1: "?s1 = set_user u (?x\<lparr>ibuf := ?b0[length a := NUL]\<rparr>) (s\<lparr>chatbuf := (a @ ?e) @ drop (length (a @ ?e)) (chatbuf s)\<rparr>)"
    by (simp add: with_ibuf_def set_user_def)
  have i1: "inside u ?s1"
  proof -
    have "stays ?x (?x\<lparr>ibuf := ?b0[length a := NUL]\<rparr>)" using xo okD(4) [OF ok u(1)] b by (simp add: stays_def user_ok_def)
    moreover have "live u (s\<lparr>chatbuf := (a @ ?e) @ drop (length (a @ ?e)) (chatbuf s)\<rparr>)"
      using live_quiet [OF q] ok act by (simp add: live_def)
    ultimately have "live u ?s1" unfolding s1 by (intro stays_live) (simp_all add: live_def)
    then show ?thesis using rm u by (simp add: inside_def with_ibuf_def)
  qed
  have line: "cstr (ibuf (users ?s1 ! nat u)) = a"
  proof -
    have "?b0[length a := NUL] = a @ NUL # drop (Suc (length a)) (ibuf ?x)"
      using xo(1) b by (simp add: list_update_append Cons_nth_drop_Suc [symmetric])
    moreover have "cstr (t @ NUL # r) = t" if "NUL \<notin> set t" for t r
      using that by (induction t) (auto simp: cstr_def)
    from this [of a] have "cstr (a @ NUL # drop (Suc (length a)) (ibuf ?x)) = a" using a(3) by blast
    ultimately show ?thesis using u by (simp add: with_ibuf_def)
  qed
  have x1: "chatid (users ?s1 ! nat u) = chatid ?x" "room (users ?s1 ! nat u) = room ?x" "rooms ?s1 = rooms s" "out ?s1 = out s"
    "speaker (users ?s1 ! nat u) = speaker ?x"
    using u by (simp_all add: with_ibuf_def set_user_def speaker_def)
  obtain s2 fds r where s2: "command_execute u ?s1 = Some (s2, 0)" "users s2 = users ?s1"
      "chatbuf s2 = (speaker ?x @ a) @ NUL # r" "out s2 = out s @ map (\<lambda>f. (f, speaker ?x @ a)) fds"
    using say_command [OF i1 line a(1,2)] a(3) b cid mike unfolding x1 by auto
  let ?d = "take (length b + 1) (drop (length a + 1) (speaker ?x))"
  let ?y = "users s2 ! nat u"
  have y: "get_user s2 u = Some ?y" "length (ibuf ?y) = 128"
    using u s2(2) xo(1) b by (simp_all add: get_user_def with_ibuf_def)
  have ld: "length ?d = length b + 1" using ls b by simp
  have "set ?d \<subseteq> set (speaker ?x)" by (meson order_trans set_drop_subset set_take_subset)
  then have nolf: "LF \<notin> set ?d" "CR \<notin> set ?d" using cid by (auto simp: speaker_def)
  have rest: "packet_loop u (length b + 1) (length a + 1) 0 s2 = Some (with_ibuf u ?y (?d @ drop (length b + 1) (ibuf ?y)) s2, length b + 1, 0)"
  proof -
    have "take (length ?d) (drop (length a + 1) (chatbuf s2)) = ?d" using ls b s2(3) ld by simp
    from packet_collects [OF y _ nolf this, of 0 0] show ?thesis using ld b by simp
  qed
  have lf: "chatbuf ?s0 ! length a = LF" by (simp add: with_ibuf_def nth_append)
  have "packet_loop u (Suc (length b + 1)) (length a) (length a) ?s0 = packet_loop u (length b + 1) (length a + 1) 0 s2"
    using lf put s2(1) by (simp add: Let_def)
  then have "process_chat_command u (a @ ?e) s =
      Some (set_user u (?y\<lparr>ibuf := ?d @ drop (length b + 1) (ibuf ?y), ibufsize := length b + 1\<rparr>)
        (with_ibuf u ?y (?d @ drop (length b + 1) (ibuf ?y)) s2), 0)"
    unfolding start rest using u s2(2) by (simp add: with_ibuf_def set_user_def get_user_def)
  then show ?thesis using s2(2,4) u ld by (auto simp: pending_def with_ibuf_def set_user_def)
qed

lemma guest_empty: "pending (one_guest cid) 0 = []"
  by (simp add: pending_def one_guest_users no_user_def)

theorem piece_is_kept_witness: "\<exists>s'. process_chat_command 0 ''he'' (one_guest ''bob'') = Some (s', 0) \<and> pending s' 0 = ''he''"
proof -
  have g: "length ''bob'' \<le> 8" by simp
  have "''he'' \<noteq> []" "LF \<notin> set ''he''" "CR \<notin> set ''he''" "length (pending (one_guest ''bob'') 0) + length ''he'' \<le> 127"
    by (simp_all add: guest_empty)
  from piece_is_kept [OF one_guest_ok(1,2) [OF g] this] show ?thesis by (auto simp: guest_empty)
qed


theorem second_line_is_lost_witness:
  "\<exists>s'. process_chat_command 0 (''hi'' @ [LF] @ ''yo'' @ [LF]) (one_guest ''bob'') = Some (s', 0) \<and> pending s' 0 = '':  ''"
proof -
  have g: "length ''bob'' \<le> 8" by simp
  have "''hi'' \<noteq> []" "hd ''hi'' \<noteq> CHR ''/''" "set ''hi'' \<inter> {LF, CR, NUL} = {}" "length ''hi'' + length ''yo'' \<le> 8"
    "set (chatid (users (one_guest ''bob'') ! nat 0)) \<inter> {LF, CR, NUL} = {}"
    "\<not> has_flag (rooms (one_guest ''bob'') ! nat (room (users (one_guest ''bob'') ! nat 0))) ROOM_SCHOOL"
    by (simp_all add: one_guest_users one_guest_rooms has_flag_def)
  from second_line_is_lost [OF one_guest_ok [OF g] guest_empty this]
  show ?thesis by (simp add: one_guest_users speaker_def) blast
qed

end
