(* ===== verification/KeyInput.thy ===== *)
theory KeyInput
  imports Prelude "HOL-Library.Monad_Syntax"
begin

text \<open>
  The keyboard of a session (src/io.c): telnet commands, the code conversion of a session in the
  other Chinese code, \<open>igetch\<close> and the decoding of escape sequences in \<open>igetkey\<close>.  What the
  connection brings is a list of events, one for each return of \<open>select\<close> and \<open>read\<close>.  \<open>inbuf\<close> is the
  whole array with the stale bytes behind those just read; \<open>None\<close> is an access outside it.
\<close>

section \<open>State\<close>

datatype event =
    Bytes string  \<comment> \<open>what one \<open>read\<close> returns\<close>
  | Idle          \<comment> \<open>the time limit passes\<close>
  | OtherData     \<comment> \<open>the second descriptor is ready\<close>
  | Hangup        \<comment> \<open>the end of the connection\<close>

record input =
  inbuf :: "char list"
  ibufsize :: nat
  icurrchar :: nat
  trailing :: bool
  t_lines :: int
  convcode :: bool
  tables :: "char list"
  key_esc_arg :: int

text \<open>What \<open>igetch\<close> and \<open>igetkey\<close> come to: a value, \<open>abort_bbs\<close>, or no more events.\<close>

datatype got = Key int | Abort | Waiting

abbreviation (input) IBUFSIZE :: nat where "IBUFSIZE \<equiv> 256"
abbreviation (input) I_TIMEOUT :: int where "I_TIMEOUT \<equiv> -2"
abbreviation (input) I_OTHERDATA :: int where "I_OTHERDATA \<equiv> -333"
abbreviation (input) IAC :: char where "IAC \<equiv> CHR 0xFF"
abbreviation (input) SB :: char where "SB \<equiv> CHR 0xFA"
abbreviation (input) SE :: char where "SE \<equiv> CHR 0xF0"
abbreviation (input) TELOPT_NAWS :: char where "TELOPT_NAWS \<equiv> CHR 0x1F"
abbreviation (input) BtoG_count :: nat where "BtoG_count \<equiv> 13973"
abbreviation (input) GtoB_count :: nat where "GtoB_count \<equiv> 7614"

section \<open>Conversion between the two codes\<close>

text \<open>The table entry of a character of two bytes: the two bytes to store, from the shared tables.\<close>

definition two_at :: "char list \<Rightarrow> int \<Rightarrow> (char \<times> char) option" where
  "two_at t k = (if 0 \<le> k \<and> nat k + 1 < length t then Some (t ! nat k, t ! (nat k + 1)) else None)"

text \<open>\<open>read2\<close>: the bytes from \<open>i\<close> to \<open>len\<close> of a buffer, from Big5 to GB.\<close>

function read2_loop :: "char list \<Rightarrow> nat \<Rightarrow> nat \<Rightarrow> char list \<Rightarrow> char list option" where
  "read2_loop tabs len i b =
     (if len \<le> i then Some b
      else if length b \<le> i then None
      else
        let ch1 = cval (b ! i) in
        if ch1 < 0xA1 \<or> ch1 = 0xFF then read2_loop tabs len (i + 1) b
        else if length b \<le> i + 1 then None
        else
          let ch2 = cval (b ! (i + 1)) in
          if ch2 < 0x40 \<or> 0x7E < ch2 \<and> ch2 < 0xA1 \<or> ch2 = 0xFF then read2_loop tabs len (i + 2) b
          else
            let k = (if ch2 \<le> 0x7E then (int ch1 - 0xA1) * 157 + (int ch2 - 0x40)
                     else (int ch1 - 0xA1) * 157 + (int ch2 - 0xA1) + 63) * 2
            in case two_at tabs k of
                 None \<Rightarrow> None
               | Some (x, y) \<Rightarrow> read2_loop tabs len (i + 2) (b[i := x, i + 1 := y]))"
  by pat_completeness auto
termination by (relation "measure (\<lambda>(t, len, i, b). len - i)") auto

text \<open>\<open>write2\<close>: from GB to Big5.\<close>

function write2_loop :: "char list \<Rightarrow> nat \<Rightarrow> nat \<Rightarrow> char list \<Rightarrow> char list option" where
  "write2_loop tabs len i b =
     (if len \<le> i then Some b
      else if length b \<le> i then None
      else
        let ch1 = cval (b ! i) in
        if ch1 < 0xA1 \<or> 0xA9 < ch1 \<and> ch1 < 0xB0 \<or> 0xF7 < ch1 then write2_loop tabs len (i + 1) b
        else if length b \<le> i + 1 then None
        else
          let ch2 = cval (b ! (i + 1)) in
          if ch2 < 0xA0 \<or> ch2 = 0xFF then write2_loop tabs len (i + 2) b
          else
            let k = (if ch1 < 0xAA then (int ch1 - 0xA1) * 94 + (int ch2 - 0xA1)
                     else (int ch1 - 0xB0 + 9) * 94 + (int ch2 - 0xA1)) * 2
            in case two_at tabs (int BtoG_count * 2 + k) of
                 None \<Rightarrow> None
               | Some (x, y) \<Rightarrow> write2_loop tabs len (i + 2) (b[i := x, i + 1 := y]))"
  by pat_completeness auto
termination by (relation "measure (\<lambda>(t, len, i, b). len - i)") auto

declare read2_loop.simps [simp del] write2_loop.simps [simp del]

text \<open>\<open>bbs_read\<close> into \<open>inbuf\<close>, converted when the session asks for it.\<close>

definition bbs_read :: "string \<Rightarrow> input \<Rightarrow> char list option" where
  "bbs_read data s =
     (let b = data @ drop (length data) (inbuf s)
      in if convcode s then read2_loop (tables s) (length data) 0 b else Some b)"

section \<open>Telnet commands\<close>

text \<open>The search for the end of a subnegotiation; the result is the position behind it.\<close>

fun find_se :: "char list \<Rightarrow> nat \<Rightarrow> nat option" where
  "find_se (c # d # r) k =
     (if c = IAC then if d = SE then Some (k + 2) else find_se r (k + 2) else find_se (d # r) (k + 1))"
| "find_se r k = None"

text \<open>The length of the command at \<open>i\<close>, and the lines of the window afterwards.\<close>

definition iac_count :: "char list \<Rightarrow> nat \<Rightarrow> int \<Rightarrow> (nat \<times> int) option" where
  "iac_count b i w =
     (if length b \<le> i + 1 then None
      else
        let c = cval (b ! (i + 1)) in
        if c \<in> {251, 252, 253, 254} then Some (3, w)
        else if b ! (i + 1) = SB then
          if length b \<le> i + 2 then None
          else if b ! (i + 2) = TELOPT_NAWS \<and> length b \<le> i + 8 then None
          else if b ! (i + 2) = TELOPT_NAWS \<and> b ! (i + 8) = SE then
            let lines = int (cval (b ! (i + 6)))
            in Some (9, if lines \<noteq> w \<and> 24 \<le> lines \<and> lines \<le> 100 then lines else w)
          else
            case find_se (drop (i + 2) b) (i + 2) of
              None \<Rightarrow> None
            | Some k \<Rightarrow> Some (k - i, w)
        else Some (1, w))"

lemma find_se_ge: "find_se r k = Some j \<Longrightarrow> k + 2 \<le> j"
  by (induction r k rule: find_se.induct) (auto split: if_splits)

lemma iac_count_pos: "iac_count b i w = Some (k, l) \<Longrightarrow> 0 < k"
  by (auto simp: iac_count_def Let_def dest: find_se_ge split: if_splits option.splits)

text \<open>The commands at the head of what has been read.\<close>

function skip_iac :: "char list \<Rightarrow> nat \<Rightarrow> nat \<Rightarrow> int \<Rightarrow> (nat \<times> int) option" where
  "skip_iac b ch i w =
     (if length b \<le> i then None
      else if b ! i = IAC \<and> i < ch then
        (case iac_count b i w of None \<Rightarrow> None | Some (k, l) \<Rightarrow> skip_iac b ch (i + k) l)
      else Some (i, w))"
  by pat_completeness auto
termination
  by (relation "measure (\<lambda>(b, ch, i, w). ch - i)") (auto dest: iac_count_pos)

declare skip_iac.simps [simp del]

section \<open>One character\<close>

text \<open>Reading until there is a byte; the bytes of the screen in between are output.\<close>

datatype fill_result = Filled input "event list" | Stop got input "event list" | Fault

fun fill :: "event list \<Rightarrow> input \<Rightarrow> fill_result" where
  "fill [] s = Stop Waiting s []"
| "fill (Idle # es) s = Stop (Key I_TIMEOUT) s es"
| "fill (OtherData # es) s = Stop (Key I_OTHERDATA) s es"
| "fill (Hangup # es) s = Stop Abort s es"
| "fill (Bytes data # es) s =
     (if data = [] then Stop Abort s es
      else case bbs_read (take IBUFSIZE data) s of
        None \<Rightarrow> Fault
      | Some b \<Rightarrow>
          let ch = length (take IBUFSIZE data) in
          case skip_iac b ch 0 (t_lines s) of
            None \<Rightarrow> Fault
          | Some (i, w) \<Rightarrow>
              let s1 = s\<lparr>inbuf := b, icurrchar := i, t_lines := w\<rparr> in
              if ch \<le> i then fill es s1 else Filled (s1\<lparr>ibufsize := ch\<rparr>) es)"

lemma length_read2_loop: "read2_loop t len i b = Some b' \<Longrightarrow> length b' = length b"
proof (induction t len i b rule: read2_loop.induct)
  case (1 tabs len i b)
  from "1.prems" show ?case
    by (subst (asm) read2_loop.simps) (auto simp: Let_def split: if_splits option.splits prod.splits dest: "1.IH")
qed

lemma length_bbs_read: "bbs_read d s = Some b \<Longrightarrow> length d \<le> length (inbuf s) \<Longrightarrow> length b = length (inbuf s)"
  by (auto simp: bbs_read_def Let_def dest!: length_read2_loop split: if_splits)

lemma fill_keeps:
  "(fill es s = Filled s' es' \<longrightarrow> length (inbuf s) = IBUFSIZE \<longrightarrow> length (inbuf s') = IBUFSIZE \<and> length es' < length es) \<and>
   (fill es s = Stop g s' es' \<longrightarrow> length (inbuf s) = IBUFSIZE \<longrightarrow> length (inbuf s') = IBUFSIZE \<and> length es' \<le> length es)"
proof (induction es s rule: fill.induct)
  case (5 data es s)
  show ?case
  proof (cases "data = []")
    case False
    show ?thesis
    proof (cases "bbs_read (take IBUFSIZE data) s")
      case b: (Some b)
      show ?thesis
      proof (cases "skip_iac b (length (take IBUFSIZE data)) 0 (t_lines s)")
        case i: (Some iw)
        obtain i w where iw: "iw = (i, w)" by (cases iw)
        show ?thesis
        proof (cases "length (take IBUFSIZE data) \<le> i")
          case True
          from "5.IH" [OF False b refl i iw [symmetric] refl True] show ?thesis
            using False b i iw True length_bbs_read [OF b] by auto
        next
          case no: False
          then show ?thesis using False b i iw length_bbs_read [OF b] by auto
        qed
      qed (use False b in simp)
    qed (use False in simp)
  qed simp
qed auto

lemmas fill_shorter = fill_keeps [THEN conjunct1, THEN mp, THEN mp]

definition todo :: "event list \<Rightarrow> input \<Rightarrow> nat" where
  "todo es s = (IBUFSIZE + 1) * length es + (IBUFSIZE - icurrchar s)"

lemma todo_fill: "fill es s = Filled s' es' \<Longrightarrow> length (inbuf s) = IBUFSIZE \<Longrightarrow> todo es' s' < todo es s"
proof -
  assume "fill es s = Filled s' es'" "length (inbuf s) = IBUFSIZE"
  then have "length es' < length es" using fill_shorter by blast
  then have "257 * (length es' + 1) \<le> 257 * length es" by simp
  then show ?thesis unfolding todo_def by simp
qed

text \<open>
  \<open>igetch\<close>: the loop over the bytes that are not handed on.  A byte is the value of a signed
  \<open>char\<close>.
\<close>

definition CtrlL :: char where "CtrlL = CHR 0x0C"

function igetch :: "event list \<Rightarrow> input \<Rightarrow> (got \<times> input \<times> event list) option"
and igetch_byte :: "event list \<Rightarrow> input \<Rightarrow> (got \<times> input \<times> event list) option" where
  "igetch es s =
     (if length (inbuf s) \<noteq> IBUFSIZE then None
      else if ibufsize s = icurrchar s then
        (case fill es s of
           Fault \<Rightarrow> None
         | Stop g s1 es1 \<Rightarrow> Some (g, s1, es1)
         | Filled s1 es1 \<Rightarrow> igetch_byte es1 s1)
      else igetch_byte es s)"
| "igetch_byte es s =
     (if IBUFSIZE \<le> icurrchar s \<or> length (inbuf s) \<noteq> IBUFSIZE then None
      else
        let c = inbuf s ! icurrchar s;
            s1 = s\<lparr>icurrchar := icurrchar s + 1, trailing := False\<rparr>
        in if trailing s \<and> (c = NUL \<or> c = CHR 0x0A) then igetch es s1
           else if c = CtrlL then igetch es s1
           else if c = CHR 0x0D then Some (Key 10, s1\<lparr>trailing := True\<rparr>, es)
           else Some (Key (csval c), s1, es))"
  by pat_completeness auto

termination
  by (relation "measure (\<lambda>x. case x of Inl (es, s) \<Rightarrow> 2 * todo es s + 1 | Inr (es, s) \<Rightarrow> 2 * todo es s)")
    (auto dest: todo_fill simp: todo_def)

declare igetch.simps [simp del] igetch_byte.simps [simp del]

section \<open>One key\<close>

text \<open>
  A byte read directly, while a message is read in a chat or a game.  \<open>read2\<close> on the single byte
  looks at the one behind it when the byte can begin a character.
\<close>

fun raw_byte :: "event list \<Rightarrow> input \<Rightarrow> (got \<times> input \<times> event list) option" where
  "raw_byte [] s = Some (Waiting, s, [])"
| "raw_byte (Bytes (c # d) # es) s =
     (if convcode s \<and> 0xA1 \<le> cval c \<and> cval c \<noteq> 0xFF then None
      else Some (Key (csval c), s, if d = [] then es else Bytes d # es))"
| "raw_byte (Bytes [] # es) s = Some (Abort, s, es)"
| "raw_byte (Hangup # es) s = Some (Abort, s, es)"
| "raw_byte (Idle # es) s = raw_byte es s"
| "raw_byte (OtherData # es) s = raw_byte es s"

datatype keystep = Done int | Escape int | More nat

text \<open>The automaton of \<open>igetkey\<close>: mode, the last character, and the new one.\<close>

definition key_step :: "nat \<Rightarrow> int \<Rightarrow> int \<Rightarrow> keystep" where
  "key_step mode prev ch =
     (if mode = 0 then (if ch = 27 then More 1 else Done ch)
      else if mode = 1 then
        (if ch = 91 \<or> ch = 79 then More 2 else if ch = 49 \<or> ch = 52 then More 3 else Escape ch)
      else if mode = 2 then
        (if 65 \<le> ch \<and> ch \<le> 68 then Done (int KEY_UP + (ch - 65)) else if 49 \<le> ch \<and> ch \<le> 54 then More 3 else Done ch)
      else (if ch = 126 then Done (int KEY_HOME + (prev - 49)) else Done ch))"

text \<open>
  \<open>igetkey\<close>.  \<open>direct\<close>: a message is being read in a chat or a game; \<open>zkey\<close>: Ctrl-Z opens the messages
  (another screen, behind which the reading goes on).
\<close>

definition key_char :: "bool \<Rightarrow> event list \<Rightarrow> input \<Rightarrow> (got \<times> input \<times> event list) option" where
  "key_char direct es s = (if direct then raw_byte es s else igetch es s)"

definition undone :: "bool \<Rightarrow> event list \<Rightarrow> input \<Rightarrow> nat" where
  "undone direct es s = (if direct then sum_list (map (\<lambda>e. case e of Bytes d \<Rightarrow> length d + 1 | _ \<Rightarrow> 1) es) else todo es s)"

lemma fill_stop: "fill es s = Stop (Key k) s' es' \<Longrightarrow> length es' < length es"
proof (induction es s rule: fill.induct)
  case (5 data es s)
  show ?case
  proof (cases "data = []")
    case False
    then obtain b i w where b: "bbs_read (take IBUFSIZE data) s = Some b"
      and i: "skip_iac b (length (take IBUFSIZE data)) 0 (t_lines s) = Some (i, w)"
      and f: "fill es (s\<lparr>inbuf := b, icurrchar := i, t_lines := w\<rparr>) = Stop (Key k) s' es' \<or> length es' < Suc (length es)"
      and le: "length (take IBUFSIZE data) \<le> i"
      using "5.prems" by (auto simp: Let_def split: option.splits if_splits)
    from f show ?thesis
    proof
      assume "fill es (s\<lparr>inbuf := b, icurrchar := i, t_lines := w\<rparr>) = Stop (Key k) s' es'"
      from "5.IH" [OF False b refl i refl refl le this] show ?thesis by simp
    qed simp
  qed (use "5.prems" in simp)
qed auto

lemma todo_shorter: "length es' < length es \<Longrightarrow> todo es' s' < todo es s"
proof -
  assume "length es' < length es"
  then have "257 * (length es' + 1) \<le> 257 * length es" by simp
  then show ?thesis unfolding todo_def by simp
qed

lemma igetch_less:
  "igetch es s = Some (Key k, s', es') \<Longrightarrow> todo es' s' < todo es s"
  "igetch_byte es1 s1 = Some (Key k, s', es') \<Longrightarrow> todo es' s' < todo es1 s1"
proof (induction es s and es1 s1 arbitrary: and rule: igetch_igetch_byte.induct)
  case (1 es s)
  have len: "\<not> length (inbuf s) \<noteq> IBUFSIZE" using "1.prems" by (auto simp: igetch.simps split: if_splits)
  show ?case
  proof (cases "ibufsize s = icurrchar s")
    case True
    show ?thesis
    proof (cases "fill es s")
      case (Filled s1 es1)
      have "igetch_byte es1 s1 = Some (Key k, s', es')" using "1.prems" len True Filled by (simp add: igetch.simps)
      then have "todo es' s' < todo es1 s1" by (rule "1.IH"(1) [OF len True Filled])
      also have "\<dots> < todo es s" using todo_fill [OF Filled] len by simp
      finally show ?thesis .
    next
      case (Stop g s1 es1)
      then show ?thesis using "1.prems" len True fill_stop by (auto simp: igetch.simps intro: todo_shorter)
    next
      case Fault
      then show ?thesis using "1.prems" len True by (simp add: igetch.simps)
    qed
  next
    case False
    have "igetch_byte es s = Some (Key k, s', es')" using "1.prems" len False by (simp add: igetch.simps)
    then show ?thesis by (rule "1.IH"(2) [OF len False])
  qed
next
  case (2 es s)
  let ?s1 = "s\<lparr>icurrchar := icurrchar s + 1, trailing := False\<rparr>" and ?c = "inbuf s ! icurrchar s"
  have g: "\<not> (IBUFSIZE \<le> icurrchar s \<or> length (inbuf s) \<noteq> IBUFSIZE)"
    using "2.prems" by (auto simp: igetch_byte.simps split: if_splits)
  have t: "todo es ?s1 < todo es s" "todo es (?s1\<lparr>trailing := True\<rparr>) < todo es s"
    using g by (simp_all add: todo_def) linarith+
  consider (skip) "trailing s \<and> (?c = NUL \<or> ?c = CHR 0x0A)" | (redraw) "\<not> (trailing s \<and> (?c = NUL \<or> ?c = CHR 0x0A))" "?c = CtrlL"
    | (char) "\<not> (trailing s \<and> (?c = NUL \<or> ?c = CHR 0x0A))" "?c \<noteq> CtrlL" by blast
  then show ?case
  proof cases
    case skip
    have "igetch es ?s1 = Some (Key k, s', es')" using "2.prems" g skip by (simp add: igetch_byte.simps Let_def)
    from "2.IH"(1) [OF g refl refl skip this] t(1) show ?thesis by simp
  next
    case redraw
    have "igetch es ?s1 = Some (Key k, s', es')" using "2.prems" g redraw by (auto simp: igetch_byte.simps Let_def split: if_splits)
    from "2.IH"(2) [OF g refl refl redraw this] t(1) show ?thesis by simp
  next
    case char
    then have "es' = es \<and> (s' = ?s1 \<or> s' = ?s1\<lparr>trailing := True\<rparr>)"
      using "2.prems" g by (subst (asm) igetch_byte.simps) (simp add: Let_def split: if_splits)
    then show ?thesis using t by blast
  qed
qed

lemma raw_less: "raw_byte es s = Some (Key k, s', es') \<Longrightarrow> undone True es' s' < undone True es s"
  by (induction es s rule: raw_byte.induct) (auto simp: undone_def split: if_splits)

lemma key_char_less: "key_char direct es s = Some (Key k, s', es') \<Longrightarrow> undone direct es' s' < undone direct es s"
  using igetch_less(1) raw_less by (auto simp: key_char_def undone_def split: if_splits)

function igetkey :: "bool \<Rightarrow> bool \<Rightarrow> nat \<Rightarrow> int \<Rightarrow> event list \<Rightarrow> input \<Rightarrow> (got \<times> input \<times> event list) option" where
  "igetkey direct zkey mode prev es s =
     (case key_char direct es s of
        None \<Rightarrow> None
      | Some (g, s1, es1) \<Rightarrow>
          (case g of
             Abort \<Rightarrow> Some (Abort, s1, es1)
           | Waiting \<Rightarrow> Some (Waiting, s1, es1)
           | Key ch \<Rightarrow>
               if ch = -1 \<and> \<not> direct then Some (Abort, s1, es1)
               else if ch = 26 \<and> zkey then igetkey direct zkey mode prev es1 s1
               else
                 (case key_step mode prev ch of
                    Done k \<Rightarrow> Some (Key k, s1, es1)
                  | Escape a \<Rightarrow> Some (Key 27, s1\<lparr>key_esc_arg := a\<rparr>, es1)
                  | More m \<Rightarrow> igetkey direct zkey m ch es1 s1)))"
  by pat_completeness auto
termination
  by (relation "measure (\<lambda>(direct, z, m, p, es, s). undone direct es s)") (auto dest: key_char_less)

declare igetkey.simps [simp del]

section \<open>Lines and keys in packets\<close>

text \<open>What the bytes of a connection mean, without buffers and packets.\<close>

fun cook :: "bool \<Rightarrow> string \<Rightarrow> (int \<times> bool \<times> string) option" where
  "cook tr [] = None"
| "cook tr (c # r) =
     (if tr \<and> (c = NUL \<or> c = CHR 0x0A) then cook False r
      else if c = CtrlL then cook False r
      else if c = CHR 0x0D then Some (10, True, r)
      else Some (csval c, False, r))"

lemma cook_shorter: "cook tr w = Some (k, tr', r) \<Longrightarrow> length r < length w"
  by (induction tr w rule: cook.induct) (auto split: if_splits)

function next_key :: "nat \<Rightarrow> int \<Rightarrow> bool \<Rightarrow> string \<Rightarrow> (int \<times> bool \<times> string) option" where
  "next_key mode prev tr w =
     (case cook tr w of
        None \<Rightarrow> None
      | Some (ch, tr1, r) \<Rightarrow>
          (case key_step mode prev ch of
             Done k \<Rightarrow> Some (k, tr1, r)
           | Escape a \<Rightarrow> Some (27, tr1, r)
           | More m \<Rightarrow> next_key m ch tr1 r))"
  by pat_completeness auto
termination by (relation "measure (\<lambda>(m, p, t, w). length w)") (auto dest: cook_shorter)

declare next_key.simps [simp del]

text \<open>A session that sends no telnet commands: the bytes that have not been handed on.\<close>

definition plain :: "event list \<Rightarrow> input \<Rightarrow> bool" where
  "plain es s \<longleftrightarrow> length (inbuf s) = IBUFSIZE \<and> icurrchar s \<le> ibufsize s \<and> ibufsize s \<le> IBUFSIZE \<and> \<not> convcode s \<and>
     IAC \<notin> set (take (ibufsize s - icurrchar s) (drop (icurrchar s) (inbuf s))) \<and>
     (\<forall>e\<in>set es. \<exists>d. e = Bytes d \<and> d \<noteq> [] \<and> length d \<le> IBUFSIZE \<and> IAC \<notin> set d)"

definition bytes_of :: "event \<Rightarrow> string" where
  "bytes_of e = (case e of Bytes d \<Rightarrow> d | _ \<Rightarrow> [])"

definition coming :: "event list \<Rightarrow> input \<Rightarrow> string" where
  "coming es s = take (ibufsize s - icurrchar s) (drop (icurrchar s) (inbuf s)) @ concat (map bytes_of es)"

lemma fill_plain:
  assumes p: "plain es s" and e: "ibufsize s = icurrchar s"
  shows "(es = [] \<and> fill es s = Stop Waiting s []) \<or>
    (\<exists>s' es'. fill es s = Filled s' es' \<and> plain es' s' \<and> coming es' s' = coming es s \<and> icurrchar s' < ibufsize s' \<and> trailing s' = trailing s)"
proof (cases es)
  case (Cons e1 es1)
  then obtain d where d: "e1 = Bytes d" "d \<noteq> []" "length d \<le> 256" "IAC \<notin> set d" using p by (auto simp: plain_def)
  let ?b = "d @ drop (length d) (inbuf s)"
  have b0: "?b ! 0 \<noteq> IAC" using d by (cases d) auto
  have lb: "length ?b = 256" using p d(3) by (simp add: plain_def)
  have r: "bbs_read (take 256 d) s = Some ?b" using p d by (simp add: bbs_read_def plain_def)
  have k: "skip_iac ?b (length d) 0 (t_lines s) = Some (0, t_lines s)"
    using b0 lb by (subst skip_iac.simps) simp
  let ?s1 = "s\<lparr>inbuf := ?b, icurrchar := 0, t_lines := t_lines s, ibufsize := length d\<rparr>"
  have f: "fill es s = Filled ?s1 es1" using Cons d r k by (simp add: Let_def)
  have "plain es1 ?s1" using p d lb Cons by (auto simp: plain_def)
  moreover have "coming es1 ?s1 = coming es s" using e Cons d by (simp add: coming_def bytes_of_def)
  ultimately show ?thesis using f d(2) by auto
qed simp

lemma coming_byte:
  assumes "plain es s" and "icurrchar s < ibufsize s"
  shows "coming es s = inbuf s ! icurrchar s # coming es (s\<lparr>icurrchar := icurrchar s + 1, trailing := t\<rparr>)"
    and "plain es (s\<lparr>icurrchar := icurrchar s + 1, trailing := t\<rparr>)"
proof -
  obtain n where n: "ibufsize s - icurrchar s = Suc n" using assms(2) by (metis Suc_diff_Suc)
  have "icurrchar s < length (inbuf s)" using assms by (simp add: plain_def)
  then have d: "drop (icurrchar s) (inbuf s) = inbuf s ! icurrchar s # drop (Suc (icurrchar s)) (inbuf s)"
    by (simp add: Cons_nth_drop_Suc)
  have n1: "ibufsize s - Suc (icurrchar s) = n" using n by simp
  show "coming es s = inbuf s ! icurrchar s # coming es (s\<lparr>icurrchar := icurrchar s + 1, trailing := t\<rparr>)"
    by (simp add: coming_def n n1 d)
  show "plain es (s\<lparr>icurrchar := icurrchar s + 1, trailing := t\<rparr>)"
    using assms n n1 d by (auto simp: plain_def)
qed

text \<open>\<open>igetch\<close> hands on what the bytes mean, whatever packets they come in.\<close>

definition hands_on :: "(got \<times> input \<times> event list) option \<Rightarrow> (int \<times> bool \<times> string) option \<Rightarrow> bool" where
  "hands_on r c \<longleftrightarrow>
     (case c of
        None \<Rightarrow> \<exists>s' es'. r = Some (Waiting, s', es')
      | Some (k, tr, w) \<Rightarrow> \<exists>s' es'. r = Some (Key k, s', es') \<and> plain es' s' \<and> trailing s' = tr \<and> coming es' s' = w)"

lemma igetch_plain:
  "plain es s \<Longrightarrow> hands_on (igetch es s) (cook (trailing s) (coming es s))"
  "plain es1 s1 \<Longrightarrow> icurrchar s1 < ibufsize s1 \<Longrightarrow> hands_on (igetch_byte es1 s1) (cook (trailing s1) (coming es1 s1))"
proof (induction es s and es1 s1 rule: igetch_igetch_byte.induct)
  case (1 es s)
  have len: "\<not> length (inbuf s) \<noteq> IBUFSIZE" using "1.prems" by (simp add: plain_def)
  show ?case
  proof (cases "ibufsize s = icurrchar s")
    case True
    from fill_plain [OF "1.prems" True] show ?thesis
    proof
      assume e: "es = [] \<and> fill es s = Stop Waiting s []"
      then have "coming es s = []" using True by (simp add: coming_def)
      then show ?thesis using e len True by (simp add: igetch.simps hands_on_def)
    next
      assume "\<exists>s' es'. fill es s = Filled s' es' \<and> plain es' s' \<and> coming es' s' = coming es s \<and> icurrchar s' < ibufsize s' \<and> trailing s' = trailing s"
      then obtain s' es' where f: "fill es s = Filled s' es'" "plain es' s'" "coming es' s' = coming es s" "icurrchar s' < ibufsize s'"
        "trailing s' = trailing s" by blast
      have "hands_on (igetch_byte es' s') (cook (trailing s') (coming es' s'))" by (rule "1.IH"(1) [OF len True f(1,2,4)])
      then show ?thesis using f len True by (simp add: igetch.simps)
    qed
  next
    case False
    then have lt: "icurrchar s < ibufsize s" using "1.prems" by (simp add: plain_def)
    have "hands_on (igetch_byte es s) (cook (trailing s) (coming es s))" by (rule "1.IH"(2) [OF len False "1.prems" lt])
    then show ?thesis using len False by (simp add: igetch.simps)
  qed
next
  case (2 es s)
  let ?s1 = "s\<lparr>icurrchar := icurrchar s + 1, trailing := False\<rparr>" and ?c = "inbuf s ! icurrchar s"
  have g: "\<not> (IBUFSIZE \<le> icurrchar s \<or> length (inbuf s) \<noteq> IBUFSIZE)" using "2.prems" by (simp add: plain_def)
  note c = coming_byte [OF "2.prems", of False]
  have c2: "coming es (?s1\<lparr>trailing := True\<rparr>) = coming es ?s1" "plain es (?s1\<lparr>trailing := True\<rparr>)"
    using c(2) by (simp_all add: coming_def plain_def)
  consider (skip) "trailing s \<and> (?c = NUL \<or> ?c = CHR 0x0A)" | (redraw) "\<not> (trailing s \<and> (?c = NUL \<or> ?c = CHR 0x0A))" "?c = CtrlL"
    | (char) "\<not> (trailing s \<and> (?c = NUL \<or> ?c = CHR 0x0A))" "?c \<noteq> CtrlL" by blast
  then show ?case
  proof cases
    case skip
    from "2.IH"(1) [OF g refl refl skip c(2)] show ?thesis
      using g skip c(1) by (simp add: igetch_byte.simps Let_def)
  next
    case redraw
    from "2.IH"(2) [OF g refl refl redraw c(2)] show ?thesis
      using g redraw c(1) by (auto simp: igetch_byte.simps Let_def)
  next
    case char
    then show ?thesis using g c c2 by (auto simp: igetch_byte.simps Let_def hands_on_def)
  qed
qed

text \<open>What is typed without Ctrl-Z and the byte 255.\<close>

lemma plain_no_iac: "plain es s \<Longrightarrow> IAC \<notin> set (coming es s)"
  by (auto simp: plain_def coming_def bytes_of_def dest!: bspec)

lemma csval_iac: "csval c = -1 \<longleftrightarrow> c = IAC"
proof -
  have "csval c = -1 \<longleftrightarrow> cval c = cval IAC" using cval_less [of c] by (auto simp: csval_def cval_def)
  then show ?thesis by simp
qed

lemma cook_no_iac: "cook tr w = Some (k, tr', r) \<Longrightarrow> IAC \<notin> set w \<Longrightarrow> k \<noteq> -1"
  by (induction tr w rule: cook.induct) (auto simp: csval_iac split: if_splits)

lemma igetkey_plain:
  "plain es s \<Longrightarrow> trailing s = tr \<Longrightarrow> coming es s = w \<Longrightarrow> hands_on (igetkey False False mode prev es s) (next_key mode prev tr w)"
proof (induction mode prev tr w arbitrary: es s rule: next_key.induct)
  case (1 mode prev tr w)
  note h = igetch_plain(1) [OF "1.prems"(1), unfolded "1.prems"(2,3)]
  show ?case
  proof (cases "cook tr w")
    case None
    then show ?thesis using h by (auto simp: hands_on_def igetkey.simps next_key.simps key_char_def)
  next
    case (Some c)
    then obtain ch tr1 r where c: "cook tr w = Some (ch, tr1, r)" by (cases c) auto
    then obtain s' es' where s': "igetch es s = Some (Key ch, s', es')" "plain es' s'" "trailing s' = tr1" "coming es' s' = r"
      using h by (auto simp: hands_on_def)
    have ne: "ch \<noteq> -1" using cook_no_iac [OF c] plain_no_iac [OF "1.prems"(1)] "1.prems"(3) by simp
    have kc: "key_char False es s = Some (Key ch, s', es')" using s'(1) by (simp add: key_char_def)
    show ?thesis
    proof (cases "key_step mode prev ch")
      case (More m)
      have "hands_on (igetkey False False m ch es' s') (next_key m ch tr1 r)" by (rule "1.IH" [OF c refl refl More s'(2-4)])
      then show ?thesis using kc ne More c by (subst igetkey.simps, subst next_key.simps) simp
    next
      case (Escape a)
      have "plain es' (s'\<lparr>key_esc_arg := a\<rparr>)" "coming es' (s'\<lparr>key_esc_arg := a\<rparr>) = r"
        using s'(2,4) by (simp_all add: plain_def coming_def)
      then show ?thesis using kc ne Escape c s'(3) by (subst igetkey.simps, subst next_key.simps) (simp add: hands_on_def)
    next
      case (Done k)
      then show ?thesis using kc ne c s'(2-4) by (subst igetkey.simps, subst next_key.simps) (simp add: hands_on_def)
    qed
  qed
qed

section \<open>Properties\<close>

text \<open>The sequences the terminals send for the keys without a character.\<close>

definition special_keys :: "(nat \<times> string) list" where
  "special_keys =
     [(KEY_UP, [KEY_ESC] @ ''[A''), (KEY_DOWN, [KEY_ESC] @ ''[B''), (KEY_RIGHT, [KEY_ESC] @ ''[C''), (KEY_LEFT, [KEY_ESC] @ ''[D''),
      (KEY_UP, [KEY_ESC] @ ''OA''), (KEY_DOWN, [KEY_ESC] @ ''OB''), (KEY_RIGHT, [KEY_ESC] @ ''OC''), (KEY_LEFT, [KEY_ESC] @ ''OD''),
      (KEY_HOME, [KEY_ESC] @ ''[1~''), (KEY_INS, [KEY_ESC] @ ''[2~''), (KEY_DEL, [KEY_ESC] @ ''[3~''),
      (KEY_END, [KEY_ESC] @ ''[4~''), (KEY_PGUP, [KEY_ESC] @ ''[5~''), (KEY_PGDN, [KEY_ESC] @ ''[6~'')]"

lemma special_next_key:
  "(k, t) \<in> set special_keys \<Longrightarrow> next_key 0 p tr (t @ w) = Some (int k, False, w)"
  by (auto simp: special_keys_def next_key.simps key_step_def CtrlL_def csval_def cval_def)

text \<open>C16. 
  C1. The sequence of a special key gives its code, in whatever packets its bytes arrive, and takes
  no byte of what follows.
\<close>
theorem special_keys_in_any_packets:
  assumes "plain es s" and "(k, t) \<in> set special_keys" and "coming es s = t @ w"
  shows "\<exists>s' es'. igetkey False False 0 0 es s = Some (Key (int k), s', es') \<and> plain es' s' \<and> coming es' s' = w"
  using igetkey_plain [OF assms(1) refl assms(3), of 0 0] special_next_key [OF assms(2), of 0 _ w]
  by (auto simp: hands_on_def)

definition fresh_input :: input where
  "fresh_input = \<lparr>inbuf = replicate 256 NUL, ibufsize = 0, icurrchar = 0, trailing = False, t_lines = 24,
     convcode = False, tables = [], key_esc_arg = 0\<rparr>"

theorem special_keys_in_any_packets_witness:
  "\<exists>s' es'. igetkey False False 0 0 [Bytes [KEY_ESC], Bytes ''['', Bytes ''5~q''] fresh_input = Some (Key 0x0205, s', es') \<and> coming es' s' = ''q''"
proof -
  have p: "plain [Bytes [KEY_ESC], Bytes ''['', Bytes ''5~q''] fresh_input" by (simp add: plain_def fresh_input_def)
  have k: "(KEY_PGUP, [KEY_ESC] @ ''[5~'') \<in> set special_keys" by (simp add: special_keys_def)
  have c: "coming [Bytes [KEY_ESC], Bytes ''['', Bytes ''5~q''] fresh_input = ([KEY_ESC] @ ''[5~'') @ ''q''"
    by (simp add: coming_def fresh_input_def bytes_of_def)
  from special_keys_in_any_packets [OF p k c] show ?thesis by auto
qed

text \<open>A number of keys, one after the other.\<close>

fun read_keys :: "nat \<Rightarrow> event list \<Rightarrow> input \<Rightarrow> (int list \<times> input \<times> event list) option" where
  "read_keys 0 es s = Some ([], s, es)"
| "read_keys (Suc n) es s =
     (case igetkey False False 0 0 es s of
        Some (Key k, s1, es1) \<Rightarrow>
          (case read_keys n es1 s1 of None \<Rightarrow> None | Some (ks, s2, es2) \<Rightarrow> Some (k # ks, s2, es2))
      | _ \<Rightarrow> None)"

definition typeable :: "char \<Rightarrow> bool" where
  "typeable c \<longleftrightarrow> isprint2 c \<and> c \<noteq> IAC"

definition line_ends :: "string list" where
  "line_ends = [[CHR 0x0D], [CHR 0x0D, CHR 0x0A], [CHR 0x0D, NUL]]"

lemma csval_small: "csval c = n \<Longrightarrow> 0 \<le> n \<Longrightarrow> int (cval c) = n"
proof -
  assume "csval c = n" "0 \<le> n"
  moreover have "cval c < 256" by simp
  ultimately show ?thesis by (auto simp: csval_def simp del: cval_less split: if_splits)
qed

text \<open>The bytes behind the line feed or the zero that belongs to the last line.\<close>

definition behind_end :: "bool \<Rightarrow> string \<Rightarrow> string" where
  "behind_end tr w = (if tr \<and> w \<noteq> [] \<and> (hd w = NUL \<or> hd w = CHR 0x0A) then tl w else w)"

lemma typeable_next_key: "typeable c \<Longrightarrow> next_key 0 p tr (c # w) = Some (csval c, False, w)"
proof -
  assume c: "typeable c"
  then have "cval c \<noteq> cval NUL" "cval c \<noteq> cval (CHR 0x0A)" "cval c \<noteq> cval CtrlL" "cval c \<noteq> cval (CHR 0x0D)"
    by (simp_all add: typeable_def isprint2_def cval_def CtrlL_def)
  moreover have "csval c \<noteq> 27" using c csval_small [of c 27] by (auto simp: typeable_def isprint2_def)
  ultimately show ?thesis by (simp add: next_key.simps key_step_def del: cval_NUL cval_eq_0)
qed

lemma behind_next_key: "next_key 0 p tr w = next_key 0 p False (behind_end tr w)"
  by (cases w) (auto simp: behind_end_def next_key.simps)

lemma return_next_key: "next_key 0 p tr (CHR 0x0D # w) = Some (10, True, w)"
  by (simp add: next_key.simps key_step_def CtrlL_def)

lemma read_key:
  assumes "plain es s" and "next_key 0 0 False (behind_end (trailing s) (coming es s)) = Some (k, tr, w)"
  shows "\<exists>s' es'. igetkey False False 0 0 es s = Some (Key k, s', es') \<and> plain es' s' \<and> trailing s' = tr \<and> coming es' s' = w"
  using igetkey_plain [OF assms(1) refl refl, of 0 0] assms(2) behind_next_key [of 0 "trailing s" "coming es s"]
  by (simp add: hands_on_def)

lemma read_typed_text:
  "plain es s \<Longrightarrow> behind_end (trailing s) (coming es s) = t @ CHR 0x0D # w \<Longrightarrow> \<forall>c\<in>set t. typeable c \<Longrightarrow>
    \<exists>s' es'. read_keys (length t + 1) es s = Some (map csval t @ [10], s', es') \<and> plain es' s' \<and> trailing s' \<and> coming es' s' = w"
proof (induction t arbitrary: es s)
  case Nil
  then show ?case using read_key [of es s 10 True w] return_next_key [of 0 False w] by auto
next
  case (Cons c t)
  have n: "next_key 0 0 False (behind_end (trailing s) (coming es s)) = Some (csval c, False, t @ CHR 0x0D # w)"
    using Cons.prems(2,3) typeable_next_key by simp
  obtain s1 es1 where s1: "igetkey False False 0 0 es s = Some (Key (csval c), s1, es1)" "plain es1 s1" "\<not> trailing s1"
      "coming es1 s1 = t @ CHR 0x0D # w"
    using read_key [OF Cons.prems(1) n] by auto
  have "behind_end (trailing s1) (coming es1 s1) = t @ CHR 0x0D # w" using s1(3,4) by (simp add: behind_end_def)
  from Cons.IH [OF s1(2) this] Cons.prems(3) show ?case using s1(1) by auto
qed

definition typed :: "(string \<times> string) list \<Rightarrow> string" where
  "typed ls = concat (map (\<lambda>(t, e). t @ e) ls)"

definition proper_lines :: "(string \<times> string) list \<Rightarrow> bool" where
  "proper_lines ls \<longleftrightarrow> (\<forall>(t, e)\<in>set ls. (\<forall>c\<in>set t. typeable c) \<and> e \<in> set line_ends)"

lemma typeable_not: "typeable c \<Longrightarrow> c \<noteq> NUL \<and> c \<noteq> CHR 0x0A"
proof -
  assume "typeable c"
  then have "cval c \<noteq> cval NUL \<and> cval c \<noteq> cval (CHR 0x0A)" by (simp add: typeable_def isprint2_def cval_def)
  then show ?thesis by (simp del: cval_NUL cval_eq_0)
qed

lemma typed_start:
  assumes "proper_lines ls"
  shows "behind_end tr (typed ls) = typed ls"
proof (cases ls)
  case (Cons x xs)
  obtain t e where x: "x = (t, e)" by (cases x)
  have l: "\<forall>c\<in>set t. typeable c" "e \<in> set line_ends" using assms Cons x by (auto simp: proper_lines_def)
  have ty: "typed ls = t @ e @ typed xs" by (simp add: Cons x typed_def)
  show ?thesis
  proof (cases t)
    case Nil
    obtain e' where "e = CHR 0x0D # e'" using l(2) by (auto simp: line_ends_def)
    then show ?thesis using ty Nil by (simp add: behind_end_def)
  next
    case (Cons c t')
    then show ?thesis using ty typeable_not [of c] l(1) by (simp add: behind_end_def)
  qed
qed (simp add: typed_def behind_end_def)

lemma read_keys_add:
  "read_keys n es s = Some (ks, s1, es1) \<Longrightarrow> read_keys m es1 s1 = Some (ks', s2, es2) \<Longrightarrow>
    read_keys (n + m) es s = Some (ks @ ks', s2, es2)"
  by (induction n arbitrary: es s ks) (auto split: option.splits prod.splits got.splits)

lemma read_typed_lines:
  "plain es s \<Longrightarrow> behind_end (trailing s) (coming es s) = typed ls \<Longrightarrow> proper_lines ls \<Longrightarrow>
    \<exists>s' es'. read_keys (sum_list (map (\<lambda>(t, e). length t + 1) ls)) es s =
      Some (concat (map (\<lambda>(t, e). map csval t @ [10]) ls), s', es')"
proof (induction ls arbitrary: es s)
  case (Cons x ls)
  obtain t e where x: "x = (t, e)" by (cases x)
  have l: "\<forall>c\<in>set t. typeable c" "e \<in> set line_ends" "proper_lines ls" using Cons.prems(3) x by (auto simp: proper_lines_def)
  obtain e' where e: "e = CHR 0x0D # e'" "e' = [] \<or> e' = [CHR 0x0A] \<or> e' = [NUL]" using l(2) by (auto simp: line_ends_def)
  have "behind_end (trailing s) (coming es s) = t @ CHR 0x0D # (e' @ typed ls)"
    using Cons.prems(2) x e(1) by (simp add: typed_def)
  from read_typed_text [OF Cons.prems(1) this l(1)] obtain s1 es1 where s1:
    "read_keys (length t + 1) es s = Some (map csval t @ [10], s1, es1)" "plain es1 s1" "trailing s1" "coming es1 s1 = e' @ typed ls"
    by blast
  have "behind_end (trailing s1) (coming es1 s1) = typed ls"
    using s1(3,4) e(2) typed_start [OF l(3), of True] by (auto simp: behind_end_def)
  from Cons.IH [OF s1(2) this l(3)] obtain s2 es2 where "read_keys (sum_list (map (\<lambda>(t, e). length t + 1) ls)) es1 s1 =
      Some (concat (map (\<lambda>(t, e). map csval t @ [10]) ls), s2, es2)" by blast
  from read_keys_add [OF s1(1) this] show ?case by (auto simp: x)
qed simp

text \<open>
  C2. Every line that is typed is read once, byte by byte and with one line feed at its end, whether the
  terminal ends lines with a carriage return, with both characters or with a zero behind it, and
  wherever the packets are cut.
\<close>
theorem lines_in_any_packets:
  assumes "plain es s" and "\<not> trailing s" and "coming es s = typed ls" and "proper_lines ls"
  shows "\<exists>s' es'. read_keys (sum_list (map (\<lambda>(t, e). length t + 1) ls)) es s =
    Some (concat (map (\<lambda>(t, e). map csval t @ [10]) ls), s', es')"
  using read_typed_lines [OF assms(1) _ assms(4)] assms(2,3) by (simp add: behind_end_def)

theorem lines_in_any_packets_witness:
  "\<exists>s' es'. read_keys 5 [Bytes ''l'', Bytes [CHR ''s'', CHR 0x0D], Bytes [CHR 0x0A, CHR ''q'', CHR 0x0D, NUL]] fresh_input =
    Some ([108, 115, 10, 113, 10], s', es')"
proof -
  let ?es = "[Bytes ''l'', Bytes [CHR ''s'', CHR 0x0D], Bytes [CHR 0x0A, CHR ''q'', CHR 0x0D, NUL]]"
  let ?ls = "[(''ls'', [CHR 0x0D, CHR 0x0A]), (''q'', [CHR 0x0D, NUL])]"
  have "plain ?es fresh_input" "\<not> trailing fresh_input" "coming ?es fresh_input = typed ?ls"
    by (simp_all add: plain_def fresh_input_def coming_def bytes_of_def typed_def)
  moreover have "proper_lines ?ls" by (simp add: proper_lines_def line_ends_def typeable_def isprint2_def cval_def)
  ultimately show ?thesis
    using lines_in_any_packets [of ?es fresh_input ?ls] by (simp add: csval_def cval_def eval_nat_numeral)
qed

text \<open>
  C3. The byte 255 behind the head of a packet is read as \<open>-1\<close>, which \<open>igetkey\<close> takes for the end of the
  session.
\<close>
theorem byte_255_ends_session:
  assumes "length (inbuf s) = 256" and "icurrchar s < 256" and "icurrchar s \<noteq> ibufsize s" and "inbuf s ! icurrchar s = IAC"
  shows "\<exists>s'. igetkey False zkey mode prev es s = Some (Abort, s', es)"
  using assms by (simp add: igetkey.simps key_char_def igetch.simps igetch_byte.simps Let_def CtrlL_def csval_def cval_def)

theorem byte_255_ends_session_witness:
  "\<exists>s'. igetkey False True 0 0 [] (fresh_input\<lparr>inbuf := IAC # replicate 255 NUL, ibufsize := 1\<rparr>) = Some (Abort, s', [])"
  by (rule byte_255_ends_session) (simp_all add: fresh_input_def)

text \<open>The telnet commands at the head of a packet, and the one that reports the size of the window.\<close>

definition window_size :: "char \<Rightarrow> char \<Rightarrow> char \<Rightarrow> char \<Rightarrow> string" where
  "window_size a b c d = [IAC, SB, TELOPT_NAWS, a, b, c, d, IAC, SE]"

definition negotiation :: "(char \<times> char) list \<Rightarrow> string" where
  "negotiation cs = concat (map (\<lambda>(c, x). [IAC, c, x]) cs)"

lemma skip_negotiation:
  "\<forall>(c, x)\<in>set cs. cval c \<in> {251, 252, 253, 254} \<Longrightarrow> d \<noteq> [] \<Longrightarrow> hd d \<noteq> IAC \<Longrightarrow> length p + length (negotiation cs) < ch \<Longrightarrow>
    skip_iac (p @ negotiation cs @ d) ch (length p) w = Some (length p + length (negotiation cs), w)"
proof (induction cs arbitrary: p)
  case Nil
  then obtain c d' where "d = c # d'" "c \<noteq> IAC" by (cases d) auto
  then show ?case by (subst skip_iac.simps) (simp add: negotiation_def nth_append)
next
  case (Cons x cs)
  obtain c o' where x: "x = (c, o')" by (cases x)
  have c: "cval c \<in> {251, 252, 253, 254}" using Cons.prems(1) x by auto
  let ?b = "p @ negotiation (x # cs) @ d"
  have b: "?b = (p @ [IAC, c, o']) @ negotiation cs @ d" by (simp add: negotiation_def x)
  have n: "?b ! length p = IAC" "?b ! (length p + 1) = c" by (simp_all add: negotiation_def x nth_append)
  have l: "length (negotiation (x # cs)) = 3 + length (negotiation cs)" by (simp add: negotiation_def x)
  have k: "iac_count ?b (length p) w = Some (3, w)"
    unfolding iac_count_def Let_def n(2) using c by (simp add: l)
  have "skip_iac ?b ch (length p) w = skip_iac ?b ch (length p + 3) w"
    using n(1) k Cons.prems(4) by (subst skip_iac.simps) (simp add: l)
  also have "length p + 3 = length (p @ [IAC, c, o'])" by simp
  also have "skip_iac ?b ch (length (p @ [IAC, c, o'])) w = Some (length (p @ [IAC, c, o']) + length (negotiation cs), w)"
    unfolding b using Cons.prems l by (intro Cons.IH) auto
  finally show ?case by (simp add: l)
qed

text \<open>
  C4. A packet that begins with option commands of the telnet protocol gives the text behind them, as
  if it had come without them.
\<close>
theorem negotiation_is_skipped:
  assumes "length (inbuf s) = 256" and "ibufsize s = icurrchar s" and "\<not> convcode s"
    and "\<forall>(c, x)\<in>set cs. cval c \<in> {251, 252, 253, 254}" and "d \<noteq> []" and "length (negotiation cs) + length d \<le> 256" and "IAC \<notin> set d"
  shows "hands_on (igetch [Bytes (negotiation cs @ d)] s) (cook (trailing s) d)"
proof -
  let ?m = "negotiation cs @ d"
  let ?b = "?m @ drop (length ?m) (inbuf s)" and ?n = "length (negotiation cs)"
  let ?s1 = "s\<lparr>inbuf := ?b, icurrchar := ?n, ibufsize := length ?m\<rparr>"
  have d: "hd d \<noteq> IAC" using assms(5,7) by (cases d) auto
  have sk: "skip_iac ?b (length ?m) 0 (t_lines s) = Some (?n, t_lines s)"
    using skip_negotiation [OF assms(4), of "d @ drop (length ?m) (inbuf s)" "[]" "length ?m" "t_lines s"] d assms(5) by simp
  have "take 256 ?m = ?m" "?m \<noteq> []" "bbs_read ?m s = Some ?b" using assms(3,5,6) by (simp_all add: bbs_read_def)
  then have f: "fill [Bytes ?m] s = Filled ?s1 []" using sk assms(5) by (simp add: Let_def)
  have p: "plain [] ?s1" using assms(1,3,6,7) by (auto simp: plain_def)
  have c: "coming [] ?s1 = d" by (simp add: coming_def)
  have lt: "icurrchar ?s1 < ibufsize ?s1" using assms(5) by simp
  have "igetch [Bytes ?m] s = igetch_byte [] ?s1" using assms(1,2) f by (simp add: igetch.simps)
  then show ?thesis using igetch_plain(2) [OF p lt] c by simp
qed

theorem negotiation_is_skipped_witness:
  "\<exists>s' es'. igetch [Bytes ([IAC, CHR 0xFD, CHR 0x01] @ ''a'')] fresh_input = Some (Key 97, s', es')"
proof -
  have n: "negotiation [(CHR 0xFD, CHR 0x01)] = [IAC, CHR 0xFD, CHR 0x01]" by (simp add: negotiation_def)
  have "hands_on (igetch [Bytes (negotiation [(CHR 0xFD, CHR 0x01)] @ ''a'')] fresh_input) (cook (trailing fresh_input) ''a'')"
    by (rule negotiation_is_skipped) (simp_all add: fresh_input_def n, simp add: cval_def)
  then show ?thesis by (auto simp: n hands_on_def fresh_input_def CtrlL_def csval_def cval_def)
qed

text \<open>
  C5. When a packet holds only a telnet command, the position is moved but not the length: if
  something else wakes the session next, the following read takes stale bytes of the buffer for
  typed ones.
\<close>
theorem command_then_wakeup_replays:
  assumes "length (inbuf s) = 256" and "ibufsize s = icurrchar s" and "ibufsize s \<noteq> 9" and "\<not> convcode s" and "\<not> trailing s"
    and "inbuf s ! 9 \<noteq> CtrlL" and "inbuf s ! 9 \<noteq> CHR 0x0D"
  shows "\<exists>s1 s2. igetch [Bytes (window_size a b c d), OtherData] s = Some (Key I_OTHERDATA, s1, []) \<and>
    igetch [] s1 = Some (Key (csval (inbuf s ! 9)), s2, [])"
proof -
  let ?ws = "window_size a b c d" and ?b = "window_size a b c d @ drop 9 (inbuf s)"
  have lw: "length ?ws = 9" by (simp add: window_size_def)
  then have lb: "length ?b = 256" using assms(1) by simp
  have n: "?b ! 0 = IAC" "?b ! 1 = SB" "?b ! 2 = TELOPT_NAWS" "?b ! 8 = SE" "?b ! 9 = inbuf s ! 9"
    using assms(1) by (simp_all add: window_size_def nth_append eval_nat_numeral)
  obtain w where w: "iac_count ?b 0 (t_lines s) = Some (9, w)"
    using lb n n(3) [unfolded numeral_2_eq_2] by (auto simp: iac_count_def Let_def cval_def)
  have s9: "skip_iac ?b 9 9 w = Some (9, w)" using lb by (subst skip_iac.simps) simp
  have sk: "skip_iac ?b 9 0 (t_lines s) = Some (9, w)" using w n(1) lb s9 by (subst skip_iac.simps) simp
  let ?s1 = "s\<lparr>inbuf := ?b, icurrchar := 9, t_lines := w\<rparr>"
  have "take 256 ?ws = ?ws" "?ws \<noteq> []" using lw by auto
  then have "fill [Bytes ?ws, OtherData] s = Stop (Key I_OTHERDATA) ?s1 []"
    using assms(4) lw sk by (simp add: bbs_read_def Let_def)
  then have "igetch [Bytes ?ws, OtherData] s = Some (Key I_OTHERDATA, ?s1, [])"
    using assms(1,2) by (simp add: igetch.simps)
  moreover have "\<exists>s2. igetch [] ?s1 = Some (Key (csval (inbuf s ! 9)), s2, [])"
    using assms(3,5-7) lb n(5) by (simp add: igetch.simps igetch_byte.simps Let_def)
  ultimately show ?thesis by blast
qed

theorem command_then_wakeup_replays_witness:
  "\<exists>s1 s2. igetch [Bytes (window_size NUL (CHR 80) NUL (CHR 30)), OtherData] fresh_input = Some (Key I_OTHERDATA, s1, []) \<and>
    igetch [] s1 = Some (Key 0, s2, [])"
  using command_then_wakeup_replays [of fresh_input NUL "CHR 80" NUL "CHR 30"]
  by (simp add: fresh_input_def CtrlL_def csval_def)

end
