(* ===== verification/LineInput.thy ===== *)
theory LineInput
  imports KeyInput
begin

text \<open>
  \<open>getdata\<close> (src/io.c): the entry of one line.  The state is the caller's buffer with the counters and
  the flags of the loop; drawing is left out.  Keys are the values \<open>igetkey\<close> returns.  \<open>None\<close> is an
  access outside the buffer or the local copy \<open>tmp\<close>.
\<close>

unbundle bit_operations_syntax

section \<open>The loop\<close>

record entry =
  ebuf :: "char list"
  clen :: nat
  curr :: nat
  init :: bool
  enabledbchar :: bool

text \<open>What does not change: the size, the column, the width, and whether a message is being answered.\<close>

record form =
  flen :: nat
  fcol :: nat
  fcols :: nat
  msg_keys :: bool

abbreviation (input) STRLEN :: nat where "STRLEN \<equiv> 80"

definition printable_int :: "int \<Rightarrow> bool" where
  "printable_int ch \<longleftrightarrow> ch AND 0xe0 \<noteq> 0 \<and> ch \<noteq> 127"

definition char_int :: "int \<Rightarrow> char" where
  "char_int ch = char_of (nat (ch mod 256))"

definition ctrl :: "char \<Rightarrow> int" where
  "ctrl c = int (Ctrl c)"

text \<open>\<open>strcpy(tmp, &buf[k])\<close> for the local copy of 80 bytes, and \<open>strcat(buf, tmp)\<close>.\<close>

definition copy_tail :: "char list \<Rightarrow> nat \<Rightarrow> string option" where
  "copy_tail b k = (if k \<le> length b \<and> NUL \<in> set (drop k b) \<and> length (cstr (drop k b)) < STRLEN then Some (cstr (drop k b)) else None)"

definition put_tail :: "char list \<Rightarrow> string \<Rightarrow> char list option" where
  "put_tail b t = strcpy b (cstr b @ t)"

text \<open>Whether the byte in front of the cursor is the second one of a character.\<close>

fun dbchar_loop :: "string \<Rightarrow> bool \<Rightarrow> bool" where
  "dbchar_loop [] d = d"
| "dbchar_loop (c # cs) d = dbchar_loop cs (\<not> d \<and> high_bit c)"

datatype answer = Go entry | End entry

definition clear_first :: "entry \<Rightarrow> entry option" where
  "clear_first e =
     (if init e then do { b \<leftarrow> poke (ebuf e) 0 NUL; Some (e\<lparr>init := False, ebuf := b, curr := 0, clen := 0\<rparr>) }
      else Some e)"

definition backspace :: "entry \<Rightarrow> entry option" where
  "backspace e0 = do {
     e \<leftarrow> clear_first e0;
     if curr e = 0 then Some e
     else do {
       tmp \<leftarrow> copy_tail (ebuf e) (curr e);
       let n = (if enabledbchar e \<and> dbchar_loop (take (curr e - 1) (ebuf e)) False then 2 else 1);
       if curr e < n \<or> clen e < n then None
       else do {
         b \<leftarrow> poke (ebuf e) (curr e - n) NUL;
         b1 \<leftarrow> put_tail b tmp;
         Some (e\<lparr>ebuf := b1, curr := curr e - n, clen := clen e - n\<rparr>)
       }
     }
   }"

definition delete_under :: "entry \<Rightarrow> entry option" where
  "delete_under e0 = do {
     e \<leftarrow> clear_first e0;
     if clen e \<le> curr e then Some (e\<lparr>curr := clen e\<rparr>)
     else do {
       tmp \<leftarrow> copy_tail (ebuf e) (curr e + 1);
       b \<leftarrow> poke (ebuf e) (curr e) NUL;
       b1 \<leftarrow> put_tail b tmp;
       Some (e\<lparr>ebuf := b1, clen := clen e - 1\<rparr>)
     }
   }"

text \<open>
  Typing: \<open>strncpy(tmp, &buf[curr], len)\<close> fills \<open>len\<close> bytes of the local copy, \<open>strncat\<close> puts at most
  \<open>len - curr\<close> of them back.
\<close>

definition insert_at :: "form \<Rightarrow> char \<Rightarrow> entry \<Rightarrow> entry option" where
  "insert_at f ch e0 =
     (if fcols f \<le> fcol f + clen e0 \<or> flen f \<le> clen e0 + 1 then Some e0
      else do {
        e \<leftarrow> clear_first e0;
        if length (ebuf e) \<le> curr e then None
        else if ebuf e ! curr e = NUL then do {
          b \<leftarrow> poke (ebuf e) (curr e + 1) NUL;
          Some (e\<lparr>ebuf := b[curr e := ch], curr := curr e + 1, clen := clen e + 1\<rparr>)
        }
        else if STRLEN < flen f then None
        else do {
          let tmp = take (flen f) (cstr (drop (curr e) (ebuf e)));
          b \<leftarrow> poke ((ebuf e)[curr e := ch]) (curr e + 1) NUL;
          b1 \<leftarrow> put_tail b (take (flen f - curr e) tmp);
          Some (e\<lparr>ebuf := b1, curr := curr e + 1, clen := clen e + 1\<rparr>)
        }
      })"

definition answer_key :: "form \<Rightarrow> int \<Rightarrow> bool" where
  "answer_key f ch \<longleftrightarrow> msg_keys f \<and> (ch = 26 \<or> ch = int KEY_UP \<or> ch = 1 \<or> ch = int KEY_DOWN)"

definition answer_with :: "int \<Rightarrow> entry \<Rightarrow> entry option" where
  "answer_with ch e = do {
     b \<leftarrow> poke (ebuf e) 0 (if ch = 26 \<or> ch = int KEY_UP then CHR 0x1A else CHR 0x01);
     Some (e\<lparr>ebuf := b, clen := 1\<rparr>)
   }"

definition getdata_key :: "form \<Rightarrow> int \<Rightarrow> entry \<Rightarrow> answer option" where
  "getdata_key f ch e =
     (if answer_key f ch then map_option End (answer_with ch e)
      else if ch = 10 \<or> ch = 13 then Some (End e)
      else if ch = 18 then Some (Go (e\<lparr>init := False, enabledbchar := \<not> enabledbchar e\<rparr>))
      else if ch = 127 \<or> ch = 8 then map_option Go (backspace e)
      else if ch = 4 \<or> ch = int KEY_DEL then map_option Go (delete_under e)
      else if ch = 11 then map_option (\<lambda>b. Go (e\<lparr>init := False, ebuf := b, clen := curr e\<rparr>)) (poke (ebuf e) (curr e) NUL)
      else if ch = 2 \<or> ch = int KEY_LEFT then Some (Go (e\<lparr>init := False, curr := curr e - 1\<rparr>))
      else if ch = 5 \<or> ch = int KEY_END then Some (Go (e\<lparr>init := False, curr := clen e\<rparr>))
      else if ch = 1 \<or> ch = int KEY_HOME then Some (Go (e\<lparr>init := False, curr := 0\<rparr>))
      else if ch = 6 \<or> ch = int KEY_RIGHT then
        Some (Go (e\<lparr>init := False, curr := (if clen e \<le> curr e then clen e else curr e + 1)\<rparr>))
      else if \<not> printable_int ch then Some (Go (e\<lparr>init := False\<rparr>))
      else map_option Go (insert_at f (char_int ch) e))"

text \<open>Without an echo: the characters are counted, the keys of the cursor do nothing.\<close>

definition hidden_key :: "form \<Rightarrow> int \<Rightarrow> entry \<Rightarrow> answer option" where
  "hidden_key f ch e =
     (if ch = 13 then Some (End e)
      else if answer_key f ch then map_option End (answer_with ch e)
      else if ch = 10 then Some (End e)
      else if ch = 127 \<or> ch = 8 then Some (Go (e\<lparr>clen := clen e - 1\<rparr>))
      else if \<not> printable_int ch then Some (Go e)
      else if flen f \<le> clen e + 1 then Some (Go e)
      else map_option (\<lambda>b. Go (e\<lparr>ebuf := b, clen := clen e + 1\<rparr>)) (poke (ebuf e) (clen e) (char_int ch)))"

fun entry_loop :: "(int \<Rightarrow> entry \<Rightarrow> answer option) \<Rightarrow> int list \<Rightarrow> entry \<Rightarrow> (entry \<times> int list \<times> bool) option" where
  "entry_loop step [] e = Some (e, [], False)"
| "entry_loop step (k # ks) e =
     (case step k e of
        None \<Rightarrow> None
      | Some (Go e1) \<Rightarrow> entry_loop step ks e1
      | Some (End e1) \<Rightarrow> Some (e1, ks, True))"

definition getdata_start :: "char list \<Rightarrow> nat \<Rightarrow> bool \<Rightarrow> bool \<Rightarrow> entry option" where
  "getdata_start b len clearlabel dbc =
     (if clearlabel then
        if length b < len then None
        else Some \<lparr>ebuf = replicate len NUL @ drop len b, clen = 0, curr = 0, init = True, enabledbchar = dbc\<rparr>
      else if NUL \<notin> set b \<or> len = 0 then None
      else
        let n = length (cstr b); c = (if len \<le> n then len - 1 else n)
        in Some \<lparr>ebuf = b[c := NUL], clen = n, curr = c, init = True, enabledbchar = dbc\<rparr>)"

text \<open>The result: the buffer, the length returned, the keys left, and whether the entry has ended.\<close>

definition getdata :: "form \<Rightarrow> bool \<Rightarrow> bool \<Rightarrow> bool \<Rightarrow> char list \<Rightarrow> int list \<Rightarrow> (char list \<times> nat \<times> int list \<times> bool) option" where
  "getdata f hidden clearlabel dbc b keys = do {
     e \<leftarrow> getdata_start b (flen f) clearlabel dbc;
     (e1, ks, ended) \<leftarrow> entry_loop (if hidden then hidden_key f else getdata_key f) keys e;
     if \<not> ended then Some (ebuf e1, clen e1, ks, False)
     else do { b1 \<leftarrow> poke (ebuf e1) (clen e1) NUL; Some (b1, clen e1, ks, True) }
   }"

section \<open>The text and the cursor\<close>

text \<open>The buffer holds the text \<open>t\<close>, and the cursor stands in front of its byte \<open>k\<close>.\<close>

definition holds :: "form \<Rightarrow> entry \<Rightarrow> string \<Rightarrow> nat \<Rightarrow> bool" where
  "holds f e t k \<longleftrightarrow> is_cstr t \<and> (\<exists>r. ebuf e = t @ NUL # r) \<and> clen e = length t \<and> curr e = k \<and> k \<le> length t \<and>
     length t < flen f \<and> flen f \<le> length (ebuf e)"

lemma printable_char:
  assumes "printable_int ch"
  shows "char_int ch \<noteq> NUL"
proof
  assume "char_int ch = NUL"
  then have "cval (char_int ch) = 0" by simp
  moreover have "nat (ch mod 256) < 256" by (simp add: nat_less_iff)
  ultimately have "ch mod 256 = 0" by (simp add: char_int_def del: cval_eq_0)
  then have "take_bit 8 ch = 0" by (simp add: take_bit_eq_mod)
  then have "take_bit 8 (ch AND 0xe0) = 0" by simp
  moreover have "0 \<le> ch AND 0xe0" "ch AND 0xe0 \<le> 0xe0" by simp_all
  then have "take_bit 8 (ch AND 0xe0) = ch AND 0xe0" by (intro take_bit_int_eq_self) auto
  ultimately show False using assms by (simp add: printable_int_def)
qed

lemma copy_tail_holds:
  assumes "holds f e t k" and "flen f \<le> STRLEN" and "j \<le> length t"
  shows "copy_tail (ebuf e) j = Some (drop j t)"
proof -
  obtain r where r: "ebuf e = t @ NUL # r" "is_cstr t" "length t < flen f" using assms(1) by (auto simp: holds_def)
  then have "cstr (drop j (ebuf e)) = drop j t" "NUL \<in> set (drop j (ebuf e))" using assms(3) by simp_all
  then show ?thesis using r assms(2,3) by (simp add: copy_tail_def)
qed

lemma put_tail_cut:
  assumes "b = t @ NUL # r" and "is_cstr t" and "j \<le> length t" and "length (take j t @ u) < length b"
  shows "put_tail (b[j := NUL]) u = Some ((take j t @ u) @ NUL # drop (length (take j t @ u) + 1) (b[j := NUL]))"
proof -
  have "b[j := NUL] = take j t @ NUL # drop (Suc j) b"
    using assms(1,3) by (simp add: upd_conv_take_nth_drop)
  then have "cstr (b[j := NUL]) = take j t" using assms(2) by simp
  then show ?thesis using assms(4) by (simp add: put_tail_def strcpy_def)
qed

lemma holds_D:
  assumes "holds f e t k"
  shows "is_cstr t" "\<exists>r. ebuf e = t @ NUL # r" "clen e = length t" "curr e = k" "k \<le> length t" "length t < flen f" "flen f \<le> length (ebuf e)"
  using assms by (simp_all add: holds_def)

text \<open>What a key means for the text and the cursor.\<close>

definition edit :: "form \<Rightarrow> int \<Rightarrow> bool \<Rightarrow> bool \<Rightarrow> string \<Rightarrow> nat \<Rightarrow> string \<times> nat" where
  "edit f ch fresh dbl t k =
     (let (t0, k0) = (if fresh then ([], 0) else (t, k)) in
      if ch = 18 then (t, k)
      else if ch = 127 \<or> ch = 8 then
        (let n = (if dbl \<and> dbchar_loop (take (k0 - 1) t0) False then 2 else 1)
         in (take (k0 - n) t0 @ drop k0 t0, k0 - n))
      else if ch = 4 \<or> ch = int KEY_DEL then (take k0 t0 @ drop (k0 + 1) t0, k0)
      else if ch = 11 then (take k t, k)
      else if ch = 2 \<or> ch = int KEY_LEFT then (t, k - 1)
      else if ch = 5 \<or> ch = int KEY_END then (t, length t)
      else if ch = 1 \<or> ch = int KEY_HOME then (t, 0)
      else if ch = 6 \<or> ch = int KEY_RIGHT then (t, min (k + 1) (length t))
      else if \<not> printable_int ch \<or> fcols f \<le> fcol f + length t \<or> flen f \<le> length t + 1 then (t, k)
      else (take k0 t0 @ char_int ch # drop k0 t0, k0 + 1))"

lemma clear_first_holds:
  assumes "holds f e t k"
  shows "\<exists>e1. clear_first e = Some e1 \<and> holds f e1 (if init e then [] else t) (if init e then 0 else k) \<and>
    enabledbchar e1 = enabledbchar e \<and> \<not> init e1 \<and> length (ebuf e1) = length (ebuf e)"
proof -
  obtain r where r: "ebuf e = t @ NUL # r" "length t < flen f" "flen f \<le> length (ebuf e)" using assms by (auto simp: holds_def)
  then have p: "poke (ebuf e) 0 NUL = Some (NUL # tl (ebuf e))" by (cases t) (simp_all add: poke_def)
  show ?thesis using assms p r by (auto simp: clear_first_def holds_def)
qed

lemma dbchar_pos: "dbchar_loop xs False \<Longrightarrow> xs \<noteq> []"
  by auto

lemma backspace_holds:
  assumes h: "holds f e t k" and l: "flen f \<le> STRLEN"
  defines "t0 \<equiv> (if init e then [] else t)" and "k0 \<equiv> (if init e then 0 else k)"
  defines "n \<equiv> (if enabledbchar e \<and> dbchar_loop (take (k0 - 1) t0) False then 2 else 1)"
  shows "\<exists>e'. backspace e = Some e' \<and> holds f e' (take (k0 - n) t0 @ drop k0 t0) (k0 - n) \<and> length (ebuf e') = length (ebuf e)"
proof -
  obtain e1 where e1: "clear_first e = Some e1" "holds f e1 t0 k0" "enabledbchar e1 = enabledbchar e" "\<not> init e1" "length (ebuf e1) = length (ebuf e)"
    using clear_first_holds [OF h] unfolding t0_def k0_def by blast
  show ?thesis
  proof (cases "k0 = 0")
    case True
    then show ?thesis using e1 by (auto simp: backspace_def holds_def)
  next
    case False
    obtain r where r: "ebuf e1 = t0 @ NUL # r" "is_cstr t0" "clen e1 = length t0" "curr e1 = k0" "k0 \<le> length t0" "length t0 < flen f"
        "flen f \<le> length (ebuf e1)" using e1(2) by (auto simp: holds_def)
    have n: "0 < n" "n \<le> k0"
    proof -
      show "0 < n" by (simp add: n_def)
      show "n \<le> k0"
      proof (cases "enabledbchar e \<and> dbchar_loop (take (k0 - 1) t0) False")
        case True
        then have "take (k0 - 1) t0 \<noteq> []" using dbchar_pos by blast
        then have "2 \<le> k0" by simp
        moreover have "n = 2" using True unfolding n_def by (rule if_P)
        ultimately show ?thesis by simp
      next
        case no: False
        then have "n = 1" by (simp only: n_def if_False)
        then show ?thesis using False by simp
      qed
    qed
    have tk: "take (k0 - 1) (ebuf e1) = take (k0 - 1) t0" using r(1,5) by simp
    have c: "copy_tail (ebuf e1) k0 = Some (drop k0 t0)" by (rule copy_tail_holds [OF e1(2) l r(5)])
    have po: "poke (ebuf e1) (k0 - n) NUL = Some ((ebuf e1)[k0 - n := NUL])" using r n by (simp add: poke_def)
    have ln: "length (take (k0 - n) t0 @ drop k0 t0) < length (ebuf e1)" using r n by simp
    have pt: "put_tail ((ebuf e1)[k0 - n := NUL]) (drop k0 t0) =
        Some ((take (k0 - n) t0 @ drop k0 t0) @ NUL # drop (length (take (k0 - n) t0 @ drop k0 t0) + 1) ((ebuf e1)[k0 - n := NUL]))"
      by (rule put_tail_cut [OF r(1,2)]) (use r n ln in auto)
    have nn: "(if enabledbchar e1 \<and> dbchar_loop (take (k0 - 1) (ebuf e1)) False then 2 else 1) = n"
      by (simp only: n_def e1(3) tk)
    have bad: "(k0 < n \<or> length t0 < n) = False" using r(5) n by auto
    have "backspace e = Some (e1\<lparr>ebuf := (take (k0 - n) t0 @ drop k0 t0) @ NUL # drop (length (take (k0 - n) t0 @ drop k0 t0) + 1) ((ebuf e1)[k0 - n := NUL]),
        curr := k0 - n, clen := length t0 - n\<rparr>)"
      by (simp only: backspace_def e1(1) Option.bind.simps r(3,4) False if_False c Let_def nn bad po pt)
    moreover have "k0 - n \<le> length t0 - n" "length t0 - n < flen f" using r(5,6) by auto
    ultimately show ?thesis using r n ln e1(5) by (simp add: holds_def)
  qed
qed

lemma delete_holds:
  assumes h: "holds f e t k" and l: "flen f \<le> STRLEN"
  defines "t0 \<equiv> (if init e then [] else t)" and "k0 \<equiv> (if init e then 0 else k)"
  shows "\<exists>e'. delete_under e = Some e' \<and> holds f e' (take k0 t0 @ drop (k0 + 1) t0) k0 \<and> length (ebuf e') = length (ebuf e)"
proof -
  obtain e1 where e1: "clear_first e = Some e1" "holds f e1 t0 k0" "enabledbchar e1 = enabledbchar e" "\<not> init e1" "length (ebuf e1) = length (ebuf e)"
    using clear_first_holds [OF h] unfolding t0_def k0_def by blast
  obtain r where r: "ebuf e1 = t0 @ NUL # r" "is_cstr t0" "clen e1 = length t0" "curr e1 = k0" "k0 \<le> length t0" "length t0 < flen f"
      "flen f \<le> length (ebuf e1)" using e1(2) by (auto simp: holds_def)
  show ?thesis
  proof (cases "length t0 \<le> k0")
    case True
    then have "holds f (e1\<lparr>curr := length t0\<rparr>) t0 k0" using r by (simp add: holds_def)
    then show ?thesis using e1 r True by (simp add: delete_under_def)
  next
    case False
    let ?t = "take k0 t0 @ drop (k0 + 1) t0"
    have c: "copy_tail (ebuf e1) (k0 + 1) = Some (drop (k0 + 1) t0)" by (rule copy_tail_holds [OF e1(2) l]) (use False in simp)
    have po: "poke (ebuf e1) k0 NUL = Some ((ebuf e1)[k0 := NUL])" using r by (simp add: poke_def)
    have ln: "length ?t < length (ebuf e1)" using r by simp
    have pt: "put_tail ((ebuf e1)[k0 := NUL]) (drop (k0 + 1) t0) = Some (?t @ NUL # drop (length ?t + 1) ((ebuf e1)[k0 := NUL]))"
      by (rule put_tail_cut [OF r(1,2)]) (use r ln in auto)
    have "delete_under e = Some (e1\<lparr>ebuf := ?t @ NUL # drop (length ?t + 1) ((ebuf e1)[k0 := NUL]), clen := length t0 - 1\<rparr>)"
      by (simp only: delete_under_def e1(1) Option.bind.simps r(3,4) False if_False c po pt)
    moreover obtain m where "length t0 = Suc m" using False by (cases "length t0") auto
    ultimately show ?thesis using r ln e1(5) False by (simp add: holds_def)
  qed
qed

lemma insert_holds:
  assumes h: "holds f e t k" and l: "flen f \<le> STRLEN" and c: "c \<noteq> NUL"
  defines "t0 \<equiv> (if init e then [] else t)" and "k0 \<equiv> (if init e then 0 else k)"
  shows "\<exists>e'. insert_at f c e = Some e' \<and> length (ebuf e') = length (ebuf e) \<and>
    (if fcols f \<le> fcol f + length t \<or> flen f \<le> length t + 1 then e' = e else holds f e' (take k0 t0 @ c # drop k0 t0) (k0 + 1))"
proof (cases "fcols f \<le> fcol f + length t \<or> flen f \<le> length t + 1")
  case True
  then show ?thesis using h by (auto simp: insert_at_def holds_def)
next
  case False
  have room: "length t + 1 < flen f" and cl: "clen e = length t" using False h by (auto simp: holds_def)
  obtain e1 where e1: "clear_first e = Some e1" "holds f e1 t0 k0" "enabledbchar e1 = enabledbchar e" "\<not> init e1" "length (ebuf e1) = length (ebuf e)"
    using clear_first_holds [OF h] unfolding t0_def k0_def by blast
  have t0: "length t0 \<le> length t" by (simp add: t0_def)
  obtain r where r: "ebuf e1 = t0 @ NUL # r" "is_cstr t0" "clen e1 = length t0" "curr e1 = k0" "k0 \<le> length t0" "length t0 < flen f"
      "flen f \<le> length (ebuf e1)" using e1(2) by (auto simp: holds_def)
  let ?t = "take k0 t0 @ c # drop k0 t0"
  have ln: "length ?t < flen f" using r(5) t0 room by simp
  show ?thesis
  proof (cases "k0 = length t0")
    case True
    have r2: "Suc (length t0) < length (ebuf e1)" using ln True r(7) by simp
    then obtain y r' where r': "r = y # r'" using r(1) by (cases r) auto
    have z: "ebuf e1 ! k0 = NUL" using r(1) True by simp
    have po: "poke (ebuf e1) (k0 + 1) NUL = Some ((ebuf e1)[k0 + 1 := NUL])" using r2 True by (simp add: poke_def)
    have b: "(ebuf e1)[k0 + 1 := NUL, k0 := c] = ?t @ NUL # r'" using True by (simp add: r(1) r' list_update_append)
    have "insert_at f c e = Some (e1\<lparr>ebuf := ?t @ NUL # r', curr := k0 + 1, clen := length t0 + 1\<rparr>)"
      using False cl e1(1) r(3,4) r2 True z po b by (simp add: insert_at_def)
    moreover have "length (?t @ NUL # r') = length (ebuf e1)" using True by (simp add: r(1) r')
    ultimately show ?thesis using False r(2,7) ln c e1(5) True by (auto simp: holds_def)
  next
    case no: False
    then have k: "k0 < length t0" using r(5) by simp
    have "t0 ! k0 \<noteq> NUL" using r(2) nth_mem [OF k] unfolding is_cstr_def by metis
    then have z: "ebuf e1 ! k0 \<noteq> NUL" using r(1) k by (simp add: nth_append)
    let ?tail = "drop k0 t0" and ?b = "(ebuf e1)[k0 := c]"
    have tail: "take (flen f - k0) (take (flen f) (cstr (drop k0 (ebuf e1)))) = ?tail"
      using r k by simp
    let ?t1 = "t0[k0 := c]"
    have b: "?b = ?t1 @ NUL # r" using k by (simp add: r(1) list_update_append)
    have t1: "is_cstr ?t1" using r(2) c by (auto simp: is_cstr_def dest: set_update_subset_insert [THEN subsetD])
    have tk: "take (k0 + 1) ?t1 = take k0 t0 @ [c]" using k take_Suc_update [of k0 t0 c] by simp
    have po: "poke ?b (k0 + 1) NUL = Some (?b[k0 + 1 := NUL])" using r(1) k by (simp add: poke_def)
    have lb: "length (take (k0 + 1) ?t1 @ ?tail) < length ?b" using ln r(7) unfolding tk by simp
    have pt: "put_tail (?b[k0 + 1 := NUL]) ?tail = Some (?t @ NUL # drop (length ?t + 1) (?b[k0 + 1 := NUL]))"
      using put_tail_cut [OF b t1 _ lb] k unfolding tk by simp
    have "insert_at f c e = Some (e1\<lparr>ebuf := ?t @ NUL # drop (length ?t + 1) (?b[k0 + 1 := NUL]), curr := k0 + 1, clen := length t0 + 1\<rparr>)"
    proof -
      have g: "\<not> (fcols f \<le> fcol f + clen e \<or> flen f \<le> clen e + 1)" "\<not> length (ebuf e1) \<le> k0" "\<not> STRLEN < flen f"
        using False cl r k l by auto
      show ?thesis
        by (simp only: insert_at_def g if_False e1(1) Option.bind.simps r(3,4) z Let_def tail po pt)
    qed
    then show ?thesis using False r ln e1(5) c k by (auto simp: holds_def)
  qed
qed

lemma getdata_key_edit:
  assumes h: "holds f e t k" and l: "flen f \<le> STRLEN" and ch: "\<not> answer_key f ch" "ch \<noteq> 10" "ch \<noteq> 13"
  shows "\<exists>e'. getdata_key f ch e = Some (Go e') \<and> length (ebuf e') = length (ebuf e) \<and>
    holds f e' (fst (edit f ch (init e) (enabledbchar e) t k)) (snd (edit f ch (init e) (enabledbchar e) t k))"
proof -
  obtain r where r: "ebuf e = t @ NUL # r" "is_cstr t" "clen e = length t" "curr e = k" "k \<le> length t" "length t < flen f"
      "flen f \<le> length (ebuf e)" using h by (auto simp: holds_def)
  consider (bs) "ch = 127 \<or> ch = 8" | (del) "ch = 4 \<or> ch = int KEY_DEL" | (kill) "ch = 11"
    | (type) "ch \<noteq> 18" "ch \<noteq> 127" "ch \<noteq> 8" "ch \<noteq> 4" "ch \<noteq> int KEY_DEL" "ch \<noteq> 11" "ch \<noteq> 2" "ch \<noteq> int KEY_LEFT" "ch \<noteq> 5" "ch \<noteq> int KEY_END"
        "ch \<noteq> 1" "ch \<noteq> int KEY_HOME" "ch \<noteq> 6" "ch \<noteq> int KEY_RIGHT" "printable_int ch"
    | (other) "ch = 18 \<or> ch = 2 \<or> ch = int KEY_LEFT \<or> ch = 5 \<or> ch = int KEY_END \<or> ch = 1 \<or> ch = int KEY_HOME \<or> ch = 6 \<or> ch = int KEY_RIGHT \<or>
        \<not> printable_int ch \<and> ch \<noteq> 127 \<and> ch \<noteq> 8 \<and> ch \<noteq> 4 \<and> ch \<noteq> int KEY_DEL \<and> ch \<noteq> 11"
    by blast
  then show ?thesis
  proof cases
    case bs
    then have g: "getdata_key f ch e = map_option Go (backspace e)" and n: "ch \<noteq> 18" using ch by (auto simp: getdata_key_def)
    let ?t = "if init e then [] else t" and ?k = "if init e then 0 else k"
    let ?n = "if enabledbchar e \<and> dbchar_loop (take (?k - 1) ?t) False then 2 else 1"
    have "edit f ch (init e) (enabledbchar e) t k = (take (?k - ?n) ?t @ drop ?k ?t, ?k - ?n)"
      using bs n by (cases "init e") (simp_all add: edit_def)
    moreover obtain e' where "backspace e = Some e'" "holds f e' (take (?k - ?n) ?t @ drop ?k ?t) (?k - ?n)" "length (ebuf e') = length (ebuf e)"
      using backspace_holds [OF h l] by (elim exE conjE)
    ultimately show ?thesis by (simp only: g fst_conv snd_conv option.map answer.inject option.inject ex_simps simp_thms)
  next
    case del
    then have g: "getdata_key f ch e = map_option Go (delete_under e)" and n: "ch \<noteq> 18" "ch \<noteq> 127" "ch \<noteq> 8"
      using ch by (auto simp: getdata_key_def)
    let ?t = "if init e then [] else t" and ?k = "if init e then 0 else k"
    have "edit f ch (init e) (enabledbchar e) t k = (take ?k ?t @ drop (?k + 1) ?t, ?k)"
      using del n by (cases "init e") (simp_all add: edit_def)
    moreover obtain e' where "delete_under e = Some e'" "holds f e' (take ?k ?t @ drop (?k + 1) ?t) ?k" "length (ebuf e') = length (ebuf e)"
      using delete_holds [OF h l] by (elim exE conjE)
    ultimately show ?thesis by (simp only: g fst_conv snd_conv option.map answer.inject option.inject ex_simps simp_thms)
  next
    case kill
    have "poke (ebuf e) k NUL = Some ((ebuf e)[k := NUL])" "(ebuf e)[k := NUL] = take k t @ NUL # drop (Suc k) (ebuf e)"
      using r by (simp_all add: poke_def upd_conv_take_nth_drop)
    then show ?thesis using kill ch r by (auto simp: getdata_key_def edit_def Let_def holds_def)
  next
    case type
    then have g: "getdata_key f ch e = map_option Go (insert_at f (char_int ch) e)" using ch by (simp add: getdata_key_def)
    let ?t = "if init e then [] else t" and ?k = "if init e then 0 else k"
    have x: "edit f ch (init e) (enabledbchar e) t k =
        (if fcols f \<le> fcol f + length t \<or> flen f \<le> length t + 1 then (t, k) else (take ?k ?t @ char_int ch # drop ?k ?t, ?k + 1))"
      using type by (cases "init e") (simp_all add: edit_def)
    obtain e' where e': "insert_at f (char_int ch) e = Some e'" "length (ebuf e') = length (ebuf e)"
        "if fcols f \<le> fcol f + length t \<or> flen f \<le> length t + 1 then e' = e else holds f e' (take ?k ?t @ char_int ch # drop ?k ?t) (?k + 1)"
      using insert_holds [OF h l printable_char [OF type(15)]] by blast
    show ?thesis
    proof (cases "fcols f \<le> fcol f + length t \<or> flen f \<le> length t + 1")
      case True
      then show ?thesis using e' h unfolding g x by simp
    next
      case False
      then show ?thesis using e' unfolding g x by simp
    qed
  next
    case other
    have keep: "holds f (e\<lparr>init := False, curr := j\<rparr>) t j" if "j \<le> length t" for j
      using h that by (simp add: holds_def)
    have dbl: "holds f (e\<lparr>init := False, enabledbchar := d\<rparr>) t k" "holds f (e\<lparr>init := False\<rparr>) t k" for d
      using h by (simp_all add: holds_def)
    consider "ch = 18" | (l) "ch = 2 \<or> ch = int KEY_LEFT" | (e) "ch = 5 \<or> ch = int KEY_END" | (h) "ch = 1 \<or> ch = int KEY_HOME"
      | (r) "ch = 6 \<or> ch = int KEY_RIGHT" | (p) "\<not> printable_int ch" "ch \<noteq> 18" "ch \<noteq> 127" "ch \<noteq> 8" "ch \<noteq> 4" "ch \<noteq> int KEY_DEL" "ch \<noteq> 11"
        "ch \<noteq> 2" "ch \<noteq> int KEY_LEFT" "ch \<noteq> 5" "ch \<noteq> int KEY_END" "ch \<noteq> 1" "ch \<noteq> int KEY_HOME" "ch \<noteq> 6" "ch \<noteq> int KEY_RIGHT"
      using other by blast
    then show ?thesis
    proof cases
      case 1
      then show ?thesis using ch dbl by (simp add: getdata_key_def edit_def)
    next
      case l
      then have "getdata_key f ch e = Some (Go (e\<lparr>init := False, curr := k - 1\<rparr>))" "edit f ch (init e) (enabledbchar e) t k = (t, k - 1)"
        using ch r(4) by (auto simp: getdata_key_def edit_def)
      then show ?thesis using keep [of "k - 1"] r(5) by simp
    next
      case e
      then have "getdata_key f ch e = Some (Go (e\<lparr>init := False, curr := length t\<rparr>))" "edit f ch (init e) (enabledbchar e) t k = (t, length t)"
        using ch r(3) by (auto simp: getdata_key_def edit_def)
      then show ?thesis using keep [of "length t"] by simp
    next
      case h
      then have "getdata_key f ch e = Some (Go (e\<lparr>init := False, curr := 0\<rparr>))" "edit f ch (init e) (enabledbchar e) t k = (t, 0)"
        using ch by (auto simp: getdata_key_def edit_def)
      then show ?thesis using keep [of 0] by simp
    next
      case r
      let ?j = "min (k + 1) (length t)"
      have "(if clen e \<le> curr e then clen e else curr e + 1) = ?j" using holds_D(3-5) [OF assms(1)] by auto
      then have "getdata_key f ch e = Some (Go (e\<lparr>init := False, curr := ?j\<rparr>))" "edit f ch (init e) (enabledbchar e) t k = (t, ?j)"
        using r ch by (auto simp: getdata_key_def edit_def)
      then show ?thesis using keep [of ?j] by simp
    next
      case p
      then have "getdata_key f ch e = Some (Go (e\<lparr>init := False\<rparr>))" "edit f ch (init e) (enabledbchar e) t k = (t, k)"
        using ch by (simp_all add: getdata_key_def edit_def)
      then show ?thesis using dbl by simp
    qed
  qed
qed

section \<open>A sequence of keys\<close>

text \<open>A key that is refused for want of room leaves the first-key state as it was.\<close>

definition refused :: "form \<Rightarrow> int \<Rightarrow> string \<Rightarrow> bool" where
  "refused f ch t \<longleftrightarrow> printable_int ch \<and> (fcols f \<le> fcol f + length t \<or> flen f \<le> length t + 1)"

fun edits :: "form \<Rightarrow> int list \<Rightarrow> bool \<Rightarrow> bool \<Rightarrow> string \<Rightarrow> nat \<Rightarrow> string \<times> nat" where
  "edits f [] fresh dbl t k = (t, k)"
| "edits f (ch # cs) fresh dbl t k =
     (let (t1, k1) = edit f ch fresh dbl t k
      in edits f cs (fresh \<and> refused f ch t) (if ch = 18 then \<not> dbl else dbl) t1 k1)"

definition editing_key :: "form \<Rightarrow> int \<Rightarrow> bool" where
  "editing_key f ch \<longleftrightarrow> \<not> answer_key f ch \<and> ch \<noteq> 10 \<and> ch \<noteq> 13"

lemma clear_first_flags: "clear_first e = Some e' \<Longrightarrow> \<not> init e' \<and> enabledbchar e' = enabledbchar e"
  by (auto simp: clear_first_def bind_eq_Some_conv split: if_splits)

lemma backspace_flags: "backspace e = Some e' \<Longrightarrow> \<not> init e' \<and> enabledbchar e' = enabledbchar e"
  by (auto simp: backspace_def Let_def bind_eq_Some_conv split: if_splits dest!: clear_first_flags)

lemma delete_flags: "delete_under e = Some e' \<Longrightarrow> \<not> init e' \<and> enabledbchar e' = enabledbchar e"
  by (auto simp: delete_under_def bind_eq_Some_conv split: if_splits dest!: clear_first_flags)

lemma insert_flags:
  "insert_at f c e = Some e' \<Longrightarrow>
    init e' = (init e \<and> (fcols f \<le> fcol f + clen e \<or> flen f \<le> clen e + 1)) \<and> enabledbchar e' = enabledbchar e"
  by (auto simp: insert_at_def Let_def bind_eq_Some_conv split: if_splits dest!: clear_first_flags)

lemma special_not_printable:
  "\<not> printable_int 18" "\<not> printable_int 127" "\<not> printable_int 8" "\<not> printable_int 4" "\<not> printable_int 11" "\<not> printable_int 2"
  "\<not> printable_int 5" "\<not> printable_int 1" "\<not> printable_int 6" "\<not> printable_int (int KEY_DEL)" "\<not> printable_int (int KEY_LEFT)"
  "\<not> printable_int (int KEY_RIGHT)" "\<not> printable_int (int KEY_END)" "\<not> printable_int (int KEY_HOME)"
  by (simp_all add: printable_int_def)

lemma getdata_key_flags:
  assumes "getdata_key f ch e = Some (Go e')" and "clen e = length t"
  shows "init e' = (init e \<and> refused f ch t) \<and> enabledbchar e' = (if ch = 18 then \<not> enabledbchar e else enabledbchar e)"
  using assms special_not_printable
  by (auto simp: getdata_key_def refused_def split: if_splits dest!: backspace_flags delete_flags insert_flags)

lemma entry_loop_edits:
  assumes "flen f \<le> STRLEN" and "\<forall>ch\<in>set ks. editing_key f ch" and "cr = 10 \<or> cr = 13" and "\<not> answer_key f cr" and "holds f e t k"
  shows "\<exists>e'. entry_loop (getdata_key f) (ks @ cr # rest) e = Some (e', rest, True) \<and> length (ebuf e') = length (ebuf e) \<and>
    holds f e' (fst (edits f ks (init e) (enabledbchar e) t k)) (snd (edits f ks (init e) (enabledbchar e) t k))"
  using assms
proof (induction ks arbitrary: e t k)
  case Nil
  then show ?case by (simp add: getdata_key_def)
next
  case (Cons ch ks)
  have ok: "\<not> answer_key f ch" "ch \<noteq> 10" "ch \<noteq> 13" using Cons.prems(2) by (auto simp: editing_key_def)
  obtain e1 where e1: "getdata_key f ch e = Some (Go e1)" "length (ebuf e1) = length (ebuf e)"
      "holds f e1 (fst (edit f ch (init e) (enabledbchar e) t k)) (snd (edit f ch (init e) (enabledbchar e) t k))"
    using getdata_key_edit [OF Cons.prems(5,1) ok] by blast
  have "init e1 = (init e \<and> refused f ch t)" "enabledbchar e1 = (if ch = 18 then \<not> enabledbchar e else enabledbchar e)"
    using getdata_key_flags [OF e1(1) holds_D(3) [OF Cons.prems(5)]] by blast+
  then show ?case using Cons.IH [OF Cons.prems(1) _ Cons.prems(3,4) e1(3)] Cons.prems(2) e1(1,2)
    by (simp add: split_beta)
qed

section \<open>A whole entry\<close>

text \<open>The text an entry starts with: nothing, or what the caller has put into the buffer.\<close>

definition label :: "bool \<Rightarrow> char list \<Rightarrow> string" where
  "label clearlabel b = (if clearlabel then [] else cstr b)"

lemma getdata_start_holds:
  assumes "0 < flen f" and "flen f \<le> length b" and "clearlabel \<or> NUL \<in> set b \<and> length (cstr b) < flen f"
  shows "\<exists>e. getdata_start b (flen f) clearlabel dbc = Some e \<and> holds f e (label clearlabel b) (length (label clearlabel b)) \<and>
    init e \<and> enabledbchar e = dbc \<and> length (ebuf e) = length b"
proof (cases clearlabel)
  case True
  obtain n where n: "flen f = Suc n" using assms(1) by (cases "flen f") auto
  have b: "replicate (flen f) NUL @ drop (flen f) b = NUL # (replicate n NUL @ drop (flen f) b)" by (simp add: n)
  have l: "length (replicate (flen f) NUL @ drop (flen f) b) = length b" using assms(2) by simp
  let ?e = "\<lparr>ebuf = replicate (flen f) NUL @ drop (flen f) b, clen = 0, curr = 0, init = True, enabledbchar = dbc\<rparr>"
  have "holds f ?e [] 0" using assms(1,2) b l by (auto simp: holds_def)
  moreover have "getdata_start b (flen f) clearlabel dbc = Some ?e" using True assms(2) by (simp add: getdata_start_def)
  ultimately show ?thesis using True l by (simp add: label_def)
next
  case False
  then obtain r where r: "b = cstr b @ NUL # r" using cstr_split assms(3) by blast
  have "b ! length (cstr b) = NUL" by (subst r) (simp only: nth_append_length)
  then have "b[length (cstr b) := NUL] = b" by (metis list_update_id)
  moreover have "\<exists>r. b = cstr b @ NUL # r" using r by blast
  ultimately show ?thesis using False assms by (simp add: getdata_start_def holds_def label_def Let_def)
qed

lemma getdata_returns:
  assumes "0 < flen f" and "flen f \<le> STRLEN" and "flen f \<le> length b" and "clearlabel \<or> NUL \<in> set b \<and> length (cstr b) < flen f"
    and "\<forall>ch\<in>set ks. editing_key f ch" and "cr = 10 \<or> cr = 13"
  shows "\<exists>b'. getdata f False clearlabel dbc b (ks @ cr # rest) =
      Some (b', length (fst (edits f ks True dbc (label clearlabel b) (length (label clearlabel b)))), rest, True) \<and>
    cstr b' = fst (edits f ks True dbc (label clearlabel b) (length (label clearlabel b))) \<and> length b' = length b"
proof -
  let ?l = "label clearlabel b"
  let ?t = "fst (edits f ks True dbc ?l (length ?l))"
  obtain e where e: "getdata_start b (flen f) clearlabel dbc = Some e" "holds f e ?l (length ?l)" "init e" "enabledbchar e = dbc" "length (ebuf e) = length b"
    using getdata_start_holds [OF assms(1,3,4)] by blast
  have a: "\<not> answer_key f cr" using assms(6) by (auto simp: answer_key_def)
  obtain e' where e': "entry_loop (getdata_key f) (ks @ cr # rest) e = Some (e', rest, True)" "length (ebuf e') = length b"
      "holds f e' ?t (snd (edits f ks True dbc ?l (length ?l)))"
    using entry_loop_edits [OF assms(2,5,6) a e(2)] e(3-5) by auto
  obtain r where r: "ebuf e' = ?t @ NUL # r" using holds_D(2) [OF e'(3)] by blast
  have c: "clen e' = length ?t" "is_cstr ?t" using holds_D(1,3) [OF e'(3)] by simp_all
  have "poke (ebuf e') (clen e') NUL = Some (ebuf e')" using r c(1) by (simp add: poke_def)
  then have "getdata f False clearlabel dbc b (ks @ cr # rest) = Some (ebuf e', length ?t, rest, True)"
    using e(1) e'(1) c(1) by (simp add: getdata_def)
  moreover have "cstr (ebuf e') = ?t" using r c(2) by simp
  ultimately show ?thesis using e'(2) by blast
qed

text \<open>Only typing: the text is taken up to the room there is.\<close>

definition room :: "form \<Rightarrow> nat" where
  "room f = min (flen f - 1) (fcols f - fcol f)"

lemma printable_csval:
  assumes "typeable c"
  shows "printable_int (csval c)" "char_int (csval c) = c"
proof -
  have m: "csval c mod 256 = int (cval c)"
  proof -
    have "cval c < 256" by simp
    then show ?thesis by (auto simp: csval_def mod_pos_pos_trivial simp del: cval_less)
  qed
  then show "char_int (csval c) = c" by (simp add: char_int_def cval_def)
  have c: "isprint2 c" using assms by (simp add: typeable_def)
  show "printable_int (csval c)"
  proof (cases c)
    case (Char b0 b1 b2 b3 b4 b5 b6 b7)
    then show ?thesis using c
      by (cases b0; cases b1; cases b2; cases b3; cases b4; cases b5; cases b6; cases b7)
        (simp_all add: printable_int_def isprint2_def csval_def cval_def)
  qed
qed

lemma take_snoc_or: "take (Suc (length t)) (t @ c # u) = t @ [c]"
  by simp

lemma edits_typing:
  assumes "\<forall>c\<in>set u. typeable c" and "length t \<le> room f" and "fresh \<longrightarrow> t = []"
  shows "fst (edits f (map csval u) fresh dbl t (length t)) = take (room f) (t @ u)"
  using assms
proof (induction u arbitrary: fresh t)
  case Nil
  then show ?case by simp
next
  case (Cons c u)
  have p: "printable_int (csval c)" "char_int (csval c) = c" using printable_csval Cons.prems(1) by auto
  have ne: "csval c \<noteq> 18" "csval c \<noteq> 127" "csval c \<noteq> 8" "csval c \<noteq> 4" "csval c \<noteq> int KEY_DEL" "csval c \<noteq> 11" "csval c \<noteq> 2"
    "csval c \<noteq> int KEY_LEFT" "csval c \<noteq> 5" "csval c \<noteq> int KEY_END" "csval c \<noteq> 1" "csval c \<noteq> int KEY_HOME" "csval c \<noteq> 6" "csval c \<noteq> int KEY_RIGHT"
    using p(1) special_not_printable by metis+
  have full: "(fcols f \<le> fcol f + length t \<or> flen f \<le> length t + 1) = (room f \<le> length t)"
    by (auto simp: room_def)
  have ed: "edit f (csval c) fresh dbl t (length t) = (if room f \<le> length t then (t, length t) else (t @ [c], length t + 1))"
  proof (cases "room f \<le> length t")
    case True
    then have "edit f (csval c) fresh dbl t (length t) = (t, length t)" using p ne full by (simp add: edit_def)
    then show ?thesis using True by simp
  next
    case False
    then have "edit f (csval c) fresh dbl t (length t) = (t @ [c], length t + 1)"
      using p ne full Cons.prems(3) by (cases fresh) (simp_all add: edit_def)
    then show ?thesis using False by simp
  qed
  have rf: "refused f (csval c) t = (room f \<le> length t)" using p(1) full by (simp add: refused_def)
  show ?case
  proof (cases "room f \<le> length t")
    case True
    then have "fst (edits f (map csval u) fresh dbl t (length t)) = take (room f) (t @ u)"
      using Cons.IH Cons.prems by simp
    then show ?thesis using ed rf ne(1) True Cons.prems(2) by simp
  next
    case False
    then have "fst (edits f (map csval u) False dbl (t @ [c]) (length (t @ [c]))) = take (room f) ((t @ [c]) @ u)"
      using Cons.prems(1) by (intro Cons.IH) auto
    then show ?thesis using ed rf ne(1) False by simp
  qed
qed

lemma typed_edit_key: "typeable c \<Longrightarrow> editing_key f (csval c)"
proof -
  assume "typeable c"
  then have "printable_int (csval c)" by (rule printable_csval)
  moreover have "\<not> printable_int 26" "\<not> printable_int (int KEY_UP)" "\<not> printable_int (int KEY_DOWN)" "\<not> printable_int 10" "\<not> printable_int 13" "\<not> printable_int 1"
    by (simp_all add: printable_int_def)
  ultimately show ?thesis unfolding editing_key_def answer_key_def by metis
qed

section \<open>Properties\<close>


definition name_form :: form where
  "name_form = \<lparr>flen = 13, fcol = 10, fcols = 80, msg_keys = False\<rparr>"


text \<open>C7. 
  C2. A line typed on the terminal is entered: whatever packets its bytes come in, the keys read from
  them end the entry, and the buffer holds the line cut to the room of the form.
\<close>
theorem typed_line_is_entered:
  assumes "plain es s" and "\<not> trailing s" and "coming es s = u @ CHR 0x0D # w" and "\<forall>c\<in>set u. typeable c"
    and "0 < flen f" and "flen f \<le> 80" and "flen f \<le> length b"
  shows "\<exists>keys s' es' b'. read_keys (length u + 1) es s = Some (keys, s', es') \<and> coming es' s' = w \<and>
    getdata f False True dbc b keys = Some (b', min (length u) (room f), [], True) \<and> cstr b' = take (room f) u"
proof -
  have "behind_end (trailing s) (coming es s) = u @ CHR 0x0D # w" using assms(2,3) by (simp add: behind_end_def)
  from read_typed_text [OF assms(1) this assms(4)] obtain s' es' where
    r: "read_keys (length u + 1) es s = Some (map csval u @ [10], s', es')" "coming es' s' = w" by blast
  have k: "\<forall>ch\<in>set (map csval u). editing_key f ch" using assms(4) typed_edit_key by simp
  have t: "fst (edits f (map csval u) True dbc (label True b) (length (label True b))) = take (room f) u"
    using edits_typing [OF assms(4), of "[]" f True dbc] by (simp add: label_def)
  from getdata_returns [OF assms(5-7) _ k, of True 10 dbc "[]", unfolded t] r show ?thesis by (simp add: min.commute) blast
qed

theorem typed_line_is_entered_witness:
  "\<exists>keys s' es' b'. read_keys 5 [Bytes ''gue'', Bytes [CHR ''s'', CHR 0x0D, CHR 0x0A]] fresh_input = Some (keys, s', es') \<and>
    getdata (name_form\<lparr>flen := 4\<rparr>) False True True (replicate 20 NUL) keys = Some (b', 3, [], True) \<and> cstr b' = ''gue''"
proof -
  let ?es = "[Bytes ''gue'', Bytes [CHR ''s'', CHR 0x0D, CHR 0x0A]]"
  have "plain ?es fresh_input" "\<not> trailing fresh_input" "coming ?es fresh_input = ''gues'' @ CHR 0x0D # ''\<newline>''"
    by (simp_all add: plain_def fresh_input_def coming_def bytes_of_def)
  moreover have "\<forall>c\<in>set ''gues''. typeable c" by (simp add: typeable_def isprint2_def cval_def)
  ultimately show ?thesis
    using typed_line_is_entered [of ?es fresh_input "''gues''" "''\<newline>''" "name_form\<lparr>flen := 4\<rparr>" "replicate 20 NUL" True]
    by (simp add: room_def name_form_def eval_nat_numeral) blast
qed

text \<open>
  C3. When the caller's label does not fit, the shown text is cut but the length returned is that
  of the whole label.
\<close>
theorem long_label_length:
  assumes "0 < flen f" and "NUL \<in> set b" and "flen f \<le> length (cstr b)"
  shows "\<exists>b'. getdata f hidden False dbc b (13 # rest) = Some (b', length (cstr b), rest, True) \<and> cstr b' = take (flen f - 1) (cstr b)"
proof -
  obtain r where r: "b = cstr b @ NUL # r" using cstr_split [OF assms(2)] by blast
  let ?t = "cstr b" and ?c = "flen f - 1"
  have c: "?c < length ?t" using assms(1,3) by linarith
  let ?b = "b[?c := NUL]"
  have l: "length ?t < length b" by (subst (2) r) simp
  have "?b = take ?c b @ NUL # drop (Suc ?c) b" using c l by (simp add: upd_conv_take_nth_drop)
  moreover have "take ?c b = take ?c ?t" by (subst r) (use c in simp)
  ultimately have cb: "cstr (?b[length ?t := NUL]) = take ?c ?t"
  proof -
    assume b: "?b = take ?c b @ NUL # drop (Suc ?c) b" and t: "take ?c b = take ?c ?t"
    obtain m where m: "length ?t - ?c = Suc m" using c by (cases "length ?t - ?c") auto
    have "?b[length ?t := NUL] = take ?c ?t @ (NUL # drop (Suc ?c) b)[length ?t - ?c := NUL]"
      unfolding b t using c by (simp add: list_update_append)
    also have "\<dots> = take ?c ?t @ NUL # (drop (Suc ?c) b)[m := NUL]" by (simp only: m list_update.simps nat.case)
    finally show ?thesis by (simp only: cstr_append_NUL is_cstr_take is_cstr_cstr)
  qed
  have "\<not> answer_key f 13" by (simp add: answer_key_def)
  then have "entry_loop (if hidden then hidden_key f else getdata_key f) (13 # rest) e = Some (e, rest, True)" for e
    by (simp add: hidden_key_def getdata_key_def)
  moreover have "poke ?b (length ?t) NUL = Some (?b[length ?t := NUL])" using l by (simp add: poke_def)
  ultimately show ?thesis using assms cb by (simp add: getdata_def getdata_start_def Let_def)
qed

theorem long_label_length_witness:
  "\<exists>b'. getdata (name_form\<lparr>flen := 4\<rparr>) False False True (''guest'' @ replicate 9 NUL) (13 # []) = Some (b', 5, [], True) \<and> cstr b' = ''gue''"
  using long_label_length [of "name_form\<lparr>flen := 4\<rparr>" "''guest'' @ replicate 9 NUL" False True "[]"]
  by (simp add: name_form_def cstr_def eval_nat_numeral)

end
