(* ===== verification/TermOutput.thy ===== *)
theory TermOutput
  imports KeyInput
begin

text \<open>
  The output buffer of a session (src/io.c): \<open>output\<close> and \<open>ochar\<close> collect bytes, \<open>oflush\<close> replaces those
  that could disturb the terminal and hands them on.  \<open>sent\<close> is the list of the calls of \<open>write\<close>, with the
  descriptor and the bytes.  The array keeps the stale bytes behind its end, which the search for the
  end of an escape sequence can read; \<open>None\<close> is an access outside it.
\<close>

section \<open>Definitions\<close>

record outbuf =
  obuf :: "char list"
  obufsize :: nat
  sent :: "(nat \<times> string) list"
  oconv :: bool
  otables :: "char list"

abbreviation (input) OBUFSIZE :: nat where "OBUFSIZE \<equiv> 4096"

text \<open>\<open>bbs_write\<close> of the first bytes of the buffer.\<close>

definition bbs_write :: "nat \<Rightarrow> nat \<Rightarrow> outbuf \<Rightarrow> outbuf option" where
  "bbs_write fd len ob =
     (case if oconv ob then write2_loop (otables ob) len 0 (obuf ob) else Some (obuf ob) of
        None \<Rightarrow> None
      | Some b \<Rightarrow> Some (ob\<lparr>obuf := b, sent := sent ob @ [(fd, take len b)]\<rparr>))"

text \<open>
  \<open>next_ch\<close>: the first byte that is no parameter of an escape sequence, and how many there are.
  \<open>strchr\<close> finds the terminating zero too, so a zero byte counts as a parameter.
\<close>

definition parameter :: "char \<Rightarrow> bool" where
  "parameter c \<longleftrightarrow> c \<in> set ''[0123456789;'' \<or> c = NUL"

definition next_ch :: "char list \<Rightarrow> (int \<times> nat) option" where
  "next_ch s =
     (let n = length (takeWhile parameter (take 20 s)) in
      if n = 20 then Some (-1, 20)
      else if length s \<le> n then None
      else Some (csval (s ! n), n))"

definition harmful :: "int \<Rightarrow> bool" where
  "harmful t \<longleftrightarrow> t = -1 \<or> t \<in> {126, 45, 99, 105, 114}"

function oflush_loop :: "nat \<Rightarrow> nat \<Rightarrow> char list \<Rightarrow> char list option" where
  "oflush_loop n i b =
     (if n \<le> i then Some b
      else if length b \<le> i then None
      else
        let b1 = (if b ! i = CHR 0xFF \<or> b ! i = CHR 0x0E then b[i := CHR 0x20] else b) in
        if b1 ! i = KEY_ESC then
          (case next_ch (drop (i + 1) b1) of
             None \<Rightarrow> None
           | Some (t, skip) \<Rightarrow> oflush_loop n (i + skip + 1) (if harmful t then b1[i := CHR 0x2A] else b1))
        else oflush_loop n (i + 1) b1)"
  by pat_completeness auto
termination by (relation "measure (\<lambda>(n, i, b). n - i)") auto

declare oflush_loop.simps [simp del]

definition oflush :: "outbuf \<Rightarrow> outbuf option" where
  "oflush ob =
     (case oflush_loop (obufsize ob) 0 (obuf ob) of
        None \<Rightarrow> None
      | Some b \<Rightarrow> map_option (\<lambda>o1. o1\<lparr>obufsize := 0\<rparr>) (bbs_write 1 (obufsize ob) (ob\<lparr>obuf := b\<rparr>)))"

text \<open>A block of bytes copied into the buffer.\<close>

definition place :: "char list \<Rightarrow> nat \<Rightarrow> string \<Rightarrow> char list option" where
  "place b k s = (if k + length s \<le> length b then Some (take k b @ s @ drop (k + length s) b) else None)"

definition output_bytes :: "string \<Rightarrow> nat \<Rightarrow> outbuf \<Rightarrow> outbuf option" where
  "output_bytes s len ob =
     (let t = take len s in
      if OBUFSIZE < obufsize ob + length t then do {
        o1 \<leftarrow> bbs_write 0 (obufsize ob) ob;
        b \<leftarrow> place (obuf o1) 0 t;
        Some (o1\<lparr>obuf := b, obufsize := length t\<rparr>)
      }
      else do {
        b \<leftarrow> place (obuf ob) (obufsize ob) t;
        Some (ob\<lparr>obuf := b, obufsize := obufsize ob + length t\<rparr>)
      })"

definition ochar :: "int \<Rightarrow> outbuf \<Rightarrow> outbuf option" where
  "ochar c ob = do {
     o1 \<leftarrow> (if OBUFSIZE - 2 < obufsize ob then map_option (\<lambda>o1. o1\<lparr>obufsize := 0\<rparr>) (bbs_write 0 (obufsize ob) ob) else Some ob);
     let ch = char_of (nat (c mod 256));
     let s = (if c = 255 then [ch, ch] else [ch]);
     b \<leftarrow> place (obuf o1) (obufsize o1) s;
     Some (o1\<lparr>obuf := b, obufsize := obufsize o1 + length s\<rparr>)
   }"

section \<open>The bytes on their way\<close>

definition outbuf_ok :: "outbuf \<Rightarrow> bool" where
  "outbuf_ok ob \<longleftrightarrow> length (obuf ob) = OBUFSIZE \<and> obufsize ob \<le> OBUFSIZE"

definition handed :: "outbuf \<Rightarrow> string" where
  "handed ob = concat (map snd (sent ob))"

text \<open>Everything handed on or waiting in the buffer.\<close>

definition stream :: "outbuf \<Rightarrow> string" where
  "stream ob = handed ob @ take (obufsize ob) (obuf ob)"

lemma place_fits: "k + length s \<le> length b \<Longrightarrow> \<exists>b'. place b k s = Some b' \<and> length b' = length b \<and> take (k + length s) b' = take k b @ s"
  by (simp add: place_def)

lemma write_plain:
  assumes "\<not> oconv ob"
  shows "bbs_write fd len ob = Some (ob\<lparr>sent := sent ob @ [(fd, take len (obuf ob))]\<rparr>)"
  using assms by (simp add: bbs_write_def)

lemma output_stream:
  assumes "outbuf_ok ob" and "\<not> oconv ob" and "length (take len s) \<le> OBUFSIZE"
  shows "\<exists>o'. output_bytes s len ob = Some o' \<and> outbuf_ok o' \<and> \<not> oconv o' \<and> stream o' = stream ob @ take len s"
proof (cases "OBUFSIZE < obufsize ob + length (take len s)")
  case True
  let ?o1 = "ob\<lparr>sent := sent ob @ [(0, take (obufsize ob) (obuf ob))]\<rparr>"
  obtain b where b: "place (obuf ?o1) 0 (take len s) = Some b" "length b = OBUFSIZE" "take (length (take len s)) b = take len s"
    using place_fits [of 0 "take len s" "obuf ?o1"] assms(1,3) by (auto simp: outbuf_ok_def)
  have "output_bytes s len ob = Some (?o1\<lparr>obuf := b, obufsize := length (take len s)\<rparr>)"
    using True write_plain [OF assms(2), of 0 "obufsize ob"] b(1) by (simp add: output_bytes_def Let_def)
  then show ?thesis using b assms by (simp add: outbuf_ok_def stream_def handed_def)
next
  case False
  obtain b where b: "place (obuf ob) (obufsize ob) (take len s) = Some b" "length b = OBUFSIZE"
      "take (obufsize ob + length (take len s)) b = take (obufsize ob) (obuf ob) @ take len s"
    using place_fits [of "obufsize ob" "take len s" "obuf ob"] False assms(1) by (auto simp: outbuf_ok_def)
  then have "output_bytes s len ob = Some (ob\<lparr>obuf := b, obufsize := obufsize ob + length (take len s)\<rparr>)"
    using False by (simp add: output_bytes_def Let_def)
  then show ?thesis using b assms False by (simp add: outbuf_ok_def stream_def handed_def)
qed

lemma ochar_stream:
  assumes "outbuf_ok ob" and "\<not> oconv ob" and "c \<noteq> 255"
  shows "\<exists>o'. ochar c ob = Some o' \<and> outbuf_ok o' \<and> \<not> oconv o' \<and> stream o' = stream ob @ [char_of (nat (c mod 256))]"
proof -
  define o1 where "o1 = (if OBUFSIZE - 2 < obufsize ob
    then ob\<lparr>sent := sent ob @ [(0, take (obufsize ob) (obuf ob))], obufsize := 0\<rparr> else ob)"
  have o1: "outbuf_ok o1" "\<not> oconv o1" "stream o1 = stream ob" "obufsize o1 \<le> OBUFSIZE - 2"
    using assms(1,2) by (auto simp: o1_def outbuf_ok_def stream_def handed_def)
  let ?s = "[char_of (nat (c mod 256))] :: string"
  obtain b where b: "place (obuf o1) (obufsize o1) ?s = Some b" "length b = OBUFSIZE"
      "take (obufsize o1 + 1) b = take (obufsize o1) (obuf o1) @ ?s"
    using place_fits [of "obufsize o1" ?s "obuf o1"] o1 by (auto simp: outbuf_ok_def)
  have "(if OBUFSIZE - 2 < obufsize ob then map_option (\<lambda>o1. o1\<lparr>obufsize := 0\<rparr>) (bbs_write 0 (obufsize ob) ob) else Some ob) = Some o1"
    using write_plain [OF assms(2)] by (simp add: o1_def)
  then have "ochar c ob = Some (o1\<lparr>obuf := b, obufsize := obufsize o1 + 1\<rparr>)"
    using b(1) assms(3) by (simp add: ochar_def Let_def)
  then show ?thesis using b o1 by (simp add: outbuf_ok_def stream_def handed_def)
qed

text \<open>Bytes \<open>oflush\<close> leaves alone.\<close>

definition calm_byte :: "char \<Rightarrow> bool" where
  "calm_byte c \<longleftrightarrow> c \<noteq> CHR 0xFF \<and> c \<noteq> CHR 0x0E \<and> c \<noteq> KEY_ESC"

lemma oflush_loop_calm:
  "n \<le> length b \<Longrightarrow> \<forall>c\<in>set (take n b). calm_byte c \<Longrightarrow> oflush_loop n i b = Some b"
proof (induction n i b rule: oflush_loop.induct)
  case (1 n i b)
  show ?case
  proof (cases "n \<le> i")
    case False
    then have i: "i < length b" using "1.prems"(1) by simp
    have "take n b ! i \<in> set (take n b)" using False "1.prems"(1) by (intro nth_mem) simp
    then have c: "calm_byte (b ! i)" using "1.prems"(2) False by simp
    then have "oflush_loop n (i + 1) b = Some b"
      using "1.IH"(2) [OF False _ refl] i "1.prems" by (simp add: calm_byte_def)
    then show ?thesis using False i c by (subst oflush_loop.simps) (simp add: calm_byte_def Let_def)
  qed (simp add: oflush_loop.simps)
qed

lemma oflush_stream:
  assumes "outbuf_ok ob" and "\<not> oconv ob" and "\<forall>c\<in>set (take (obufsize ob) (obuf ob)). calm_byte c"
  shows "\<exists>o'. oflush ob = Some o' \<and> outbuf_ok o' \<and> \<not> oconv o' \<and> stream o' = stream ob \<and> handed o' = stream ob"
proof -
  have "oflush_loop (obufsize ob) 0 (obuf ob) = Some (obuf ob)"
    using oflush_loop_calm assms(1,3) by (simp add: outbuf_ok_def)
  then show ?thesis using assms(1,2) by (simp add: oflush_def write_plain outbuf_ok_def stream_def handed_def)
qed

end
