(* ===== verification/Screen.thy ===== *)
theory Screen
  imports TermOutput
begin

text \<open>
  The screen of a session (src/screen.c): a picture of the lines as the program wants them
  (\<open>big_picture\<close>), drawn into with \<open>outc\<close>, \<open>outs\<close>, \<open>clrtoeol\<close> and the like, and \<open>refresh\<close>, which sends the
  difference to the terminal.  What goes to the terminal is the list \<open>tty_out\<close>; the sequences of the
  terminal's data base are kept as symbols.  Columns and lines are unsigned characters.  A line has
  256 bytes, so that every column lies inside; where an index can leave the array or a string the
  result is \<open>None\<close>.
\<close>

section \<open>State\<close>

record sline =
  oldlen :: nat
  slen :: nat
  modified :: bool
  hilite :: bool
  smod :: nat
  emod :: nat
  sso :: nat
  eso :: nat
  sdata :: "char list"

text \<open>What is sent: bytes, one byte, and the capabilities \<open>cm\<close>, \<open>bc\<close>, \<open>cl\<close>, \<open>ce\<close>, \<open>so\<close> and \<open>se\<close>.\<close>

datatype tty = Say string nat | Tick int | Goto nat nat | Go_back | Cls | Cleol | Standup | Standdown | Flush

record screen =
  picture :: "sline list"
  scr_cols :: nat
  cur_ln :: nat
  cur_col :: nat
  roll :: nat
  scrollcnt :: int
  docls :: bool
  standing :: bool
  inansi :: bool
  disable_move :: bool
  offsetln :: nat
  tc_col :: nat
  tc_line :: nat
  t_lines :: nat
  t_columns :: nat
  automargins :: bool
  dumb_term :: bool
  iscolor :: bool
  showansi :: bool
  has_standout :: bool
  has_bc :: bool
  ahead :: bool       \<comment> \<open>\<open>icurrchar > ibufsize\<close>\<close>
  slots :: "char list list"
  tty_out :: "tty list"

abbreviation (input) SP :: char where "SP \<equiv> CHR 0x20"
abbreviation (input) LF :: char where "LF \<equiv> CHR 0x0A"
abbreviation (input) CR :: char where "CR \<equiv> CHR 0x0D"
abbreviation (input) STAR :: char where "STAR \<equiv> CHR 0x2A"
abbreviation (input) LINELEN :: nat where "LINELEN \<equiv> 256"

definition scr_lns :: "screen \<Rightarrow> nat" where
  "scr_lns s = length (picture s)"

definition uchar :: "int \<Rightarrow> nat" where
  "uchar x = nat (x mod 256)"

definition blank_line :: sline where
  "blank_line = \<lparr>oldlen = 0, slen = 0, modified = False, hilite = False, smod = 0, emod = 0, sso = 0, eso = 0, sdata = replicate LINELEN NUL\<rparr>"

text \<open>The line of the picture that is on line \<open>ln\<close> of the screen.\<close>

definition row :: "screen \<Rightarrow> nat \<Rightarrow> nat" where
  "row s ln = (ln + roll s) mod scr_lns s"

definition cur_line :: "screen \<Rightarrow> sline" where
  "cur_line s = picture s ! row s (cur_ln s)"

definition set_cur :: "sline \<Rightarrow> screen \<Rightarrow> screen" where
  "set_cur l s = s\<lparr>picture := (picture s)[row s (cur_ln s) := l]\<rparr>"

definition emit :: "tty \<Rightarrow> screen \<Rightarrow> screen" where
  "emit t s = s\<lparr>tty_out := tty_out s @ [t]\<rparr>"

section \<open>Sending the picture\<close>

definition rel_move :: "nat \<Rightarrow> nat \<Rightarrow> nat \<Rightarrow> nat \<Rightarrow> screen \<Rightarrow> screen" where
  "rel_move was_col was_ln new_col new_ln s =
     (if t_lines s \<le> new_ln \<or> t_columns s \<le> new_col then s
      else
        let s1 = s\<lparr>tc_col := new_col, tc_line := new_ln\<rparr> in
        if new_col = 0 \<and> new_ln = was_ln + 1 then
          (let s2 = emit (Tick 10) s1 in if was_col \<noteq> 0 then emit (Tick 13) s2 else s2)
        else if new_col = 0 \<and> new_ln = was_ln then (if was_col \<noteq> 0 then emit (Tick 13) s1 else s1)
        else if was_col = new_col \<and> was_ln = new_ln then s1
        else if new_col + 1 = was_col \<and> new_ln = was_ln then emit (if has_bc s then Go_back else Tick 8) s1
        else emit (Goto new_col new_ln) s1)"

definition say :: "char list \<Rightarrow> nat \<Rightarrow> nat \<Rightarrow> screen \<Rightarrow> screen" where
  "say d ds de s = emit (Say (cstr (drop ds d)) (de - ds)) s"

text \<open>The bounds of the highlighted part are in order, \<open>sso \<le> eso\<close>, in every line of a screen.\<close>

definition standoutput :: "char list \<Rightarrow> nat \<Rightarrow> nat \<Rightarrow> nat \<Rightarrow> nat \<Rightarrow> screen \<Rightarrow> screen" where
  "standoutput d ds de so eo s =
     (if eo \<le> ds \<or> de \<le> so then say d ds de s
      else
        let st_start = (if ds < so then so else ds); st_end = (if de < eo then de else eo);
            s1 = (if ds < so then say d ds so s else s);
            s2 = emit Standdown (say d st_start st_end (emit Standup s1))
        in if eo < de then say d eo de s2 else s2)"

definition send_part :: "sline \<Rightarrow> nat \<Rightarrow> nat \<Rightarrow> screen \<Rightarrow> screen" where
  "send_part l ds de s = (if hilite l then standoutput (sdata l) ds de (sso l) (eso l) s else say (sdata l) ds de s)"

definition redo_line :: "nat \<Rightarrow> screen \<Rightarrow> screen" where
  "redo_line i s =
     (let l = picture s ! row s i in
      if slen l = 0 then s
      else
        let s1 = send_part l 0 (slen l) (rel_move (tc_col s) (tc_line s) 0 i s);
            c = tc_col s1 + slen l;
            s2 = (if t_columns s1 \<le> c then
                    if \<not> automargins s1 then
                      s1\<lparr>tc_col := c - t_columns s1, tc_line := (if t_lines s1 \<le> tc_line s1 + 1 then t_lines s1 - 1 else tc_line s1 + 1)\<rparr>
                    else s1\<lparr>tc_col := t_columns s1 - 1\<rparr>
                  else s1\<lparr>tc_col := c\<rparr>)
        in s2\<lparr>picture := (picture s2)[row s i := l\<lparr>modified := False, oldlen := slen l\<rparr>]\<rparr>)"

definition redoscr :: "screen \<Rightarrow> screen" where
  "redoscr s =
     (if dumb_term s then s
      else
        let s1 = (emit Cls s)\<lparr>tc_col := 0, tc_line := 0\<rparr>;
            s2 = fold redo_line [0..<scr_lns s] s1;
            s3 = rel_move (tc_col s2) (tc_line s2) (cur_col s2) (cur_ln s2) s2
        in emit Flush (s3\<lparr>docls := False, scrollcnt := 0\<rparr>))"

definition refresh_text :: "nat \<Rightarrow> screen \<Rightarrow> screen" where
  "refresh_text i s =
     (let l = picture s ! row s i in
      if modified l \<and> smod l < slen l then
        let l1 = l\<lparr>modified := False, emod := (if slen l \<le> emod l then slen l - 1 else emod l)\<rparr>;
            s1 = send_part l1 (smod l1) (emod l1 + 1) (rel_move (tc_col s) (tc_line s) (smod l1) i s);
            c = emod l1 + 1;
            s2 = (if t_columns s1 \<le> c then
                    if automargins s1 then
                      s1\<lparr>tc_col := c - t_columns s1, tc_line := (if t_lines s1 \<le> tc_line s1 + 1 then t_lines s1 - 1 else tc_line s1 + 1)\<rparr>
                    else s1\<lparr>tc_col := t_columns s1 - 1\<rparr>
                  else s1\<lparr>tc_col := c\<rparr>)
        in s2\<lparr>picture := (picture s2)[row s i := l1]\<rparr>
      else s)"

definition refresh_tail :: "nat \<Rightarrow> screen \<Rightarrow> screen" where
  "refresh_tail i s =
     (let l = picture s ! row s i;
          s1 = (if slen l < oldlen l then emit Cleol (rel_move (tc_col s) (tc_line s) (slen l) i s) else s)
      in s1\<lparr>picture := (picture s1)[row s i := l\<lparr>oldlen := slen l\<rparr>]\<rparr>)"

definition refresh_line :: "nat \<Rightarrow> screen \<Rightarrow> screen" where
  "refresh_line i s = refresh_tail i (refresh_text i s)"

text \<open>The digits of a number, as \<open>sprintf\<close> writes them.\<close>

fun digits :: "nat \<Rightarrow> string" where
  "digits n = (if n < 10 then [char_of (48 + n)] else digits (n div 10) @ [char_of (48 + n mod 10)])"

declare digits.simps [simp del]

definition scroll_up :: "screen \<Rightarrow> screen" where
  "scroll_up s =
     (if 0 < scrollcnt s then
        s\<lparr>tty_out := tty_out s @ [Goto 0 1024] @ replicate (nat (scrollcnt s)) (Tick 10) @ [Goto 0 (t_lines s - 2)], scrollcnt := 0\<rparr>
      else s)"

definition scroll_down :: "screen \<Rightarrow> screen" where
  "scroll_down s =
     (if scrollcnt s < 0 then
        let b = [KEY_ESC, CHR ''[''] @ digits (nat (- scrollcnt s)) @ ''L''
        in (emit (Say b (length b)) (rel_move (tc_col s) (tc_line s) 0 0 s))\<lparr>scrollcnt := 0\<rparr>
      else s)"

definition refresh :: "screen \<Rightarrow> screen" where
  "refresh s =
     (if ahead s then s
      else if docls s \<or> int (scr_lns s) - 3 \<le> \<bar>scrollcnt s\<bar> then redoscr s
      else
        let s1 = fold refresh_line [0..<scr_lns s] (scroll_down (scroll_up s))
        in emit Flush (rel_move (tc_col s1) (tc_line s1) (cur_col s1) (cur_ln s1) s1))"

definition init_screen :: "nat \<Rightarrow> nat \<Rightarrow> screen \<Rightarrow> screen" where
  "init_screen slns scols s =
     (let lns = min (scr_lns s) slns;
          s1 = s\<lparr>picture := take lns (picture s) @ replicate (slns mod 256 - lns) blank_line,
                 scr_cols := (if LINELEN < scols then LINELEN else scols) mod 256\<rparr>;
          s2 = (if picture s \<noteq> [] then redoscr s1 else s1)
      in s2\<lparr>docls := True, roll := 0\<rparr>)"

definition initscr :: "screen \<Rightarrow> screen" where
  "initscr s =
     (let s1 = (if \<not> dumb_term s \<and> picture s = [] then s\<lparr>t_columns := 255\<rparr> else s) in init_screen (t_lines s1) 255 s1)"

section \<open>Drawing\<close>

text \<open>\<open>move\<close>.\<close>

definition move_to :: "nat \<Rightarrow> nat \<Rightarrow> screen \<Rightarrow> screen" where
  "move_to y x s = s\<lparr>cur_col := x mod 256, cur_ln := y mod 256\<rparr>"

text \<open>Blanks from one column up to another.\<close>

definition blanks :: "nat \<Rightarrow> nat \<Rightarrow> char list \<Rightarrow> char list" where
  "blanks i j d = map (\<lambda>k. if i \<le> k \<and> k < j then SP else d ! k) [0..<length d]"

definition wipe :: "sline \<Rightarrow> sline" where
  "wipe l = l\<lparr>modified := False, hilite := False, slen := 0\<rparr>"

definition clear_scr :: "screen \<Rightarrow> screen" where
  "clear_scr s =
     (if dumb_term s then s
      else move_to (offsetln s) 0
        (s\<lparr>roll := 0, docls := True,
           picture := take (offsetln s) (picture s) @ map (\<lambda>l. (wipe l)\<lparr>oldlen := 0\<rparr>) (drop (offsetln s) (picture s))\<rparr>))"

definition clrtoeol :: "screen \<Rightarrow> screen" where
  "clrtoeol s =
     (if dumb_term s then s
      else
        let l = cur_line s; c = cur_col s;
            l1 = (if c \<le> sso l then l\<lparr>hilite := False\<rparr> else l);
            l2 = (if oldlen l1 < c \<and> slen l1 < c then l1\<lparr>sdata := blanks (slen l1) (c + 1) (sdata l1)\<rparr> else l1)
        in set_cur (l2\<lparr>slen := c\<rparr>) (s\<lparr>standing := False\<rparr>))"

definition bot_line :: "nat \<Rightarrow> screen \<Rightarrow> screen" where
  "bot_line i s =
     (let l = wipe (picture s ! row s i)
      in s\<lparr>picture := (picture s)[row s i := (if 0 < oldlen l then l\<lparr>oldlen := 255\<rparr> else l)]\<rparr>)"

definition clrtobot :: "screen \<Rightarrow> screen" where
  "clrtobot s = (if dumb_term s then s else fold bot_line [cur_ln s..<scr_lns s] s)"

text \<open>Marking column \<open>c\<close> as changed.\<close>

definition touch :: "nat \<Rightarrow> sline \<Rightarrow> sline" where
  "touch c l =
     (if \<not> modified l then l\<lparr>smod := c, emod := c, modified := True\<rparr>
      else l\<lparr>emod := (if emod l < c then c else emod l), smod := (if c < smod l then c else smod l)\<rparr>)"

definition stop_standing :: "nat \<Rightarrow> sline \<Rightarrow> sline" where
  "stop_standing c l = (if eso l < c then l\<lparr>eso := c\<rparr> else l)"

definition next_ln :: "screen \<Rightarrow> screen" where
  "next_ln s = (if cur_ln s < scr_lns s then s\<lparr>cur_ln := cur_ln s + 1\<rparr> else s)"

definition newline :: "screen \<Rightarrow> screen" where
  "newline s =
     (let l = cur_line s; c = cur_col s;
          l1 = (if standing s then stop_standing c l else l);
          l2 = (if slen l1 < c then l1\<lparr>sdata := blanks (slen l1) (c + 1) (sdata l1)\<rparr> else l1)
      in next_ln ((set_cur (l2\<lparr>slen := c\<rparr>) s)\<lparr>standing := False, cur_col := 0\<rparr>))"

definition put_cell :: "char \<Rightarrow> screen \<Rightarrow> screen" where
  "put_cell ch s =
     (let l = cur_line s; c = cur_col s;
          l1 = (if slen l \<le> c then l\<lparr>sdata := (blanks (slen l) c (sdata l))[c := NUL], slen := (c + 1) mod 256\<rparr> else l);
          l2 = (if sdata l1 ! c \<noteq> ch then touch c l1 else l1);
          l3 = l2\<lparr>sdata := (sdata l2)[c := ch]\<rparr>;
          r = (c + 1) mod 256
      in if scr_cols s \<le> r then
           if standing s \<and> hilite l3 then next_ln ((set_cur (stop_standing r l3) s)\<lparr>standing := False, cur_col := 0\<rparr>)
           else next_ln ((set_cur l3 s)\<lparr>cur_col := 0\<rparr>)
         else (set_cur l3 s)\<lparr>cur_col := r\<rparr>)"

definition outc :: "char \<Rightarrow> screen \<Rightarrow> screen" where
  "outc c s =
     (if inansi s then (if c = CHR ''m'' then s\<lparr>inansi := False\<rparr> else s)
      else if c = KEY_ESC \<and> \<not> iscolor s then s\<lparr>inansi := True\<rparr>
      else if dumb_term s then
        (if \<not> isprint2 c then
           if c = LF then emit (Tick 10) (emit (Tick 13) s)
           else if c \<noteq> KEY_ESC \<or> \<not> showansi s then emit (Tick (int (cval STAR))) s
           else emit (Tick (int (cval c))) s
         else emit (Tick (int (cval c))) s)
      else if \<not> isprint2 c \<and> (c = LF \<or> c = CR) then newline s
      else put_cell (if \<not> isprint2 c \<and> (c \<noteq> KEY_ESC \<or> \<not> showansi s) then STAR else c) s)"

definition standout :: "screen \<Rightarrow> screen" where
  "standout s =
     (if dumb_term s \<or> \<not> has_standout s \<or> standing s then s
      else (set_cur ((cur_line s)\<lparr>sso := cur_col s, eso := cur_col s, hilite := True\<rparr>) s)\<lparr>standing := True\<rparr>)"

definition standend :: "screen \<Rightarrow> screen" where
  "standend s =
     (if dumb_term s \<or> \<not> has_standout s \<or> \<not> standing s then s
      else (set_cur (stop_standing (cur_col s) (cur_line s)) s)\<lparr>standing := False\<rparr>)"

section \<open>Text\<close>

text \<open>
  \<open>outns\<close> on the string \<open>t\<close>: one turn of its loop at position \<open>i\<close>.  The result is how many further
  bytes the turn has taken, the position saved by \<open>ESC [ s\<close>, and the screen.
\<close>

type_synonym place_saved = "(nat \<times> nat) option"

definition pad_cur :: "screen \<Rightarrow> screen" where
  "pad_cur s =
     (let l = cur_line s; c = cur_col s in
      if slen l \<le> c then set_cur (l\<lparr>sdata := blanks (slen l) (c + 1) (sdata l), slen := c\<rparr>) s else s)"

text \<open>The bytes of a run that are left of the margin.\<close>

fun put_run :: "nat \<Rightarrow> string \<Rightarrow> char list \<Rightarrow> nat \<Rightarrow> char list \<times> nat" where
  "put_run cols [] d c = (d, c)"
| "put_run cols (x # xs) d c = (if c < cols then put_run cols xs (d[c := x]) ((c + 1) mod 256) else put_run cols xs d c)"

definition start_mod :: "nat \<Rightarrow> sline \<Rightarrow> sline" where
  "start_mod c l = (if \<not> modified l then l\<lparr>smod := c, emod := c\<rparr> else if c < smod l then l\<lparr>smod := c\<rparr> else l)"

definition end_run :: "nat \<Rightarrow> sline \<Rightarrow> sline" where
  "end_run c l =
     (let l1 = (if slen l < c then l\<lparr>slen := c\<rparr> else l);
          l2 = (if emod l1 + 1 < c then l1\<lparr>emod := c - 1\<rparr> else l1)
      in l2\<lparr>modified := True\<rparr>)"

definition print_run :: "string \<Rightarrow> screen \<Rightarrow> screen" where
  "print_run w s =
     (let l = start_mod (cur_col s) (cur_line s);
          (d, c) = put_run (scr_cols s) w (sdata l) (cur_col s)
      in (set_cur (end_run c (l\<lparr>sdata := d\<rparr>)) s)\<lparr>cur_col := c\<rparr>)"

definition text_newline :: "screen \<Rightarrow> screen" where
  "text_newline s =
     (let l = cur_line s; c = cur_col s;
          l1 = (if standing s \<and> hilite l then stop_standing c l else l)
      in next_ln ((set_cur (l1\<lparr>slen := c\<rparr>) s)\<lparr>standing := (standing s \<and> \<not> hilite l), cur_col := 0\<rparr>))"

definition print_other :: "char \<Rightarrow> screen \<Rightarrow> screen" where
  "print_other x s =
     (let l = cur_line s; c = cur_col s;
          tmp = (if x \<noteq> KEY_ESC \<or> \<not> showansi s then STAR else x);
          s1 = (if sdata l ! c \<noteq> tmp then set_cur (touch c (l\<lparr>sdata := (sdata l)[c := tmp]\<rparr>)) s else s)
      in s1\<lparr>cur_col := (c + 1) mod 256\<rparr>)"

text \<open>\<open>ESC [ \<dots> m\<close>: the sequence is stored in the line.\<close>

definition print_colour :: "string \<Rightarrow> char \<Rightarrow> screen \<Rightarrow> screen" where
  "print_colour w m s =
     (let l = start_mod (cur_col s) (cur_line s);
          (d, c) = put_run (scr_cols s) w (sdata l) (cur_col s);
          c1 = (c + 1) mod 256
      in (set_cur (end_run c1 (l\<lparr>sdata := d[c := m]\<rparr>)) s)\<lparr>cur_col := c1\<rparr>)"

text \<open>The columns taken by the colour sequences in front of column \<open>x\<close>.\<close>

fun skip_colours :: "nat \<Rightarrow> nat \<Rightarrow> nat \<Rightarrow> sline \<Rightarrow> nat option" where
  "skip_colours 0 k t l = Some t"
| "skip_colours (Suc n) k t l =
     (if slen l \<le> k + t then Some t
      else if length (sdata l) \<le> k + t then None
      else if sdata l ! (k + t) = KEY_ESC then
        (let t1 = t + length (takeWhile (\<lambda>c. \<not> is_alpha c \<and> c \<noteq> NUL) (drop (k + t) (sdata l))) in
         if length (sdata l) \<le> k + t1 then None else skip_colours n (k + 1) (t1 + 1) l)
      else skip_colours n (k + 1) t l)"

text \<open>A value in a plain \<open>char\<close>.\<close>

definition schar :: "int \<Rightarrow> int" where
  "schar x = (x + 128) mod 256 - 128"

definition esc_position :: "string \<Rightarrow> screen \<Rightarrow> screen option" where
  "esc_position w s =
     (let j = length w; k = length (takeWhile (\<lambda>c. c \<noteq> CHR '';'') w) in
      if k < j \<and> k \<le> 4 \<and> 3 \<le> k \<and> 2 \<le> j - k \<and> j - k \<le> 4 then
        let y = schar (atoi (take (k - 2) (drop 2 w)) - 1 + int (offsetln s));
            x = schar (atoi (drop (k + 1) w) - 1)
        in if 0 \<le> y \<and> y < int (scr_lns s) \<and> 0 \<le> x \<and> x < int (scr_cols s) then
             (case skip_colours (nat x) 0 0 (picture s ! row s (nat y)) of
                None \<Rightarrow> None
              | Some t \<Rightarrow> Some (s\<lparr>cur_col := (nat x + t) mod 256, cur_ln := nat y\<rparr>))
           else Some s
      else if k = j \<and> offsetln s = 0 then Some (clear_scr s)
      else Some s)"

text \<open>The loop of \<open>ESC [ n D\<close> over the columns left of the cursor: \<open>m\<close> columns are left to look at.\<close>

function left_loop :: "nat \<Rightarrow> nat \<Rightarrow> int \<Rightarrow> char list \<Rightarrow> int option" where
  "left_loop m col t d =
     (if m = 0 then Some t
      else if d ! (m - 1) \<noteq> CHR ''m'' then left_loop (m - 1) col t d
      else
        let lastm = m - 1; n = length (takeWhile (\<lambda>c. c \<noteq> KEY_ESC) (rev (take m d))) in
        if n = m then None
        else let k = m - 1 - n in
             left_loop k col (if int col - int lastm < t then t + int lastm - int k + 1 else t) d)"
  by pat_completeness auto
termination by (relation "measure (\<lambda>(m, col, t, d). m)") auto

declare left_loop.simps [simp del]

definition esc_cursor :: "char \<Rightarrow> string \<Rightarrow> screen \<Rightarrow> screen option" where
  "esc_cursor x w s =
     (let t = (if drop 2 w = [] then 1 else atoi (drop 2 w)) in
      if disable_move s then Some s
      else if x = CHR ''A'' then
        (let c = uchar (int (cur_ln s) - t) in Some (s\<lparr>cur_ln := (if c < offsetln s then offsetln s mod 256 else c)\<rparr>))
      else if x = CHR ''B'' then
        (let c = uchar (int (cur_ln s) + t) in Some (s\<lparr>cur_ln := (if scr_lns s \<le> c then scr_lns s - 1 else c)\<rparr>))
      else if x = CHR ''C'' then
        (let c = uchar (int (cur_col s) + t) in Some (s\<lparr>cur_col := (if scr_cols s \<le> c then scr_cols s else c)\<rparr>))
      else
        (case left_loop (cur_col s) (cur_col s) t (sdata (cur_line s)) of
           None \<Rightarrow> None
         | Some t1 \<Rightarrow> Some (s\<lparr>cur_col := (if t1 < int (cur_col s) then uchar (int (cur_col s) - t1) else 0)\<rparr>)))"

text \<open>An escape sequence at \<open>i\<close>; \<open>w\<close> is its part before the letter.\<close>

definition outns_esc :: "string \<Rightarrow> nat \<Rightarrow> nat \<Rightarrow> place_saved \<Rightarrow> screen \<Rightarrow> (nat \<times> place_saved \<times> screen) option" where
  "outns_esc t n i sv s =
     (if cget t (i + 1) \<noteq> CHR ''['' then Some (0, sv, s)
      else if \<not> iscolor s then Some (length (takeWhile (\<lambda>c. \<not> is_alpha c) (drop i t)), sv, s)
      else
        let j = 1 + length (takeWhile (\<lambda>c. \<not> is_alpha c \<and> c \<noteq> KEY_ESC) (drop (i + 1) t));
            x = cget t (i + j); w = take j (drop i t)
        in if x = CHR ''s'' \<and> j = 2 then Some (j, Some (cur_ln s, cur_col s), s)
           else if x = CHR ''u'' \<and> j = 2 then
             Some (j, sv, (case sv of Some (y, c) \<Rightarrow> if disable_move s then s else s\<lparr>cur_ln := y, cur_col := c\<rparr> | None \<Rightarrow> s))
           else if x = CHR ''J'' then Some (j, sv, if disable_move s then s else clear_scr s)
           else if x = CHR ''M'' then
             Some (j, sv, if j = 2 then emit Flush (emit (Say (drop i t) (j + 1)) (refresh s)) else s)
           else if x = CHR ''H'' \<or> x = CHR ''f'' then map_option (\<lambda>s1. (j, sv, s1)) (esc_position w s)
           else if (x = CHR ''A'' \<or> x = CHR ''B'' \<or> x = CHR ''C'' \<or> x = CHR ''D'') \<and> j \<le> 5 then
             map_option (\<lambda>s1. (j, sv, s1)) (esc_cursor x w s)
           else if x = CHR ''m'' then
             (let m = min j (n - i) in Some (m, sv, print_colour (take m w) (cget t (i + m)) s))
           else if is_alpha x then Some (j, sv, s)
           else Some (0, sv, print_other KEY_ESC s))"

definition outns_turn :: "string \<Rightarrow> nat \<Rightarrow> nat \<Rightarrow> place_saved \<Rightarrow> screen \<Rightarrow> (nat \<times> place_saved \<times> screen) option" where
  "outns_turn t n i sv s0 =
     (let s = pad_cur s0; x = t ! i in
      if isprint2 x then
        (let w = takeWhile isprint2 (take (n - i) (drop i t)) in Some (length w - 1, sv, print_run w s))
      else if x = CR then Some (0, sv, s)
      else if x = LF then Some (0, sv, text_newline s)
      else if x = KEY_ESC \<and> showansi s then outns_esc t n i sv s
      else Some (0, sv, print_other x s))"

text \<open>\<open>for (i = 0; i < n && str[i]; i++)\<close>\<close>

function outns_loop :: "string \<Rightarrow> nat \<Rightarrow> nat \<Rightarrow> place_saved \<Rightarrow> screen \<Rightarrow> screen option" where
  "outns_loop t n i sv s =
     (if n \<le> i then Some s
      else if length t < i then None
      else if length t = i then Some s
      else case outns_turn t n i sv s of
             None \<Rightarrow> None
           | Some (k, sv1, s1) \<Rightarrow> outns_loop t n (i + k + 1) sv1 s1)"
  by pat_completeness auto
termination by (relation "measure (\<lambda>(t, n, i, sv, s). n - i)") auto

declare outns_loop.simps [simp del]

fun outns_dumb :: "string \<Rightarrow> screen \<Rightarrow> screen" where
  "outns_dumb [] s = s"
| "outns_dumb (x # xs) s =
     outns_dumb xs
       (if isprint2 x then emit (Tick (csval x)) s
        else if x = LF then emit (Tick 10) (emit (Tick 13) s)
        else if x \<noteq> KEY_ESC \<or> \<not> showansi s then emit (Tick (csval STAR)) s
        else emit (Tick (csval x)) s)"

definition outns :: "string \<Rightarrow> nat \<Rightarrow> screen \<Rightarrow> screen option" where
  "outns t n s = (if dumb_term s \<or> picture s = [] then Some (outns_dumb (take n t) s) else outns_loop t n 0 None s)"

definition outs :: "string \<Rightarrow> screen \<Rightarrow> screen option" where
  "outs t s = outns t 4096 s"

section \<open>Scrolling and saving lines\<close>

definition scroll :: "screen \<Rightarrow> screen option" where
  "scroll s =
     (if dumb_term s then outns [LF] 1024 s
      else
        let s1 = s\<lparr>scrollcnt := scrollcnt s + 1, roll := (if scr_lns s \<le> roll s + 1 then roll s + 1 - scr_lns s else roll s + 1)\<rparr>
        in Some (clrtoeol (move_to (scr_lns s - 1) 0 s1)))"

definition rscroll :: "screen \<Rightarrow> screen option" where
  "rscroll s =
     (if dumb_term s then outns [LF, LF] 1024 s
      else
        let s1 = s\<lparr>scrollcnt := scrollcnt s - 1, roll := (if 0 < roll s then roll s - 1 else scr_lns s - 1)\<rparr>
        in Some (clrtoeol (move_to 0 0 s1)))"

text \<open>\<open>saveline\<close>: an even mode stores a line of the picture, an odd one writes it back.\<close>

definition saveline :: "nat \<Rightarrow> nat \<Rightarrow> screen \<Rightarrow> screen option" where
  "saveline ln mode s =
     (if mode mod 2 = 0 then
        (if scr_lns s \<le> ln \<or> length (slots s) \<le> mode div 2 then None
         else
           let l = picture s ! ln; b = take (LINELEN - 1) (cstr (sdata l)); old = slots s ! (mode div 2);
               d = b @ NUL # drop (length b + 1) old
           in if length d \<le> slen l then None
              else Some (s\<lparr>slots := (slots s)[mode div 2 := d[slen l := NUL]]\<rparr>))
      else if length (slots s) \<le> (mode - 1) div 2 then None
      else
        case outs (cstr (slots s ! ((mode - 1) div 2))) (refresh (clrtoeol (move_to ln 0 s))) of
          None \<Rightarrow> None
        | Some s1 \<Rightarrow> Some (refresh (move_to (cur_ln s) (cur_col s) s1)))"

definition saveline_buf :: "nat \<Rightarrow> nat \<Rightarrow> sline \<Rightarrow> screen \<Rightarrow> (sline \<times> screen) option" where
  "saveline_buf ln mode b s =
     (if scr_lns s \<le> ln then None
      else if mode mod 2 = 0 then Some (picture s ! ln, s)
      else Some (b, s\<lparr>picture := (picture s)[ln := b]\<rparr>))"

text \<open>\<open>num_ans_chr\<close>: the bytes of a string that belong to escape sequences.\<close>

fun ans_chars :: "bool \<Rightarrow> string \<Rightarrow> nat" where
  "ans_chars ansi [] = 0"
| "ans_chars ansi (c # cs) =
     (if c = KEY_ESC then 1 + ans_chars True cs
      else if ansi then 1 + ans_chars (is_digit c \<or> c \<in> set ''[; '') cs
      else ans_chars False cs)"

definition num_ans_chr :: "string \<Rightarrow> nat" where
  "num_ans_chr t = ans_chars False t"

end
