(* ===== verification/ScreenSync.thy ===== *)
theory ScreenSync
  imports Screen
begin

text \<open>
  The terminal shows the picture after \<open>refresh\<close>.  The terminal is the documented behaviour of the
  sequences that are sent; it is as wide as the program takes it to be.  Colour sequences inside a
  line move the columns of the terminal against those of the picture, so the lines here hold printable
  characters.
\<close>

section \<open>A terminal\<close>

record terminal =
  trow :: nat
  tcol :: nat
  tcell :: "nat \<Rightarrow> nat \<Rightarrow> char"

definition tput :: "string \<Rightarrow> terminal \<Rightarrow> terminal" where
  "tput w T = T\<lparr>tcell := (tcell T)(trow T := (\<lambda>c. if tcol T \<le> c \<and> c < tcol T + length w then w ! (c - tcol T) else tcell T (trow T) c)),
     tcol := tcol T + length w\<rparr>"

definition tfeed :: "nat \<Rightarrow> terminal \<Rightarrow> terminal" where
  "tfeed n T = (if trow T + 1 < n then T\<lparr>trow := trow T + 1\<rparr>
     else T\<lparr>tcell := (\<lambda>r. if r + 1 < n then tcell T (r + 1) else (\<lambda>c. SP))\<rparr>)"

fun tstep :: "nat \<Rightarrow> tty \<Rightarrow> terminal \<Rightarrow> terminal" where
  "tstep n (Say w k) T = tput (take k w) T"
| "tstep n (Tick c) T =
     (if c = 10 then tfeed n T
      else if c = 13 then T\<lparr>tcol := 0\<rparr>
      else if c = 8 then T\<lparr>tcol := tcol T - 1\<rparr>
      else tput [char_of (nat (c mod 256))] T)"
| "tstep n (Goto c r) T = T\<lparr>tcol := c, trow := min r (n - 1)\<rparr>"
| "tstep n Go_back T = T\<lparr>tcol := tcol T - 1\<rparr>"
| "tstep n Cls T = \<lparr>trow = 0, tcol = 0, tcell = (\<lambda>r c. SP)\<rparr>"
| "tstep n Cleol T = T\<lparr>tcell := (tcell T)(trow T := (\<lambda>c. if tcol T \<le> c then SP else tcell T (trow T) c))\<rparr>"
| "tstep n Standup T = T"
| "tstep n Standdown T = T"
| "tstep n Flush T = T"

text \<open>What is on the terminal after everything a screen has sent, from \<open>T0\<close>.\<close>

definition display :: "terminal \<Rightarrow> screen \<Rightarrow> terminal" where
  "display T0 s = fold (tstep (t_lines s)) (tty_out s) T0"

lemma display_emit [simp]: "display T0 (emit t s) = tstep (t_lines s) t (display T0 s)"
  by (simp add: display_def emit_def)

lemma display_frame:
  "display T0 (s\<lparr>picture := p\<rparr>) = display T0 s"
  "display T0 (s\<lparr>tc_col := a\<rparr>) = display T0 s"
  "display T0 (s\<lparr>tc_line := a\<rparr>) = display T0 s"
  "display T0 (s\<lparr>docls := b\<rparr>) = display T0 s"
  "display T0 (s\<lparr>scrollcnt := x\<rparr>) = display T0 s"
  "display T0 (s\<lparr>standing := b\<rparr>) = display T0 s"
  "display T0 (s\<lparr>cur_col := a\<rparr>) = display T0 s"
  "display T0 (s\<lparr>cur_ln := a\<rparr>) = display T0 s"
  "display T0 (s\<lparr>roll := a\<rparr>) = display T0 s"
  by (simp_all add: display_def)

lemma tput_Nil [simp]: "tput [] T = T"
  by (cases T) (auto simp: tput_def fun_eq_iff)

lemma tput_append: "tput b (tput a T) = tput (a @ b) T"
  by (cases T) (auto simp: tput_def fun_eq_iff nth_append)

text \<open>The program knows where the cursor of the terminal is.\<close>

definition tracked :: "terminal \<Rightarrow> screen \<Rightarrow> bool" where
  "tracked T0 s \<longleftrightarrow> trow (display T0 s) = tc_line s \<and> tcol (display T0 s) = tc_col s"

definition shifted :: "screen \<Rightarrow> nat \<Rightarrow> nat \<Rightarrow> tty list \<Rightarrow> screen" where
  "shifted s c r x = s\<lparr>tc_col := c, tc_line := r, tty_out := tty_out s @ x\<rparr>"

lemma rel_move_at:
  assumes "tracked T0 s" and "ln < t_lines s" and "c < t_columns s"
  defines "s' \<equiv> rel_move (tc_col s) (tc_line s) c ln s"
  shows "tracked T0 s' \<and> tc_col s' = c \<and> tc_line s' = ln \<and> tcell (display T0 s') = tcell (display T0 s) \<and> (\<exists>x. s' = shifted s c ln x)"
proof -
  let ?D = "display T0 s"
  have d: "display T0 (shifted s a r x) = fold (tstep (t_lines s)) x ?D" for a r x by (simp add: display_def shifted_def)
  have t: "trow ?D = tc_line s" "tcol ?D = tc_col s" using assms(1) by (simp_all add: tracked_def)
  have "\<exists>x. s' = shifted s c ln x \<and> fold (tstep (t_lines s)) x ?D = ?D\<lparr>trow := ln, tcol := c\<rparr>"
  proof -
    consider (lf) "c = 0" "ln = tc_line s + 1" | (cr) "c = 0" "ln = tc_line s" | (same) "c = tc_col s" "ln = tc_line s" "c \<noteq> 0"
      | (left) "c + 1 = tc_col s" "ln = tc_line s" "c \<noteq> 0"
      | (go) "\<not> (c = 0 \<and> ln = tc_line s + 1)" "\<not> (c = 0 \<and> ln = tc_line s)" "\<not> (tc_col s = c \<and> tc_line s = ln)" "\<not> (c + 1 = tc_col s \<and> ln = tc_line s)"
      by (cases "c = 0") blast+
    then show ?thesis
    proof cases
      case lf
      let ?x = "Tick 10 # (if tc_col s \<noteq> 0 then [Tick 13] else [])"
      have "s' = shifted s c ln ?x" using lf assms(2,3) by (simp add: s'_def rel_move_def shifted_def emit_def Let_def)
      moreover have "fold (tstep (t_lines s)) ?x ?D = ?D\<lparr>trow := ln, tcol := c\<rparr>"
        using lf assms(2) t by (cases ?D) (simp add: tfeed_def)
      ultimately show ?thesis by blast
    next
      case cr
      let ?x = "if tc_col s \<noteq> 0 then [Tick 13] else []"
      have "s' = shifted s c ln ?x" using cr assms(2,3) by (simp add: s'_def rel_move_def shifted_def emit_def Let_def)
      moreover have "fold (tstep (t_lines s)) ?x ?D = ?D\<lparr>trow := ln, tcol := c\<rparr>" using cr t by (cases ?D) simp
      ultimately show ?thesis by blast
    next
      case same
      have "s' = shifted s c ln []" using same assms(2,3) by (simp add: s'_def rel_move_def shifted_def emit_def Let_def)
      moreover have "fold (tstep (t_lines s)) [] ?D = ?D\<lparr>trow := ln, tcol := c\<rparr>" using same t by (cases ?D) simp
      ultimately show ?thesis by blast
    next
      case left
      let ?x = "[if has_bc s then Go_back else Tick 8]"
      have "s' = shifted s c ln ?x" using left assms(2,3) by (simp add: s'_def rel_move_def shifted_def emit_def Let_def)
      moreover have "fold (tstep (t_lines s)) ?x ?D = ?D\<lparr>trow := ln, tcol := c\<rparr>"
        using left(1) [symmetric] left(2) t by (cases ?D) simp
      ultimately show ?thesis by blast
    next
      case go
      have "s' = shifted s c ln [Goto c ln]" using go assms(2,3) unfolding s'_def rel_move_def Let_def by (auto simp: shifted_def emit_def)
      moreover have "fold (tstep (t_lines s)) [Goto c ln] ?D = ?D\<lparr>trow := ln, tcol := c\<rparr>" using assms(2) by (cases ?D) simp
      ultimately show ?thesis by blast
    qed
  qed
  then obtain x where x: "s' = shifted s c ln x" "display T0 s' = ?D\<lparr>trow := ln, tcol := c\<rparr>" using d by metis
  then show ?thesis by (auto simp: tracked_def shifted_def)
qed

text \<open>Sending a part of a line prints it.\<close>

definition part :: "char list \<Rightarrow> nat \<Rightarrow> nat \<Rightarrow> string" where
  "part d ds de = take (de - ds) (drop ds d)"

lemma part_split: "a \<le> b \<Longrightarrow> b \<le> c \<Longrightarrow> part d a b @ part d b c = part d a c"
proof -
  assume "a \<le> b" "b \<le> c"
  then have "drop b d = drop (b - a) (drop a d)" "c - a = (b - a) + (c - b)" by simp_all
  then show ?thesis by (simp only: part_def take_add)
qed

lemma cstr_part:
  assumes "\<forall>c. ds \<le> c \<and> c < de \<longrightarrow> d ! c \<noteq> NUL" and "de \<le> length d"
  shows "take (de - ds) (cstr (drop ds d)) = part d ds de"
proof -
  have "\<forall>x\<in>set (part d ds de). x \<noteq> NUL"
    using assms by (auto simp: part_def in_set_conv_nth)
  then have "cstr (part d ds de @ drop (de - ds) (drop ds d)) = part d ds de @ cstr (drop (de - ds) (drop ds d))"
    by (simp add: cstr_def takeWhile_append2)
  then have "cstr (drop ds d) = part d ds de @ cstr (drop (de - ds) (drop ds d))"
    by (simp only: part_def append_take_drop_id)
  moreover have "length (part d ds de) = de - ds" using assms(2) by (simp add: part_def)
  ultimately show ?thesis by simp
qed

lemma say_shows:
  assumes "\<forall>c. ds \<le> c \<and> c < de \<longrightarrow> d ! c \<noteq> NUL" and "de \<le> length d"
  shows "display T0 (say d ds de s) = tput (part d ds de) (display T0 s)"
  using cstr_part [OF assms] by (simp add: say_def)

lemma t_lines_say [simp]: "t_lines (say d a b s) = t_lines s" "t_lines (emit t s) = t_lines s"
  by (simp_all add: say_def emit_def)

lemma send_part_shows:
  assumes "\<forall>c. ds \<le> c \<and> c < de \<longrightarrow> sdata l ! c \<noteq> NUL" and "de \<le> length (sdata l)" and "ds \<le> de" and "sso l \<le> eso l"
  shows "display T0 (send_part l ds de s) = tput (part (sdata l) ds de) (display T0 s) \<and> (\<exists>x. send_part l ds de s = s\<lparr>tty_out := tty_out s @ x\<rparr>)"
proof -
  let ?d = "sdata l"
  have sh: "display T0 (say ?d a b s) = tput (part ?d a b) (display T0 s)" if "ds \<le> a" "b \<le> de" for a b s
    by (rule say_shows) (use that assms(1,2) in auto)
  have fr: "\<exists>x. say ?d a b s = s\<lparr>tty_out := tty_out s @ x\<rparr>" for a b s by (auto simp: say_def emit_def)
  show ?thesis
  proof (cases "hilite l \<and> \<not> (eso l \<le> ds \<or> de \<le> sso l)")
    case False
    then show ?thesis using sh [of ds de s] fr [of ds de s] assms(3) by (auto simp: send_part_def standoutput_def)
  next
    case True
    define a where "a = (if ds < sso l then sso l else ds)"
    define b where "b = (if de < eso l then de else eso l)"
    define s1 where "s1 = (if ds < sso l then say ?d ds (sso l) s else s)"
    define s2 where "s2 = emit Standdown (say ?d a b (emit Standup s1))"
    have o: "ds \<le> a" "a \<le> b" "b \<le> de" using True assms(3,4) by (auto simp: a_def b_def)
    have e: "send_part l ds de s = (if eso l < de then say ?d (eso l) de s2 else s2)"
      using True by (simp add: send_part_def standoutput_def Let_def a_def b_def s1_def s2_def)
    have d1: "display T0 s1 = tput (part ?d ds a) (display T0 s)"
      using sh [of ds "sso l" s] True by (auto simp: s1_def a_def part_def)
    have d2: "display T0 s2 = tput (part ?d ds b) (display T0 s)"
      using sh [of a b "emit Standup s1"] o by (simp add: s2_def d1 tput_append part_split)
    have d3: "display T0 (send_part l ds de s) = tput (part ?d ds de) (display T0 s)"
    proof (cases "eso l < de")
      case True
      then have "b = eso l" by (simp add: b_def)
      then show ?thesis using sh [of "eso l" de s2] True o d2 e by (simp add: tput_append part_split)
    next
      case no: False
      then have "b = de" using True by (simp add: b_def)
      then show ?thesis using d2 e no by simp
    qed
    have "\<exists>x. send_part l ds de s = s\<lparr>tty_out := tty_out s @ x\<rparr>"
      unfolding e s2_def s1_def by (auto simp: say_def emit_def)
    then show ?thesis using d3 by blast
  qed
qed

section \<open>Lines of the picture and of the terminal\<close>

definition line_ok :: "nat \<Rightarrow> sline \<Rightarrow> bool" where
  "line_ok w l \<longleftrightarrow> length (sdata l) = LINELEN \<and> slen l < w \<and> w \<le> LINELEN \<and> oldlen l < LINELEN \<and> sso l \<le> eso l \<and>
    (modified l \<longrightarrow> smod l \<le> emod l) \<and> (\<forall>c < slen l. isprint2 (sdata l ! c))"

text \<open>The terminal's row \<open>R\<close> and the line agree outside the columns marked as changed.\<close>

definition agree :: "(nat \<Rightarrow> char) \<Rightarrow> sline \<Rightarrow> bool" where
  "agree R l \<longleftrightarrow> (\<forall>c. oldlen l \<le> c \<longrightarrow> R c = SP) \<and>
    (\<forall>c < slen l. \<not> (modified l \<and> smod l \<le> c \<and> c \<le> emod l) \<longrightarrow> R c = sdata l ! c)"

definition matches_line :: "(nat \<Rightarrow> char) \<Rightarrow> sline \<Rightarrow> bool" where
  "matches_line R l \<longleftrightarrow> (\<forall>c. R c = (if c < slen l then sdata l ! c else SP))"

definition screen_ok :: "screen \<Rightarrow> bool" where
  "screen_ok s \<longleftrightarrow> picture s \<noteq> [] \<and> scr_lns s \<le> t_lines s \<and> \<not> dumb_term s \<and> 0 < t_columns s \<and> (\<forall>l\<in>set (picture s). line_ok (t_columns s) l)"

abbreviation (input) on_line :: "screen \<Rightarrow> nat \<Rightarrow> sline" where
  "on_line s i \<equiv> picture s ! row s i"

lemma matches_agree: "matches_line R l \<Longrightarrow> slen l \<le> oldlen l \<Longrightarrow> agree R l"
  by (auto simp: matches_line_def agree_def)

lemma row_less: "picture s \<noteq> [] \<Longrightarrow> row s i < scr_lns s"
  by (simp add: row_def scr_lns_def)

lemma row_inj:
  assumes "i < scr_lns s" and "k < scr_lns s" and "row s i = row s k"
  shows "i = k"
proof -
  have "int (scr_lns s) dvd int i - int k"
    using assms(3) unfolding row_def by (metis add_diff_cancel_right mod_eq_dvd_iff of_nat_add zmod_int)
  then have "int i - int k = 0 \<or> int (scr_lns s) \<le> \<bar>int i - int k\<bar>"
    by (metis abs_ge_zero abs_of_nat dvd_imp_le_int)
  then show ?thesis using assms(1,2) by auto
qed

lemma screen_okD:
  assumes "screen_ok s"
  shows "line_ok (t_columns s) (on_line s i)" "row s i < length (picture s)"
proof -
  show r: "row s i < length (picture s)" using row_less assms by (simp add: screen_ok_def scr_lns_def)
  then show "line_ok (t_columns s) (on_line s i)" using assms by (simp add: screen_ok_def)
qed

text \<open>Only the picture, the known cursor and what has been sent differ.\<close>

definition touches :: "screen \<Rightarrow> screen \<Rightarrow> bool" where
  "touches s s' \<longleftrightarrow> (\<exists>a b x p. s' = s\<lparr>tc_col := a, tc_line := b, tty_out := x, picture := p\<rparr> \<and> length p = length (picture s))"

lemma touchesI: "s' = s\<lparr>tc_col := a, tc_line := b, tty_out := x, picture := p\<rparr> \<Longrightarrow> length p = length (picture s) \<Longrightarrow> touches s s'"
  unfolding touches_def by blast

lemma touches_refl: "touches s s"
  by (rule touchesI [where a = "tc_col s" and b = "tc_line s" and x = "tty_out s" and p = "picture s"]) simp_all

lemma touches_trans:
  assumes "touches s s1" and "touches s1 s2"
  shows "touches s s2"
proof -
  obtain a b x p where 1: "s1 = s\<lparr>tc_col := a, tc_line := b, tty_out := x, picture := p\<rparr>" "length p = length (picture s)"
    using assms(1) unfolding touches_def by blast
  obtain a' b' x' p' where 2: "s2 = s1\<lparr>tc_col := a', tc_line := b', tty_out := x', picture := p'\<rparr>" "length p' = length (picture s1)"
    using assms(2) unfolding touches_def by blast
  show ?thesis by (rule touchesI [where a = a' and b = b' and x = x' and p = p']) (simp_all add: 1 2)
qed

lemma touchesD:
  assumes "touches s s'"
  shows "roll s' = roll s" "scr_lns s' = scr_lns s" "t_lines s' = t_lines s" "t_columns s' = t_columns s" "dumb_term s' = dumb_term s"
    "row s' = row s" "cur_ln s' = cur_ln s" "cur_col s' = cur_col s" "scrollcnt s' = scrollcnt s" "docls s' = docls s"
    "length (picture s') = length (picture s)" "offsetln s' = offsetln s" "scr_cols s' = scr_cols s" "standing s' = standing s" "iscolor s' = iscolor s"
    "inansi s' = inansi s" "ahead s' = ahead s"
  using assms by (auto simp: touches_def scr_lns_def row_def fun_eq_iff)

definition line_drawn :: "terminal \<Rightarrow> nat \<Rightarrow> screen \<Rightarrow> screen \<Rightarrow> bool" where
  "line_drawn T0 i s s' \<longleftrightarrow> touches s s' \<and> tracked T0 s' \<and>
    (\<forall>r. r \<noteq> i \<longrightarrow> tcell (display T0 s') r = tcell (display T0 s) r) \<and>
    matches_line (tcell (display T0 s') i) (on_line s i) \<and>
    (\<exists>l'. picture s' = (picture s)[row s i := l'] \<and> line_ok (t_columns s) l' \<and> slen l' \<le> oldlen l' \<and> slen l' = slen (on_line s i) \<and> sdata l' = sdata (on_line s i))"

lemma tput_at:
  assumes "tcol T = a" and "a \<le> b" and "b \<le> length d"
  shows "trow (tput (part d a b) T) = trow T" "tcol (tput (part d a b) T) = b"
    "r \<noteq> trow T \<Longrightarrow> tcell (tput (part d a b) T) r = tcell T r"
    "tcell (tput (part d a b) T) (trow T) c = (if a \<le> c \<and> c < b then d ! c else tcell T (trow T) c)"
  using assms by (auto simp: tput_def part_def)

lemma printable_not_nul: "isprint2 c \<Longrightarrow> c \<noteq> NUL"
  by (auto simp: isprint2_def)

text \<open>The printing of the changed part.\<close>

lemma refresh_text_shows:
  assumes ok: "screen_ok s" and tr: "tracked T0 s" and i: "i < scr_lns s" and ag: "agree (tcell (display T0 s) i) (on_line s i)"
  defines "s' \<equiv> refresh_text i s"
  shows "touches s s' \<and> tracked T0 s' \<and> (\<forall>r. r \<noteq> i \<longrightarrow> tcell (display T0 s') r = tcell (display T0 s) r) \<and>
    (\<forall>c. c < slen (on_line s i) \<longrightarrow> tcell (display T0 s') i c = sdata (on_line s i) ! c) \<and>
    (\<forall>c. slen (on_line s i) \<le> c \<and> oldlen (on_line s i) \<le> c \<longrightarrow> tcell (display T0 s') i c = SP) \<and>
    (\<exists>l'. picture s' = (picture s)[row s i := l'] \<and> line_ok (t_columns s) l' \<and> oldlen l' = oldlen (on_line s i) \<and>
      slen l' = slen (on_line s i) \<and> sdata l' = sdata (on_line s i))"
proof -
  let ?l = "on_line s i"
  have lk: "line_ok (t_columns s) ?l" by (rule screen_okD [OF ok])
  have old: "\<And>c. oldlen ?l \<le> c \<Longrightarrow> tcell (display T0 s) i c = SP"
    and same: "\<And>c. c < slen ?l \<Longrightarrow> \<not> (modified ?l \<and> smod ?l \<le> c \<and> c \<le> emod ?l) \<Longrightarrow> tcell (display T0 s) i c = sdata ?l ! c"
    using ag by (simp_all add: agree_def)
  show ?thesis
  proof (cases "modified ?l \<and> smod ?l < slen ?l")
    case False
    have s': "s' = s" unfolding s'_def refresh_text_def Let_def by (rule if_not_P [OF False])
    have "\<exists>l'. picture s = (picture s)[row s i := l'] \<and> line_ok (t_columns s) l' \<and> oldlen l' = oldlen ?l \<and> slen l' = slen ?l \<and> sdata l' = sdata ?l"
      using lk by (intro exI [of _ ?l]) simp
    moreover have "\<forall>c. c < slen ?l \<longrightarrow> tcell (display T0 s) i c = sdata ?l ! c" using same False by auto
    ultimately show ?thesis unfolding s' using tr old touches_refl by blast
  next
    case True
    define l1 where "l1 = ?l\<lparr>modified := False, emod := (if slen ?l \<le> emod ?l then slen ?l - 1 else emod ?l)\<rparr>"
    define s0 where "s0 = rel_move (tc_col s) (tc_line s) (smod l1) i s"
    define s1 where "s1 = send_part l1 (smod l1) (emod l1 + 1) s0"
    have m: "smod l1 = smod ?l" "smod l1 \<le> emod l1" "emod l1 < slen ?l" "slen ?l < t_columns s" "t_columns s \<le> 256" "sdata l1 = sdata ?l" "length (sdata ?l) = 256"
      "sso l1 \<le> eso l1" "slen l1 = slen ?l" "oldlen l1 = oldlen ?l"
      using True lk by (auto simp: l1_def line_ok_def)
    have "i < t_lines s" "smod l1 < t_columns s" using i ok m by (auto simp: screen_ok_def)
    from rel_move_at [OF tr this] obtain x where s0: "tracked T0 s0" "tc_col s0 = smod l1" "tc_line s0 = i" "tcell (display T0 s0) = tcell (display T0 s)"
        "s0 = shifted s (smod l1) i x" unfolding s0_def by blast
    have "\<forall>c. smod l1 \<le> c \<and> c < emod l1 + 1 \<longrightarrow> sdata l1 ! c \<noteq> NUL"
    proof (intro allI impI)
      fix c assume "smod l1 \<le> c \<and> c < emod l1 + 1"
      then have "c < slen ?l" using m(3) by simp
      then show "sdata l1 ! c \<noteq> NUL" using lk m(6) printable_not_nul by (simp add: line_ok_def)
    qed
    from send_part_shows [OF this _ _ m(8), of T0 s0] m obtain y where
      s1: "display T0 s1 = tput (part (sdata ?l) (smod l1) (emod l1 + 1)) (display T0 s0)" "s1 = s0\<lparr>tty_out := tty_out s0 @ y\<rparr>"
      unfolding s1_def by auto
    have "t_columns s1 = t_columns s" using s1(2) s0(5) by (simp add: shifted_def)
    moreover have "s' = (let c = emod l1 + 1;
            s2 = (if t_columns s1 \<le> c then
                    if automargins s1 then
                      s1\<lparr>tc_col := c - t_columns s1, tc_line := (if t_lines s1 \<le> tc_line s1 + 1 then t_lines s1 - 1 else tc_line s1 + 1)\<rparr>
                    else s1\<lparr>tc_col := t_columns s1 - 1\<rparr>
                  else s1\<lparr>tc_col := c\<rparr>)
        in s2\<lparr>picture := (picture s2)[row s i := l1]\<rparr>)"
      unfolding s'_def refresh_text_def using True by (simp add: Let_def l1_def [symmetric] s0_def [symmetric] s1_def [symmetric] del: One_nat_def)
    ultimately have s': "s' = s1\<lparr>tc_col := emod l1 + 1, picture := (picture s1)[row s i := l1]\<rparr>" using m(3,4) by (simp add: Let_def)
    then have ds: "display T0 s' = tput (part (sdata ?l) (smod l1) (emod l1 + 1)) (display T0 s0)" using s1(1) by (simp add: display_frame)
    have at: "tcol (display T0 s0) = smod l1" "trow (display T0 s0) = i" using s0(1-3) by (simp_all add: tracked_def)
    have le: "smod l1 \<le> emod l1 + 1" "emod l1 + 1 \<le> length (sdata ?l)" using m by auto
    have c0: "tcell (display T0 s') i c = (if smod l1 \<le> c \<and> c < emod l1 + 1 then sdata ?l ! c else tcell (display T0 s) i c)" for c
      using tput_at(4) [OF at(1) le] s0(4) at(2) by (simp add: ds)
    have p: "s' = s\<lparr>tc_col := emod l1 + 1, tc_line := i, tty_out := tty_out s @ x @ y, picture := (picture s)[row s i := l1]\<rparr>"
      using s' s1(2) s0(5) by (simp add: shifted_def)
    have "touches s s'" by (rule touchesI [OF p]) simp
    moreover have "tracked T0 s'" using tput_at(1,2) [OF at(1) le] at by (simp add: tracked_def ds) (simp add: p)
    moreover have "tcell (display T0 s') r = tcell (display T0 s) r" if "r \<noteq> i" for r
      using tput_at(3) [OF at(1) le] that s0(4) at(2) by (simp add: ds)
    moreover have "tcell (display T0 s') i c = sdata ?l ! c" if "c < slen ?l" for c
      using same [OF that] that m(1) unfolding c0 by (auto simp: l1_def split: if_splits)
    moreover have "tcell (display T0 s') i c = SP" if "slen ?l \<le> c" "oldlen ?l \<le> c" for c
      using old [OF that(2)] that(1) m(3) unfolding c0 by auto
    moreover have "line_ok (t_columns s) l1" using lk by (auto simp: l1_def line_ok_def)
    ultimately show ?thesis using m(6,9,10) p by auto
  qed
qed

lemma on_line_set: "row s i < length (picture s) \<Longrightarrow> picture s' = (picture s)[row s i := l] \<Longrightarrow> row s' = row s \<Longrightarrow> on_line s' i = l"
  by simp

lemma set_line_ok:
  assumes "screen_ok s" and "touches s s'" and "picture s' = (picture s)[row s i := l]" and "line_ok (t_columns s) l"
  shows "screen_ok s'"
  using assms touchesD [OF assms(2)] by (auto simp: screen_ok_def dest!: set_update_subset_insert [THEN subsetD])

text \<open>The clearing of what is behind the text.\<close>

lemma refresh_line_drawn:
  assumes ok: "screen_ok s" and tr: "tracked T0 s" and i: "i < scr_lns s" and ag: "agree (tcell (display T0 s) i) (on_line s i)"
  shows "line_drawn T0 i s (refresh_line i s)"
proof -
  let ?l = "on_line s i"
  define s1 where "s1 = refresh_text i s"
  obtain l1 where s1: "touches s s1" "tracked T0 s1" "\<forall>r. r \<noteq> i \<longrightarrow> tcell (display T0 s1) r = tcell (display T0 s) r"
      "\<forall>c. c < slen ?l \<longrightarrow> tcell (display T0 s1) i c = sdata ?l ! c"
      "\<forall>c. slen ?l \<le> c \<and> oldlen ?l \<le> c \<longrightarrow> tcell (display T0 s1) i c = SP"
      "picture s1 = (picture s)[row s i := l1]" "line_ok (t_columns s) l1" "oldlen l1 = oldlen ?l" "slen l1 = slen ?l" "sdata l1 = sdata ?l"
    using refresh_text_shows [OF ok tr i ag] unfolding s1_def by blast
  have rw: "row s1 = row s" and tl: "t_lines s1 = t_lines s" "t_columns s1 = t_columns s" "scr_lns s1 = scr_lns s" using touchesD [OF s1(1)] by blast+
  have l1: "on_line s1 i = l1" by (rule on_line_set [OF screen_okD(2) [OF ok] s1(6) rw])
  define s2 where "s2 = (if slen l1 < oldlen l1 then emit Cleol (rel_move (tc_col s1) (tc_line s1) (slen l1) i s1) else s1)"
  define s' where "s' = s2\<lparr>picture := (picture s2)[row s i := l1\<lparr>oldlen := slen l1\<rparr>]\<rparr>"
  have e: "refresh_line i s = s'"
    unfolding refresh_line_def refresh_tail_def Let_def s1_def [symmetric] rw l1 [unfolded rw] s'_def s2_def by (rule refl)
  have "touches s1 s2 \<and> picture s2 = picture s1 \<and> tracked T0 s2 \<and> (\<forall>r. r \<noteq> i \<longrightarrow> tcell (display T0 s2) r = tcell (display T0 s1) r) \<and>
    (\<forall>c. tcell (display T0 s2) i c = (if slen l1 < oldlen l1 \<and> slen l1 \<le> c then SP else tcell (display T0 s1) i c))"
  proof (cases "slen l1 < oldlen l1")
    case False
    then show ?thesis using touches_refl s1(2) by (simp add: s2_def)
  next
    case True
    have "i < t_lines s1" "slen l1 < t_columns s1" using i ok s1(7) tl by (auto simp: screen_ok_def line_ok_def)
    from rel_move_at [OF s1(2) this] obtain x where m: "tracked T0 (rel_move (tc_col s1) (tc_line s1) (slen l1) i s1)"
        "tc_col (rel_move (tc_col s1) (tc_line s1) (slen l1) i s1) = slen l1" "tc_line (rel_move (tc_col s1) (tc_line s1) (slen l1) i s1) = i"
        "tcell (display T0 (rel_move (tc_col s1) (tc_line s1) (slen l1) i s1)) = tcell (display T0 s1)"
        "rel_move (tc_col s1) (tc_line s1) (slen l1) i s1 = shifted s1 (slen l1) i x" by blast
    have s2: "s2 = emit Cleol (rel_move (tc_col s1) (tc_line s1) (slen l1) i s1)" using True by (simp add: s2_def)
    then have p: "s2 = s1\<lparr>tc_col := slen l1, tc_line := i, tty_out := tty_out s1 @ x @ [Cleol], picture := picture s1\<rparr>"
      using m(5) by (simp add: shifted_def emit_def)
    have d: "display T0 s2 = tstep (t_lines s) Cleol (display T0 (shifted s1 (slen l1) i x))"
      unfolding s2 display_emit m(5) by (simp add: shifted_def tl)
    have at: "trow (display T0 (shifted s1 (slen l1) i x)) = i" "tcol (display T0 (shifted s1 (slen l1) i x)) = slen l1"
      using m(1-3) unfolding m(5) by (simp_all add: tracked_def)
    have "touches s1 s2" by (rule touchesI [OF p]) simp
    moreover have "tracked T0 s2" using at by (simp add: tracked_def d) (simp add: p)
    ultimately show ?thesis using True m(4) at unfolding m(5) by (auto simp: d) (simp_all add: p)
  qed
  then have s2: "touches s1 s2" "picture s2 = picture s1" "tracked T0 s2" "\<forall>r. r \<noteq> i \<longrightarrow> tcell (display T0 s2) r = tcell (display T0 s1) r"
    "\<And>c. tcell (display T0 s2) i c = (if slen l1 < oldlen l1 \<and> slen l1 \<le> c then SP else tcell (display T0 s1) i c)" by blast+
  let ?l' = "l1\<lparr>oldlen := slen l1\<rparr>"
  have t: "touches s s'"
  proof -
    have "touches s2 s'" unfolding s'_def
      by (rule touchesI [where a = "tc_col s2" and b = "tc_line s2" and x = "tty_out s2" and p = "(picture s2)[row s i := ?l']"]) simp_all
    then show ?thesis using touches_trans s1(1) s2(1) by blast
  qed
  have d: "display T0 s' = display T0 s2" by (simp add: s'_def display_frame)
  have "tracked T0 s'" using s2(3) unfolding tracked_def d by (simp add: s'_def)
  moreover have "picture s' = (picture s)[row s i := ?l']" by (simp add: s'_def s2(2) s1(6))
  moreover have "line_ok (t_columns s) ?l'" using s1(7) by (simp add: line_ok_def)
  moreover have "matches_line (tcell (display T0 s') i) ?l"
    unfolding matches_line_def d s2(5) using s1(4,5,8,9) by auto
  ultimately show ?thesis unfolding line_drawn_def e using t s2(4) s1(3,9,10) d by auto
qed

lemma redo_line_drawn:
  assumes ok: "screen_ok s" and tr: "tracked T0 s" and i: "i < scr_lns s" and bl: "tcell (display T0 s) i = (\<lambda>c. SP)"
  shows "line_drawn T0 i s (redo_line i s)"
proof -
  let ?l = "on_line s i"
  have lk: "line_ok (t_columns s) ?l" by (rule screen_okD [OF ok])
  show ?thesis
  proof (cases "slen ?l = 0")
    case True
    then have e: "redo_line i s = s" by (simp add: redo_line_def)
    show ?thesis unfolding line_drawn_def e
      using True tr lk touches_refl bl by (auto simp: matches_line_def intro!: exI [of _ ?l])
  next
    case False
    define s0 where "s0 = rel_move (tc_col s) (tc_line s) 0 i s"
    define s1 where "s1 = send_part ?l 0 (slen ?l) s0"
    have "i < t_lines s" "0 < t_columns s" using i ok by (auto simp: screen_ok_def)
    from rel_move_at [OF tr this] obtain x where s0: "tracked T0 s0" "tc_col s0 = 0" "tc_line s0 = i" "tcell (display T0 s0) = tcell (display T0 s)"
        "s0 = shifted s 0 i x" unfolding s0_def by blast
    have m: "slen ?l \<le> length (sdata ?l)" "sso ?l \<le> eso ?l" "slen ?l < t_columns s" using lk by (auto simp: line_ok_def)
    have "\<forall>c. 0 \<le> c \<and> c < slen ?l \<longrightarrow> sdata ?l ! c \<noteq> NUL" using lk printable_not_nul by (auto simp: line_ok_def)
    from send_part_shows [OF this m(1) _ m(2), of T0 s0] obtain y where
      s1: "display T0 s1 = tput (part (sdata ?l) 0 (slen ?l)) (display T0 s0)" "s1 = s0\<lparr>tty_out := tty_out s0 @ y\<rparr>"
      unfolding s1_def by auto
    have c: "t_columns s1 = t_columns s" "tc_col s1 = 0" "tc_line s1 = i" using s1(2) s0(2,5) by (simp_all add: shifted_def)
    let ?l' = "?l\<lparr>modified := False, oldlen := slen ?l\<rparr>"
    let ?s' = "s1\<lparr>tc_col := slen ?l, picture := (picture s1)[row s i := ?l']\<rparr>"
    have e: "redo_line i s = ?s'"
      unfolding redo_line_def Let_def s0_def [symmetric] s1_def [symmetric] using False c(1,2) m(3) by simp
    have ds: "display T0 ?s' = tput (part (sdata ?l) 0 (slen ?l)) (display T0 s0)" using s1(1) by (simp add: display_frame)
    have at: "tcol (display T0 s0) = 0" "trow (display T0 s0) = i" using s0(1-3) by (simp_all add: tracked_def)
    have p: "?s' = s\<lparr>tc_col := slen ?l, tc_line := i, tty_out := tty_out s @ x @ y, picture := (picture s)[row s i := ?l']\<rparr>"
      using s1(2) s0(5) by (simp add: shifted_def)
    have "touches s ?s'" by (rule touchesI [OF p]) simp
    moreover have "tracked T0 ?s'" using tput_at(1,2) [OF at(1) _ m(1)] at(2) c(3) by (simp add: tracked_def ds)
    moreover have "tcell (display T0 ?s') r = tcell (display T0 s) r" if "r \<noteq> i" for r
      using tput_at(3) [OF at(1) _ m(1)] that s0(4) at(2) by (simp add: ds)
    moreover have "matches_line (tcell (display T0 ?s') i) ?l"
      using tput_at(4) [OF at(1) _ m(1)] s0(4) at(2) bl by (simp add: ds matches_line_def)
    moreover have "line_ok (t_columns s) ?l'" using lk by (auto simp: line_ok_def)
    moreover have "picture ?s' = (picture s)[row s i := ?l']" using p by simp
    ultimately show ?thesis unfolding line_drawn_def e by auto
  qed
qed

section \<open>All lines\<close>

lemma fold_drawn:
  assumes step: "\<And>i s. screen_ok s \<Longrightarrow> tracked T0 s \<Longrightarrow> i < scr_lns s \<Longrightarrow> Q (tcell (display T0 s) i) (on_line s i) \<Longrightarrow> line_drawn T0 i s (f i s)"
    and ok: "screen_ok s" and tr: "tracked T0 s" and q: "\<forall>i < scr_lns s. Q (tcell (display T0 s) i) (on_line s i)"
  shows "n \<le> scr_lns s \<Longrightarrow> (let s' = fold f [0..<n] s in touches s s' \<and> screen_ok s' \<and> tracked T0 s' \<and>
    (\<forall>i < n. matches_line (tcell (display T0 s') i) (on_line s i) \<and> slen (on_line s' i) \<le> oldlen (on_line s' i) \<and>
      slen (on_line s' i) = slen (on_line s i) \<and> sdata (on_line s' i) = sdata (on_line s i)) \<and>
    (\<forall>i. n \<le> i \<and> i < scr_lns s \<longrightarrow> on_line s' i = on_line s i \<and> tcell (display T0 s') i = tcell (display T0 s) i))"
proof (induction n)
  case 0
  then show ?case using ok tr touches_refl by (simp add: Let_def)
next
  case (Suc n)
  define s1 where "s1 = fold f [0..<n] s"
  have n: "n < scr_lns s" using Suc.prems by simp
  have ih: "touches s s1" "screen_ok s1" "tracked T0 s1"
    "\<And>i. i < n \<Longrightarrow> matches_line (tcell (display T0 s1) i) (on_line s i) \<and> slen (on_line s1 i) \<le> oldlen (on_line s1 i) \<and>
      slen (on_line s1 i) = slen (on_line s i) \<and> sdata (on_line s1 i) = sdata (on_line s i)"
    "\<And>i. n \<le> i \<Longrightarrow> i < scr_lns s \<Longrightarrow> on_line s1 i = on_line s i \<and> tcell (display T0 s1) i = tcell (display T0 s) i"
    using Suc.IH Suc.prems unfolding s1_def Let_def by auto
  have rw: "row s1 = row s" "scr_lns s1 = scr_lns s" "t_columns s1 = t_columns s" using touchesD [OF ih(1)] by blast+
  have "line_drawn T0 n s1 (f n s1)" using step [OF ih(2,3)] q n ih(5) [of n] rw by simp
  then obtain l' where d: "touches s1 (f n s1)" "tracked T0 (f n s1)" "\<And>r. r \<noteq> n \<Longrightarrow> tcell (display T0 (f n s1)) r = tcell (display T0 s1) r"
      "matches_line (tcell (display T0 (f n s1)) n) (on_line s1 n)" "picture (f n s1) = (picture s1)[row s1 n := l']"
      "line_ok (t_columns s1) l'" "slen l' \<le> oldlen l'" "slen l' = slen (on_line s1 n)" "sdata l' = sdata (on_line s1 n)"
    unfolding line_drawn_def by blast
  have rf: "row (f n s1) = row s" using touchesD(6) [OF d(1)] rw(1) by simp
  have lt: "row s n < length (picture s1)" using screen_okD(2) [OF ih(2), of n] rw by simp
  have at: "on_line (f n s1) n = l'" using d(5) rf rw(1) lt by simp
  have ot: "on_line (f n s1) i = on_line s1 i" if "i < scr_lns s" "i \<noteq> n" for i
  proof -
    have "row s n \<noteq> row s i" using row_inj [OF that(1) n] that(2) by metis
    from nth_list_update_neq [OF this] show ?thesis by (simp only: d(5) rf rw(1))
  qed
  have "touches s (f n s1)" "screen_ok (f n s1)" using touches_trans [OF ih(1) d(1)] set_line_ok [OF ih(2) d(1,5,6)] by blast+
  moreover have "matches_line (tcell (display T0 (f n s1)) i) (on_line s i) \<and> slen (on_line (f n s1) i) \<le> oldlen (on_line (f n s1) i) \<and>
      slen (on_line (f n s1) i) = slen (on_line s i) \<and> sdata (on_line (f n s1) i) = sdata (on_line s i)" if "i < Suc n" for i
  proof (cases "i = n")
    case True
    then show ?thesis using d(4,7-9) at ih(5) [of n] n rw(1) by simp
  next
    case False
    then have "i < n" "i < scr_lns s" using that n by simp_all
    then show ?thesis using ih(4) [of i] ot [of i] d(3) [of i] rw(1) False by simp
  qed
  moreover have "on_line (f n s1) i = on_line s i \<and> tcell (display T0 (f n s1)) i = tcell (display T0 s) i" if "Suc n \<le> i" "i < scr_lns s" for i
    using ih(5) [of i] ot [of i] d(3) [of i] that rw(1) by simp
  moreover have "fold f [0..<Suc n] s = f n s1" by (simp add: s1_def)
  ultimately show ?case using d(2) unfolding Let_def by (simp only:) blast
qed

text \<open>The state in which all lines have been sent.\<close>

definition all_drawn :: "terminal \<Rightarrow> screen \<Rightarrow> screen \<Rightarrow> bool" where
  "all_drawn T0 s s' \<longleftrightarrow> touches s s' \<and> screen_ok s' \<and> tracked T0 s' \<and>
    (\<forall>i < scr_lns s. matches_line (tcell (display T0 s') i) (on_line s i) \<and> slen (on_line s' i) \<le> oldlen (on_line s' i) \<and>
      slen (on_line s' i) = slen (on_line s i) \<and> sdata (on_line s' i) = sdata (on_line s i))"

lemmas drawn_by_refresh = fold_drawn [where Q = agree and f = refresh_line, OF refresh_line_drawn]
lemmas drawn_by_redo = fold_drawn [where Q = "\<lambda>R l. R = (\<lambda>c. SP)" and f = redo_line, OF redo_line_drawn]

lemma all_refreshed:
  assumes "screen_ok s" and "tracked T0 s" and "\<forall>i < scr_lns s. agree (tcell (display T0 s) i) (on_line s i)"
  shows "all_drawn T0 s (fold refresh_line [0..<scr_lns s] s)"
  using drawn_by_refresh [OF _ _ _ _ assms order_refl] unfolding all_drawn_def Let_def by blast

lemma all_redone:
  assumes "screen_ok s" and "tracked T0 s" and "\<forall>i < scr_lns s. tcell (display T0 s) i = (\<lambda>c. SP)"
  shows "all_drawn T0 s (fold redo_line [0..<scr_lns s] s)"
  using drawn_by_redo [OF _ _ _ _ assms order_refl] unfolding all_drawn_def Let_def by blast

section \<open>The invariant\<close>

text \<open>A screen whose terminal can be brought up to date.\<close>

definition synced :: "terminal \<Rightarrow> screen \<Rightarrow> bool" where
  "synced T0 s \<longleftrightarrow> screen_ok s \<and>
    (docls s \<or> scrollcnt s = 0 \<and> tracked T0 s \<and> (\<forall>i < scr_lns s. agree (tcell (display T0 s) i) (on_line s i)))"

definition shows_picture :: "terminal \<Rightarrow> screen \<Rightarrow> screen \<Rightarrow> bool" where
  "shows_picture T0 s p \<longleftrightarrow> (\<forall>i < scr_lns p. matches_line (tcell (display T0 s) i) (on_line p i))"

lemma agree_after:
  assumes "matches_line R l" and "slen l' \<le> oldlen l'" and "slen l' = slen l" and "sdata l' = sdata l"
  shows "agree R l'"
  using assms matches_agree [of R l'] by (simp add: matches_line_def)

lemma rel_move_any:
  fixes c ln :: nat
  assumes "tracked T0 s"
  defines "s' \<equiv> rel_move (tc_col s) (tc_line s) c ln s"
  shows "tracked T0 s' \<and> tcell (display T0 s') = tcell (display T0 s) \<and> touches s s' \<and> picture s' = picture s"
proof (cases "ln < t_lines s \<and> c < t_columns s")
  case True
  then obtain x where x: "tracked T0 s'" "tcell (display T0 s') = tcell (display T0 s)" "s' = shifted s c ln x"
    using rel_move_at [OF assms(1), of ln c] unfolding s'_def by blast
  have "s' = s\<lparr>tc_col := c, tc_line := ln, tty_out := tty_out s @ x, picture := picture s\<rparr>" using x(3) by (simp add: shifted_def)
  then have "touches s s'" by (rule touchesI) simp
  then show ?thesis using x by (simp add: shifted_def)
next
  case False
  then have "s' = s" by (auto simp: s'_def rel_move_def)
  then show ?thesis using assms(1) touches_refl by simp
qed

text \<open>The end of both ways of sending: the cursor goes to its place.\<close>

definition settle :: "screen \<Rightarrow> screen" where
  "settle s = emit Flush (rel_move (tc_col s) (tc_line s) (cur_col s) (cur_ln s) s)"

lemma settled:
  assumes ad: "all_drawn T0 s s1" and e: "s' = (settle s1)\<lparr>docls := False, scrollcnt := 0\<rparr>"
  shows "shows_picture T0 s' s \<and> synced T0 s'"
proof -
  have d: "touches s s1" "screen_ok s1" "tracked T0 s1"
    and m: "\<forall>i < scr_lns s. matches_line (tcell (display T0 s1) i) (on_line s i) \<and> slen (on_line s1 i) \<le> oldlen (on_line s1 i) \<and>
      slen (on_line s1 i) = slen (on_line s i) \<and> sdata (on_line s1 i) = sdata (on_line s i)"
    using ad unfolding all_drawn_def by blast+
  define s2 where "s2 = rel_move (tc_col s1) (tc_line s1) (cur_col s1) (cur_ln s1) s1"
  have r: "tracked T0 s2" "tcell (display T0 s2) = tcell (display T0 s1)" "touches s1 s2" "picture s2 = picture s1"
    using rel_move_any [OF d(3)] unfolding s2_def by blast+
  have e': "s' = (emit Flush s2)\<lparr>docls := False, scrollcnt := 0\<rparr>" using e by (simp add: settle_def s2_def)
  have D: "display T0 s' = display T0 s2" by (simp add: e' display_frame)
  have f: "picture s' = picture s1" "row s' = row s" "scr_lns s' = scr_lns s" "t_columns s' = t_columns s" "t_lines s' = t_lines s" "dumb_term s' = dumb_term s"
    using touchesD [OF r(3)] touchesD [OF d(1)] r(4) by (simp_all add: e' emit_def row_def scr_lns_def fun_eq_iff)
  have ln: "on_line s' i = on_line s1 i" for i using f(1,2) touchesD(6) [OF d(1)] by simp
  have ok: "screen_ok s'" using d(2) f touchesD [OF d(1)] by (simp add: screen_ok_def)
  have "tracked T0 s'" using r(1) unfolding tracked_def D by (simp add: e' emit_def)
  moreover have "agree (tcell (display T0 s') i) (on_line s' i)" if "i < scr_lns s'" for i
    unfolding D r(2) ln using m that f(3) by (intro agree_after [of _ "on_line s i"]) auto
  moreover have "scrollcnt s' = 0" by (simp add: e')
  ultimately have "synced T0 s'" using ok by (simp add: synced_def)
  moreover have "shows_picture T0 s' s" unfolding shows_picture_def D r(2) using m by blast
  ultimately show ?thesis by blast
qed

lemma screen_okI:
  assumes "screen_ok s" and "picture s' = picture s" "t_lines s' = t_lines s" "t_columns s' = t_columns s" "dumb_term s' = dumb_term s"
  shows "screen_ok s'"
  using assms by (simp add: screen_ok_def scr_lns_def)

lemma redoscr_shows:
  assumes ok: "screen_ok s"
  shows "shows_picture T0 (redoscr s) s \<and> synced T0 (redoscr s)"
proof -
  define s1 where "s1 = (emit Cls s)\<lparr>tc_col := 0, tc_line := 0\<rparr>"
  define s2 where "s2 = fold redo_line [0..<scr_lns s1] s1"
  have f: "scr_lns s1 = scr_lns s" "row s1 = row s" "picture s1 = picture s" by (simp_all add: s1_def emit_def scr_lns_def row_def fun_eq_iff)
  have D: "display T0 s1 = \<lparr>trow = 0, tcol = 0, tcell = (\<lambda>r c. SP)\<rparr>" by (simp add: s1_def display_frame)
  have "screen_ok s1" by (rule screen_okI [OF ok]) (simp_all add: s1_def emit_def)
  moreover have "tracked T0 s1" by (simp add: tracked_def D) (simp add: s1_def)
  ultimately have d: "all_drawn T0 s1 s2" unfolding s2_def by (rule all_redone) (simp add: D)
  have e: "redoscr s = (settle s2)\<lparr>docls := False, scrollcnt := 0\<rparr>"
    using ok unfolding redoscr_def settle_def Let_def s1_def [symmetric] s2_def f(1) by (simp add: screen_ok_def emit_def)
  have "shows_picture T0 (redoscr s) s1 \<and> synced T0 (redoscr s)" by (rule settled [OF d e])
  then show ?thesis by (simp add: shows_picture_def f)
qed

lemma refresh_shows:
  assumes sy: "synced T0 s" and a: "\<not> ahead s"
  shows "shows_picture T0 (refresh s) s \<and> synced T0 (refresh s)"
proof (cases "docls s \<or> int (scr_lns s) - 3 \<le> \<bar>scrollcnt s\<bar>")
  case True
  then have "refresh s = redoscr s" using a by (simp add: refresh_def)
  then show ?thesis using redoscr_shows sy by (simp add: synced_def)
next
  case False
  then have s: "screen_ok s" "scrollcnt s = 0" "tracked T0 s" "\<forall>i < scr_lns s. agree (tcell (display T0 s) i) (on_line s i)"
    using sy by (auto simp: synced_def)
  define s1 where "s1 = fold refresh_line [0..<scr_lns s] s"
  have ad: "all_drawn T0 s s1" unfolding s1_def by (rule all_refreshed [OF s(1,3,4)])
  then have d: "touches s s1" "tracked T0 s1" by (simp_all add: all_drawn_def)
  have u: "scroll_down (scroll_up s) = s" using s(2) by (simp add: scroll_up_def scroll_down_def)
  have "docls s1 = False" "scrollcnt s1 = 0" using touchesD(9,10) [of s s1] d False s(2) by auto
  then have "(settle s1)\<lparr>docls := False, scrollcnt := 0\<rparr> = settle s1"
    using rel_move_any [of T0 s1 "cur_col s1" "cur_ln s1"] d by (auto simp: settle_def emit_def touches_def)
  moreover have "refresh s = settle s1" using False a unfolding refresh_def Let_def u s1_def settle_def by simp
  ultimately have "refresh s = (settle s1)\<lparr>docls := False, scrollcnt := 0\<rparr>" by simp
  from settled [OF ad this] show ?thesis .
qed

end
