(* ===== verification/ScreenDraw.thy ===== *)
theory ScreenDraw
  imports ScreenSync
begin

text \<open>
  Drawing keeps the terminal within reach of \<open>refresh\<close>, as long as nothing is drawn behind the end of a
  line that has been shortened since the last \<open>refresh\<close>: the columns in between are never sent.
\<close>

section \<open>Changing the current line\<close>

lemma length_blanks [simp]: "length (blanks i j d) = length d"
  by (simp add: blanks_def)

lemma nth_blanks: "k < length d \<Longrightarrow> blanks i j d ! k = (if i \<le> k \<and> k < j then SP else d ! k)"
  by (simp add: blanks_def)

lemma SP_printable: "isprint2 SP" "isprint2 STAR"
  by (simp_all add: isprint2_def cval_def)

text \<open>No column behind the end of a shortened line is skipped; so many columns are left.\<close>

definition tidy :: "screen \<Rightarrow> bool" where
  "tidy s \<longleftrightarrow> cur_col s \<le> slen (cur_line s) \<or> oldlen (cur_line s) \<le> slen (cur_line s)"

definition fits :: "nat \<Rightarrow> screen \<Rightarrow> bool" where
  "fits n s \<longleftrightarrow> cur_col s + n < t_columns s"

text \<open>What a change of the line must keep.\<close>

definition keeps :: "nat \<Rightarrow> sline \<Rightarrow> sline \<Rightarrow> bool" where
  "keeps w l l' \<longleftrightarrow> (line_ok w l \<longrightarrow> line_ok w l') \<and> (\<forall>R. line_ok w l \<longrightarrow> agree R l \<longrightarrow> agree R l')"

lemma keeps_trans: "keeps w l l1 \<Longrightarrow> keeps w l1 l2 \<Longrightarrow> keeps w l l2"
  by (simp add: keeps_def)

lemma synced_set:
  assumes sy: "synced T0 s" and k: "keeps (t_columns s) (picture s ! j) l'" and j: "j < length (picture s)"
    and e: "s' = s\<lparr>picture := (picture s)[j := l'], standing := b, cur_col := c, cur_ln := y\<rparr>"
  shows "synced T0 s'"
proof -
  have ok: "screen_ok s" using sy by (simp add: synced_def)
  have lk: "line_ok (t_columns s) (picture s ! j)" using ok j by (simp add: screen_ok_def)
  have f: "scr_lns s' = scr_lns s" "row s' = row s" "t_lines s' = t_lines s" "t_columns s' = t_columns s" "dumb_term s' = dumb_term s"
      "docls s' = docls s" "scrollcnt s' = scrollcnt s" "display T0 s' = display T0 s" "tc_col s' = tc_col s" "tc_line s' = tc_line s"
    by (simp_all add: e scr_lns_def row_def fun_eq_iff display_frame)
  have "screen_ok s'" using ok k lk f unfolding screen_ok_def keeps_def
    by (auto simp: e dest!: set_update_subset_insert [THEN subsetD])
  moreover have "agree (tcell (display T0 s) i) (on_line s' i)" if "\<forall>i < scr_lns s. agree (tcell (display T0 s) i) (on_line s i)" "i < scr_lns s" for i
    using that k lk j unfolding f(2) by (cases "j = row s i") (auto simp: e keeps_def)
  moreover have "tracked T0 s' = tracked T0 s" by (simp add: tracked_def f)
  ultimately show ?thesis using sy f by (auto simp: synced_def)
qed

lemma synced_cur:
  assumes "synced T0 s" and "keeps (t_columns s) (cur_line s) l'" and "s' = (set_cur l' s)\<lparr>standing := b, cur_col := c, cur_ln := y\<rparr>"
  shows "synced T0 s'"
proof (rule synced_set [OF assms(1)])
  show "keeps (t_columns s) (picture s ! row s (cur_ln s)) l'" using assms(2) by (simp add: cur_line_def)
  show "row s (cur_ln s) < length (picture s)" using screen_okD(2) assms(1) by (simp add: synced_def)
qed (simp add: assms(3) set_cur_def)

section \<open>Each operation\<close>

lemma synced_move: "synced T0 s \<Longrightarrow> synced T0 (move_to y x s)"
proof -
  assume sy: "synced T0 s"
  have "move_to y x s = (set_cur (cur_line s) s)\<lparr>standing := standing s, cur_col := x mod 256, cur_ln := y mod 256\<rparr>"
    by (simp add: move_to_def set_cur_def cur_line_def)
  then show ?thesis using synced_cur [OF sy] by (simp add: keeps_def)
qed

lemma keeps_slen:
  assumes "c < w" and "c \<le> slen l"
  shows "keeps w l (l\<lparr>slen := c\<rparr>)"
  using assms by (auto simp: keeps_def line_ok_def agree_def)

lemma keeps_pad:
  assumes "c < w" and "slen l = c \<or> oldlen l \<le> slen l" and "slen l \<le> c" and "c \<le> j"
  shows "keeps w l (l\<lparr>sdata := blanks (slen l) j (sdata l), slen := c\<rparr>)"
  using assms SP_printable by (auto simp: keeps_def line_ok_def agree_def nth_blanks)

lemma keeps_marks: "keeps w l (l\<lparr>hilite := b\<rparr>)" "keeps w l (stop_standing c l)" "keeps w l (l\<lparr>sso := c, eso := c, hilite := True\<rparr>)"
  by (auto simp: keeps_def line_ok_def agree_def stop_standing_def)

lemma keeps_touch: "keeps w l (touch c l)"
  by (auto simp: keeps_def line_ok_def agree_def touch_def)

lemma nth_upd: "xs[i := x] ! k = (if i = k \<and> i < length xs then x else xs ! k)"
  by (cases "i < length xs") (auto simp: nth_list_update list_update_beyond)

lemma keeps_store:
  assumes "modified l" and "smod l \<le> c" and "c \<le> emod l" and "isprint2 x"
  shows "keeps w l (l\<lparr>sdata := (sdata l)[c := x]\<rparr>)"
  using assms by (auto simp: keeps_def line_ok_def agree_def nth_upd)

lemma put_cell_keeps:
  fixes l :: sline
  assumes "isprint2 ch" and "c + 1 < w" and "c \<le> slen l \<or> oldlen l \<le> slen l"
  defines "l1 \<equiv> (if slen l \<le> c then l\<lparr>sdata := (blanks (slen l) c (sdata l))[c := NUL], slen := c + 1\<rparr> else l)"
  defines "l2 \<equiv> (if sdata l1 ! c \<noteq> ch then touch c l1 else l1)"
  shows "keeps w l (l2\<lparr>sdata := (sdata l2)[c := ch]\<rparr>)"
proof (cases "slen l \<le> c")
  case False
  then have l1: "l1 = l" by (simp add: l1_def)
  show ?thesis
  proof (cases "sdata l ! c = ch")
    case True
    then have "l2 = l" "(sdata l)[c := ch] = sdata l" using l1 by (auto simp: l2_def)
    then show ?thesis by (simp add: keeps_def)
  next
    case no: False
    then have l2: "l2 = touch c l" using l1 by (simp add: l2_def)
    have "keeps w (touch c l) ((touch c l)\<lparr>sdata := (sdata (touch c l))[c := ch]\<rparr>)"
      by (rule keeps_store [OF _ _ _ assms(1)]) (auto simp: touch_def)
    then show ?thesis unfolding l2 using keeps_trans [OF keeps_touch] by blast
  qed
next
  case True
  have gap: "slen l = c \<or> oldlen l \<le> slen l" using assms(3) True by auto
  let ?d = "(blanks (slen l) c (sdata l))[c := NUL]"
  have l1: "l1 = l\<lparr>sdata := ?d, slen := c + 1\<rparr>" using True by (simp add: l1_def)
  show ?thesis
  proof (cases "line_ok w l")
    case ok: True
    then have len: "length (sdata l) = 256" "c < 256" using assms(2) by (auto simp: line_ok_def)
    then have "sdata l1 ! c = NUL" by (simp add: l1)
    then have l2: "l2 = touch c l1" using printable_not_nul [OF assms(1)] by (auto simp: l2_def)
    define l' where "l' = l2\<lparr>sdata := (sdata l2)[c := ch]\<rparr>"
    have d: "sdata l' = ?d[c := ch]" "slen l' = c + 1" "oldlen l' = oldlen l" "sso l' = sso l" "eso l' = eso l" "modified l'"
      by (simp_all add: l'_def l2 l1 touch_def)
    have m: "smod l' \<le> c" "c \<le> emod l'" "modified l \<longrightarrow> smod l' \<le> smod l \<and> emod l \<le> emod l'"
      by (auto simp: l'_def l2 l1 touch_def)
    have n: "sdata l' ! k = (if k = c then ch else if slen l \<le> k then SP else sdata l ! k)" if "k \<le> c" for k
      using that len unfolding d(1) by (auto simp: nth_upd nth_blanks)
    have pr: "isprint2 (sdata l' ! k)" if "k < c + 1" for k
      using that ok assms(1) SP_printable by (auto simp: n line_ok_def)
    have "length (sdata l') = 256" using len(1) by (simp add: d(1))
    then have "line_ok w l'" using ok assms(2) m(1,2) d(2-6) pr unfolding line_ok_def by auto
    moreover have "agree R l'" if "agree R l" for R
    proof -
      have "R k = sdata l' ! k" if "k < c + 1" "\<not> (smod l' \<le> k \<and> k \<le> emod l')" for k
      proof -
        have "k < c" using that m(1,2) by (cases "k = c") auto
        then show ?thesis using that m(3) gap \<open>agree R l\<close> unfolding agree_def by (auto simp: n)
      qed
      then show ?thesis using that d unfolding agree_def by auto
    qed
    ultimately show ?thesis by (simp add: keeps_def l'_def)
  qed (simp add: keeps_def)
qed

lemma next_ln_form: "\<exists>y. next_ln s = s\<lparr>cur_ln := y\<rparr>"
proof (cases "cur_ln s < scr_lns s")
  case True
  then show ?thesis by (auto simp: next_ln_def)
next
  case False
  then have "next_ln s = s\<lparr>cur_ln := cur_ln s\<rparr>" by (simp add: next_ln_def)
  then show ?thesis by blast
qed

lemma synced_next:
  assumes "synced T0 s" and "keeps (t_columns s) (cur_line s) l'"
  shows "synced T0 (next_ln ((set_cur l' s)\<lparr>standing := b, cur_col := c\<rparr>))"
proof -
  obtain y where "next_ln ((set_cur l' s)\<lparr>standing := b, cur_col := c\<rparr>) = (set_cur l' s)\<lparr>standing := b, cur_col := c, cur_ln := y\<rparr>"
    using next_ln_form [of "(set_cur l' s)\<lparr>standing := b, cur_col := c\<rparr>"] by auto
  then show ?thesis using synced_cur [OF assms] by simp
qed

lemma synced_cols: "synced T0 s \<Longrightarrow> t_columns s \<le> 256"
  using screen_okD(1) [of s 0] by (simp add: synced_def line_ok_def)

lemma synced_put_cell:
  assumes "synced T0 s" and "isprint2 ch" and "fits 1 s" and "tidy s"
  shows "synced T0 (put_cell ch s)"
proof -
  let ?c = "cur_col s" and ?l = "cur_line s"
  define l1 where "l1 = (if slen ?l \<le> ?c then ?l\<lparr>sdata := (blanks (slen ?l) ?c (sdata ?l))[?c := NUL], slen := ?c + 1\<rparr> else ?l)"
  define l2 where "l2 = (if sdata l1 ! ?c \<noteq> ch then touch ?c l1 else l1)"
  define l3 where "l3 = l2\<lparr>sdata := (sdata l2)[?c := ch]\<rparr>"
  have c: "?c + 1 < t_columns s" "(?c + 1) mod 256 = ?c + 1" using assms(3) synced_cols [OF assms(1)] by (auto simp: fits_def)
  have k: "keeps (t_columns s) ?l l3"
    unfolding l3_def l2_def l1_def by (rule put_cell_keeps [OF assms(2) c(1)]) (use assms(4) in \<open>simp add: tidy_def\<close>)
  have e: "put_cell ch s = (if scr_cols s \<le> ?c + 1 then
           if standing s \<and> hilite l3 then next_ln ((set_cur (stop_standing (?c + 1) l3) s)\<lparr>standing := False, cur_col := 0\<rparr>)
           else next_ln ((set_cur l3 s)\<lparr>cur_col := 0\<rparr>)
         else (set_cur l3 s)\<lparr>cur_col := ?c + 1\<rparr>)"
    unfolding put_cell_def Let_def c(2) l1_def [symmetric] l2_def [symmetric] l3_def [symmetric] by (rule refl)
  have st: "keeps (t_columns s) ?l (stop_standing (?c + 1) l3)" using keeps_trans [OF k] keeps_marks(2) by blast
  have e1: "(set_cur l3 s)\<lparr>cur_col := 0\<rparr> = (set_cur l3 s)\<lparr>standing := standing s, cur_col := 0\<rparr>" by (simp add: set_cur_def)
  have e2: "(set_cur l3 s)\<lparr>cur_col := ?c + 1\<rparr> = (set_cur l3 s)\<lparr>standing := standing s, cur_col := ?c + 1, cur_ln := cur_ln s\<rparr>"
    by (simp add: set_cur_def)
  have "synced T0 (next_ln ((set_cur l3 s)\<lparr>cur_col := 0\<rparr>))" by (subst e1) (rule synced_next [OF assms(1) k])
  moreover have "synced T0 ((set_cur l3 s)\<lparr>cur_col := ?c + 1\<rparr>)" by (subst e2) (rule synced_cur [OF assms(1) k refl])
  ultimately show ?thesis using synced_next [OF assms(1) st] unfolding e by simp
qed

lemma synced_newline:
  assumes "synced T0 s" and "fits 0 s" and "tidy s"
  shows "synced T0 (newline s)"
proof -
  let ?c = "cur_col s" and ?l = "cur_line s"
  define l1 where "l1 = (if standing s then stop_standing ?c ?l else ?l)"
  define l2 where "l2 = (if slen l1 < ?c then l1\<lparr>sdata := blanks (slen l1) (?c + 1) (sdata l1)\<rparr> else l1)"
  have l1: "slen l1 = slen ?l" "oldlen l1 = oldlen ?l" "keeps (t_columns s) ?l l1"
    using keeps_marks(2) by (auto simp: l1_def stop_standing_def keeps_def)
  have c: "?c < t_columns s" using assms(2) by (simp add: fits_def)
  have "keeps (t_columns s) l1 (l2\<lparr>slen := ?c\<rparr>)"
  proof (cases "slen l1 < ?c")
    case True
    then show ?thesis using keeps_pad [OF c, of l1 "?c + 1"] assms(3) l1 by (simp add: l2_def tidy_def)
  next
    case False
    then show ?thesis using keeps_slen [OF c, of l1] by (simp add: l2_def)
  qed
  then have k: "keeps (t_columns s) ?l (l2\<lparr>slen := ?c\<rparr>)" using keeps_trans [OF l1(3)] by blast
  have "newline s = next_ln ((set_cur (l2\<lparr>slen := ?c\<rparr>) s)\<lparr>standing := False, cur_col := 0\<rparr>)"
    unfolding newline_def Let_def l1_def [symmetric] l2_def [symmetric] by (rule refl)
  then show ?thesis using synced_next [OF assms(1) k] by simp
qed

lemma synced_clrtoeol:
  assumes "synced T0 s" and "fits 0 s" and "tidy s"
  shows "synced T0 (clrtoeol s)"
proof -
  let ?c = "cur_col s" and ?l = "cur_line s"
  define l1 where "l1 = (if ?c \<le> sso ?l then ?l\<lparr>hilite := False\<rparr> else ?l)"
  define l2 where "l2 = (if oldlen l1 < ?c \<and> slen l1 < ?c then l1\<lparr>sdata := blanks (slen l1) (?c + 1) (sdata l1)\<rparr> else l1)"
  have l1: "slen l1 = slen ?l" "oldlen l1 = oldlen ?l" "keeps (t_columns s) ?l l1"
    using keeps_marks(1) by (auto simp: l1_def keeps_def)
  have c: "?c < t_columns s" using assms(2) by (simp add: fits_def)
  have d: "\<not> dumb_term s" using assms(1) by (simp add: synced_def screen_ok_def)
  have "keeps (t_columns s) l1 (l2\<lparr>slen := ?c\<rparr>)"
  proof (cases "slen l1 < ?c")
    case True
    then show ?thesis using keeps_pad [OF c, of l1 "?c + 1"] assms(3) l1 by (simp add: l2_def tidy_def)
  next
    case False
    then show ?thesis using keeps_slen [OF c, of l1] by (simp add: l2_def)
  qed
  then have k: "keeps (t_columns s) ?l (l2\<lparr>slen := ?c\<rparr>)" using keeps_trans [OF l1(3)] by blast
  have "clrtoeol s = set_cur (l2\<lparr>slen := ?c\<rparr>) (s\<lparr>standing := False\<rparr>)"
    unfolding clrtoeol_def Let_def l1_def [symmetric] l2_def [symmetric] using d by simp
  also have "\<dots> = (set_cur (l2\<lparr>slen := ?c\<rparr>) s)\<lparr>standing := False, cur_col := ?c, cur_ln := cur_ln s\<rparr>" by (simp add: set_cur_def row_def scr_lns_def)
  finally show ?thesis using synced_cur [OF assms(1) k] by simp
qed

lemma synced_standout: "synced T0 s \<Longrightarrow> synced T0 (standout s)"
proof -
  assume sy: "synced T0 s"
  let ?l = "(cur_line s)\<lparr>sso := cur_col s, eso := cur_col s, hilite := True\<rparr>"
  have e: "(set_cur ?l s)\<lparr>standing := True\<rparr> = (set_cur ?l s)\<lparr>standing := True, cur_col := cur_col s, cur_ln := cur_ln s\<rparr>" by (simp add: set_cur_def)
  have "synced T0 ((set_cur ?l s)\<lparr>standing := True\<rparr>)" by (subst e) (rule synced_cur [OF sy keeps_marks(3) refl])
  then show ?thesis using sy by (simp add: standout_def)
qed

lemma synced_standend: "synced T0 s \<Longrightarrow> synced T0 (standend s)"
proof -
  assume sy: "synced T0 s"
  let ?l = "stop_standing (cur_col s) (cur_line s)"
  have e: "(set_cur ?l s)\<lparr>standing := False\<rparr> = (set_cur ?l s)\<lparr>standing := False, cur_col := cur_col s, cur_ln := cur_ln s\<rparr>" by (simp add: set_cur_def)
  have "synced T0 ((set_cur ?l s)\<lparr>standing := False\<rparr>)" by (subst e) (rule synced_cur [OF sy keeps_marks(2) refl])
  then show ?thesis using sy by (simp add: standend_def)
qed

lemma synced_clear:
  assumes "synced T0 s"
  shows "synced T0 (clear_scr s)"
proof -
  have ok: "screen_ok s" using assms by (simp add: synced_def)
  have w: "line_ok w ((wipe l)\<lparr>oldlen := 0\<rparr>)" if "line_ok w l" for w l using that by (auto simp: line_ok_def wipe_def)
  have "\<forall>l\<in>set (picture (clear_scr s)). line_ok (t_columns s) l"
    using ok w by (auto simp: clear_scr_def move_to_def screen_ok_def dest!: in_set_takeD in_set_dropD)
  moreover have "length (picture (clear_scr s)) = length (picture s)" by (auto simp: clear_scr_def move_to_def)
  ultimately have "screen_ok (clear_scr s)" using ok
    by (auto simp: screen_ok_def scr_lns_def clear_scr_def move_to_def)
  moreover have "docls (clear_scr s)" using ok by (simp add: clear_scr_def move_to_def screen_ok_def)
  ultimately show ?thesis by (simp add: synced_def)
qed

lemma synced_bot_line: "synced T0 s \<Longrightarrow> synced T0 (bot_line i s)"
proof -
  assume sy: "synced T0 s"
  let ?l = "on_line s i"
  let ?l' = "if 0 < oldlen (wipe ?l) then (wipe ?l)\<lparr>oldlen := 255\<rparr> else wipe ?l"
  have k: "keeps (t_columns s) ?l ?l'" by (auto simp: keeps_def line_ok_def agree_def wipe_def)
  have "bot_line i s = s\<lparr>picture := (picture s)[row s i := ?l'], standing := standing s, cur_col := cur_col s, cur_ln := cur_ln s\<rparr>"
    by (simp add: bot_line_def Let_def)
  moreover have "row s i < length (picture s)" using screen_okD(2) sy by (simp add: synced_def)
  ultimately show ?thesis using synced_set [OF sy k] by metis
qed

lemma synced_clrtobot: "synced T0 s \<Longrightarrow> synced T0 (clrtobot s)"
proof -
  have "synced T0 s \<Longrightarrow> synced T0 (fold bot_line is s)" for "is" s
    by (induction "is" arbitrary: s) (simp_all add: synced_bot_line)
  then show "synced T0 s \<Longrightarrow> synced T0 (clrtobot s)" by (simp add: clrtobot_def)
qed

lemma synced_outc:
  assumes "synced T0 s" and "fits 1 s" and "tidy s" and "c \<noteq> KEY_ESC"
  shows "synced T0 (outc c s)"
proof -
  have d: "\<not> dumb_term s" using assms(1) by (simp add: synced_def screen_ok_def)
  have "fits 0 s" using assms(2) by (simp add: fits_def)
  moreover have "synced T0 (s\<lparr>inansi := b\<rparr>)" for b
    using assms(1) by (simp add: synced_def screen_ok_def scr_lns_def tracked_def display_def row_def)
  ultimately show ?thesis
    using d assms synced_newline [OF assms(1) _ assms(3)] synced_put_cell [OF assms(1) _ assms(2,3)] SP_printable
    by (auto simp: outc_def)
qed

section \<open>Text\<close>

lemma put_run_all:
  "c + length w \<le> cols \<Longrightarrow> c + length w < 256 \<Longrightarrow> c + length w \<le> length d \<Longrightarrow>
    put_run cols w d c = (take c d @ w @ drop (c + length w) d, c + length w)"
proof (induction w arbitrary: c d)
  case (Cons x w)
  then have "put_run cols (x # w) d c = put_run cols w (d[c := x]) (c + 1)" by simp
  also have "\<dots> = (take (c + 1) (d[c := x]) @ w @ drop (c + 1 + length w) (d[c := x]), c + 1 + length w)"
    using Cons.prems by (intro Cons.IH) auto
  also have "take (c + 1) (d[c := x]) = take c d @ [x]" using Cons.prems take_Suc_update [of c d x] by simp
  finally show ?case using Cons.prems by simp
qed simp

lemma cur_line_set [simp]:
  assumes "picture s \<noteq> []"
  shows "cur_line (set_cur l s) = l" "set_cur l' (set_cur l s) = set_cur l' s"
  using row_less [OF assms, of "cur_ln s"] by (simp_all add: cur_line_def set_cur_def row_def scr_lns_def)

definition padded :: "nat \<Rightarrow> sline \<Rightarrow> sline" where
  "padded c l = (if slen l \<le> c then l\<lparr>sdata := blanks (slen l) (c + 1) (sdata l), slen := c\<rparr> else l)"

lemma pad_cur_padded:
  assumes "picture s \<noteq> []"
  shows "pad_cur s = set_cur (padded (cur_col s) (cur_line s)) s"
proof -
  have "set_cur (cur_line s) s = s" by (simp add: set_cur_def cur_line_def)
  then show ?thesis by (simp add: pad_cur_def padded_def Let_def)
qed

lemma keeps_padded:
  assumes "c < w" and "c \<le> slen l \<or> oldlen l \<le> slen l"
  shows "keeps w l (padded c l)"
proof (cases "slen l \<le> c")
  case True
  then show ?thesis using keeps_pad [OF assms(1), of l "c + 1"] assms(2) by (auto simp: padded_def)
next
  case False
  then show ?thesis by (simp add: padded_def keeps_def)
qed

text \<open>The line with a run of characters written at column \<open>c\<close>.\<close>

definition printed :: "nat \<Rightarrow> string \<Rightarrow> sline \<Rightarrow> sline" where
  "printed c w l = (let l1 = start_mod c l in end_run (c + length w) (l1\<lparr>sdata := take c (sdata l1) @ w @ drop (c + length w) (sdata l1)\<rparr>))"

lemma printed_simps:
  assumes "w \<noteq> []"
  shows "sdata (printed c w l) = take c (sdata l) @ w @ drop (c + length w) (sdata l)"
    "slen (printed c w l) = (if slen l < c + length w then c + length w else slen l)"
    "oldlen (printed c w l) = oldlen l" "sso (printed c w l) = sso l" "eso (printed c w l) = eso l"
    "modified (printed c w l)" "smod (printed c w l) \<le> c" "c + length w \<le> emod (printed c w l) + 1"
    "modified l \<Longrightarrow> smod (printed c w l) \<le> smod l \<and> emod l \<le> emod (printed c w l)"
proof -
  have "0 < length w" using assms by simp
  then show "c + length w \<le> emod (printed c w l) + 1" "smod (printed c w l) \<le> c" by (auto simp: printed_def start_mod_def end_run_def Let_def)
  show "modified l \<Longrightarrow> smod (printed c w l) \<le> smod l \<and> emod l \<le> emod (printed c w l)"
    by (auto simp: printed_def start_mod_def end_run_def Let_def)
qed (simp_all add: printed_def start_mod_def end_run_def Let_def)

lemma printed_nth:
  assumes "w \<noteq> []" and "c + length w \<le> length (sdata l)" and "k < length (sdata l)"
  shows "sdata (printed c w l) ! k = (if c \<le> k \<and> k < c + length w then w ! (k - c) else sdata l ! k)"
  using assms by (auto simp: printed_simps nth_append)

lemma keeps_printed:
  assumes "w \<noteq> []" and "c + length w < n" and "c \<le> slen l" and "\<forall>x\<in>set w. isprint2 x"
  shows "keeps n l (printed c w l)"
proof (cases "line_ok n l")
  case True
  define l' where "l' = printed c w l"
  have len: "length (sdata l) = 256" "c + length w < 256" using True assms(2) by (auto simp: line_ok_def)
  have f: "length (sdata l') = 256" "slen l' = (if slen l < c + length w then c + length w else slen l)" "oldlen l' = oldlen l" "sso l' = sso l" "eso l' = eso l"
      "modified l'" "smod l' \<le> c" "c + length w \<le> emod l' + 1" "modified l \<longrightarrow> smod l' \<le> smod l \<and> emod l \<le> emod l'"
    using printed_simps [OF assms(1), where c = c and l = l] len by (auto simp: l'_def)
  have d: "sdata l' ! k = (if c \<le> k \<and> k < c + length w then w ! (k - c) else sdata l ! k)" if "k < 256" for k
    using printed_nth [OF assms(1), of c l k] that len by (simp add: l'_def)
  have "0 < length w" using assms(1) by simp
  then have m: "smod l' \<le> emod l'" using f(7,8) by linarith
  have s: "slen l' < n" "slen l' < 256" using f(2) assms(2) True by (auto simp: line_ok_def)
  have "isprint2 (sdata l' ! k)" if "k < slen l'" for k
  proof -
    have "w ! (k - c) \<in> set w" if "c \<le> k" "k < c + length w" using that by (intro nth_mem) simp
    then show ?thesis using that s(2) f(2) True assms(3,4) d [of k] unfolding line_ok_def by (auto split: if_splits)
  qed
  then have "line_ok n l'" using True f m s(1) unfolding line_ok_def by auto
  moreover have "agree R l'" if "agree R l" for R
  proof -
    have "R k = sdata l' ! k" if "k < slen l'" "\<not> (smod l' \<le> k \<and> k \<le> emod l')" for k
    proof -
      have "\<not> (c \<le> k \<and> k < c + length w)" using that(2) f(7,8) by auto
      moreover have "k < slen l" using that calculation f(2) assms(3) by (auto split: if_splits)
      ultimately show ?thesis using that \<open>agree R l\<close> f(9) d [of k] s(2) unfolding agree_def by auto
    qed
    then show ?thesis using that f(3,6) unfolding agree_def by auto
  qed
  ultimately show ?thesis by (simp add: keeps_def l'_def)
qed (simp add: keeps_def)

lemma outs_printable:
  assumes "t \<noteq> []" and "\<forall>x\<in>set t. isprint2 x" and "length t \<le> 4096" and "\<not> dumb_term s" and "picture s \<noteq> []"
  shows "outs t s = Some (print_run t (pad_cur s))"
proof -
  have "isprint2 (t ! 0)" using assms(1,2) by (cases t) auto
  moreover have "takeWhile isprint2 (take (4096 - 0) (drop 0 t)) = t" using assms(2,3) by simp
  ultimately have tn: "outns_turn t 4096 0 None s = Some (length t - 1, None, print_run t (pad_cur s))"
    by (simp only: outns_turn_def Let_def if_True)
  have "0 + (length t - 1) + 1 = length t" using assms(1) by simp
  then have "outns_loop t 4096 0 None s = outns_loop t 4096 (length t) None (print_run t (pad_cur s))"
    using tn assms(1) by (subst outns_loop.simps) simp
  also have "\<dots> = Some (print_run t (pad_cur s))" by (subst outns_loop.simps) simp
  finally show ?thesis using assms(4,5) by (simp add: outs_def outns_def)
qed

lemma print_run_printed:
  assumes "picture s \<noteq> []" and "t \<noteq> []" and "cur_col s + length t \<le> scr_cols s" and "cur_col s + length t < 256"
    and "length (sdata (cur_line s)) = 256"
  shows "print_run t (pad_cur s) = (set_cur (printed (cur_col s) t (padded (cur_col s) (cur_line s))) s)\<lparr>cur_col := cur_col s + length t\<rparr>"
proof -
  let ?c = "cur_col s" and ?l = "padded (cur_col s) (cur_line s)"
  have p: "pad_cur s = set_cur ?l s" by (rule pad_cur_padded [OF assms(1)])
  have c: "cur_line (set_cur ?l s) = ?l" "cur_col (set_cur ?l s) = ?c" "scr_cols (set_cur ?l s) = scr_cols s"
    using assms(1) by simp_all (simp_all add: set_cur_def)
  have "length (sdata (start_mod ?c ?l)) = 256" using assms(5) by (simp add: start_mod_def padded_def)
  then have "put_run (scr_cols s) t (sdata (start_mod ?c ?l)) ?c =
      (take ?c (sdata (start_mod ?c ?l)) @ t @ drop (?c + length t) (sdata (start_mod ?c ?l)), ?c + length t)"
    using assms(3,4) by (intro put_run_all) auto
  then show ?thesis using assms(1) unfolding print_run_def p c Let_def by (simp add: printed_def Let_def)
qed

lemma synced_outs:
  assumes "synced T0 s" and "fits (length t) s" and "tidy s" and "t \<noteq> []" and "\<forall>x\<in>set t. isprint2 x" and "cur_col s + length t \<le> scr_cols s"
  defines "l' \<equiv> printed (cur_col s) t (padded (cur_col s) (cur_line s))"
  shows "outs t s = Some ((set_cur l' s)\<lparr>cur_col := cur_col s + length t\<rparr>) \<and> synced T0 ((set_cur l' s)\<lparr>cur_col := cur_col s + length t\<rparr>)"
proof -
  let ?c = "cur_col s" and ?l = "cur_line s"
  have ok: "screen_ok s" using assms(1) by (simp add: synced_def)
  then have p: "picture s \<noteq> []" "\<not> dumb_term s" by (simp_all add: screen_ok_def)
  have w: "?c + length t < t_columns s" "t_columns s \<le> 256" using assms(2) synced_cols [OF assms(1)] by (simp_all add: fits_def)
  have lk: "line_ok (t_columns s) ?l" using screen_okD(1) [OF ok, of "cur_ln s"] by (simp add: cur_line_def)
  have "length (sdata ?l) = 256" using lk by (simp add: line_ok_def)
  then have o: "outs t s = Some ((set_cur l' s)\<lparr>cur_col := ?c + length t\<rparr>)"
    using outs_printable [OF assms(4,5) _ p(2,1)] print_run_printed [OF p(1) assms(4,6)] w unfolding l'_def by simp
  have "?c \<le> slen (padded ?c ?l)" by (simp add: padded_def)
  then have "keeps (t_columns s) (padded ?c ?l) l'" unfolding l'_def using keeps_printed [OF assms(4) w(1) _ assms(5)] by blast
  moreover have "keeps (t_columns s) ?l (padded ?c ?l)" using keeps_padded [of ?c "t_columns s" ?l] w assms(3) by (simp add: tidy_def)
  ultimately have k: "keeps (t_columns s) ?l l'" using keeps_trans by blast
  have "(set_cur l' s)\<lparr>cur_col := ?c + length t\<rparr> = (set_cur l' s)\<lparr>standing := standing s, cur_col := ?c + length t, cur_ln := cur_ln s\<rparr>"
    by (simp add: set_cur_def)
  then have "synced T0 ((set_cur l' s)\<lparr>cur_col := ?c + length t\<rparr>)" using synced_cur [OF assms(1) k refl] by metis
  then show ?thesis using o by blast
qed

lemma synced_outs_newline:
  assumes "synced T0 s" and "fits 0 s" and "tidy s" and "outs [LF] s = Some s'"
  shows "synced T0 s'"
proof -
  let ?c = "cur_col s" and ?l = "cur_line s"
  have ok: "screen_ok s" using assms(1) by (simp add: synced_def)
  then have p: "picture s \<noteq> []" "\<not> dumb_term s" by (simp_all add: screen_ok_def)
  define q where "q = padded ?c ?l"
  have pc: "pad_cur s = set_cur q s" unfolding q_def by (rule pad_cur_padded [OF p(1)])
  have ne: "\<not> isprint2 LF" by (simp add: isprint2_def cval_def)
  have "outns_loop [LF] 4096 0 None s = Some (text_newline (pad_cur s))"
    using ne by (simp add: outns_loop.simps [of "[LF]" 4096 0] outns_loop.simps [of "[LF]" 4096 "Suc 0"] outns_turn_def)
  then have s': "s' = text_newline (set_cur q s)" using assms(4) p pc by (simp add: outs_def outns_def)
  have cq: "cur_line (set_cur q s) = q" "cur_col (set_cur q s) = ?c" "standing (set_cur q s) = standing s" "\<And>l. set_cur l (set_cur q s) = set_cur l s"
    using p(1) by simp_all (simp_all add: set_cur_def)
  define l1 where "l1 = (if standing s \<and> hilite q then stop_standing ?c q else q)"
  have "s' = next_ln ((set_cur (l1\<lparr>slen := ?c\<rparr>) s)\<lparr>standing := (standing s \<and> \<not> hilite q), cur_col := 0\<rparr>)"
    unfolding s' text_newline_def Let_def cq l1_def by (rule refl)
  moreover have "keeps (t_columns s) ?l (l1\<lparr>slen := ?c\<rparr>)"
  proof -
    have c: "?c < t_columns s" using assms(2) by (simp add: fits_def)
    have "keeps (t_columns s) ?l q" unfolding q_def using keeps_padded [OF c] assms(3) by (simp add: tidy_def)
    moreover have "keeps (t_columns s) q l1" using keeps_marks(2) by (auto simp: l1_def keeps_def)
    moreover have "?c \<le> slen l1" by (simp add: l1_def q_def padded_def stop_standing_def)
    ultimately show ?thesis using keeps_slen [OF c] keeps_trans by metis
  qed
  ultimately show ?thesis using synced_next [OF assms(1)] by simp
qed

section \<open>Sessions of drawing\<close>

inductive draws :: "screen \<Rightarrow> screen \<Rightarrow> bool" for s0 where
  d_start: "draws s0 s0"
| d_move: "draws s0 s \<Longrightarrow> draws s0 (move_to y x s)"
| d_outc: "draws s0 s \<Longrightarrow> tidy s \<Longrightarrow> fits 1 s \<Longrightarrow> c \<noteq> KEY_ESC \<Longrightarrow> draws s0 (outc c s)"
| d_outs: "draws s0 s \<Longrightarrow> tidy s \<Longrightarrow> fits (length t) s \<Longrightarrow> cur_col s + length t \<le> scr_cols s \<Longrightarrow> t \<noteq> [] \<Longrightarrow> \<forall>c\<in>set t. isprint2 c \<Longrightarrow>
    outs t s = Some s' \<Longrightarrow> draws s0 s'"
| d_newline: "draws s0 s \<Longrightarrow> tidy s \<Longrightarrow> fits 0 s \<Longrightarrow> outs [LF] s = Some s' \<Longrightarrow> draws s0 s'"
| d_clrtoeol: "draws s0 s \<Longrightarrow> tidy s \<Longrightarrow> fits 0 s \<Longrightarrow> draws s0 (clrtoeol s)"
| d_clrtobot: "draws s0 s \<Longrightarrow> draws s0 (clrtobot s)"
| d_clear: "draws s0 s \<Longrightarrow> draws s0 (clear_scr s)"
| d_standout: "draws s0 s \<Longrightarrow> draws s0 (standout s)"
| d_standend: "draws s0 s \<Longrightarrow> draws s0 (standend s)"
| d_refresh: "draws s0 s \<Longrightarrow> draws s0 (refresh s)"

lemma synced_refresh: "synced T0 s \<Longrightarrow> synced T0 (refresh s)"
  using refresh_shows [of T0 s] by (cases "ahead s") (simp_all add: refresh_def)

lemma draws_synced:
  assumes "draws s0 s" and "synced T0 s0"
  shows "synced T0 s"
  using assms
proof (induction rule: draws.induct)
  case (d_outs s t s')
  then show ?case using synced_outs [of T0 s t] by simp
next
  case (d_newline s s')
  then show ?case using synced_outs_newline by blast
qed (simp_all add: synced_move synced_outc synced_clrtoeol synced_clrtobot synced_clear synced_standout synced_standend synced_refresh)

text \<open>A terminal that is used for the first time.\<close>

lemma initscr_synced:
  assumes "picture s = []" and "\<not> dumb_term s" and "0 < t_lines s" and "t_lines s < 256"
  shows "synced T0 (initscr s)"
proof -
  have "line_ok 255 blank_line" by (simp add: line_ok_def blank_line_def)
  then have "screen_ok (initscr s)" using assms
    by (simp add: initscr_def init_screen_def screen_ok_def scr_lns_def Let_def)
  then show ?thesis by (simp add: synced_def initscr_def init_screen_def Let_def)
qed

section \<open>Properties\<close>


definition new_screen :: screen where
  "new_screen = \<lparr>picture = [], scr_cols = 0, cur_ln = 0, cur_col = 0, roll = 0, scrollcnt = 0, docls = False, standing = False, inansi = False,
     disable_move = False, offsetln = 0, tc_col = 0, tc_line = 0, t_lines = 24, t_columns = 80, automargins = True, dumb_term = False,
     iscolor = True, showansi = True, has_standout = True, has_bc = False, ahead = False, slots = replicate 4 (replicate 256 NUL), tty_out = []\<rparr>"

definition garbage :: terminal where
  "garbage = \<lparr>trow = 7, tcol = 3, tcell = (\<lambda>r c. CHR ''#'')\<rparr>"

lemma print_run_sel:
  "ahead (print_run w s) = ahead s" "docls (print_run w s) = docls s" "ahead (pad_cur s) = ahead s" "docls (pad_cur s) = docls s"
  by (simp_all add: print_run_def pad_cur_def set_cur_def Let_def split_beta)

lemma ahead_sends: "ahead (emit t s) = ahead s" "ahead (rel_move a b c d s) = ahead s"
  by (simp_all add: emit_def rel_move_def Let_def)

lemma ahead_part: "ahead (send_part l a b s) = ahead s"
  by (simp add: send_part_def standoutput_def say_def Let_def ahead_sends)

lemma ahead_redo: "ahead (fold redo_line ks t) = ahead t"
proof (induction ks arbitrary: t)
  case (Cons k ks)
  have "ahead (redo_line k t) = ahead t" by (simp add: redo_line_def Let_def ahead_part ahead_sends)
  then show ?case using Cons by simp
qed simp




text \<open>
  C3. The cursor is moved up by subtraction in an unsigned character: moving up by more lines than there
  are leaves it far below the screen instead of on the first line.
\<close>
theorem cursor_up_wraps:
  assumes "0 < n" and "n < 10" and "cur_ln s < n" and "offsetln s = 0" and "iscolor s" and "showansi s" and "\<not> disable_move s" and "\<not> dumb_term s" and "picture s \<noteq> []"
  shows "\<exists>s1. outs [KEY_ESC, CHR ''['', char_of (48 + n), CHR ''A''] s = Some s1 \<and> cur_ln s1 = 256 + cur_ln s - n"
proof -
  let ?d = "char_of (48 + n) :: char" and ?t = "[KEY_ESC, CHR ''['', char_of (48 + n), CHR ''A'']"
  have d: "cval ?d = 48 + n" using assms(2) by simp
  have na: "\<not> is_alpha ?d" "?d \<noteq> KEY_ESC"
  proof -
    show "\<not> is_alpha ?d" using d assms(2) by (simp add: is_alpha_def)
    show "?d \<noteq> KEY_ESC"
    proof
      assume "?d = KEY_ESC"
      then have "cval ?d = cval KEY_ESC" by simp
      then show False using d by (simp add: cval_def)
    qed
  qed
  have dg: "is_digit ?d" "\<not> is_space ?d" "?d \<noteq> CHR 0x2D" "?d \<noteq> CHR 0x2B"
  proof -
    show "is_digit ?d" using d assms(2) by (simp add: is_digit_def)
    show "\<not> is_space ?d" using d by (simp add: is_space_def)
    show "?d \<noteq> CHR 0x2D" "?d \<noteq> CHR 0x2B" using d by (auto simp: cval_def dest!: arg_cong [of _ _ cval])
  qed
  have at: "atoi [?d] = int n" using dg d by (simp add: atoi_def decimal_def)
  have al: "\<not> is_alpha (CHR ''['')" "is_alpha (CHR ''A'')" "\<not> isprint2 KEY_ESC" by (simp_all add: is_alpha_def isprint2_def cval_def)
  define q where "q = pad_cur s"
  have q: "cur_ln q = cur_ln s" "offsetln q = 0" "iscolor q" "showansi q" "\<not> disable_move q"
    using assms(4-7) by (simp_all add: q_def pad_cur_def set_cur_def Let_def)
  have tw: "takeWhile (\<lambda>c. \<not> is_alpha c \<and> c \<noteq> KEY_ESC) (drop 1 ?t) = [CHR ''['', ?d]" using na al by simp
  have cu: "esc_cursor (CHR ''A'') [KEY_ESC, CHR ''['', ?d] q = Some (q\<lparr>cur_ln := 256 + cur_ln s - n\<rparr>)"
  proof -
    have "(int (cur_ln s) - int n) mod 256 = (int (cur_ln s) - int n + 256) mod 256" by simp
    also have "\<dots> = int (cur_ln s) - int n + 256" using assms(2,3) by (intro mod_pos_pos_trivial) auto
    finally have "(int (cur_ln s) - int n) mod 256 = int (cur_ln s) - int n + 256" .
    then have "uchar (int (cur_ln s) - int n) = 256 + cur_ln s - n" by (simp add: uchar_def)
    then show ?thesis using q at by (simp add: esc_cursor_def Let_def)
  qed
  have "outns_turn ?t 4096 0 None s = Some (3, None, q\<lparr>cur_ln := 256 + cur_ln s - n\<rparr>)"
    using cu q al tw by (simp add: outns_turn_def outns_esc_def Let_def q_def [symmetric] cget_def)
  then have "outns_loop ?t 4096 0 None s = Some (q\<lparr>cur_ln := 256 + cur_ln s - n\<rparr>)"
    by (simp add: outns_loop.simps [of ?t 4096 0] outns_loop.simps [of ?t 4096 4])
  then show ?thesis using assms(8,9) by (simp add: outs_def outns_def)
qed

theorem cursor_up_wraps_witness:
  "\<exists>s1. outs [KEY_ESC, CHR ''['', char_of (48 + 5 :: nat), CHR ''A''] (move_to 2 0 (initscr new_screen)) = Some s1 \<and> cur_ln s1 = 256 + 2 - 5"
proof -
  let ?s = "move_to 2 0 (initscr new_screen)"
  have "cur_ln ?s = 2" "offsetln ?s = 0" "iscolor ?s" "showansi ?s" "\<not> disable_move ?s" "\<not> dumb_term ?s" "picture ?s \<noteq> []"
    by (simp_all add: move_to_def initscr_def init_screen_def new_screen_def Let_def scr_lns_def)
  then show ?thesis using cursor_up_wraps [of 5 ?s] by simp
qed

section \<open>Where the terminal is not brought up to date\<close>

text \<open>Five lines, the first of which shows \<open>abc\<close>; the cursor of the terminal is on the last line.\<close>

definition shown_abc :: screen where
  "shown_abc = new_screen\<lparr>picture := (blank_line\<lparr>oldlen := 3, slen := 3, sdata := ''abc'' @ replicate 253 NUL\<rparr>) # replicate 4 blank_line,
     scr_cols := 255, t_columns := 255, t_lines := 5, tc_line := 4\<rparr>"

definition term_abc :: terminal where
  "term_abc = \<lparr>trow = 4, tcol = 0, tcell = (\<lambda>r c. if r = 0 \<and> c < 3 then ''abc'' ! c else SP)\<rparr>"

definition picture_cells :: "screen \<Rightarrow> nat \<Rightarrow> nat \<Rightarrow> string" where
  "picture_cells s i n = map (\<lambda>c. if c < slen (on_line s i) then sdata (on_line s i) ! c else SP) [0..<n]"

definition terminal_cells :: "screen \<Rightarrow> nat \<Rightarrow> nat \<Rightarrow> string" where
  "terminal_cells s i n = map (tcell (display term_abc s) i) [0..<n]"

text \<open>
  C4. Clearing a line and writing behind its beginning leaves the old text in the columns between: the
  picture has blanks there, but only the columns that were written are sent.
\<close>
theorem skipped_columns_keep_old_text:
  "synced term_abc shown_abc \<and>
    map_option (\<lambda>s. (picture_cells s 0 4, terminal_cells (refresh s) 0 4)) (outs ''x'' (move_to 0 2 (clrtoeol (move_to 0 0 shown_abc)))) =
      Some (''  x '', ''abx '')"
proof
  have l: "line_ok 255 (blank_line\<lparr>oldlen := 3, slen := 3, sdata := ''abc'' @ replicate 253 NUL\<rparr>)" "line_ok 255 blank_line"
    by (auto simp: line_ok_def blank_line_def less_Suc_eq isprint2_def cval_def eval_nat_numeral)
  have ok: "screen_ok shown_abc" using l by (simp add: screen_ok_def shown_abc_def new_screen_def scr_lns_def)
  have "display term_abc shown_abc = term_abc" by (simp add: display_def shown_abc_def new_screen_def)
  moreover have "agree (tcell term_abc i) (on_line shown_abc i)" if "i < 5" for i
  proof (cases i)
    case 0
    have "agree (tcell term_abc 0) (blank_line\<lparr>oldlen := 3, slen := 3, sdata := ''abc'' @ replicate 253 NUL\<rparr>)"
      by (auto simp: agree_def term_abc_def blank_line_def less_Suc_eq eval_nat_numeral)
    then show ?thesis using 0 by (simp add: shown_abc_def new_screen_def row_def scr_lns_def)
  next
    case (Suc k)
    have "on_line shown_abc i = blank_line" using Suc that by (simp add: shown_abc_def new_screen_def row_def scr_lns_def)
    then show ?thesis using Suc by (simp add: agree_def term_abc_def blank_line_def)
  qed
  ultimately show "synced term_abc shown_abc" using ok
    by (simp add: synced_def tracked_def) (simp add: shown_abc_def new_screen_def term_abc_def scr_lns_def)
  show "map_option (\<lambda>s. (picture_cells s 0 4, terminal_cells (refresh s) 0 4)) (outs ''x'' (move_to 0 2 (clrtoeol (move_to 0 0 shown_abc)))) =
      Some (''  x '', ''abx '')"
    by code_simp
qed

text \<open>
  C5. After scrolling the cursor of the terminal is put on the last line but one, while the program still
  believes it where it was: a text for the last line appears one line higher.
\<close>
theorem scrolled_text_is_misplaced:
  "map_option (\<lambda>s. (picture_cells s 3 2, picture_cells s 4 2, terminal_cells (refresh s) 3 2, terminal_cells (refresh s) 4 2))
      (Option.bind (scroll shown_abc) (outs ''x'')) = Some (''  '', ''x '', ''x '', ''  '')"
  by code_simp

text \<open>
  C6. A control character is shown as an asterisk, but the length of the line is not moved on: the
  next character makes it a blank.
\<close>
theorem control_character_is_lost:
  "map_option (\<lambda>s. picture_cells s 2 4) (outs [CHR ''a'', CHR 0x01, CHR ''b''] (move_to 2 0 shown_abc)) = Some ''a b ''"
  by code_simp

end
