(* ===== verification/ScreenWire.thy ===== *)
theory ScreenWire
  imports Screen
begin

text \<open>
  The symbols of src/screen.c as bytes: each is an \<open>output\<close>, an \<open>ochar\<close>, an \<open>oflush\<close> of src/io.c, or a
  sequence from the data base of terminals (src/term.c), which is a parameter.
\<close>

section \<open>Sending the symbols\<close>

record termcap =
  cap_cm :: "nat \<Rightarrow> nat \<Rightarrow> string"
  cap_bc :: string
  cap_cl :: string
  cap_ce :: string
  cap_so :: string
  cap_se :: string

fun ochars :: "string \<Rightarrow> outbuf \<Rightarrow> outbuf option" where
  "ochars [] ob = Some ob"
| "ochars (c # cs) ob = (case ochar (csval c) ob of None \<Rightarrow> None | Some o1 \<Rightarrow> ochars cs o1)"

fun send_item :: "termcap \<Rightarrow> tty \<Rightarrow> outbuf \<Rightarrow> outbuf option" where
  "send_item t (Say w k) ob = output_bytes w k ob"
| "send_item t (Tick c) ob = ochar c ob"
| "send_item t (Goto c r) ob = ochars (cap_cm t c r) ob"
| "send_item t Go_back ob = ochars (cap_bc t) ob"
| "send_item t Cls ob = output_bytes (cap_cl t) (length (cap_cl t)) ob"
| "send_item t Cleol ob = output_bytes (cap_ce t) (length (cap_ce t)) ob"
| "send_item t Standup ob = output_bytes (cap_so t) (length (cap_so t)) ob"
| "send_item t Standdown ob = output_bytes (cap_se t) (length (cap_se t)) ob"
| "send_item t Flush ob = oflush ob"

fun send_items :: "termcap \<Rightarrow> tty list \<Rightarrow> outbuf \<Rightarrow> outbuf option" where
  "send_items t [] ob = Some ob"
| "send_items t (x # xs) ob = (case send_item t x ob of None \<Rightarrow> None | Some o1 \<Rightarrow> send_items t xs o1)"

fun item_bytes :: "termcap \<Rightarrow> tty \<Rightarrow> string" where
  "item_bytes t (Say w k) = take k w"
| "item_bytes t (Tick c) = [char_of (nat (c mod 256))]"
| "item_bytes t (Goto c r) = cap_cm t c r"
| "item_bytes t Go_back = cap_bc t"
| "item_bytes t Cls = cap_cl t"
| "item_bytes t Cleol = cap_ce t"
| "item_bytes t Standup = cap_so t"
| "item_bytes t Standdown = cap_se t"
| "item_bytes t Flush = []"

definition item_ok :: "termcap \<Rightarrow> tty \<Rightarrow> bool" where
  "item_ok t x \<longleftrightarrow> length (item_bytes t x) \<le> OBUFSIZE \<and> x \<noteq> Flush \<and> (case x of Tick c \<Rightarrow> c \<noteq> 255 | _ \<Rightarrow> True)"

lemma csval_mod: "char_of (nat (csval c mod 256)) = c"
proof -
  have "csval c mod 256 = int (cval c)"
  proof -
    have "cval c < 256" by simp
    then show ?thesis by (auto simp: csval_def mod_pos_pos_trivial simp del: cval_less)
  qed
  then show ?thesis by (simp add: cval_def)
qed

lemma csval_ne_255: "csval c \<noteq> 255"
proof -
  have "cval c < 256" by simp
  then show ?thesis by (auto simp: csval_def simp del: cval_less)
qed

lemma ochars_stream:
  "outbuf_ok ob \<Longrightarrow> \<not> oconv ob \<Longrightarrow> \<exists>o'. ochars w ob = Some o' \<and> outbuf_ok o' \<and> \<not> oconv o' \<and> stream o' = stream ob @ w"
proof (induction w arbitrary: ob)
  case (Cons c w)
  obtain o1 where o1: "ochar (csval c) ob = Some o1" "outbuf_ok o1" "\<not> oconv o1" "stream o1 = stream ob @ [c]"
    using ochar_stream [OF Cons.prems csval_ne_255, of c] by (auto simp: csval_mod)
  obtain o' where "ochars w o1 = Some o'" "outbuf_ok o'" "\<not> oconv o'" "stream o' = stream o1 @ w" using Cons.IH [OF o1(2,3)] by blast
  then show ?case using o1 by simp
qed simp

lemma output_all:
  assumes "outbuf_ok ob" and "\<not> oconv ob" and "length w \<le> OBUFSIZE"
  shows "\<exists>o'. output_bytes w (length w) ob = Some o' \<and> outbuf_ok o' \<and> \<not> oconv o' \<and> stream o' = stream ob @ w"
  using output_stream [OF assms(1,2), of "length w" w] assms(3) by simp

lemma send_item_stream:
  assumes "outbuf_ok ob" and "\<not> oconv ob" and "item_ok t x"
  shows "\<exists>o'. send_item t x ob = Some o' \<and> outbuf_ok o' \<and> \<not> oconv o' \<and> stream o' = stream ob @ item_bytes t x"
  using assms output_stream [OF assms(1,2)] output_all [OF assms(1,2)] ochar_stream [OF assms(1,2)] ochars_stream [OF assms(1,2)]
  by (cases x) (auto simp: item_ok_def)

lemma send_items_stream:
  "outbuf_ok ob \<Longrightarrow> \<not> oconv ob \<Longrightarrow> \<forall>x\<in>set xs. item_ok t x \<Longrightarrow>
    \<exists>o'. send_items t xs ob = Some o' \<and> outbuf_ok o' \<and> \<not> oconv o' \<and> stream o' = stream ob @ concat (map (item_bytes t) xs)"
proof (induction xs arbitrary: ob)
  case (Cons x xs)
  obtain o1 where o1: "send_item t x ob = Some o1" "outbuf_ok o1" "\<not> oconv o1" "stream o1 = stream ob @ item_bytes t x"
    using send_item_stream [OF Cons.prems(1,2), of t x] Cons.prems(3) by auto
  obtain o' where "send_items t xs o1 = Some o'" "outbuf_ok o'" "\<not> oconv o'" "stream o' = stream o1 @ concat (map (item_bytes t) xs)"
    using Cons.IH [OF o1(2,3)] Cons.prems(3) by auto
  then show ?case using o1 by simp
qed simp

lemma send_items_append:
  "send_items t (xs @ ys) ob = (case send_items t xs ob of None \<Rightarrow> None | Some o1 \<Rightarrow> send_items t ys o1)"
  by (induction xs arbitrary: ob) (auto split: option.splits)

section \<open>What passes the filter\<close>

text \<open>Bytes \<open>oflush\<close> does not change: every escape sequence ends within twenty bytes, with a harmless one.\<close>

function passes :: "string \<Rightarrow> bool" where
  "passes [] = True"
| "passes (c # w) =
     (if c = KEY_ESC then
        (let n = length (takeWhile parameter (take 20 w)) in n < 20 \<and> n < length w \<and> \<not> harmful (csval (w ! n)) \<and> passes (drop n w))
      else c \<noteq> CHR 0xFF \<and> c \<noteq> CHR 0x0E \<and> passes w)"
  by pat_completeness auto
termination by (relation "measure length") auto

lemma takeWhile_parameter_append:
  "length (takeWhile parameter (take 20 w)) < length w \<Longrightarrow> length (takeWhile parameter (take 20 w)) < 20 \<Longrightarrow>
    takeWhile parameter (take 20 (w @ r)) = takeWhile parameter (take 20 w)"
proof -
  assume a: "length (takeWhile parameter (take 20 w)) < length w" "length (takeWhile parameter (take 20 w)) < 20"
  let ?t = "take 20 w"
  have "takeWhile parameter ?t \<noteq> ?t"
  proof
    assume "takeWhile parameter ?t = ?t"
    then have "length (takeWhile parameter ?t) = min (length w) 20" by (metis length_take)
    then show False using a by simp
  qed
  then obtain x where x: "x \<in> set ?t" "\<not> parameter x" by (meson takeWhile_eq_all_conv)
  have "take 20 (w @ r) = ?t @ take (20 - length w) r" by simp
  then show ?thesis using takeWhile_append1 [of x ?t parameter "take (20 - length w) r"] x by simp
qed

lemma next_ch_passes:
  assumes "n = length (takeWhile parameter (take 20 w))" and "n < 20" and "n < length w"
  shows "next_ch (w @ r) = Some (csval (w ! n), n)"
  using takeWhile_parameter_append [of w r] assms by (simp add: next_ch_def Let_def nth_append)

lemma drop_take_nth:
  "i < n \<Longrightarrow> n \<le> length b \<Longrightarrow> drop i (take n b) = b ! i # drop (i + 1) (take n b)"
proof -
  assume a: "i < n" "n \<le> length b"
  then have "i < length (take n b)" by simp
  from Cons_nth_drop_Suc [OF this] show ?thesis using a by simp
qed

lemma oflush_loop_passes:
  "n \<le> length b \<Longrightarrow> passes (drop i (take n b)) \<Longrightarrow> oflush_loop n i b = Some b"
proof (induction n i b rule: oflush_loop.induct)
  case (1 n i b)
  show ?case
  proof (cases "n \<le> i")
    case False
    then have i: "i < n" "\<not> length b \<le> i" using "1.prems"(1) by simp_all
    let ?w = "drop (i + 1) (take n b)"
    have c: "drop i (take n b) = b ! i # ?w" by (rule drop_take_nth [OF i(1) "1.prems"(1)])
    have p: "passes (b ! i # ?w)" using "1.prems"(2) c by simp
    have rest: "drop (i + 1) b = ?w @ drop n b"
    proof -
      have "drop (i + 1) (take n b @ drop n b) = drop (i + 1) (take n b) @ drop (i + 1 - length (take n b)) (drop n b)" by (simp only: drop_append)
      then show ?thesis using i "1.prems"(1) by (simp add: append_take_drop_id)
    qed
    show ?thesis
    proof (cases "b ! i = KEY_ESC")
      case True
      define m where "m = length (takeWhile parameter (take 20 ?w))"
      have m: "m < 20" "m < length ?w" "\<not> harmful (csval (?w ! m))" "passes (drop m ?w)" using p True by (simp_all add: m_def Let_def)
      have nc: "next_ch (drop (i + 1) b) = Some (csval (?w ! m), m)" unfolding rest by (rule next_ch_passes [OF m_def m(1,2)])
      have "drop m ?w = drop (i + m + 1) (take n b)" by (simp add: add.commute add.left_commute)
      then have "oflush_loop n (i + m + 1) b = Some b"
        using "1.IH"(1) [OF False i(2) refl, of "(csval (?w ! m), m)" "csval (?w ! m)" m] True nc m(3,4) "1.prems"(1) by simp
      then show ?thesis using False i(2) True nc m(3) by (subst oflush_loop.simps) (simp add: Let_def)
    next
      case no: False
      then have q: "b ! i \<noteq> CHR 0xFF" "b ! i \<noteq> CHR 0x0E" "passes ?w" using p by simp_all
      then have "oflush_loop n (i + 1) b = Some b" using "1.IH"(2) [OF False i(2) refl] no "1.prems"(1) by simp
      then show ?thesis using False i(2) no q by (subst oflush_loop.simps) (simp add: Let_def)
    qed
  qed (simp add: oflush_loop.simps)
qed

lemma parameter_plain: "parameter c \<Longrightarrow> c \<noteq> KEY_ESC \<and> c \<noteq> CHR 0xFF \<and> c \<noteq> CHR 0x0E"
  by (auto simp: parameter_def)

lemma passes_parameters: "\<forall>c\<in>set u. parameter c \<Longrightarrow> passes (u @ w) = passes w"
  by (induction u) (auto dest: parameter_plain)

lemma passes_behind:
  assumes "u = take n w" and "\<forall>x\<in>set u. parameter x" and "passes (drop n w)"
  shows "passes w"
  using passes_parameters [OF assms(2), of "drop n w"] assms(1,3) by simp

lemma takeWhile_take_is: "takeWhile P (take m w) = take (length (takeWhile P (take m w))) w"
proof -
  have le: "length (takeWhile P (take m w)) \<le> m" using length_takeWhile_le [of P "take m w"] by simp
  have "takeWhile P (take m w) = take (length (takeWhile P (take m w))) (take m w)" by (rule takeWhile_eq_take)
  also have "\<dots> = take (length (takeWhile P (take m w))) w" by (simp only: take_take min_absorb1 [OF le])
  finally show ?thesis .
qed

lemma passes_tail:
  assumes "passes (c # w)"
  shows "passes w"
proof (cases "c = KEY_ESC")
  case True
  show ?thesis
  proof (rule passes_behind [OF takeWhile_take_is])
    show "\<forall>x\<in>set (takeWhile parameter (take 20 w)). parameter x" by (auto dest: set_takeWhileD)
    show "passes (drop (length (takeWhile parameter (take 20 w))) w)" using assms [unfolded passes.simps Let_def True, simplified simp_thms if_True] by (elim conjE)
  qed
qed (use assms in simp)

lemma passes_drop: "passes w \<Longrightarrow> passes (drop k w)"
proof (induction k arbitrary: w)
  case (Suc k)
  show ?case
  proof (cases w)
    case (Cons c v)
    have "passes v" using Suc.prems unfolding Cons by (rule passes_tail)
    then show ?thesis using Suc.IH Cons by simp
  qed simp
qed simp

lemma oflush_passes:
  assumes "outbuf_ok ob" and "\<not> oconv ob" and "passes (take (obufsize ob) (obuf ob))"
  shows "\<exists>o'. oflush ob = Some o' \<and> outbuf_ok o' \<and> \<not> oconv o' \<and> handed o' = stream ob \<and> stream o' = stream ob"
proof -
  have "oflush_loop (obufsize ob) 0 (obuf ob) = Some (obuf ob)"
    using oflush_loop_passes assms(1,3) by (simp add: outbuf_ok_def)
  then show ?thesis using assms(1,2) by (simp add: oflush_def write_plain outbuf_ok_def stream_def handed_def)
qed

section \<open>What has been handed on\<close>

definition grows :: "outbuf \<Rightarrow> outbuf \<Rightarrow> bool" where
  "grows ob o' \<longleftrightarrow> (\<exists>x. handed o' = handed ob @ x)"

lemma grows_trans: "grows a b \<Longrightarrow> grows b c \<Longrightarrow> grows a c"
  by (auto simp: grows_def)

lemma grows_output: "output_bytes w k ob = Some o' \<Longrightarrow> \<not> oconv ob \<Longrightarrow> grows ob o'"
  by (auto simp: grows_def output_bytes_def Let_def write_plain handed_def bind_eq_Some_conv split: if_splits)

lemma grows_ochar: "ochar c ob = Some o' \<Longrightarrow> \<not> oconv ob \<Longrightarrow> grows ob o' \<and> \<not> oconv o'"
  by (auto simp: grows_def ochar_def Let_def write_plain handed_def bind_eq_Some_conv split: if_splits)

lemma grows_ochars: "ochars w ob = Some o' \<Longrightarrow> \<not> oconv ob \<Longrightarrow> grows ob o'"
proof (induction w arbitrary: ob)
  case Nil
  then show ?case by (simp add: grows_def)
next
  case (Cons c w)
  then obtain o1 where o1: "ochar (csval c) ob = Some o1" "ochars w o1 = Some o'" by (auto split: option.splits)
  have "grows ob o1" "\<not> oconv o1" using grows_ochar [OF o1(1) Cons.prems(2)] by simp_all
  then show ?case using Cons.IH [OF o1(2)] grows_trans by blast
qed

lemma grows_item: "send_item t x ob = Some o' \<Longrightarrow> \<not> oconv ob \<Longrightarrow> x \<noteq> Flush \<Longrightarrow> grows ob o'"
  by (cases x) (auto dest: grows_output grows_ochars grows_ochar)

lemma send_items_grows:
  "outbuf_ok ob \<Longrightarrow> \<not> oconv ob \<Longrightarrow> \<forall>x\<in>set xs. item_ok t x \<Longrightarrow> send_items t xs ob = Some o' \<Longrightarrow> grows ob o'"
proof (induction xs arbitrary: ob)
  case Nil
  then show ?case by (simp add: grows_def)
next
  case (Cons x xs)
  obtain o1 where o1: "send_item t x ob = Some o1" "outbuf_ok o1" "\<not> oconv o1"
    using send_item_stream [OF Cons.prems(1,2), of t x] Cons.prems(3) by auto
  have "grows ob o1" using grows_item [OF o1(1) Cons.prems(2)] Cons.prems(3) by (simp add: item_ok_def)
  moreover have "grows o1 o'" using Cons.IH [OF o1(2,3)] Cons.prems(3,4) o1(1) by simp
  ultimately show ?case by (rule grows_trans)
qed

lemma oflush_loop_end: "n \<le> i \<Longrightarrow> oflush_loop n i b = Some b"
  by (subst oflush_loop.simps) simp

section \<open>Properties\<close>


definition empty_outbuf :: outbuf where
  "empty_outbuf = \<lparr>obuf = replicate 4096 NUL, obufsize = 0, sent = [], oconv = False, otables = []\<rparr>"

definition vt_caps :: termcap where
  "vt_caps = \<lparr>cap_cm = (\<lambda>c r. [KEY_ESC, CHR ''[''] @ digits (r + 1) @ '';'' @ digits (c + 1) @ ''H''), cap_bc = [CHR 8],
     cap_cl = [KEY_ESC, CHR ''[''] @ ''H'' @ [KEY_ESC, CHR ''[''] @ ''J'', cap_ce = [KEY_ESC, CHR ''[''] @ ''K'',
     cap_so = [KEY_ESC, CHR ''[''] @ ''7m'', cap_se = [KEY_ESC, CHR ''[''] @ ''m''\<rparr>"


text \<open>
  C2. A sequence that resets the terminal is made harmless by \<open>oflush\<close>; when the buffer runs over first,
  it is handed on as it is.
\<close>
theorem overflow_escapes_filter:
  assumes "outbuf_ok ob" and "\<not> oconv ob" and "obufsize ob = length p + 2" and "take (obufsize ob) (obuf ob) = p @ [KEY_ESC, CHR ''c'']"
    and "\<forall>c\<in>set p. calm_byte c" and "4096 < obufsize ob + length s" and "length s \<le> 4096"
  shows "\<exists>o1 o2. oflush ob = Some o1 \<and> handed o1 = handed ob @ p @ ''*c'' \<and>
    output_bytes s (length s) ob = Some o2 \<and> handed o2 = handed ob @ p @ [KEY_ESC, CHR ''c'']"
proof -
  have len: "length (obuf ob) = 4096" using assms(1) by (simp add: outbuf_ok_def)
  let ?n = "length p"
  obtain r where b: "obuf ob = p @ KEY_ESC # CHR ''c'' # r" using assms(3,4) by (metis append.assoc append_Cons append_Nil append_take_drop_id)
  have calm: "oflush_loop (?n + 2) i (obuf ob) = oflush_loop (?n + 2) ?n (obuf ob)" if "i \<le> ?n" for i
    using that
  proof (induction i rule: inc_induct)
    case (step i)
    have "calm_byte (obuf ob ! i)" using assms(5) step(2) by (simp add: b nth_append)
    then have "oflush_loop (?n + 2) i (obuf ob) = oflush_loop (?n + 2) (i + 1) (obuf ob)"
      using step(2) by (subst oflush_loop.simps) (simp add: b calm_byte_def Let_def)
    then show ?case using step(3) by simp
  qed simp
  have np: "\<not> parameter (CHR ''c'')" by (simp add: parameter_def)
  have "obuf ob ! ?n = KEY_ESC" "drop (Suc ?n) (obuf ob) = CHR ''c'' # r" "\<not> length (obuf ob) \<le> ?n" by (simp_all add: b)
  moreover have "next_ch (CHR ''c'' # r) = Some (99, 0)" using np by (simp add: next_ch_def csval_def cval_def)
  moreover have "oflush_loop (?n + 2) (Suc ?n) (p @ CHR ''*'' # CHR ''c'' # r) = Some (p @ CHR ''*'' # CHR ''c'' # r)"
    by (subst oflush_loop.simps) (simp add: nth_append oflush_loop_end Let_def)
  ultimately have "oflush_loop (?n + 2) ?n (obuf ob) = Some (p @ CHR ''*'' # CHR ''c'' # r)"
    by (subst oflush_loop.simps) (simp add: harmful_def b list_update_append Let_def)
  then have "oflush_loop (obufsize ob) 0 (obuf ob) = Some (p @ CHR ''*'' # CHR ''c'' # r)" using calm [of 0] assms(3) by simp
  then have f: "\<exists>o1. oflush ob = Some o1 \<and> handed o1 = handed ob @ p @ ''*c''"
    using assms(2,3) by (simp add: oflush_def write_plain handed_def)
  obtain o2 where o2: "output_bytes s (length s) ob = Some o2" "outbuf_ok o2" "stream o2 = stream ob @ s"
    using output_all [OF assms(1,2,7)] by blast
  have "handed o2 = handed ob @ take (obufsize ob) (obuf ob)"
    using o2(1) assms(2,6) by (auto simp: output_bytes_def Let_def write_plain handed_def bind_eq_Some_conv)
  then show ?thesis using f o2(1) assms(4) by auto
qed

theorem overflow_escapes_filter_witness:
  "\<exists>o1 o2. oflush (empty_outbuf\<lparr>obuf := ''a'' @ [KEY_ESC, CHR ''c''] @ replicate 4093 NUL, obufsize := 3\<rparr>) = Some o1 \<and> handed o1 = ''a*c'' \<and>
    output_bytes (replicate 4094 CHR ''x'') (length (replicate 4094 CHR ''x'')) (empty_outbuf\<lparr>obuf := ''a'' @ [KEY_ESC, CHR ''c''] @ replicate 4093 NUL, obufsize := 3\<rparr>) = Some o2 \<and>
    handed o2 = ''a'' @ [KEY_ESC, CHR ''c'']"
proof -
  let ?o = "empty_outbuf\<lparr>obuf := ''a'' @ [KEY_ESC, CHR ''c''] @ replicate 4093 NUL, obufsize := 3\<rparr>"
  have "outbuf_ok ?o" "\<not> oconv ?o" "obufsize ?o = length ''a'' + 2" "take (obufsize ?o) (obuf ?o) = ''a'' @ [KEY_ESC, CHR ''c'']" "handed ?o = []"
    by (simp_all add: outbuf_ok_def empty_outbuf_def handed_def)
  moreover have "\<forall>c\<in>set ''a''. calm_byte c" by (simp add: calm_byte_def)
  ultimately show ?thesis using overflow_escapes_filter [of ?o "''a''" "replicate 4094 CHR ''x''"] by simp
qed

end
