(* ===== verification/SharedTables.thy ===== *)
theory SharedTables
  imports BoardList RecordFile "HOL-Library.Monad_Syntax"
begin

text \<open>
  The tables all processes of the system share (src/ucache.c, src/bcache.c): the identifiers of the
  users, the boards, and the sessions.  The sizes of the tables are those of the lists; a row of a
  table is the C string in it.  The layouts of the records of the user and the board file are
  parameters, functions from the bytes of a record.  \<open>None\<close> is an access outside a table.
\<close>

section \<open>The users\<close>

record ucache =
  userids :: "string list"
  unumber :: nat
  u_updating :: bool
  u_uptime :: int

abbreviation (input) UIDSIZE :: nat where "UIDSIZE \<equiv> 14"

text \<open>\<open>strlcpy\<close> into a row; a row is compared by its first 13 characters.\<close>

definition uid_row :: "string \<Rightarrow> string" where
  "uid_row u = take (UIDSIZE - 1) u"

definition fillucache :: "(byte list \<Rightarrow> string) \<Rightarrow> nat \<times> string list \<Rightarrow> byte list \<Rightarrow> int \<Rightarrow> (nat \<times> string list) \<times> int" where
  "fillucache uid_of s p recno =
     (case s of (n, ids) \<Rightarrow> if n < length ids then ((n + 1, ids[n := uid_row (uid_of p)]), 0) else ((n, ids), 0))"

text \<open>The file of the users and how its records are read.\<close>

record userfile =
  passfile :: string
  rec_size :: nat
  uid_of :: "byte list \<Rightarrow> string"

definition resolve_ucache :: "env \<Rightarrow> filesys \<Rightarrow> userfile \<Rightarrow> int \<Rightarrow> bool \<Rightarrow> ucache \<Rightarrow> ucache" where
  "resolve_ucache e fs uf now lock uc =
     (if \<not> u_updating uc \<and> u_uptime uc + 86400 < now \<and> lock then
        (case apply_record e fs (passfile uf) (fillucache (uid_of uf)) (rec_size uf) (0, userids uc) of
           ((n, ids), r) \<Rightarrow> uc\<lparr>userids := ids, unumber := n, u_uptime := now\<rparr>)
      else uc)"

definition setuserid :: "int \<Rightarrow> string \<Rightarrow> ucache \<Rightarrow> ucache" where
  "setuserid num u uc =
     (if 0 < num \<and> num \<le> int (length (userids uc)) then
        (let uc1 = (if int (unumber uc) < num then uc\<lparr>unumber := nat num\<rparr> else uc)
         in uc1\<lparr>userids := (userids uc1)[nat num - 1 := uid_row u]\<rparr>)
      else uc)"

text \<open>The searches run behind \<open>resolve_ucache\<close>; here on the table it leaves.\<close>

fun find_row :: "(string \<Rightarrow> bool) \<Rightarrow> string list \<Rightarrow> nat \<Rightarrow> nat" where
  "find_row P [] i = 0"
| "find_row P (r # rs) i = (if P r then i + 1 else find_row P rs (i + 1))"

definition searchnewuser :: "ucache \<Rightarrow> nat" where
  "searchnewuser uc =
     (let i = find_row (\<lambda>r. r = []) (take (unumber uc) (userids uc)) 0 in
      if i \<noteq> 0 then i else if unumber uc < length (userids uc) then unumber uc + 1 else 0)"

definition getuserid :: "nat \<Rightarrow> ucache \<Rightarrow> string option" where
  "getuserid uid uc = (if uid = 0 \<or> length (userids uc) < uid then None else Some (userids uc ! (uid - 1)))"

definition searchuser :: "string \<Rightarrow> ucache \<Rightarrow> nat" where
  "searchuser u uc = find_row (\<lambda>r. strncaseeq u r 13) (take (unumber uc) (userids uc)) 0"

definition getuser :: "env \<Rightarrow> filesys \<Rightarrow> userfile \<Rightarrow> string \<Rightarrow> ucache \<Rightarrow> nat \<times> byte list option" where
  "getuser e fs uf u uc =
     (let uid = searchuser u uc in
      if uid = 0 then (0, None)
      else
        case get_record e fs (passfile uf) (rec_size uf) (int uid) of
          (r, p) \<Rightarrow> if r = -1 \<or> uid_of uf p = [] then (0, Some p) else (uid, Some p))"

section \<open>The sessions\<close>

record session =
  active :: bool
  uid :: int
  pid :: int
  invisible :: int
  destuid :: int
  idle_time :: int
  deactive_time :: int

record utmp =
  uinfo :: "session list"
  ut_uptime :: int
  usersum :: int
  max_login_num :: int
  ulist_file :: "session list"

definition slot_is_free :: "int \<Rightarrow> session \<Rightarrow> bool" where
  "slot_is_free now s \<longleftrightarrow> (\<not> active s \<or> pid s = 0) \<and> deactive_time s + 60 < now"

fun first_slot :: "(session \<Rightarrow> bool) \<Rightarrow> session list \<Rightarrow> nat \<Rightarrow> nat" where
  "first_slot P [] i = i"
| "first_slot P (s # ss) i = (if P s then i else first_slot P ss (i + 1))"

text \<open>A session whose process is gone, or that has had none for fifteen minutes; \<open>alive\<close> is \<open>kill(pid, 0) != -1\<close>.\<close>

definition sweep :: "(int \<Rightarrow> bool) \<Rightarrow> int \<Rightarrow> session \<Rightarrow> session" where
  "sweep alive now s =
     (if \<not> active s then s
      else if pid s \<noteq> 1 \<and> \<not> alive (pid s) then s\<lparr>active := False, deactive_time := now, pid := 0\<rparr>
      else if pid s = 1 \<and> idle_time s + 15 * 60 < now then s\<lparr>active := False, deactive_time := now, pid := 0\<rparr>
      else s)"

fun used_slots :: "session list \<Rightarrow> nat \<Rightarrow> nat" where
  "used_slots ss 0 = 0"
| "used_slots ss (Suc n) = (if active (ss ! Suc n) then Suc n else used_slots ss n)"

text \<open>\<open>getnewutmpent\<close>; \<open>online\<close> is \<open>count_users\<close>, \<open>users\<close> what \<open>allusers\<close> returns.\<close>

definition getnewutmpent :: "bool \<Rightarrow> (int \<Rightarrow> bool) \<Rightarrow> int \<Rightarrow> int \<Rightarrow> int \<Rightarrow> session \<Rightarrow> utmp \<Rightarrow> int \<times> utmp" where
  "getnewutmpent opened alive now online users up t =
     (if \<not> opened then (-1, t)
      else
        let t1 = (if max_login_num t < online then t\<lparr>max_login_num := online\<rparr> else t);
            i = first_slot (slot_is_free now) (uinfo t1) 0
        in if length (uinfo t1) \<le> i then (-2, t1)
           else
             let t2 = t1\<lparr>uinfo := (uinfo t1)[i := up]\<rparr> in
             if ut_uptime t2 + 60 < now then
               (let ss = map (sweep alive now) (uinfo t2)
                in (int i + 1, t2\<lparr>uinfo := ss, ut_uptime := now, usersum := users mod 65536,
                      ulist_file := take (used_slots ss (length ss - 1) + 1) ss\<rparr>))
             else (int i + 1, t2))"

text \<open>The callback of \<open>apply_ulist\<close> answers whether to stop; it has a state of its own.\<close>

fun apply_sessions :: "('s \<Rightarrow> session \<Rightarrow> 's \<times> bool) \<Rightarrow> session list \<Rightarrow> 's \<Rightarrow> 's \<times> bool" where
  "apply_sessions f [] st = (st, False)"
| "apply_sessions f (s # ss) st = (case f st s of (st1, True) \<Rightarrow> (st1, True) | (st1, False) \<Rightarrow> apply_sessions f ss st1)"

definition apply_ulist :: "('s \<Rightarrow> session \<Rightarrow> 's \<times> bool) \<Rightarrow> utmp \<Rightarrow> 's \<Rightarrow> 's \<times> bool" where
  "apply_ulist f t st = apply_sessions f (filter (\<lambda>s. active s \<and> pid s \<noteq> 0) (take (length (uinfo t) - 1) (uinfo t))) st"

definition apply_ulist_address :: "('s \<Rightarrow> session \<Rightarrow> 's \<times> bool) \<Rightarrow> utmp \<Rightarrow> 's \<Rightarrow> 's \<times> bool" where
  "apply_ulist_address f t st = apply_sessions f (take (used_slots (uinfo t) (length (uinfo t) - 1) + 1) (uinfo t)) st"

text \<open>The result 0 or the number of a session, and the entry copied last.\<close>

fun search_sessions :: "(session \<Rightarrow> bool) \<Rightarrow> nat \<Rightarrow> session list \<Rightarrow> nat \<Rightarrow> session \<Rightarrow> nat \<times> session" where
  "search_sessions P j [] i u = (0, u)"
| "search_sessions P j (s # ss) i u =
     (if P s then if j = 1 then (i + 1, s) else search_sessions P (j - 1) ss (i + 1) s else search_sessions P j ss (i + 1) s)"

definition search_ulist :: "session \<Rightarrow> (int \<Rightarrow> session \<Rightarrow> bool) \<Rightarrow> int \<Rightarrow> utmp \<Rightarrow> nat \<times> session" where
  "search_ulist u f farg t = search_sessions (f farg) 1 (uinfo t) 0 u"

text \<open>The \<open>unum\<close>-th match; a number that is not positive is never reached.\<close>

definition search_ulistn :: "session \<Rightarrow> (int \<Rightarrow> session \<Rightarrow> bool) \<Rightarrow> int \<Rightarrow> int \<Rightarrow> utmp \<Rightarrow> nat \<times> session" where
  "search_ulistn u f farg unum t =
     (if unum \<le> 0 then (0, if uinfo t = [] then u else last (uinfo t)) else search_sessions (f farg) (nat unum) (uinfo t) 0 u)"

text \<open>\<open>t_search_ulist\<close>: how many of the matching sessions the user may see; what it prints is output.\<close>

definition t_search_ulist :: "(int \<Rightarrow> session \<Rightarrow> bool) \<Rightarrow> int \<Rightarrow> (session \<Rightarrow> bool) \<Rightarrow> int \<Rightarrow> bool \<Rightarrow> utmp \<Rightarrow> nat" where
  "t_search_ulist f farg isreject usernum seecloak t =
     length (filter (\<lambda>s. f farg s \<and> active s \<and> pid s \<noteq> 0 \<and> \<not> isreject s \<and>
       (invisible s = 0 \<or> uid s = usernum \<or> invisible s = 1 \<and> seecloak)) (uinfo t))"

definition update_ulist :: "session \<Rightarrow> int \<Rightarrow> utmp \<Rightarrow> utmp" where
  "update_ulist s uent t =
     (if 0 < uent \<and> uent \<le> int (length (uinfo t)) then t\<lparr>uinfo := (uinfo t)[nat uent - 1 := s]\<rparr> else t)"

definition who_callme :: "session \<Rightarrow> (int \<Rightarrow> session \<Rightarrow> bool) \<Rightarrow> int \<Rightarrow> int \<Rightarrow> utmp \<Rightarrow> nat \<times> session" where
  "who_callme u f farg me t = search_sessions (\<lambda>s. f farg s \<and> destuid s = me) 1 (uinfo t) 0 u"

section \<open>The boards\<close>

record board = boardheader +
  lastpost :: "32 word"
  total :: "32 word"
  total_today :: "32 word"

text \<open>The table, and what a process remembers of its last search.\<close>

record bcache =
  boards :: "board list"
  bnumber :: nat
  b_updating :: bool
  b_uptime :: int
  inboard :: "16 word list"
  last_bname :: string
  last_bindex :: nat

record boardfile =
  bfile :: string
  brec_size :: nat
  board_of :: "byte list \<Rightarrow> board"
  dir_of :: "string \<Rightarrow> string"
  hdr_size :: nat
  filetime_of :: "byte list \<Rightarrow> 32 word"

text \<open>The number of articles of a board and the time of the last one.\<close>

definition get_lastpost :: "env \<Rightarrow> filesys \<Rightarrow> boardfile \<Rightarrow> board \<Rightarrow> int \<times> board" where
  "get_lastpost e fs bf b =
     (case open_file e fs (dir_of bf (bfilename b)) of
        None \<Rightarrow> (-1, b)
      | Some f \<Rightarrow>
          if \<not> fstat_ok e \<or> length f = 0 then (-1, b)
          else
            let n = length f div hdr_size bf; b1 = b\<lparr>total := of_nat n\<rparr> in
            if n = 0 then (0, b1)
            else (0, b1\<lparr>lastpost := filetime_of bf (take (hdr_size bf) (drop ((n - 1) * hdr_size bf) f))\<rparr>))"

definition fillbcache :: "env \<Rightarrow> filesys \<Rightarrow> boardfile \<Rightarrow> nat \<times> board list \<Rightarrow> byte list \<Rightarrow> int \<Rightarrow> (nat \<times> board list) \<times> int" where
  "fillbcache e fs bf s p recno =
     (case s of (n, bs) \<Rightarrow> if length bs \<le> n then ((n, bs), 0) else ((n + 1, bs[n := snd (get_lastpost e fs bf (board_of bf p))]), 0))"

text \<open>\<open>changed\<close> is the time of the last change of the file, when \<open>stat\<close> finds it.\<close>

definition resolve_boards :: "env \<Rightarrow> filesys \<Rightarrow> boardfile \<Rightarrow> int \<Rightarrow> int option \<Rightarrow> bool \<Rightarrow> bcache \<Rightarrow> bcache" where
  "resolve_boards e fs bf now changed lock bc =
     (if \<not> b_updating bc \<and> b_uptime bc + 300 < now then
        (case changed of
           None \<Rightarrow> bc
         | Some m \<Rightarrow>
             if m < b_uptime bc then bc
             else if lock then
               (case apply_record e fs (bfile bf) (fillbcache e fs bf) (brec_size bf) (0, boards bc) of
                  ((n, bs), r) \<Rightarrow> bc\<lparr>boards := bs, bnumber := n, b_uptime := now\<rparr>)
             else bc)
      else bc)"

definition open_to :: "32 word \<Rightarrow> board \<Rightarrow> bool" where
  "open_to user_level b \<longleftrightarrow> has_bits (level b) PERM_POSTMASK \<or> HAS_PERM user_level (level b) \<or> has_bits (level b) PERM_NOZAP"

text \<open>The searches run behind \<open>resolve_boards\<close>; here on the table it leaves.\<close>

definition apply_boards :: "32 word \<Rightarrow> ('s \<Rightarrow> board \<Rightarrow> 's \<times> bool) \<Rightarrow> bcache \<Rightarrow> 's \<Rightarrow> 's \<times> bool" where
  "apply_boards user_level f bc st =
     fold (\<lambda>b (s, quit). if quit \<or> \<not> open_to user_level b then (s, quit) else f s b) (take (bnumber bc) (boards bc)) (st, False)"

fun first_board :: "string \<Rightarrow> board list \<Rightarrow> nat \<Rightarrow> nat option" where
  "first_board n [] i = None"
| "first_board n (b # bs) i = (if strncaseeq n (bfilename b) 80 then Some i else first_board n bs (i + 1))"

text \<open>\<open>getbcache\<close>: the index of the board, or \<open>NULL\<close>; \<open>refreshed\<close> is \<open>resolve_boards\<close>.\<close>

definition getbcache :: "(bcache \<Rightarrow> bcache) \<Rightarrow> string \<Rightarrow> bcache \<Rightarrow> (nat option \<times> bcache) option" where
  "getbcache refreshed bname bc =
     (if strncaseeq bname (last_bname bc) 80 then Some (Some (last_bindex bc), bc)
      else if 80 \<le> length bname then None
      else
        let bc1 = refreshed (bc\<lparr>last_bname := bname\<rparr>) in
        case first_board bname (take (bnumber bc1) (boards bc1)) 0 of
          Some i \<Rightarrow> Some (Some i, bc1\<lparr>last_bindex := i\<rparr>)
        | None \<Rightarrow> Some (None, bc1))"

definition update_lastpost :: "env \<Rightarrow> filesys \<Rightarrow> boardfile \<Rightarrow> (bcache \<Rightarrow> bcache) \<Rightarrow> string \<Rightarrow> bcache \<Rightarrow> (int \<times> bcache) option" where
  "update_lastpost e fs bf refreshed bname bc = do {
     (r, bc1) \<leftarrow> getbcache refreshed bname bc;
     case r of
       None \<Rightarrow> Some (-1, bc1)
     | Some i \<Rightarrow>
         if length (boards bc1) \<le> i then None
         else Some (0, bc1\<lparr>boards := (boards bc1)[i := snd (get_lastpost e fs bf (boards bc1 ! i))]\<rparr>)
   }"

definition update_total_today :: "(bcache \<Rightarrow> bcache) \<Rightarrow> string \<Rightarrow> bcache \<Rightarrow> (int \<times> bcache) option" where
  "update_total_today refreshed bname bc = do {
     (r, bc1) \<leftarrow> getbcache refreshed bname bc;
     case r of
       None \<Rightarrow> Some (-1, bc1)
     | Some i \<Rightarrow>
         if length (boards bc1) \<le> i then None
         else Some (0, bc1\<lparr>boards := (boards bc1)[i := (boards bc1 ! i)\<lparr>total_today := total_today (boards bc1 ! i) + 1\<rparr>]\<rparr>)
   }"

fun bnum_loop :: "32 word \<Rightarrow> string \<Rightarrow> board list \<Rightarrow> nat \<Rightarrow> nat" where
  "bnum_loop ul n [] i = 0"
| "bnum_loop ul n (b # bs) i = (if open_to ul b \<and> strncaseeq n (bfilename b) 80 then i + 1 else bnum_loop ul n bs (i + 1))"

definition getbnum :: "32 word \<Rightarrow> string \<Rightarrow> bcache \<Rightarrow> nat" where
  "getbnum ul bname bc = bnum_loop ul bname (take (bnumber bc) (boards bc)) 0"

definition setoboard :: "32 word \<Rightarrow> string \<Rightarrow> bcache \<Rightarrow> string" where
  "setoboard ul bname bc =
     (case filter (\<lambda>b. open_to ul b \<and> cget (bfilename b) 0 \<noteq> NUL \<and> cget (bfilename b) 0 \<noteq> CHR '' '') (take (bnumber bc) (boards bc)) of
        [] \<Rightarrow> bname
      | b # bs \<Rightarrow> bfilename b)"

definition PERM_POST :: "32 word" where "PERM_POST = 0x8"
definition ANONY_FLAG :: "32 word" where "ANONY_FLAG = 0x8"
definition JUNK_FLAG :: "32 word" where "JUNK_FLAG = 0x40"
definition BRD_NOPOSTVOTE :: "32 word" where "BRD_NOPOSTVOTE = 0x400"

text \<open>
  \<open>haspostperm\<close>: \<open>stored\<close> is the level \<open>set_safe_record\<close> reads from the user file, \<open>None\<close> when it ends
  the session; \<open>denied\<close> is \<open>deny_me\<close>.
\<close>

definition haspostperm :: "string \<Rightarrow> string \<Rightarrow> 32 word \<Rightarrow> (string \<Rightarrow> bool) \<Rightarrow> 32 word option \<Rightarrow> string \<Rightarrow> bcache \<Rightarrow> bool option" where
  "haspostperm defaultboard me ul denied stored bname bc =
     (let i = getbnum ul bname bc in
      if i = 0 then Some False
      else
        let lev = level (boards bc ! (i - 1)) in
        if \<not> has_bits lev PERM_POSTMASK \<and> \<not> HAS_PERM ul PERM_WELCOME \<and> \<not> HAS_PERM ul PERM_SYSOP then Some False
        else if me = ''guest'' then Some False
        else if denied bname \<and> \<not> HAS_PERM ul PERM_SYSOP then Some False
        else if bname = ''syssecurity'' then Some False
        else if HAS_PERM ul PERM_WELCOME \<and> bname = defaultboard then Some True
        else
          case stored of
            None \<Rightarrow> None
          | Some ul1 \<Rightarrow>
              if has_bits lev PERM_POSTMASK then Some (HAS_PERM ul1 ((lev AND NOT PERM_NOZAP) AND NOT PERM_POSTMASK))
              else Some (HAS_PERM ul1 PERM_POST))"

definition normalboard :: "(bcache \<Rightarrow> bcache) \<Rightarrow> string \<Rightarrow> bcache \<Rightarrow> (bool \<times> bcache) option" where
  "normalboard refreshed bname bc = do {
     (r, bc1) \<leftarrow> getbcache refreshed bname bc;
     case r of
       None \<Rightarrow> Some (False, bc1)
     | Some i \<Rightarrow>
         if length (boards bc1) \<le> i then None
         else Some (\<not> has_bits (bflag (boards bc1 ! i)) (ANONY_FLAG OR JUNK_FLAG OR BRD_RESTRICT OR BRD_NOPOSTVOTE) \<and> level (boards bc1 ! i) = 0, bc1)
   }"

definition junkboard :: "(bcache \<Rightarrow> bcache) \<Rightarrow> string \<Rightarrow> bcache \<Rightarrow> (bool \<times> bcache) option" where
  "junkboard refreshed cboard bc = do {
     (r, bc1) \<leftarrow> getbcache refreshed cboard bc;
     i \<leftarrow> r;
     if length (boards bc1) \<le> i then None else Some (has_bits (bflag (boards bc1 ! i)) JUNK_FLAG, bc1)
   }"

definition board_setcurrentuser :: "bool \<Rightarrow> int \<Rightarrow> int \<Rightarrow> bcache \<Rightarrow> (16 word \<times> bcache) option" where
  "board_setcurrentuser lock idx num bc =
     (if idx < 0 then Some (0, bc)
      else if int (length (inboard bc)) \<le> idx then None
      else
        let k = nat idx; v = inboard bc ! k;
            v1 = (if \<not> lock \<or> num = 0 then v else if 0 < num then v + 1 else if 0 < v then v - 1 else 0)
        in Some (v1, bc\<lparr>inboard := (inboard bc)[k := v1]\<rparr>))"

section \<open>Searching the tables\<close>

lemma find_row_range: "find_row P rs i = 0 \<longleftrightarrow> \<not> (\<exists>r\<in>set rs. P r)"
  by (induction rs arbitrary: i) auto

lemma find_row_hit:
  "find_row P rs i = k \<Longrightarrow> k \<noteq> 0 \<Longrightarrow> i < k \<and> k \<le> i + length rs \<and> P (rs ! (k - i - 1)) \<and> (\<forall>j < k - i - 1. \<not> P (rs ! j))"
proof (induction rs arbitrary: i)
  case (Cons r rs)
  show ?case
  proof (cases "P r")
    case True
    then show ?thesis using Cons.prems by auto
  next
    case False
    then have h: "i + 1 < k" "k \<le> i + 1 + length rs" "P (rs ! (k - (i + 1) - 1))" "\<forall>j < k - (i + 1) - 1. \<not> P (rs ! j)"
      using Cons.IH [of "i + 1"] Cons.prems by auto
    obtain m where m: "k - i - 1 = Suc m" "k - (i + 1) - 1 = m" using h(1) by (cases "k - i - 1") auto
    have "\<forall>j < Suc m. \<not> P ((r # rs) ! j)" using h(4) m False by (auto simp: nth_Cons' less_Suc_eq_0_disj)
    moreover have "P ((r # rs) ! Suc m)" using h(3) m(2) by simp
    ultimately show ?thesis using h(1,2) m(1) by simp
  qed
qed simp

lemma find_row_first:
  "m < length rs \<Longrightarrow> P (rs ! m) \<Longrightarrow> \<forall>j < m. \<not> P (rs ! j) \<Longrightarrow> find_row P rs i = i + m + 1"
proof (induction rs arbitrary: i m)
  case (Cons r rs)
  show ?case
  proof (cases m)
    case 0
    then show ?thesis using Cons.prems by simp
  next
    case (Suc n)
    have "\<not> P r" using Cons.prems(3) Suc by (metis nth_Cons_0 zero_less_Suc)
    moreover have "find_row P rs (i + 1) = (i + 1) + n + 1" using Cons.prems Suc by (intro Cons.IH) auto
    ultimately show ?thesis using Suc by simp
  qed
qed simp

lemma first_slot_ge: "i \<le> first_slot P ss i"
  by (induction ss arbitrary: i) (auto intro: Suc_leD)

lemma first_slot_hit:
  "first_slot P ss i < i + length ss \<Longrightarrow> P (ss ! (first_slot P ss i - i))"
proof (induction ss arbitrary: i)
  case (Cons s ss)
  show ?case
  proof (cases "P s")
    case False
    have g: "i + 1 \<le> first_slot P ss (i + 1)" by (rule first_slot_ge)
    have "P (ss ! (first_slot P ss (i + 1) - (i + 1)))" using Cons.IH [of "i + 1"] Cons.prems False by simp
    moreover obtain m where "first_slot P ss (i + 1) - i = Suc m" "first_slot P ss (i + 1) - (i + 1) = m"
      using g by (cases "first_slot P ss (i + 1) - i") auto
    ultimately show ?thesis using False by simp
  qed simp
qed simp

lemma first_board_none: "\<forall>b\<in>set bs. \<not> strncaseeq n (bfilename b) 80 \<Longrightarrow> first_board n bs i = None"
  by (induction bs arbitrary: i) auto

text \<open>The reload knows nothing of the last search of the process.\<close>

lemma resolve_boards_rename:
  "resolve_boards e fs bf now changed lock (bc\<lparr>last_bname := n\<rparr>) = (resolve_boards e fs bf now changed lock bc)\<lparr>last_bname := n\<rparr>"
  by (simp add: resolve_boards_def split: option.split prod.split)

section \<open>Properties\<close>

text \<open>C33. 
  C1. A board that is not in the table is found by the second search for it: the first one remembers its
  name although it finds nothing, and the next one answers with the board found before.
\<close>
theorem unknown_board_found_again:
  fixes e fs bf now changed lock
  defines "r \<equiv> resolve_boards e fs bf now changed lock"
  assumes "\<not> strncaseeq bname (last_bname bc) 80" and "length bname < 80"
    and "\<forall>b\<in>set (boards (r bc)). \<not> strncaseeq bname (bfilename b) 80"
  shows "\<exists>bc1. getbcache r bname bc = Some (None, bc1) \<and> getbcache r bname bc1 = Some (Some (last_bindex bc1), bc1)"
proof -
  have "first_board bname (take (bnumber (r (bc\<lparr>last_bname := bname\<rparr>))) (boards (r (bc\<lparr>last_bname := bname\<rparr>)))) 0 = None"
    using assms(4) unfolding r_def resolve_boards_rename by (intro first_board_none) (auto dest: in_set_takeD)
  moreover have "last_bname (r (bc\<lparr>last_bname := bname\<rparr>)) = bname" by (simp add: r_def resolve_boards_rename)
  ultimately show ?thesis using assms(2,3) by (simp add: getbcache_def Let_def) (simp add: getbcache_def strncaseeq_def)
qed

definition two_boards :: bcache where
  "two_boards = \<lparr>boards = map (\<lambda>n. \<lparr>bfilename = n, btitle = [], bBM = [], bflag = 0, level = 0, parent = 0, lastpost = 0, total = 0, total_today = 0\<rparr>) [''sysop'', ''vote''],
     bnumber = 2, b_updating = False, b_uptime = 0, inboard = [0, 0], last_bname = ''vote'', last_bindex = 1\<rparr>"

definition board_file :: boardfile where
  "board_file = \<lparr>bfile = ''.BOARDS'', brec_size = 256, board_of = (\<lambda>p. hd (boards two_boards)), dir_of = (\<lambda>n. n), hdr_size = 256, filetime_of = (\<lambda>p. 0)\<rparr>"

theorem unknown_board_found_again_witness:
  "\<exists>bc1. getbcache (resolve_boards env_fine (\<lambda>n. None) board_file 100 None True) ''nowhere'' two_boards = Some (None, bc1) \<and>
    getbcache (resolve_boards env_fine (\<lambda>n. None) board_file 100 None True) ''nowhere'' bc1 = Some (Some (last_bindex bc1), bc1)"
proof (rule unknown_board_found_again)
  show "\<not> strncaseeq ''nowhere'' (last_bname two_boards) 80" by code_simp
  have "\<not> strncaseeq ''nowhere'' ''sysop'' 80" and "\<not> strncaseeq ''nowhere'' ''vote'' 80" by code_simp+
  then show "\<forall>b\<in>set (boards (resolve_boards env_fine (\<lambda>n. None) board_file 100 None True two_boards)). \<not> strncaseeq ''nowhere'' (bfilename b) 80"
    by (simp add: resolve_boards_def two_boards_def)
qed simp

text \<open>C32. 
  C2. A new session takes an entry that has been free for a minute, and no entry of a session whose
  process lives is given away or cleared.
\<close>
theorem new_session_keeps_the_living:
  assumes "getnewutmpent opened alive now online users up t = (r, t')" and "0 < r"
  shows "nat r - 1 < length (uinfo t) \<and> slot_is_free now (uinfo t ! (nat r - 1)) \<and> length (uinfo t') = length (uinfo t) \<and>
    (\<forall>k < length (uinfo t). k \<noteq> nat r - 1 \<longrightarrow> active (uinfo t ! k) \<longrightarrow> pid (uinfo t ! k) \<noteq> 1 \<longrightarrow> alive (pid (uinfo t ! k)) \<longrightarrow> uinfo t' ! k = uinfo t ! k) \<and>
    (alive (pid up) \<longrightarrow> pid up \<noteq> 1 \<longrightarrow> uinfo t' ! (nat r - 1) = up)"
proof -
  let ?i = "first_slot (slot_is_free now) (uinfo t) 0"
  define t1 where "t1 = (if max_login_num t < online then t\<lparr>max_login_num := online\<rparr> else t)"
  have u: "uinfo t1 = uinfo t" "ut_uptime t1 = ut_uptime t" by (simp_all add: t1_def)
  have o: "opened" using assms by (cases opened) (auto simp: getnewutmpent_def)
  have i: "?i < length (uinfo t)"
  proof (rule ccontr)
    assume "\<not> ?i < length (uinfo t)"
    then have "getnewutmpent opened alive now online users up t = (-2, t1)" using o u by (simp add: getnewutmpent_def Let_def t1_def [symmetric])
    then show False using assms by simp
  qed
  let ?ss = "(uinfo t)[?i := up]"
  define t2 where "t2 = t1\<lparr>uinfo := ?ss\<rparr>"
  have e: "getnewutmpent opened alive now online users up t =
      (int ?i + 1, if ut_uptime t + 60 < now
        then t2\<lparr>uinfo := map (sweep alive now) ?ss, ut_uptime := now, usersum := users mod 65536,
               ulist_file := take (used_slots (map (sweep alive now) ?ss) (length ?ss - 1) + 1) (map (sweep alive now) ?ss)\<rparr>
        else t2)"
    using o i u by (simp add: getnewutmpent_def Let_def t1_def [symmetric] t2_def)
  then have r: "nat r - 1 = ?i" and t': "uinfo t' = map (sweep alive now) ?ss \<or> uinfo t' = ?ss"
    using assms(1) by (auto simp: t2_def split: if_splits)
  have s: "uinfo t' ! k = ?ss ! k" if "k < length (uinfo t)" "pid (?ss ! k) \<noteq> 1" "alive (pid (?ss ! k))" for k
    using t' that by (auto simp: sweep_def)
  have "slot_is_free now (uinfo t ! ?i)" using first_slot_hit [of "slot_is_free now" "uinfo t" 0] i by simp
  then show ?thesis using r i t' s by auto
qed

definition three_sessions :: utmp where
  "three_sessions = \<lparr>uinfo = [\<lparr>active = True, uid = 1, pid = 10, invisible = 0, destuid = 0, idle_time = 0, deactive_time = 0\<rparr>,
       \<lparr>active = False, uid = 2, pid = 0, invisible = 0, destuid = 0, idle_time = 0, deactive_time = 950\<rparr>,
       \<lparr>active = False, uid = 0, pid = 0, invisible = 0, destuid = 0, idle_time = 0, deactive_time = 0\<rparr>],
     ut_uptime = 0, usersum = 0, max_login_num = 0, ulist_file = []\<rparr>"

theorem new_session_keeps_the_living_witness:
  "\<exists>t'. getnewutmpent True (\<lambda>p. p = 10 \<or> p = 20) 1000 1 5 \<lparr>active = True, uid = 7, pid = 20, invisible = 0, destuid = 0, idle_time = 0, deactive_time = 0\<rparr> three_sessions = (3, t') \<and>
    uinfo t' ! 2 = \<lparr>active = True, uid = 7, pid = 20, invisible = 0, destuid = 0, idle_time = 0, deactive_time = 0\<rparr>"
proof -
  let ?up = "\<lparr>active = True, uid = 7, pid = 20, invisible = 0, destuid = 0, idle_time = 0, deactive_time = 0\<rparr>"
  obtain t' where "getnewutmpent True (\<lambda>p. p = 10 \<or> p = 20) 1000 1 5 ?up three_sessions = (3, t')"
    by (simp add: getnewutmpent_def three_sessions_def slot_is_free_def Let_def)
  then show ?thesis using new_session_keeps_the_living [of True "\<lambda>p. p = 10 \<or> p = 20" 1000 1 5 ?up three_sessions 3 t'] by simp
qed

text \<open>
  C3. When the file of the users cannot be opened at the daily reload, the table is emptied, and for a day
  nobody is found and the first number counts as free.
\<close>
theorem failed_reload_forgets_users:
  assumes "\<not> u_updating uc" and "u_uptime uc + 86400 < now" and "fs (passfile uf) = None \<or> \<not> open_ok e" and "0 < length (userids uc)"
    and "now \<le> later" and "later \<le> now + 86400"
  defines "uc1 \<equiv> resolve_ucache e fs uf now True uc"
  shows "searchuser u uc1 = 0 \<and> searchnewuser uc1 = 1 \<and> resolve_ucache e' fs' uf later True uc1 = uc1"
proof -
  have "open_file e fs (passfile uf) = None" using assms(3) by (auto simp: open_file_def)
  then have "uc1 = uc\<lparr>unumber := 0, u_uptime := now\<rparr>" using assms(1,2) by (simp add: uc1_def resolve_ucache_def apply_record_def)
  then show ?thesis using assms(4-6) by (simp add: searchuser_def searchnewuser_def resolve_ucache_def)
qed

definition some_users :: ucache where
  "some_users = \<lparr>userids = [''SYSOP'', ''guest'', []], unumber = 2, u_updating = False, u_uptime = 0\<rparr>"

theorem failed_reload_forgets_users_witness:
  "searchuser ''guest'' some_users = 2 \<and>
   searchuser ''guest'' (resolve_ucache env_fine (\<lambda>n. None) \<lparr>passfile = ''.PASSWDS'', rec_size = 512, uid_of = (\<lambda>p. [])\<rparr> 90000 True some_users) = 0"
proof -
  have "searchuser ''guest'' some_users = 2" by code_simp
  then show ?thesis
    using failed_reload_forgets_users [of some_users 90000 "\<lambda>n. None" "\<lparr>passfile = ''.PASSWDS'', rec_size = 512, uid_of = (\<lambda>p. [])\<rparr>" env_fine 90000 "''guest''"]
    by (simp add: some_users_def)
qed

text \<open>C28. 
  C4. A new user gets a number that is free, and is found under it afterwards in any case of the letters,
  when no one before has the identifier.
\<close>
theorem new_user_is_found:
  assumes "searchnewuser uc = n" and "n \<noteq> 0" and "unumber uc \<le> length (userids uc)" and "searchuser u uc = 0" and "u \<noteq> []" and "length u \<le> 12"
    and "\<forall>c\<in>set u. c \<noteq> NUL" and "map chartolower v = map chartolower u"
  shows "(n \<le> unumber uc \<longrightarrow> userids uc ! (n - 1) = []) \<and> searchuser v (setuserid (int n) u uc) = n \<and>
    getuserid n (setuserid (int n) u uc) = Some u"
proof -
  let ?ids = "userids uc" and ?m = "unumber uc"
  have n: "n \<le> length ?ids" "n \<le> ?m \<longrightarrow> ?ids ! (n - 1) = []" "n \<le> ?m + 1"
  proof -
    have h: "n \<le> ?m \<and> ?ids ! (n - 1) = []" if "find_row (\<lambda>r. r = []) (take ?m ?ids) 0 \<noteq> 0"
    proof -
      have k: "find_row (\<lambda>r. r = []) (take ?m ?ids) 0 = n" using assms(1) that by (simp add: searchnewuser_def Let_def)
      from find_row_hit [OF k assms(2)] show ?thesis using assms(3) by auto
    qed
    have o: "n = ?m + 1 \<and> ?m < length ?ids" if "find_row (\<lambda>r. r = []) (take ?m ?ids) 0 = 0"
      using assms(1,2) that by (auto simp: searchnewuser_def Let_def split: if_splits)
    show "n \<le> length ?ids" "n \<le> ?m \<longrightarrow> ?ids ! (n - 1) = []" "n \<le> ?m + 1" using h o assms(3) by force+
  qed
  have ur: "uid_row u = u" using assms(6) by (simp add: uid_row_def)
  define uc1 where "uc1 = setuserid (int n) u uc"
  have ids: "userids uc1 = ?ids[n - 1 := u]" "unumber uc1 = max ?m n"
    using n(1) assms(2) ur by (auto simp: uc1_def setuserid_def Let_def max_def)
  have g: "getuserid n uc1 = Some u" using ids(1) n(1) assms(2) by (simp add: getuserid_def)
  let ?P = "\<lambda>r. strncaseeq v r 13"
  have pe: "strncaseeq v r 13 = strncaseeq u r 13" for r
  proof -
    have "map chartolower (take 13 v) = map chartolower (take 13 u)" using assms(8) by (metis take_map)
    then show ?thesis by (simp add: strncaseeq_def)
  qed
  have hit: "?P (take (max ?m n) (?ids[n - 1 := u]) ! (n - 1))" using n(1) assms(2) pe by (simp add: strncaseeq_def)
  have before: "\<not> ?P (take (max ?m n) (?ids[n - 1 := u]) ! j)" if "j < n - 1" for j
  proof -
    have "j < ?m" using that n(3) by linarith
    then have "?ids ! j \<in> set (take ?m ?ids)" using assms(3) by (metis in_set_conv_nth length_take min.absorb2 nth_take)
    then have "\<not> strncaseeq u (?ids ! j) 13" using assms(4) find_row_range unfolding searchuser_def by metis
    then show ?thesis using that pe \<open>j < ?m\<close> by simp
  qed
  have "find_row ?P (take (max ?m n) (?ids[n - 1 := u])) 0 = 0 + (n - 1) + 1"
    by (rule find_row_first [where m = "n - 1"]) (use n(1) assms(2) before hit in auto)
  then have "searchuser v uc1 = n" using ids assms(2) by (simp add: searchuser_def)
  then show ?thesis using g n(2) by (simp add: uc1_def)
qed

theorem new_user_is_found_witness:
  "searchnewuser some_users = 3 \<and> searchuser ''NewBie'' (setuserid (int 3) ''newbie'' some_users) = 3 \<and> getuserid 3 (setuserid (int 3) ''newbie'' some_users) = Some ''newbie''"
proof -
  have "searchnewuser some_users = 3" by (simp add: searchnewuser_def some_users_def)
  moreover have "searchuser ''newbie'' some_users = 0" by code_simp
  moreover have "map chartolower ''NewBie'' = map chartolower ''newbie''" by code_simp
  ultimately show ?thesis using new_user_is_found [of some_users 3 "''newbie''" "''NewBie''"] by (simp add: some_users_def)
qed

end
