(* ===== verification/Mines.thy ===== *)
theory Mines
  imports CString "HOL-Library.Multiset"
begin

text \<open>
  The mine sweeper of util/game/winmine.c.  The three fields \<open>a\<close>, \<open>m\<close> and \<open>o\<close> of 32 by 18 are \<open>mine\<close>,
  \<open>mark\<close> and \<open>opened\<close>; only the 30 by 16 cells inside them are played on, and every place that is looked at
  is such a cell or one beside it.  What is drawn is left out.
\<close>

section \<open>The field\<close>

record mines =
  mine :: "nat \<Rightarrow> nat \<Rightarrow> bool"
  mark :: "nat \<Rightarrow> nat \<Rightarrow> bool"
  opened :: "nat \<Rightarrow> nat \<Rightarrow> bool"
  gameover :: bool

definition put :: "nat \<Rightarrow> nat \<Rightarrow> bool \<Rightarrow> (nat \<Rightarrow> nat \<Rightarrow> bool) \<Rightarrow> nat \<Rightarrow> nat \<Rightarrow> bool" where
  "put x y b f = f(x := (f x)(y := b))"

definition outside :: "nat \<Rightarrow> nat \<Rightarrow> bool" where
  "outside x y \<longleftrightarrow> x < 1 \<or> 30 < x \<or> y < 1 \<or> 16 < y"

text \<open>The two loops over the cells around a cell, the cell itself included.\<close>

definition around :: "nat \<Rightarrow> nat \<Rightarrow> (nat \<times> nat) list" where
  "around x y = List.product [x - 1..<x + 2] [y - 1..<y + 2]"

definition num_mine_beside :: "nat \<Rightarrow> nat \<Rightarrow> mines \<Rightarrow> nat" where
  "num_mine_beside x1 y1 g = length (filter (\<lambda>(dx, dy). \<not> (dx = x1 \<and> dy = y1) \<and> mine g dx dy) (around x1 y1))"

definition num_mark_beside :: "nat \<Rightarrow> nat \<Rightarrow> mines \<Rightarrow> nat" where
  "num_mark_beside x1 y1 g = length (filter (\<lambda>(dx, dy). \<not> (dx = x1 \<and> dy = y1) \<and> mark g dx dy) (around x1 y1))"

text \<open>
  \<open>wininit\<close> lays \<open>n\<close> mines (99 in the program); \<open>rs\<close> is what \<open>myrand\<close> returns one after the other, and
  \<open>None\<close> says that more of them are needed.
\<close>

fun wininit :: "nat \<Rightarrow> nat \<Rightarrow> nat \<Rightarrow> nat list \<Rightarrow> mines \<Rightarrow> mines option" where
  "wininit 0 x1 y1 rs g = Some g"
| "wininit (Suc n) x1 y1 (r1 # r2 # rs) g =
     (let x = r1 mod 30 + 1; y = r2 mod 16 + 1 in
      if mine g x y \<or> \<bar>int x - int x1\<bar> < 2 \<and> \<bar>int y - int y1\<bar> < 2 then wininit (Suc n) x1 y1 rs g
      else wininit n x1 y1 rs (g\<lparr>mine := put x y True (mine g)\<rparr>))"
| "wininit (Suc n) x1 y1 rs g = None"

lemma put_at [simp]: "put x y b f x' y' = (if x' = x \<and> y' = y then b else f x' y')"
  by (simp add: put_def)

definition cells :: "(nat \<times> nat) set" where
  "cells = {1..30} \<times> {1..16}"

lemma finite_cells [simp]: "finite cells"
  by (simp add: cells_def)

lemma outside_cells: "\<not> outside x y \<longleftrightarrow> (x, y) \<in> cells"
  by (auto simp: outside_def cells_def)

definition closed_cells :: "mines \<Rightarrow> (nat \<times> nat) set" where
  "closed_cells g = {(x, y). (x, y) \<in> cells \<and> \<not> opened g x y}"

lemma finite_closed [simp]: "finite (closed_cells g)"
  by (rule finite_subset [OF _ finite_cells]) (auto simp: closed_cells_def)

lemma closed_over [simp]: "closed_cells (g\<lparr>gameover := b\<rparr>) = closed_cells g"
  by (simp add: closed_cells_def)

lemma closed_put: "(x, y) \<in> cells \<Longrightarrow> \<not> opened g x y \<Longrightarrow>
    closed_cells (g\<lparr>opened := put x y True (opened g)\<rparr>) = closed_cells g - {(x, y)} \<and> (x, y) \<in> closed_cells g"
  by (auto simp: closed_cells_def)

text \<open>Opening a cell, which opens all around it when there is no mine beside it.\<close>

function (sequential) windig :: "nat \<Rightarrow> nat \<Rightarrow> mines \<Rightarrow> mines"
and windigs :: "(nat \<times> nat) list \<Rightarrow> mines \<Rightarrow> mines" where
  "windig x y g =
     (if outside x y then g
      else if opened g x y \<or> mark g x y then g
      else
        let g1 = g\<lparr>opened := put x y True (opened g)\<rparr> in
        if mine g1 x y then g1\<lparr>gameover := True\<rparr>
        else if num_mine_beside x y g1 = 0 then windigs (around x y) g1
        else g1)"
| "windigs [] g = g"
| "windigs ((x, y) # cs) g = windigs cs (windig x y g)"
  by pat_completeness auto

termination
proof (relation "inv_image (finite_psubset <*lex*> less_than) (\<lambda>v. case v of Inl (x, y, g) \<Rightarrow> (closed_cells g, 0) | Inr (cs, g) \<Rightarrow> (closed_cells g, Suc (length cs)))", goal_cases)
  case 1
  show ?case by auto
next
  case (2 x y g g1)
  then show ?case using closed_put [of x y g] by (auto simp: outside_cells finite_psubset_def)
next
  case (3 x y cs g)
  then show ?case by (auto simp: finite_psubset_def)
next
  case (4 x y cs g)
  have shrinks: "closed_cells (windig x y g) \<subseteq> closed_cells g" if "windig_windigs_dom (Inl (x, y, g))" for x y g
    using that
  proof (induction rule: windig_windigs.pinduct(1) [where Q = "\<lambda>cs g. closed_cells (windigs cs g) \<subseteq> closed_cells g"])
    case (1 x y g)
    show ?case
    proof (cases "outside x y \<or> opened g x y \<or> mark g x y")
      case True
      then show ?thesis using 1(1) by (auto simp: windig.psimps)
    next
      case False
      let ?g1 = "g\<lparr>opened := put x y True (opened g)\<rparr>"
      have c: "closed_cells ?g1 \<subseteq> closed_cells g" by (auto simp: closed_cells_def)
      have "closed_cells (windigs (around x y) ?g1) \<subseteq> closed_cells ?g1" if "\<not> mine ?g1 x y" "num_mine_beside x y ?g1 = 0"
        using 1(2) False that by blast
      then show ?thesis using 1(1) False c by (auto simp: windig.psimps Let_def split: if_splits)
    qed
  next
    case (2 g)
    then show ?case by (simp add: windigs.psimps)
  next
    case (3 x y cs g)
    then show ?case by (auto simp: windigs.psimps)
  qed
  then show ?case using 4 by (auto simp: finite_psubset_def)
qed

definition dblclick :: "nat \<Rightarrow> nat \<Rightarrow> mines \<Rightarrow> mines" where
  "dblclick x y g =
     (if outside x y then g
      else if \<not> opened g x y then g
      else if num_mine_beside x y g \<noteq> num_mark_beside x y g then g
      else windigs (around x y) g)"

definition dig :: "nat \<Rightarrow> nat \<Rightarrow> mines \<Rightarrow> mines" where
  "dig x y g = (if \<not> opened g x y then windig x y g else dblclick x y g)"

definition checkwin :: "mines \<Rightarrow> bool" where
  "checkwin g \<longleftrightarrow> \<not> gameover g \<and> length (filter (\<lambda>(x, y). \<not> opened g x y) (List.product [1..<31] [1..<17])) = 99"

section \<open>What a dig opens\<close>

definition free :: "mines \<Rightarrow> nat \<Rightarrow> nat \<Rightarrow> bool" where
  "free g x y \<longleftrightarrow> (x, y) \<in> cells \<and> \<not> opened g x y \<and> \<not> mark g x y"

text \<open>The cells a dig at a free cell reaches: through cells with no mine on or beside them.\<close>

inductive spread :: "mines \<Rightarrow> nat \<Rightarrow> nat \<Rightarrow> nat \<Rightarrow> nat \<Rightarrow> bool" for g x y where
  spread_start: "free g x y \<Longrightarrow> spread g x y x y"
| spread_next: "spread g x y a b \<Longrightarrow> \<not> mine g a b \<Longrightarrow> num_mine_beside a b g = 0 \<Longrightarrow> (c, d) \<in> set (around a b) \<Longrightarrow> free g c d \<Longrightarrow> spread g x y c d"

lemma spread_free: "spread g x y a b \<Longrightarrow> free g a b"
  by (induction rule: spread.induct) auto

lemma spread_trans: "spread g c d a b \<Longrightarrow> spread g x y c d \<Longrightarrow> spread g x y a b"
  by (induction rule: spread.induct) (auto intro: spread_next)

definition grown :: "mines \<Rightarrow> mines \<Rightarrow> bool" where
  "grown g g' \<longleftrightarrow> mine g' = mine g \<and> mark g' = mark g \<and> (\<forall>a b. opened g a b \<longrightarrow> opened g' a b)"

lemma grown_refl [simp]: "grown g g"
  by (simp add: grown_def)

lemma grown_trans: "grown g g' \<Longrightarrow> grown g' g'' \<Longrightarrow> grown g g''"
  by (simp add: grown_def)

lemma grown_beside: "grown g g' \<Longrightarrow> num_mine_beside a b g' = num_mine_beside a b g"
  by (simp add: grown_def num_mine_beside_def)

lemma grown_free: "grown g g' \<Longrightarrow> free g' a b \<Longrightarrow> free g a b"
  by (auto simp: grown_def free_def)

lemma grown_spread:
  assumes "spread g' x y a b" and "grown g g'"
  shows "spread g x y a b"
  using assms(1)
proof (induction rule: spread.induct)
  case spread_start
  then show ?case using grown_free [OF assms(2)] by (blast intro: spread.spread_start)
next
  case (spread_next a b c d)
  have m: "\<not> mine g a b" "num_mine_beside a b g = 0"
    using spread_next.hyps assms(2) grown_beside [OF assms(2)] by (simp_all add: grown_def)
  show ?case
    using spread.spread_next [OF spread_next.IH m spread_next.hyps(4) grown_free [OF assms(2) spread_next.hyps(5)]] .
qed

definition opens :: "nat \<Rightarrow> nat \<Rightarrow> mines \<Rightarrow> mines" where
  "opens x y g = g\<lparr>opened := put x y True (opened g)\<rparr>"

lemma grown_opens [simp]: "grown g (opens x y g)"
  by (simp add: grown_def opens_def)

lemma opens_sel [simp]: "mine (opens x y g) = mine g" "mark (opens x y g) = mark g" "gameover (opens x y g) = gameover g"
    "opened (opens x y g) a b \<longleftrightarrow> (a = x \<and> b = y) \<or> opened g a b"
  by (auto simp: opens_def)

text \<open>One step of \<open>windig\<close>, on a cell that is free and on one that is not.\<close>

lemma windig_blocked: "\<not> free g x y \<Longrightarrow> windig x y g = g"
  by (auto simp: free_def outside_cells [symmetric])

lemma windig_free: "free g x y \<Longrightarrow> windig x y g =
    (if mine g x y then (opens x y g)\<lparr>gameover := True\<rparr>
     else if num_mine_beside x y g = 0 then windigs (around x y) (opens x y g) else opens x y g)"
  using grown_beside [OF grown_opens, of x y x y g]
  by (simp add: free_def outside_cells [symmetric] opens_def Let_def)

declare windig.simps [simp del]

lemma dig_induct [case_names blocked bomb near wide none more]:
  assumes "\<And>x y g. \<not> free g x y \<Longrightarrow> P x y g g"
    and "\<And>x y g. free g x y \<Longrightarrow> mine g x y \<Longrightarrow> P x y g ((opens x y g)\<lparr>gameover := True\<rparr>)"
    and "\<And>x y g. free g x y \<Longrightarrow> \<not> mine g x y \<Longrightarrow> num_mine_beside x y g \<noteq> 0 \<Longrightarrow> P x y g (opens x y g)"
    and "\<And>x y g. free g x y \<Longrightarrow> \<not> mine g x y \<Longrightarrow> num_mine_beside x y g = 0 \<Longrightarrow>
        Q (around x y) (opens x y g) (windigs (around x y) (opens x y g)) \<Longrightarrow> P x y g (windigs (around x y) (opens x y g))"
    and "\<And>g. Q [] g g"
    and "\<And>x y cs g. P x y g (windig x y g) \<Longrightarrow> Q cs (windig x y g) (windigs cs (windig x y g)) \<Longrightarrow> Q ((x, y) # cs) g (windigs cs (windig x y g))"
  shows "P x y g (windig x y g)" and "Q cs g (windigs cs g)"
proof (induction x y g and cs g rule: windig_windigs.induct)
  case (1 x y g)
  show ?case
  proof (cases "free g x y")
    case True
    have "Q (around x y) (opens x y g) (windigs (around x y) (opens x y g))" if "\<not> mine g x y" "num_mine_beside x y g = 0"
      using 1 True that grown_beside [OF grown_opens, of x y x y g] by (simp add: free_def outside_cells [symmetric] opens_def)
    then show ?thesis using assms(2-4) True by (simp add: windig_free)
  qed (simp add: windig_blocked assms(1))
qed (simp_all add: assms(5,6))

lemma dig_grown: "grown g (windig x y g)" "grown g (windigs cs g)"
proof (induction x y g and cs g rule: dig_induct)
  case (wide x y g)
  show ?case using grown_trans [OF grown_opens wide.IH] .
next
  case (more x y cs g)
  show ?case using grown_trans [OF more.IH] .
qed (auto simp: grown_def)

lemma dig_sound:
  "opened (windig x y g) a b \<Longrightarrow> opened g a b \<or> spread g x y a b"
  "opened (windigs cs g) a b \<Longrightarrow> opened g a b \<or> (\<exists>(x, y)\<in>set cs. spread g x y a b)"
proof (induction x y g and cs g arbitrary: a b and a b rule: dig_induct)
  case (bomb x y g)
  then show ?case by (auto intro: spread_start)
next
  case (near x y g)
  then show ?case by (auto intro: spread_start)
next
  case (wide x y g)
  from wide.IH [OF wide.prems] consider "a = x \<and> b = y" | "opened g a b" | c d where "(c, d) \<in> set (around x y)" "spread (opens x y g) c d a b"
    by auto
  then show ?case
  proof cases
    case 3
    have s: "spread g c d a b" using grown_spread [OF 3(2) grown_opens] .
    have "free g c d" using s by (induction rule: spread.induct)
    then have "spread g x y c d" using spread_next [OF spread_start wide(2,3) 3(1)] wide(1) by blast
    then show ?thesis using spread_trans [OF s] by simp
  qed (use wide in \<open>auto intro: spread_start\<close>)
next
  case (more x y cs g)
  from more.IH(2) [OF more.prems] more.IH(1) show ?case using grown_spread [OF _ dig_grown(1)] by fastforce
qed auto

text \<open>What has been opened has no free cell beside it, when no mine is.\<close>

definition swept :: "mines \<Rightarrow> mines \<Rightarrow> bool" where
  "swept g g' \<longleftrightarrow> (\<forall>a b. opened g' a b \<longrightarrow> \<not> opened g a b \<longrightarrow> \<not> mine g a b \<longrightarrow> num_mine_beside a b g = 0 \<longrightarrow>
     (\<forall>(c, d)\<in>set (around a b). \<not> free g' c d))"

lemma swept_trans:
  assumes s: "swept g g'" "swept g' g''" and gr: "grown g g'" "grown g' g''"
  shows "swept g g''"
  unfolding swept_def
proof (intro allI impI)
  fix a b assume h: "opened g'' a b" "\<not> opened g a b" "\<not> mine g a b" "num_mine_beside a b g = 0"
  have "\<not> free g' c d \<or> \<not> free g'' c d" if "(c, d) \<in> set (around a b)" for c d
  proof (cases "opened g' a b")
    case True
    then show ?thesis using s(1) h that unfolding swept_def by blast
  next
    case False
    moreover have "\<not> mine g' a b" "num_mine_beside a b g' = 0" using gr(1) h grown_beside [OF gr(1)] by (simp_all add: grown_def)
    ultimately show ?thesis using s(2) h that unfolding swept_def by blast
  qed
  then show "\<forall>(c, d)\<in>set (around a b). \<not> free g'' c d" using grown_free [OF gr(2)] by blast
qed

lemma dig_swept:
  "swept g (windig x y g) \<and> \<not> free (windig x y g) x y"
  "swept g (windigs cs g) \<and> (\<forall>(x, y)\<in>set cs. \<not> free (windigs cs g) x y)"
proof (induction x y g and cs g rule: dig_induct)
  case (wide x y g)
  let ?g1 = "opens x y g" and ?g2 = "windigs (around x y) (opens x y g)"
  have gr: "grown ?g1 ?g2" by (rule dig_grown)
  have "swept g ?g2"
    unfolding swept_def
  proof (intro allI impI)
    fix a b assume h: "opened ?g2 a b" "\<not> opened g a b" "\<not> mine g a b" "num_mine_beside a b g = 0"
    show "\<forall>(c, d)\<in>set (around a b). \<not> free ?g2 c d"
    proof (cases "a = x \<and> b = y")
      case False
      then show ?thesis using wide.IH h grown_beside [OF grown_opens, of a b x y g] unfolding swept_def by simp
    qed (use wide.IH in simp)
  qed
  moreover have "\<not> free ?g2 x y" using gr by (auto simp: grown_def free_def)
  ultimately show ?case by simp
next
  case (more x y cs g)
  let ?g1 = "windig x y g" and ?g2 = "windigs cs (windig x y g)"
  have "swept g ?g2" using more.IH swept_trans dig_grown by blast
  moreover have "\<not> free ?g2 x y" using more.IH(1) grown_free [OF dig_grown(2)] by blast
  ultimately show ?case using more.IH(2) by simp
qed (auto simp: swept_def free_def)

lemma dig_complete:
  assumes "spread g x y a b"
  shows "opened (windig x y g) a b"
  using assms
proof (induction rule: spread.induct)
  case spread_start
  then show ?case using dig_swept(1) [of g x y] dig_grown(1) [of g x y] by (auto simp: free_def grown_def)
next
  case (spread_next a b c d)
  have "\<not> opened g a b" using spread_free [OF spread_next.hyps(1)] by (simp add: free_def)
  then have "\<not> free (windig x y g) c d"
    using spread_next dig_swept(1) [of g x y] unfolding swept_def by blast
  then show ?case using spread_next(5) dig_grown(1) [of g x y] by (auto simp: free_def grown_def)
qed

lemma dig_gameover:
  "gameover (windig x y g) \<longleftrightarrow> gameover g \<or> (\<exists>a b. opened (windig x y g) a b \<and> \<not> opened g a b \<and> mine g a b)"
  "gameover (windigs cs g) \<longleftrightarrow> gameover g \<or> (\<exists>a b. opened (windigs cs g) a b \<and> \<not> opened g a b \<and> mine g a b)"
proof (induction x y g and cs g rule: dig_induct)
  case (wide x y g)
  then show ?case by auto
next
  case (more x y cs g)
  show ?case using more.IH dig_grown(1) [of g x y] dig_grown(2) [of "windig x y g" cs] unfolding grown_def by metis
qed (auto simp: free_def)

text \<open>No mine is reached from a cell that is none.\<close>

lemma spread_safe: "spread g x y a b \<Longrightarrow> \<not> mine g x y \<Longrightarrow> \<not> mine g a b"
  by (induction rule: spread.induct) (auto simp: num_mine_beside_def filter_empty_conv)

section \<open>A game\<close>

record play =
  field :: mines
  px :: nat
  py :: nat
  marked :: int
  inited :: bool

datatype game_end = Playing | Won | Lost

definition empty_field :: mines where
  "empty_field = \<lparr>mine = \<lambda>x y. False, mark = \<lambda>x y. False, opened = \<lambda>x y. False, gameover = False\<rparr>"

definition fresh_play :: play where
  "fresh_play = \<lparr>field = empty_field, px = 10, py = 8, marked = 0, inited = False\<rparr>"

text \<open>Codes of \<open>egetch\<close>: the arrows are 257 to 260.\<close>

definition cursor_key :: "nat \<Rightarrow> play \<Rightarrow> play" where
  "cursor_key c p =
     (let p1 = (if (c = 257 \<or> c = cval CHR ''k'') \<and> 1 < py p then p\<lparr>py := py p - 1\<rparr> else p);
          p2 = (if (c = 258 \<or> c = cval CHR ''j'') \<and> py p1 < 16 then p1\<lparr>py := py p1 + 1\<rparr> else p1);
          p3 = (if (c = 260 \<or> c = cval CHR ''h'') \<and> 1 < px p2 then p2\<lparr>px := px p2 - 1\<rparr> else p2)
      in if (c = 259 \<or> c = cval CHR ''l'') \<and> px p3 < 30 then p3\<lparr>px := px p3 + 1\<rparr> else p3)"

definition mark_key :: "play \<Rightarrow> play" where
  "mark_key p =
     (let g = field p; x = px p; y = py p in
      if opened g x y then p
      else if mark g x y then p\<lparr>field := g\<lparr>mark := put x y False (mark g)\<rparr>, marked := marked p - 1\<rparr>
      else p\<lparr>field := g\<lparr>mark := put x y True (mark g)\<rparr>, marked := marked p + 1\<rparr>)"

text \<open>One turn of \<open>winloop\<close>; \<open>rs\<close> is what \<open>myrand\<close> would return in it.\<close>

definition winturn :: "nat list \<Rightarrow> nat \<Rightarrow> play \<Rightarrow> (play \<times> game_end) option" where
  "winturn rs c p0 =
     (let p = cursor_key c p0; x = px p; y = py p;
          p1 = (if c = cval CHR ''f'' \<or> c = cval CHR ''F'' then
                  (case (if inited p then Some (field p) else wininit 99 x y rs (field p)) of
                     None \<Rightarrow> None
                   | Some g \<Rightarrow> Some (p\<lparr>field := dig x y g, inited := True\<rparr>))
                else Some p)
      in case p1 of
           None \<Rightarrow> None
         | Some p2 \<Rightarrow>
             let p3 = (if c = 83 \<or> c = 115 then mark_key p2 else p2) in
             if checkwin (field p3) then Some (p3\<lparr>field := (field p3)\<lparr>gameover := False\<rparr>, inited := False\<rparr>, Won)
             else if gameover (field p3) then Some (p3\<lparr>field := (field p3)\<lparr>gameover := False\<rparr>\<rparr>, Lost)
             else Some (p3, Playing))"

text \<open>The states in which a key is waited for.\<close>

inductive playing :: "play \<Rightarrow> bool" where
  playing_start: "playing fresh_play"
| playing_turn: "playing p \<Longrightarrow> winturn rs c p = Some (p', Playing) \<Longrightarrow> playing p'"

section \<open>Laying the mines\<close>

definition mines_of :: "mines \<Rightarrow> (nat \<times> nat) set" where
  "mines_of g = {(x, y). mine g x y}"

definition near :: "nat \<Rightarrow> nat \<Rightarrow> (nat \<times> nat) set" where
  "near x y = {(a, b). \<bar>int a - int x\<bar> < 2 \<and> \<bar>int b - int y\<bar> < 2}"

lemma near_iff: "(a, b) \<in> near x y \<longleftrightarrow> \<bar>int a - int x\<bar> < 2 \<and> \<bar>int b - int y\<bar> < 2"
  by (simp add: near_def)

lemma around_near:
  assumes "1 \<le> x" and "1 \<le> y"
  shows "set (around x y) = near x y"
proof -
  have "a \<in> {v - 1..<v + 2} \<longleftrightarrow> \<bar>int a - int v\<bar> < 2" if "1 \<le> v" for a v :: nat
    using that by auto
  then have r: "a \<in> {x - 1..<x + 2} \<longleftrightarrow> \<bar>int a - int x\<bar> < 2" "a \<in> {y - 1..<y + 2} \<longleftrightarrow> \<bar>int a - int y\<bar> < 2" for a
    using assms by blast+
  show ?thesis
  proof (rule set_eqI)
    fix p :: "nat \<times> nat"
    obtain a b where p: "p = (a, b)" by (cases p)
    show "p \<in> set (around x y) \<longleftrightarrow> p \<in> near x y" using r(1) [of a] r(2) [of b] by (simp only: p around_def set_product set_upt mem_Times_iff fst_conv snd_conv near_iff)
  qed
qed

lemma wininit_lays:
  "wininit n x1 y1 rs g = Some g' \<Longrightarrow> mines_of g \<subseteq> cells \<Longrightarrow>
   mines_of g' \<subseteq> cells \<and> mines_of g \<subseteq> mines_of g' \<and> mines_of g' \<inter> near x1 y1 = mines_of g \<inter> near x1 y1 \<and> card (mines_of g') = card (mines_of g) + n \<and>
   mark g' = mark g \<and> opened g' = opened g \<and> gameover g' = gameover g"
proof (induction n x1 y1 rs g rule: wininit.induct)
  case (2 n x1 y1 r1 r2 rs g)
  let ?x = "r1 mod 30 + 1" and ?y = "r2 mod 16 + 1"
  let ?g = "g\<lparr>mine := put ?x ?y True (mine g)\<rparr>"
  show ?case
  proof (cases "mine g ?x ?y \<or> (?x, ?y) \<in> near x1 y1")
    case True
    then show ?thesis using 2 by (simp add: near_def)
  next
    case False
    have s: "mines_of ?g = insert (?x, ?y) (mines_of g)" by (auto simp: mines_of_def)
    have c: "(?x, ?y) \<in> cells" by (auto simp: cells_def)
    have "card (mines_of ?g) = card (mines_of g) + 1"
      using s False finite_subset [OF 2(4) finite_cells] by (simp add: mines_of_def)
    moreover have "wininit n x1 y1 rs ?g = Some g'" using 2(3) False by (auto simp: near_iff Let_def split: if_splits)
    moreover have "mines_of ?g \<subseteq> cells" using s c 2(4) by simp
    moreover have "mines_of ?g \<inter> near x1 y1 = mines_of g \<inter> near x1 y1" using s False by auto
    moreover have "\<not> (mine g ?x ?y \<or> \<bar>int ?x - int x1\<bar> < 2 \<and> \<bar>int ?y - int y1\<bar> < 2)" using False by (simp add: near_iff)
    ultimately have "mines_of g' \<subseteq> cells \<and> mines_of ?g \<subseteq> mines_of g' \<and> mines_of g' \<inter> near x1 y1 = mines_of g \<inter> near x1 y1 \<and>
        card (mines_of g') = card (mines_of g) + 1 + n \<and> mark g' = mark g \<and> opened g' = opened g \<and> gameover g' = gameover g"
      using 2(2) [OF refl refl] by simp
    then show ?thesis using s by auto
  qed
qed auto

lemma card_cells: "card cells = 480"
  by (simp add: cells_def card_cartesian_product)

lemma card_near: "finite (near x y) \<and> card (near x y) \<le> 9"
proof -
  have "near x y \<subseteq> (\<lambda>(i, j). (x + i - 1, y + j - 1)) ` ({0..2} \<times> {0..2})" (is "_ \<subseteq> ?f ` ?S")
  proof
    fix p assume "p \<in> near x y"
    then obtain a b where p: "p = (a, b)" "\<bar>int a - int x\<bar> < 2" "\<bar>int b - int y\<bar> < 2" by (auto simp: near_def)
    then have "p = ?f (a + 1 - x, b + 1 - y)" "(a + 1 - x, b + 1 - y) \<in> ?S" by auto
    then show "p \<in> ?f ` ?S" by blast
  qed
  moreover have S: "finite ?S" "card ?S = 9" by (simp_all add: card_cartesian_product)
  moreover have "card (?f ` ?S) \<le> 9" using card_image_le [OF S(1), of ?f] S(2) by simp
  ultimately show ?thesis using card_mono [of "?f ` ?S" "near x y"] finite_subset [of "near x y" "?f ` ?S"] by auto
qed

lemma wininit_ends:
  "mines_of g \<subseteq> cells \<Longrightarrow> card (mines_of g) + n \<le> 471 \<Longrightarrow> \<exists>rs g'. wininit n x1 y1 rs g = Some g'"
proof (induction n arbitrary: g)
  case 0
  show ?case by simp
next
  case (Suc n)
  have f: "finite (mines_of g)" using Suc.prems(1) finite_subset finite_cells by blast
  have "\<not> cells \<subseteq> mines_of g \<union> near x1 y1"
  proof
    assume "cells \<subseteq> mines_of g \<union> near x1 y1"
    then have "480 \<le> card (mines_of g \<union> near x1 y1)" using card_mono [of "mines_of g \<union> near x1 y1" cells] f card_near card_cells by simp
    also have "\<dots> \<le> card (mines_of g) + 9" using card_Un_le [of "mines_of g" "near x1 y1"] card_near [of x1 y1] by linarith
    finally show False using Suc.prems(2) by simp
  qed
  then obtain x y where c: "(x, y) \<in> cells" "\<not> mine g x y" "(x, y) \<notin> near x1 y1" by (auto simp: mines_of_def)
  let ?g = "g\<lparr>mine := put x y True (mine g)\<rparr>"
  have s: "mines_of ?g = insert (x, y) (mines_of g)" by (auto simp: mines_of_def)
  then have "mines_of ?g \<subseteq> cells" "card (mines_of ?g) + n \<le> 471" using c f Suc.prems by (auto simp: mines_of_def)
  then obtain rs g' where "wininit n x1 y1 rs ?g = Some g'" using Suc.IH by blast
  moreover have "(x - 1) mod 30 + 1 = x" "(y - 1) mod 16 + 1 = y" using c(1) by (auto simp: cells_def)
  ultimately have "wininit (Suc n) x1 y1 ((x - 1) # (y - 1) # rs) g = Some g'"
    using c(2,3) by (auto simp: near_iff Let_def)
  then show ?case by blast
qed

section \<open>The invariant of a game\<close>

definition marks_of :: "mines \<Rightarrow> (nat \<times> nat) set" where
  "marks_of g = {(x, y). mark g x y}"

definition field_ok :: "play \<Rightarrow> bool" where
  "field_ok p \<longleftrightarrow> (px p, py p) \<in> cells \<and> marks_of (field p) \<subseteq> cells \<and> marked p = int (card (marks_of (field p))) \<and>
     (\<forall>a b. opened (field p) a b \<longrightarrow> (a, b) \<in> cells \<and> \<not> mark (field p) a b) \<and> mines_of (field p) \<subseteq> cells \<and>
     card (mines_of (field p)) = (if inited p then 99 else 0) \<and> (\<not> inited p \<longrightarrow> (\<forall>a b. \<not> opened (field p) a b))"

definition lost :: "mines \<Rightarrow> bool" where
  "lost g \<longleftrightarrow> (\<exists>a b. opened g a b \<and> mine g a b)"

definition play_ok :: "play \<Rightarrow> bool" where
  "play_ok p \<longleftrightarrow> field_ok p \<and> (gameover (field p) \<longleftrightarrow> lost (field p))"

lemma fresh_ok: "play_ok fresh_play"
  by (simp add: play_ok_def field_ok_def fresh_play_def empty_field_def marks_of_def mines_of_def cells_def lost_def)

lemma cursor_key_field: "field (cursor_key c p) = field p" "marked (cursor_key c p) = marked p" "inited (cursor_key c p) = inited p"
  by (simp_all add: cursor_key_def Let_def)

lemma cursor_key_cells:
  assumes "(px p, py p) \<in> cells"
  shows "(px (cursor_key c p), py (cursor_key c p)) \<in> cells"
proof -
  let ?in = "\<lambda>q. (px q, py q) \<in> cells"
  have "?in (if b \<and> 1 < py q then q\<lparr>py := py q - 1\<rparr> else q)" "?in (if b \<and> py q < 16 then q\<lparr>py := py q + 1\<rparr> else q)"
    "?in (if b \<and> 1 < px q then q\<lparr>px := px q - 1\<rparr> else q)" "?in (if b \<and> px q < 30 then q\<lparr>px := px q + 1\<rparr> else q)" if "?in q" for q b
    using that by (auto simp: cells_def)
  then show ?thesis unfolding cursor_key_def Let_def using assms by blast
qed

lemma cursor_key_ok: "play_ok p \<Longrightarrow> play_ok (cursor_key c p)"
  by (simp add: play_ok_def field_ok_def cursor_key_field cursor_key_cells)

definition only_opens :: "mines \<Rightarrow> mines \<Rightarrow> bool" where
  "only_opens g g' \<longleftrightarrow> grown g g' \<and> (\<forall>a b. opened g' a b \<longrightarrow> opened g a b \<or> free g a b) \<and>
     (gameover g' \<longleftrightarrow> gameover g \<or> (\<exists>a b. opened g' a b \<and> \<not> opened g a b \<and> mine g a b))"

lemma windig_only: "only_opens g (windig x y g)"
  using dig_sound(1) [of x y g] dig_grown(1) [of g x y] dig_gameover(1) [of x y g] spread_free unfolding only_opens_def by blast

lemma windigs_only: "only_opens g (windigs cs g)"
  using dig_sound(2) [of cs g] dig_grown(2) [of g cs] dig_gameover(2) [of cs g] spread_free unfolding only_opens_def by blast

lemma dig_only: "only_opens g (dig x y g)"
proof -
  have "only_opens g g" by (auto simp: only_opens_def)
  then show ?thesis using windig_only windigs_only by (simp add: dig_def dblclick_def)
qed

lemma dig_ok:
  assumes "play_ok p" and "inited p"
  shows "play_ok (p\<lparr>field := dig x y (field p)\<rparr>)"
proof -
  let ?g = "field p" and ?g' = "dig x y (field p)"
  have o: "only_opens ?g ?g'" by (rule dig_only)
  have m: "mine ?g' = mine ?g" "mark ?g' = mark ?g" using o by (simp_all add: only_opens_def grown_def)
  have e: "marks_of ?g' = marks_of ?g" "mines_of ?g' = mines_of ?g" using m by (simp_all add: marks_of_def mines_of_def)
  have n: "opened ?g a b \<or> free ?g a b" if "opened ?g' a b" for a b using o that by (simp add: only_opens_def)
  have k: "opened ?g' a b" if "opened ?g a b" for a b using o that by (simp add: only_opens_def grown_def)
  have v: "gameover ?g' \<longleftrightarrow> gameover ?g \<or> (\<exists>a b. opened ?g' a b \<and> \<not> opened ?g a b \<and> mine ?g a b)" using o by (simp add: only_opens_def)
  have ok: "field_ok p" "gameover ?g \<longleftrightarrow> lost ?g" using assms(1) by (simp_all add: play_ok_def)
  have "gameover ?g' \<longleftrightarrow> lost ?g'"
    unfolding v ok(2) lost_def m(1) using k by blast
  moreover have "\<forall>a b. opened ?g' a b \<longrightarrow> (a, b) \<in> cells \<and> \<not> mark ?g a b"
    using n ok(1) unfolding free_def field_ok_def by blast
  then have "field_ok (p\<lparr>field := ?g'\<rparr>)"
    using ok(1) assms(2) by (simp add: field_ok_def e m)
  ultimately show ?thesis by (simp add: play_ok_def)
qed

lemma laid_ok:
  assumes "play_ok p" and "\<not> inited p" and "wininit 99 x y rs (field p) = Some g"
  shows "play_ok (p\<lparr>field := g, inited := True\<rparr>) \<and> mines_of g \<inter> near x y = {} \<and> (\<forall>a b. \<not> opened g a b) \<and> mark g = mark (field p) \<and> \<not> gameover g"
proof -
  have e: "mines_of (field p) = {}" "\<forall>a b. \<not> opened (field p) a b" "\<not> gameover (field p)"
  proof -
    have "finite (mines_of (field p))" using assms(1) finite_subset [OF _ finite_cells] by (simp add: play_ok_def field_ok_def)
    then show "mines_of (field p) = {}" using assms(1,2) by (simp add: play_ok_def field_ok_def)
    show "\<forall>a b. \<not> opened (field p) a b" using assms(1,2) by (simp add: play_ok_def field_ok_def)
    then show "\<not> gameover (field p)" using assms(1) by (simp add: play_ok_def lost_def)
  qed
  have w: "mines_of g \<subseteq> cells" "mines_of g \<inter> near x y = {}" "card (mines_of g) = 99" "mark g = mark (field p)" "opened g = opened (field p)"
      "gameover g = gameover (field p)"
    using wininit_lays [OF assms(3)] e(1) by simp_all
  then show ?thesis using assms(1) e(2,3) by (auto simp: play_ok_def field_ok_def lost_def marks_of_def)
qed

lemma mark_key_ok:
  assumes "play_ok p"
  shows "play_ok (mark_key p)"
proof -
  let ?g = "field p" and ?x = "px p" and ?y = "py p"
  have f: "finite (marks_of ?g)" using assms finite_subset [OF _ finite_cells] by (auto simp: play_ok_def field_ok_def)
  have u: "marks_of (?g\<lparr>mark := put ?x ?y False (mark ?g)\<rparr>) = marks_of ?g - {(?x, ?y)}"
      "marks_of (?g\<lparr>mark := put ?x ?y True (mark ?g)\<rparr>) = insert (?x, ?y) (marks_of ?g)"
      "mines_of (?g\<lparr>mark := put ?x ?y b (mark ?g)\<rparr>) = mines_of ?g"
      "lost (?g\<lparr>mark := put ?x ?y b (mark ?g)\<rparr>) = lost ?g" for b
    by (auto simp: marks_of_def mines_of_def lost_def)
  have d: "int (card (marks_of ?g - {(?x, ?y)})) = int (card (marks_of ?g)) - 1" if "(?x, ?y) \<in> marks_of ?g"
    using f that by (simp add: of_nat_diff card_gt_0_iff Suc_leI) (metis One_nat_def Suc_leI card_gt_0_iff empty_iff of_nat_1 of_nat_diff)
  have i: "int (card (insert (?x, ?y) (marks_of ?g))) = int (card (marks_of ?g)) + 1" if "(?x, ?y) \<notin> marks_of ?g"
    using f that by simp
  have m: "mark ?g ?x ?y \<longleftrightarrow> (?x, ?y) \<in> marks_of ?g" by (simp add: marks_of_def)
  show ?thesis
    using assms d i by (auto simp: mark_key_def Let_def play_ok_def field_ok_def u m)
qed

lemma mark_key_field: "mine (field (mark_key p)) = mine (field p)" "opened (field (mark_key p)) = opened (field p)"
    "inited (mark_key p) = inited p" "gameover (field (mark_key p)) = gameover (field p)"
  by (simp_all add: mark_key_def Let_def)

lemma checkwin_closed: "checkwin g \<longleftrightarrow> \<not> gameover g \<and> card (closed_cells g) = 99"
proof -
  let ?l = "filter (\<lambda>(x, y). \<not> opened g x y) (List.product [1..<31] [1..<17])"
  have "distinct ?l" by (simp add: distinct_product)
  moreover have "set ?l = closed_cells g" by (auto simp: closed_cells_def cells_def)
  ultimately have "length ?l = card (closed_cells g)" by (metis distinct_card)
  then show ?thesis by (simp add: checkwin_def)
qed

definition cleared :: "mines \<Rightarrow> bool" where
  "cleared g \<longleftrightarrow> (\<forall>a b. (a, b) \<in> cells \<longrightarrow> (opened g a b \<longleftrightarrow> \<not> mine g a b))"

lemma checkwin_cleared:
  assumes "play_ok p"
  shows "checkwin (field p) \<longleftrightarrow> inited p \<and> cleared (field p)"
proof -
  let ?g = "field p"
  have ok: "field_ok p" "gameover ?g \<longleftrightarrow> lost ?g" using assms by (simp_all add: play_ok_def)
  have oc: "\<forall>a b. opened ?g a b \<longrightarrow> (a, b) \<in> cells" "mines_of ?g \<subseteq> cells" "card (mines_of ?g) = (if inited p then 99 else 0)"
    and un: "\<not> inited p \<longrightarrow> closed_cells ?g = cells"
    using ok(1) by (auto simp: field_ok_def closed_cells_def)
  have cl: "cleared ?g \<longleftrightarrow> closed_cells ?g = mines_of ?g"
    using oc(2) by (auto simp: cleared_def closed_cells_def mines_of_def)
  have nl: "\<not> lost ?g \<longleftrightarrow> mines_of ?g \<subseteq> closed_cells ?g"
    using oc by (auto simp: lost_def closed_cells_def mines_of_def)
  show ?thesis
  proof
    assume w: "checkwin ?g"
    then have "inited p" using un card_cells by (auto simp: checkwin_closed)
    moreover have "mines_of ?g \<subseteq> closed_cells ?g" "card (closed_cells ?g) = 99" using w ok(2) nl by (simp_all add: checkwin_closed)
    ultimately show "inited p \<and> cleared ?g" using oc(3) cl card_subset_eq [OF finite_closed] by metis
  next
    assume "inited p \<and> cleared ?g"
    then have "closed_cells ?g = mines_of ?g" "card (mines_of ?g) = 99" using cl oc(3) by simp_all
    then show "checkwin ?g" using nl ok(2) by (simp add: checkwin_closed)
  qed
qed

lemma first_turn:
  assumes "\<not> inited p"
  shows "winturn rs (cval CHR ''f'') p =
    (case wininit 99 (px p) (py p) rs (field p) of
       None \<Rightarrow> None
     | Some g \<Rightarrow>
         let q = p\<lparr>field := dig (px p) (py p) g, inited := True\<rparr> in
         if checkwin (field q) then Some (q\<lparr>field := (field q)\<lparr>gameover := False\<rparr>, inited := False\<rparr>, Won)
         else if gameover (field q) then Some (q\<lparr>field := (field q)\<lparr>gameover := False\<rparr>\<rparr>, Lost)
         else Some (q, Playing))"
proof -
  have "cursor_key (cval CHR ''f'') p = p" "cval CHR ''f'' \<noteq> 83 \<and> cval CHR ''f'' \<noteq> 115" by (simp_all add: cursor_key_def Let_def cval_def)
  then show ?thesis using assms by (simp add: winturn_def Let_def split: option.split)
qed

lemma winturn_ok:
  assumes "play_ok p0" and "winturn rs c p0 = Some (p', v)"
  shows "(v = Playing \<longrightarrow> play_ok p') \<and> (v = Lost \<longleftrightarrow> lost (field p')) \<and>
    (v = Won \<longleftrightarrow> card (mines_of (field p')) = 99 \<and> cleared (field p'))"
proof -
  let ?p = "cursor_key c p0"
  let ?f = "c = cval CHR ''f'' \<or> c = cval CHR ''F''"
  have p: "play_ok ?p" using cursor_key_ok [OF assms(1)] .
  obtain q where q: "play_ok q" "winturn rs c p0 =
      (if checkwin (field q) then Some (q\<lparr>field := (field q)\<lparr>gameover := False\<rparr>, inited := False\<rparr>, Won)
       else if gameover (field q) then Some (q\<lparr>field := (field q)\<lparr>gameover := False\<rparr>\<rparr>, Lost) else Some (q, Playing))"
  proof (cases ?f)
    case True
    then obtain g where g: "(if inited ?p then Some (field ?p) else wininit 99 (px ?p) (py ?p) rs (field ?p)) = Some g"
      using assms(2) by (auto simp: winturn_def Let_def split: option.splits)
    let ?p1 = "?p\<lparr>field := g, inited := True\<rparr>"
    have "play_ok ?p1"
    proof (cases "inited ?p")
      case True
      then have "?p1 = ?p" using g by simp
      then show ?thesis using p by simp
    next
      case False
      then show ?thesis using laid_ok [OF p] g by simp
    qed
    from dig_ok [OF this, of "px ?p" "py ?p"] have "play_ok (?p\<lparr>inited := True, field := dig (px ?p) (py ?p) g\<rparr>)" by simp
    moreover have "?p\<lparr>inited := True, field := dig (px ?p) (py ?p) g\<rparr> = ?p\<lparr>field := dig (px ?p) (py ?p) g, inited := True\<rparr>"
      by (rule play.equality) simp_all
    ultimately have d: "play_ok (?p\<lparr>field := dig (px ?p) (py ?p) g, inited := True\<rparr>)" by (simp only:)
    let ?q = "if c = 83 \<or> c = 115 then mark_key (?p\<lparr>field := dig (px ?p) (py ?p) g, inited := True\<rparr>) else ?p\<lparr>field := dig (px ?p) (py ?p) g, inited := True\<rparr>"
    have "play_ok ?q" using d mark_key_ok by simp
    then show thesis by (rule that) (use True g in \<open>simp add: winturn_def Let_def\<close>)
  next
    case False
    let ?q = "if c = 83 \<or> c = 115 then mark_key ?p else ?p"
    have "play_ok ?q" using p mark_key_ok by simp
    then show thesis by (rule that) (use False in \<open>simp add: winturn_def Let_def\<close>)
  qed
  have s: "lost ((field q)\<lparr>gameover := False\<rparr>) = lost (field q)" "cleared ((field q)\<lparr>gameover := False\<rparr>) = cleared (field q)"
      "mines_of ((field q)\<lparr>gameover := False\<rparr>) = mines_of (field q)"
    by (simp_all add: lost_def cleared_def mines_of_def)
  have m: "card (mines_of (field q)) = (if inited q then 99 else 0)" "gameover (field q) \<longleftrightarrow> lost (field q)"
    using q(1) by (simp_all add: play_ok_def field_ok_def)
  have "\<not> (lost (field q) \<and> checkwin (field q))" using m(2) by (simp add: checkwin_def)
  then show ?thesis
    using assms(2) q(1) s m unfolding q(2) checkwin_cleared [OF q(1)] by (auto split: if_splits)
qed

lemma playing_ok: "playing p \<Longrightarrow> play_ok p"
  by (induction rule: playing.induct) (auto simp: fresh_ok dest: winturn_ok)

section \<open>Properties\<close>

text \<open>C29. 
  C1. Opening a cell of the mine sweeper opens exactly the cells a dig there reaches: the cell itself when it is free, and from
  a cell with no mine on or beside it every free cell around; the game is over when one of them is a mine.
\<close>
theorem windig_opens_the_spread:
  "(opened (windig x y g) a b \<longleftrightarrow> opened g a b \<or> spread g x y a b) \<and>
   (gameover (windig x y g) \<longleftrightarrow> gameover g \<or> (\<exists>c d. spread g x y c d \<and> mine g c d)) \<and>
   mine (windig x y g) = mine g \<and> mark (windig x y g) = mark g"
proof -
  have o: "opened (windig x y g) a b \<longleftrightarrow> opened g a b \<or> spread g x y a b" for a b
    using dig_sound(1) dig_complete dig_grown(1) [of g x y] unfolding grown_def by blast
  have "gameover (windig x y g) \<longleftrightarrow> gameover g \<or> (\<exists>c d. spread g x y c d \<and> mine g c d)"
    unfolding dig_gameover(1) o using spread_free unfolding free_def by blast
  then show ?thesis using o dig_grown(1) [of g x y] by (simp add: grown_def)
qed


lemma first_turn_exists: "\<exists>rs p' v. winturn rs (cval CHR ''f'') fresh_play = Some (p', v)"
proof -
  have "mines_of empty_field = {}" by (simp add: mines_of_def empty_field_def)
  then obtain rs g where "wininit 99 10 8 rs empty_field = Some g" using wininit_ends [of empty_field 99 10 8] by auto
  then have "\<exists>p' v. winturn rs (cval CHR ''f'') fresh_play = Some (p', v)"
    using first_turn [of fresh_play rs] by (simp add: Let_def fresh_play_def)
  then show ?thesis by blast
qed


text \<open>C31. 
  C3. A turn of the mine sweeper ends lost exactly when a mine is open, and won exactly when the 99 mines lie
  and everything else is open.
\<close>
theorem verdict_is_right:
  assumes "playing p" and "winturn rs c p = Some (p', v)"
  shows "(v = Lost \<longleftrightarrow> (\<exists>a b. opened (field p') a b \<and> mine (field p') a b)) \<and>
    (v = Won \<longleftrightarrow> card {(a, b). mine (field p') a b} = 99 \<and> (\<forall>a\<in>{1..30}. \<forall>b\<in>{1..16}. opened (field p') a b \<longleftrightarrow> \<not> mine (field p') a b))"
proof -
  have "cleared g \<longleftrightarrow> (\<forall>a\<in>{1..30}. \<forall>b\<in>{1..16}. opened g a b \<longleftrightarrow> \<not> mine g a b)" for g
    by (auto simp: cleared_def cells_def)
  then show ?thesis using winturn_ok [OF playing_ok [OF assms(1)] assms(2)] by (simp add: lost_def mines_of_def)
qed

theorem verdict_is_right_witness:
  "\<exists>rs p' v. winturn rs (cval CHR ''f'') fresh_play = Some (p', v) \<and> (v = Lost \<longleftrightarrow> (\<exists>a b. opened (field p') a b \<and> mine (field p') a b))"
proof -
  obtain rs p' v where w: "winturn rs (cval CHR ''f'') fresh_play = Some (p', v)" using first_turn_exists by blast
  then show ?thesis using verdict_is_right [OF playing_start w] by blast
qed

text \<open>
  C4. Laying the mines ends: there are numbers for which \<open>wininit\<close> returns, whatever cell has been chosen, and
  then 99 mines lie on the field.
\<close>
theorem mines_can_be_laid:
  "\<exists>rs g. wininit 99 x y rs empty_field = Some g \<and> card {(a, b). mine g a b} = 99"
proof -
  have e: "mines_of empty_field = {}" by (simp add: mines_of_def empty_field_def)
  then obtain rs g where w: "wininit 99 x y rs empty_field = Some g" using wininit_ends [of empty_field 99 x y] by auto
  then have "card {(a, b). mine g a b} = 99" using wininit_lays [OF w] e by (simp add: mines_of_def)
  then show ?thesis using w by blast
qed

section \<open>The table of the best\<close>

record winner =
  topID :: string
  topT :: int
  topFROM :: string

text \<open>\<open>win_sort\<close>: the rows \<open>n\<close> and \<open>n2\<close> of the three arrays are exchanged together.\<close>

definition sort_inner :: "nat \<Rightarrow> nat list \<Rightarrow> winner list \<Rightarrow> winner list" where
  "sort_inner n is t = fold (\<lambda>n2 t. if topT (t ! n2) < topT (t ! n) then t[n := t ! n2, n2 := t ! n] else t) is t"

definition win_sort :: "winner list \<Rightarrow> winner list" where
  "win_sort t = fold (\<lambda>n t. sort_inner n [n + 1..<20] t) [0..<19] t"

text \<open>\<open>win_checkrec\<close> on the table \<open>win_loadrec\<close> has read; \<open>None\<close> when nothing is saved.\<close>

definition win_checkrec :: "string \<Rightarrow> string \<Rightarrow> int \<Rightarrow> winner list \<Rightarrow> winner list option" where
  "win_checkrec userid fromhost dt t =
     (case filter (\<lambda>n. topID (t ! n) = userid) [0..<20] of
        n # ns \<Rightarrow> if dt < topT (t ! n) then Some (win_sort (t[n := (t ! n)\<lparr>topT := dt, topFROM := fromhost\<rparr>])) else None
      | [] \<Rightarrow> if dt < topT (t ! 19) then Some (win_sort (t[19 := \<lparr>topID = userid, topT = dt, topFROM = fromhost\<rparr>])) else None)"

text \<open>The inner loop keeps the rows before \<open>n\<close>, and brings the least of the others to \<open>n\<close>.\<close>

lemma sort_inner_ok:
  "n < m \<Longrightarrow> m \<le> length t \<Longrightarrow>
   mset (sort_inner n [n + 1..<m] t) = mset t \<and> (\<forall>k. k < n \<or> m \<le> k \<longrightarrow> sort_inner n [n + 1..<m] t ! k = t ! k) \<and>
   (\<forall>k. n < k \<and> k < m \<longrightarrow> topT (sort_inner n [n + 1..<m] t ! n) \<le> topT (sort_inner n [n + 1..<m] t ! k))"
proof (induction m)
  case (Suc m)
  show ?case
  proof (cases "n = m")
    case True
    then show ?thesis by (simp add: sort_inner_def)
  next
    case False
    let ?r = "sort_inner n [n + 1..<m] t"
    have nm: "n < m" "m < length t" using False Suc.prems by simp_all
    from Suc.IH have r: "mset ?r = mset t" "\<forall>k. k < n \<or> m \<le> k \<longrightarrow> ?r ! k = t ! k" "\<forall>k. n < k \<and> k < m \<longrightarrow> topT (?r ! n) \<le> topT (?r ! k)"
      using nm by simp_all
    have len: "length ?r = length t" using r(1) by (metis size_mset)
    have e: "sort_inner n [n + 1..<Suc m] t = (if topT (?r ! m) < topT (?r ! n) then ?r[n := ?r ! m, m := ?r ! n] else ?r)"
      using nm by (simp add: sort_inner_def)
    show ?thesis
    proof (cases "topT (?r ! m) < topT (?r ! n)")
      case True
      have "mset (?r[n := ?r ! m, m := ?r ! n]) = mset t" using r(1) len nm by (simp add: mset_swap)
      moreover have "topT (?r[n := ?r ! m, m := ?r ! n] ! n) \<le> topT (?r[n := ?r ! m, m := ?r ! n] ! k)" if "n < k" "k < Suc m" for k
      proof (cases "k = m")
        case k: False
        then have "topT (?r ! n) \<le> topT (?r ! k)" using r(3) that by simp
        then show ?thesis using True that k nm len by (simp add: nth_list_update)
      qed (use True nm len in \<open>simp add: nth_list_update\<close>)
      ultimately show ?thesis unfolding e using True r(2) nm len by (simp add: nth_list_update)
    next
      case False
      then show ?thesis unfolding e using r by (auto simp: less_Suc_eq)
    qed
  qed
qed simp

lemma sort_inner_split:
  assumes "n < length t" and "r = sort_inner n [n + 1..<length t] t"
  shows "mset r = mset t" and "length r = length t" and "take n r = take n t" and "set (drop n r) = set (drop n t)" and "\<forall>y\<in>set (drop n r). topT (r ! n) \<le> topT y"
proof -
  have o: "mset r = mset t" "\<forall>k < n. r ! k = t ! k" "\<forall>k. n < k \<and> k < length t \<longrightarrow> topT (r ! n) \<le> topT (r ! k)"
    using sort_inner_ok [of n "length t" t] assms by simp_all
  show m: "mset r = mset t" and l: "length r = length t" using o(1) by (simp, metis size_mset)
  show t: "take n r = take n t" by (rule nth_equalityI) (use o(2) l in auto)
  have "mset (take n r) + mset (drop n r) = mset (take n t) + mset (drop n t)" using m by (simp flip: mset_append)
  then show "set (drop n r) = set (drop n t)" using t by (metis add_left_cancel set_mset_mset)
  show "\<forall>y\<in>set (drop n r). topT (r ! n) \<le> topT y"
  proof
    fix y assume "y \<in> set (drop n r)"
    then obtain k where "k < length r - n" "y = r ! (n + k)" by (auto simp: in_set_conv_nth)
    then show "topT (r ! n) \<le> topT y" using o(3) l by (cases k) auto
  qed
qed

lemma outer_sorts:
  assumes "length t = 20" and "n \<le> 19" and "r = fold (\<lambda>n t. sort_inner n [n + 1..<20] t) [0..<n] t"
  shows "mset r = mset t \<and> sorted (map topT (take n r)) \<and> (\<forall>x\<in>set (take n r). \<forall>y\<in>set (drop n r). topT x \<le> topT y)"
  using assms(2,3)
proof (induction n arbitrary: r)
  case (Suc n)
  let ?s = "fold (\<lambda>n t. sort_inner n [n + 1..<20] t) [0..<n] t"
  from Suc have i: "mset ?s = mset t" "sorted (map topT (take n ?s))" "\<forall>x\<in>set (take n ?s). \<forall>y\<in>set (drop n ?s). topT x \<le> topT y" by simp_all
  have l: "length ?s = 20" using i(1) assms(1) by (metis size_mset)
  have r: "r = sort_inner n [n + 1..<length ?s] ?s" using Suc.prems(2) l by simp
  have n: "n < length ?s" using Suc.prems(1) l by simp
  note s = sort_inner_split [OF n r]
  have t: "take (Suc n) r = take n ?s @ [r ! n]" using s(2,3) n by (simp add: take_Suc_conv_app_nth)
  have d: "set (drop (Suc n) r) \<subseteq> set (drop n r)" by (simp add: set_drop_subset_set_drop)
  have m: "r ! n \<in> set (drop n r)" using n s(2) by (auto simp: in_set_conv_nth intro!: exI [of _ 0])
  have "sorted (map topT (take (Suc n) r))" using i(2,3) m unfolding t s(4) by (simp add: sorted_append)
  moreover have "\<forall>x\<in>set (take (Suc n) r). \<forall>y\<in>set (drop (Suc n) r). topT x \<le> topT y"
    unfolding t using i(3) s(4,5) d by auto
  ultimately show ?case using s(1) i(1) by simp
qed simp

lemma win_sort_sorts:
  assumes "length t = 20"
  shows "sorted (map topT (win_sort t)) \<and> mset (win_sort t) = mset t"
proof -
  let ?r = "win_sort t"
  have o: "mset ?r = mset t" "sorted (map topT (take 19 ?r))" "\<forall>x\<in>set (take 19 ?r). \<forall>y\<in>set (drop 19 ?r). topT x \<le> topT y"
    using outer_sorts [OF assms, of 19 ?r] by (simp_all add: win_sort_def)
  have l: "length ?r = 20" using o(1) assms by (metis size_mset)
  then have "length (drop 19 ?r) = 1" by simp
  then obtain x where x: "drop 19 ?r = [x]" by (metis One_nat_def length_0_conv length_Suc_conv)
  have "sorted (map topT (take 19 ?r @ drop 19 ?r))" unfolding map_append sorted_append using o(2,3) x by auto
  then show ?thesis using o(1) by simp
qed

text \<open>
  C5. A new time for the table of the best leaves a table sorted by time, with an entry of the player that
  is as good, and loses no row of another player but the last.
\<close>
theorem record_is_kept:
  assumes "length t = 20" and "win_checkrec who from dt t = Some t'"
  shows "sorted (map topT t') \<and> length t' = 20 \<and> (\<exists>e\<in>set t'. topID e = who \<and> topFROM e = from \<and> topT e = dt) \<and>
    (\<forall>k < 19. topID (t ! k) \<noteq> who \<longrightarrow> t ! k \<in> set t')"
proof -
  obtain i e where t': "t' = win_sort (t[i := e])" and i: "i < 20" and e: "topID e = who" "topFROM e = from" "topT e = dt"
    and k: "\<forall>k < 19. topID (t ! k) \<noteq> who \<longrightarrow> k \<noteq> i"
  proof (cases "filter (\<lambda>n. topID (t ! n) = who) [0..<20]")
    case Nil
    have "t' = win_sort (t[19 := \<lparr>topID = who, topT = dt, topFROM = from\<rparr>])"
      using assms(2) by (simp only: win_checkrec_def Nil list.case) (simp split: if_splits)
    then show thesis by (rule that) simp_all
  next
    case (Cons n ns)
    then have n: "n < 20" "topID (t ! n) = who" by (auto simp: filter_eq_Cons_iff upt_eq_Cons_conv dest!: arg_cong [where f = set])
    have "t' = win_sort (t[n := (t ! n)\<lparr>topT := dt, topFROM := from\<rparr>])"
      using assms(2) by (simp only: win_checkrec_def Cons list.case) (simp split: if_splits)
    then show thesis by (rule that) (use n in auto)
  qed
  have s: "sorted (map topT t')" "mset t' = mset (t[i := e])" using win_sort_sorts [of "t[i := e]"] assms(1) t' by simp_all
  have st: "set t' = set (t[i := e])" using s(2) by (metis set_mset_mset)
  have l: "length t' = 20" using s(2) assms(1) by (metis length_list_update size_mset)
  have "e \<in> set t'" unfolding st using i assms(1) by (simp add: set_update_memI)
  moreover have "t ! k \<in> set t'" if "k < 19" "topID (t ! k) \<noteq> who" for k
    unfolding st using k that assms(1) by (auto simp: in_set_conv_nth nth_list_update intro!: exI [of _ k])
  ultimately show ?thesis using s(1) l e by blast
qed

definition empty_table :: "winner list" where
  "empty_table = replicate 20 \<lparr>topID = ''nobody'', topT = 999, topFROM = ''nowhere''\<rparr>"

theorem record_is_kept_witness:
  "\<exists>t'. win_checkrec ''guest'' ''localhost'' 120 empty_table = Some t' \<and> sorted (map topT t') \<and> (\<exists>e\<in>set t'. topID e = ''guest'' \<and> topFROM e = ''localhost'' \<and> topT e = 120)"
proof -
  have "filter (\<lambda>n. topID (empty_table ! n) = ''guest'') [0..<20] = []" by (simp add: empty_table_def filter_empty_conv)
  then obtain t' where "win_checkrec ''guest'' ''localhost'' 120 empty_table = Some t'"
    by (simp add: win_checkrec_def) (simp add: empty_table_def)
  moreover have "length empty_table = 20" by (simp add: empty_table_def)
  ultimately show ?thesis using record_is_kept [of empty_table "''guest''" "''localhost''" 120 t'] by blast
qed

end
