(* ===== verification/Pager.thy ===== *)
theory Pager
  imports CString
begin

text \<open>
  The pager (src/more.c): how a text is cut into the lines of the screen (\<open>measure_line\<close>), the ring of
  the last hundred lines measured (\<open>struct MemMoreLines\<close>), and the keys of \<open>mem_more\<close>.  The file mapped
  into memory is a string, and a pointer into it the distance from its start.
\<close>

section \<open>Measuring a line\<close>

datatype line_code = LINE_NORMAL | LINE_NORMAL_NOCF | LINE_QUOTA | LINE_QUOTA_NOCF | LINE_ATTACHMENT | LINE_ATTACHLINK | LINE_ATTACHALINK

text \<open>
  The loop of \<open>measure_line\<close> from column \<open>w\<close> on: the displayed length and the size of the line.  The
  letters that end an escape sequence are compared, but \<open>in_esc\<close> is left set; \<open>lastspace\<close>,
  \<open>asciiart\<close> and \<open>autoline\<close> have no effect.
\<close>

fun measure_loop :: "nat \<Rightarrow> string \<Rightarrow> nat \<Rightarrow> nat \<Rightarrow> bool \<Rightarrow> bool \<Rightarrow> nat \<times> nat" where
  "measure_loop cols [] i w in_esc db = (i, i)"
| "measure_loop cols (c # cs) i w in_esc db =
     (if c = CHR 0x0A then (i, i + 1)
      else if c = CHR 0x09 then measure_loop cols cs (i + 1) ((w + 8) div 8 * 8) in_esc False
      else if c = KEY_ESC then measure_loop cols cs (i + 1) w True False
      else if in_esc then measure_loop cols cs (i + 1) w in_esc db
      else if isprint2 c then
        if \<not> db then
          if cols - 1 \<le> w \<and> (cs = [] \<or> high_bit (hd cs)) \<or> cols \<le> w then (i, i)
          else measure_loop cols cs (i + 1) (w + 1) in_esc (high_bit c)
        else measure_loop cols cs (i + 1) (w + 1) in_esc False
      else measure_loop cols cs (i + 1) w in_esc db)"

definition line_type :: "string \<Rightarrow> nat \<Rightarrow> nat \<Rightarrow> line_code \<Rightarrow> line_code" where
  "line_type p0 l s oldty =
     (let quota = 2 \<le> l \<and> take 2 p0 = '': '' in
      if 0 < s \<and> p0 ! (s - 1) = CHR 0x0A then
        (case oldty of
           LINE_NORMAL_NOCF \<Rightarrow> LINE_NORMAL
         | LINE_QUOTA_NOCF \<Rightarrow> LINE_QUOTA
         | _ \<Rightarrow> if \<not> quota then LINE_NORMAL else LINE_QUOTA)
      else
        (case oldty of
           LINE_NORMAL_NOCF \<Rightarrow> LINE_NORMAL_NOCF
         | LINE_QUOTA_NOCF \<Rightarrow> LINE_QUOTA_NOCF
         | _ \<Rightarrow> if \<not> quota then LINE_NORMAL_NOCF else LINE_QUOTA_NOCF))"

text \<open>
  \<open>p0\<close> is the rest of the text; \<open>attach\<close> is \<open>moremode & MORE_ATTACHMENT\<close> with a \<open>linkinfo\<close>.  The result is
  the length, the size and the type, or \<open>None\<close> for the result -1.
\<close>

definition measure_line :: "nat \<Rightarrow> bool \<Rightarrow> string \<Rightarrow> line_code \<Rightarrow> (nat \<times> nat \<times> line_code) option" where
  "measure_line cols attach p0 oldty =
     (if p0 = [] then
        if \<not> attach then None
        else
          (case oldty of
             LINE_ATTACHMENT \<Rightarrow> Some (0, 0, LINE_ATTACHLINK)
           | LINE_ATTACHLINK \<Rightarrow> Some (0, 0, LINE_ATTACHALINK)
           | LINE_ATTACHALINK \<Rightarrow> None
           | _ \<Rightarrow> Some (0, 0, LINE_ATTACHMENT))
      else
        case measure_loop cols p0 0 0 False False of
          (l, s) \<Rightarrow> Some (l, s, line_type p0 l s oldty))"

section \<open>The ring of lines\<close>

abbreviation (input) BUFFERCOUNT :: nat where "BUFFERCOUNT \<equiv> 100"

record memlines =
  mtext :: string
  line :: "nat list"
  ty :: "line_code list"
  len :: "nat list"
  siz :: "nat list"
  start :: nat
  num :: nat
  curr_line :: nat
  curr :: nat
  currty :: line_code
  currlen :: nat
  total :: nat
  effectiveline :: int

definition store_line :: "nat \<Rightarrow> nat \<times> nat \<times> line_code \<Rightarrow> memlines \<Rightarrow> memlines" where
  "store_line u m l = (case m of (n, s, t) \<Rightarrow> l\<lparr>len := (len l)[u := n], siz := (siz l)[u := s], ty := (ty l)[u := t]\<rparr>)"

definition set_curr :: "memlines \<Rightarrow> memlines" where
  "set_curr l = (let u = curr_line l mod BUFFERCOUNT in l\<lparr>curr := line l ! u, currlen := len l ! u, currty := ty l ! u\<rparr>)"

definition count_effective :: "nat \<Rightarrow> memlines \<Rightarrow> memlines" where
  "count_effective u l =
     (if effectiveline l < 0 then l
      else if 2 \<le> len l ! u \<and> take 2 (drop (line l ! u) (mtext l)) = ''--'' then l\<lparr>effectiveline := - effectiveline l\<rparr>
      else if 3 < num l \<and> 2 \<le> len l ! u \<and> (ty l ! u = LINE_NORMAL \<or> ty l ! u = LINE_NORMAL_NOCF) then l\<lparr>effectiveline := effectiveline l + 1\<rparr>
      else l)"

text \<open>The loop of \<open>init_MemMoreLines\<close> for \<open>k\<close> more lines, at \<open>p0\<close>; the result has the \<open>s\<close> left over.\<close>

fun init_loop :: "nat \<Rightarrow> bool \<Rightarrow> nat \<Rightarrow> nat \<Rightarrow> line_code \<Rightarrow> memlines \<Rightarrow> memlines \<times> nat" where
  "init_loop cols attach 0 p0 oldty l = (l, length (mtext l) - p0)"
| "init_loop cols attach (Suc k) p0 oldty l =
     (let u = (start l + num l) mod BUFFERCOUNT;
          l1 = l\<lparr>line := (line l)[u := p0]\<rparr>
      in case measure_line cols attach (drop p0 (mtext l)) oldty of
           None \<Rightarrow> (l1, length (mtext l) - p0)
         | Some (n, s, t) \<Rightarrow>
             let l2 = store_line u (n, s, t) l1
             in init_loop cols attach k (p0 + s) t (count_effective u (l2\<lparr>num := num l2 + 1\<rparr>)))"

definition init_MemMoreLines :: "nat \<Rightarrow> bool \<Rightarrow> memlines \<Rightarrow> memlines" where
  "init_MemMoreLines cols attach l =
     (case init_loop cols attach 25 0 LINE_NORMAL (l\<lparr>start := 0, num := 0, total := 0, effectiveline := 0\<rparr>) of
        (l1, s) \<Rightarrow>
          let l2 = (if effectiveline l1 < 0 then l1\<lparr>effectiveline := - effectiveline l1\<rparr> else l1);
              l3 = (if s = 0 then l2\<lparr>total := num l2\<rparr> else l2)
          in set_curr (l3\<lparr>curr_line := 0\<rparr>))"

text \<open>\<open>None\<close> in the second component is the result -1.\<close>

definition next_MemMoreLines :: "nat \<Rightarrow> bool \<Rightarrow> memlines \<Rightarrow> memlines \<times> nat option" where
  "next_MemMoreLines cols attach l =
     (let go = (\<lambda>l. let l1 = set_curr (l\<lparr>curr_line := curr_line l + 1\<rparr>) in (l1, Some (curr_line l1))) in
      if start l + num l \<le> curr_line l + 1 then
        let n = (start l + num l - 1) mod BUFFERCOUNT;
            l1 = (if num l = BUFFERCOUNT then l\<lparr>start := start l + 1, num := num l - 1\<rparr> else l);
            oldty = ty l1 ! n;
            p0 = line l1 ! n + siz l1 ! n;
            n1 = (start l1 + num l1) mod BUFFERCOUNT;
            l2 = l1\<lparr>line := (line l1)[n1 := p0]\<rparr>
        in case measure_line cols attach (drop p0 (mtext l2)) oldty of
             None \<Rightarrow> (l2, None)
           | Some m \<Rightarrow>
               let l3 = store_line n1 m l2;
                   l4 = l3\<lparr>num := num l3 + 1\<rparr>
               in go (if length (mtext l4) - p0 = siz l4 ! n1 then l4\<lparr>total := start l4 + num l4\<rparr> else l4)
      else go l)"

text \<open>The loop of \<open>seek_MemMoreLines\<close>, which is left when the line is reached or there is none; \<open>None\<close> is a loop without end.\<close>

partial_function (option) run_to_line :: "nat \<Rightarrow> bool \<Rightarrow> nat \<Rightarrow> memlines \<Rightarrow> (memlines \<times> nat option) option" where
  "run_to_line cols attach n l =
     (if curr_line l = n then Some (l, Some n)
      else
        case next_MemMoreLines cols attach l of
          (l1, None) \<Rightarrow> Some (l1, None)
        | (l1, Some k) \<Rightarrow> run_to_line cols attach n l1)"

definition seek_up :: "nat \<Rightarrow> bool \<Rightarrow> nat \<Rightarrow> memlines \<Rightarrow> (memlines \<times> nat option) option" where
  "seek_up cols attach n l =
     (let l1 = (if n < start l then (init_MemMoreLines cols attach l)\<lparr>total := total l\<rparr> else l) in
      if n < start l1 + num l1 then Some (set_curr (l1\<lparr>curr_line := n\<rparr>), Some n)
      else run_to_line cols attach n l1)"

definition seek_MemMoreLines :: "nat \<Rightarrow> bool \<Rightarrow> int \<Rightarrow> memlines \<Rightarrow> (memlines \<times> nat option) option" where
  "seek_MemMoreLines cols attach n l =
     (if n < 0 then map_option (\<lambda>(l1, r). (l1, None)) (seek_up cols attach 0 l) else seek_up cols attach (nat n) l)"

section \<open>The lines of a text\<close>

text \<open>Where the line number \<open>k\<close> begins, with the type of the one before it; and the line.\<close>

fun line_pos :: "nat \<Rightarrow> bool \<Rightarrow> string \<Rightarrow> nat \<Rightarrow> (nat \<times> line_code) option" where
  "line_pos cols attach t 0 = Some (0, LINE_NORMAL)"
| "line_pos cols attach t (Suc k) =
     (case line_pos cols attach t k of
        None \<Rightarrow> None
      | Some (p, oldty) \<Rightarrow>
          (case measure_line cols attach (drop p t) oldty of None \<Rightarrow> None | Some (n, s, c) \<Rightarrow> Some (p + s, c)))"

definition nth_line :: "nat \<Rightarrow> bool \<Rightarrow> string \<Rightarrow> nat \<Rightarrow> (nat \<times> nat \<times> nat \<times> line_code) option" where
  "nth_line cols attach t k =
     (case line_pos cols attach t k of
        None \<Rightarrow> None
      | Some (p, oldty) \<Rightarrow>
          (case measure_line cols attach (drop p t) oldty of None \<Rightarrow> None | Some (n, s, c) \<Rightarrow> Some (p, n, s, c)))"

lemma line_pos_Suc: "line_pos cols attach t (Suc k) = map_option (\<lambda>(p, n, s, c). (p + s, c)) (nth_line cols attach t k)"
  by (simp add: nth_line_def split: option.split prod.split)

lemma nth_line_Suc: "nth_line cols attach t k = Some (p, n, s, c) \<Longrightarrow> nth_line cols attach t (Suc k) =
    map_option (\<lambda>(n', s', c'). (p + s, n', s', c')) (measure_line cols attach (drop (p + s) t) c)"
  unfolding nth_line_def [of cols attach t "Suc k"] line_pos_Suc by (simp split: option.split prod.split)

lemma nth_line_0: "nth_line cols attach t 0 = map_option (\<lambda>(n, s, c). (0, n, s, c)) (measure_line cols attach t LINE_NORMAL)"
  by (simp add: nth_line_def split: option.split prod.split)

lemma nth_line_later: "nth_line cols attach t k = None \<Longrightarrow> k \<le> j \<Longrightarrow> nth_line cols attach t j = None"
proof (induction j)
  case (Suc j)
  show ?case
  proof (cases "k = Suc j")
    case False
    then have "line_pos cols attach t (Suc j) = None" unfolding line_pos_Suc using Suc by simp
    then show ?thesis unfolding nth_line_def by (simp del: line_pos.simps)
  qed (use Suc in simp)
qed simp

section \<open>The ring holds the lines\<close>

definition slot_line :: "memlines \<Rightarrow> nat \<Rightarrow> nat \<times> nat \<times> nat \<times> line_code" where
  "slot_line l k = (let u = k mod BUFFERCOUNT in (line l ! u, len l ! u, siz l ! u, ty l ! u))"

definition ring_ok :: "nat \<Rightarrow> bool \<Rightarrow> memlines \<Rightarrow> bool" where
  "ring_ok cols attach l \<longleftrightarrow> length (line l) = BUFFERCOUNT \<and> length (ty l) = BUFFERCOUNT \<and> length (len l) = BUFFERCOUNT \<and> length (siz l) = BUFFERCOUNT \<and>
     num l \<le> BUFFERCOUNT \<and>
     (\<forall>k. start l \<le> k \<and> k < start l + num l \<longrightarrow> nth_line cols attach (mtext l) k = Some (slot_line l k))"

definition at_line :: "nat \<Rightarrow> bool \<Rightarrow> nat \<Rightarrow> memlines \<Rightarrow> bool" where
  "at_line cols attach n l \<longleftrightarrow> ring_ok cols attach l \<and> curr_line l = n \<and> start l \<le> n \<and> n < start l + num l \<and>
     (curr l, currlen l, currty l) = (line l ! (n mod BUFFERCOUNT), len l ! (n mod BUFFERCOUNT), ty l ! (n mod BUFFERCOUNT))"

lemma set_curr_at:
  assumes "ring_ok cols attach l" and "start l \<le> n" and "n < start l + num l"
  shows "at_line cols attach n (set_curr (l\<lparr>curr_line := n\<rparr>)) \<and> mtext (set_curr (l\<lparr>curr_line := n\<rparr>)) = mtext l"
  using assms by (simp add: at_line_def ring_ok_def set_curr_def Let_def slot_line_def)

lemma mod_window:
  assumes "a \<le> k" and "k < a + (100 :: nat)" and "a \<le> j" and "j < a + 100"
  shows "k mod 100 = j mod 100 \<longleftrightarrow> k = j"
proof -
  have d: "x = y" if "x mod 100 = y mod 100" "y \<le> x" "x < y + (100 :: nat)" for x y
  proof -
    have "100 dvd x - y" using that(1,2) mod_eq_dvd_iff_nat [of y x 100] by simp
    then show ?thesis using that(2,3) by (auto dest: dvd_imp_le)
  qed
  show ?thesis using d [of k j] d [of j k] assms by (cases "j \<le> k") auto
qed

lemma slot_store_other:
  "k mod BUFFERCOUNT \<noteq> u \<Longrightarrow> slot_line (store_line u m (l\<lparr>line := (line l)[u := p0]\<rparr>)) k = slot_line l k"
  by (cases m) (simp add: slot_line_def store_line_def Let_def)

lemma slot_store_same:
  assumes "ring_ok cols attach l" and "u = k mod BUFFERCOUNT"
  shows "slot_line (store_line u (n, s, c) (l\<lparr>line := (line l)[u := p0]\<rparr>)) k = (p0, n, s, c)"
  using assms by (simp add: slot_line_def store_line_def ring_ok_def)

text \<open>Appending a line to the ring, and forgetting the first.\<close>

lemma ring_forget:
  assumes "ring_ok cols attach l" and "1 < num l"
  shows "ring_ok cols attach (l\<lparr>start := start l + 1, num := num l - 1\<rparr>)"
  using assms by (auto simp: ring_ok_def slot_line_def)

lemma ring_scratch:
  assumes "ring_ok cols attach l" and "num l < BUFFERCOUNT" and "u = (start l + num l) mod BUFFERCOUNT"
  shows "ring_ok cols attach (l\<lparr>line := (line l)[u := p0]\<rparr>)"
proof -
  have "slot_line (l\<lparr>line := (line l)[u := p0]\<rparr>) k = slot_line l k" if "start l \<le> k" "k < start l + num l" for k
  proof -
    have "k mod 100 \<noteq> u" using mod_window [of "start l" k "start l + num l"] that assms(2,3) by simp
    then show ?thesis by (simp add: slot_line_def)
  qed
  then show ?thesis using assms(1) by (simp add: ring_ok_def)
qed

lemma ring_append:
  assumes "ring_ok cols attach l" and "num l < BUFFERCOUNT" and "u = (start l + num l) mod BUFFERCOUNT"
    and "nth_line cols attach (mtext l) (start l + num l) = Some (p0, n, s, c)"
  shows "ring_ok cols attach ((store_line u (n, s, c) (l\<lparr>line := (line l)[u := p0]\<rparr>))\<lparr>num := num l + 1\<rparr>)" (is "ring_ok _ _ ?l")
proof -
  have t: "mtext ?l = mtext l" "start ?l = start l" "num ?l = num l + 1" by (simp_all add: store_line_def)
  have "nth_line cols attach (mtext ?l) k = Some (slot_line ?l k)" if "start l \<le> k" "k < start l + num l + 1" for k
  proof (cases "k = start l + num l")
    case True
    have "slot_line ?l k = slot_line (store_line u (n, s, c) (l\<lparr>line := (line l)[u := p0]\<rparr>)) k" by (simp add: slot_line_def)
    then show ?thesis using slot_store_same [OF assms(1), of u k n s c p0] True assms(3,4) t by simp
  next
    case False
    then have "k mod 100 \<noteq> u" using mod_window [of "start l" k "start l + num l"] that assms(2,3) by simp
    then have "slot_line ?l k = slot_line l k" using slot_store_other [of k u "(n, s, c)" l p0] by (simp add: slot_line_def)
    then show ?thesis using assms(1) that False t by (simp add: ring_ok_def)
  qed
  then show ?thesis using assms(1,2) t by (simp add: ring_ok_def store_line_def)
qed

lemma ring_next_ok:
  assumes "at_line cols attach k l"
  shows "case nth_line cols attach (mtext l) (k + 1) of
      None \<Rightarrow> \<exists>l'. next_MemMoreLines cols attach l = (l', None) \<and> at_line cols attach k l' \<and> mtext l' = mtext l
    | Some _ \<Rightarrow> \<exists>l'. next_MemMoreLines cols attach l = (l', Some (k + 1)) \<and> at_line cols attach (k + 1) l' \<and> mtext l' = mtext l"
proof -
  have r: "ring_ok cols attach l" "curr_line l = k" "start l \<le> k" "k < start l + num l" using assms by (simp_all add: at_line_def)
  show ?thesis
  proof (cases "start l + num l \<le> k + 1")
    case False
    have "nth_line cols attach (mtext l) (k + 1) = Some (slot_line l (k + 1))" using r False by (simp add: ring_ok_def)
    moreover have "next_MemMoreLines cols attach l = (set_curr (l\<lparr>curr_line := k + 1\<rparr>), Some (k + 1))"
      using False r(2) by (simp add: next_MemMoreLines_def Let_def set_curr_def)
    ultimately show ?thesis using set_curr_at [OF r(1), of "k + 1"] r(3) False by simp
  next
    case True
    then have e: "start l + num l = k + 1" using r(4) by simp
    define l1 where "l1 = (if num l = BUFFERCOUNT then l\<lparr>start := start l + 1, num := num l - 1\<rparr> else l)"
    have r1: "ring_ok cols attach l1" "num l1 < BUFFERCOUNT" "start l1 + num l1 = k + 1" "mtext l1 = mtext l" "start l1 \<le> k"
      using r e ring_forget [OF r(1)] by (auto simp: l1_def ring_ok_def)
    let ?m = "k mod 100" and ?u = "(k + 1) mod 100"
    let ?p = "line l1 ! ?m + siz l1 ! ?m"
    have nk: "nth_line cols attach (mtext l) k = Some (line l1 ! ?m, len l1 ! ?m, siz l1 ! ?m, ty l1 ! ?m)"
      using r1 by (simp add: ring_ok_def slot_line_def Let_def)
    let ?l2 = "l1\<lparr>line := (line l1)[?u := ?p]\<rparr>"
    have pre: "start l + num l - 1 = k" "curr_line l = k" using e r(2) by simp_all
    have nx: "next_MemMoreLines cols attach l =
        (case measure_line cols attach (drop ?p (mtext l)) (ty l1 ! ?m) of
           None \<Rightarrow> (?l2, None)
         | Some m \<Rightarrow>
             (let l4 = (store_line ?u m ?l2)\<lparr>num := num l1 + 1\<rparr>;
                  l5 = (if length (mtext l) - ?p = siz l4 ! ?u then l4\<lparr>total := start l4 + num l4\<rparr> else l4);
                  l6 = set_curr (l5\<lparr>curr_line := curr_line l5 + 1\<rparr>) in (l6, Some (curr_line l6))))"
    proof -
      have s: "mtext (store_line ?u m ?l2) = mtext l" "num (store_line ?u m ?l2) = num l1" for m
        using r1(4) by (simp_all add: store_line_def split: prod.split)
      have d: "(if num l = 100 then l\<lparr>start := start l + 1, num := num l - 1\<rparr> else l) = l1" by (simp add: l1_def)
      show ?thesis
        unfolding next_MemMoreLines_def Let_def pre d if_P [OF True] r1(3) using r1(4) s by (simp split: option.split)
    qed
    have cl: "curr_line l1 = k" "curr l1 = curr l" "currlen l1 = currlen l" "currty l1 = currty l" using r(2) by (simp_all add: l1_def)
    show ?thesis
    proof (cases "measure_line cols attach (drop ?p (mtext l)) (ty l1 ! ?m)")
      case None
      have o: "?m \<noteq> ?u" using mod_window [of k k "k + 1"] by simp
      have "ring_ok cols attach ?l2" using ring_scratch [OF r1(1,2)] r1(3) by simp
      then have "at_line cols attach k ?l2"
        using assms r1 cl o unfolding at_line_def by (simp add: l1_def)
      then show ?thesis using nth_line_Suc [OF nk] None nx r1(4) by simp
    next
      case (Some m)
      obtain n s c where m: "m = (n, s, c)" by (cases m)
      have nn: "nth_line cols attach (mtext l) (k + 1) = Some (?p, n, s, c)" using nth_line_Suc [OF nk] Some m by simp
      let ?l4 = "(store_line ?u (n, s, c) ?l2)\<lparr>num := num l1 + 1\<rparr>"
      have ap: "ring_ok cols attach ?l4" using ring_append [OF r1(1,2), of ?u ?p n s c] r1(3,4) nn by simp
      define l5 where "l5 = (if length (mtext l) - ?p = siz ?l4 ! ?u then ?l4\<lparr>total := start ?l4 + num ?l4\<rparr> else ?l4)"
      have l5: "ring_ok cols attach l5" "mtext l5 = mtext l" "start l5 = start l1" "num l5 = num l1 + 1" "curr_line l5 = k"
        using ap r1(4) cl(1) by (simp_all add: l5_def ring_ok_def slot_line_def store_line_def)
      have "next_MemMoreLines cols attach l = (set_curr (l5\<lparr>curr_line := k + 1\<rparr>), Some (k + 1))"
        unfolding nx Some m l5_def [symmetric] Let_def using l5(5) by (simp add: set_curr_def Let_def l5_def)
      then show ?thesis using set_curr_at [OF l5(1), of "k + 1"] l5 r1(3,5) nn by simp
    qed
  qed
qed

section \<open>Starting and seeking\<close>

lemma count_effective_keeps:
  "ring_ok cols attach (count_effective u l) = ring_ok cols attach l" "mtext (count_effective u l) = mtext l"
  "start (count_effective u l) = start l" "num (count_effective u l) = num l" "slot_line (count_effective u l) k = slot_line l k"
  by (simp_all add: count_effective_def ring_ok_def slot_line_def)

lemma init_loop_ok:
  "ring_ok cols attach l \<Longrightarrow> start l = 0 \<Longrightarrow> num l + k \<le> 25 \<Longrightarrow> line_pos cols attach (mtext l) (num l) = Some (p0, oldty) \<Longrightarrow>
   init_loop cols attach k p0 oldty l = (l', s) \<Longrightarrow>
   ring_ok cols attach l' \<and> start l' = 0 \<and> mtext l' = mtext l \<and> num l \<le> num l' \<and> num l' \<le> num l + k \<and> (0 < k \<longrightarrow> nth_line cols attach (mtext l) (num l) \<noteq> None \<longrightarrow> num l < num l')"
proof (induction k arbitrary: l p0 oldty)
  case 0
  then show ?case by auto
next
  case (Suc k)
  let ?u = "(start l + num l) mod BUFFERCOUNT"
  let ?l1 = "l\<lparr>line := (line l)[?u := p0]\<rparr>"
  have r1: "ring_ok cols attach ?l1" by (rule ring_scratch) (use Suc.prems in auto)
  show ?case
  proof (cases "measure_line cols attach (drop p0 (mtext l)) oldty")
    case None
    then show ?thesis using Suc.prems r1 by (auto simp: nth_line_def)
  next
    case (Some m)
    obtain n s' c where m: "m = (n, s', c)" by (cases m)
    have nn: "nth_line cols attach (mtext l) (start l + num l) = Some (p0, n, s', c)" using Suc.prems(2,4) Some m by (simp add: nth_line_def)
    let ?l3 = "(store_line ?u (n, s', c) ?l1)\<lparr>num := num l + 1\<rparr>"
    let ?l4 = "count_effective ?u ?l3"
    have r3: "ring_ok cols attach ?l3" by (rule ring_append [OF Suc.prems(1) _ refl nn]) (use Suc.prems in simp)
    have f: "start ?l3 = 0" "num ?l3 = num l + 1" "mtext ?l3 = mtext l" using Suc.prems(2) by (simp_all add: store_line_def)
    have e: "init_loop cols attach k (p0 + s') c ?l4 = (l', s)"
      using Suc.prems(5) Some m by (simp add: Let_def store_line_def)
    have p: "line_pos cols attach (mtext l) (num l + 1) = Some (p0 + s', c)"
      using Suc.prems(4) Some m by simp
    have "num ?l4 + k \<le> 25" "line_pos cols attach (mtext ?l4) (num ?l4) = Some (p0 + s', c)" "start ?l4 = 0" "ring_ok cols attach ?l4"
      using Suc.prems(3) p r3 f unfolding count_effective_keeps by simp_all
    from Suc.IH [OF this(4,3,1,2) e] show ?thesis unfolding count_effective_keeps using f Suc.prems(3) by auto
  qed
qed

lemma ring_init_ok:
  assumes "length (line l) = BUFFERCOUNT" and "length (ty l) = BUFFERCOUNT" and "length (len l) = BUFFERCOUNT" and "length (siz l) = BUFFERCOUNT"
    and "mtext l \<noteq> [] \<or> attach"
  shows "at_line cols attach 0 (init_MemMoreLines cols attach l) \<and> start (init_MemMoreLines cols attach l) = 0 \<and> mtext (init_MemMoreLines cols attach l) = mtext l"
proof -
  let ?l0 = "l\<lparr>start := 0, num := 0, total := 0, effectiveline := 0\<rparr>"
  have r: "ring_ok cols attach ?l0" using assms by (simp add: ring_ok_def)
  obtain l1 s where i: "init_loop cols attach 25 0 LINE_NORMAL ?l0 = (l1, s)" by (cases "init_loop cols attach 25 0 LINE_NORMAL ?l0")
  have "nth_line cols attach (mtext ?l0) (num ?l0) \<noteq> None"
    using assms(5) by (auto simp: nth_line_def measure_line_def split: prod.splits)
  then have o: "ring_ok cols attach l1" "start l1 = 0" "mtext l1 = mtext l" "0 < num l1"
    using init_loop_ok [OF r _ _ _ i] by simp_all
  define l2 where "l2 = (if effectiveline l1 < 0 then l1\<lparr>effectiveline := - effectiveline l1\<rparr> else l1)"
  define l3 where "l3 = (if s = 0 then l2\<lparr>total := num l2\<rparr> else l2)"
  have f: "ring_ok cols attach l3" "start l3 = 0" "mtext l3 = mtext l" "0 < num l3"
    using o by (simp_all add: l2_def l3_def ring_ok_def slot_line_def)
  have e: "init_MemMoreLines cols attach l = set_curr (l3\<lparr>curr_line := 0\<rparr>)"
    by (simp add: init_MemMoreLines_def i l2_def l3_def Let_def)
  have "start (set_curr (l3\<lparr>curr_line := 0\<rparr>)) = 0" using f(2) by (simp add: set_curr_def Let_def)
  then show ?thesis unfolding e using set_curr_at [OF f(1), of 0] f by simp
qed

lemma run_to_line_ok:
  "at_line cols attach k l \<Longrightarrow> k \<le> n \<Longrightarrow>
   (if nth_line cols attach (mtext l) n = None then \<exists>l' j. run_to_line cols attach n l = Some (l', None) \<and> at_line cols attach j l' \<and> mtext l' = mtext l
    else \<exists>l'. run_to_line cols attach n l = Some (l', Some n) \<and> at_line cols attach n l' \<and> mtext l' = mtext l)"
proof (induction "n - k" arbitrary: k l)
  case 0
  then have "k = n" "curr_line l = n" by (auto simp: at_line_def)
  moreover have "nth_line cols attach (mtext l) n \<noteq> None" using 0 \<open>k = n\<close> by (auto simp: at_line_def ring_ok_def)
  ultimately show ?case using 0(2) by (simp add: run_to_line.simps)
next
  case (Suc d)
  then have k: "curr_line l = k" "k < n" by (auto simp: at_line_def)
  show ?case
  proof (cases "nth_line cols attach (mtext l) (k + 1)")
    case None
    then have "nth_line cols attach (mtext l) n = None" using nth_line_later k(2) by (metis Suc_eq_plus1 Suc_leI)
    then show ?thesis using ring_next_ok [OF Suc.prems(1)] None k by (subst run_to_line.simps) auto
  next
    case (Some m)
    then obtain l1 where l1: "next_MemMoreLines cols attach l = (l1, Some (k + 1))" "at_line cols attach (k + 1) l1" "mtext l1 = mtext l"
      using ring_next_ok [OF Suc.prems(1)] by auto
    have "run_to_line cols attach n l = run_to_line cols attach n l1" using l1(1) k by (subst run_to_line.simps) simp
    moreover have "d = n - (k + 1)" "k + 1 \<le> n" using Suc.hyps(2) k(2) by simp_all
    ultimately show ?thesis using Suc.hyps(1) [of "k + 1" l1, OF _ l1(2)] unfolding l1(3) by (auto split: if_splits)
  qed
qed

lemma seek_up_ok:
  assumes "at_line cols attach k l"
  shows "if nth_line cols attach (mtext l) n = None then \<exists>l' j. seek_up cols attach n l = Some (l', None) \<and> at_line cols attach j l' \<and> mtext l' = mtext l
    else \<exists>l'. seek_up cols attach n l = Some (l', Some n) \<and> at_line cols attach n l' \<and> mtext l' = mtext l"
proof -
  define l1 where "l1 = (if n < start l then (init_MemMoreLines cols attach l)\<lparr>total := total l\<rparr> else l)"
  have "\<exists>j. at_line cols attach j l1 \<and> start l1 \<le> n \<and> (n < start l \<longrightarrow> j = 0) \<and> (\<not> n < start l \<longrightarrow> j = k) \<and> mtext l1 = mtext l"
  proof (cases "n < start l")
    case True
    have ne: "mtext l \<noteq> [] \<or> attach"
      using assms by (cases "mtext l = [] \<and> \<not> attach") (auto simp: at_line_def ring_ok_def nth_line_def measure_line_def split: option.splits)
    have w: "length (line l) = 100" "length (ty l) = 100" "length (len l) = 100" "length (siz l) = 100"
      using assms by (simp_all add: at_line_def ring_ok_def)
    have "at_line cols attach 0 (init_MemMoreLines cols attach l)" "start (init_MemMoreLines cols attach l) = 0" "mtext (init_MemMoreLines cols attach l) = mtext l"
      using ring_init_ok [OF w ne] by blast+
    moreover have "at_line cols attach 0 (m\<lparr>total := x\<rparr>) = at_line cols attach 0 m" for m x by (simp add: at_line_def ring_ok_def slot_line_def)
    ultimately show ?thesis using True by (simp add: l1_def)
  qed (use assms in \<open>simp add: l1_def at_line_def\<close>)
  then obtain j where j: "at_line cols attach j l1" "start l1 \<le> n" "mtext l1 = mtext l" by blast
  show ?thesis
  proof (cases "n < start l1 + num l1")
    case True
    have "nth_line cols attach (mtext l) n \<noteq> None" using j True by (auto simp: at_line_def ring_ok_def)
    moreover have "seek_up cols attach n l = Some (set_curr (l1\<lparr>curr_line := n\<rparr>), Some n)"
      using True by (simp add: seek_up_def l1_def [symmetric] Let_def)
    moreover have "ring_ok cols attach l1" using j(1) by (simp add: at_line_def)
    ultimately show ?thesis using set_curr_at [OF _ j(2) True] j(3) by simp
  next
    case False
    then have jn: "j \<le> n" using j(1) by (simp add: at_line_def)
    have "seek_up cols attach n l = run_to_line cols attach n l1" using False by (simp add: seek_up_def l1_def [symmetric] Let_def)
    then show ?thesis using run_to_line_ok [OF j(1) jn] unfolding j(3) by (auto split: if_splits)
  qed
qed

text \<open>C23. 
  C1. Seeking a line of the text in the pager returns, and finds exactly the line with that number, whatever
  lines the ring holds; when there is none it says so, and stays on a line of the text.
\<close>
theorem seek_finds_the_line:
  assumes "at_line cols attach k l"
  shows "case nth_line cols attach (mtext l) n of
      Some (p, m, s, c) \<Rightarrow> \<exists>l'. seek_MemMoreLines cols attach (int n) l = Some (l', Some n) \<and> at_line cols attach n l' \<and> curr l' = p \<and> currlen l' = m \<and> currty l' = c
    | None \<Rightarrow> \<exists>l' j. seek_MemMoreLines cols attach (int n) l = Some (l', None) \<and> at_line cols attach j l'"
proof (cases "nth_line cols attach (mtext l) n")
  case None
  then show ?thesis using seek_up_ok [OF assms, of n] by (auto simp: seek_MemMoreLines_def)
next
  case (Some x)
  then obtain l' where l': "seek_up cols attach n l = Some (l', Some n)" "at_line cols attach n l'" "mtext l' = mtext l"
    using seek_up_ok [OF assms, of n] by auto
  have "x = slot_line l' n" using l'(2,3) Some by (simp add: at_line_def ring_ok_def)
  then show ?thesis using Some l'(1,2) by (auto simp: seek_MemMoreLines_def at_line_def slot_line_def Let_def)
qed

definition blank_lines :: "string \<Rightarrow> memlines" where
  "blank_lines t = \<lparr>mtext = t, line = replicate 100 0, ty = replicate 100 LINE_NORMAL, len = replicate 100 0, siz = replicate 100 0, start = 0, num = 0,
     curr_line = 0, curr = 0, currty = LINE_NORMAL, currlen = 0, total = 0, effectiveline = 0\<rparr>"

lemma blank_lines_start: "t \<noteq> [] \<Longrightarrow> at_line cols attach 0 (init_MemMoreLines cols attach (blank_lines t)) \<and> mtext (init_MemMoreLines cols attach (blank_lines t)) = t"
  using ring_init_ok [of "blank_lines t" attach cols] by (simp add: blank_lines_def)

theorem seek_finds_the_line_witness:
  "\<exists>l'. seek_MemMoreLines 4 False (int 2) (init_MemMoreLines 4 False (blank_lines ''abcdef[]gh'')) = Some (l', Some 2) \<and> curr l' = 8 \<and> currlen l' = 2"
proof -
  have "nth_line 4 False ''abcdef[]gh'' 2 = Some (8, 2, 2, LINE_NORMAL_NOCF)" by code_simp
  then show ?thesis
    using seek_finds_the_line [of 4 False 0 "init_MemMoreLines 4 False (blank_lines ''abcdef[]gh'')" 2] blank_lines_start [of "''abcdef[]gh''" 4 False] by auto
qed

section \<open>No byte is lost\<close>

lemma measure_loop_step:
  "(c = CHR 0x0A \<and> measure_loop cols (c # cs) i w e d = (i, i + 1)) \<or>
   (c \<noteq> CHR 0x0A \<and> \<not> d \<and> cols - 1 \<le> w \<and> measure_loop cols (c # cs) i w e d = (i, i)) \<or>
   (c \<noteq> CHR 0x0A \<and> (\<exists>w' e' d'. measure_loop cols (c # cs) i w e d = measure_loop cols cs (i + 1) w' e' d'))"
proof (cases "c = CHR 0x0A")
  case False
  let ?r = "measure_loop cols (c # cs) i w e d" and ?n = "measure_loop cols cs (i + 1)"
  consider "c = CHR 0x09" | "c = KEY_ESC" | "c \<noteq> CHR 0x09" "c \<noteq> KEY_ESC" "e \<or> \<not> isprint2 c" | "c \<noteq> CHR 0x09" "c \<noteq> KEY_ESC" "\<not> e" "isprint2 c" by blast
  then have "?r = ?n ((w + 8) div 8 * 8) e False \<or> ?r = ?n w True False \<or> ?r = ?n w e d \<or> (\<not> d \<and> cols - 1 \<le> w \<and> ?r = (i, i)) \<or>
      ?r = ?n (w + 1) e (high_bit c) \<or> ?r = ?n (w + 1) e False"
  proof cases
    case 4
    then show ?thesis using False by (cases d) auto
  qed (use False in auto)
  then show ?thesis using False by blast
qed simp

lemma measure_loop_bounds:
  "measure_loop cols cs i w e d = (l, s) \<Longrightarrow>
   i \<le> l \<and> l \<le> s \<and> s \<le> i + length cs \<and> (s = l \<or> s = l + 1 \<and> cs ! (l - i) = CHR 0x0A)"
proof (induction cs arbitrary: i w e d)
  case (Cons c cs)
  from measure_loop_step [of c cols cs i w e d] show ?case
  proof (elim disjE conjE exE)
    fix w' e' d' assume "measure_loop cols (c # cs) i w e d = measure_loop cols cs (i + 1) w' e' d'"
    then have h: "i + 1 \<le> l \<and> l \<le> s \<and> s \<le> i + 1 + length cs \<and> (s = l \<or> s = l + 1 \<and> cs ! (l - (i + 1)) = CHR 0x0A)"
      using Cons.IH [of "i + 1" w' e' d'] Cons.prems by simp
    then obtain m where "l - i = Suc m" "l - (i + 1) = m" by (cases "l - i") auto
    then show ?thesis using h by auto
  qed (use Cons.prems in auto)
qed simp

lemma measure_line_bounds:
  assumes "measure_line cols attach t oldty = Some (n, s, c)"
  shows "n \<le> s \<and> s \<le> length t \<and> (s = n \<or> s = n + 1 \<and> t ! n = CHR 0x0A)"
proof (cases "t = []")
  case True
  then show ?thesis using assms by (simp add: measure_line_def split: if_splits line_code.splits)
next
  case False
  then have "measure_loop cols t 0 0 False False = (n, s)" using assms by (simp add: measure_line_def split: prod.splits)
  from measure_loop_bounds [OF this] show ?thesis by simp
qed

lemma measure_line_progress:
  assumes "measure_line cols False t oldty = Some (n, s, c)" and "2 \<le> cols"
  shows "0 < s"
proof -
  obtain b bs where t: "t = b # bs" using assms(1) by (cases t) (simp_all add: measure_line_def)
  have m: "measure_loop cols (b # bs) 0 0 False False = (n, s)" using assms(1) t by (simp add: measure_line_def del: measure_loop.simps split: prod.splits)
  from measure_loop_step [of b cols bs 0 0 False False] show ?thesis
  proof (elim disjE conjE exE)
    fix w' e' d' assume "measure_loop cols (b # bs) 0 0 False False = measure_loop cols bs (0 + 1) w' e' d'"
    then show ?thesis using m measure_loop_bounds [of cols bs 1 w' e' d' n s] by (simp del: measure_loop.simps)
  qed (use m assms(2) in \<open>auto simp del: measure_loop.simps\<close>)
qed

definition taken :: "string \<Rightarrow> nat \<times> nat \<times> nat \<times> line_code \<Rightarrow> string" where
  "taken t x = (case x of (p, n, s, c) \<Rightarrow> take s (drop p t))"

lemma line_pos_taken:
  "line_pos cols attach t k = Some (p, c) \<Longrightarrow> p \<le> length t \<and> concat (map (\<lambda>j. taken t (the (nth_line cols attach t j))) [0..<k]) = take p t"
proof (induction k arbitrary: p c)
  case (Suc k)
  then obtain q n s where x: "nth_line cols attach t k = Some (q, n, s, c)" "p = q + s" by (auto simp: line_pos_Suc simp del: line_pos.simps)
  then obtain b where q: "line_pos cols attach t k = Some (q, b)" "measure_line cols attach (drop q t) b = Some (n, s, c)"
    by (auto simp: nth_line_def split: option.splits prod.splits)
  from Suc.IH [OF q(1)] have i: "q \<le> length t" "concat (map (\<lambda>j. taken t (the (nth_line cols attach t j))) [0..<k]) = take q t" by simp_all
  have "s \<le> length (drop q t)" using measure_line_bounds [OF q(2)] by simp
  then show ?case using i x by (simp add: taken_def take_add)
qed simp

lemma line_pos_grows: "line_pos cols False t k = Some (p, c) \<Longrightarrow> 2 \<le> cols \<Longrightarrow> k \<le> p"
proof (induction k arbitrary: p c)
  case (Suc k)
  then obtain q b n s where "line_pos cols False t k = Some (q, b)" "measure_line cols False (drop q t) b = Some (n, s, c)" "p = q + s"
    by (auto split: option.splits prod.splits)
  then show ?case using Suc.IH [of q b] measure_line_progress Suc.prems(2) by fastforce
qed simp

text \<open>C25. 
  C2. On a screen of at least two columns a text has finitely many lines, which cut it without losing a byte:
  one behind the other they are the text, and what is shown of a line is all of it but the line feed at its end.
\<close>
theorem lines_cut_the_text:
  assumes "2 \<le> cols"
  shows "\<exists>ls. (\<forall>k. nth_line cols False t k = (if k < length ls then Some (ls ! k) else None)) \<and> concat (map (taken t) ls) = t \<and>
    (\<forall>(p, n, s, c)\<in>set ls. take s (drop p t) = take n (drop p t) \<or> take s (drop p t) = take n (drop p t) @ [CHR 0x0A])"
proof -
  let ?x = "nth_line cols False t"
  have "line_pos cols False t (Suc (length t)) = None"
    using line_pos_taken line_pos_grows [OF _ assms] by (metis not_less_eq_eq option.exhaust order_trans surj_pair)
  then have fin: "\<exists>k. ?x k = None" unfolding line_pos_Suc by (cases "?x (length t)") auto
  define N where "N = (LEAST k. ?x k = None)"
  have N: "?x N = None" "\<And>k. k < N \<Longrightarrow> ?x k \<noteq> None" unfolding N_def using LeastI_ex [OF fin] not_less_Least by blast+
  let ?ls = "map (\<lambda>j. the (?x j)) [0..<N]"
  have a: "?x k = (if k < length ?ls then Some (?ls ! k) else None)" for k
    using N nth_line_later [OF N(1)] by auto
  obtain p c where p: "line_pos cols False t N = Some (p, c)"
  proof (cases N)
    case (Suc m)
    then show thesis using N(2) [of m] that by (auto simp: line_pos_Suc simp del: line_pos.simps)
  qed (use that in auto)
  have "drop p t = []" using N(1) p by (cases "drop p t = []") (auto simp: nth_line_def measure_line_def split: prod.splits)
  then have b: "concat (map (taken t) ?ls) = t" using line_pos_taken [OF p] by (simp add: o_def)
  have d: "take s (drop p t) = take n (drop p t) \<or> take s (drop p t) = take n (drop p t) @ [CHR 0x0A]" if x: "(p, n, s, c) \<in> set ?ls" for p n s c
  proof -
    obtain j where j: "?x j = Some (p, n, s, c)" using x N(2) by fastforce
    then obtain o' where m: "measure_line cols False (drop p t) o' = Some (n, s, c)" by (auto simp: nth_line_def split: option.splits prod.splits)
    from measure_line_bounds [OF m] show ?thesis by (auto simp: take_Suc_conv_app_nth)
  qed
  show ?thesis using a b d by (intro exI [of _ ?ls]) blast
qed

theorem lines_cut_the_text_witness:
  "\<exists>ls. concat (map (taken ''abcdef[]gh'') ls) = ''abcdef[]gh'' \<and> length ls = 3"
proof -
  obtain ls where ls: "\<forall>k. nth_line 4 False ''abcdef[]gh'' k = (if k < length ls then Some (ls ! k) else None)" "concat (map (taken ''abcdef[]gh'') ls) = ''abcdef[]gh''"
    using lines_cut_the_text [of 4 "''abcdef[]gh''"] by auto
  have "nth_line 4 False ''abcdef[]gh'' 2 \<noteq> None" "nth_line 4 False ''abcdef[]gh'' 3 = None" by code_simp+
  then have "2 < length ls \<and> \<not> 3 < length ls" using ls(1) by (metis option.distinct(1))
  then show ?thesis using ls(2) by (intro exI [of _ ls]) simp
qed

lemma measure_loop_esc:
  "\<forall>c\<in>set cs. c \<noteq> CHR 0x0A \<Longrightarrow> measure_loop cols cs i w True d = (i + length cs, i + length cs)"
  by (induction cs arbitrary: i w d) auto



end
