(* ===== verification/PagerKeys.thy ===== *)
theory PagerKeys
  imports Pager
begin

text \<open>
  The keys of the pager (\<open>mem_more\<close> in src/more.c): what a page shows, and what every key does.
\<close>

section \<open>Paging\<close>

text \<open>
  \<open>mem_more\<close>: \<open>top_line\<close> is its \<open>curr_line\<close>, and \<open>key\<close> the last key.  The prints are collected as the lines printed; the
  rest of the drawing is left out.
\<close>

record pager =
  ml :: memlines
  top_line :: int
  last_line :: int
  key :: nat

record pager_env =
  t_lines :: int
  t_cols :: nat
  attached :: bool
  keystr :: "nat list"

type_synonym printed = "nat \<times> nat \<times> line_code"

definition current :: "memlines \<Rightarrow> printed" where
  "current l = (curr l, currlen l, currty l)"

text \<open>The inner loop that fills the screen; \<open>rows\<close> is \<open>t_lines - 1\<close>.\<close>

fun show_page :: "nat \<Rightarrow> bool \<Rightarrow> nat \<Rightarrow> memlines \<Rightarrow> memlines \<times> printed list" where
  "show_page cols attach (Suc (Suc r)) l =
     (case next_MemMoreLines cols attach l of
        (l1, None) \<Rightarrow> (l1, [current l])
      | (l1, Some _) \<Rightarrow> (case show_page cols attach (Suc r) l1 of (l2, ps) \<Rightarrow> (l2, current l # ps)))"
| "show_page cols attach r l = (l, [current l])"

text \<open>The distance from the start of the text to the end of the line in \<open>last_line\<close>'s place of the ring.\<close>

definition read_to :: "memlines \<Rightarrow> int \<Rightarrow> nat" where
  "read_to l row = (let u = nat (row mod int BUFFERCOUNT) in line l ! u + siz l ! u)"

datatype turn = Leave int | Wait pager | Repaint pager

definition forward_key :: "nat \<Rightarrow> bool" where
  "forward_key ch \<longleftrightarrow> ch = KEY_RIGHT \<or> ch = KEY_PGDN \<or> ch = 32 \<or> ch = Ctrl (CHR ''F'')"

definition paint :: "pager_env \<Rightarrow> pager \<Rightarrow> turn \<times> printed list" where
  "paint e p =
     (case show_page (t_cols e) (attached e) (nat (t_lines e - 1)) (ml p) of
        (l, ps) \<Rightarrow>
          let p1 = p\<lparr>ml := l, top_line := int (curr_line (ml p)), last_line := int (curr_line l)\<rparr> in
          (if total l \<noteq> 0 \<and> int (total l) \<le> t_lines e - 1 then Leave 0
           else if read_to l (last_line p1) = length (mtext l) \<and> forward_key (key p) then Leave 0
           else Wait p1, ps))"

partial_function (option) end_loop :: "nat \<Rightarrow> bool \<Rightarrow> memlines \<Rightarrow> memlines option" where
  "end_loop cols attach l =
     (case next_MemMoreLines cols attach l of (l1, None) \<Rightarrow> Some l1 | (l1, Some _) \<Rightarrow> end_loop cols attach l1)"

text \<open>The search for \<open>s\<close>: the number of the line found, or \<open>None\<close>.\<close>

partial_function (option) search_lines :: "nat \<Rightarrow> bool \<Rightarrow> int \<Rightarrow> string \<Rightarrow> int \<Rightarrow> memlines \<Rightarrow> (memlines \<times> int option) option" where
  "search_lines cols attach d s i l =
     (case seek_MemMoreLines cols attach (i + d) l of
        None \<Rightarrow> None
      | Some (l1, None) \<Rightarrow> Some (l1, None)
      | Some (l1, Some _) \<Rightarrow>
          if strcasestr (cstr (take (if 256 \<le> currlen l1 then 255 else currlen l1) (drop (curr l1) (mtext l1)))) s \<noteq> None
          then Some (l1, Some (i + d)) else search_lines cols attach d s (i + d) l1)"

datatype asked = Change int pager | Return int | Continue pager

text \<open>The \<open>switch\<close> on the key; \<open>answer\<close> is what is entered where a number or a string is asked for.\<close>

definition more_key :: "pager_env \<Rightarrow> nat \<Rightarrow> string \<Rightarrow> pager \<Rightarrow> asked option" where
  "more_key e ch answer p =
     (let cols = t_cols e; att = attached e; l = ml p; rows = t_lines e in
      if ch = cval CHR ''k'' \<or> ch = KEY_UP then Some (Change (- 1) p)
      else if ch = cval CHR ''j'' \<or> ch = KEY_DOWN \<or> ch = 10 then Some (Change 1 p)
      else if ch = Ctrl (CHR ''B'') \<or> ch = KEY_PGUP then Some (Change (2 - rows) p)
      else if forward_key ch then
        (case (if total l = 0 then map_option fst (seek_MemMoreLines cols att (last_line p + rows) l) else Some l) of
           None \<Rightarrow> None
         | Some l1 \<Rightarrow>
             let c = rows - 2;
                 c1 = (if total l1 \<noteq> 0 \<and> last_line p < int (total l1) \<and> int (total l1) < top_line p + c + rows - 1
                       then int (total l1) - top_line p - rows + 1 else c)
             in Some (Change c1 (p\<lparr>ml := l1\<rparr>)))
      else if ch = KEY_HOME then Some (Change (- top_line p) p)
      else if ch = cval CHR ''$'' \<or> ch = KEY_END then
        (if total l = 0 then
           (case end_loop cols att l of
              None \<Rightarrow> None
            | Some l1 \<Rightarrow> Some (Change (2 - rows) (p\<lparr>ml := l1, top_line := int (curr_line l1)\<rparr>)))
         else Some (Change (2 - rows) (p\<lparr>top_line := int (total l) - 1\<rparr>)))
      else if ch = cval CHR ''G'' \<or> ch = cval CHR ''g'' then
        Some (Change (if answer \<noteq> [] \<and> is_digit (hd answer) then atoi answer - top_line p else 0) p)
      else if ch = cval CHR ''/'' \<or> ch = cval CHR ''?'' then
        (if answer = [] then Some (Change 0 p)
         else
           case search_lines cols att (if ch = cval CHR ''/'' then 1 else - 1) answer (top_line p) l of
             None \<Rightarrow> None
           | Some (l1, None) \<Rightarrow> Some (Continue (p\<lparr>ml := l1\<rparr>))
           | Some (l1, Some i) \<Rightarrow> Some (Change (i - top_line p) (p\<lparr>ml := l1\<rparr>)))
      else if ch = KEY_LEFT \<or> ch = cval CHR ''Q'' \<or> ch = cval CHR ''q'' then Some (Return (int ch))
      else if ch = cval CHR ''H'' \<or> ch = cval CHR ''h'' then Some (Change (1 - rows) (p\<lparr>top_line := top_line p + rows - 1\<rparr>))
      else if ch < 32 then Some (Continue p)
      else if ch \<in> set (keystr e) then Some (Return (int ch))
      else Some (Change 0 p))"

text \<open>One round of the \<open>do\<close> loop.\<close>

definition more_turn :: "pager_env \<Rightarrow> nat \<Rightarrow> string \<Rightarrow> pager \<Rightarrow> turn option" where
  "more_turn e ch answer p0 =
     (let cols = t_cols e; att = attached e; p00 = p0\<lparr>key := ch\<rparr> in
      case more_key e ch answer p00 of
        None \<Rightarrow> None
      | Some (Return r) \<Rightarrow> Some (Leave r)
      | Some (Continue p) \<Rightarrow> Some (Wait p)
      | Some (Change change p) \<Rightarrow>
          if change < 0 \<and> top_line p = 0 then Some (Leave (int KEY_UP))
          else if change = 1 then
            (case seek_MemMoreLines cols att (top_line p + t_lines e - 1) (ml p) of
               None \<Rightarrow> None
             | Some (l1, None) \<Rightarrow> Some (Leave 0)
             | Some (l1, Some _) \<Rightarrow>
                 let p1 = p\<lparr>ml := l1, top_line := top_line p + 1, last_line := last_line p + 1\<rparr> in
                 if (forward_key ch \<or> ch = KEY_DOWN \<or> ch = cval CHR ''j'' \<or> ch = 10) \<and> read_to l1 (last_line p1) = length (mtext l1) then Some (Leave 0)
                 else Some (Wait p1))
          else if change = - 1 then
            (case seek_MemMoreLines cols att (top_line p - 1) (ml p) of
               None \<Rightarrow> None
             | Some (l1, None) \<Rightarrow> Some (Wait (p\<lparr>ml := l1\<rparr>))
             | Some (l1, Some _) \<Rightarrow> Some (Wait (p\<lparr>ml := l1, top_line := top_line p - 1, last_line := last_line p - 1\<rparr>)))
          else if change = 0 then Some (Wait p)
          else map_option (\<lambda>(l1, r). Repaint (p\<lparr>ml := l1\<rparr>)) (seek_MemMoreLines cols att (top_line p + change) (ml p)))"

section \<open>What a page shows\<close>

definition shown :: "nat \<Rightarrow> bool \<Rightarrow> string \<Rightarrow> nat \<Rightarrow> printed option" where
  "shown cols attach t k = map_option (\<lambda>(p, n, s, c). (p, n, c)) (nth_line cols attach t k)"

lemma at_line_shown: "at_line cols attach k l \<Longrightarrow> shown cols attach (mtext l) k = Some (current l)"
  by (simp add: at_line_def ring_ok_def shown_def current_def slot_line_def Let_def)

lemma next_cases:
  assumes "at_line cols attach k l"
  obtains l1 where "next_MemMoreLines cols attach l = (l1, None)" "nth_line cols attach (mtext l) (k + 1) = None" "at_line cols attach k l1" "mtext l1 = mtext l"
    | l1 where "next_MemMoreLines cols attach l = (l1, Some (k + 1))" "nth_line cols attach (mtext l) (k + 1) \<noteq> None" "at_line cols attach (k + 1) l1" "mtext l1 = mtext l"
  using ring_next_ok [OF assms] by (cases "nth_line cols attach (mtext l) (k + 1)") auto

lemma show_page_ok:
  "at_line cols attach k l \<Longrightarrow> show_page cols attach r l = (l', ps) \<Longrightarrow>
   ps \<noteq> [] \<and> length ps \<le> max 1 r \<and> (\<forall>i < length ps. shown cols attach (mtext l) (k + i) = Some (ps ! i)) \<and>
   (length ps < r \<longrightarrow> nth_line cols attach (mtext l) (k + length ps) = None) \<and> at_line cols attach (k + length ps - 1) l' \<and> mtext l' = mtext l"
proof (induction cols attach r l arbitrary: k l' ps rule: show_page.induct)
  case (1 cols attach r l)
  from 1(2) show ?case
  proof (cases rule: next_cases)
    case (1 l1)
    then show ?thesis using "1.prems" at_line_shown by auto
  next
    case (2 l1)
    obtain l2 qs where q: "show_page cols attach (Suc r) l1 = (l2, qs)" by (cases "show_page cols attach (Suc r) l1")
    then have e: "l' = l2" "ps = current l # qs" using "1.prems"(2) 2(1) by auto
    from "1.IH" [OF 2(1) [symmetric] refl 2(3) q]
    have i: "qs \<noteq> []" "length qs \<le> Suc r" "\<forall>i < length qs. shown cols attach (mtext l) (k + 1 + i) = Some (qs ! i)"
      "length qs < Suc r \<longrightarrow> nth_line cols attach (mtext l) (k + 1 + length qs) = None" "at_line cols attach (k + 1 + length qs - 1) l2" "mtext l2 = mtext l"
      using 2(4) by (simp_all add: max_def split: if_splits)
    have "shown cols attach (mtext l) (k + j) = Some (ps ! j)" if "j < length ps" for j
      using that i(3) at_line_shown [OF "1.prems"(1)] e(2) by (cases j) auto
    then show ?thesis using i e by simp
  qed
qed (auto dest: at_line_shown)

section \<open>Every key is answered\<close>

fun phase :: "line_code \<Rightarrow> nat" where
  "phase LINE_ATTACHMENT = 1"
| "phase LINE_ATTACHLINK = 2"
| "phase LINE_ATTACHALINK = 3"
| "phase c = 0"

lemma measure_line_phase:
  assumes "measure_line cols attach p0 oldty = Some (n, s, c)" and "2 \<le> cols"
  shows "if p0 = [] then s = 0 \<and> phase c = phase oldty + 1 else 0 < s \<and> phase c = 0"
proof (cases "p0 = []")
  case True
  then show ?thesis using assms by (cases oldty) (auto simp: measure_line_def split: if_splits)
next
  case False
  then have "measure_line cols False p0 oldty = Some (n, s, c)" using assms(1) by (simp add: measure_line_def)
  moreover have "c = line_type p0 n s oldty" using assms(1) False by (auto simp: measure_line_def split: prod.splits)
  ultimately show ?thesis using measure_line_progress assms(2) False by (auto simp: line_type_def Let_def split: line_code.split)
qed

lemma phase_3: "phase c \<le> 3"
  by (cases c) auto

lemma line_pos_bound:
  "line_pos cols attach t k = Some (p, c) \<Longrightarrow> 2 \<le> cols \<Longrightarrow> p \<le> length t \<and> k \<le> p + phase c \<and> (0 < phase c \<longrightarrow> p = length t)"
proof (induction k arbitrary: p c)
  case (Suc k)
  then obtain q b n s where q: "line_pos cols attach t k = Some (q, b)" "measure_line cols attach (drop q t) b = Some (n, s, c)" "p = q + s"
    by (auto split: option.splits prod.splits)
  have i: "q \<le> length t" "k \<le> q + phase b" "0 < phase b \<longrightarrow> q = length t" using Suc.IH [OF q(1) Suc.prems(2)] by simp_all
  have "s \<le> length (drop q t)" using measure_line_bounds [OF q(2)] by simp
  then show ?case using i q(3) measure_line_phase [OF q(2) Suc.prems(2)] by (auto split: if_splits)
qed simp

lemma lines_end: "2 \<le> cols \<Longrightarrow> nth_line cols attach t (length t + 3) = None"
proof (rule ccontr)
  assume c: "2 \<le> cols" and "nth_line cols attach t (length t + 3) \<noteq> None"
  then obtain x where "nth_line cols attach t (length t + 3) = Some x" by blast
  then obtain p b where p: "line_pos cols attach t (Suc (length t + 3)) = Some (p, b)"
    using line_pos_Suc [of cols attach t "length t + 3"] by (cases x) (simp only: option.map prod.case)
  show False using line_pos_bound [OF p c] phase_3 [of b] by linarith
qed

lemma nth_line_bound:
  assumes "2 \<le> cols" and "nth_line cols attach t k \<noteq> None"
  shows "k < length t + 3"
proof -
  have "nth_line cols attach t (length t + 3) = None" by (rule lines_end [OF assms(1)])
  from nth_line_later [OF this, of k] show ?thesis using assms(2) by (cases "k < length t + 3") simp_all
qed

lemma seek_ok:
  assumes "at_line cols attach k l"
  shows "\<exists>l' r j. seek_MemMoreLines cols attach i l = Some (l', r) \<and> at_line cols attach j l' \<and> mtext l' = mtext l \<and>
    (r \<noteq> None \<longrightarrow> 0 \<le> i \<and> nth_line cols attach (mtext l) (nat i) \<noteq> None)"
proof -
  have up: "\<exists>l' r j. seek_up cols attach n l = Some (l', r) \<and> at_line cols attach j l' \<and> mtext l' = mtext l \<and> (r \<noteq> None \<longrightarrow> nth_line cols attach (mtext l) n \<noteq> None)" for n
  proof (cases "nth_line cols attach (mtext l) n = None")
    case True
    then obtain l' j where "seek_up cols attach n l = Some (l', None)" "at_line cols attach j l'" "mtext l' = mtext l"
      using seek_up_ok [OF assms, of n] unfolding if_P [OF True] by blast
    then show ?thesis by auto
  next
    case False
    then obtain l' where "seek_up cols attach n l = Some (l', Some n)" "at_line cols attach n l'" "mtext l' = mtext l"
      using seek_up_ok [OF assms, of n] unfolding if_not_P [OF False] by blast
    then show ?thesis using False by blast
  qed
  show ?thesis
  proof (cases "i < 0")
    case True
    obtain l' r j where "seek_up cols attach 0 l = Some (l', r)" "at_line cols attach j l'" "mtext l' = mtext l" using up by blast
    then have "seek_MemMoreLines cols attach i l = Some (l', None)" "at_line cols attach j l'" "mtext l' = mtext l" using True by (simp_all add: seek_MemMoreLines_def)
    then show ?thesis by blast
  next
    case False
    then have "seek_MemMoreLines cols attach i l = seek_up cols attach (nat i) l" by (simp add: seek_MemMoreLines_def)
    then show ?thesis using up [of "nat i"] False by (metis not_le)
  qed
qed

lemma end_loop_ok:
  assumes "2 \<le> cols"
  shows "at_line cols attach k l \<Longrightarrow> \<exists>l' j. end_loop cols attach l = Some l' \<and> at_line cols attach j l' \<and> mtext l' = mtext l"
proof (induction "length (mtext l) + 3 - k" arbitrary: k l rule: less_induct)
  case less
  have "nth_line cols attach (mtext l) k \<noteq> None" using less.prems by (auto simp: at_line_def ring_ok_def)
  then have kl: "k < length (mtext l) + 3" using nth_line_bound [OF assms] by blast
  from less.prems show ?case
  proof (cases rule: next_cases)
    case (1 l1)
    then show ?thesis by (subst end_loop.simps) auto
  next
    case (2 l1)
    have "\<exists>l' j. end_loop cols attach l1 = Some l' \<and> at_line cols attach j l' \<and> mtext l' = mtext l1"
      by (rule less.hyps [OF _ 2(3)]) (use kl 2(4) in simp)
    then show ?thesis using 2(1,4) by (subst end_loop.simps) auto
  qed
qed

lemma search_lines_ok:
  assumes "2 \<le> cols" and "d = 1 \<or> d = - 1"
  shows "at_line cols attach k l \<Longrightarrow> \<exists>l' r j. search_lines cols attach d s i l = Some (l', r) \<and> at_line cols attach j l' \<and> mtext l' = mtext l"
proof (induction "nat (if d = 1 then int (length (mtext l)) + 3 - i else i + 1)" arbitrary: k l i rule: less_induct)
  case less
  obtain l1 r j where s: "seek_MemMoreLines cols attach (i + d) l = Some (l1, r)" "at_line cols attach j l1" "mtext l1 = mtext l"
    "r \<noteq> None \<longrightarrow> 0 \<le> i + d \<and> nth_line cols attach (mtext l) (nat (i + d)) \<noteq> None"
    using seek_ok [OF less.prems, of "i + d"] by blast
  show ?case
  proof (cases r)
    case None
    then show ?thesis using s by (subst search_lines.simps) auto
  next
    case (Some x)
    then have b: "0 \<le> i + d" "nat (i + d) < length (mtext l) + 3"
      using s(4) nth_line_bound [OF assms(1)] by blast+
    have "\<exists>l' r j. search_lines cols attach d s (i + d) l1 = Some (l', r) \<and> at_line cols attach j l' \<and> mtext l' = mtext l1"
      by (rule less.hyps [OF _ s(2)]) (use b assms(2) s(3) in auto)
    then show ?thesis using s Some by (subst search_lines.simps) auto
  qed
qed

definition on_text :: "pager_env \<Rightarrow> string \<Rightarrow> pager \<Rightarrow> bool" where
  "on_text e t p \<longleftrightarrow> mtext (ml p) = t \<and> (\<exists>k. at_line (t_cols e) (attached e) k (ml p))"

lemma on_text_step: "at_line (t_cols e) (attached e) j l1 \<Longrightarrow> mtext l1 = t \<Longrightarrow> ml p = l1 \<Longrightarrow> on_text e t p"
  by (auto simp: on_text_def)

definition sound :: "pager_env \<Rightarrow> string \<Rightarrow> asked option \<Rightarrow> bool" where
  "sound e t x \<longleftrightarrow> (\<exists>a. x = Some a \<and> (case a of Change c p1 \<Rightarrow> on_text e t p1 | Return r \<Rightarrow> True | Continue p1 \<Rightarrow> on_text e t p1))"

lemma sound_simps: "sound e t (Some (Change c p)) = on_text e t p" "sound e t (Some (Return r))" "sound e t (Some (Continue p)) = on_text e t p"
  by (simp_all add: sound_def)

lemma sound_if: "sound e t x \<Longrightarrow> sound e t y \<Longrightarrow> sound e t (if b then x else y)"
  by simp

lemma more_key_ok:
  assumes "on_text e t p" and "2 \<le> t_cols e"
  shows "sound e t (more_key e ch answer p)"
proof -
  obtain k where k: "at_line (t_cols e) (attached e) k (ml p)" "mtext (ml p) = t" using assms(1) by (auto simp: on_text_def)
  obtain l1 r j where s: "seek_MemMoreLines (t_cols e) (attached e) (last_line p + t_lines e) (ml p) = Some (l1, r)" "at_line (t_cols e) (attached e) j l1" "mtext l1 = t"
    using seek_ok [OF k(1), of "last_line p + t_lines e"] k(2) by blast
  obtain l2 j2 where n: "end_loop (t_cols e) (attached e) (ml p) = Some l2" "at_line (t_cols e) (attached e) j2 l2" "mtext l2 = t"
    using end_loop_ok [OF assms(2) k(1)] k(2) by blast
  have dir: "(if ch = cval CHR ''/'' then 1 else - 1 :: int) = 1 \<or> (if ch = cval CHR ''/'' then 1 else - 1 :: int) = - 1" by simp
  obtain l3 r3 j3 where f: "search_lines (t_cols e) (attached e) (if ch = cval CHR ''/'' then 1 else - 1) answer (top_line p) (ml p) = Some (l3, r3)"
    "at_line (t_cols e) (attached e) j3 l3" "mtext l3 = t"
    using search_lines_ok [OF assms(2) dir k(1), of answer "top_line p"] k(2) by blast
  have u: "on_text e t (p\<lparr>top_line := x\<rparr>)" "on_text e t (p\<lparr>ml := l1\<rparr>)" "on_text e t (p\<lparr>ml := l2, top_line := x\<rparr>)" "on_text e t (p\<lparr>ml := l3\<rparr>)" for x
    using k s n f by (auto simp: on_text_def)
  have fw: "sound e t (case (if total (ml p) = 0 then map_option fst (seek_MemMoreLines (t_cols e) (attached e) (last_line p + t_lines e) (ml p)) else Some (ml p)) of
      None \<Rightarrow> None | Some l1 \<Rightarrow> Some (Change (g l1) (p\<lparr>ml := l1\<rparr>)))" for g
    using assms(1) u(2) s(1) by (simp add: sound_simps)
  have en: "sound e t (if total (ml p) = 0 then
      (case end_loop (t_cols e) (attached e) (ml p) of None \<Rightarrow> None | Some l1 \<Rightarrow> Some (Change c (p\<lparr>ml := l1, top_line := int (curr_line l1)\<rparr>)))
      else Some (Change c (p\<lparr>top_line := int (total (ml p)) - 1\<rparr>)))" for c
    using u(1,3) n(1) by (simp add: sound_simps)
  have se: "sound e t (case search_lines (t_cols e) (attached e) (if ch = cval CHR ''/'' then 1 else - 1) answer (top_line p) (ml p) of
      None \<Rightarrow> None | Some (l1, None) \<Rightarrow> Some (Continue (p\<lparr>ml := l1\<rparr>)) | Some (l1, Some i) \<Rightarrow> Some (Change (i - top_line p) (p\<lparr>ml := l1\<rparr>)))"
    unfolding f(1) using u(4) by (simp add: sound_simps split: option.split)
  have pl: "sound e t (Some (Change c p))" "sound e t (Some (Continue p))" "sound e t (Some (Return r))" "sound e t (Some (Change c (p\<lparr>top_line := x\<rparr>)))" for c r x
    using assms(1) u(1) by (simp_all add: sound_simps)
  show ?thesis unfolding more_key_def Let_def by (intro sound_if pl fw en se)
qed

text \<open>C24. 
  C2. Every key of the pager is answered, on a screen of two columns or more: no loop of \<open>mem_more\<close> runs forever, and if the pager is
  not left it stands on a line of its text again.
\<close>
theorem every_pager_key_is_answered:
  assumes "on_text e t p" and "2 \<le> t_cols e"
  shows "\<exists>a. more_turn e ch answer p = Some a \<and> (case a of Leave r \<Rightarrow> True | Wait p1 \<Rightarrow> on_text e t p1 | Repaint p1 \<Rightarrow> on_text e t p1)"
proof -
  let ?p = "p\<lparr>key := ch\<rparr>"
  have "on_text e t ?p" using assms(1) by (simp add: on_text_def)
  from more_key_ok [OF this assms(2), unfolded sound_def] obtain a where a: "more_key e ch answer ?p = Some a"
    "case a of Change c p1 \<Rightarrow> on_text e t p1 | Return r \<Rightarrow> True | Continue p1 \<Rightarrow> on_text e t p1" by blast
  show ?thesis
  proof (cases a)
    case (Change c q)
    then obtain k where k: "at_line (t_cols e) (attached e) k (ml q)" "mtext (ml q) = t" and q: "on_text e t q" using a(2) by (auto simp: on_text_def)
    have s: "\<exists>l1 r. seek_MemMoreLines (t_cols e) (attached e) i (ml q) = Some (l1, r) \<and> (\<exists>j. at_line (t_cols e) (attached e) j l1) \<and> mtext l1 = t" for i
      using seek_ok [OF k(1), of i] k(2) by blast
    obtain l1 r1 where s1: "seek_MemMoreLines (t_cols e) (attached e) (top_line q + t_lines e - 1) (ml q) = Some (l1, r1)" "\<exists>j. at_line (t_cols e) (attached e) j l1" "mtext l1 = t"
      using s by blast
    obtain l2 r2 where s2: "seek_MemMoreLines (t_cols e) (attached e) (top_line q - 1) (ml q) = Some (l2, r2)" "\<exists>j. at_line (t_cols e) (attached e) j l2" "mtext l2 = t"
      using s by blast
    obtain l3 r3 where s3: "seek_MemMoreLines (t_cols e) (attached e) (top_line q + c) (ml q) = Some (l3, r3)" "\<exists>j. at_line (t_cols e) (attached e) j l3" "mtext l3 = t"
      using s by blast
    show ?thesis
      unfolding more_turn_def Let_def a(1) Change using q s1 s2 s3 by (simp add: on_text_def split: option.split)
  qed (use a in \<open>simp_all add: more_turn_def Let_def\<close>)
qed

definition small_pager :: pager_env where
  "small_pager = \<lparr>t_lines = 3, t_cols = 4, attached = False, keystr = []\<rparr>"

definition small_start :: pager where
  "small_start = \<lparr>ml = init_MemMoreLines 4 False (blank_lines ''abcdef[]gh''), top_line = 0, last_line = 0, key = 0\<rparr>"

lemma small_start_at: "at_line 4 False 0 (ml small_start) \<and> mtext (ml small_start) = ''abcdef[]gh''"
  using blank_lines_start [of "''abcdef[]gh''" 4 False] by (simp add: small_start_def)

theorem every_pager_key_is_answered_witness:
  "\<exists>a. more_turn small_pager KEY_END [] small_start = Some a \<and> (case a of Leave r \<Rightarrow> True | Wait p1 \<Rightarrow> on_text small_pager ''abcdef[]gh'' p1 | Repaint p1 \<Rightarrow> on_text small_pager ''abcdef[]gh'' p1)"
  by (rule every_pager_key_is_answered) (use small_start_at in \<open>auto simp: on_text_def small_pager_def\<close>)

text \<open>C26. 
  C3. A page of the pager shows the lines of the text one after the other from the line it begins with, as many as the screen
  has room for, or to the end of the text; the pager knows the first and the last of them.
\<close>
theorem page_shows_the_lines:
  assumes "at_line (t_cols e) (attached e) k (ml p)" and "mtext (ml p) = t" and "2 \<le> t_lines e" and "paint e p = (a, ps)"
  shows "(\<forall>i < length ps. shown (t_cols e) (attached e) t (k + i) = Some (ps ! i)) \<and>
    (int (length ps) = t_lines e - 1 \<or> int (length ps) < t_lines e - 1 \<and> shown (t_cols e) (attached e) t (k + length ps) = None) \<and>
    (\<forall>p1. a = Wait p1 \<longrightarrow> top_line p1 = int k \<and> last_line p1 = int k + int (length ps) - 1 \<and> on_text e t p1)"
proof -
  obtain l where l: "show_page (t_cols e) (attached e) (nat (t_lines e - 1)) (ml p) = (l, ps)"
    using assms(4) by (auto simp: paint_def Let_def split: prod.splits)
  from show_page_ok [OF assms(1) l]
  have o: "ps \<noteq> []" "length ps \<le> max 1 (nat (t_lines e - 1))" "\<forall>i < length ps. shown (t_cols e) (attached e) t (k + i) = Some (ps ! i)"
    "length ps < nat (t_lines e - 1) \<longrightarrow> nth_line (t_cols e) (attached e) t (k + length ps) = None"
    "at_line (t_cols e) (attached e) (k + length ps - 1) l" "mtext l = t" by (simp_all add: assms(2))
  have c: "curr_line (ml p) = k" "curr_line l = k + length ps - 1" using assms(1) o(5) by (simp_all add: at_line_def)
  have n: "int (length ps) = t_lines e - 1 \<or> int (length ps) < t_lines e - 1" using o(2) assms(3) by linarith
  have w: "top_line p1 = int k \<and> last_line p1 = int k + int (length ps) - 1 \<and> on_text e t p1" if "a = Wait p1" for p1
  proof -
    have "p1 = p\<lparr>ml := l, top_line := int (curr_line (ml p)), last_line := int (curr_line l)\<rparr>"
      using assms(4) that l by (auto simp: paint_def Let_def split: if_splits)
    then show ?thesis using c o(1,5,6) by (auto simp: on_text_def of_nat_diff Suc_le_eq)
  qed
  have "int (length ps) = t_lines e - 1 \<or> int (length ps) < t_lines e - 1 \<and> shown (t_cols e) (attached e) t (k + length ps) = None"
    using n o(4) by (auto simp: shown_def)
  then show ?thesis using o(3) w by blast
qed

theorem page_shows_the_lines_witness:
  "\<exists>a ps. paint small_pager small_start = (a, ps) \<and> ps = [(0, 4, LINE_NORMAL_NOCF), (4, 4, LINE_NORMAL_NOCF)]"
proof -
  obtain a ps where p: "paint small_pager small_start = (a, ps)" by (cases "paint small_pager small_start")
  have e: "t_cols small_pager = 4" "\<not> attached small_pager" "t_lines small_pager = 3" by (simp_all add: small_pager_def)
  have o: "\<forall>i < length ps. shown 4 False ''abcdef[]gh'' (0 + i) = Some (ps ! i)"
    "int (length ps) = 3 - 1 \<or> int (length ps) < 3 - 1 \<and> shown 4 False ''abcdef[]gh'' (0 + length ps) = None"
    using page_shows_the_lines [of small_pager 0 small_start "''abcdef[]gh''" a ps] small_start_at p e by simp_all
  have s: "shown 4 False ''abcdef[]gh'' 0 = Some (0, 4, LINE_NORMAL_NOCF)" "shown 4 False ''abcdef[]gh'' 1 = Some (4, 4, LINE_NORMAL_NOCF)" by code_simp+
  have "length ps = 2"
  proof (rule ccontr)
    assume "length ps \<noteq> 2"
    then have l: "length ps = 0 \<or> length ps = 1" using o(2) by linarith
    have "shown 4 False ''abcdef[]gh'' (length ps) = None" using o(2) \<open>length ps \<noteq> 2\<close> by auto
    then show False using s l by auto
  qed
  then have "ps = [(0, 4, LINE_NORMAL_NOCF), (4, 4, LINE_NORMAL_NOCF)]"
    using o(1) s by (intro nth_equalityI) (auto simp: less_Suc_eq numeral_2_eq_2)
  then show ?thesis using p by blast
qed

end
