(* ===== verification/Spec2Isabelle.thy ===== *)
theory Spec2Isabelle
  imports CString RecordBatch Directory Thread StringList ReadNav ReadMark BoardList Five UserComplete EditKeys ChatProps LineInput ScreenDraw ScreenWire SharedTables Mines PagerKeys
begin

text \<open>
  The Firebird bulletin board system (C): a user comes in over telnet, a process of his own
  reads his keys and draws his screen (src/io.c, src/screen.c), and all processes work on the same
  files and shared tables: directories of articles, the user and the board file, the table of the
  sessions.  A separate process, the chat server (src/station.c), serves the chat rooms.

  \<^bold>\<open>Parts.\<close>

  \<^item> \<open>Prelude\<close>: bytes, C strings by their contents, buffers by all their bytes (\<open>buf_get\<close>, \<open>buf_set\<close>),
    \<open>memmove\<close>; lemmas on list updates.  \<open>CString\<close>: lib/libSystem/string.c.
  \<^item> \<open>RecordFile\<close>, \<open>RecordBatch\<close>: src/record.c.  A file system maps names to byte lists; a record of the
    environment (\<open>env\<close>) says which calls of the system succeed.  \<open>Directory\<close>: the operations on
    directories of articles (\<open>struct fileheader\<close>); \<open>Thread\<close>: src/thread.c, the thread index over them.
  \<^item> \<open>StringList\<close>: lib/libSystem/stringlist.c.
  \<^item> \<open>ReadNav\<close>: the cursor of the list reader (src/read.c).  \<open>ReadMark\<close>, \<open>BoardList\<close>: the read marks and the list
    of boards (src/boards.c).
  \<^item> \<open>SharedTables\<close>: the tables of users, sessions (src/ucache.c) and boards (src/bcache.c).
  \<^item> \<open>NameList\<close>, \<open>UserComplete\<close>: completion of names (src/namecomplete.c, \<open>u_namearray\<close>).
  \<^item> \<open>TextLines\<close>, \<open>TextEdit\<close>, \<open>EditKeys\<close>: the editor (src/edit.c): its heap of lines, typing, keys.
  \<^item> \<open>Pager\<close>, \<open>PagerKeys\<close>: the pager (src/more.c): the lines of a text, the ring of those measured, the keys.
  \<^item> \<open>Five\<close>: the game of src/five.c with the rules and both players.  \<open>Mines\<close>: the mine sweeper, a program of
    its own (util/game/winmine.c), without the text of its table file.
  \<^item> \<open>ChatText\<close>, \<open>ChatStation\<close>, \<open>ChatCommands\<close>: the chat server, one definition per handler, table of commands
    and packets included; \<open>ChatRooms\<close>, \<open>ChatServer\<close>: its invariant; \<open>ChatSafety\<close>, \<open>ChatProps\<close>: its properties.
  \<^item> \<open>KeyInput\<close>, \<open>LineInput\<close>: the keyboard and the entry of a line (src/io.c).
  \<^item> \<open>TermOutput\<close>, \<open>Screen\<close>: the output buffer (src/io.c), the picture of the screen and the drawing of it
    (src/screen.c, \<open>do_move\<close> of src/term.c); \<open>ScreenSync\<close>, \<open>ScreenDraw\<close>: the terminal at the other end and
    what it shows; \<open>ScreenWire\<close>: the way of the drawing through the output buffer.

  \<^bold>\<open>Conventions.\<close>  A definition has the name of the function of the source, or of the part of it that it
  is.  State is passed explicitly, in records with the fields of the structures and the static variables
  of the file.  Where the code can leave an array, write to memory it has not, or follow a null pointer,
  the result is an option and \<open>None\<close> stands for that fault; where the code has an error return, the
  model returns it.  Machine integers are words where they wrap (identifiers, flags, sizes, the
  cursor of the screen); otherwise they are \<open>int\<close> or \<open>nat\<close>, and wrap-around at 32 bits is not
  considered.  \<open>env\<close>, \<open>filesys\<close>, the readable descriptors, the time and the layouts of the records
  are arguments.  A function pointer of the code (a comparison, a callback) is a function argument.

  \<^bold>\<open>Loops.\<close>  Loops are recursions with their measures.  Loops that consume input
  of the outside recur on the input (the packets of a session, the keys of a game), and stop at
  its end.  The loops of the pager, which end only because a text has finitely many lines, are partial
  functions, and that they return is proved.  \<open>vedit_key\<close>, \<open>command_execute\<close> and the like are one turn of such a loop; relations describe
  the repetition: \<open>plays\<close> (five in a row), \<open>nav_reach\<close> (the cursor of a list), \<open>reachable\<close> (the chat
  server), \<open>draws\<close> (the operations on the screen between two refreshes), \<open>playing\<close> and \<open>spread\<close> (the mine
  sweeper: the states of a game, and the cells a dig reaches).  Random numbers are a list, consumed in order.

  \<^bold>\<open>Interfaces.\<close>  \<open>record_store\<close> (what every client of a record file relies on: a record put is the one
  got, the others stay) is interpreted on the file operations as \<open>rf\<close>; \<open>dir_index\<close> (search in a directory
  sorted by a key) on the time of an article and on its name as \<open>by_name\<close> and \<open>by_tail\<close>; \<open>narrowing\<close> (candidates
  shrink with every character typed) on the prefixes of a name as \<open>prefix\<close>.

  \<^bold>\<open>What is shown.\<close>

  \<^item> Files: batch processing keeps exactly the records the filter keeps, in their order;
    sorted directories are searched completely; deletion removes one entry; the thread index is
    the directory sorted and its marks are right.
  \<^item> Read marks: the marks stay sorted and inside their array, an article marked is read, and leaving a
    board and coming back restores its marks.  Lists: the cursor stays inside the list, the
    list of boards has exactly the boards the user may see.
  \<^item> Shared tables: a new session takes a free entry and disturbs no living one; a new user is found
    under the number he got; and two ways in which the tables answer wrongly.
  \<^item> Editor: every line stays inside its buffer; typing and deleting change the text as on plain
    lists of characters; enter and backspace undo each other.
  \<^item> Terminal: keys arrive whole however the packets are cut; the entry of a line refines
    editing of a plain string; what has been sent arrives after a flush; after \<open>refresh\<close> the terminal shows the
    picture, for every sequence of operations that leaves no gap behind the end of a line, with
    counterexamples where it does.
  \<^item> Pager: the lines cut a text without loss; the ring finds the line with any number; a page shows
    consecutive lines; every key is answered; and a line with an escape sequence is not broken.
  \<^item> Chat server: in every reachable state the rooms know their users, no command leaves its
    arrays, what is said in a room is sent to the room, a locked room is entered by invitation only.
  \<^item> Games and completion: two players see the same board; a win is decided as
    five in a row away from the edge; a dig of the mine sweeper opens what can be reached, the first one
    is safe, and the end of a game is announced rightly; completion returns a name of the list or nothing.

  \<^bold>\<open>Not modelled.\<close>  The menus and forms (src/bbs.c, announce.c, mail.c, talk.c, maintain.c and others)
  are long sequences of prompts over the operations modelled here.  Signals, the alarm
  clock, forking and the locking of files are left out: an operation runs from its beginning to its end.
  \<open>Cdate\<close> and the formatting of time are the business of the C library, whose date formats are not
  part of the source.  Output to the screen by the components other than the screen is left out, unless it
  changes their state.  lib/libZModem, sshbbsd and util/innbbsd are other packages that come with the system.
\<close>

end
